(* ===== verification/Netid.thy ===== *)
theory Netid
  imports Prelude "HOL-Library.Sublist"
begin

section \<open>Addressing: \<open>crates/common/src/netid.rs\<close>\<close>

text \<open>
  One \<open>/32\<close> per device out of the deployment's mesh CIDR: which host indices a network can
  hand out, the address of an index, the search for a free index, and the sanitiser that
  turns a user-chosen name into a DNS label.

  Third-party code is a parameter: SipHash (crate \<open>siphasher\<close>) is a function \<open>sip\<close> on
  byte strings, \<open>Ipv4Net::contains\<close> (crate \<open>ipnet\<close>) a function \<open>contains\<close>. An
  \<open>Ipv4Net\<close> value is the record of what its accessors \<open>network()\<close> and
  \<open>prefix_len()\<close> return.
\<close>

type_synonym ipv4 = u32

record ipv4net =
  net_network :: ipv4
  net_prefix :: nat

text \<open>What \<open>ipnet\<close> guarantees of every value: a prefix of at most 32 and a network address
  with its host bits zero.\<close>

definition net_ok :: "ipv4net \<Rightarrow> bool" where
  "net_ok n \<longleftrightarrow> net_prefix n \<le> 32 \<and> 2 ^ (32 - net_prefix n) dvd unat (net_network n)"

definition DEFAULT_PREFIX :: nat where
  "DEFAULT_PREFIX = 16"

definition host_count :: "ipv4net \<Rightarrow> u64" where
  "host_count n = push_bit (32 - net_prefix n) 1"

definition allocatable :: "ipv4net \<Rightarrow> u32" where
  "allocatable n = ucast (sat_sub (host_count n) 2)"

definition ipv4_octets :: "u8 \<Rightarrow> u8 \<Rightarrow> u8 \<Rightarrow> u8 \<Rightarrow> ipv4" where
  "ipv4_octets a b c d =
     push_bit 24 (ucast a) OR push_bit 16 (ucast b) OR push_bit 8 (ucast c) OR ucast d"

definition default_cidr :: "(u8 list \<Rightarrow> u64) \<Rightarrow> key \<Rightarrow> ipv4net" where
  "default_cidr sip anchor =
     (let block = ucast (sip anchor mod 64) :: u8
      in \<lparr>net_network = ipv4_octets 100 (64 + block) 0 0, net_prefix = DEFAULT_PREFIX\<rparr>)"

definition nets_overlap :: "(ipv4net \<Rightarrow> ipv4 \<Rightarrow> bool) \<Rightarrow> ipv4net \<Rightarrow> ipv4net \<Rightarrow> bool" where
  "nets_overlap contains a b \<longleftrightarrow> contains a (net_network b) \<or> contains b (net_network a)"

definition device_hint :: "(u8 list \<Rightarrow> u64) \<Rightarrow> ipv4net \<Rightarrow> key \<Rightarrow> u32" where
  "device_hint sip n pk =
     (if allocatable n = 0 then 1 else ucast (sip pk mod ucast (allocatable n)) + 1)"

definition index_is_valid :: "ipv4net \<Rightarrow> u32 \<Rightarrow> bool" where
  "index_is_valid n index \<longleftrightarrow> 1 \<le> index \<and> index \<le> allocatable n"

definition addr_from_index :: "ipv4net \<Rightarrow> u32 \<Rightarrow> ipv4" where
  "addr_from_index n index = net_network n + index"

text \<open>The probe loop of \<open>pick_free_index\<close>: \<open>for _ in 0..last\<close>, so \<open>last\<close> rounds.\<close>

definition next_index :: "u32 \<Rightarrow> u32 \<Rightarrow> u32" where
  "next_index hi idx = (if hi \<le> idx then 1 else idx + 1)"

fun probe :: "nat \<Rightarrow> u32 set \<Rightarrow> u32 \<Rightarrow> u32 \<Rightarrow> u32 option" where
  "probe 0 taken hi idx = None"
| "probe (Suc n) taken hi idx =
     (if idx \<notin> taken then Some idx else probe n taken hi (next_index hi idx))"

definition pick_free_index :: "ipv4net \<Rightarrow> u32 set \<Rightarrow> u32 \<Rightarrow> u32 option" where
  "pick_free_index n taken hint =
     (let hi = allocatable n
      in if hi = 0 then None
         else probe (unat hi) taken hi (max 1 (min hint hi)))"

subsection \<open>DNS-label sanitiser\<close>

definition dash :: char where
  "dash = CHR ''-''"

text \<open>
  The character loop. \<open>chars()\<close> walks Unicode scalars and this model bytes: a non-ASCII
  scalar is a run of bytes none of which is ASCII alphanumeric, and a run collapses to one
  dash either way.
\<close>

fun san_loop :: "string \<Rightarrow> bool \<Rightarrow> string \<Rightarrow> string" where
  "san_loop out prev_dash [] = out"
| "san_loop out prev_dash (c # cs) =
     (let lc = to_lower c
      in if is_alnum lc then san_loop (out @ [lc]) False cs
         else if out \<noteq> [] \<and> \<not> prev_dash then san_loop (out @ [dash]) True cs
         else san_loop out prev_dash cs)"

definition trim_end_dash :: "string \<Rightarrow> string" where
  "trim_end_dash s = rev (dropWhile (\<lambda>c. c = dash) (rev s))"

definition sanitize_label :: "string \<Rightarrow> string" where
  "sanitize_label s =
     (let out = trim_end_dash (san_loop [] False s);
          out = (if out = [] then ''device'' else out)
      in take 63 out)"

subsection \<open>Indices and addresses\<close>

lemma unat_pow2: "k < LENGTH('a::len) \<Longrightarrow> unat (2 ^ k :: 'a word) = 2 ^ k"
proof -
  assume "k < LENGTH('a)"
  then have "(2::nat) ^ k < 2 ^ LENGTH('a)" by simp
  moreover have "(2 ^ k :: 'a word) = of_nat (2 ^ k)" by simp
  ultimately show ?thesis by (metis unat_of_nat mod_less)
qed

lemma unat_host_count: "net_prefix n \<le> 32 \<Longrightarrow> unat (host_count n) = 2 ^ (32 - net_prefix n)"
  by (simp add: host_count_def push_bit_eq_mult unat_pow2)

lemma unat_allocatable:
  assumes "net_prefix n \<le> 32"
  shows "unat (allocatable n) = 2 ^ (32 - net_prefix n) - 2"
proof -
  have le: "(2::nat) ^ (32 - net_prefix n) \<le> 2 ^ 32"
    by (rule power_increasing) auto
  have "unat (sat_sub (host_count n) 2) = 2 ^ (32 - net_prefix n) - 2"
    by (simp add: unat_sat_sub unat_host_count [OF assms])
  moreover have "(2::nat) ^ (32 - net_prefix n) - 2 < 2 ^ 32"
    using le by (simp add: less_imp_diff_less le_less_trans)
  ultimately show ?thesis
    by (simp add: allocatable_def unsigned_ucast_eq take_bit_eq_mod)
qed

lemma addr_from_index_inj:
  assumes "index_is_valid n i" and "index_is_valid n j"
  shows "addr_from_index n i = addr_from_index n j \<longleftrightarrow> i = j"
  by (simp add: addr_from_index_def)

text \<open>Every address handed out lies strictly between the network and the broadcast address.\<close>

lemma addr_from_index_range:
  assumes ok: "net_ok n" and v: "index_is_valid n i"
  shows "unat (net_network n) < unat (addr_from_index n i)"
    and "unat (addr_from_index n i) < unat (net_network n) + 2 ^ (32 - net_prefix n) - 1"
proof -
  let ?h = "(2::nat) ^ (32 - net_prefix n)"
  from ok have p: "net_prefix n \<le> 32" and d: "?h dvd unat (net_network n)"
    by (simp_all add: net_ok_def)
  have i: "1 \<le> unat i" "unat i \<le> ?h - 2"
    using v unat_allocatable [OF p]
    by (simp_all add: index_is_valid_def word_le_nat_alt)
  have hd: "?h dvd 2 ^ 32" by (rule le_imp_power_dvd) simp
  have "unat (net_network n) < 2 ^ 32" using unsigned_less [of "net_network n", where ?'a = nat] by simp
  then have "?h \<le> 2 ^ 32 - unat (net_network n)"
    using d hd by (intro dvd_imp_le dvd_diff_nat) auto
  then have "unat (net_network n) + ?h \<le> 2 ^ 32"
    using \<open>unat (net_network n) < 2 ^ 32\<close> by linarith
  with i have "unat (net_network n) + unat i < 2 ^ 32" by linarith
  then have "unat (addr_from_index n i) = unat (net_network n) + unat i"
    by (simp add: addr_from_index_def unat_word_ariths)
  with i show "unat (net_network n) < unat (addr_from_index n i)"
    and "unat (addr_from_index n i) < unat (net_network n) + ?h - 1"
    by linarith+
qed

subsection \<open>The free-index search\<close>

lemma probe_None: "probe n taken hi idx = None \<longleftrightarrow> (\<forall>k<n. (next_index hi ^^ k) idx \<in> taken)"
proof (induction n arbitrary: idx)
  case 0
  then show ?case by simp
next
  case (Suc n)
  have "(\<forall>k<Suc n. (next_index hi ^^ k) idx \<in> taken) \<longleftrightarrow>
        idx \<in> taken \<and> (\<forall>k<n. (next_index hi ^^ k) (next_index hi idx) \<in> taken)"
    by (auto simp: less_Suc_eq_0_disj funpow_Suc_right simp del: funpow.simps(2))
  with Suc show ?case by simp
qed

lemma probe_Some:
  "probe n taken hi idx = Some i \<Longrightarrow>
   \<exists>k<n. i = (next_index hi ^^ k) idx \<and> i \<notin> taken \<and> (\<forall>j<k. (next_index hi ^^ j) idx \<in> taken)"
proof (induction n arbitrary: idx)
  case 0
  then show ?case by simp
next
  case (Suc n)
  show ?case
  proof (cases "idx \<in> taken")
    case False
    with Suc.prems show ?thesis by (intro exI [of _ 0]) auto
  next
    case True
    with Suc obtain k where k: "k < n" "i = (next_index hi ^^ k) (next_index hi idx)"
      "i \<notin> taken" "\<forall>j<k. (next_index hi ^^ j) (next_index hi idx) \<in> taken"
      by auto
    have "(next_index hi ^^ j) idx \<in> taken" if "j < Suc k" for j
      using True k(4) that by (cases j) (simp_all add: funpow_Suc_right del: funpow.simps)
    with k show ?thesis
      by (intro exI [of _ "Suc k"]) (simp add: funpow_Suc_right del: funpow.simps)
  qed
qed

lemma unat_next_index:
  assumes "1 \<le> unat idx" and "unat idx \<le> unat hi"
  shows "unat (next_index hi idx) = unat idx mod unat hi + 1"
proof (cases "hi \<le> idx")
  case True
  with assms have "unat idx = unat hi" by (simp add: word_le_nat_alt)
  with True show ?thesis by (simp add: next_index_def)
next
  case False
  then have lt: "unat idx < unat hi" by (simp add: word_less_nat_alt not_le)
  have "unat hi < 2 ^ 32" using unsigned_less [of hi, where ?'a = nat] by simp
  with lt have "unat (idx + 1) = unat idx + 1" by (simp add: unat_word_ariths)
  with False lt show ?thesis by (simp add: next_index_def)
qed

lemma unat_visit:
  assumes "1 \<le> unat idx" and "unat idx \<le> unat hi"
  shows "unat ((next_index hi ^^ k) idx) = (unat idx - 1 + k) mod unat hi + 1"
proof (induction k)
  case 0
  with assms show ?case by simp
next
  case (Suc k)
  let ?v = "(next_index hi ^^ k) idx"
  from assms have "0 < unat hi" by simp
  then have "(unat idx - 1 + k) mod unat hi < unat hi" by simp
  with Suc have "1 \<le> unat ?v" "unat ?v \<le> unat hi" by simp_all
  then have "unat (next_index hi ?v) = unat ?v mod unat hi + 1" by (rule unat_next_index)
  with Suc show ?case by (simp add: mod_Suc_eq)
qed

lemma visit_range:
  assumes "1 \<le> unat idx" and "unat idx \<le> unat hi"
  shows "1 \<le> unat ((next_index hi ^^ k) idx) \<and> unat ((next_index hi ^^ k) idx) \<le> unat hi"
proof -
  have "(unat idx - 1 + k) mod unat hi < unat hi" using assms by (intro mod_less_divisor) simp
  then show ?thesis by (simp add: unat_visit [OF assms])
qed

lemma visit_surj:
  assumes i: "1 \<le> unat idx" "unat idx \<le> unat hi" and v: "1 \<le> unat v" "unat v \<le> unat hi"
  shows "\<exists>k<unat hi. (next_index hi ^^ k) idx = v"
proof -
  let ?H = "unat hi" and ?a = "unat idx - 1" and ?b = "unat v - 1"
  let ?k = "(?b + (?H - ?a)) mod ?H"
  have "(?a + ?k) mod ?H = (?a + (?b + (?H - ?a))) mod ?H" by (simp add: mod_add_right_eq)
  also have "?a + (?b + (?H - ?a)) = ?b + ?H" using i by simp
  also have "(?b + ?H) mod ?H = ?b mod ?H" by (rule mod_add_self2)
  also have "?b mod ?H = ?b" using v by (intro mod_less) linarith
  finally have "unat ((next_index hi ^^ ?k) idx) = unat v"
    using v by (simp add: unat_visit [OF i])
  moreover have "?k < ?H" using i by (intro mod_less_divisor) simp
  ultimately show ?thesis by (auto simp: word_unat_eq_iff)
qed

lemma start_index:
  assumes "allocatable n \<noteq> 0"
  shows "1 \<le> unat (max 1 (min hint (allocatable n)))"
    and "unat (max 1 (min hint (allocatable n))) \<le> unat (allocatable n)"
proof -
  have "1 \<le> allocatable n" using assms by (simp add: word_le_nat_alt unat_gt_0 Suc_le_eq)
  then have "1 \<le> max 1 (min hint (allocatable n))"
    and "max 1 (min hint (allocatable n)) \<le> allocatable n" by simp_all
  then show "1 \<le> unat (max 1 (min hint (allocatable n)))"
    and "unat (max 1 (min hint (allocatable n))) \<le> unat (allocatable n)"
    by (simp_all add: word_le_nat_alt)
qed

lemma pick_free_index_Some:
  assumes "pick_free_index n taken hint = Some i"
  shows "index_is_valid n i" and "i \<notin> taken"
proof -
  from assms have a: "allocatable n \<noteq> 0" by (auto simp: pick_free_index_def Let_def)
  let ?s = "max 1 (min hint (allocatable n))"
  from assms a have "probe (unat (allocatable n)) taken (allocatable n) ?s = Some i"
    by (simp add: pick_free_index_def Let_def)
  from probe_Some [OF this] obtain k where
    k: "i = (next_index (allocatable n) ^^ k) ?s" and nt: "i \<notin> taken" by blast
  from nt show "i \<notin> taken" .
  from k visit_range [OF start_index [OF a]] show "index_is_valid n i"
    by (simp add: index_is_valid_def word_le_nat_alt)
qed

lemma pick_free_index_None:
  "pick_free_index n taken hint = None \<longleftrightarrow> (\<forall>i. index_is_valid n i \<longrightarrow> i \<in> taken)"
proof (cases "allocatable n = 0")
  case True
  then show ?thesis
    by (auto simp: pick_free_index_def index_is_valid_def)
next
  case a: False
  let ?s = "max 1 (min hint (allocatable n))"
  have "pick_free_index n taken hint = None \<longleftrightarrow>
      (\<forall>k<unat (allocatable n). (next_index (allocatable n) ^^ k) ?s \<in> taken)"
    using a by (simp add: pick_free_index_def probe_None Let_def)
  also have "\<dots> \<longleftrightarrow> (\<forall>i. index_is_valid n i \<longrightarrow> i \<in> taken)"
  proof (intro iffI allI impI)
    fix i assume t: "\<forall>k<unat (allocatable n). (next_index (allocatable n) ^^ k) ?s \<in> taken"
      and "index_is_valid n i"
    then have "1 \<le> unat i" "unat i \<le> unat (allocatable n)"
      by (simp_all add: index_is_valid_def word_le_nat_alt)
    then obtain k where "k < unat (allocatable n)" "(next_index (allocatable n) ^^ k) ?s = i"
      using visit_surj [OF start_index [OF a]] by metis
    with t show "i \<in> taken" by auto
  next
    fix k assume "\<forall>i. index_is_valid n i \<longrightarrow> i \<in> taken"
    moreover have "index_is_valid n ((next_index (allocatable n) ^^ k) ?s)"
      using visit_range [OF start_index [OF a]] by (simp add: index_is_valid_def word_le_nat_alt)
    ultimately show "(next_index (allocatable n) ^^ k) ?s \<in> taken" by blast
  qed
  finally show ?thesis .
qed

subsection \<open>What the sanitiser produces\<close>

definition label_char :: "char \<Rightarrow> bool" where
  "label_char c \<longleftrightarrow> is_lower c \<or> is_digit c \<or> c = dash"

definition no_double_dash :: "string \<Rightarrow> bool" where
  "no_double_dash s \<longleftrightarrow> successively (\<lambda>a b. \<not> (a = dash \<and> b = dash)) s"

text \<open>A label DNS accepts, up to the last character (which may be a dash, see below).\<close>

definition dns_label :: "string \<Rightarrow> bool" where
  "dns_label s \<longleftrightarrow> s \<noteq> [] \<and> length s \<le> 63 \<and> (\<forall>c\<in>set s. label_char c) \<and>
     hd s \<noteq> dash \<and> no_double_dash s"

lemma alnum_lower: "is_alnum (to_lower c) \<longleftrightarrow> is_lower (to_lower c) \<or> is_digit (to_lower c)"
  by (auto simp: is_alnum_def)

lemma dash_not_alnum [simp]: "\<not> is_alnum dash" "\<not> is_lower dash" "\<not> is_digit dash" "to_lower dash = dash"
  by (simp_all add: dash_def is_alnum_def is_lower_def is_digit_def is_upper_def to_lower_def)

lemma lower_or_digit_fixed: "is_lower c \<or> is_digit c \<Longrightarrow> to_lower c = c \<and> is_alnum c"
  by (auto simp: to_lower_def is_alnum_def is_lower_def is_digit_def is_upper_def)

definition san_state :: "string \<Rightarrow> bool \<Rightarrow> bool" where
  "san_state out pd \<longleftrightarrow> (\<forall>c\<in>set out. label_char c) \<and> (out \<noteq> [] \<longrightarrow> hd out \<noteq> dash) \<and>
     no_double_dash out \<and> (pd \<longleftrightarrow> out \<noteq> [] \<and> List.last out = dash)"

lemma san_state_alnum:
  "san_state out pd \<Longrightarrow> is_alnum (to_lower c) \<Longrightarrow> san_state (out @ [to_lower c]) False"
  by (auto simp: san_state_def label_char_def alnum_lower no_double_dash_def
      successively_append_iff hd_append)

lemma san_state_dash:
  "san_state out False \<Longrightarrow> out \<noteq> [] \<Longrightarrow> san_state (out @ [dash]) True"
  by (auto simp: san_state_def label_char_def no_double_dash_def successively_append_iff hd_append)

lemma san_loop_state: "san_state out pd \<Longrightarrow> \<exists>pd'. san_state (san_loop out pd cs) pd'"
proof (induction cs arbitrary: out pd)
  case Nil
  then show ?case by auto
next
  case (Cons c cs)
  then show ?case
    by (auto simp: Let_def san_state_alnum san_state_dash)
qed

lemma trim_end_dash_take: "\<exists>k. trim_end_dash s = take k s"
proof -
  have "prefix (rev (dropWhile (\<lambda>c. c = dash) (rev s))) s"
    by (metis rev_rev_ident suffix_dropWhile suffix_to_prefix)
  then show ?thesis
    by (metis prefix_def append_eq_conv_conj trim_end_dash_def)
qed

lemma no_double_dash_take: "no_double_dash s \<Longrightarrow> no_double_dash (take k s)"
  by (metis append_take_drop_id no_double_dash_def successively_append_iff)

lemma trim_end_dash_last: "trim_end_dash s \<noteq> [] \<Longrightarrow> List.last (trim_end_dash s) \<noteq> dash"
  by (metis (full_types) hd_dropWhile last_rev rev_is_Nil_conv trim_end_dash_def)

lemma device_label: "dns_label ''device''"
  by (simp add: dns_label_def label_char_def is_lower_def no_double_dash_def dash_def)

lemma dns_label_take:
  assumes "\<forall>c\<in>set s. label_char c" "hd s \<noteq> dash" "no_double_dash s" "s \<noteq> []"
  shows "dns_label (take 63 s)"
  using assms no_double_dash_take [of s 63]
  by (auto simp: dns_label_def hd_take dest: in_set_takeD)

lemma sanitize_label_dns: "dns_label (sanitize_label s)"
proof -
  define r where "r = san_loop [] False s"
  have "san_state [] False" by (simp add: san_state_def no_double_dash_def)
  from san_loop_state [OF this] have st: "\<exists>pd. san_state r pd" by (simp add: r_def)
  obtain k where k: "trim_end_dash r = take k r" using trim_end_dash_take by blast
  show ?thesis
  proof (cases "trim_end_dash r = []")
    case True
    then have "sanitize_label s = take 63 ''device''"
      unfolding sanitize_label_def Let_def r_def [symmetric] by (simp only: simp_thms if_True)
    then show ?thesis using device_label by simp
  next
    case False
    then have e: "sanitize_label s = take 63 (take k r)"
      unfolding sanitize_label_def Let_def r_def [symmetric] by (simp add: k)
    from False k have "take k r \<noteq> []" by simp
    moreover from this st have "hd (take k r) \<noteq> dash"
      by (cases r) (auto simp: san_state_def)
    moreover from st have "\<forall>c\<in>set (take k r). label_char c"
      by (auto simp: san_state_def dest: in_set_takeD)
    moreover from st have "no_double_dash (take k r)"
      by (auto simp: san_state_def no_double_dash_take)
    ultimately show ?thesis unfolding e by (intro dns_label_take)
  qed
qed

lemma san_loop_fixed:
  assumes "\<forall>c\<in>set cs. label_char c" and "no_double_dash (out @ cs)"
    and "out @ cs \<noteq> [] \<longrightarrow> hd (out @ cs) \<noteq> dash" and "pd \<longleftrightarrow> out \<noteq> [] \<and> List.last out = dash"
  shows "san_loop out pd cs = out @ cs"
  using assms
proof (induction cs arbitrary: out pd)
  case Nil
  then show ?case by simp
next
  case (Cons c cs)
  show ?case
  proof (cases "c = dash")
    case True
    with Cons.prems have "out \<noteq> []" by auto
    moreover from this True Cons.prems have "\<not> pd"
      by (auto simp: no_double_dash_def successively_append_iff)
    ultimately show ?thesis using True Cons.prems Cons.IH [of "out @ [dash]" True] by simp
  next
    case False
    with Cons.prems have "to_lower c = c" "is_alnum c"
      using lower_or_digit_fixed [of c] by (auto simp: label_char_def)
    with False Cons.prems Cons.IH [of "out @ [c]" False] show ?thesis by simp
  qed
qed

lemma trim_end_dash_fixed: "s = [] \<or> List.last s \<noteq> dash \<Longrightarrow> trim_end_dash s = s"
  by (cases s rule: rev_cases) (auto simp: trim_end_dash_def)

text \<open>
  The sanitiser always produces a DNS label: not empty, at most 63 characters out of
  \<open>[a-z0-9-]\<close>, no leading dash, no two dashes in a row; and a label that is already of
  this shape and does not end in a dash comes back unchanged, whatever the input was.\<close>

theorem sanitize_label_wellformed:
  "dns_label (sanitize_label s) \<and>
   (dns_label t \<and> List.last t \<noteq> dash \<longrightarrow> sanitize_label t = t)"
proof (intro conjI impI)
  show "dns_label (sanitize_label s)" by (rule sanitize_label_dns)
  assume t: "dns_label t \<and> List.last t \<noteq> dash"
  then have "san_loop [] False t = t"
    by (intro san_loop_fixed [of t "[]" False, simplified]) (auto simp: dns_label_def)
  with t show "sanitize_label t = t"
    by (simp add: sanitize_label_def trim_end_dash_fixed dns_label_def)
qed

theorem sanitize_label_wellformed_witness:
  "sanitize_label ''nas-2'' = ''nas-2'' \<and> dns_label (sanitize_label ''Bob's NAS!'')"
proof -
  have "dns_label ''nas-2'' \<and> List.last ''nas-2'' \<noteq> dash"
    by (simp add: dns_label_def label_char_def is_lower_def is_digit_def dash_def no_double_dash_def)
  then show ?thesis
    using sanitize_label_wellformed [of "''Bob's NAS!''" "''nas-2''"] by simp
qed

end
