(* ===== verification/SanitizeCap.thy ===== *)
theory SanitizeCap
  imports Netid
begin

section \<open>The sanitiser at its length cap\<close>

text \<open>
  One boundary of \<open>sanitize_label\<close> evaluated on a concrete name; kept apart from
  \<open>Netid\<close> because the evaluation is long.
\<close>

text \<open>
  The cap is applied after the dashes were trimmed: a name whose 63rd kept character is a
  dash is returned with that dash at the end, which is not a label DNS accepts, and
  sanitising it again gives a different label.\<close>

definition long_name :: string where
  "long_name = replicate 62 (CHR ''a'') @ '' b''"

theorem sanitize_label_trailing_dash:
  "List.last (sanitize_label long_name) = dash \<and>
   sanitize_label (sanitize_label long_name) \<noteq> sanitize_label long_name"
proof -
  have "sanitize_label long_name = replicate 62 (CHR ''a'') @ ''-''"
    by code_simp
  moreover have "sanitize_label (replicate 62 (CHR ''a'') @ ''-'') = replicate 62 (CHR ''a'')"
    by code_simp
  ultimately show ?thesis by (simp add: dash_def)
qed

end
