(* ===== verification/Proto.thy ===== *)
theory Proto
  imports Prelude
begin

section \<open>Protocol constants and version negotiation: \<open>crates/common/src/lib.rs\<close>\<close>

text \<open>
  The wire-version window and the deployment constants the other components use, and
  \<open>negotiate_proto\<close>, which decides the version spoken with a peer.
\<close>

definition PROTOCOL_VERSION :: u32 where "PROTOCOL_VERSION = 5"
definition MIN_PROTOCOL_VERSION :: u32 where "MIN_PROTOCOL_VERSION = 4"

definition ENROLL_PROOF :: string where "ENROLL_PROOF = ''enroll-proof''"
definition CAPABILITIES :: "string list" where "CAPABILITIES = [ENROLL_PROOF]"

definition ATTESTATION_TTL_SECS :: u64 where "ATTESTATION_TTL_SECS = 30 * 60"
definition LONGPOLL_HOLD_SECS :: u64 where "LONGPOLL_HOLD_SECS = ATTESTATION_TTL_SECS div 2"
definition PRESENCE_TTL_SECS :: u64 where "PRESENCE_TTL_SECS = LONGPOLL_HOLD_SECS * 2 + 60"
definition DNS_SUFFIX :: string where "DNS_SUFFIX = ''unity.internal''"
definition RELAY_CRED_TTL_SECS :: u64 where "RELAY_CRED_TTL_SECS = 3600"
definition ENROLLMENT_KEY_TTL_SECS :: u64 where "ENROLLMENT_KEY_TTL_SECS = 15 * 60"

datatype proto_reject = PeerTooOld | PeerTooNew

definition negotiate_proto :: "u32 \<Rightarrow> u32 \<Rightarrow> proto_reject + u32" where
  "negotiate_proto peer_min peer_max =
     (if peer_max = 0 then Inr MIN_PROTOCOL_VERSION
      else let peer_min = (if peer_min = 0 then peer_max else peer_min) in
        if peer_max < MIN_PROTOCOL_VERSION then Inl PeerTooOld
        else if PROTOCOL_VERSION < peer_min then Inl PeerTooNew
        else Inr (min peer_max PROTOCOL_VERSION))"

text \<open>The versions both sides speak, for a peer that names its ceiling.\<close>

definition common_versions :: "u32 \<Rightarrow> u32 \<Rightarrow> u32 set" where
  "common_versions peer_min peer_max =
     {v. (if peer_min = 0 then peer_max else peer_min) \<le> v \<and> v \<le> peer_max \<and>
         MIN_PROTOCOL_VERSION \<le> v \<and> v \<le> PROTOCOL_VERSION}"

lemmas proto_defs = negotiate_proto_def common_versions_def PROTOCOL_VERSION_def
  MIN_PROTOCOL_VERSION_def Let_def

lemma negotiate_Inr_window:
  "negotiate_proto a b = Inr v \<Longrightarrow> MIN_PROTOCOL_VERSION \<le> v \<and> v \<le> PROTOCOL_VERSION"
  by (auto simp: proto_defs not_less split: if_splits)

text \<open>
  With a peer whose range is not inverted, negotiation answers the highest version both
  sides speak when there is one, and otherwise refuses; the refusal says the peer is too
  old exactly when its ceiling lies below our floor, and too new exactly when its floor
  lies above our ceiling.\<close>

theorem negotiate_proto_spec:
  assumes "peer_max \<noteq> 0" and "peer_min \<le> peer_max"
  shows "(negotiate_proto peer_min peer_max = Inr v \<longleftrightarrow>
            v \<in> common_versions peer_min peer_max \<and>
            (\<forall>w\<in>common_versions peer_min peer_max. w \<le> v)) \<and>
         (negotiate_proto peer_min peer_max = Inl PeerTooOld \<longleftrightarrow> peer_max < MIN_PROTOCOL_VERSION) \<and>
         (negotiate_proto peer_min peer_max = Inl PeerTooNew \<longleftrightarrow>
            (if peer_min = 0 then peer_max else peer_min) > PROTOCOL_VERSION) \<and>
         ((\<exists>e. negotiate_proto peer_min peer_max = Inl e) \<longleftrightarrow>
            common_versions peer_min peer_max = {})"
proof -
  let ?lo = "if peer_min = 0 then peer_max else peer_min"
  have lo: "?lo \<le> peer_max" using assms by simp
  have win: "MIN_PROTOCOL_VERSION \<le> PROTOCOL_VERSION"
    by (simp add: PROTOCOL_VERSION_def MIN_PROTOCOL_VERSION_def)
  have eq: "negotiate_proto peer_min peer_max =
      (if peer_max < MIN_PROTOCOL_VERSION then Inl PeerTooOld
       else if PROTOCOL_VERSION < ?lo then Inl PeerTooNew else Inr (min peer_max PROTOCOL_VERSION))"
    using assms by (simp add: negotiate_proto_def Let_def)
  have mem: "min peer_max PROTOCOL_VERSION \<in> common_versions peer_min peer_max"
    if "\<not> peer_max < MIN_PROTOCOL_VERSION" "\<not> PROTOCOL_VERSION < ?lo"
    using that lo win by (auto simp: common_versions_def min_def)
  have top: "w \<le> min peer_max PROTOCOL_VERSION" if "w \<in> common_versions peer_min peer_max" for w
    using that by (auto simp: common_versions_def)
  have none: "common_versions peer_min peer_max = {}"
    if "peer_max < MIN_PROTOCOL_VERSION \<or> PROTOCOL_VERSION < ?lo"
    using that by (auto simp: common_versions_def)
  have "negotiate_proto peer_min peer_max = Inr v \<longleftrightarrow>
      v \<in> common_versions peer_min peer_max \<and> (\<forall>w\<in>common_versions peer_min peer_max. w \<le> v)"
    (is "_ \<longleftrightarrow> ?max")
  proof (cases "peer_max < MIN_PROTOCOL_VERSION \<or> PROTOCOL_VERSION < ?lo")
    case True
    then show ?thesis unfolding eq using none by auto
  next
    case False
    then have "negotiate_proto peer_min peer_max = Inr (min peer_max PROTOCOL_VERSION)"
      unfolding eq by simp
    moreover have "?max \<longleftrightarrow> v = min peer_max PROTOCOL_VERSION"
      using mem top False by (auto intro: order_antisym)
    ultimately show ?thesis by auto
  qed
  moreover have "negotiate_proto peer_min peer_max = Inl PeerTooOld \<longleftrightarrow> peer_max < MIN_PROTOCOL_VERSION"
    unfolding eq by auto
  moreover have "negotiate_proto peer_min peer_max = Inl PeerTooNew \<longleftrightarrow> ?lo > PROTOCOL_VERSION"
    using lo win unfolding eq by (auto simp: not_less)
  moreover have "(\<exists>e. negotiate_proto peer_min peer_max = Inl e) \<longleftrightarrow>
      common_versions peer_min peer_max = {}"
    using mem none unfolding eq
    by (cases "peer_max < MIN_PROTOCOL_VERSION"; cases "PROTOCOL_VERSION < ?lo") auto
  ultimately show ?thesis by blast
qed

theorem negotiate_proto_spec_witness:
  "4 \<in> common_versions 3 4 \<and> negotiate_proto 3 4 = Inr 4 \<and> negotiate_proto 6 7 = Inl PeerTooNew"
proof -
  have "negotiate_proto 3 4 = Inr 4"
    by (simp add: negotiate_proto_def MIN_PROTOCOL_VERSION_def PROTOCOL_VERSION_def)
  then show ?thesis
    using negotiate_proto_spec [of 4 3 4] negotiate_proto_spec [of 7 6]
    by (simp add: PROTOCOL_VERSION_def)
qed

end
