(* ===== verification/Attestation.thy ===== *)
theory Attestation
  imports Wire
begin

section \<open>Attestations: \<open>crates/common/src/attestation.rs\<close>\<close>

text \<open>
  The coordinator-signed unit of identity, its two wire layouts, and the check a client
  makes before it believes one.
\<close>

definition ATTESTATION_SCHEMA_V1 :: u32 where "ATTESTATION_SCHEMA_V1 = 0"
definition ATTESTATION_SCHEMA_V2 :: u32 where "ATTESTATION_SCHEMA_V2 = 1"
definition PERSONAL_SCOPE :: u64 where "PERSONAL_SCOPE = 0"

record attestation =
  at_guild_id :: u64
  at_user_id :: u64
  at_username :: string
  at_device_name :: string
  at_is_primary :: bool
  at_wg_ip :: ipv4
  at_wg_net :: ipv4net
  at_wg_pubkey :: key
  at_issued_at :: u64
  at_expires_at :: u64

record attestation_v2 =
  v2_schema :: u32
  v2_guild_id :: u64
  v2_user_id :: u64
  v2_username :: string
  v2_device_name :: string
  v2_is_primary :: bool
  v2_wg_ip :: ipv4
  v2_wg_net :: ipv4net
  v2_wg_pubkey :: key
  v2_issued_at :: u64
  v2_expires_at :: u64

definition attestation_of_v2 :: "attestation_v2 \<Rightarrow> attestation" where
  "attestation_of_v2 v =
     \<lparr>at_guild_id = v2_guild_id v, at_user_id = v2_user_id v, at_username = v2_username v,
      at_device_name = v2_device_name v, at_is_primary = v2_is_primary v,
      at_wg_ip = v2_wg_ip v, at_wg_net = v2_wg_net v, at_wg_pubkey = v2_wg_pubkey v,
      at_issued_at = v2_issued_at v, at_expires_at = v2_expires_at v\<rparr>"

definition v2_from_att :: "attestation \<Rightarrow> attestation_v2" where
  "v2_from_att a =
     \<lparr>v2_schema = ATTESTATION_SCHEMA_V2, v2_guild_id = at_guild_id a, v2_user_id = at_user_id a,
      v2_username = at_username a, v2_device_name = at_device_name a,
      v2_is_primary = at_is_primary a, v2_wg_ip = at_wg_ip a, v2_wg_net = at_wg_net a,
      v2_wg_pubkey = at_wg_pubkey a, v2_issued_at = at_issued_at a,
      v2_expires_at = at_expires_at a\<rparr>"

datatype attestation_error =
    Wire wire_error
  | Expired
  | GuildMismatch u64 u64
  | SchemaMismatch u32 u32
  | UnknownSchema u32

text \<open>\<open>postcard\<close> at the two layouts.\<close>

record att_codecs =
  codec_v1 :: "attestation codec"
  codec_v2 :: "attestation_v2 codec"

definition att_codecs_ok :: "att_codecs \<Rightarrow> bool" where
  "att_codecs_ok k \<longleftrightarrow> codec_ok (codec_v1 k) \<and> codec_ok (codec_v2 k)"

definition map_err :: "('e \<Rightarrow> 'f) \<Rightarrow> 'e + 'a \<Rightarrow> 'f + 'a" where
  "map_err f r = (case r of Inl e \<Rightarrow> Inl (f e) | Inr a \<Rightarrow> Inr a)"

definition sign_attestation ::
  "crypto \<Rightarrow> att_codecs \<Rightarrow> key \<Rightarrow> attestation \<Rightarrow> u32 \<Rightarrow> attestation_error + signed" where
  "sign_attestation c k key att schema =
     (if schema = ATTESTATION_SCHEMA_V1 then map_err Wire (signed_sign c (codec_v1 k) key att)
      else if schema = ATTESTATION_SCHEMA_V2
      then map_err Wire (signed_sign c (codec_v2 k) key (v2_from_att att))
      else Inl (UnknownSchema schema))"

definition is_expired :: "attestation \<Rightarrow> u64 \<Rightarrow> bool" where
  "is_expired a now \<longleftrightarrow> at_expires_at a \<le> now"

definition hostname :: "attestation \<Rightarrow> string" where
  "hostname a = at_device_name a @ ''.'' @ at_username a @ ''.'' @ DNS_SUFFIX"

definition primary_alias :: "attestation \<Rightarrow> string option" where
  "primary_alias a = (if at_is_primary a then Some (at_username a @ ''.'' @ DNS_SUFFIX) else None)"

definition verify_attestation ::
  "crypto \<Rightarrow> att_codecs \<Rightarrow> signed \<Rightarrow> key \<Rightarrow> u64 \<Rightarrow> u64 \<Rightarrow> u32 \<Rightarrow> attestation_error + attestation" where
  "verify_attestation c k s anchor now expected_guild schema =
     bindR
       (if schema = ATTESTATION_SCHEMA_V1 then map_err Wire (signed_verify c (codec_v1 k) s anchor)
        else if schema = ATTESTATION_SCHEMA_V2
        then bindR (map_err Wire (signed_verify c (codec_v2 k) s anchor)) (\<lambda>v2.
               if v2_schema v2 \<noteq> ATTESTATION_SCHEMA_V2
               then Inl (SchemaMismatch ATTESTATION_SCHEMA_V2 (v2_schema v2))
               else Inr (attestation_of_v2 v2))
        else Inl (UnknownSchema schema))
       (\<lambda>att.
         if at_guild_id att \<noteq> expected_guild
         then Inl (GuildMismatch expected_guild (at_guild_id att))
         else if is_expired att now then Inl Expired
         else Inr att)"

subsection \<open>Lemmas\<close>

lemma map_err_eq_Inr [simp]: "map_err f r = Inr a \<longleftrightarrow> r = Inr a"
  by (cases r) (auto simp: map_err_def)

lemma map_err_Inr [simp]: "map_err f (Inr a) = Inr a"
  by (simp add: map_err_def)

lemma attestation_of_v2_from_att [simp]: "attestation_of_v2 (v2_from_att a) = a"
  by (simp add: attestation_of_v2_def v2_from_att_def)

lemma v2_schema_from_att [simp]: "v2_schema (v2_from_att a) = ATTESTATION_SCHEMA_V2"
  by (simp add: v2_from_att_def)

lemma schema_distinct [simp]:
  "ATTESTATION_SCHEMA_V1 \<noteq> ATTESTATION_SCHEMA_V2" "ATTESTATION_SCHEMA_V2 \<noteq> ATTESTATION_SCHEMA_V1"
  by (simp_all add: ATTESTATION_SCHEMA_V1_def ATTESTATION_SCHEMA_V2_def)

lemma verify_attestation_Inr:
  "verify_attestation c k s anchor now g schema = Inr att \<longleftrightarrow>
     length (sig s) = 64 \<and> ed_verify c anchor (payload s) (sig s) \<and>
     (schema = ATTESTATION_SCHEMA_V1 \<and> dec_of (codec_v1 k) (payload s) = Some att \<or>
      schema = ATTESTATION_SCHEMA_V2 \<and>
        (\<exists>v2. dec_of (codec_v2 k) (payload s) = Some v2 \<and> v2_schema v2 = ATTESTATION_SCHEMA_V2 \<and>
              att = attestation_of_v2 v2)) \<and>
     at_guild_id att = g \<and> now < at_expires_at att"
  unfolding verify_attestation_def bindR_eq_Inr is_expired_def
  by (auto simp: signed_verify_Inr bindR_eq_Inr not_le split: if_splits)

lemma sign_attestation_Inr:
  "sign_attestation c k key att schema = Inr s \<Longrightarrow>
   schema = ATTESTATION_SCHEMA_V1 \<or> schema = ATTESTATION_SCHEMA_V2"
  by (auto simp: sign_attestation_def split: if_splits)

lemma sign_verify_attestation:
  assumes "signing_ok c" and "att_codecs_ok k" and "sign_attestation c k key att schema = Inr s"
  shows "verify_attestation c k s (ed_anchor c key) now g schema =
     (if at_guild_id att \<noteq> g then Inl (GuildMismatch g (at_guild_id att))
      else if is_expired att now then Inl Expired else Inr att)"
proof -
  have k: "codec_ok (codec_v1 k)" "codec_ok (codec_v2 k)"
    using assms(2) by (simp_all add: att_codecs_ok_def)
  consider "schema = ATTESTATION_SCHEMA_V1" "signed_sign c (codec_v1 k) key att = Inr s"
    | "schema = ATTESTATION_SCHEMA_V2" "signed_sign c (codec_v2 k) key (v2_from_att att) = Inr s"
    using assms(3) by (auto simp: sign_attestation_def split: if_splits)
  then show ?thesis
    by cases (simp_all add: verify_attestation_def signed_roundtrip [OF assms(1) k(1)]
        signed_roundtrip [OF assms(1) k(2)])
qed

text \<open>
  What a guild's key signs, in either layout, a client that pinned this key for this guild
  reads back unchanged until it expires; for another guild it is refused naming both
  guilds, and from its expiry second on it is refused as expired. Signing succeeds only in
  the two known layouts.\<close>

theorem attestation_roundtrip:
  assumes "signing_ok c" and "att_codecs_ok k" and "sign_attestation c k key att schema = Inr s"
  shows "verify_attestation c k s (ed_anchor c key) now g schema =
     (if at_guild_id att \<noteq> g then Inl (GuildMismatch g (at_guild_id att))
      else if is_expired att now then Inl Expired else Inr att)
    \<and> schema \<in> {ATTESTATION_SCHEMA_V1, ATTESTATION_SCHEMA_V2}"
  using sign_verify_attestation [OF assms] sign_attestation_Inr [OF assms(3)] by blast

text \<open>
  Whatever bytes arrive, an attestation is accepted only if the blob carries a 64-byte
  signature that verifies under the pinned anchor, it decodes in the layout the envelope
  declares (and then the tag inside the signed bytes agrees), its guild is the expected one
  and it has not expired.\<close>

theorem verify_attestation_sound:
  assumes "verify_attestation c k s anchor now g schema = Inr att"
  shows "length (sig s) = 64 \<and> ed_verify c anchor (payload s) (sig s) \<and>
    at_guild_id att = g \<and> now < at_expires_at att \<and>
    (schema = ATTESTATION_SCHEMA_V1 \<and> dec_of (codec_v1 k) (payload s) = Some att \<or>
     schema = ATTESTATION_SCHEMA_V2 \<and>
       map_option attestation_of_v2 (dec_of (codec_v2 k) (payload s)) = Some att \<and>
       map_option v2_schema (dec_of (codec_v2 k) (payload s)) = Some ATTESTATION_SCHEMA_V2)"
  using assms by (auto simp: verify_attestation_Inr)

subsection \<open>Witnesses\<close>

definition demo_net :: ipv4net where
  "demo_net = \<lparr>net_network = ipv4_octets 100 72 0 0, net_prefix = 16\<rparr>"

definition demo_att :: attestation where
  "demo_att = \<lparr>at_guild_id = 5, at_user_id = 7, at_username = ''alice'',
     at_device_name = ''nas'', at_is_primary = True, at_wg_ip = ipv4_octets 100 72 0 9,
     at_wg_net = demo_net, at_wg_pubkey = [1], at_issued_at = 100, at_expires_at = 1900\<rparr>"

text \<open>A codec that can encode the one value \<open>v\<close>, as the bytes \<open>b\<close>.\<close>

definition one_codec :: "'a \<Rightarrow> u8 list \<Rightarrow> 'a codec" where
  "one_codec v b = \<lparr>enc = (\<lambda>x. if x = v then Some b else None),
                    dec_of = (\<lambda>y. if y = b then Some v else None)\<rparr>"

lemma one_codec_ok [simp]: "codec_ok (one_codec v b)"
  by (auto simp: codec_ok_def one_codec_def)

definition demo_codecs :: att_codecs where
  "demo_codecs = \<lparr>codec_v1 = one_codec demo_att [1], codec_v2 = one_codec (v2_from_att demo_att) [2]\<rparr>"

lemma demo_codecs_ok: "att_codecs_ok demo_codecs"
  by (simp add: att_codecs_ok_def demo_codecs_def)

definition demo_signed :: signed where
  "demo_signed = \<lparr>payload = [2], sig = demo_sign [9] [2]\<rparr>"

lemma demo_signed_sign:
  "sign_attestation demo_crypto demo_codecs [9] demo_att ATTESTATION_SCHEMA_V2 = Inr demo_signed"
  by (simp add: sign_attestation_def signed_sign_def demo_codecs_def one_codec_def
      demo_signed_def demo_crypto_def)

theorem attestation_roundtrip_witness:
  "verify_attestation demo_crypto demo_codecs demo_signed (ed_anchor demo_crypto [9]) 500 5
     ATTESTATION_SCHEMA_V2 = Inr demo_att"
  using attestation_roundtrip [OF demo_signing_ok demo_codecs_ok demo_signed_sign, of 500 5]
  by (simp add: demo_att_def is_expired_def)

theorem verify_attestation_sound_witness:
  "at_guild_id demo_att = 5 \<and> (500::u64) < at_expires_at demo_att"
  using verify_attestation_sound
    [OF sign_verify_attestation [OF demo_signing_ok demo_codecs_ok demo_signed_sign, of 500 5,
        unfolded demo_att_def is_expired_def, simplified, folded demo_att_def]]
  by (simp add: demo_att_def)

end
