(* ===== verification/Rotation.thy ===== *)
theory Rotation
  imports Wire
begin

section \<open>Trust-anchor rotation: \<open>crates/common/src/rotation.rs\<close>\<close>

text \<open>
  A client pinned at one anchor extends its trust to another through certificates in which each
  outgoing key vouches for its successor. The model is \<open>walk_chain\<close> and \<open>advance\<close>
  as they are written; the specification is reachability along the relation \<open>vouches\<close>, one
  pair for each certificate that verifies under the anchor it names as its predecessor.
\<close>

record rotation_cert =
  prev_anchor :: key
  new_anchor :: key
  rc_issued_at :: u64

definition MAX_ROTATION_CHAIN :: nat where "MAX_ROTATION_CHAIN = 64"

fun advance :: "crypto \<Rightarrow> rotation_cert codec \<Rightarrow> key \<Rightarrow> signed list \<Rightarrow> key option" where
  "advance c rk current [] = None"
| "advance c rk current (s # chain) =
     (case signed_verify c rk s current of
        Inl e \<Rightarrow> advance c rk current chain
      | Inr cert \<Rightarrow>
          if prev_anchor cert = current then Some (new_anchor cert)
          else advance c rk current chain)"

text \<open>The \<open>for _ in 0..=chain.len()\<close> loop, with the number of iterations left.\<close>

fun walk_loop :: "crypto \<Rightarrow> rotation_cert codec \<Rightarrow> nat \<Rightarrow> key \<Rightarrow> key \<Rightarrow> signed list \<Rightarrow> bool" where
  "walk_loop c rk 0 current target chain = (current = target)"
| "walk_loop c rk (Suc n) current target chain =
     (if current = target then True
      else if \<not> ed_key_ok c current then False
      else case advance c rk current chain of
             None \<Rightarrow> False
           | Some next_key \<Rightarrow> walk_loop c rk n next_key target chain)"

definition walk_chain :: "crypto \<Rightarrow> rotation_cert codec \<Rightarrow> key \<Rightarrow> key \<Rightarrow> signed list \<Rightarrow> bool" where
  "walk_chain c rk pinned target chain =
     (if MAX_ROTATION_CHAIN < length chain then False
      else walk_loop c rk (Suc (length chain)) pinned target chain)"

subsection \<open>The relation the chain proves\<close>

definition vouches_by :: "crypto \<Rightarrow> rotation_cert codec \<Rightarrow> signed \<Rightarrow> key \<Rightarrow> key \<Rightarrow> bool" where
  "vouches_by c rk s a b \<longleftrightarrow>
     (\<exists>cert. signed_verify c rk s a = Inr cert \<and> prev_anchor cert = a \<and> new_anchor cert = b)"

definition vouches :: "crypto \<Rightarrow> rotation_cert codec \<Rightarrow> signed list \<Rightarrow> (key \<times> key) set" where
  "vouches c rk chain = {(a, b). ed_key_ok c a \<and> (\<exists>s\<in>set chain. vouches_by c rk s a b)}"

lemma advance_Some: "advance c rk a chain = Some b \<Longrightarrow> \<exists>s\<in>set chain. vouches_by c rk s a b"
  by (induction chain) (auto simp: vouches_by_def split: sum.splits if_splits)

lemma advance_None:
  "advance c rk a chain = None \<longleftrightarrow> (\<forall>s\<in>set chain. \<forall>b. \<not> vouches_by c rk s a b)"
  by (induction chain) (auto simp: vouches_by_def split: sum.splits)

lemma vouches_by_unique: "vouches_by c rk s a b \<Longrightarrow> vouches_by c rk s a b' \<Longrightarrow> b = b'"
  by (auto simp: vouches_by_def)

lemma walk_loop_sound:
  "walk_loop c rk n a t chain \<Longrightarrow> (a, t) \<in> (vouches c rk chain)\<^sup>*"
proof (induction n arbitrary: a)
  case 0
  then show ?case by simp
next
  case (Suc n)
  show ?case
  proof (cases "a = t")
    case False
    with Suc.prems obtain b where b: "ed_key_ok c a" "advance c rk a chain = Some b"
      "walk_loop c rk n b t chain"
      by (auto split: if_splits option.splits)
    then have "(a, b) \<in> vouches c rk chain"
      using advance_Some [OF b(2)] by (auto simp: vouches_def)
    then show ?thesis using Suc.IH [OF b(3)] by (rule converse_rtrancl_into_rtrancl)
  qed simp
qed

text \<open>
  Completeness: one hop per certificate is enough. In a chain whose \<open>vouches\<close> is a partial
  function, a shortest path visits each anchor once and spends a certificate of its own on each.
\<close>

lemma vouches_pow_walk:
  assumes "single_valued (vouches c rk chain)"
  shows "(a, t) \<in> vouches c rk chain ^^ n \<Longrightarrow> walk_loop c rk n a t chain"
proof (induction n arbitrary: a)
  case 0
  then show ?case by simp
next
  case (Suc n)
  then obtain b where b: "(a, b) \<in> vouches c rk chain" "(b, t) \<in> vouches c rk chain ^^ n"
    by (meson relpow_Suc_D2)
  then have ok: "ed_key_ok c a" and ex: "\<exists>s\<in>set chain. vouches_by c rk s a b"
    by (auto simp: vouches_def)
  then obtain b' where b': "advance c rk a chain = Some b'"
    by (cases "advance c rk a chain") (auto simp: advance_None)
  then have "(a, b') \<in> vouches c rk chain"
    using ok advance_Some [OF b'] by (auto simp: vouches_def)
  with b(1) assms have "b' = b" by (auto dest: single_valuedD)
  with Suc.IH [OF b(2)] ok b' show ?case by simp
qed

lemma walk_loop_more: "walk_loop c rk n a t chain \<Longrightarrow> n \<le> m \<Longrightarrow> walk_loop c rk m a t chain"
proof (induction n arbitrary: a m)
  case 0
  then show ?case by (cases m) auto
next
  case (Suc n)
  from Suc.prems(2) obtain m' where m: "m = Suc m'" "n \<le> m'" by (cases m) auto
  with Suc show ?case by (auto split: if_splits option.splits)
qed

lemma vouches_bound: "finite (vouches c rk chain) \<and>
    (single_valued (vouches c rk chain) \<longrightarrow> card (vouches c rk chain) \<le> length chain)"
proof -
  define img where "img s = {(a, b). vouches_by c rk s a b \<and> (a, b) \<in> vouches c rk chain}" for s
  have one: "finite (img s) \<and> card (img s) \<le> 1" for s
  proof (cases "img s = {}")
    case False
    then obtain a b where ab: "(a, b) \<in> img s" by auto
    have "x = (a, b)" if "x \<in> img s" for x
    proof -
      obtain a' b' where x: "x = (a', b')" by (cases x)
      with that ab have v: "vouches_by c rk s a b" "vouches_by c rk s a' b'"
        by (auto simp: img_def)
      then have "dec_of rk (payload s) \<noteq> None" "a = a'"
        by (auto simp: vouches_by_def signed_verify_Inr)
      with v x show ?thesis using vouches_by_unique by blast
    qed
    then have "img s \<subseteq> {(a, b)}" by auto
    then show ?thesis
      using finite_subset card_mono [of "{(a, b)}" "img s"] by auto
  qed auto
  have cover: "vouches c rk chain = (\<Union>s\<in>set chain. img s)"
    by (auto simp: img_def vouches_def)
  then have fin: "finite (vouches c rk chain)" using one by auto
  have "card (vouches c rk chain) \<le> (\<Sum>s\<in>set chain. card (img s))"
    unfolding cover by (rule card_UN_le) simp
  also have "\<dots> \<le> (\<Sum>s\<in>set chain. 1)" by (rule sum_mono) (use one in auto)
  also have "\<dots> \<le> length chain" by (simp add: card_length)
  finally show ?thesis using fin by simp
qed

lemma vouches_reach_bounded:
  assumes "single_valued (vouches c rk chain)" and "(a, t) \<in> (vouches c rk chain)\<^sup>*"
  shows "\<exists>n\<le>length chain. (a, t) \<in> vouches c rk chain ^^ n"
proof -
  let ?R = "vouches c rk chain"
  have "(a, t) \<in> (\<Union>n\<in>{n. n \<le> card ?R}. ?R ^^ n)"
    using assms(2) rtrancl_finite_eq_relpow vouches_bound by blast
  then obtain n where "n \<le> card ?R" "(a, t) \<in> ?R ^^ n" by blast
  moreover have "card ?R \<le> length chain" using vouches_bound assms(1) by blast
  ultimately show ?thesis using le_trans by blast
qed

lemma walk_chain_sound:
  "walk_chain c rk pinned target chain \<Longrightarrow> (pinned, target) \<in> (vouches c rk chain)\<^sup>*"
  by (auto simp: walk_chain_def simp del: walk_loop.simps dest: walk_loop_sound split: if_splits)

lemma walk_chain_complete:
  assumes "length chain \<le> MAX_ROTATION_CHAIN" and "single_valued (vouches c rk chain)"
    and "(pinned, target) \<in> (vouches c rk chain)\<^sup>*"
  shows "walk_chain c rk pinned target chain"
proof -
  obtain n where n: "n \<le> length chain" "(pinned, target) \<in> vouches c rk chain ^^ n"
    using vouches_reach_bounded assms by blast
  then have "walk_loop c rk n pinned target chain" using assms vouches_pow_walk by blast
  then have "walk_loop c rk (Suc (length chain)) pinned target chain"
    by (rule walk_loop_more) (use n in simp)
  with assms show ?thesis by (simp add: walk_chain_def del: walk_loop.simps)
qed

lemma walk_chain_short: "walk_chain c rk pinned target chain \<Longrightarrow> length chain \<le> MAX_ROTATION_CHAIN"
  by (simp add: walk_chain_def split: if_splits)

text \<open>
  The walk takes the first certificate that continues from the current anchor and never
  tries another: a certificate whose successor never signed anything ends it.
\<close>

lemma walk_chain_dead_end:
  assumes "vouches_by c rk s a d" and "d \<noteq> t" and "a \<noteq> t"
    and "\<forall>s'\<in>set (s # chain). \<forall>x. \<not> vouches_by c rk s' d x"
  shows "\<not> walk_chain c rk a t (s # chain)"
proof -
  obtain cert where cert: "signed_verify c rk s a = Inr cert" "prev_anchor cert = a"
    "new_anchor cert = d"
    using assms(1) by (auto simp: vouches_by_def)
  then have "advance c rk a (s # chain) = Some d" by simp
  moreover have "advance c rk d (s # chain) = None"
    using assms(4) unfolding advance_None by blast
  ultimately show ?thesis
    using assms(2,3) by (auto simp: walk_chain_def simp del: advance.simps)
qed

text \<open>
  Trust is extended from the pin to the target only along certificates each of which
  verifies under, and names, the anchor it starts from; and the walk finds the target
  whenever such a path exists, provided the chain is within the length cap and no anchor in
  it vouches for two different successors. One hop per certificate is enough, in any order
  of the certificates.\<close>

theorem walk_chain_spec:
  shows "(walk_chain c rk pinned target chain \<longrightarrow>
            length chain \<le> MAX_ROTATION_CHAIN \<and> (pinned, target) \<in> (vouches c rk chain)\<^sup>*) \<and>
         (length chain \<le> MAX_ROTATION_CHAIN \<and> single_valued (vouches c rk chain) \<and>
            (pinned, target) \<in> (vouches c rk chain)\<^sup>* \<longrightarrow>
          walk_chain c rk pinned target chain)"
  using walk_chain_sound walk_chain_complete walk_chain_short by blast

definition demo_cert :: rotation_cert where
  "demo_cert = \<lparr>prev_anchor = [1], new_anchor = [2], rc_issued_at = 0\<rparr>"

definition demo_cert_codec :: "rotation_cert codec" where
  "demo_cert_codec = \<lparr>enc = (\<lambda>x. if x = demo_cert then Some [5] else None),
                      dec_of = (\<lambda>y. if y = [5] then Some demo_cert else None)\<rparr>"

definition demo_chain :: "signed list" where
  "demo_chain = [\<lparr>payload = [5], sig = demo_sign [1] [5]\<rparr>]"

lemma demo_chain_vouches: "([1], [2]) \<in> vouches demo_crypto demo_cert_codec demo_chain"
  by (simp add: vouches_def vouches_by_def demo_chain_def signed_verify_Inr demo_crypto_def
      demo_cert_codec_def demo_cert_def demo_sign_def min_def)

lemma demo_chain_single: "single_valued (vouches demo_crypto demo_cert_codec demo_chain)"
  using vouches_by_unique by (force simp: single_valued_def vouches_def demo_chain_def)

theorem walk_chain_spec_witness: "walk_chain demo_crypto demo_cert_codec [1] [2] demo_chain"
  using walk_chain_spec [of demo_crypto demo_cert_codec "[1]" "[2]" demo_chain]
    r_into_rtrancl [OF demo_chain_vouches] demo_chain_single
  by (simp add: demo_chain_def MAX_ROTATION_CHAIN_def)

end
