(* ===== verification/Table.thy ===== *)
theory Table
  imports Prelude
begin

section \<open>Hash tables\<close>

text \<open>
  \<open>std::collections::HashMap\<close>, which almost every component keeps behind its mutex, as
  an association list with distinct keys: \<open>get\<close>, \<open>insert\<close>, \<open>remove\<close>,
  \<open>retain\<close>, \<open>len\<close> and iteration. The code iterates in an order Rust leaves
  unspecified; here it is the list's, and no property of the development depends on it.

  The interface is the locale \<^theory_text>\<open>table\<close>, stated for any representation and
  interpreted on the list one (\<^theory_text>\<open>hm\<close>).
\<close>

type_synonym ('k, 'v) hmap = "('k \<times> 'v) list"

definition tget :: "('k, 'v) hmap \<Rightarrow> 'k \<Rightarrow> 'v option" where
  "tget m k = map_of m k"

definition tput :: "'k \<Rightarrow> 'v \<Rightarrow> ('k, 'v) hmap \<Rightarrow> ('k, 'v) hmap" where
  "tput k v m = AList.update k v m"

definition tdel :: "'k \<Rightarrow> ('k, 'v) hmap \<Rightarrow> ('k, 'v) hmap" where
  "tdel k m = AList.delete k m"

definition tkeep :: "('k \<Rightarrow> 'v \<Rightarrow> bool) \<Rightarrow> ('k, 'v) hmap \<Rightarrow> ('k, 'v) hmap" where
  "tkeep P m = filter (\<lambda>(k, v). P k v) m"

definition tkeys :: "('k, 'v) hmap \<Rightarrow> 'k list" where
  "tkeys m = map fst m"

definition tok :: "('k, 'v) hmap \<Rightarrow> bool" where
  "tok m \<longleftrightarrow> distinct (map fst m)"

subsection \<open>The contract of a hash table\<close>

locale table =
  fixes get :: "'m \<Rightarrow> 'k \<Rightarrow> 'v option"
    and put :: "'k \<Rightarrow> 'v \<Rightarrow> 'm \<Rightarrow> 'm"
    and del :: "'k \<Rightarrow> 'm \<Rightarrow> 'm"
    and keep :: "('k \<Rightarrow> 'v \<Rightarrow> bool) \<Rightarrow> 'm \<Rightarrow> 'm"
    and ok :: "'m \<Rightarrow> bool"
  assumes get_put: "get (put k v m) j = (if j = k then Some v else get m j)"
    and get_del: "ok m \<Longrightarrow> get (del k m) j = (if j = k then None else get m j)"
    and get_keep: "ok m \<Longrightarrow> get (keep P m) j =
          (case get m j of None \<Rightarrow> None | Some v \<Rightarrow> if P j v then Some v else None)"
    and ok_put: "ok m \<Longrightarrow> ok (put k v m)"
    and ok_del: "ok m \<Longrightarrow> ok (del k m)"
    and ok_keep: "ok m \<Longrightarrow> ok (keep P m)"
begin

lemma get_put_same: "get (put k v m) k = Some v"
  by (simp add: get_put)

lemma get_put_other: "j \<noteq> k \<Longrightarrow> get (put k v m) j = get m j"
  by (simp add: get_put)

lemma get_keep_SomeD: "ok m \<Longrightarrow> get (keep P m) j = Some v \<Longrightarrow> get m j = Some v \<and> P j v"
  by (auto simp: get_keep split: option.splits if_splits)

lemma get_keep_SomeI: "ok m \<Longrightarrow> get m j = Some v \<Longrightarrow> P j v \<Longrightarrow> get (keep P m) j = Some v"
  by (simp add: get_keep)

lemma keep_put_other:
  "ok m \<Longrightarrow> j \<noteq> k \<Longrightarrow> get (keep P (put k v m)) j = get (keep P m) j"
  by (simp add: get_keep ok_put get_put_other)

lemma put_inv:
  assumes "\<And>j w. get m j = Some w \<Longrightarrow> Q j w" and "Q k v"
  shows "get (put k v m) j = Some w \<Longrightarrow> Q j w"
  using assms by (auto simp: get_put split: if_splits)

end

subsection \<open>Association lists satisfy it\<close>

lemma map_of_filter_distinct:
  "distinct (map fst m) \<Longrightarrow>
   map_of (filter (\<lambda>(k, v). P k v) m) j =
     (case map_of m j of None \<Rightarrow> None | Some v \<Rightarrow> if P j v then Some v else None)"
proof (induction m)
  case Nil
  then show ?case by simp
next
  case (Cons x m)
  obtain a b where x: "x = (a, b)" by (cases x)
  with Cons.prems have "map_of m a = None" by (simp add: map_of_eq_None_iff)
  with Cons x show ?case by (auto split: option.splits)
qed

lemma tget_tput: "tget (tput k v m) j = (if j = k then Some v else tget m j)"
  by (simp add: tget_def tput_def update_conv')

lemma tget_tdel: "tget (tdel k m) j = (if j = k then None else tget m j)"
  by (simp add: tget_def tdel_def delete_conv')

lemma tget_tkeep:
  "tok m \<Longrightarrow> tget (tkeep P m) j =
     (case tget m j of None \<Rightarrow> None | Some v \<Rightarrow> if P j v then Some v else None)"
  by (simp add: tget_def tkeep_def tok_def map_of_filter_distinct)

lemma tok_tput: "tok m \<Longrightarrow> tok (tput k v m)"
  by (simp add: tok_def tput_def distinct_update)

lemma tok_tdel: "tok m \<Longrightarrow> tok (tdel k m)"
  by (simp add: tok_def tdel_def distinct_delete)

lemma tok_tkeep: "tok m \<Longrightarrow> tok (tkeep P m)"
  by (simp add: tok_def tkeep_def distinct_map_filter)

interpretation hm: table tget tput tdel tkeep tok
  by unfold_locales (simp_all add: tget_tput tget_tdel tget_tkeep tok_tput tok_tdel tok_tkeep)

lemmas table_simps [simp] = tget_tput tget_tdel tok_tput tok_tdel tok_tkeep

lemma tget_Nil [simp]: "tget [] k = None"
  by (simp add: tget_def)

lemma tok_Nil [simp]: "tok []"
  by (simp add: tok_def)

lemma tkeys_Nil [simp]: "tkeys [] = []"
  by (simp add: tkeys_def)

lemma set_tkeys: "set (tkeys m) = {k. tget m k \<noteq> None}"
proof -
  have "set (tkeys m) = dom (map_of m)"
    by (simp add: tkeys_def dom_map_of_conv_image_fst)
  then show ?thesis by (auto simp: tget_def dom_def)
qed

lemma tget_SomeI: "tok m \<Longrightarrow> (k, v) \<in> set m \<Longrightarrow> tget m k = Some v"
  by (simp add: tget_def tok_def)

lemma tget_SomeD: "tget m k = Some v \<Longrightarrow> (k, v) \<in> set m"
  by (simp add: tget_def map_of_SomeD)

lemma tget_Some_iff: "tok m \<Longrightarrow> tget m k = Some v \<longleftrightarrow> (k, v) \<in> set m"
  by (auto intro: tget_SomeI dest: tget_SomeD)

lemma length_tput: "length (tput k v m) = (if tget m k = None then Suc (length m) else length m)"
  by (induction m) (auto simp: tput_def tget_def)

lemma length_tkeep: "length (tkeep P m) \<le> length m"
  by (simp add: tkeep_def)

lemma set_tkeep [simp]: "(k, v) \<in> set (tkeep P m) \<longleftrightarrow> (k, v) \<in> set m \<and> P k v"
  by (auto simp: tkeep_def)

lemma tok_distinct_tkeys: "tok m \<longleftrightarrow> distinct (tkeys m)"
  by (simp add: tok_def tkeys_def)

end
