(* ===== verification/Store.thy ===== *)
theory Store
  imports Netid Proto Table
begin

section \<open>The coordinator's database: \<open>crates/coordinator/src/store.rs\<close>\<close>

text \<open>
  The tables of \<open>migrate\<close> and the operations on the small ones: signing seeds, rotation
  certificates, networks, community slugs and handles. A table with a primary key and no
  column read by order is a hash table; a table whose rows are scanned is the list of its rows
  in \<open>rowid\<close> order, so that an \<open>INSERT\<close> appends and \<open>INSERT OR REPLACE\<close>
  deletes and appends.

  Discord snowflakes are stored through the bit-preserving cast \<open>as i64\<close> and only compared for
  equality, so the model keeps the \<open>u64\<close>. Times are compared by SQLite as signed integers,
  so they are \<open>int\<close>s here, produced by \<open>as_i64\<close>. \<open>devices.idx\<close> is whatever integer the
  column holds. I/O failures of SQLite are not modelled; constraint violations are.
\<close>

datatype store_error =
    BadBlob
  | BadSeed
  | IndexOutside int
  | DeviceLimit
  | SpaceExhausted
  | UniqueViolation
  | LabelUnavailable u64
  | UnknownKey
  | KeyUsed
  | KeyExpired
  | Unreachable

record dev_row =
  d_pubkey :: key
  d_idx :: int
  d_user :: u64
  d_name :: string
  d_token :: "string option"
  d_seen :: "int option"
  d_personal :: bool

record ek_row =
  ek_key :: string
  ek_user :: u64
  ek_expires :: "int option"
  ek_used_by :: "key option"

record oauth_row =
  oa_pubkey :: key
  oa_user :: u64
  oa_bound_at :: int

record svc_row =
  sv_user :: u64
  sv_label :: string
  sv_pubkey :: key

record network =
  n_guild_id :: u64
  n_role_id :: u64
  n_name :: string

record store =
  deployment_seed :: "key option"
  enroll_seed :: "key option"
  guild_signing_keys :: "(u64, key) hmap"
  guild_rotation_certs :: "(u64 \<times> string) list"
  networks :: "(u64 \<times> u64, string) hmap"
  devices :: "dev_row list"
  enrollment_keys :: "ek_row list"
  communities :: "(u64, string) hmap"
  primary_device :: "(u64, key) hmap"
  oauth_authorized :: "oauth_row list"
  user_handles :: "(u64, string) hmap"
  user_labels :: "(u64, string) hmap"
  services :: "svc_row list"

definition empty_store :: store where
  "empty_store = \<lparr>deployment_seed = None, enroll_seed = None, guild_signing_keys = [],
     guild_rotation_certs = [], networks = [], devices = [], enrollment_keys = [],
     communities = [], primary_device = [], oauth_authorized = [], user_handles = [],
     user_labels = [], services = []\<rparr>"

type_synonym 'a db = "store \<Rightarrow> (store_error + 'a) \<times> store"

definition pubkey_from_blob :: "u8 list \<Rightarrow> store_error + key" where
  "pubkey_from_blob blob = (if length blob = 32 then Inr blob else Inl BadBlob)"

subsection \<open>Seeds; the freshly drawn key is an argument\<close>

definition load_or_create_deployment_seed :: "key \<Rightarrow> key db" where
  "load_or_create_deployment_seed fresh st =
     (case deployment_seed st of
        Some seed \<Rightarrow> (if length seed = 32 then Inr seed else Inl BadSeed, st)
      | None \<Rightarrow> (Inr fresh, st\<lparr>deployment_seed := Some fresh\<rparr>))"

definition load_or_create_enroll_seed :: "key \<Rightarrow> key db" where
  "load_or_create_enroll_seed fresh st =
     (case enroll_seed st of
        Some seed \<Rightarrow> (if length seed = 32 then Inr seed else Inl BadSeed, st)
      | None \<Rightarrow> (Inr fresh, st\<lparr>enroll_seed := Some fresh\<rparr>))"

definition load_or_create_seed :: "u64 \<Rightarrow> key \<Rightarrow> key db" where
  "load_or_create_seed g fresh st =
     (case tget (guild_signing_keys st) g of
        Some seed \<Rightarrow> (if length seed = 32 then Inr seed else Inl BadSeed, st)
      | None \<Rightarrow> (Inr fresh, st\<lparr>guild_signing_keys := tput g fresh (guild_signing_keys st)\<rparr>))"

definition replace_seed :: "u64 \<Rightarrow> key \<Rightarrow> store \<Rightarrow> store" where
  "replace_seed g seed st = st\<lparr>guild_signing_keys := tput g seed (guild_signing_keys st)\<rparr>"

definition append_rotation_cert :: "u64 \<Rightarrow> string \<Rightarrow> store \<Rightarrow> store" where
  "append_rotation_cert g cert st =
     st\<lparr>guild_rotation_certs := guild_rotation_certs st @ [(g, cert)]\<rparr>"

definition rotation_chain :: "store \<Rightarrow> u64 \<Rightarrow> string list" where
  "rotation_chain st g = map snd (filter (\<lambda>(g', c). g' = g) (guild_rotation_certs st))"

definition guild_ids :: "store \<Rightarrow> u64 list" where
  "guild_ids st = tkeys (guild_signing_keys st)"

subsection \<open>Networks, slugs and handles\<close>

definition upsert_network :: "u64 \<Rightarrow> u64 \<Rightarrow> string \<Rightarrow> store \<Rightarrow> store" where
  "upsert_network g r name st = st\<lparr>networks := tput (g, r) name (networks st)\<rparr>"

definition remove_network :: "u64 \<Rightarrow> u64 \<Rightarrow> store \<Rightarrow> store" where
  "remove_network g r st = st\<lparr>networks := tdel (g, r) (networks st)\<rparr>"

definition all_networks :: "store \<Rightarrow> network list" where
  "all_networks st = map (\<lambda>((g, r), n). \<lparr>n_guild_id = g, n_role_id = r, n_name = n\<rparr>) (networks st)"

definition networks_in_guild :: "store \<Rightarrow> u64 \<Rightarrow> network list" where
  "networks_in_guild st g =
     map (\<lambda>((g', r), n). \<lparr>n_guild_id = g, n_role_id = r, n_name = n\<rparr>)
       (filter (\<lambda>((g', r), n). g' = g) (networks st))"

definition set_community_slug :: "u64 \<Rightarrow> string \<Rightarrow> store \<Rightarrow> store" where
  "set_community_slug g slug st = st\<lparr>communities := tput g slug (communities st)\<rparr>"

definition community_slug :: "store \<Rightarrow> u64 \<Rightarrow> string option" where
  "community_slug st g = tget (communities st) g"

definition set_user_handle :: "u64 \<Rightarrow> string \<Rightarrow> store \<Rightarrow> store" where
  "set_user_handle u h st = st\<lparr>user_handles := tput u h (user_handles st)\<rparr>"

definition user_handle :: "store \<Rightarrow> u64 \<Rightarrow> string option" where
  "user_handle st u = tget (user_handles st) u"

definition count_devices :: "store \<Rightarrow> nat" where
  "count_devices st = length (devices st)"

lemma load_or_create_seed_again:
  "load_or_create_seed g f st = (Inr s, st') \<Longrightarrow> length f = 32 \<Longrightarrow>
   load_or_create_seed g f' st' = (Inr s, st')"
  by (auto simp: load_or_create_seed_def split: option.splits if_splits)

lemma networks_in_guild_all:
  "networks_in_guild st g = filter (\<lambda>n. n_guild_id n = g) (all_networks st)"
  unfolding networks_in_guild_def all_networks_def
  by (induction "networks st" rule: list.induct) (auto simp: networks_in_guild_def filter_map o_def
      case_prod_beta intro!: map_cong filter_cong)

end
