(* ===== verification/Rotate.thy ===== *)
theory Rotate
  imports Rotation Store
begin

section \<open>Rotating a guild's key and following it\<close>

text \<open>
  The coordinator's side (\<open>crates/coordinator/src/rotate.rs\<close>) on the store, and the client's side
  (\<open>pin_anchor\<close>, \<open>load_anchor\<close> of \<open>crates/engine/src/keys.rs\<close>) on the directory of pinned
  anchors. The freshly drawn seed and the clock are arguments. Rotation writes twice; the state
  between the two writes is a state of its own here, since the process may die there.
\<close>

record rot_codecs =
  rk_cert :: "rotation_cert codec"
  rk_signed :: "signed codec"

definition rot_codecs_ok :: "rot_codecs \<Rightarrow> bool" where
  "rot_codecs_ok rk \<longleftrightarrow> codec_ok (rk_cert rk) \<and> codec_ok (rk_signed rk)"

datatype rotate_error = RotStore store_error | RotWire wire_error | RotPanic

definition rotation_step_cert :: "crypto \<Rightarrow> key \<Rightarrow> key \<Rightarrow> u64 \<Rightarrow> rotation_cert" where
  "rotation_step_cert c old_seed new_seed now =
     \<lparr>prev_anchor = ed_anchor c old_seed, new_anchor = ed_anchor c new_seed, rc_issued_at = now\<rparr>"

text \<open>Everything up to and including \<open>append_rotation_cert\<close>: the state a crash leaves.\<close>

definition rotate_append ::
  "crypto \<Rightarrow> rot_codecs \<Rightarrow> u64 \<Rightarrow> key \<Rightarrow> key \<Rightarrow> u64 \<Rightarrow> store \<Rightarrow> (rotate_error + unit) \<times> store" where
  "rotate_append c rk g first_seed new_seed now st =
     (case load_or_create_seed g first_seed st of
        (Inl e, st1) \<Rightarrow> (Inl (RotStore e), st1)
      | (Inr old, st1) \<Rightarrow>
          (case signed_sign c (rk_cert rk) old (rotation_step_cert c old new_seed now) of
             Inl e \<Rightarrow> (Inl (RotWire e), st1)
           | Inr cert \<Rightarrow>
               (case to_base64 c (rk_signed rk) cert of
                  None \<Rightarrow> (Inl RotPanic, st1)
                | Some b64 \<Rightarrow> (Inr (), append_rotation_cert g b64 st1))))"

definition rotate_key ::
  "crypto \<Rightarrow> rot_codecs \<Rightarrow> u64 \<Rightarrow> key \<Rightarrow> key \<Rightarrow> u64 \<Rightarrow> store \<Rightarrow> (rotate_error + key) \<times> store" where
  "rotate_key c rk g first_seed new_seed now st =
     (case rotate_append c rk g first_seed new_seed now st of
        (Inl e, st1) \<Rightarrow> (Inl e, st1)
      | (Inr _, st1) \<Rightarrow> (Inr (ed_anchor c new_seed), replace_seed g new_seed st1))"

text \<open>
  The client's pins: the file \<open>anchors/{guild}.pub\<close>, absent or its bytes. A certificate that
  does not parse is dropped before the walk.
\<close>

datatype pin_error = NotThirtyTwo | NoRotationPath

definition parse_chain :: "crypto \<Rightarrow> signed codec \<Rightarrow> string list \<Rightarrow> signed list" where
  "parse_chain c sk chain =
     List.map_filter (\<lambda>s. case from_base64 c sk s of Inl e \<Rightarrow> None | Inr v \<Rightarrow> Some v) chain"

type_synonym pins = "(u64, u8 list) hmap"

definition pin_anchor ::
  "crypto \<Rightarrow> rot_codecs \<Rightarrow> u64 \<Rightarrow> key \<Rightarrow> string list \<Rightarrow> pins \<Rightarrow> (pin_error + unit) \<times> pins" where
  "pin_anchor c rk g anchor chain pins =
     (case tget pins g of
        None \<Rightarrow> (Inr (), tput g anchor pins)
      | Some existing \<Rightarrow>
          if length existing \<noteq> 32 then (Inl NotThirtyTwo, pins)
          else if existing = anchor then (Inr (), pins)
          else if walk_chain c (rk_cert rk) existing anchor (parse_chain c (rk_signed rk) chain)
          then (Inr (), tput g anchor pins)
          else (Inl NoRotationPath, pins))"

definition load_anchor :: "pins \<Rightarrow> u64 \<Rightarrow> key option" where
  "load_anchor pins g =
     (case tget pins g of None \<Rightarrow> None | Some b \<Rightarrow> if length b = 32 then Some b else None)"

definition load_all_pinned :: "pins \<Rightarrow> (u64 \<times> key) list" where
  "load_all_pinned pins = filter (\<lambda>(g, b). length b = 32) pins"

subsection \<open>The chain a coordinator publishes\<close>

text \<open>Rotating \<open>n\<close> times in a row; each rotation must succeed.\<close>

fun rotate_all :: "crypto \<Rightarrow> rot_codecs \<Rightarrow> u64 \<Rightarrow> key \<Rightarrow> (key \<times> u64) list \<Rightarrow> store \<Rightarrow> store option" where
  "rotate_all c rk g f [] st = Some st"
| "rotate_all c rk g f ((s, t) # rs) st =
     (case rotate_key c rk g f s t st of
        (Inl e, st') \<Rightarrow> None
      | (Inr a, st') \<Rightarrow> rotate_all c rk g f rs st')"

lemma parse_chain_simps [simp]:
  "parse_chain c sk [] = []"
  "parse_chain c sk (s # ss) =
     (case from_base64 c sk s of Inl e \<Rightarrow> parse_chain c sk ss | Inr v \<Rightarrow> v # parse_chain c sk ss)"
  by (simp_all add: parse_chain_def map_filter_simps split: sum.splits)

lemma parse_chain_append: "parse_chain c sk (a @ b) = parse_chain c sk a @ parse_chain c sk b"
  by (induction a) (auto split: sum.splits)

lemma rotation_chain_simps [simp]:
  "rotation_chain (append_rotation_cert g b st) g' = rotation_chain st g' @ (if g' = g then [b] else [])"
  "rotation_chain (replace_seed g s st) g' = rotation_chain st g'"
  by (simp_all add: rotation_chain_def append_rotation_cert_def replace_seed_def)

lemma key_of_replace [simp]: "tget (guild_signing_keys (replace_seed g s st)) g = Some s"
  by (simp add: replace_seed_def)

lemma rotate_append_Inr:
  assumes "rotate_append c rk g f new t st = (Inr u, st')"
    and "tget (guild_signing_keys st) g = Some old"
  shows "\<exists>cert b. signed_sign c (rk_cert rk) old (rotation_step_cert c old new t) = Inr cert \<and>
    to_base64 c (rk_signed rk) cert = Some b \<and> st' = append_rotation_cert g b st"
  using assms
  by (auto simp: rotate_append_def load_or_create_seed_def split: sum.splits option.splits prod.splits if_splits)

lemma rotate_key_Inr:
  assumes "rotate_key c rk g f new t st = (Inr a, st')"
    and "tget (guild_signing_keys st) g = Some old" and "b64_ok c" and "codec_ok (rk_signed rk)"
  shows "\<exists>cert. signed_sign c (rk_cert rk) old (rotation_step_cert c old new t) = Inr cert \<and>
    a = ed_anchor c new \<and> tget (guild_signing_keys st') g = Some new \<and>
    parse_chain c (rk_signed rk) (rotation_chain st' g) =
      parse_chain c (rk_signed rk) (rotation_chain st g) @ [cert]"
proof -
  obtain u st1 where r: "rotate_append c rk g f new t st = (Inr u, st1)"
    "a = ed_anchor c new" "st' = replace_seed g new st1"
    using assms(1) by (auto simp: rotate_key_def split: prod.splits sum.splits)
  obtain cert b where cb: "signed_sign c (rk_cert rk) old (rotation_step_cert c old new t) = Inr cert"
    "to_base64 c (rk_signed rk) cert = Some b" "st1 = append_rotation_cert g b st"
    using rotate_append_Inr [OF r(1) assms(2)] by blast
  have "from_base64 c (rk_signed rk) b = Inr cert" by (rule base64_roundtrip [OF assms(3,4) cb(2)])
  with r cb show ?thesis by (simp add: parse_chain_append)
qed

lemma sign_vouches:
  assumes "signing_ok c" and "codec_ok rk" and "signed_sign c rk old (rotation_step_cert c old new t) = Inr s"
  shows "vouches_by c rk s (ed_anchor c old) (ed_anchor c new)" and "ed_key_ok c (ed_anchor c old)"
  using signed_roundtrip [OF assms] assms(1)
  by (auto simp: vouches_by_def rotation_step_cert_def signing_ok_def)

text \<open>A signed certificate vouches for nothing but the step it was issued for.\<close>

lemma sign_vouches_only:
  assumes "codec_ok rk" and "signed_sign c rk old (rotation_step_cert c old new t) = Inr s"
    and "vouches_by c rk s a b"
  shows "a = ed_anchor c old \<and> b = ed_anchor c new"
  using assms
  by (auto simp: vouches_by_def signed_verify_Inr signed_sign_def codec_ok_def rotation_step_cert_def
      split: option.splits)

text \<open>The published chain covers every step of the seeds a guild has had.\<close>

definition chain_covers :: "crypto \<Rightarrow> rotation_cert codec \<Rightarrow> key list \<Rightarrow> signed list \<Rightarrow> bool" where
  "chain_covers c rk seeds chain \<longleftrightarrow>
     length seeds = Suc (length chain) \<and>
     (\<forall>i<length chain. \<exists>t. signed_sign c rk (seeds ! i)
        (rotation_step_cert c (seeds ! i) (seeds ! Suc i) t) = Inr (chain ! i))"

lemma rotate_all_covers:
  assumes "b64_ok c" and "codec_ok (rk_signed rk)"
  shows "rotate_all c rk g f rs st = Some st' \<Longrightarrow>
    tget (guild_signing_keys st) g = Some (List.last seeds) \<Longrightarrow>
    chain_covers c (rk_cert rk) seeds (parse_chain c (rk_signed rk) (rotation_chain st g)) \<Longrightarrow>
    tget (guild_signing_keys st') g = Some (List.last (seeds @ map fst rs)) \<and>
    chain_covers c (rk_cert rk) (seeds @ map fst rs)
      (parse_chain c (rk_signed rk) (rotation_chain st' g))"
proof (induction rs arbitrary: st seeds)
  case Nil
  then show ?case by simp
next
  case (Cons r rs)
  obtain s t where r: "r = (s, t)" by (cases r)
  obtain a st1 where k: "rotate_key c rk g f s t st = (Inr a, st1)"
    "rotate_all c rk g f rs st1 = Some st'"
    using Cons.prems(1) by (auto simp: r split: prod.splits sum.splits)
  obtain cert where cert: "signed_sign c (rk_cert rk) (List.last seeds)
      (rotation_step_cert c (List.last seeds) s t) = Inr cert"
    "tget (guild_signing_keys st1) g = Some s"
    "parse_chain c (rk_signed rk) (rotation_chain st1 g) =
      parse_chain c (rk_signed rk) (rotation_chain st g) @ [cert]"
    using rotate_key_Inr [OF k(1) Cons.prems(2) assms] by blast
  have "chain_covers c (rk_cert rk) (seeds @ [s]) (parse_chain c (rk_signed rk) (rotation_chain st1 g))"
  proof -
    have len: "length seeds = Suc (length (parse_chain c (rk_signed rk) (rotation_chain st g)))"
      using Cons.prems(3) by (simp add: chain_covers_def)
    then have "seeds \<noteq> []" by auto
    with len have "List.last seeds = seeds ! length (parse_chain c (rk_signed rk) (rotation_chain st g))"
      by (simp add: last_conv_nth)
    with len Cons.prems(3) cert(1) show ?thesis
      unfolding cert(3) chain_covers_def by (auto simp: nth_append less_Suc_eq)
  qed
  from Cons.IH [OF k(2) _ this] cert(2) show ?case by (simp add: r)
qed

lemma covers_path:
  assumes "signing_ok c" and "codec_ok rk" and "chain_covers c rk seeds chain"
  shows "i \<le> j \<Longrightarrow> j < length seeds \<Longrightarrow>
    (ed_anchor c (seeds ! i), ed_anchor c (seeds ! j)) \<in> (vouches c rk chain)\<^sup>*"
proof (induction j)
  case 0
  then show ?case by simp
next
  case (Suc j)
  show ?case
  proof (cases "i = Suc j")
    case False
    with Suc have path: "(ed_anchor c (seeds ! i), ed_anchor c (seeds ! j)) \<in> (vouches c rk chain)\<^sup>*"
      by simp
    have j: "j < length chain" using assms(3) Suc.prems by (simp add: chain_covers_def)
    then obtain t where "signed_sign c rk (seeds ! j)
        (rotation_step_cert c (seeds ! j) (seeds ! Suc j) t) = Inr (chain ! j)"
      using assms(3) by (auto simp: chain_covers_def)
    from sign_vouches [OF assms(1,2) this] j
    have "(ed_anchor c (seeds ! j), ed_anchor c (seeds ! Suc j)) \<in> vouches c rk chain"
      by (auto simp: vouches_def)
    with path show ?thesis by (rule rtrancl_into_rtrancl)
  qed simp
qed

lemma covers_single_valued:
  assumes "codec_ok rk" and "chain_covers c rk seeds chain" and "distinct (map (ed_anchor c) seeds)"
  shows "single_valued (vouches c rk chain)"
proof (rule single_valuedI)
  fix a b b' assume "(a, b) \<in> vouches c rk chain" "(a, b') \<in> vouches c rk chain"
  then obtain i j where ij: "i < length chain" "vouches_by c rk (chain ! i) a b"
    "j < length chain" "vouches_by c rk (chain ! j) a b'"
    by (auto simp: vouches_def in_set_conv_nth)
  obtain t where t: "signed_sign c rk (seeds ! i)
      (rotation_step_cert c (seeds ! i) (seeds ! Suc i) t) = Inr (chain ! i)"
    using assms(2) ij(1) by (auto simp: chain_covers_def)
  obtain t' where t': "signed_sign c rk (seeds ! j)
      (rotation_step_cert c (seeds ! j) (seeds ! Suc j) t') = Inr (chain ! j)"
    using assms(2) ij(3) by (auto simp: chain_covers_def)
  have a: "a = ed_anchor c (seeds ! i)" "a = ed_anchor c (seeds ! j)"
    using sign_vouches_only [OF assms(1) t ij(2)] sign_vouches_only [OF assms(1) t' ij(4)] by auto
  have "i < length seeds" "j < length seeds" using ij assms(2) by (auto simp: chain_covers_def)
  with a assms(3) have "i = j" by (metis length_map nth_eq_iff_index_eq nth_map)
  with ij vouches_by_unique show "b = b'" by blast
qed

text \<open>
  After up to 64 rotations of a guild's key, a client that pinned any of the anchors the
  guild ever had re-pins to the current one from the published chain alone, provided no key
  was drawn twice.\<close>

theorem rotations_followed:
  assumes "signing_ok c" and "b64_ok c" and "rot_codecs_ok rk"
    and "tget (guild_signing_keys st) g = Some s0" and "rotation_chain st g = []"
    and "rotate_all c rk g f rs st = Some st'" and "length rs \<le> MAX_ROTATION_CHAIN"
    and "distinct (map (ed_anchor c) (s0 # map fst rs))"
    and "s \<in> set (s0 # map fst rs)" and "length (ed_anchor c s) = 32"
    and "tget pins g = Some (ed_anchor c s)"
  shows "\<exists>current. tget (guild_signing_keys st') g = Some current \<and>
    fst (pin_anchor c rk g (ed_anchor c current) (rotation_chain st' g) pins) = Inr () \<and>
    tget (snd (pin_anchor c rk g (ed_anchor c current) (rotation_chain st' g) pins)) g =
      Some (ed_anchor c current)"
proof -
  let ?seeds = "s0 # map fst rs"
  have k: "codec_ok (rk_cert rk)" "codec_ok (rk_signed rk)" using assms(3) by (auto simp: rot_codecs_ok_def)
  let ?chain = "parse_chain c (rk_signed rk) (rotation_chain st' g)"
  have l: "tget (guild_signing_keys st) g = Some (List.last [s0])" using assms(4) by simp
  have base: "chain_covers c (rk_cert rk) [s0] (parse_chain c (rk_signed rk) (rotation_chain st g))"
    by (simp add: chain_covers_def assms(5))
  have cov: "tget (guild_signing_keys st') g = Some (List.last ?seeds) \<and>
      chain_covers c (rk_cert rk) ?seeds ?chain"
    using rotate_all_covers [OF assms(2) k(2) assms(6) l base] by (simp only: append_Cons append_Nil)
  obtain i where i: "i < length ?seeds" "?seeds ! i = s" using assms(9) by (metis in_set_conv_nth)
  have "(ed_anchor c (?seeds ! i), ed_anchor c (?seeds ! (length ?seeds - 1))) \<in> (vouches c (rk_cert rk) ?chain)\<^sup>*"
    using covers_path [OF assms(1) k(1) conjunct2 [OF cov], of i "length ?seeds - 1"] i(1) by simp
  then have path: "(ed_anchor c s, ed_anchor c (List.last ?seeds)) \<in> (vouches c (rk_cert rk) ?chain)\<^sup>*"
    using i(2) by (simp only: last_conv_nth list.distinct not_False_eq_True)
  have "length ?chain \<le> MAX_ROTATION_CHAIN" using cov assms(7) by (simp add: chain_covers_def)
  from walk_chain_complete [OF this covers_single_valued [OF k(1) conjunct2 [OF cov] assms(8)] path]
  have "walk_chain c (rk_cert rk) (ed_anchor c s) (ed_anchor c (List.last ?seeds)) ?chain" .
  with cov assms(10,11) show ?thesis
    by (intro exI [of _ "List.last ?seeds"]) (simp add: pin_anchor_def)
qed

text \<open>
  A rotation that stops after publishing its certificate and before replacing the seed leaves
  a certificate that is not harmless: once the rotation is run again, the walk follows the
  first certificate out of the old anchor, which leads nowhere, and a client pinned to the old
  anchor refuses the new one although the published chain contains a signed path to it.\<close>

theorem rotate_crash_strands:
  assumes "signing_ok c" and "b64_ok c" and "rot_codecs_ok rk"
    and "tget (guild_signing_keys st) g = Some old" and "rotation_chain st g = []"
    and "rotate_append c rk g f lost t st = (Inr (), st1)"
    and "rotate_key c rk g f new t' st1 = (Inr current, st2)"
    and "distinct (map (ed_anchor c) [old, lost, new])" and "length (ed_anchor c old) = 32"
    and "tget pins g = Some (ed_anchor c old)"
  shows "current = ed_anchor c new \<and>
    (ed_anchor c old, current) \<in>
      vouches c (rk_cert rk) (parse_chain c (rk_signed rk) (rotation_chain st2 g)) \<and>
    pin_anchor c rk g current (rotation_chain st2 g) pins = (Inl NoRotationPath, pins)"
proof -
  have k: "codec_ok (rk_cert rk)" "codec_ok (rk_signed rk)" using assms(3) by (auto simp: rot_codecs_ok_def)
  obtain d b where d: "signed_sign c (rk_cert rk) old (rotation_step_cert c old lost t) = Inr d"
    "to_base64 c (rk_signed rk) d = Some b" "st1 = append_rotation_cert g b st"
    using rotate_append_Inr [OF assms(6,4)] by blast
  have key1: "tget (guild_signing_keys st1) g = Some old"
    using assms(4) by (simp add: d(3) append_rotation_cert_def)
  obtain e where e: "signed_sign c (rk_cert rk) old (rotation_step_cert c old new t') = Inr e"
    "current = ed_anchor c new"
    "parse_chain c (rk_signed rk) (rotation_chain st2 g) =
       parse_chain c (rk_signed rk) (rotation_chain st1 g) @ [e]"
    using rotate_key_Inr [OF assms(7) key1 assms(2) k(2)] by blast
  have chain: "parse_chain c (rk_signed rk) (rotation_chain st2 g) = [d, e]"
    using e(3) d(3) assms(5) base64_roundtrip [OF assms(2) k(2) d(2)] by simp
  note vd = sign_vouches [OF assms(1) k(1) d(1)] and ve = sign_vouches [OF assms(1) k(1) e(1)]
  have "\<not> vouches_by c (rk_cert rk) s (ed_anchor c lost) x" if "s \<in> set [d, e]" for s x
    using that sign_vouches_only [OF k(1) d(1)] sign_vouches_only [OF k(1) e(1)] assms(8) by auto
  then have "\<not> walk_chain c (rk_cert rk) (ed_anchor c old) (ed_anchor c new) [d, e]"
    using walk_chain_dead_end [OF vd(1), of "ed_anchor c new" "[e]"] assms(8) by auto
  then have "pin_anchor c rk g current (rotation_chain st2 g) pins = (Inl NoRotationPath, pins)"
    using assms(8-10) by (simp add: pin_anchor_def chain e(2))
  moreover have "(ed_anchor c old, current) \<in> vouches c (rk_cert rk) [d, e]"
    using ve e(2) by (auto simp: vouches_def)
  ultimately show ?thesis using e(2) chain by simp
qed

text \<open>
  A pin that is there changes only to an anchor the published certificates lead to from it,
  hop by verified hop; every refusal leaves all pins as they were; and the pins of other
  guilds never change.\<close>

theorem pin_anchor_guarded:
  assumes "pin_anchor c rk g anchor chain pins = (res, pins')" and "tget pins g = Some old"
  shows "(tget pins' g = Some old \<or> tget pins' g = Some anchor \<and>
       (old, anchor) \<in> (vouches c (rk_cert rk) (parse_chain c (rk_signed rk) chain))\<^sup>*) \<and>
    (res = Inr () \<longleftrightarrow> tget pins' g = Some anchor \<and> length old = 32) \<and>
    (\<forall>e. res = Inl e \<longrightarrow> pins' = pins) \<and>
    (\<forall>h. h \<noteq> g \<longrightarrow> tget pins' h = tget pins h)"
  using assms walk_chain_sound [of c "rk_cert rk" old anchor "parse_chain c (rk_signed rk) chain"]
  by (auto simp: pin_anchor_def split: if_splits)

subsection \<open>Witnesses\<close>

definition seed_a :: key where "seed_a = replicate 32 1"
definition seed_b :: key where "seed_b = replicate 32 2"
definition seed_c :: key where "seed_c = replicate 32 3"

text \<open>A certificate is its two anchors, a signed envelope its length-prefixed payload and signature.\<close>

definition demo_rot :: rot_codecs where
  "demo_rot = \<lparr>
     rk_cert = \<lparr>enc = (\<lambda>r. if length (prev_anchor r) = 32 \<and> rc_issued_at r = 0
                       then Some (prev_anchor r @ new_anchor r) else None),
               dec_of = (\<lambda>b. Some \<lparr>prev_anchor = take 32 b, new_anchor = drop 32 b, rc_issued_at = 0\<rparr>)\<rparr>,
     rk_signed = \<lparr>enc = (\<lambda>s. if length (sig s) = 64 then Some (sig s @ payload s) else None),
               dec_of = (\<lambda>b. Some \<lparr>payload = drop 64 b, sig = take 64 b\<rparr>)\<rparr>\<rparr>"

lemma demo_rot_ok: "rot_codecs_ok demo_rot"
  by (auto simp: rot_codecs_ok_def codec_ok_def demo_rot_def)

definition demo_store :: store where
  "demo_store = empty_store\<lparr>guild_signing_keys := [(5, seed_a)]\<rparr>"

lemma seed_length [simp]: "length seed_a = 32" "length seed_b = 32" "length seed_c = 32"
  by (simp_all add: seed_a_def seed_b_def seed_c_def)

lemma seeds_distinct [simp]:
  "seed_a \<noteq> seed_b" "seed_a \<noteq> seed_c" "seed_b \<noteq> seed_c" "seed_b \<noteq> seed_a" "seed_c \<noteq> seed_a" "seed_c \<noteq> seed_b"
  by (simp_all add: seed_a_def seed_b_def seed_c_def replicate_eq_replicate)

lemma demo_rotate_append:
  "tget (guild_signing_keys st) 5 = Some seed_a \<Longrightarrow> length new = 32 \<Longrightarrow>
   rotate_append demo_crypto demo_rot 5 f new 0 st =
     (Inr (), append_rotation_cert 5 (b64_enc demo_crypto (demo_sign seed_a (seed_a @ new) @ seed_a @ new)) st)"
  by (simp add: rotate_append_def load_or_create_seed_def signed_sign_def demo_rot_def demo_crypto_def
      rotation_step_cert_def to_base64_def demo_sign_def min_def)

theorem rotations_followed_witness:
  "\<exists>st'. rotate_all demo_crypto demo_rot 5 seed_a [(seed_b, 0)] demo_store = Some st' \<and>
     fst (pin_anchor demo_crypto demo_rot 5 (ed_anchor demo_crypto seed_b) (rotation_chain st' 5)
       [(5, seed_a)]) = Inr ()"
proof -
  have k: "tget (guild_signing_keys demo_store) 5 = Some seed_a"
    by (simp add: demo_store_def tget_def)
  have ch: "rotation_chain demo_store 5 = []"
    by (simp add: rotation_chain_def demo_store_def empty_store_def)
  obtain st' where run: "rotate_all demo_crypto demo_rot 5 seed_a [(seed_b, 0)] demo_store = Some st'"
    and st': "tget (guild_signing_keys st') 5 = Some seed_b"
    using demo_rotate_append [OF k, of seed_b seed_a] by (simp add: rotate_key_def replace_seed_def)
  have anchor: "ed_anchor demo_crypto = (\<lambda>x. x)" by (simp add: demo_crypto_def id_def)
  have "tget [(5, seed_a)] 5 = Some (ed_anchor demo_crypto seed_a)" by (simp add: tget_def anchor)
  from rotations_followed [OF demo_signing_ok demo_b64_ok demo_rot_ok k ch run _ _ _ _ this]
  have "\<exists>current. tget (guild_signing_keys st') 5 = Some current \<and>
      fst (pin_anchor demo_crypto demo_rot 5 (ed_anchor demo_crypto current) (rotation_chain st' 5)
        [(5, seed_a)]) = Inr ()"
    by (auto simp: anchor MAX_ROTATION_CHAIN_def)
  with run st' show ?thesis by auto
qed

theorem rotate_crash_strands_witness:
  "\<exists>st1 st2. rotate_append demo_crypto demo_rot 5 seed_a seed_b 0 demo_store = (Inr (), st1) \<and>
     rotate_key demo_crypto demo_rot 5 seed_a seed_c 0 st1 = (Inr seed_c, st2) \<and>
     pin_anchor demo_crypto demo_rot 5 seed_c (rotation_chain st2 5) [(5, seed_a)] =
       (Inl NoRotationPath, [(5, seed_a)])"
proof -
  have k: "tget (guild_signing_keys demo_store) 5 = Some seed_a"
    by (simp add: demo_store_def tget_def)
  have ch: "rotation_chain demo_store 5 = []"
    by (simp add: rotation_chain_def demo_store_def empty_store_def)
  have anchor: "ed_anchor demo_crypto = (\<lambda>x. x)" by (simp add: demo_crypto_def id_def)
  obtain st1 where st1: "rotate_append demo_crypto demo_rot 5 seed_a seed_b 0 demo_store = (Inr (), st1)"
    "tget (guild_signing_keys st1) 5 = Some seed_a"
    using demo_rotate_append [OF k, of seed_b seed_a] k by (simp add: append_rotation_cert_def)
  obtain st2 where st2: "rotate_key demo_crypto demo_rot 5 seed_a seed_c 0 st1 = (Inr seed_c, st2)"
    using demo_rotate_append [OF st1(2), of seed_c seed_a] by (simp add: rotate_key_def anchor)
  have pin: "tget [(5, seed_a)] 5 = Some (ed_anchor demo_crypto seed_a)" by (simp add: tget_def anchor)
  have "pin_anchor demo_crypto demo_rot 5 seed_c (rotation_chain st2 5) [(5, seed_a)] =
       (Inl NoRotationPath, [(5, seed_a)])"
    using rotate_crash_strands [OF demo_signing_ok demo_b64_ok demo_rot_ok k ch st1(1) st2 _ _ pin]
    by (simp add: anchor)
  with st1(1) st2 show ?thesis by blast
qed

theorem pin_anchor_guarded_witness:
  "pin_anchor demo_crypto demo_rot 5 seed_b [] [(5, seed_a)] = (Inl NoRotationPath, [(5, seed_a)])"
proof -
  have pin: "tget [(5, seed_a)] 5 = Some seed_a" by (simp add: tget_def)
  obtain res pins' where run: "pin_anchor demo_crypto demo_rot 5 seed_b [] [(5, seed_a)] = (res, pins')"
    by fastforce
  have "vouches demo_crypto (rk_cert demo_rot) [] = {}" by (simp add: vouches_def)
  then have "tget pins' 5 = Some seed_a"
    using pin_anchor_guarded [OF run pin] by auto
  then have "res \<noteq> Inr ()" using pin_anchor_guarded [OF run pin] by auto
  then have "res = Inl NoRotationPath" "pins' = [(5, seed_a)]"
    using run by (auto simp: pin_anchor_def tget_def split: if_splits)
  with run show ?thesis by simp
qed

end
