(* ===== verification/Candidates.thy ===== *)
theory Candidates
  imports Prelude
begin

section \<open>Searching a sequence of candidate labels\<close>

text \<open>
  Device names and user labels are both allocated by trying \<open>x\<close>, \<open>x-2\<close>, \<open>x-3\<close>,
  \dots until one is free. The contract of such a sequence is that no two of its candidates
  coincide; the consequence both allocators need is that one more candidate than there are
  taken labels always contains a free one.
\<close>

fun mapR :: "('a \<Rightarrow> 'e + 'b) \<Rightarrow> 'a list \<Rightarrow> 'e + 'b list" where
  "mapR f [] = Inr []"
| "mapR f (x # xs) = bindR (f x) (\<lambda>y. bindR (mapR f xs) (\<lambda>ys. Inr (y # ys)))"

lemma mapR_Inr: "(\<And>x. x \<in> set xs \<Longrightarrow> f x = Inr (g x)) \<Longrightarrow> mapR f xs = Inr (map g xs)"
  by (induction xs) auto

definition first_free :: "'a list \<Rightarrow> 'a list \<Rightarrow> 'a option" where
  "first_free taken cands = List.find (\<lambda>c. c \<notin> set taken) cands"

lemma first_free_Some: "first_free taken cands = Some c \<Longrightarrow> c \<in> set cands \<and> c \<notin> set taken"
  by (auto simp: first_free_def find_Some_iff)

lemma first_free_None: "first_free taken cands = None \<longleftrightarrow> set cands \<subseteq> set taken"
  by (auto simp: first_free_def find_None_iff)

locale label_source =
  fixes cand :: "nat \<Rightarrow> 'a"
  assumes cand_inj: "cand m = cand n \<Longrightarrow> m = n"
begin

lemma card_cands: "card (set (map cand [i..<j])) = j - i"
proof -
  have "inj_on cand {i..<j}" by (rule inj_onI) (rule cand_inj)
  then show ?thesis by (simp add: card_image)
qed

lemma not_all_taken: "card (set taken) < j - i \<Longrightarrow> \<not> set (map cand [i..<j]) \<subseteq> set taken"
  using card_mono [of "set taken" "set (map cand [i..<j])"] card_cands by fastforce

lemma free_within:
  "card (set taken) < j - i \<Longrightarrow> \<exists>n. i \<le> n \<and> n < j \<and>
     first_free taken (map cand [i..<j]) = Some (cand n) \<and> cand n \<notin> set taken"
proof -
  assume "card (set taken) < j - i"
  then have "first_free taken (map cand [i..<j]) \<noteq> None"
    using not_all_taken first_free_None by metis
  then obtain c where c: "first_free taken (map cand [i..<j]) = Some c" by blast
  with first_free_Some [OF c] show ?thesis by auto
qed

end

subsection \<open>Numbered suffixes\<close>

definition label_suffix :: "nat \<Rightarrow> string" where
  "label_suffix n = CHR ''-'' # dec n"

text \<open>\<open>suffixed_label\<close> and the body of the loop in \<open>unique_device_name\<close>: the stem is
  trimmed so that the result fits in 63 bytes.\<close>

definition suffixed_label :: "string \<Rightarrow> nat \<Rightarrow> string" where
  "suffixed_label desired n = (let suffix = label_suffix n in take (63 - length suffix) desired @ suffix)"

lemma not_dash_dec: "CHR ''-'' \<notin> set (dec n)"
  using dec_digits [of "CHR ''-''" n] by (auto simp: is_digit_def)

lemma suffix_recover: "takeWhile (\<lambda>ch. ch \<noteq> CHR ''-'') (rev (s @ label_suffix n)) = rev (dec n)"
proof -
  have "ch \<noteq> CHR ''-''" if "ch \<in> set (rev (dec n))" for ch
    using that not_dash_dec [of n] by auto
  then have "takeWhile (\<lambda>ch. ch \<noteq> CHR ''-'') (rev (dec n) @ CHR ''-'' # rev s) = rev (dec n)"
    by (subst takeWhile_append2) auto
  then show ?thesis by (simp add: label_suffix_def)
qed

lemma suffixed_label_inj: "suffixed_label d m = suffixed_label d' n \<Longrightarrow> m = n"
  by (metis suffixed_label_def suffix_recover rev_rev_ident dec_inj)

interpretation suffixes: label_source "suffixed_label desired" for desired
  by unfold_locales (rule suffixed_label_inj)

lemma length_suffixed_label: "length (label_suffix n) \<le> 63 \<Longrightarrow> length (suffixed_label d n) \<le> 63"
  by (simp add: suffixed_label_def Let_def)

lemma length_dec: "n < 10 ^ k \<Longrightarrow> 0 < k \<Longrightarrow> length (dec n) \<le> k"
proof (induction k arbitrary: n)
  case (Suc k)
  show ?case
  proof (cases "n < 10")
    case True
    then show ?thesis by (simp add: dec.simps [of n])
  next
    case False
    with Suc.prems have "n div 10 < 10 ^ k" "0 < k" by (auto intro: gr0I)
    with Suc.IH False show ?thesis by (simp add: dec.simps [of n])
  qed
qed simp

end
