(* ===== verification/DeviceTable.thy ===== *)
theory DeviceTable
  imports Store Candidates
begin

section \<open>Device rows: allocation, names, tokens, the primary pointer, removal\<close>

text \<open>
  The operations of \<open>crates/coordinator/src/store.rs\<close> on the tables \<open>devices\<close> and
  \<open>primary_device\<close>. The random token of a new row and the clock are arguments, and so is
  SipHash (\<open>sip\<close>), which picks the first index probed.
\<close>

definition MAX_DEVICES_PER_USER :: nat where "MAX_DEVICES_PER_USER = 32"

subsection \<open>Operations\<close>

definition find_device_row :: "store \<Rightarrow> key \<Rightarrow> dev_row option" where
  "find_device_row st pk = List.find (\<lambda>r. d_pubkey r = pk) (devices st)"

definition rows_of :: "store \<Rightarrow> u64 \<Rightarrow> dev_row list" where
  "rows_of st u = filter (\<lambda>r. d_user r = u) (devices st)"

text \<open>A row's index, read back with \<open>u32::try_from\<close>.\<close>

definition u32_of :: "int \<Rightarrow> u32 option" where
  "u32_of i = (if 0 \<le> i \<and> i < 2 ^ 32 then Some (word_of_int i) else None)"

definition taken_indices :: "store \<Rightarrow> u32 set" where
  "taken_indices st = set (List.map_filter (\<lambda>r. u32_of (d_idx r)) (devices st))"

definition taken_names :: "store \<Rightarrow> u64 \<Rightarrow> key option \<Rightarrow> string list" where
  "taken_names st u exclude =
     remdups (map d_name (filter (\<lambda>r. case exclude of Some ex \<Rightarrow> d_pubkey r \<noteq> ex | None \<Rightarrow> True)
       (rows_of st u)))"

text \<open>\<open>None\<close> is the \<open>unreachable!\<close> at the end of the loop.\<close>

definition unique_device_name :: "store \<Rightarrow> u64 \<Rightarrow> string \<Rightarrow> key option \<Rightarrow> string option" where
  "unique_device_name st u desired exclude =
     (let taken = taken_names st u exclude
      in if desired \<notin> set taken then Some desired
         else first_free taken (map (suffixed_label desired) [2..<length taken + 3]))"

definition insert_device :: "dev_row \<Rightarrow> unit db" where
  "insert_device r st =
     (if d_pubkey r \<in> set (map d_pubkey (devices st)) \<or> d_idx r \<in> set (map d_idx (devices st))
      then (Inl UniqueViolation, st)
      else (Inr (), st\<lparr>devices := devices st @ [r]\<rparr>))"

definition new_device_row :: "key \<Rightarrow> int \<Rightarrow> u64 \<Rightarrow> string \<Rightarrow> string \<Rightarrow> dev_row" where
  "new_device_row pk idx u name token =
     \<lparr>d_pubkey = pk, d_idx = idx, d_user = u, d_name = name, d_token = Some token,
      d_seen = None, d_personal = False\<rparr>"

definition allocate_device ::
  "(u8 list \<Rightarrow> u64) \<Rightarrow> ipv4net \<Rightarrow> key \<Rightarrow> u64 \<Rightarrow> string \<Rightarrow> string \<Rightarrow> (ipv4 \<times> string) db" where
  "allocate_device sip net pk u device_name token st =
     (case find_device_row st pk of
        Some row \<Rightarrow>
          (case u32_of (d_idx row) of
             Some i \<Rightarrow> (if index_is_valid net i then Inr (addr_from_index net i, d_name row)
                        else Inl (IndexOutside (d_idx row)), st)
           | None \<Rightarrow> (Inl (IndexOutside (d_idx row)), st))
      | None \<Rightarrow>
          if MAX_DEVICES_PER_USER \<le> length (rows_of st u) then (Inl DeviceLimit, st)
          else case pick_free_index net (taken_indices st) (device_hint sip net pk) of
            None \<Rightarrow> (Inl SpaceExhausted, st)
          | Some idx \<Rightarrow>
              (case unique_device_name st u device_name None of
                 None \<Rightarrow> (Inl Unreachable, st)
               | Some name \<Rightarrow>
                   (case insert_device (new_device_row pk (uint idx) u name token) st of
                      (Inl e, st') \<Rightarrow> (Inl e, st')
                    | (Inr _, st') \<Rightarrow> (Inr (addr_from_index net idx, name), st'))))"

definition device_name_of :: "store \<Rightarrow> key \<Rightarrow> string option" where
  "device_name_of st pk = map_option d_name (find_device_row st pk)"

definition device_owner :: "store \<Rightarrow> key \<Rightarrow> u64 option" where
  "device_owner st pk = map_option d_user (find_device_row st pk)"

definition update_device :: "key \<Rightarrow> (dev_row \<Rightarrow> dev_row) \<Rightarrow> store \<Rightarrow> store" where
  "update_device pk f st = st\<lparr>devices := map (\<lambda>r. if d_pubkey r = pk then f r else r) (devices st)\<rparr>"

definition device_token :: "key \<Rightarrow> string \<Rightarrow> string option db" where
  "device_token pk fresh st =
     (case find_device_row st pk of
        None \<Rightarrow> (Inr None, st)
      | Some row \<Rightarrow>
          (case d_token row of
             Some token \<Rightarrow> (Inr (Some token), st)
           | None \<Rightarrow> (Inr (Some fresh), update_device pk (\<lambda>r. r\<lparr>d_token := Some fresh\<rparr>) st)))"

definition device_auth :: "store \<Rightarrow> key \<Rightarrow> string option option" where
  "device_auth st pk = map_option d_token (find_device_row st pk)"

definition device_by_token :: "store \<Rightarrow> string \<Rightarrow> store_error + (u64 \<times> key) option" where
  "device_by_token st token =
     (case List.find (\<lambda>r. d_token r = Some token) (devices st) of
        None \<Rightarrow> Inr None
      | Some r \<Rightarrow> bindR (pubkey_from_blob (d_pubkey r)) (\<lambda>pk. Inr (Some (d_user r, pk))))"

definition rename_device :: "u64 \<Rightarrow> key \<Rightarrow> string \<Rightarrow> string db" where
  "rename_device u pk name st =
     (case unique_device_name st u name (Some pk) of
        None \<Rightarrow> (Inl Unreachable, st)
      | Some name' \<Rightarrow> (Inr name', update_device pk (\<lambda>r. r\<lparr>d_name := name'\<rparr>) st))"

definition user_devices :: "store \<Rightarrow> u64 \<Rightarrow> store_error + (key \<times> string) list" where
  "user_devices st u =
     mapR (\<lambda>r. bindR (pubkey_from_blob (d_pubkey r)) (\<lambda>pk. Inr (pk, d_name r))) (rows_of st u)"

definition ensure_primary :: "u64 \<Rightarrow> key \<Rightarrow> store \<Rightarrow> store" where
  "ensure_primary u pk st =
     (if tget (primary_device st) u = None
      then st\<lparr>primary_device := tput u pk (primary_device st)\<rparr> else st)"

definition set_primary :: "u64 \<Rightarrow> key \<Rightarrow> store \<Rightarrow> store" where
  "set_primary u pk st = st\<lparr>primary_device := tput u pk (primary_device st)\<rparr>"

definition primary_pubkey :: "store \<Rightarrow> u64 \<Rightarrow> store_error + key option" where
  "primary_pubkey st u =
     (case tget (primary_device st) u of
        None \<Rightarrow> Inr None
      | Some b \<Rightarrow> bindR (pubkey_from_blob b) (\<lambda>pk. Inr (Some pk)))"

definition remove_device :: "u64 \<Rightarrow> key \<Rightarrow> unit db" where
  "remove_device u pk st =
     (let st1 = st\<lparr>devices := filter (\<lambda>r. \<not> (d_pubkey r = pk \<and> d_user r = u)) (devices st),
                   oauth_authorized := filter (\<lambda>r. oa_pubkey r \<noteq> pk) (oauth_authorized st),
                   services := filter (\<lambda>r. sv_pubkey r \<noteq> pk) (services st)\<rparr>
      in case primary_pubkey st1 u of
           Inl e \<Rightarrow> (Inl e, st1)
         | Inr prim \<Rightarrow>
             if prim \<noteq> Some pk then (Inr (), st1)
             else case user_devices st1 u of
               Inl e \<Rightarrow> (Inl e, st1)
             | Inr [] \<Rightarrow> (Inr (), st1\<lparr>primary_device := tdel u (primary_device st1)\<rparr>)
             | Inr ((pk', _) # _) \<Rightarrow> (Inr (), set_primary u pk' st1))"

definition touch_device :: "key \<Rightarrow> bool \<Rightarrow> u64 \<Rightarrow> store \<Rightarrow> store" where
  "touch_device pk personal now =
     update_device pk (\<lambda>r. r\<lparr>d_seen := Some (as_i64 now), d_personal := personal\<rparr>)"

text \<open>The rows are read first and removed one by one, counting; an error stops the sweep.\<close>

fun reclaim_rows :: "dev_row list \<Rightarrow> nat \<Rightarrow> nat db" where
  "reclaim_rows [] freed st = (Inr freed, st)"
| "reclaim_rows (r # rows) freed st =
     (case pubkey_from_blob (d_pubkey r) of
        Inl e \<Rightarrow> (Inl e, st)
      | Inr pk \<Rightarrow>
          (case remove_device (d_user r) pk st of
             (Inl e, st') \<Rightarrow> (Inl e, st')
           | (Inr _, st') \<Rightarrow> reclaim_rows rows (Suc freed) st'))"

definition idle_personal :: "int \<Rightarrow> dev_row \<Rightarrow> bool" where
  "idle_personal cutoff r \<longleftrightarrow> d_personal r \<and>
     (case d_seen r of None \<Rightarrow> False | Some t \<Rightarrow> t < cutoff)"

definition reclaim_idle_personal_devices :: "u64 \<Rightarrow> u64 \<Rightarrow> nat db" where
  "reclaim_idle_personal_devices idle_secs now st =
     (let cutoff = as_i64 (sat_sub now idle_secs)
      in reclaim_rows (filter (idle_personal cutoff) (devices st)) 0 st)"

text \<open>\<open>match_device_by_name\<close>.\<close>

datatype device_match = One key | NoMatch | Many

definition match_device_by_name :: "(key \<times> string) list \<Rightarrow> string \<Rightarrow> device_match" where
  "match_device_by_name devs name =
     (case filter (\<lambda>(pk, n). n = name) devs of
        [] \<Rightarrow> NoMatch
      | [(pk, _)] \<Rightarrow> One pk
      | _ \<Rightarrow> Many)"

subsection \<open>The invariant of the tables\<close>

definition dev_inv :: "store \<Rightarrow> bool" where
  "dev_inv st \<longleftrightarrow>
     distinct (map d_pubkey (devices st)) \<and> distinct (map d_idx (devices st)) \<and>
     (\<forall>r\<in>set (devices st). length (d_pubkey r) = 32 \<and> 0 \<le> d_idx r \<and> d_idx r < 2 ^ 32) \<and>
     (\<forall>u. distinct (map d_name (rows_of st u)) \<and> length (rows_of st u) \<le> MAX_DEVICES_PER_USER)"

text \<open>Every index is one the mesh hands out.\<close>

definition idx_inv :: "ipv4net \<Rightarrow> store \<Rightarrow> bool" where
  "idx_inv net st \<longleftrightarrow> (\<forall>r\<in>set (devices st). \<exists>i. u32_of (d_idx r) = Some i \<and> index_is_valid net i)"

text \<open>Every primary pointer names a device of its user.\<close>

definition primary_inv :: "store \<Rightarrow> bool" where
  "primary_inv st \<longleftrightarrow> tok (primary_device st) \<and>
     (\<forall>u pk. tget (primary_device st) u = Some pk \<longrightarrow>
        (\<exists>r\<in>set (devices st). d_pubkey r = pk \<and> d_user r = u))"

definition addr_of_row :: "ipv4net \<Rightarrow> dev_row \<Rightarrow> ipv4" where
  "addr_of_row net r = addr_from_index net (word_of_int (d_idx r))"

lemma u32_of_uint [simp]: "u32_of (uint i) = Some i"
  using uint_lt2p [of i] by (simp add: u32_of_def)

lemma u32_of_Some: "u32_of i = Some w \<longleftrightarrow> i = uint w"
proof
  assume "u32_of i = Some w"
  then have i: "0 \<le> i" "i < 2 ^ 32" "w = word_of_int i" by (auto simp: u32_of_def split: if_splits)
  then show "i = uint w" by (simp add: uint_word_of_int)
qed simp

lemma find_device_row_Some:
  "find_device_row st pk = Some r \<Longrightarrow> r \<in> set (devices st) \<and> d_pubkey r = pk"
  by (auto simp: find_device_row_def find_Some_iff)

lemma find_device_row_None:
  "find_device_row st pk = None \<longleftrightarrow> pk \<notin> d_pubkey ` set (devices st)"
  by (auto simp: find_device_row_def find_None_iff)

lemma find_device_row_unique:
  "distinct (map d_pubkey (devices st)) \<Longrightarrow> r \<in> set (devices st) \<Longrightarrow>
   find_device_row st (d_pubkey r) = Some r"
proof -
  assume d: "distinct (map d_pubkey (devices st))" and r: "r \<in> set (devices st)"
  then obtain r' where "find_device_row st (d_pubkey r) = Some r'"
    using find_device_row_None [of st "d_pubkey r"] by (cases "find_device_row st (d_pubkey r)") auto
  with d r find_device_row_Some [OF this] show ?thesis by (auto simp: distinct_map dest: inj_onD)
qed

lemma set_taken_names:
  "set (taken_names st u ex) =
     {d_name r | r. r \<in> set (devices st) \<and> d_user r = u \<and> ex \<noteq> Some (d_pubkey r)}"
  by (auto simp: taken_names_def rows_of_def split: option.splits)

text \<open>The loop never falls through: it tries more candidates than there are names taken.\<close>

lemma unique_device_name_total:
  "\<exists>name. unique_device_name st u desired ex = Some name \<and>
     name \<notin> set (taken_names st u ex) \<and>
     (name = desired \<or> desired \<in> set (taken_names st u ex) \<and> (\<exists>n\<ge>2. name = suffixed_label desired n))"
proof (cases "desired \<in> set (taken_names st u ex)")
  case False
  then show ?thesis by (simp add: unique_device_name_def Let_def)
next
  case True
  let ?t = "taken_names st u ex"
  have "card (set ?t) < length ?t + 3 - 2"
    using card_length [of ?t] by simp
  from suffixes.free_within [OF this, of desired] True show ?thesis
    by (auto simp: unique_device_name_def Let_def)
qed

lemma taken_names_length: "length (taken_names st u ex) \<le> length (rows_of st u)"
proof -
  let ?xs = "filter (\<lambda>r. case ex of Some ex \<Rightarrow> d_pubkey r \<noteq> ex | None \<Rightarrow> True) (rows_of st u)"
  have "length (taken_names st u ex) \<le> length (map d_name ?xs)"
    unfolding taken_names_def by (rule length_remdups_leq)
  also have "\<dots> \<le> length (rows_of st u)" by simp
  finally show ?thesis .
qed

lemma mem_map_filter: "y \<in> set (List.map_filter f xs) \<longleftrightarrow> (\<exists>x\<in>set xs. f x = Some y)"
  by (induction xs) (auto simp: map_filter_simps split: option.splits)

lemma uint_mem_taken:
  "uint idx \<in> d_idx ` set (devices st) \<longleftrightarrow> idx \<in> taken_indices st"
proof -
  have "idx \<in> taken_indices st \<longleftrightarrow> (\<exists>r\<in>set (devices st). d_idx r = uint idx)"
    by (simp add: taken_indices_def mem_map_filter u32_of_Some)
  then show ?thesis by (auto simp: image_iff dest: sym)
qed

lemma rows_of_append:
  "rows_of (st\<lparr>devices := devices st @ [r]\<rparr>) u = rows_of st u @ (if d_user r = u then [r] else [])"
  by (simp add: rows_of_def)

text \<open>What allocation does on each branch, in one place.\<close>

lemma allocate_device_cases:
  assumes "allocate_device sip net pk u name token st = (res, st')"
  obtains
    (known) r i where "find_device_row st pk = Some r" "u32_of (d_idx r) = Some i"
      "index_is_valid net i" "res = Inr (addr_from_index net i, d_name r)" "st' = st"
  | (refused) e where "res = Inl e" "st' = st" "e \<noteq> Unreachable" "e \<noteq> UniqueViolation"
  | (fresh) idx nm where "find_device_row st pk = None"
      "length (rows_of st u) < MAX_DEVICES_PER_USER"
      "pick_free_index net (taken_indices st) (device_hint sip net pk) = Some idx"
      "unique_device_name st u name None = Some nm" "nm \<notin> set (taken_names st u None)"
      "res = Inr (addr_from_index net idx, nm)"
      "st' = st\<lparr>devices := devices st @ [new_device_row pk (uint idx) u nm token]\<rparr>"
proof (cases "find_device_row st pk")
  case (Some r)
  with assms known refused show ?thesis
    by (auto simp: allocate_device_def split: option.splits if_splits)
next
  case None
  show ?thesis
  proof (cases "MAX_DEVICES_PER_USER \<le> length (rows_of st u)")
    case True
    with None assms refused show ?thesis by (auto simp: allocate_device_def)
  next
    case False
    show ?thesis
    proof (cases "pick_free_index net (taken_indices st) (device_hint sip net pk)")
      case none: None
      with None False assms refused show ?thesis by (auto simp: allocate_device_def)
    next
      case (Some idx)
      obtain nm where nm: "unique_device_name st u name None = Some nm"
        "nm \<notin> set (taken_names st u None)"
        using unique_device_name_total by blast
      have "uint idx \<notin> d_idx ` set (devices st)"
        using pick_free_index_Some [OF Some] uint_mem_taken by blast
      moreover have "pk \<notin> d_pubkey ` set (devices st)" using None find_device_row_None by blast
      ultimately show ?thesis
        using None False Some nm assms fresh
        by (auto simp: allocate_device_def insert_device_def new_device_row_def)
    qed
  qed
qed

subsection \<open>Every operation keeps the invariants\<close>

lemma dev_inv_append:
  assumes "dev_inv st" and "d_pubkey r \<notin> d_pubkey ` set (devices st)"
    and "d_idx r \<notin> d_idx ` set (devices st)" and "length (d_pubkey r) = 32"
    and "0 \<le> d_idx r" and "d_idx r < 2 ^ 32"
    and "d_name r \<notin> set (taken_names st (d_user r) None)"
    and "length (rows_of st (d_user r)) < MAX_DEVICES_PER_USER"
  shows "dev_inv (st\<lparr>devices := devices st @ [r]\<rparr>)"
proof -
  have "d_name r \<notin> d_name ` set (rows_of st (d_user r))"
    using assms(7) by (auto simp: set_taken_names rows_of_def)
  then have "distinct (map d_name (rows_of (st\<lparr>devices := devices st @ [r]\<rparr>) u)) \<and>
      length (rows_of (st\<lparr>devices := devices st @ [r]\<rparr>) u) \<le> MAX_DEVICES_PER_USER" for u
    using assms(1,8) by (auto simp: dev_inv_def rows_of_append)
  with assms show ?thesis by (auto simp: dev_inv_def)
qed

lemma primary_inv_append: "primary_inv st \<Longrightarrow> primary_inv (st\<lparr>devices := devices st @ rs\<rparr>)"
  by (auto simp: primary_inv_def)

lemma primary_inv_update:
  assumes "\<And>r. d_pubkey (f r) = d_pubkey r" and "\<And>r. d_user (f r) = d_user r" and "primary_inv st"
  shows "primary_inv (update_device pk f st)"
proof -
  have "\<exists>r'\<in>set (devices (update_device pk f st)). d_pubkey r' = d_pubkey r \<and> d_user r' = d_user r"
    if "r \<in> set (devices st)" for r
  proof
    show "(if d_pubkey r = pk then f r else r) \<in> set (devices (update_device pk f st))"
      using that unfolding update_device_def by simp
    show "d_pubkey (if d_pubkey r = pk then f r else r) = d_pubkey r \<and>
        d_user (if d_pubkey r = pk then f r else r) = d_user r"
      using assms(1,2) by simp
  qed
  with assms(3) show ?thesis by (fastforce simp: primary_inv_def update_device_def)
qed

lemma allocate_device_inv:
  assumes "allocate_device sip net pk u name token st = (res, st')"
    and "dev_inv st" and "idx_inv net st" and "length pk = 32"
  shows "dev_inv st'" and "idx_inv net st'" and "primary_inv st \<Longrightarrow> primary_inv st'"
proof -
  have "dev_inv st' \<and> idx_inv net st' \<and> (primary_inv st \<longrightarrow> primary_inv st')"
    using assms(1)
  proof (cases rule: allocate_device_cases)
    case (fresh idx nm)
    have idx: "index_is_valid net idx" "idx \<notin> taken_indices st"
      using pick_free_index_Some [OF fresh(3)] by auto
    have pk: "pk \<notin> d_pubkey ` set (devices st)" using fresh(1) by (simp add: find_device_row_None)
    have nm: "nm \<notin> set (taken_names st u None)" by (rule fresh(5))
    have "dev_inv st'"
      unfolding fresh(7)
      by (rule dev_inv_append [OF assms(2)])
        (use pk idx nm fresh(2) assms(4) uint_mem_taken [of idx st] uint_lt2p [of idx]
          in \<open>auto simp: new_device_row_def\<close>)
    moreover have "idx_inv net st'"
      using assms(3) idx(1) unfolding fresh(7) idx_inv_def by (auto simp: new_device_row_def)
    moreover have "primary_inv st \<longrightarrow> primary_inv st'"
      unfolding fresh(7) by (blast intro: primary_inv_append)
    ultimately show ?thesis by blast
  qed (use assms in auto)
  then show "dev_inv st'" "idx_inv net st'" "primary_inv st \<Longrightarrow> primary_inv st'" by auto
qed

text \<open>Updates of columns that are in no constraint.\<close>

lemma devices_update_map:
  "(\<And>r. g (f r) = g r) \<Longrightarrow> map g (devices (update_device pk f st)) = map g (devices st)"
  by (induction "devices st") (auto simp: update_device_def)

lemma rows_of_update:
  "(\<And>r. d_user (f r) = d_user r) \<Longrightarrow>
   rows_of (update_device pk f st) u = map (\<lambda>r. if d_pubkey r = pk then f r else r) (rows_of st u)"
  by (simp add: rows_of_def update_device_def filter_map o_def if_distrib cong: if_cong)

lemma set_update_device:
  "set (devices (update_device pk f st)) =
     (\<lambda>r. if d_pubkey r = pk then f r else r) ` set (devices st)"
  by (simp add: update_device_def)

lemma dev_inv_update:
  assumes "\<And>r. d_pubkey (f r) = d_pubkey r" and "\<And>r. d_user (f r) = d_user r"
    and "\<And>r. d_idx (f r) = d_idx r" and "dev_inv st"
    and "\<And>u. distinct (map d_name (rows_of (update_device pk f st) u))"
  shows "dev_inv (update_device pk f st)"
  using assms devices_update_map [of d_pubkey f] devices_update_map [of d_idx f]
  by (auto simp: dev_inv_def rows_of_update set_update_device)

lemma idx_inv_update:
  assumes "\<And>r. d_idx (f r) = d_idx r" and "idx_inv net st"
  shows "idx_inv net (update_device pk f st)"
  using assms by (auto simp: idx_inv_def set_update_device)

lemma dev_inv_update_name_free:
  assumes "\<And>r. d_pubkey (f r) = d_pubkey r" and "\<And>r. d_user (f r) = d_user r"
    and "\<And>r. d_idx (f r) = d_idx r" and "\<And>r. d_name (f r) = d_name r" and "dev_inv st"
  shows "dev_inv (update_device pk f st)"
proof (rule dev_inv_update [OF assms(1,2,3,5)])
  fix u
  have "map d_name (rows_of (update_device pk f st) u) = map d_name (rows_of st u)"
    using assms(2,4) by (simp add: rows_of_update)
  then show "distinct (map d_name (rows_of (update_device pk f st) u))"
    using assms(5) by (simp add: dev_inv_def)
qed

lemma touch_device_inv:
  "dev_inv st \<Longrightarrow> dev_inv (touch_device pk p now st)"
  "idx_inv net st \<Longrightarrow> idx_inv net (touch_device pk p now st)"
  "primary_inv st \<Longrightarrow> primary_inv (touch_device pk p now st)"
  unfolding touch_device_def
  by (auto intro: dev_inv_update_name_free idx_inv_update primary_inv_update)

lemma device_token_inv:
  assumes "device_token pk fresh st = (res, st')"
  shows "dev_inv st \<Longrightarrow> dev_inv st'" and "idx_inv net st \<Longrightarrow> idx_inv net st'"
    and "primary_inv st \<Longrightarrow> primary_inv st'"
  using assms
  by (auto simp: device_token_def split: option.splits
      intro: dev_inv_update_name_free idx_inv_update primary_inv_update)

lemma rename_device_inv:
  assumes "rename_device u pk name st = (res, st')" and "dev_inv st"
    and "device_owner st pk = Some u"
  shows "dev_inv st'" and "idx_inv net st \<Longrightarrow> idx_inv net st'"
    and "primary_inv st \<Longrightarrow> primary_inv st'"
proof -
  obtain nm where nm: "unique_device_name st u name (Some pk) = Some nm"
    "nm \<notin> set (taken_names st u (Some pk))"
    using unique_device_name_total by blast
  let ?f = "\<lambda>r. r\<lparr>d_name := nm\<rparr>"
  have st': "st' = update_device pk ?f st" using assms(1) nm by (simp add: rename_device_def)
  have dk: "distinct (map d_pubkey (devices st))" using assms(2) by (simp add: dev_inv_def)
  have owner: "d_user r = u" if "r \<in> set (devices st)" "d_pubkey r = pk" for r
    using that assms(3) find_device_row_unique [OF dk that(1)] by (auto simp: device_owner_def)
  have "distinct (map d_name (rows_of (update_device pk ?f st) v))" for v
  proof (cases "v = u")
    case False
    then have "map (\<lambda>r. if d_pubkey r = pk then ?f r else r) (rows_of st v) = rows_of st v"
      using owner by (auto simp: rows_of_def intro!: map_idI)
    then show ?thesis using assms(2) by (simp add: rows_of_update dev_inv_def)
  next
    case True
    have others: "\<forall>r\<in>set (rows_of st u). d_pubkey r \<noteq> pk \<longrightarrow> d_name r \<noteq> nm"
      using nm(2) by (auto simp: set_taken_names rows_of_def)
    have "inj_on d_pubkey (set (rows_of st u))" "distinct (rows_of st u)"
      using dk by (auto simp: distinct_map rows_of_def intro: inj_on_subset)
    moreover have "inj_on d_name (set (rows_of st u))"
      using assms(2) by (auto simp: dev_inv_def distinct_map)
    ultimately have "inj_on (\<lambda>r. if d_pubkey r = pk then nm else d_name r) (set (rows_of st u))"
      using others unfolding inj_on_def by (metis (no_types, lifting))
    then have "distinct (map (\<lambda>r. if d_pubkey r = pk then nm else d_name r) (rows_of st u))"
      using \<open>distinct (rows_of st u)\<close> by (simp add: distinct_map)
    moreover have "map d_name (rows_of (update_device pk ?f st) u) =
        map (\<lambda>r. if d_pubkey r = pk then nm else d_name r) (rows_of st u)"
      by (simp add: rows_of_update)
    ultimately show ?thesis using True by simp
  qed
  then show "dev_inv st'" unfolding st' by (intro dev_inv_update assms(2)) auto
  show "idx_inv net st \<Longrightarrow> idx_inv net st'" unfolding st' by (rule idx_inv_update) auto
  show "primary_inv st \<Longrightarrow> primary_inv st'" unfolding st' by (rule primary_inv_update) auto
qed


end
