(* ===== verification/DeviceLife.thy ===== *)
theory DeviceLife
  imports DeviceTable
begin

section \<open>The life of a device row\<close>

text \<open>
  Removal and reclaiming keep the invariants; the properties of allocation; and the step
  relation of the operations as the coordinator's handlers call them, with the invariants and
  the stability of an address along every run.
\<close>

lemma distinct_map_filter': "distinct (map f xs) \<Longrightarrow> distinct (map f (filter P xs))"
  by (rule distinct_map_filter)

lemma dev_inv_filter:
  assumes "dev_inv st" and "devices st' = filter P (devices st)"
  shows "dev_inv st'"
proof -
  have rows: "rows_of st' u = filter P (rows_of st u)" for u
    by (simp add: rows_of_def assms(2)) (meson conj_commute)
  have "length (filter P (rows_of st u)) \<le> MAX_DEVICES_PER_USER" for u
    using assms(1) length_filter_le [of P "rows_of st u"]
    unfolding dev_inv_def by (meson le_trans)
  with assms rows show ?thesis by (auto simp: dev_inv_def distinct_map_filter)
qed

lemma idx_inv_filter:
  "idx_inv net st \<Longrightarrow> devices st' = filter P (devices st) \<Longrightarrow> idx_inv net st'"
  by (simp add: idx_inv_def)

lemma user_devices_ok:
  assumes "dev_inv st"
  shows "user_devices st u = Inr (map (\<lambda>r. (d_pubkey r, d_name r)) (rows_of st u))"
  unfolding user_devices_def
  by (rule mapR_Inr) (use assms in \<open>auto simp: dev_inv_def rows_of_def pubkey_from_blob_def\<close>)

lemma primary_pubkey_ok:
  assumes "\<And>r. r \<in> set (devices st) \<Longrightarrow> length (d_pubkey r) = 32" and "primary_inv st"
  shows "primary_pubkey st u = Inr (tget (primary_device st) u)"
  using assms
  by (auto simp: primary_pubkey_def primary_inv_def pubkey_from_blob_def split: option.splits)

definition removed :: "u64 \<Rightarrow> key \<Rightarrow> store \<Rightarrow> store" where
  "removed u pk st =
     st\<lparr>devices := filter (\<lambda>r. \<not> (d_pubkey r = pk \<and> d_user r = u)) (devices st),
        oauth_authorized := filter (\<lambda>r. oa_pubkey r \<noteq> pk) (oauth_authorized st),
        services := filter (\<lambda>r. sv_pubkey r \<noteq> pk) (services st)\<rparr>"

lemma removed_simps [simp]:
  "devices (removed u pk st) = filter (\<lambda>r. \<not> (d_pubkey r = pk \<and> d_user r = u)) (devices st)"
  "primary_device (removed u pk st) = primary_device st"
  "oauth_authorized (removed u pk st) = filter (\<lambda>r. oa_pubkey r \<noteq> pk) (oauth_authorized st)"
  "services (removed u pk st) = filter (\<lambda>r. sv_pubkey r \<noteq> pk) (services st)"
  by (simp_all add: removed_def)

lemma rows_of_removed:
  "rows_of (removed u pk st) v =
     (if v = u then filter (\<lambda>r. d_pubkey r \<noteq> pk) (rows_of st v) else rows_of st v)"
  by (auto simp: rows_of_def intro!: filter_cong)

lemma remove_device_unfold:
  "remove_device u pk st =
     (case primary_pubkey (removed u pk st) u of
        Inl e \<Rightarrow> (Inl e, removed u pk st)
      | Inr prim \<Rightarrow>
          if prim \<noteq> Some pk then (Inr (), removed u pk st)
          else case user_devices (removed u pk st) u of
            Inl e \<Rightarrow> (Inl e, removed u pk st)
          | Inr [] \<Rightarrow> (Inr (), (removed u pk st)
                          \<lparr>primary_device := tdel u (primary_device (removed u pk st))\<rparr>)
          | Inr ((pk', _) # _) \<Rightarrow> (Inr (), set_primary u pk' (removed u pk st)))"
  unfolding remove_device_def Let_def removed_def ..

text \<open>Removal never fails on well-formed tables; what it leaves, branch by branch.\<close>

lemma remove_device_result:
  assumes "dev_inv st" and "primary_inv st"
  shows "remove_device u pk st = (Inr (),
     if tget (primary_device st) u \<noteq> Some pk then removed u pk st
     else case rows_of (removed u pk st) u of
       [] \<Rightarrow> (removed u pk st)\<lparr>primary_device := tdel u (primary_device st)\<rparr>
     | r # _ \<Rightarrow> set_primary u (d_pubkey r) (removed u pk st))"
proof -
  have len: "length (d_pubkey r) = 32" if "r \<in> set (devices st)" for r
    using assms(1) that by (auto simp: dev_inv_def)
  have "primary_pubkey (removed u pk st) u = primary_pubkey st u"
    by (simp add: primary_pubkey_def)
  then have p: "primary_pubkey (removed u pk st) u = Inr (tget (primary_device st) u)"
    using primary_pubkey_ok [OF len assms(2)] by simp
  have "dev_inv (removed u pk st)" by (rule dev_inv_filter [OF assms(1)]) simp
  from user_devices_ok [OF this] p show ?thesis
    by (auto simp: remove_device_unfold split: list.splits)
qed

lemma remove_device_devices:
  assumes "dev_inv st" and "primary_inv st" and "remove_device u pk st = (res, st')"
  shows "devices st' = filter (\<lambda>r. \<not> (d_pubkey r = pk \<and> d_user r = u)) (devices st) \<and> res = Inr ()"
  using assms(3) unfolding remove_device_result [OF assms(1,2)]
  by (auto simp: set_primary_def split: list.splits if_splits)

lemma remove_device_inv:
  assumes "dev_inv st" and "primary_inv st" and "remove_device u pk st = (res, st')"
  shows "dev_inv st'" and "idx_inv net st \<Longrightarrow> idx_inv net st'" and "primary_inv st'"
proof -
  have dv: "devices st' = filter (\<lambda>r. \<not> (d_pubkey r = pk \<and> d_user r = u)) (devices st)"
    using remove_device_devices [OF assms] by simp
  show "dev_inv st'" by (rule dev_inv_filter [OF assms(1) dv])
  show "idx_inv net st \<Longrightarrow> idx_inv net st'" by (rule idx_inv_filter [OF _ dv])
  have keep: "\<exists>r\<in>set (devices st'). d_pubkey r = p \<and> d_user r = v"
    if "tget (primary_device st) v = Some p" "v \<noteq> u \<or> p \<noteq> pk" for v p
    using assms(2) that unfolding primary_inv_def dv by fastforce
  have toks: "tok (primary_device st)" using assms(2) by (simp add: primary_inv_def)
  show "primary_inv st'"
  proof (cases "tget (primary_device st) u = Some pk")
    case False
    then have "primary_device st' = primary_device st"
      using assms(3) remove_device_result [OF assms(1,2), of u pk] by auto
    with keep toks False show ?thesis by (auto simp: primary_inv_def)
  next
    case True
    show ?thesis
    proof (cases "rows_of (removed u pk st) u")
      case Nil
      then have "primary_device st' = tdel u (primary_device st)"
        using assms(3) True remove_device_result [OF assms(1,2), of u pk] by auto
      with keep toks show ?thesis by (auto simp: primary_inv_def split: if_splits)
    next
      case (Cons r rs)
      then have pd: "primary_device st' = tput u (d_pubkey r) (primary_device st)"
        using assms(3) True remove_device_result [OF assms(1,2), of u pk]
        by (auto simp: set_primary_def)
      have "r \<in> set (rows_of (removed u pk st) u)" using Cons by simp
      then have "r \<in> set (devices st')" "d_user r = u" by (auto simp: rows_of_def dv)
      with keep toks pd show ?thesis by (auto simp: primary_inv_def split: if_splits)
    qed
  qed
qed

lemma reclaim_rows_inv:
  assumes "dev_inv st" and "primary_inv st" and "\<forall>r\<in>set rows. length (d_pubkey r) = 32"
    and "reclaim_rows rows n st = (res, st')"
  shows "dev_inv st' \<and> primary_inv st' \<and> (idx_inv net st \<longrightarrow> idx_inv net st') \<and>
    res = Inr (n + length rows) \<and>
    devices st' = filter (\<lambda>r. (d_pubkey r, d_user r) \<notin> (\<lambda>r. (d_pubkey r, d_user r)) ` set rows) (devices st)"
  using assms
proof (induction rows n st rule: reclaim_rows.induct)
  case (1 n st)
  then show ?case by simp
next
  case (2 r rows n st)
  obtain res1 st1 where step: "remove_device (d_user r) (d_pubkey r) st = (res1, st1)" by fastforce
  have pk: "pubkey_from_blob (d_pubkey r) = Inr (d_pubkey r)"
    using 2(4) by (simp add: pubkey_from_blob_def)
  note d = remove_device_devices [OF 2(2,3) step] and i = remove_device_inv [OF 2(2,3) step]
  have rest: "reclaim_rows rows (Suc n) st1 = (res, st')" using 2(5) pk step d by simp
  have "dev_inv st' \<and> primary_inv st' \<and> (idx_inv net st1 \<longrightarrow> idx_inv net st') \<and>
      res = Inr (Suc n + length rows) \<and> devices st' =
        filter (\<lambda>r. (d_pubkey r, d_user r) \<notin> (\<lambda>r. (d_pubkey r, d_user r)) ` set rows) (devices st1)"
    using 2(1) [OF pk step [symmetric]] d i(1,3) 2(4) rest by simp
  moreover have "filter (\<lambda>r. (d_pubkey r, d_user r) \<notin> (\<lambda>r. (d_pubkey r, d_user r)) ` set rows) (devices st1) =
      filter (\<lambda>x. (d_pubkey x, d_user x) \<notin> (\<lambda>r. (d_pubkey r, d_user r)) ` set (r # rows)) (devices st)"
    using d by (auto intro!: filter_cong)
  ultimately show ?case using i(2) by simp
qed

lemma reclaim_inv:
  assumes "dev_inv st" and "primary_inv st"
    and "reclaim_idle_personal_devices idle now st = (res, st')"
  shows "dev_inv st' \<and> primary_inv st' \<and> (idx_inv net st \<longrightarrow> idx_inv net st')"
  using reclaim_rows_inv [OF assms(1,2), of "filter (idle_personal (as_i64 (sat_sub now idle))) (devices st)" 0 res st' net]
    assms by (auto simp: reclaim_idle_personal_devices_def Let_def dev_inv_def)

subsection \<open>Runs of the handlers' calls\<close>

text \<open>
  One step per call the handlers make: \<open>snapshot\<close> allocates and then ensures a primary, for a
  key that is new or already the caller's; \<open>manage\<close> renames, promotes and removes devices of the
  caller; registering stamps the row; the reaper reclaims. The label says which.
\<close>

datatype dev_op =
    Enroll key u64 string string
  | Rename u64 key string
  | SetPrimary u64 key
  | Remove u64 key
  | Touch key bool u64
  | MintToken key string
  | Reclaim u64 u64

inductive dev_step :: "(u8 list \<Rightarrow> u64) \<Rightarrow> ipv4net \<Rightarrow> store \<Rightarrow> dev_op \<Rightarrow> store \<Rightarrow> bool"
  for sip net where
  enroll: "length pk = 32 \<Longrightarrow> device_owner st pk = None \<or> device_owner st pk = Some u \<Longrightarrow>
    allocate_device sip net pk u name token st = (Inr a, st') \<Longrightarrow>
    dev_step sip net st (Enroll pk u name token) (ensure_primary u pk st')"
| enroll_error: "length pk = 32 \<Longrightarrow> allocate_device sip net pk u name token st = (Inl e, st') \<Longrightarrow>
    dev_step sip net st (Enroll pk u name token) st'"
| rename: "device_owner st pk = Some u \<Longrightarrow> rename_device u pk name st = (res, st') \<Longrightarrow>
    dev_step sip net st (Rename u pk name) st'"
| set_primary: "device_owner st pk = Some u \<Longrightarrow>
    dev_step sip net st (SetPrimary u pk) (set_primary u pk st)"
| remove: "remove_device u pk st = (res, st') \<Longrightarrow> dev_step sip net st (Remove u pk) st'"
| touch: "dev_step sip net st (Touch pk personal now) (touch_device pk personal now st)"
| mint: "device_token pk fresh st = (res, st') \<Longrightarrow> dev_step sip net st (MintToken pk fresh) st'"
| reclaim: "reclaim_idle_personal_devices idle now st = (res, st') \<Longrightarrow>
    dev_step sip net st (Reclaim idle now) st'"

inductive dev_run :: "(u8 list \<Rightarrow> u64) \<Rightarrow> ipv4net \<Rightarrow> store \<Rightarrow> dev_op list \<Rightarrow> store \<Rightarrow> bool"
  for sip net where
  stop: "dev_run sip net st [] st"
| step: "dev_step sip net st op st1 \<Longrightarrow> dev_run sip net st1 ops st' \<Longrightarrow>
    dev_run sip net st (op # ops) st'"

inductive_cases dev_run_NilE: "dev_run sip net st [] st'"
inductive_cases dev_run_ConsE: "dev_run sip net st (op # ops) st'"
inductive_simps dev_run_Nil [simp]: "dev_run sip net st [] st'"
inductive_simps dev_run_Cons: "dev_run sip net st (op # ops) st'"

definition tables_ok :: "ipv4net \<Rightarrow> store \<Rightarrow> bool" where
  "tables_ok net st \<longleftrightarrow> dev_inv st \<and> idx_inv net st \<and> primary_inv st"

lemma set_primary_inv:
  assumes "device_owner st pk = Some u" and "tables_ok net st"
  shows "tables_ok net (set_primary u pk st)"
proof -
  have "\<exists>r\<in>set (devices st). d_pubkey r = pk \<and> d_user r = u"
    using assms(1) find_device_row_Some by (fastforce simp: device_owner_def)
  then show ?thesis
    using assms(2)
    by (auto simp: tables_ok_def primary_inv_def set_primary_def dev_inv_def idx_inv_def rows_of_def
        split: if_splits)
qed

lemma ensure_primary_inv:
  "device_owner st pk = Some u \<Longrightarrow> tables_ok net st \<Longrightarrow> tables_ok net (ensure_primary u pk st)"
  using set_primary_inv [of st pk u net] by (simp add: ensure_primary_def set_primary_def)

lemma find_snoc:
  "List.find P (xs @ [r]) =
     (case List.find P xs of Some x \<Rightarrow> Some x | None \<Rightarrow> if P r then Some r else None)"
  by (induction xs) auto

lemma find_row_append:
  "find_device_row (st\<lparr>devices := devices st @ [r]\<rparr>) pk =
     (case find_device_row st pk of Some x \<Rightarrow> Some x
      | None \<Rightarrow> if d_pubkey r = pk then Some r else None)"
  by (simp add: find_device_row_def find_snoc)

lemma idx_inv_row:
  "idx_inv net st \<Longrightarrow> r \<in> set (devices st) \<Longrightarrow> \<exists>i. d_idx r = uint i \<and> index_is_valid net i"
  by (auto simp: idx_inv_def u32_of_Some)

lemma allocate_owner:
  assumes "allocate_device sip net pk u name token st = (Inr a, st')"
    and "device_owner st pk = None \<or> device_owner st pk = Some u"
  shows "device_owner st' pk = Some u"
  using assms(1)
proof (cases rule: allocate_device_cases)
  case (known r i)
  then show ?thesis using assms(2) by (auto simp: device_owner_def)
next
  case (fresh idx nm)
  then show ?thesis by (simp add: device_owner_def find_row_append new_device_row_def)
qed simp

lemma dev_step_inv: "dev_step sip net st op st' \<Longrightarrow> tables_ok net st \<Longrightarrow> tables_ok net st'"
proof (induction rule: dev_step.induct)
  case (enroll pk st u name token a st')
  then have "tables_ok net st'"
    using allocate_device_inv [OF enroll(3)] by (simp add: tables_ok_def)
  with allocate_owner [OF enroll(3,2)] show ?case by (rule ensure_primary_inv)
next
  case (enroll_error pk u name token st e st')
  then show ?case using allocate_device_inv [OF enroll_error(2)] by (simp add: tables_ok_def)
next
  case (rename st pk u name res st')
  then show ?case using rename_device_inv [OF rename(2)] by (simp add: tables_ok_def)
next
  case (set_primary st pk u)
  then show ?case by (rule set_primary_inv)
next
  case (remove u pk st res st')
  then show ?case using remove_device_inv [OF _ _ remove(1)] by (simp add: tables_ok_def)
next
  case (touch st pk personal now)
  then show ?case by (simp add: tables_ok_def touch_device_inv)
next
  case (mint pk fresh st res st')
  then show ?case using device_token_inv [OF mint(1)] by (simp add: tables_ok_def)
next
  case (reclaim idle now st res st')
  then show ?case using reclaim_inv [OF _ _ reclaim(1)] by (simp add: tables_ok_def)
qed

lemma dev_run_inv: "dev_run sip net st ops st' \<Longrightarrow> tables_ok net st \<Longrightarrow> tables_ok net st'"
  by (induction rule: dev_run.induct) (auto dest: dev_step_inv)

lemma tables_ok_empty: "tables_ok net empty_store"
  by (simp add: tables_ok_def empty_store_def dev_inv_def idx_inv_def primary_inv_def rows_of_def)

lemma addr_of_row_inj:
  assumes "idx_inv net st" and "r \<in> set (devices st)" and "r' \<in> set (devices st)"
    and "addr_of_row net r = addr_of_row net r'"
  shows "d_idx r = d_idx r'"
proof -
  obtain i j where i: "d_idx r = uint i" "index_is_valid net i"
    and j: "d_idx r' = uint j" "index_is_valid net j"
    using idx_inv_row [OF assms(1)] assms(2,3) by meson
  with assms(4) have "addr_from_index net i = addr_from_index net j" by (simp add: addr_of_row_def)
  then have "i = j" using addr_from_index_inj [OF i(2) j(2)] by simp
  with i j show ?thesis by simp
qed

lemma tables_ok_distinct:
  assumes "tables_ok net st" and "r \<in> set (devices st)" and "r' \<in> set (devices st)" and "r \<noteq> r'"
  shows "d_pubkey r \<noteq> d_pubkey r' \<and> addr_of_row net r \<noteq> addr_of_row net r' \<and>
    (d_user r = d_user r' \<longrightarrow> d_name r \<noteq> d_name r')"
proof -
  have inv: "dev_inv st" "idx_inv net st" using assms(1) by (simp_all add: tables_ok_def)
  then have "d_pubkey r \<noteq> d_pubkey r'" "d_idx r \<noteq> d_idx r'"
    using assms(2-4) by (auto simp: dev_inv_def distinct_map dest: inj_onD)
  moreover have "d_name r \<noteq> d_name r'" if "d_user r = d_user r'"
  proof -
    have "inj_on d_name (set (rows_of st (d_user r)))"
      using inv(1) by (simp add: dev_inv_def distinct_map)
    with that assms(2-4) show ?thesis by (auto simp: rows_of_def dest: inj_onD)
  qed
  ultimately show ?thesis using addr_of_row_inj [OF inv(2) assms(2,3)] by blast
qed

lemma addr_of_row_range:
  "idx_inv net st \<Longrightarrow> net_ok net \<Longrightarrow> r \<in> set (devices st) \<Longrightarrow>
   unat (net_network net) < unat (addr_of_row net r) \<and>
   unat (addr_of_row net r) < unat (net_network net) + 2 ^ (32 - net_prefix net) - 1"
  using addr_from_index_range [of net] idx_inv_row [of net st r] by (auto simp: addr_of_row_def)

lemma allocate_row:
  assumes "allocate_device sip net pk u name token st = (Inr (ip, nm), st')"
  shows "\<exists>r\<in>set (devices st'). d_pubkey r = pk \<and> d_name r = nm \<and> addr_of_row net r = ip \<and>
    (find_device_row st pk = Some r \<and> st' = st \<or>
     find_device_row st pk = None \<and> d_user r = u \<and> st' = st\<lparr>devices := devices st @ [r]\<rparr>)"
  using assms
proof (cases rule: allocate_device_cases)
  case (known r i)
  with find_device_row_Some [OF known(1)] show ?thesis
    by (auto simp: addr_of_row_def u32_of_Some intro!: bexI [of _ r])
next
  case (fresh idx n)
  then show ?thesis
    by (auto simp: addr_of_row_def new_device_row_def
        intro!: bexI [of _ "new_device_row pk (uint idx) u n token"])
qed simp

lemma card_valid: "card {i. index_is_valid net i} = unat (allocatable net)"
proof -
  have "unat ` {i. index_is_valid net i} = {1..unat (allocatable net)}"
  proof (intro equalityI subsetI)
    fix x assume x: "x \<in> {1..unat (allocatable net)}"
    then have "x < 2 ^ 32" using unsigned_less [of "allocatable net", where ?'a = nat] by simp
    then have "unat (of_nat x :: u32) = x" by (simp add: unat_of_nat)
    with x show "x \<in> unat ` {i. index_is_valid net i}"
      by (auto simp: index_is_valid_def word_le_nat_alt intro!: image_eqI [of _ _ "of_nat x"])
  qed (auto simp: index_is_valid_def word_le_nat_alt)
  moreover have "inj_on unat {i. index_is_valid net i}"
    by (rule inj_onI) (simp add: word_unat_eq_iff)
  ultimately show ?thesis using card_image by fastforce
qed

lemma taken_full:
  assumes "dev_inv st" and "idx_inv net st"
  shows "(\<forall>i. index_is_valid net i \<longrightarrow> i \<in> taken_indices st) \<longleftrightarrow>
     unat (allocatable net) \<le> length (devices st)"
proof -
  have d: "d_idx ` set (devices st) = uint ` taken_indices st"
  proof (intro equalityI subsetI)
    fix x assume x: "x \<in> d_idx ` set (devices st)"
    then obtain r where "r \<in> set (devices st)" "x = d_idx r" by blast
    with idx_inv_row [OF assms(2) this(1)] obtain i :: u32 where "x = uint i" by metis
    with x have "i \<in> taken_indices st" using uint_mem_taken [of i st] by simp
    with \<open>x = uint i\<close> show "x \<in> uint ` taken_indices st" by simp
  qed (auto simp: uint_mem_taken [symmetric])
  have "inj_on uint (taken_indices st)" by (rule inj_onI) (simp add: word_uint_eq_iff)
  then have "card (taken_indices st) = card (d_idx ` set (devices st))"
    by (simp add: d card_image)
  also have "\<dots> = length (devices st)"
    using assms(1) by (metis dev_inv_def distinct_card length_map set_map)
  finally have n: "card (taken_indices st) = length (devices st)" .
  have sub: "taken_indices st \<subseteq> {i. index_is_valid net i}"
  proof
    fix i assume "i \<in> taken_indices st"
    then obtain r where "r \<in> set (devices st)" "d_idx r = uint i"
      using uint_mem_taken [of i st] by auto
    with idx_inv_row [OF assms(2) this(1)] show "i \<in> {i. index_is_valid net i}"
      by (metis mem_Collect_eq word_uint_eq_iff)
  qed
  have fin: "finite {i. index_is_valid net i}" by (rule finite_subset [OF subset_UNIV]) simp
  have "(\<forall>i. index_is_valid net i \<longrightarrow> i \<in> taken_indices st) \<longleftrightarrow>
      taken_indices st = {i. index_is_valid net i}" using sub by auto
  also have "\<dots> \<longleftrightarrow> card {i. index_is_valid net i} \<le> card (taken_indices st)"
    using card_seteq [OF fin sub] by auto
  finally show ?thesis by (simp add: n card_valid)
qed

lemma allocate_known:
  "find_device_row st pk = Some r \<Longrightarrow> tables_ok net st \<Longrightarrow>
   allocate_device sip net pk u name token st = (Inr (addr_of_row net r, d_name r), st)"
  using idx_inv_row [of net st r] find_device_row_Some [of st pk r]
  by (auto simp: allocate_device_def tables_ok_def addr_of_row_def)

lemma allocate_new:
  assumes "find_device_row st pk = None" and "tables_ok net st"
  shows "fst (allocate_device sip net pk u name token st) =
    (if MAX_DEVICES_PER_USER \<le> length (rows_of st u) then Inl DeviceLimit
     else if unat (allocatable net) \<le> length (devices st) then Inl SpaceExhausted
     else fst (allocate_device sip net pk u name token st))
   \<and> (length (rows_of st u) < MAX_DEVICES_PER_USER \<and> length (devices st) < unat (allocatable net) \<longrightarrow>
      isOk (fst (allocate_device sip net pk u name token st)))"
proof -
  obtain res st' where a: "allocate_device sip net pk u name token st = (res, st')" by fastforce
  have full: "pick_free_index net (taken_indices st) (device_hint sip net pk) = None \<longleftrightarrow>
      unat (allocatable net) \<le> length (devices st)"
    using pick_free_index_None taken_full assms(2) by (simp add: tables_ok_def)
  have "isOk res" if "length (rows_of st u) < MAX_DEVICES_PER_USER"
    "length (devices st) < unat (allocatable net)"
  proof -
    have "pick_free_index net (taken_indices st) (device_hint sip net pk) \<noteq> None"
      using full that(2) by simp
    then obtain idx where idx: "pick_free_index net (taken_indices st) (device_hint sip net pk) = Some idx"
      by blast
    from a show ?thesis
    proof (cases rule: allocate_device_cases)
      case (refused e)
      with a idx that(1) assms(1) unique_device_name_total [of st u name None] show ?thesis
        by (auto simp: allocate_device_def insert_device_def split: if_splits)
    qed (use assms(1) in auto)
  qed
  with a full assms(1) show ?thesis by (auto simp: allocate_device_def)
qed

subsection \<open>Properties\<close>

text \<open>C28 (allocate_device_correct).
  When allocation answers an address and a name for a key, the database holds exactly one
  row for it, with that name and that address; no other device has the address, no other
  device of the owner has the name, the address lies strictly inside the mesh network, and
  the row is either the one that was already there (and then nothing changed, whatever name
  the request carries) or one new row of the requesting user.\<close>

theorem allocate_device_correct:
  assumes "tables_ok net st" and "net_ok net" and "length pk = 32"
    and "allocate_device sip net pk u name token st = (Inr (ip, nm), st')"
  shows "\<exists>r\<in>set (devices st'). d_pubkey r = pk \<and> d_name r = nm \<and> addr_of_row net r = ip \<and>
    (\<forall>r'\<in>set (devices st'). r' \<noteq> r \<longrightarrow>
       d_pubkey r' \<noteq> pk \<and> addr_of_row net r' \<noteq> ip \<and> (d_user r' = d_user r \<longrightarrow> d_name r' \<noteq> nm)) \<and>
    unat (net_network net) < unat ip \<and>
    unat ip < unat (net_network net) + 2 ^ (32 - net_prefix net) - 1 \<and>
    (find_device_row st pk = Some r \<and> st' = st \<or>
     find_device_row st pk = None \<and> d_user r = u \<and> st' = st\<lparr>devices := devices st @ [r]\<rparr>)"
proof -
  obtain r where r: "r \<in> set (devices st')" "d_pubkey r = pk" "d_name r = nm" "addr_of_row net r = ip"
    "find_device_row st pk = Some r \<and> st' = st \<or>
     find_device_row st pk = None \<and> d_user r = u \<and> st' = st\<lparr>devices := devices st @ [r]\<rparr>"
    using allocate_row [OF assms(4)] by blast
  have ok: "tables_ok net st'"
    using allocate_device_inv [OF assms(4)] assms(1,3) by (simp add: tables_ok_def)
  have "d_pubkey r' \<noteq> pk \<and> addr_of_row net r' \<noteq> ip \<and> (d_user r' = d_user r \<longrightarrow> d_name r' \<noteq> nm)"
    if "r' \<in> set (devices st')" "r' \<noteq> r" for r'
    using tables_ok_distinct [OF ok that(1) r(1) that(2)] r(2-4) by simp
  with r addr_of_row_range [OF _ assms(2) r(1)] ok show ?thesis
    by (auto simp: tables_ok_def)
qed

text \<open>C37 (allocate_device_decides).
  On well-formed tables allocation always answers, and its answer is decided by three facts
  only: a known device gets its own address and stored name; otherwise an account at its cap
  of 32 devices is refused; otherwise a mesh with no free address is reported exhausted;
  otherwise a row is created. The \<open>UNIQUE\<close> constraints are never violated, the fall-through of
  the naming loop is never reached, and a refusal writes nothing.\<close>

theorem allocate_device_decides:
  assumes "tables_ok net st"
  shows "(case allocate_device sip net pk u name token st of
     (Inr (ip, nm), st') \<Rightarrow>
        (case find_device_row st pk of
           Some r \<Rightarrow> ip = addr_of_row net r \<and> nm = d_name r
         | None \<Rightarrow> length (rows_of st u) < MAX_DEVICES_PER_USER \<and>
                   length (devices st) < unat (allocatable net))
   | (Inl e, st') \<Rightarrow> st' = st \<and> find_device_row st pk = None \<and>
        (e = DeviceLimit \<and> MAX_DEVICES_PER_USER \<le> length (rows_of st u) \<or>
         e = SpaceExhausted \<and> length (rows_of st u) < MAX_DEVICES_PER_USER \<and>
           unat (allocatable net) \<le> length (devices st)))"
proof (cases "find_device_row st pk")
  case (Some r)
  then show ?thesis using allocate_known assms by simp
next
  case None
  obtain res st' where a: "allocate_device sip net pk u name token st = (res, st')" by fastforce
  note n = allocate_new [OF None assms, of sip u name token]
  show ?thesis
  proof (cases res)
    case (Inl e)
    then have "st' = st" using a by (auto elim: allocate_device_cases)
    with n a None Inl show ?thesis by (auto split: if_splits)
  next
    case (Inr x)
    with n a None show ?thesis by (cases x) (auto split: if_splits)
  qed
qed

text \<open>C30 (device_tables_reachable).
  Starting from an empty database, after any sequence of the calls the handlers make, any two
  rows differ in key and address, and in name when they have one owner; no account has more
  than 32 devices; every address lies in the mesh; and every primary pointer names an
  existing device of its own user.\<close>

theorem device_tables_reachable:
  assumes "dev_run sip net empty_store ops st"
  shows "(\<forall>r\<in>set (devices st). \<forall>r'\<in>set (devices st). r \<noteq> r' \<longrightarrow>
      d_pubkey r \<noteq> d_pubkey r' \<and> addr_of_row net r \<noteq> addr_of_row net r' \<and>
      (d_user r = d_user r' \<longrightarrow> d_name r \<noteq> d_name r')) \<and>
    (\<forall>u. length (rows_of st u) \<le> MAX_DEVICES_PER_USER) \<and>
    (\<forall>r\<in>set (devices st). \<exists>i. d_idx r = uint i \<and> index_is_valid net i) \<and>
    (\<forall>u pk. tget (primary_device st) u = Some pk \<longrightarrow>
       (\<exists>r\<in>set (devices st). d_pubkey r = pk \<and> d_user r = u))"
proof -
  have ok: "tables_ok net st" using dev_run_inv [OF assms tables_ok_empty] .
  then have "dev_inv st" "idx_inv net st" "primary_inv st" by (simp_all add: tables_ok_def)
  then show ?thesis
    using tables_ok_distinct [OF ok] idx_inv_row unfolding dev_inv_def primary_inv_def by blast
qed

subsection \<open>An address does not move; removal cuts a device off\<close>

text \<open>The calls that may delete a key's row.\<close>

definition may_delete :: "key \<Rightarrow> dev_op \<Rightarrow> bool" where
  "may_delete pk op \<longleftrightarrow> (case op of Remove u pk' \<Rightarrow> pk' = pk | Reclaim idle now \<Rightarrow> True | _ \<Rightarrow> False)"

lemma find_update:
  assumes "\<And>r. d_pubkey (f r) = d_pubkey r"
  shows "find_device_row (update_device pk f st) pk' =
     map_option (\<lambda>r. if d_pubkey r = pk then f r else r) (find_device_row st pk')"
proof -
  have "List.find (\<lambda>r. d_pubkey r = pk') (map (\<lambda>r. if d_pubkey r = pk then f r else r) rs) =
      map_option (\<lambda>r. if d_pubkey r = pk then f r else r) (List.find (\<lambda>r. d_pubkey r = pk') rs)" for rs
    using assms by (induction rs) auto
  then show ?thesis by (simp add: find_device_row_def update_device_def)
qed

lemma find_filter_other:
  "(\<And>r. d_pubkey r = pk \<Longrightarrow> P r) \<Longrightarrow> devices st' = filter P (devices st) \<Longrightarrow>
   find_device_row st' pk = find_device_row st pk"
proof -
  assume p: "\<And>r. d_pubkey r = pk \<Longrightarrow> P r" and d: "devices st' = filter P (devices st)"
  have "List.find (\<lambda>r. d_pubkey r = pk) (filter P rs) = List.find (\<lambda>r. d_pubkey r = pk) rs" for rs
    using p by (induction rs) auto
  with d show ?thesis by (simp add: find_device_row_def)
qed

lemma devices_primary [simp]:
  "devices (set_primary u pk st) = devices st" "devices (ensure_primary u pk st) = devices st"
  by (simp_all add: set_primary_def ensure_primary_def)

lemma find_primary [simp]:
  "find_device_row (set_primary u pk st) pk' = find_device_row st pk'"
  "find_device_row (ensure_primary u pk st) pk' = find_device_row st pk'"
  by (simp_all add: find_device_row_def)

definition same_slot :: "dev_row \<Rightarrow> dev_row \<Rightarrow> bool" where
  "same_slot r r' \<longleftrightarrow> d_pubkey r' = d_pubkey r \<and> d_idx r' = d_idx r \<and> d_user r' = d_user r"

lemma dev_step_slot:
  "dev_step sip net st op st' \<Longrightarrow> tables_ok net st \<Longrightarrow> find_device_row st pk = Some r \<Longrightarrow>
   \<not> may_delete pk op \<Longrightarrow> \<exists>r'. find_device_row st' pk = Some r' \<and> same_slot r r'"
proof (induction rule: dev_step.induct)
  case (enroll pk' st u name token a st')
  from enroll(3) show ?case
    by (cases rule: allocate_device_cases) (use enroll in \<open>auto simp: find_row_append same_slot_def\<close>)
next
  case (enroll_error pk' u name token st e st')
  from enroll_error(2) show ?case
    by (cases rule: allocate_device_cases) (use enroll_error in \<open>auto simp: same_slot_def\<close>)
next
  case (rename st pk' u name res st')
  then show ?case
    using unique_device_name_total [of st u name "Some pk'"]
    by (auto simp: rename_device_def find_update same_slot_def)
next
  case (remove u pk' st res st')
  then have "devices st' = filter (\<lambda>r. \<not> (d_pubkey r = pk' \<and> d_user r = u)) (devices st)"
    using remove_device_devices [OF _ _ remove(1)] by (simp add: tables_ok_def)
  moreover have "pk' \<noteq> pk" using remove(4) by (simp add: may_delete_def)
  ultimately have "find_device_row st' pk = find_device_row st pk"
    by (intro find_filter_other) auto
  with remove show ?case by (simp add: same_slot_def)
next
  case (mint pk' fresh st res st')
  then show ?case
    by (auto simp: device_token_def find_update same_slot_def split: option.splits)
qed (auto simp: touch_device_def find_update same_slot_def may_delete_def)

lemma dev_run_slot:
  "dev_run sip net st ops st' \<Longrightarrow> tables_ok net st \<Longrightarrow> find_device_row st pk = Some r \<Longrightarrow>
   \<forall>op\<in>set ops. \<not> may_delete pk op \<Longrightarrow> \<exists>r'. find_device_row st' pk = Some r' \<and> same_slot r r'"
proof (induction arbitrary: r rule: dev_run.induct)
  case (stop st)
  then show ?case by (simp add: same_slot_def)
next
  case (step st op st1 ops st')
  from step(5-6) dev_step_slot [OF step(1) step(4) step(5)] obtain r1
    where r1: "find_device_row st1 pk = Some r1" "same_slot r r1" by auto
  with step(3) [OF dev_step_inv [OF step(1,4)] r1(1)] step(6) show ?case
    by (auto simp: same_slot_def)
qed

text \<open>
  A device that registers again gets the address it already has, under the owner it already
  has, whatever happened in between: enrollments of others, renames, changes of the primary,
  stamps, tokens, removals of other devices; only its own removal or the reclaiming of idle
  devices can end that.\<close>

theorem device_address_stable:
  assumes "dev_run sip net empty_store ops1 st" and "find_device_row st pk = Some r"
    and "dev_run sip net st ops2 st'" and "\<forall>op\<in>set ops2. \<not> may_delete pk op"
  shows "\<exists>r'. find_device_row st' pk = Some r' \<and> d_user r' = d_user r \<and>
    allocate_device sip net pk u name token st' = (Inr (addr_of_row net r, d_name r'), st')"
proof -
  have ok: "tables_ok net st" by (rule dev_run_inv [OF assms(1) tables_ok_empty])
  obtain r' where r': "find_device_row st' pk = Some r'" "same_slot r r'"
    using dev_run_slot [OF assms(3) ok assms(2,4)] by blast
  with allocate_known [OF r'(1) dev_run_inv [OF assms(3) ok]] show ?thesis
    by (simp add: same_slot_def addr_of_row_def)
qed

text \<open>
  Removing a device its owner has succeeds; afterwards neither its row and token nor its login
  binding nor its service labels exist; every other row is untouched; and if it was the
  owner's primary, the first remaining device of the owner is, or the pointer is cleared when
  none remains, while any other primary pointer stays as it was.\<close>

theorem remove_device_spec:
  assumes "tables_ok net st" and "device_owner st pk = Some u"
  shows "\<exists>st'. remove_device u pk st = (Inr (), st') \<and>
    device_auth st' pk = None \<and>
    (\<forall>r\<in>set (oauth_authorized st'). oa_pubkey r \<noteq> pk) \<and>
    (\<forall>r\<in>set (services st'). sv_pubkey r \<noteq> pk) \<and>
    devices st' = filter (\<lambda>r. d_pubkey r \<noteq> pk) (devices st) \<and>
    (\<forall>v. tget (primary_device st') v =
       (if v = u \<and> tget (primary_device st) u = Some pk
        then (case rows_of st' u of [] \<Rightarrow> None | r # _ \<Rightarrow> Some (d_pubkey r))
        else tget (primary_device st) v))"
proof -
  have inv: "dev_inv st" "primary_inv st" using assms(1) by (simp_all add: tables_ok_def)
  obtain st' where st': "remove_device u pk st = (Inr (), st')"
    using remove_device_devices [OF inv] by (metis surj_pair)
  have dv: "devices st' = filter (\<lambda>r. d_pubkey r \<noteq> pk) (devices st)"
  proof -
    have "d_user r = u" if "r \<in> set (devices st)" "d_pubkey r = pk" for r
      using that assms(2) find_device_row_unique [OF _ that(1)] inv(1)
      by (auto simp: device_owner_def dev_inv_def)
    then show ?thesis
      using remove_device_devices [OF inv st'] by (auto intro!: filter_cong)
  qed
  have gone: "find_device_row st' pk = None" by (auto simp: find_device_row_None dv)
  have toks: "tok (primary_device st)" using inv(2) by (simp add: primary_inv_def)
  have rows: "rows_of st' u = rows_of (removed u pk st) u"
    unfolding rows_of_def dv by (simp add: conj_commute) (rule filter_cong, auto)
  note eq = remove_device_result [OF inv, of u pk, unfolded st', THEN arg_cong [where f = snd]]
  have "oauth_authorized st' = oauth_authorized (removed u pk st)"
    "services st' = services (removed u pk st)"
    using eq by (auto simp: set_primary_def split: list.splits if_splits)
  moreover have "tget (primary_device st') v =
       (if v = u \<and> tget (primary_device st) u = Some pk
        then (case rows_of st' u of [] \<Rightarrow> None | r # _ \<Rightarrow> Some (d_pubkey r))
        else tget (primary_device st) v)" for v
    using eq toks unfolding rows by (auto simp: set_primary_def split: list.splits if_splits)
  ultimately show ?thesis
    using st' dv gone by (auto simp: device_auth_def)
qed

text \<open>
  The sweep of idle devices frees exactly the rows last stamped as personal before the cutoff
  and reports their number; a device held under a guild role, one seen since, and one never
  stamped keep their row.\<close>

theorem reclaim_spares_anchored:
  assumes "tables_ok net st"
  shows "\<exists>st'. reclaim_idle_personal_devices idle now st =
      (Inr (length (filter (idle_personal (as_i64 (sat_sub now idle))) (devices st))), st') \<and>
    devices st' = filter (\<lambda>r. \<not> idle_personal (as_i64 (sat_sub now idle)) r) (devices st) \<and>
    tables_ok net st'"
proof -
  let ?P = "idle_personal (as_i64 (sat_sub now idle))"
  have inv: "dev_inv st" "primary_inv st" "idx_inv net st" using assms by (simp_all add: tables_ok_def)
  obtain res st' where run: "reclaim_idle_personal_devices idle now st = (res, st')" by fastforce
  then have rows: "reclaim_rows (filter ?P (devices st)) 0 st = (res, st')"
    by (simp add: reclaim_idle_personal_devices_def Let_def)
  have r: "dev_inv st' \<and> primary_inv st' \<and> (idx_inv net st \<longrightarrow> idx_inv net st') \<and>
      res = Inr (0 + length (filter ?P (devices st))) \<and> devices st' =
      filter (\<lambda>r. (d_pubkey r, d_user r) \<notin> (\<lambda>r. (d_pubkey r, d_user r)) ` set (filter ?P (devices st))) (devices st)"
    by (rule reclaim_rows_inv [OF inv(1,2) _ rows]) (use inv(1) in \<open>auto simp: dev_inv_def\<close>)
  have "r = r'" if "r \<in> set (devices st)" "r' \<in> set (devices st)" "d_pubkey r = d_pubkey r'" for r r'
    using that inv(1) by (auto simp: dev_inv_def distinct_map dest: inj_onD)
  then have "devices st' = filter (\<lambda>r. \<not> ?P r) (devices st)"
    using r by (auto intro!: filter_cong)
  with r run inv show ?thesis by (auto simp: tables_ok_def)
qed

subsection \<open>Witnesses: one device enrolled in an empty database\<close>

definition net30 :: ipv4net where
  "net30 = \<lparr>net_network = ipv4_octets 100 72 0 0, net_prefix = 30\<rparr>"

definition keyA :: key where "keyA = replicate 32 1"

definition rowA :: dev_row where "rowA = new_device_row keyA 1 7 ''nas'' ''t''"

definition storeA :: store where
  "storeA = empty_store\<lparr>devices := [rowA], primary_device := [(7, keyA)]\<rparr>"

lemma net30_allocatable: "allocatable net30 = 2"
  by (simp add: net30_def allocatable_def host_count_def sat_sub_def)

lemma net30_ok: "net_ok net30"
  by (simp add: net_ok_def net30_def ipv4_octets_def)

lemma demo_pick: "pick_free_index net30 {} 1 = Some 1"
proof -
  have "probe 2 {} 2 (1::u32) = Some 1" by (simp add: numeral_2_eq_2)
  then show ?thesis by (simp add: pick_free_index_def net30_allocatable)
qed

lemma demo_allocate:
  "allocate_device (\<lambda>_. 0) net30 keyA 7 ''nas'' ''t'' empty_store =
     (Inr (addr_from_index net30 1, ''nas''), empty_store\<lparr>devices := [rowA]\<rparr>)"
  by (simp add: allocate_device_def find_device_row_def rows_of_def empty_store_def
      MAX_DEVICES_PER_USER_def taken_indices_def map_filter_simps demo_pick net30_allocatable
      device_hint_def unique_device_name_def taken_names_def insert_device_def rowA_def
      new_device_row_def)

lemma demo_run: "dev_run (\<lambda>_. 0) net30 empty_store [Enroll keyA 7 ''nas'' ''t''] storeA"
proof -
  have "dev_step (\<lambda>_. 0) net30 empty_store (Enroll keyA 7 ''nas'' ''t'')
      (ensure_primary 7 keyA (empty_store\<lparr>devices := [rowA]\<rparr>))"
    by (rule dev_step.enroll [OF _ _ demo_allocate])
      (simp_all add: keyA_def device_owner_def find_device_row_def empty_store_def)
  moreover have "ensure_primary 7 keyA (empty_store\<lparr>devices := [rowA]\<rparr>) = storeA"
    by (simp add: ensure_primary_def storeA_def empty_store_def tput_def)
  ultimately show ?thesis by (simp add: dev_run_Cons)
qed

lemma storeA_ok: "tables_ok net30 storeA"
  by (rule dev_run_inv [OF demo_run tables_ok_empty])

lemma storeA_row: "find_device_row storeA keyA = Some rowA"
  by (simp add: storeA_def find_device_row_def rowA_def new_device_row_def)

theorem allocate_device_correct_witness:
  "\<exists>r\<in>set (devices (empty_store\<lparr>devices := [rowA]\<rparr>)). d_pubkey r = keyA \<and> d_name r = ''nas''"
  using allocate_device_correct [OF tables_ok_empty net30_ok _ demo_allocate]
  by (auto simp: keyA_def)

theorem allocate_device_decides_witness:
  "(case allocate_device (\<lambda>_. 0) net30 keyA 8 ''other'' ''t2'' storeA of
      (Inr (ip, nm), st') \<Rightarrow> ip = addr_of_row net30 rowA \<and> nm = ''nas''
    | (Inl e, st') \<Rightarrow> False)"
  using allocate_device_decides [OF storeA_ok, where sip = "\<lambda>_. 0" and pk = keyA and u = 8
      and name = "''other''" and token = "''t2''"] storeA_row
  by (auto simp: rowA_def new_device_row_def split: sum.splits prod.splits)

theorem device_tables_reachable_witness:
  "length (rows_of storeA 7) \<le> MAX_DEVICES_PER_USER \<and> devices storeA = [rowA]"
  using device_tables_reachable [OF demo_run] by (auto simp: storeA_def)

theorem device_address_stable_witness:
  "\<exists>r'. find_device_row (touch_device keyA True 9 storeA) keyA = Some r' \<and> d_user r' = d_user rowA \<and>
     allocate_device (\<lambda>_. 0) net30 keyA 7 ''x'' ''y'' (touch_device keyA True 9 storeA) =
       (Inr (addr_of_row net30 rowA, d_name r'), touch_device keyA True 9 storeA)"
proof -
  have "dev_run (\<lambda>_. 0) net30 storeA [Touch keyA True 9] (touch_device keyA True 9 storeA)"
    by (auto simp: dev_run_Cons intro: dev_step.touch)
  from device_address_stable [OF demo_run storeA_row this] show ?thesis
    by (simp add: may_delete_def)
qed

theorem remove_device_spec_witness:
  "\<exists>st'. remove_device 7 keyA storeA = (Inr (), st') \<and> device_auth st' keyA = None"
  using remove_device_spec [OF storeA_ok, of keyA 7] storeA_row
  by (auto simp: device_owner_def rowA_def new_device_row_def)

theorem reclaim_spares_anchored_witness:
  "\<exists>st'. reclaim_idle_personal_devices 10 1000 storeA = (Inr 0, st') \<and> devices st' = [rowA]"
  using reclaim_spares_anchored [OF storeA_ok, of 10 1000]
  by (auto simp: storeA_def idle_personal_def rowA_def new_device_row_def)

end
