(* ===== verification/Labels.thy ===== *)
theory Labels
  imports Store Candidates
begin

section \<open>User labels: \<open>Store::user_label\<close>\<close>

text \<open>
  The \<open>user\<close> part of every mesh name, allocated once per account. The \<open>UNIQUE\<close> index of the
  table arbitrates, so the model inserts and looks at the outcome, as the code does.
\<close>

definition MAX_LABEL_SUFFIX :: nat where "MAX_LABEL_SUFFIX = 32"

definition lookup_user_label :: "store \<Rightarrow> u64 \<Rightarrow> string option" where
  "lookup_user_label st u = tget (user_labels st) u"

definition allocated_user_label :: "store \<Rightarrow> u64 \<Rightarrow> string option" where
  "allocated_user_label st u = lookup_user_label st u"

definition insert_label :: "u64 \<Rightarrow> string \<Rightarrow> unit db" where
  "insert_label u label st =
     (if u \<in> set (tkeys (user_labels st)) \<or> label \<in> snd ` set (user_labels st)
      then (Inl UniqueViolation, st)
      else (Inr (), st\<lparr>user_labels := tput u label (user_labels st)\<rparr>))"

definition label_candidate :: "string \<Rightarrow> nat \<Rightarrow> string" where
  "label_candidate desired n = (if n = 0 then desired else suffixed_label desired (n + 1))"

text \<open>The \<open>for n in 0..MAX_LABEL_SUFFIX\<close> loop over the candidate numbers left.\<close>

fun label_loop :: "u64 \<Rightarrow> string \<Rightarrow> nat list \<Rightarrow> string option db" where
  "label_loop u desired [] st = (Inr None, st)"
| "label_loop u desired (n # ns) st =
     (case insert_label u (label_candidate desired n) st of
        (Inr _, st') \<Rightarrow> (Inr (Some (label_candidate desired n)), st')
      | (Inl UniqueViolation, st') \<Rightarrow>
          (case lookup_user_label st' u of
             Some label \<Rightarrow> (Inr (Some label), st')
           | None \<Rightarrow> label_loop u desired ns st')
      | (Inl e, st') \<Rightarrow> (Inl e, st'))"

definition fallback_label :: "u64 \<Rightarrow> string" where
  "fallback_label u = ''user-'' @ dec (unat u)"

definition user_label :: "u64 \<Rightarrow> string \<Rightarrow> string db" where
  "user_label u seed st =
     (case lookup_user_label st u of
        Some label \<Rightarrow> (Inr label, st)
      | None \<Rightarrow>
          (case label_loop u (sanitize_label seed) [0..<MAX_LABEL_SUFFIX] st of
             (Inl e, st') \<Rightarrow> (Inl e, st')
           | (Inr (Some label), st') \<Rightarrow> (Inr label, st')
           | (Inr None, st') \<Rightarrow>
               (case insert_label u (fallback_label u) st' of
                  (Inl e, st'') \<Rightarrow> (Inl (LabelUnavailable u), st'')
                | (Inr _, st'') \<Rightarrow> (Inr (fallback_label u), st''))))"

subsection \<open>The invariant of the table\<close>

definition label_inv :: "store \<Rightarrow> bool" where
  "label_inv st \<longleftrightarrow> tok (user_labels st) \<and> distinct (map snd (user_labels st))"

lemma tput_new: "tget m k = None \<Longrightarrow> tput k v m = m @ [(k, v)]"
  by (induction m) (auto simp: tput_def tget_def split: if_splits)

lemma insert_label_cases:
  "insert_label u l st =
     (if tget (user_labels st) u \<noteq> None \<or> l \<in> snd ` set (user_labels st)
      then (Inl UniqueViolation, st)
      else (Inr (), st\<lparr>user_labels := user_labels st @ [(u, l)]\<rparr>))"
  by (auto simp: insert_label_def set_tkeys tput_new)

lemma insert_label_inv:
  "insert_label u l st = (res, st') \<Longrightarrow> label_inv st \<Longrightarrow> label_inv st'"
  by (auto simp: insert_label_cases label_inv_def tok_def tget_def map_of_eq_None_iff
      split: if_splits)

lemma label_loop_new:
  assumes "tget (user_labels st) u = None"
  shows "label_loop u desired ns st =
     (case first_free (map snd (user_labels st)) (map (label_candidate desired) ns) of
        None \<Rightarrow> (Inr None, st)
      | Some l \<Rightarrow> (Inr (Some l), st\<lparr>user_labels := user_labels st @ [(u, l)]\<rparr>))"
  using assms
  by (induction ns) (auto simp: insert_label_cases first_free_def lookup_user_label_def)

text \<open>Which label a new account gets.\<close>

definition label_choice :: "string list \<Rightarrow> string \<Rightarrow> u64 \<Rightarrow> string option" where
  "label_choice taken desired u =
     (case first_free taken (map (label_candidate desired) [0..<MAX_LABEL_SUFFIX]) of
        Some l \<Rightarrow> Some l
      | None \<Rightarrow> if fallback_label u \<in> set taken then None else Some (fallback_label u))"

lemma user_label_eq:
  "user_label u seed st =
     (case tget (user_labels st) u of
        Some l \<Rightarrow> (Inr l, st)
      | None \<Rightarrow>
         (case label_choice (map snd (user_labels st)) (sanitize_label seed) u of
            Some l \<Rightarrow> (Inr l, st\<lparr>user_labels := user_labels st @ [(u, l)]\<rparr>)
          | None \<Rightarrow> (Inl (LabelUnavailable u), st)))"
  by (cases "tget (user_labels st) u")
    (auto simp: user_label_def lookup_user_label_def label_loop_new label_choice_def
      insert_label_cases split: option.splits)

lemma label_choice_free: "label_choice taken d u = Some l \<Longrightarrow> l \<notin> set taken"
  by (auto simp: label_choice_def split: option.splits if_splits dest: first_free_Some)

text \<open>With at most 30 labels in the way a numbered candidate is free.\<close>

lemma label_choice_few:
  assumes "card (set taken) < MAX_LABEL_SUFFIX - 1"
  shows "\<exists>l. label_choice taken d u = Some l \<and> l \<in> label_candidate d ` {0..<MAX_LABEL_SUFFIX}"
proof -
  have "\<exists>n. n \<in> {1..<MAX_LABEL_SUFFIX} \<and> suffixed_label d (n + 1) \<notin> set taken"
  proof -
    have "card (set taken) < (MAX_LABEL_SUFFIX + 1) - 2" using assms by (simp add: MAX_LABEL_SUFFIX_def)
    from suffixes.free_within [OF this, of d] obtain m where
      m: "2 \<le> m" "m < MAX_LABEL_SUFFIX + 1" "suffixed_label d m \<notin> set taken" by blast
    then show ?thesis by (intro exI [of _ "m - 1"]) auto
  qed
  then obtain n where n: "n \<in> {1..<MAX_LABEL_SUFFIX}" "suffixed_label d (n + 1) \<notin> set taken" by blast
  then have "label_candidate d n \<notin> set taken" by (simp add: label_candidate_def)
  moreover have "label_candidate d n \<in> set (map (label_candidate d) [0..<MAX_LABEL_SUFFIX])"
    using n(1) by auto
  ultimately have "first_free taken (map (label_candidate d) [0..<MAX_LABEL_SUFFIX]) \<noteq> None"
    unfolding first_free_None by blast
  then obtain l where l: "first_free taken (map (label_candidate d) [0..<MAX_LABEL_SUFFIX]) = Some l"
    by blast
  with first_free_Some [OF l] show ?thesis by (auto simp: label_choice_def)
qed

lemma user_label_inv: "user_label u seed st = (res, st') \<Longrightarrow> label_inv st \<Longrightarrow> label_inv st'"
proof -
  assume run: "user_label u seed st = (res, st')" and inv: "label_inv st"
  show ?thesis
  proof (cases "st' = st")
    case False
    then obtain l where l: "tget (user_labels st) u = None" "st' = st\<lparr>user_labels := user_labels st @ [(u, l)]\<rparr>"
      "label_choice (map snd (user_labels st)) (sanitize_label seed) u = Some l"
      using run by (auto simp: user_label_eq split: option.splits)
    with inv label_choice_free [OF l(3)] show ?thesis
      by (auto simp: label_inv_def tok_def tget_def map_of_eq_None_iff)
  qed (use inv in simp)
qed

subsection \<open>Runs of registrations\<close>

text \<open>Registrations of accounts under seeds, in the order they reach the database.\<close>

fun label_run :: "(u64 \<times> string) list \<Rightarrow> store \<Rightarrow> store" where
  "label_run [] st = st"
| "label_run ((u, seed) # rs) st = label_run rs (snd (user_label u seed st))"

lemma user_label_inv': "label_inv st \<Longrightarrow> label_inv (snd (user_label u seed st))"
  by (rule user_label_inv [OF prod.collapse [symmetric]])

lemma label_run_inv: "label_inv st \<Longrightarrow> label_inv (label_run rs st)"
proof (induction rs arbitrary: st)
  case (Cons r rs)
  then show ?case by (cases r) (simp add: user_label_inv')
qed simp

lemma user_label_keeps:
  "tget (user_labels st) v = Some l \<Longrightarrow> tget (user_labels (snd (user_label u seed st))) v = Some l"
  by (auto simp: user_label_eq tget_def map_add_Some_iff split: option.splits)

lemma label_run_keeps:
  "tget (user_labels st) v = Some l \<Longrightarrow> tget (user_labels (label_run rs st)) v = Some l"
proof (induction rs arbitrary: st)
  case (Cons r rs)
  then show ?case by (cases r) (simp add: user_label_keeps)
qed simp

lemma user_label_stored:
  "user_label u seed st = (Inr l, st') \<Longrightarrow> tget (user_labels st') u = Some l"
  by (auto simp: user_label_eq tget_def map_add_Some_iff map_of_eq_None_iff split: option.splits)

lemma label_inv_inj:
  assumes "label_inv st" and "tget (user_labels st) u = Some l" and "tget (user_labels st) v = Some l"
  shows "u = v"
proof -
  have "(u, l) \<in> set (user_labels st)" "(v, l) \<in> set (user_labels st)"
    using assms(2,3) by (auto dest: tget_SomeD)
  moreover have "inj_on snd (set (user_labels st))"
    using assms(1) by (simp add: label_inv_def distinct_map)
  ultimately show ?thesis by (metis inj_onD prod.inject snd_conv)
qed

text \<open>
  A label, once answered for an account, is answered for it ever after whatever seed a later
  registration carries and whoever registers in between, and it is never answered for a
  second account.\<close>

theorem user_label_unique_stable:
  assumes "label_inv st" and "user_label u seed st = (Inr l, st1)"
    and "user_label v seed2 (label_run rs st1) = (Inr l2, st2)"
  shows "(v = u \<longrightarrow> l2 = l \<and> st2 = label_run rs st1) \<and> (v \<noteq> u \<longrightarrow> l2 \<noteq> l)"
proof -
  have kept: "tget (user_labels (label_run rs st1)) u = Some l"
    using label_run_keeps user_label_stored [OF assms(2)] by blast
  have inv: "label_inv st2"
    using user_label_inv [OF assms(3)] label_run_inv user_label_inv [OF assms(2,1)] by blast
  have "tget (user_labels st2) u = Some l"
    using user_label_keeps [OF kept, of v seed2] assms(3) by simp
  moreover have "tget (user_labels st2) v = Some l2" by (rule user_label_stored [OF assms(3)])
  ultimately have "v \<noteq> u \<longrightarrow> l2 \<noteq> l" using label_inv_inj [OF inv] by blast
  moreover have "v = u \<longrightarrow> l2 = l \<and> st2 = label_run rs st1"
    using assms(3) kept by (auto simp: user_label_eq)
  ultimately show ?thesis by blast
qed

text \<open>
  For an account without a label the sanitised seed is taken if free, else the first free of
  its 31 numbered variants, else the label built from the account's id; with at most 30 labels
  allocated this always succeeds. It fails, writing nothing, exactly when all 32 candidates and
  the label built from the id belong to other accounts.\<close>

theorem user_label_outcome:
  assumes "tget (user_labels st) u = None"
  shows "(sanitize_label seed \<notin> snd ` set (user_labels st) \<longrightarrow>
            fst (user_label u seed st) = Inr (sanitize_label seed)) \<and>
         (card (snd ` set (user_labels st)) < MAX_LABEL_SUFFIX - 1 \<longrightarrow>
            isOk (fst (user_label u seed st))) \<and>
         (\<not> isOk (fst (user_label u seed st)) \<longleftrightarrow>
            insert (fallback_label u) (label_candidate (sanitize_label seed) ` {0..<MAX_LABEL_SUFFIX})
              \<subseteq> snd ` set (user_labels st)) \<and>
         (\<not> isOk (fst (user_label u seed st)) \<longrightarrow> snd (user_label u seed st) = st)"
proof -
  let ?t = "map snd (user_labels st)" and ?d = "sanitize_label seed"
  have eq: "user_label u seed st =
      (case label_choice ?t ?d u of
            Some l \<Rightarrow> (Inr l, st\<lparr>user_labels := user_labels st @ [(u, l)]\<rparr>)
          | None \<Rightarrow> (Inl (LabelUnavailable u), st))"
    using assms by (simp add: user_label_eq)
  have first: "?d \<notin> set ?t \<Longrightarrow> label_choice ?t ?d u = Some ?d"
  proof -
    have "0 < MAX_LABEL_SUFFIX" by (simp add: MAX_LABEL_SUFFIX_def)
    then have "[0..<MAX_LABEL_SUFFIX] = 0 # [Suc 0..<MAX_LABEL_SUFFIX]" by (rule upt_conv_Cons)
    then show "?d \<notin> set ?t \<Longrightarrow> label_choice ?t ?d u = Some ?d"
      by (simp add: label_choice_def first_free_def label_candidate_def)
  qed
  have none: "label_choice ?t ?d u = None \<longleftrightarrow>
      insert (fallback_label u) (label_candidate ?d ` {0..<MAX_LABEL_SUFFIX}) \<subseteq> set ?t"
  proof (cases "first_free ?t (map (label_candidate ?d) [0..<MAX_LABEL_SUFFIX])")
    case None
    then have "set (map (label_candidate ?d) [0..<MAX_LABEL_SUFFIX]) \<subseteq> set ?t"
      by (simp only: first_free_None)
    with None show ?thesis by (simp add: label_choice_def)
  next
    case (Some l)
    then have "\<not> set (map (label_candidate ?d) [0..<MAX_LABEL_SUFFIX]) \<subseteq> set ?t"
      by (metis first_free_None option.distinct(1))
    with Some show ?thesis by (auto simp: label_choice_def)
  qed
  have few: "card (set ?t) < MAX_LABEL_SUFFIX - 1 \<Longrightarrow> label_choice ?t ?d u \<noteq> None"
    using label_choice_few by blast
  show ?thesis
    using first none few unfolding eq by (auto split: option.splits)
qed

subsection \<open>Witnesses\<close>

lemma label_inv_empty: "label_inv empty_store"
  by (simp add: label_inv_def empty_store_def)

lemma demo_user_label:
  "user_label 7 ''Alice'' empty_store =
     (Inr ''alice'', empty_store\<lparr>user_labels := [(7, ''alice'')]\<rparr>)"
proof -
  have san: "sanitize_label ''Alice'' = ''alice''" by code_simp
  have "0 < MAX_LABEL_SUFFIX" by (simp add: MAX_LABEL_SUFFIX_def)
  then have "[0..<MAX_LABEL_SUFFIX] = 0 # [Suc 0..<MAX_LABEL_SUFFIX]" by (rule upt_conv_Cons)
  then have "label_choice [] ''alice'' 7 = Some ''alice''"
    by (simp add: label_choice_def first_free_def label_candidate_def)
  then show ?thesis by (simp add: user_label_eq san empty_store_def)
qed

theorem user_label_unique_stable_witness:
  "\<exists>l2 st2. user_label 8 ''alice'' (empty_store\<lparr>user_labels := [(7, ''alice'')]\<rparr>) = (Inr l2, st2) \<and>
     l2 \<noteq> ''alice''"
proof -
  let ?st = "empty_store\<lparr>user_labels := [(7, ''alice'')]\<rparr>"
  have few: "card (set [''alice'']) < MAX_LABEL_SUFFIX - 1" by (simp add: MAX_LABEL_SUFFIX_def)
  obtain l2 where "label_choice [''alice''] (sanitize_label ''alice'') 8 = Some l2"
    using label_choice_few [OF few] by blast
  then obtain st2 where run: "user_label 8 ''alice'' ?st = (Inr l2, st2)"
    by (simp add: user_label_eq tget_def)
  then have "user_label 8 ''alice'' (label_run [] ?st) = (Inr l2, st2)" by simp
  from user_label_unique_stable [OF label_inv_empty demo_user_label this] run show ?thesis by auto
qed

theorem user_label_outcome_witness:
  "fst (user_label 7 ''Alice'' empty_store) = Inr (sanitize_label ''Alice'')"
  using user_label_outcome [of empty_store 7 "''Alice''"] by (simp add: empty_store_def)

end
