(* ===== verification/ServiceNames.thy ===== *)
theory ServiceNames
  imports Proto
begin

section \<open>Named services: \<open>crates/common/src/service.rs\<close>\<close>

text \<open>
  Which labels a service may have, the name it answers to, and the spelling of that name under
  the certificate domain. Labels and names are byte lists.
\<close>

definition SVC_MAX_LABEL_LEN :: nat where "SVC_MAX_LABEL_LEN = 24"
definition MAX_SERVICES_PER_DEVICE :: nat where "MAX_SERVICES_PER_DEVICE = 16"
definition MAX_WEB_SERVICES_PER_DEVICE :: nat where "MAX_WEB_SERVICES_PER_DEVICE = 8"

definition starts_dash :: "string \<Rightarrow> bool" where
  "starts_dash s \<longleftrightarrow> s \<noteq> [] \<and> hd s = CHR ''-''"

definition ends_dash :: "string \<Rightarrow> bool" where
  "ends_dash s \<longleftrightarrow> s \<noteq> [] \<and> List.last s = CHR ''-''"

definition valid_label :: "string \<Rightarrow> bool" where
  "valid_label label \<longleftrightarrow> label \<noteq> [] \<and> length label \<le> SVC_MAX_LABEL_LEN \<and>
     list_all (\<lambda>b. is_lower b \<or> is_digit b \<or> b = CHR ''-'') label \<and>
     \<not> starts_dash label \<and> \<not> ends_dash label \<and> \<not> list_all is_digit label"

datatype service_kind = Port | Web

datatype proto = Tcp | Udp

record mesh_service =
  ms_name :: string
  ms_proto :: proto
  ms_port :: u16
  ms_kind :: service_kind

definition default_label :: "u16 \<Rightarrow> string" where
  "default_label port = ''port-'' @ dec (unat port)"

text \<open>\<open>rest.parse::<u16>()\<close>: an optional \<open>+\<close>, then at least one digit, at most 65535.\<close>

definition parse_nat :: "string \<Rightarrow> nat option" where
  "parse_nat s = (if s \<noteq> [] \<and> list_all is_digit s
     then Some (foldl (\<lambda>n c. 10 * n + (of_char c - 48)) 0 s) else None)"

definition parse_u16 :: "string \<Rightarrow> nat option" where
  "parse_u16 s =
     (let ds = (case s of c # r \<Rightarrow> if c = CHR ''+'' then r else s | [] \<Rightarrow> [])
      in case parse_nat ds of Some n \<Rightarrow> if n < 65536 then Some n else None | None \<Rightarrow> None)"

definition strip_prefix :: "string \<Rightarrow> string \<Rightarrow> string option" where
  "strip_prefix p s = (if take (length p) s = p then Some (drop (length p) s) else None)"

definition strip_suffix :: "string \<Rightarrow> string \<Rightarrow> string option" where
  "strip_suffix suf s =
     (if length suf \<le> length s \<and> drop (length s - length suf) s = suf
      then Some (take (length s - length suf) s) else None)"

definition is_default_label :: "string \<Rightarrow> bool" where
  "is_default_label label =
     (case strip_prefix ''port-'' label of None \<Rightarrow> False | Some rest \<Rightarrow> parse_u16 rest \<noteq> None)"

definition dot :: char where "dot = CHR ''.''"

definition trim_end_dot :: "string \<Rightarrow> string" where
  "trim_end_dot s = rev (dropWhile (\<lambda>c. c = dot) (rev s))"

text \<open>\<open>split_once('.')\<close>, the part after the first dot.\<close>

definition after_dot :: "string \<Rightarrow> string option" where
  "after_dot s = (case dropWhile (\<lambda>c. c \<noteq> dot) s of [] \<Rightarrow> None | _ # rest \<Rightarrow> Some rest)"

definition lower :: "string \<Rightarrow> string" where
  "lower s = map to_lower s"

definition dotted_suffix :: string where
  "dotted_suffix = dot # DNS_SUFFIX"

definition service_name :: "string \<Rightarrow> string \<Rightarrow> string option" where
  "service_name device_hostname label =
     (case strip_suffix dotted_suffix (trim_end_dot device_hostname) of
        None \<Rightarrow> None
      | Some s \<Rightarrow>
          (case after_dot s of
             None \<Rightarrow> None
           | Some rest \<Rightarrow> Some (lower (label @ [dot] @ rest @ dotted_suffix))))"

definition certificate_alias :: "string \<Rightarrow> string \<Rightarrow> string option" where
  "certificate_alias name domain =
     (case strip_suffix dotted_suffix (trim_end_dot name) of
        None \<Rightarrow> None
      | Some stem \<Rightarrow> Some (lower (stem @ [dot] @ domain)))"

subsection \<open>Lemmas\<close>

lemma strip_suffix_append [simp]: "strip_suffix suf (s @ suf) = Some s"
  by (simp add: strip_suffix_def)

lemma strip_suffix_Some: "strip_suffix suf s = Some t \<longleftrightarrow> s = t @ suf"
  by (auto simp: strip_suffix_def) (metis append_take_drop_id)

lemma trim_end_dot_fixed: "s = [] \<or> List.last s \<noteq> dot \<Longrightarrow> trim_end_dot s = s"
  by (cases s rule: rev_cases) (simp_all add: trim_end_dot_def)

lemma last_dotted_suffix: "List.last (s @ dotted_suffix) \<noteq> dot"
  by (simp add: dotted_suffix_def DNS_SUFFIX_def dot_def)

lemma dotted_suffix_nonempty [simp]: "dotted_suffix \<noteq> []"
  by (simp add: dotted_suffix_def)

lemma after_dot_append: "dot \<notin> set s \<Longrightarrow> after_dot (s @ dot # t) = Some t"
  by (induction s) (auto simp: after_dot_def)

lemma lower_append [simp]: "lower (s @ t) = lower s @ lower t"
  by (simp add: lower_def)

lemma dotted_suffix_lower: "lower dotted_suffix = dotted_suffix"
  by (simp add: lower_def dotted_suffix_def DNS_SUFFIX_def dot_def to_lower_def is_upper_def)

lemma lower_dot [simp]: "lower [dot] = [dot]"
  by (simp add: lower_def dot_def to_lower_def is_upper_def)

lemma valid_label_lower: "valid_label l \<Longrightarrow> lower l = l"
  unfolding valid_label_def lower_def list_all_iff
  by (intro map_idI) (auto simp: to_lower_def is_upper_def is_lower_def is_digit_def)

lemma valid_label_no_dot: "valid_label l \<Longrightarrow> dot \<notin> set l"
  by (auto simp: valid_label_def list_all_iff dot_def is_lower_def is_digit_def)

lemma parse_nat_snoc:
  "is_digit c \<Longrightarrow> parse_nat s = Some n \<Longrightarrow> parse_nat (s @ [c]) = Some (10 * n + (of_char c - 48))"
  by (auto simp: parse_nat_def split: if_splits)

lemma parse_nat_dec: "parse_nat (dec n) = Some n"
proof (induction n rule: dec.induct)
  case (1 n)
  have dig: "is_digit (digit_char d) \<and> (of_char (digit_char d) :: nat) = 48 + d" if "d < 10" for d
    using that by (simp add: is_digit_def digit_char_def)
  show ?case
  proof (cases "n < 10")
    case True
    with dig [OF True] show ?thesis by (simp add: dec.simps [of n] parse_nat_def)
  next
    case False
    then have "parse_nat (dec (n div 10)) = Some (n div 10)" using 1 by simp
    from parse_nat_snoc [OF _ this, of "digit_char (n mod 10)"] dig [of "n mod 10"] False
    show ?thesis by (simp add: dec.simps [of n])
  qed
qed

lemma default_label_inj: "default_label p = default_label q \<longleftrightarrow> p = q"
  by (simp add: default_label_def word_unat_eq_iff)

text \<open>
  For a device \<open>d\<close> of a user \<open>u\<close> and a usable label, the name of a service is the label under
  that user's label, lower-cased, whether or not the hostname is written with a trailing dot;
  it does not depend on the device; and its spelling under a certificate domain swaps the
  private suffix for that domain and nothing else.\<close>

theorem service_name_spec:
  assumes "dot \<notin> set d" and "valid_label l"
  shows "service_name (d @ [dot] @ u @ dotted_suffix) l = Some (l @ [dot] @ lower u @ dotted_suffix) \<and>
    service_name (d @ [dot] @ u @ dotted_suffix @ [dot]) l = Some (l @ [dot] @ lower u @ dotted_suffix) \<and>
    certificate_alias (l @ [dot] @ lower u @ dotted_suffix) cdomain =
      Some (l @ [dot] @ lower (lower u) @ [dot] @ lower cdomain)"
proof -
  have t: "trim_end_dot (s @ dotted_suffix) = s @ dotted_suffix" for s
    using trim_end_dot_fixed last_dotted_suffix by blast
  have t': "trim_end_dot (s @ dotted_suffix @ [dot]) = s @ dotted_suffix" for s
    using t [of s] by (simp add: trim_end_dot_def)
  have a: "after_dot (d @ dot # u) = Some u" by (rule after_dot_append [OF assms(1)])
  have low: "lower (dot # s) = dot # lower s" for s
    using lower_append [of "[dot]" s] by simp
  show ?thesis
    using t [of "d @ dot # u"] t' [of "d @ dot # u"] t [of "l @ dot # lower u"] a
      valid_label_lower [OF assms(2)]
    by (auto simp: service_name_def certificate_alias_def dotted_suffix_lower low
        strip_suffix_append [of _ "d @ dot # u", simplified]
        strip_suffix_append [of _ "l @ dot # lower u", simplified])
qed

text \<open>
  The label an unnamed port gets is a usable label, is recognised as a defaulted one, and
  tells the port: two ports never share it.\<close>

theorem default_label_spec:
  shows "valid_label (default_label p) \<and> is_default_label (default_label p) \<and>
    (default_label p = default_label q \<longleftrightarrow> p = q)"
proof -
  have lt: "unat p < 65536" using unsigned_less [of p, where ?'a = nat] by simp
  have first: "hd (dec n) \<noteq> CHR ''+'' \<and> List.last (dec n) \<noteq> CHR ''-''" for n
    using dec_digits [OF hd_in_set, of n] dec_digits [OF last_in_set, of n]
    by (auto simp: is_digit_def)
  have len: "length (dec (unat p)) \<le> 5"
  proof -
    have "length (dec n) \<le> k" if "n < 10 ^ k" "0 < k" for n k :: nat
      using that
    proof (induction k arbitrary: n)
      case (Suc k)
      then show ?case
        by (cases "n < 10"; cases k) (auto simp: dec.simps [of n])
    qed simp
    from this [of "unat p" 5] lt show ?thesis by simp
  qed
  have "parse_u16 (dec (unat p)) = Some (unat p)"
    using lt first [of "unat p"] parse_nat_dec [of "unat p"]
    by (cases "dec (unat p)") (auto simp: parse_u16_def)
  moreover have "list_all (\<lambda>b. is_lower b \<or> is_digit b \<or> b = CHR ''-'') (default_label p)"
    using dec_digits by (auto simp: default_label_def list_all_iff is_lower_def)
  ultimately show ?thesis
    using len first [of "unat p"] default_label_inj
    by (auto simp: valid_label_def default_label_def SVC_MAX_LABEL_LEN_def is_default_label_def
        strip_prefix_def starts_dash_def ends_dash_def is_digit_def)
qed

theorem service_name_spec_witness:
  "service_name (''laptop'' @ [dot] @ ''alice-2'' @ dotted_suffix) ''mc'' =
     Some (''mc'' @ [dot] @ lower ''alice-2'' @ dotted_suffix)"
proof -
  have "dot \<notin> set ''laptop''" by (simp add: dot_def)
  moreover have "valid_label ''mc''" by code_simp
  ultimately show ?thesis using service_name_spec by blast
qed

end
