(* ===== verification/ServiceTable.thy ===== *)
theory ServiceTable
  imports DeviceTable ServiceNames "HOL-Library.Multiset"
begin

section \<open>Registered web services: \<open>Store::set_device_services\<close>\<close>

text \<open>
  The only service state the coordinator holds. One call replaces a device's labels in a
  transaction; a label that already names something else of the owner is refused with a reason.
\<close>


datatype refusal = NotUsable | NamesADevice string | ServedElsewhere string | TooMany

record refused_service =
  rf_name :: string
  rf_reason :: refusal

text \<open>The loop over the requested labels; \<open>registered\<close> grows as it goes.\<close>

fun svc_loop :: "string list \<Rightarrow> string list \<Rightarrow> string list \<Rightarrow> string list \<Rightarrow> refused_service list \<Rightarrow>
    string list \<times> refused_service list" where
  "svc_loop device_names elsewhere [] registered refused = (registered, refused)"
| "svc_loop device_names elsewhere (label # labels) registered refused =
     (let reason =
        (if \<not> valid_label label then Some NotUsable
         else if label \<in> set device_names then Some (NamesADevice label)
         else if label \<in> set elsewhere then Some (ServedElsewhere label)
         else if MAX_WEB_SERVICES_PER_DEVICE \<le> length registered then Some TooMany
         else None)
      in case reason of
           Some r \<Rightarrow> svc_loop device_names elsewhere labels registered
                       (refused @ [\<lparr>rf_name = label, rf_reason = r\<rparr>])
         | None \<Rightarrow> svc_loop device_names elsewhere labels (registered @ [label]) refused)"

text \<open>\<open>INSERT \<dots> ON CONFLICT (user_id, label) DO UPDATE\<close>.\<close>

definition upsert_service :: "u64 \<Rightarrow> key \<Rightarrow> string \<Rightarrow> svc_row list \<Rightarrow> svc_row list" where
  "upsert_service u pk label rows =
     (if \<exists>r\<in>set rows. sv_user r = u \<and> sv_label r = label
      then map (\<lambda>r. if sv_user r = u \<and> sv_label r = label then r\<lparr>sv_pubkey := pk\<rparr> else r) rows
      else rows @ [\<lparr>sv_user = u, sv_label = label, sv_pubkey = pk\<rparr>])"

definition labels_elsewhere :: "store \<Rightarrow> u64 \<Rightarrow> key \<Rightarrow> string list" where
  "labels_elsewhere st u pk =
     map sv_label (filter (\<lambda>r. sv_user r = u \<and> sv_pubkey r \<noteq> pk) (services st))"

definition set_device_services ::
  "u64 \<Rightarrow> key \<Rightarrow> string list \<Rightarrow> store \<Rightarrow> (string list \<times> refused_service list) \<times> store" where
  "set_device_services u pk labels st =
     (let device_names = map d_name (rows_of st u);
          held_elsewhere = labels_elsewhere st u pk;
          (registered, refused) = svc_loop device_names held_elsewhere labels [] [];
          cleared = filter (\<lambda>r. \<not> (sv_user r = u \<and> sv_pubkey r = pk)) (services st)
      in ((registered, refused), st\<lparr>services := fold (upsert_service u pk) registered cleared\<rparr>))"

text \<open>\<open>ORDER BY label\<close>: byte order, which is the order of lists of codes.\<close>

definition char_codes :: "string \<Rightarrow> nat list" where
  "char_codes s = map of_char s"

definition device_services :: "store \<Rightarrow> key \<Rightarrow> string list" where
  "device_services st pk =
     sort_key char_codes (map sv_label (filter (\<lambda>r. sv_pubkey r = pk) (services st)))"

subsection \<open>The loop\<close>

definition svc_ok :: "string list \<Rightarrow> string list \<Rightarrow> string \<Rightarrow> bool" where
  "svc_ok device_names elsewhere l \<longleftrightarrow>
     valid_label l \<and> l \<notin> set device_names \<and> l \<notin> set elsewhere"

lemma svc_loop_registered:
  "fst (svc_loop dn el labels reg ref) =
     reg @ take (MAX_WEB_SERVICES_PER_DEVICE - length reg) (filter (svc_ok dn el) labels)"
proof (induction labels arbitrary: reg ref)
  case (Cons l labels)
  show ?case
  proof (cases "svc_ok dn el l \<and> length reg < MAX_WEB_SERVICES_PER_DEVICE")
    case True
    then have "MAX_WEB_SERVICES_PER_DEVICE - length reg =
        Suc (MAX_WEB_SERVICES_PER_DEVICE - Suc (length reg))"
      by (intro Suc_diff_Suc [symmetric]) simp
    with True Cons show ?thesis by (simp add: svc_ok_def)
  next
    case False
    with Cons show ?thesis by (auto simp: svc_ok_def Let_def)
  qed
qed simp

lemma svc_loop_split:
  "svc_loop dn el labels reg ref = (reg', ref') \<Longrightarrow>
   mset reg' + mset (map rf_name ref') = mset reg + mset (map rf_name ref) + mset labels"
proof (induction labels arbitrary: reg ref)
  case (Cons l labels)
  define reason where "reason =
      (if \<not> valid_label l then Some NotUsable
       else if l \<in> set dn then Some (NamesADevice l)
       else if l \<in> set el then Some (ServedElsewhere l)
       else if MAX_WEB_SERVICES_PER_DEVICE \<le> length reg then Some TooMany else None)"
  show ?case
  proof (cases reason)
    case None
    then have "svc_loop dn el labels (reg @ [l]) ref = (reg', ref')"
      using Cons.prems by (simp add: reason_def)
    from Cons.IH [OF this] show ?thesis by simp
  next
    case (Some r)
    then have "svc_loop dn el labels reg (ref @ [\<lparr>rf_name = l, rf_reason = r\<rparr>]) = (reg', ref')"
      using Cons.prems unfolding svc_loop.simps reason_def [symmetric] by simp
    from Cons.IH [OF this] show ?thesis by simp
  qed
qed simp

subsection \<open>The table invariant\<close>

definition svc_inv :: "store \<Rightarrow> bool" where
  "svc_inv st \<longleftrightarrow> distinct (map (\<lambda>r. (sv_user r, sv_label r)) (services st)) \<and>
     (\<forall>r\<in>set (services st). valid_label (sv_label r))"

definition svc_keys :: "svc_row list \<Rightarrow> (u64 \<times> string) list" where
  "svc_keys rows = map (\<lambda>r. (sv_user r, sv_label r)) rows"

lemma svc_keys_upsert:
  "svc_keys (upsert_service u pk l rows) =
     (if (u, l) \<in> set (svc_keys rows) then svc_keys rows else svc_keys rows @ [(u, l)])"
  by (auto simp: upsert_service_def svc_keys_def intro!: map_cong)

lemma set_upsert_own:
  "(\<And>r. r \<in> set rows \<Longrightarrow> sv_user r = u \<Longrightarrow> sv_label r = l \<Longrightarrow> sv_pubkey r = pk) \<Longrightarrow>
   set (upsert_service u pk l rows) = insert \<lparr>sv_user = u, sv_label = l, sv_pubkey = pk\<rparr> (set rows)"
proof -
  assume own: "\<And>r. r \<in> set rows \<Longrightarrow> sv_user r = u \<Longrightarrow> sv_label r = l \<Longrightarrow> sv_pubkey r = pk"
  let ?row = "\<lparr>sv_user = u, sv_label = l, sv_pubkey = pk\<rparr>"
  show ?thesis
  proof (cases "\<exists>r\<in>set rows. sv_user r = u \<and> sv_label r = l")
    case True
    then obtain r where r: "r \<in> set rows" "sv_user r = u" "sv_label r = l" by blast
    with own have "?row = r" by simp
    moreover have "map (\<lambda>r. if sv_user r = u \<and> sv_label r = l then r\<lparr>sv_pubkey := pk\<rparr> else r) rows = rows"
      by (rule map_idI) (use own in auto)
    ultimately show ?thesis using True r by (auto simp: upsert_service_def)
  qed (auto simp: upsert_service_def)
qed

lemma fold_upsert:
  assumes "\<And>r. r \<in> set rows \<Longrightarrow> sv_user r = u \<Longrightarrow> sv_label r \<in> set ls \<Longrightarrow> sv_pubkey r = pk"
    and "distinct (svc_keys rows)"
  shows "set (fold (upsert_service u pk) ls rows) =
      set rows \<union> (\<lambda>l. \<lparr>sv_user = u, sv_label = l, sv_pubkey = pk\<rparr>) ` set ls \<and>
    distinct (svc_keys (fold (upsert_service u pk) ls rows))"
  using assms
proof (induction ls arbitrary: rows)
  case (Cons l ls)
  have set1: "set (upsert_service u pk l rows) = insert \<lparr>sv_user = u, sv_label = l, sv_pubkey = pk\<rparr> (set rows)"
    by (rule set_upsert_own) (use Cons.prems(1) in auto)
  have "distinct (svc_keys (upsert_service u pk l rows))"
    using Cons.prems(2) by (simp add: svc_keys_upsert)
  moreover have "sv_pubkey r = pk"
    if "r \<in> set (upsert_service u pk l rows)" "sv_user r = u" "sv_label r \<in> set ls" for r
    using that Cons.prems(1) [of r] unfolding set1 by (cases r) auto
  ultimately have "set (fold (upsert_service u pk) ls (upsert_service u pk l rows)) =
      set (upsert_service u pk l rows) \<union> (\<lambda>l. \<lparr>sv_user = u, sv_label = l, sv_pubkey = pk\<rparr>) ` set ls \<and>
    distinct (svc_keys (fold (upsert_service u pk) ls (upsert_service u pk l rows)))"
    by (intro Cons.IH)
  then show ?case unfolding set1 by simp
qed simp

lemma set_device_services_rows:
  assumes "svc_inv st" and "set_device_services u pk labels st = ((reg, ref), st')"
  shows "set (services st') = {r \<in> set (services st). \<not> (sv_user r = u \<and> sv_pubkey r = pk)} \<union>
      (\<lambda>l. \<lparr>sv_user = u, sv_label = l, sv_pubkey = pk\<rparr>) ` set reg"
    and "svc_inv st'"
    and "reg = take MAX_WEB_SERVICES_PER_DEVICE
      (filter (svc_ok (map d_name (rows_of st u)) (labels_elsewhere st u pk)) labels)"
    and "mset reg + mset (map rf_name ref) = mset labels"
    and "devices st' = devices st"
proof -
  let ?dn = "map d_name (rows_of st u)" and ?el = "labels_elsewhere st u pk"
  let ?cl = "filter (\<lambda>r. \<not> (sv_user r = u \<and> sv_pubkey r = pk)) (services st)"
  have loop: "svc_loop ?dn ?el labels [] [] = (reg, ref)"
    and st': "st' = st\<lparr>services := fold (upsert_service u pk) reg ?cl\<rparr>"
    using assms(2) by (auto simp: set_device_services_def Let_def split: prod.splits)
  show reg: "reg = take MAX_WEB_SERVICES_PER_DEVICE (filter (svc_ok ?dn ?el) labels)"
    using svc_loop_registered [of ?dn ?el labels "[]" "[]"] loop by simp
  show "mset reg + mset (map rf_name ref) = mset labels"
    using svc_loop_split [OF loop] by simp
  have free: "svc_ok ?dn ?el l" if "l \<in> set reg" for l
    using that set_take_subset unfolding reg by fastforce
  have keys: "distinct (svc_keys ?cl)"
    using assms(1) unfolding svc_inv_def svc_keys_def by (simp add: distinct_map_filter)
  have own: "sv_pubkey r = pk" if r: "r \<in> set ?cl" "sv_user r = u" "sv_label r \<in> set reg" for r
  proof (rule ccontr)
    assume "sv_pubkey r \<noteq> pk"
    with r have "sv_label r \<in> set ?el" by (auto simp: labels_elsewhere_def)
    with free [OF r(3)] show False by (simp add: svc_ok_def)
  qed
  have sv: "services st' = fold (upsert_service u pk) reg ?cl" by (simp add: st')
  have f: "set (fold (upsert_service u pk) reg ?cl) =
      set ?cl \<union> (\<lambda>l. \<lparr>sv_user = u, sv_label = l, sv_pubkey = pk\<rparr>) ` set reg \<and>
    distinct (svc_keys (fold (upsert_service u pk) reg ?cl))"
    by (rule fold_upsert [OF _ keys]) (rule own)
  show rows: "set (services st') = {r \<in> set (services st). \<not> (sv_user r = u \<and> sv_pubkey r = pk)} \<union>
      (\<lambda>l. \<lparr>sv_user = u, sv_label = l, sv_pubkey = pk\<rparr>) ` set reg"
    by (simp only: sv conjunct1 [OF f] set_filter)
  have old: "\<forall>r\<in>set (services st). valid_label (sv_label r)" using assms(1) by (simp add: svc_inv_def)
  have "valid_label (sv_label r)" if "r \<in> set (services st')" for r
    using that old free unfolding rows svc_ok_def by auto
  moreover have "distinct (svc_keys (services st'))" unfolding sv by (rule conjunct2 [OF f])
  ultimately show "svc_inv st'" by (simp add: svc_inv_def svc_keys_def)
  show "devices st' = devices st" by (simp add: st')
qed

lemma remove_device_svc_inv:
  "svc_inv st \<Longrightarrow> remove_device u pk st = (res, st') \<Longrightarrow> svc_inv st'"
  by (auto simp: remove_device_def Let_def svc_inv_def set_primary_def distinct_map_filter
      split: sum.splits list.splits if_splits)

subsection \<open>Properties\<close>

text \<open>
  A call replaces the device's labels by the first eight requested ones that are usable, name
  no device of the owner and are served by no other device of the owner; every other request
  is refused, none is lost; the rows of other devices and users stay; and afterwards each
  label of the owner names exactly one device.\<close>

theorem set_device_services_spec:
  assumes "svc_inv st" and "set_device_services u pk labels st = ((reg, ref), st')"
  shows "reg = take MAX_WEB_SERVICES_PER_DEVICE
        (filter (\<lambda>l. valid_label l \<and> (\<forall>r\<in>set (devices st). d_user r = u \<longrightarrow> d_name r \<noteq> l) \<and>
           (\<forall>r\<in>set (services st). sv_user r = u \<and> sv_pubkey r \<noteq> pk \<longrightarrow> sv_label r \<noteq> l)) labels) \<and>
    mset reg + mset (map rf_name ref) = mset labels \<and>
    {l. \<lparr>sv_user = u, sv_label = l, sv_pubkey = pk\<rparr> \<in> set (services st')} = set reg \<and>
    (\<forall>r. sv_user r = u \<and> sv_pubkey r = pk \<or> (r \<in> set (services st') \<longleftrightarrow> r \<in> set (services st))) \<and>
    (\<forall>r\<in>set (services st'). \<forall>r'\<in>set (services st').
       sv_user r = sv_user r' \<and> sv_label r = sv_label r' \<longrightarrow> sv_pubkey r = sv_pubkey r')"
proof -
  note rows = set_device_services_rows [OF assms]
  have ok: "svc_ok (map d_name (rows_of st u)) (labels_elsewhere st u pk) =
      (\<lambda>l. valid_label l \<and> (\<forall>r\<in>set (devices st). d_user r = u \<longrightarrow> d_name r \<noteq> l) \<and>
           (\<forall>r\<in>set (services st). sv_user r = u \<and> sv_pubkey r \<noteq> pk \<longrightarrow> sv_label r \<noteq> l))"
    by (rule ext) (auto simp: svc_ok_def rows_of_def labels_elsewhere_def)
  have "{l. \<lparr>sv_user = u, sv_label = l, sv_pubkey = pk\<rparr> \<in> set (services st')} = set reg"
    unfolding rows(1) by auto
  moreover have "sv_user r = u \<and> sv_pubkey r = pk \<or> (r \<in> set (services st') \<longleftrightarrow> r \<in> set (services st))" for r
    unfolding rows(1) by auto
  moreover have "sv_pubkey r = sv_pubkey r'"
    if "r \<in> set (services st')" "r' \<in> set (services st')" "sv_user r = sv_user r' \<and> sv_label r = sv_label r'"
    for r r'
    using that rows(2) by (auto simp: svc_inv_def distinct_map dest: inj_onD)
  ultimately show ?thesis using rows(3,4) unfolding ok by blast
qed

subsection \<open>A witness\<close>

theorem set_device_services_spec_witness:
  "fst (set_device_services 7 [1] [''mc'', ''BAD'', ''wiki''] empty_store) =
     ([''mc'', ''wiki''], [\<lparr>rf_name = ''BAD'', rf_reason = NotUsable\<rparr>]) \<and>
   {l. \<lparr>sv_user = 7, sv_label = l, sv_pubkey = [1]\<rparr> \<in>
        set (services (snd (set_device_services 7 [1] [''mc'', ''BAD'', ''wiki''] empty_store)))}
     = {''mc'', ''wiki''}"
proof -
  have inv: "svc_inv empty_store" by (simp add: svc_inv_def empty_store_def)
  have v: "valid_label ''mc''" "\<not> valid_label ''BAD''" "valid_label ''wiki''" by code_simp+
  have loop: "svc_loop [] [] [''mc'', ''BAD'', ''wiki''] [] [] =
      ([''mc'', ''wiki''], [\<lparr>rf_name = ''BAD'', rf_reason = NotUsable\<rparr>])"
    using v by (simp add: MAX_WEB_SERVICES_PER_DEVICE_def)
  have fst: "fst (set_device_services 7 [1] [''mc'', ''BAD'', ''wiki''] empty_store) =
      ([''mc'', ''wiki''], [\<lparr>rf_name = ''BAD'', rf_reason = NotUsable\<rparr>])"
    by (simp add: set_device_services_def Let_def rows_of_def labels_elsewhere_def empty_store_def
        loop split_def del: svc_loop.simps fold_simps)
  then obtain st' where run: "set_device_services 7 [1] [''mc'', ''BAD'', ''wiki''] empty_store =
      (([''mc'', ''wiki''], [\<lparr>rf_name = ''BAD'', rf_reason = NotUsable\<rparr>]), st')"
    by (metis prod.collapse)
  from set_device_services_spec [OF inv run] show ?thesis
    unfolding run fst_conv snd_conv by simp
qed

end
