(* ===== verification/Enrollment.thy ===== *)
theory Enrollment
  imports Store
begin

section \<open>One-time enrollment keys and login bindings of \<open>store.rs\<close>\<close>

text \<open>
  The two ways a new device proves whose it is. Consuming a key is a \<open>SELECT\<close> followed by a
  guarded \<open>UPDATE\<close>, between which other requests may run, so beside the sequential
  \<open>consume_enrollment_key\<close> there is the step relation of any number of clients whose reads
  and claims interleave.
\<close>

subsection \<open>Enrollment keys\<close>

definition find_key :: "store \<Rightarrow> string \<Rightarrow> ek_row option" where
  "find_key st key = List.find (\<lambda>r. ek_key r = key) (enrollment_keys st)"

definition create_enrollment_key :: "string \<Rightarrow> u64 \<Rightarrow> u64 option \<Rightarrow> store \<Rightarrow> store" where
  "create_enrollment_key key u expires_at st =
     (let e = map_option as_i64 expires_at
      in if find_key st key \<noteq> None
         then st\<lparr>enrollment_keys :=
                map (\<lambda>r. if ek_key r = key then r\<lparr>ek_user := u, ek_expires := e\<rparr> else r) (enrollment_keys st)\<rparr>
         else st\<lparr>enrollment_keys := enrollment_keys st @
                [\<lparr>ek_key = key, ek_user = u, ek_expires = e, ek_used_by = None\<rparr>]\<rparr>)"

text \<open>The \<open>WHERE\<close> clause of the claiming \<open>UPDATE\<close>, and \<open>rows_affected() == 1\<close>.\<close>

definition claimable :: "string \<Rightarrow> u64 \<Rightarrow> ek_row \<Rightarrow> bool" where
  "claimable key now r \<longleftrightarrow> ek_key r = key \<and> ek_used_by r = None \<and>
     (case ek_expires r of None \<Rightarrow> True | Some e \<Rightarrow> as_i64 now < e)"

definition claim_key :: "string \<Rightarrow> key \<Rightarrow> u64 \<Rightarrow> store \<Rightarrow> bool \<times> store" where
  "claim_key key pk now st =
     (length (filter (claimable key now) (enrollment_keys st)) = 1,
      st\<lparr>enrollment_keys :=
           map (\<lambda>r. if claimable key now r then r\<lparr>ek_used_by := Some pk\<rparr> else r) (enrollment_keys st)\<rparr>)"

text \<open>The verdict on a claim, given the row read before it.\<close>

definition claim_result :: "bool \<Rightarrow> ek_row \<Rightarrow> key \<Rightarrow> store_error + u64" where
  "claim_result claimed row pk =
     (if claimed then Inr (ek_user row)
      else case ek_used_by row of
             Some used \<Rightarrow> if used = pk then Inr (ek_user row) else Inl KeyUsed
           | None \<Rightarrow> Inl KeyExpired)"

definition consume_enrollment_key :: "string \<Rightarrow> key \<Rightarrow> u64 \<Rightarrow> u64 db" where
  "consume_enrollment_key key pk now st =
     (case find_key st key of
        None \<Rightarrow> (Inl UnknownKey, st)
      | Some row \<Rightarrow>
          (let (claimed, st') = claim_key key pk now st in (claim_result claimed row pk, st')))"

definition key_inv :: "store \<Rightarrow> bool" where
  "key_inv st \<longleftrightarrow> distinct (map ek_key (enrollment_keys st))"

lemma find_key_Some: "find_key st k = Some r \<Longrightarrow> r \<in> set (enrollment_keys st) \<and> ek_key r = k"
  by (auto simp: find_key_def find_Some_iff)

lemma find_key_None: "find_key st k = None \<longleftrightarrow> k \<notin> ek_key ` set (enrollment_keys st)"
  by (auto simp: find_key_def find_None_iff)

lemma find_map_same:
  assumes "\<And>r. ek_key (f r) = ek_key r"
  shows "List.find (\<lambda>r. ek_key r = k) (map f rs) = map_option f (List.find (\<lambda>r. ek_key r = k) rs)"
  using assms by (induction rs) auto

lemma claim_find:
  "find_key (snd (claim_key key pk now st)) k =
     map_option (\<lambda>r. if claimable key now r then r\<lparr>ek_used_by := Some pk\<rparr> else r) (find_key st k)"
  by (simp add: claim_key_def find_key_def find_map_same)

lemma create_find:
  "find_key (create_enrollment_key key u e st) k =
     (if k = key then Some (case find_key st key of
          None \<Rightarrow> \<lparr>ek_key = key, ek_user = u, ek_expires = map_option as_i64 e, ek_used_by = None\<rparr>
        | Some r \<Rightarrow> r\<lparr>ek_user := u, ek_expires := map_option as_i64 e\<rparr>)
      else find_key st k)"
proof -
  have snoc: "List.find P (xs @ [x]) =
      (case List.find P xs of Some y \<Rightarrow> Some y | None \<Rightarrow> if P x then Some x else None)"
    for P :: "ek_row \<Rightarrow> bool" and xs x
    by (induction xs) auto
  show ?thesis
  proof (cases "find_key st key")
    case None
    then have "find_key (create_enrollment_key key u e st) k =
        (case find_key st k of Some y \<Rightarrow> Some y
         | None \<Rightarrow> if key = k then Some \<lparr>ek_key = key, ek_user = u, ek_expires = map_option as_i64 e,
             ek_used_by = None\<rparr> else None)"
      by (simp add: create_enrollment_key_def find_key_def snoc)
    with None show ?thesis by (cases "find_key st k") auto
  next
    case (Some r)
    let ?f = "\<lambda>r. if ek_key r = key then r\<lparr>ek_user := u, ek_expires := map_option as_i64 e\<rparr> else r"
    have "find_key (create_enrollment_key key u e st) k = map_option ?f (find_key st k)"
      using Some by (simp add: create_enrollment_key_def find_key_def find_map_same)
    moreover have "ek_key r' = k" if "find_key st k = Some r'" for r'
      using find_key_Some [OF that] by simp
    ultimately show ?thesis using Some find_key_Some [OF Some]
      by (cases "k = key"; cases "find_key st k") simp_all
  qed
qed

lemma claimed_iff:
  "key_inv st \<Longrightarrow> fst (claim_key key pk now st) \<longleftrightarrow>
     (\<exists>r. find_key st key = Some r \<and> claimable key now r)"
proof -
  assume inv: "key_inv st"
  have "length (filter (claimable key now) rs) = 1 \<longleftrightarrow>
      (\<exists>r. List.find (\<lambda>r. ek_key r = key) rs = Some r \<and> claimable key now r)"
    if "distinct (map ek_key rs)" for rs
    using that
  proof (induction rs)
    case (Cons r rs)
    show ?case
    proof (cases "ek_key r = key")
      case True
      with Cons.prems have "key \<notin> ek_key ` set rs" by simp
      then have "filter (claimable key now) rs = []"
        unfolding filter_empty_conv claimable_def by blast
      with True show ?thesis by simp
    next
      case False
      with Cons show ?thesis by (simp add: claimable_def)
    qed
  qed simp
  with inv show ?thesis by (simp add: claim_key_def key_inv_def find_key_def)
qed

lemma claim_inv: "key_inv st \<Longrightarrow> key_inv (snd (claim_key key pk now st))"
  by (simp add: key_inv_def claim_key_def o_def if_distrib cong: if_cong)

lemma create_inv: "key_inv st \<Longrightarrow> key_inv (create_enrollment_key key u e st)"
  by (auto simp: key_inv_def create_enrollment_key_def Let_def o_def if_distrib find_key_None
      cong: if_cong)

subsection \<open>Interleaved clients\<close>

text \<open>
  \<open>Create\<close> is a whole statement; \<open>Read c k pk\<close> is client \<open>c\<close>'s \<open>SELECT\<close> on behalf of the device
  \<open>pk\<close>, \<open>Claim c now\<close> its \<open>UPDATE\<close> and verdict. A client that found no row stops at its read.
  The log records every key that was answered \<open>Ok\<close>.
\<close>

datatype ek_event = Create string u64 "u64 option" | Read nat string key | Claim nat u64

record ek_sys =
  es_store :: store
  es_pending :: "(nat, string \<times> key \<times> ek_row) hmap"
  es_log :: "(string \<times> key \<times> u64) list"

inductive ek_step :: "ek_sys \<Rightarrow> ek_event \<Rightarrow> ek_sys \<Rightarrow> bool" where
  create: "ek_step s (Create k u e) (s\<lparr>es_store := create_enrollment_key k u e (es_store s)\<rparr>)"
| read: "find_key (es_store s) k = Some row \<Longrightarrow>
    ek_step s (Read c k pk) (s\<lparr>es_pending := tput c (k, pk, row) (es_pending s)\<rparr>)"
| read_unknown: "find_key (es_store s) k = None \<Longrightarrow> ek_step s (Read c k pk) s"
| granted: "tget (es_pending s) c = Some (k, pk, row) \<Longrightarrow>
    claim_key k pk now (es_store s) = (claimed, st') \<Longrightarrow> claim_result claimed row pk = Inr u \<Longrightarrow>
    ek_step s (Claim c now) (s\<lparr>es_store := st', es_pending := tdel c (es_pending s),
                                es_log := es_log s @ [(k, pk, u)]\<rparr>)"
| refused: "tget (es_pending s) c = Some (k, pk, row) \<Longrightarrow>
    claim_key k pk now (es_store s) = (claimed, st') \<Longrightarrow> claim_result claimed row pk = Inl e \<Longrightarrow>
    ek_step s (Claim c now) (s\<lparr>es_store := st', es_pending := tdel c (es_pending s)\<rparr>)"

inductive ek_run :: "ek_sys \<Rightarrow> ek_event list \<Rightarrow> ek_sys \<Rightarrow> bool" where
  stop: "ek_run s [] s"
| step: "ek_step s e s1 \<Longrightarrow> ek_run s1 es s' \<Longrightarrow> ek_run s (e # es) s'"

inductive_simps ek_run_simps [simp]: "ek_run s [] s'" "ek_run s (e # es) s'"
inductive_simps ek_step_simps: "ek_step s (Create k u e) s'" "ek_step s (Read c k pk) s'"
  "ek_step s (Claim c now) s'"

text \<open>A key's binding only ever goes from unbound to bound.\<close>

definition bound_to :: "store \<Rightarrow> string \<Rightarrow> key \<Rightarrow> bool" where
  "bound_to st k pk \<longleftrightarrow> (\<exists>r. find_key st k = Some r \<and> ek_used_by r = Some pk)"

definition ek_inv :: "ek_sys \<Rightarrow> bool" where
  "ek_inv s \<longleftrightarrow> key_inv (es_store s) \<and> tok (es_pending s) \<and>
     (\<forall>(k, pk, u)\<in>set (es_log s). bound_to (es_store s) k pk) \<and>
     (\<forall>c k pk row. tget (es_pending s) c = Some (k, pk, row) \<longrightarrow>
        (\<forall>used. ek_used_by row = Some used \<longrightarrow> bound_to (es_store s) k used))"

lemma bound_to_unique: "bound_to st k p \<Longrightarrow> bound_to st k q \<Longrightarrow> p = q"
  by (auto simp: bound_to_def)

lemma bound_to_create: "bound_to st k pk \<Longrightarrow> bound_to (create_enrollment_key k' u e st) k pk"
  by (auto simp: bound_to_def create_find)

lemma bound_to_claim: "bound_to st k pk \<Longrightarrow> bound_to (snd (claim_key k' pk' now st)) k pk"
proof -
  assume "bound_to st k pk"
  then obtain r where r: "find_key st k = Some r" "ek_used_by r = Some pk"
    by (auto simp: bound_to_def)
  then have "\<not> claimable k' now r" by (simp add: claimable_def)
  with r show ?thesis by (simp add: bound_to_def claim_find)
qed

lemma claimed_bound:
  "key_inv st \<Longrightarrow> fst (claim_key k pk now st) \<Longrightarrow> bound_to (snd (claim_key k pk now st)) k pk"
  by (auto simp: bound_to_def claim_find claimed_iff)

lemma ek_step_inv: "ek_step s e s' \<Longrightarrow> ek_inv s \<Longrightarrow> ek_inv s'"
proof (induction rule: ek_step.induct)
  case (create s k u e)
  then show ?case by (auto simp: ek_inv_def create_inv intro: bound_to_create)
next
  case (read s k row c pk)
  then show ?case by (auto simp: ek_inv_def bound_to_def split: if_splits)
next
  case (granted s c k pk row now claimed st' u)
  then have st': "st' = snd (claim_key k pk now (es_store s))"
    and cl: "claimed = fst (claim_key k pk now (es_store s))" by simp_all
  have inv: "key_inv (es_store s)" using granted(4) by (simp add: ek_inv_def)
  have b: "bound_to st' k pk"
  proof (cases claimed)
    case True
    then show ?thesis using claimed_bound [OF inv] cl st' by simp
  next
    case False
    then have "ek_used_by row = Some pk"
      using granted(3) by (auto simp: claim_result_def split: option.splits if_splits)
    then have "bound_to (es_store s) k pk" using granted(1,4) by (auto simp: ek_inv_def)
    then show ?thesis unfolding st' by (rule bound_to_claim)
  qed
  have "bound_to st' k' p'" if "bound_to (es_store s) k' p'" for k' p'
    unfolding st' by (rule bound_to_claim [OF that])
  with b granted(4) claim_inv [OF inv, of k pk now] show ?case
    by (auto simp: ek_inv_def st' split: if_splits)
next
  case (refused s c k pk row now claimed st' e)
  then have st': "st' = snd (claim_key k pk now (es_store s))" by simp
  have "bound_to st' k' p'" if "bound_to (es_store s) k' p'" for k' p'
    unfolding st' by (rule bound_to_claim [OF that])
  with refused(4) claim_inv [of "es_store s" k pk now] show ?case
    by (auto simp: ek_inv_def st' split: if_splits)
qed simp

lemma ek_run_inv: "ek_run s es s' \<Longrightarrow> ek_inv s \<Longrightarrow> ek_inv s'"
  by (induction rule: ek_run.induct) (auto dest: ek_step_inv)

definition ek_start :: "store \<Rightarrow> ek_sys" where
  "ek_start st = \<lparr>es_store = st, es_pending = [], es_log = []\<rparr>"

lemma ek_start_inv: "key_inv st \<Longrightarrow> ek_inv (ek_start st)"
  by (simp add: ek_inv_def ek_start_def)

text \<open>C29 (enrollment_key_single_use).
  However many clients consume enrollment keys at once, and however their reads and claims
  interleave with each other and with the creation of keys, one key never enrolls two
  different devices.\<close>

theorem enrollment_key_single_use:
  assumes "key_inv st" and "ek_run (ek_start st) es s"
    and "(k, p, u) \<in> set (es_log s)" and "(k, p', u') \<in> set (es_log s)"
  shows "p = p'"
proof -
  have "ek_inv s" using ek_run_inv [OF assms(2) ek_start_inv [OF assms(1)]] .
  with assms(3,4) have "bound_to (es_store s) k p" "bound_to (es_store s) k p'"
    by (auto simp: ek_inv_def)
  then show ?thesis by (rule bound_to_unique)
qed

text \<open>
  Run alone, consuming answers the key's owner exactly when the key exists and is either
  unused and unexpired, and then it is bound to this device, or already bound to this very
  device, expired or not. Every refusal says why, and leaves every key as it was.\<close>

theorem consume_enrollment_key_spec:
  assumes "key_inv st"
  shows "consume_enrollment_key key pk now st =
    (case find_key st key of
       None \<Rightarrow> (Inl UnknownKey, st)
     | Some r \<Rightarrow>
         (case ek_used_by r of
            Some used \<Rightarrow> (if used = pk then Inr (ek_user r) else Inl KeyUsed, st)
          | None \<Rightarrow>
              if (case ek_expires r of None \<Rightarrow> True | Some e \<Rightarrow> as_i64 now < e)
              then (Inr (ek_user r), snd (claim_key key pk now st))
              else (Inl KeyExpired, st)))
   \<and> (fst (consume_enrollment_key key pk now st) = Inr u \<longrightarrow>
        bound_to (snd (consume_enrollment_key key pk now st)) key pk)"
proof (cases "find_key st key")
  case None
  then show ?thesis by (simp add: consume_enrollment_key_def)
next
  case (Some r)
  have r: "r \<in> set (enrollment_keys st)" "ek_key r = key" using find_key_Some [OF Some] by auto
  have same: "snd (claim_key key pk now st) = st" if "\<not> claimable key now r"
  proof -
    have "\<not> claimable key now r'" if "r' \<in> set (enrollment_keys st)" for r'
    proof (cases "ek_key r' = key")
      case True
      then have "r' = r"
        using assms r \<open>r' \<in> set (enrollment_keys st)\<close> by (auto simp: key_inv_def distinct_map dest: inj_onD)
      with \<open>\<not> claimable key now r\<close> show ?thesis by simp
    qed (simp add: claimable_def)
    then show ?thesis by (simp add: claim_key_def map_idI)
  qed
  have cl: "fst (claim_key key pk now st) \<longleftrightarrow> claimable key now r"
    using claimed_iff [OF assms] Some by auto
  have "consume_enrollment_key key pk now st =
      (claim_result (claimable key now r) r pk, snd (claim_key key pk now st))"
    using Some cl by (simp add: consume_enrollment_key_def split_def)
  with Some same r claimed_bound [OF assms, of key pk now] cl show ?thesis
    by (auto simp: claim_result_def claimable_def bound_to_def split: option.splits)
qed

subsection \<open>Login bindings\<close>

definition MAX_OAUTH_BINDINGS_PER_USER :: nat where "MAX_OAUTH_BINDINGS_PER_USER = 64"

text \<open>
  \<open>ORDER BY bound_at DESC, rowid DESC LIMIT\<close>: the stable ascending sort of the rows in
  \<open>rowid\<close> order, reversed.
\<close>

definition newest_bindings :: "u64 \<Rightarrow> oauth_row list \<Rightarrow> oauth_row list" where
  "newest_bindings u rows =
     take MAX_OAUTH_BINDINGS_PER_USER (rev (sort_key oa_bound_at (filter (\<lambda>r. oa_user r = u) rows)))"

definition bind_oauth :: "key \<Rightarrow> u64 \<Rightarrow> u64 \<Rightarrow> store \<Rightarrow> store" where
  "bind_oauth pk u now st =
     (let rows = filter (\<lambda>r. oa_pubkey r \<noteq> pk) (oauth_authorized st) @
                 [\<lparr>oa_pubkey = pk, oa_user = u, oa_bound_at = as_i64 now\<rparr>];
          keep = map oa_pubkey (newest_bindings u rows)
      in st\<lparr>oauth_authorized := filter (\<lambda>r. \<not> (oa_user r = u \<and> oa_pubkey r \<notin> set keep)) rows\<rparr>)"

definition oauth_user :: "store \<Rightarrow> key \<Rightarrow> u64 option" where
  "oauth_user st pk =
     map_option oa_user (List.find (\<lambda>r. oa_pubkey r = pk) (oauth_authorized st))"

definition oauth_inv :: "store \<Rightarrow> bool" where
  "oauth_inv st \<longleftrightarrow> distinct (map oa_pubkey (oauth_authorized st))"

definition bindings_of :: "store \<Rightarrow> u64 \<Rightarrow> oauth_row list" where
  "bindings_of st u = filter (\<lambda>r. oa_user r = u) (oauth_authorized st)"

lemma length_inj_filter:
  assumes "distinct (map f rows)" and "set sub \<subseteq> set rows" and "distinct sub"
  shows "set (filter (\<lambda>r. f r \<in> f ` set sub) rows) = set sub"
    and "length (filter (\<lambda>r. f r \<in> f ` set sub) rows) = length sub"
proof -
  have d: "distinct rows" "inj_on f (set rows)" using assms(1) by (auto simp: distinct_map)
  show s: "set (filter (\<lambda>r. f r \<in> f ` set sub) rows) = set sub"
    using assms(2) d(2) by (auto dest: inj_onD)
  have "length (filter (\<lambda>r. f r \<in> f ` set sub) rows) =
      card (set (filter (\<lambda>r. f r \<in> f ` set sub) rows))"
    by (rule distinct_card [OF distinct_filter [OF d(1)], symmetric])
  then show "length (filter (\<lambda>r. f r \<in> f ` set sub) rows) = length sub"
    unfolding s using assms(3) by (simp add: distinct_card)
qed

lemma newest_bindings_props:
  assumes "distinct (map oa_pubkey rows)"
  shows "set (newest_bindings u rows) \<subseteq> {r \<in> set rows. oa_user r = u}"
    and "distinct (newest_bindings u rows)"
    and "length (newest_bindings u rows) \<le> MAX_OAUTH_BINDINGS_PER_USER"
    and "r \<in> set rows \<Longrightarrow> oa_user r = u \<Longrightarrow> r \<notin> set (newest_bindings u rows) \<Longrightarrow>
      r' \<in> set (newest_bindings u rows) \<Longrightarrow> oa_bound_at r \<le> oa_bound_at r'"
proof -
  let ?s = "rev (sort_key oa_bound_at (filter (\<lambda>r. oa_user r = u) rows))"
  have d: "distinct rows" using assms by (simp add: distinct_map)
  show "set (newest_bindings u rows) \<subseteq> {r \<in> set rows. oa_user r = u}"
    using set_take_subset [of MAX_OAUTH_BINDINGS_PER_USER ?s] by (auto simp: newest_bindings_def)
  show "distinct (newest_bindings u rows)" using d by (simp add: newest_bindings_def)
  show "length (newest_bindings u rows) \<le> MAX_OAUTH_BINDINGS_PER_USER"
    by (simp add: newest_bindings_def)
  assume "r \<in> set rows" "oa_user r = u" and nr: "r \<notin> set (newest_bindings u rows)"
    and r': "r' \<in> set (newest_bindings u rows)"
  then have "r \<in> set ?s" by simp
  then have "r \<in> set (drop MAX_OAUTH_BINDINGS_PER_USER ?s)"
    using nr unfolding newest_bindings_def by (metis Un_iff append_take_drop_id set_append)
  moreover have "sorted_wrt (\<lambda>x y. oa_bound_at y \<le> oa_bound_at x)
      (take MAX_OAUTH_BINDINGS_PER_USER ?s @ drop MAX_OAUTH_BINDINGS_PER_USER ?s)"
    using sorted_sort_key [of oa_bound_at "filter (\<lambda>r. oa_user r = u) rows"]
    by (simp add: sorted_wrt_rev sorted_wrt_map [symmetric])
  ultimately show "oa_bound_at r \<le> oa_bound_at r'"
    using r' unfolding sorted_wrt_append newest_bindings_def by blast
qed

lemma insort_snoc: "f y \<le> f x \<Longrightarrow> insort_key f y (ys @ [x]) = insort_key f y ys @ [x]"
  by (induction ys) auto

lemma sort_snoc: "\<forall>y\<in>set xs. f y \<le> f x \<Longrightarrow> sort_key f (xs @ [x]) = sort_key f xs @ [x]"
  by (induction xs) (auto simp: insort_snoc)

text \<open>
  A login binds the key to the user, keeps at most 64 bindings of that user, drops only
  bindings that are no younger than any it keeps, and leaves every other user's bindings to
  other keys as they were.\<close>

theorem bind_oauth_spec:
  assumes "oauth_inv st" and "\<forall>r\<in>set (oauth_authorized st). oa_bound_at r \<le> as_i64 now"
  shows "oauth_user (bind_oauth pk u now st) pk = Some u \<and>
    length (bindings_of (bind_oauth pk u now st) u) \<le> MAX_OAUTH_BINDINGS_PER_USER \<and>
    (\<forall>r r'. r \<in> set (bindings_of st u) \<and> oa_pubkey r \<noteq> pk \<and>
        r \<notin> set (bindings_of (bind_oauth pk u now st) u) \<and>
        r' \<in> set (bindings_of (bind_oauth pk u now st) u) \<longrightarrow> oa_bound_at r \<le> oa_bound_at r') \<and>
    (\<forall>r. oa_user r \<noteq> u \<and> oa_pubkey r \<noteq> pk \<longrightarrow>
        (r \<in> set (oauth_authorized (bind_oauth pk u now st)) \<longleftrightarrow> r \<in> set (oauth_authorized st))) \<and>
    oauth_inv (bind_oauth pk u now st)"
proof -
  let ?new = "\<lparr>oa_pubkey = pk, oa_user = u, oa_bound_at = as_i64 now\<rparr>"
  let ?old = "filter (\<lambda>r. oa_pubkey r \<noteq> pk) (oauth_authorized st)"
  let ?rows = "?old @ [?new]"
  let ?best = "newest_bindings u ?rows"
  let ?st = "bind_oauth pk u now st"
  have dr: "distinct (map oa_pubkey ?rows)"
    using assms(1) by (auto simp: oauth_inv_def distinct_map_filter)
  note best = newest_bindings_props [OF dr, where u = u]
  have res: "oauth_authorized ?st =
      filter (\<lambda>r. \<not> (oa_user r = u \<and> oa_pubkey r \<notin> oa_pubkey ` set ?best)) ?rows"
    unfolding bind_oauth_def Let_def by simp
  have of_u: "bindings_of ?st u = filter (\<lambda>r. oa_pubkey r \<in> oa_pubkey ` set ?best) (filter (\<lambda>r. oa_user r = u) ?rows)"
    unfolding bindings_of_def res filter_filter by (rule filter_cong) auto
  have du: "distinct (map oa_pubkey (filter (\<lambda>r. oa_user r = u) ?rows))"
    by (rule distinct_map_filter [OF dr])
  have sub: "set ?best \<subseteq> set (filter (\<lambda>r. oa_user r = u) ?rows)" using best(1) by auto
  have same: "set (bindings_of ?st u) = set ?best" "length (bindings_of ?st u) = length ?best"
    unfolding of_u using length_inj_filter [OF du sub best(2)] by auto
  have top: "?new \<in> set ?best"
  proof -
    have "sort_key oa_bound_at (filter (\<lambda>r. oa_user r = u) ?rows) =
        sort_key oa_bound_at (filter (\<lambda>r. oa_user r = u) ?old) @ [?new]"
      using assms(2) by (simp add: sort_snoc)
    then show ?thesis by (simp add: newest_bindings_def MAX_OAUTH_BINDINGS_PER_USER_def)
  qed
  have pk: "oa_user r = u" if "r \<in> set (oauth_authorized ?st)" "oa_pubkey r = pk" for r
  proof -
    have "r \<in> set ?rows" using that(1) unfolding res by (simp only: set_filter mem_Collect_eq)
    with that(2) show ?thesis by auto
  qed
  have new: "?new \<in> set (oauth_authorized ?st)" using top same(1) by (auto simp: bindings_of_def)
  then have ou: "oauth_user ?st pk = Some u"
  proof -
    from new have "List.find (\<lambda>r. oa_pubkey r = pk) (oauth_authorized ?st) \<noteq> None"
      by (auto simp: find_None_iff)
    then obtain r where "List.find (\<lambda>r. oa_pubkey r = pk) (oauth_authorized ?st) = Some r" by blast
    moreover then have "r \<in> set (oauth_authorized ?st)" "oa_pubkey r = pk"
      by (auto simp: find_Some_iff)
    ultimately show ?thesis using pk by (simp add: oauth_user_def)
  qed
  have older: "oa_bound_at r \<le> oa_bound_at r'"
    if "r \<in> set (bindings_of st u)" "oa_pubkey r \<noteq> pk" "r \<notin> set (bindings_of ?st u)"
      "r' \<in> set (bindings_of ?st u)" for r r'
    by (rule best(4)) (use that same(1) in \<open>auto simp: bindings_of_def\<close>)
  have others: "r \<in> set (oauth_authorized ?st) \<longleftrightarrow> r \<in> set (oauth_authorized st)"
    if "oa_user r \<noteq> u" "oa_pubkey r \<noteq> pk" for r
    using that unfolding res by auto
  have "oauth_inv ?st" unfolding oauth_inv_def res by (rule distinct_map_filter [OF dr])
  with ou older others same(2) best(3) show ?thesis by auto
qed

subsection \<open>Witnesses\<close>

definition demo_key_store :: store where
  "demo_key_store = create_enrollment_key ''unl_1'' 7 (Some 100) empty_store"

lemma demo_key_row:
  "find_key demo_key_store ''unl_1'' =
     Some \<lparr>ek_key = ''unl_1'', ek_user = 7, ek_expires = Some (as_i64 100), ek_used_by = None\<rparr>"
  unfolding demo_key_store_def create_find by (simp add: find_key_def empty_store_def)

lemma demo_key_inv: "key_inv demo_key_store"
  unfolding demo_key_store_def by (rule create_inv) (simp add: key_inv_def empty_store_def)

theorem enrollment_key_single_use_witness:
  "\<exists>s. ek_run (ek_start demo_key_store)
      [Read 1 ''unl_1'' [1], Read 2 ''unl_1'' [2], Claim 2 50, Claim 1 50] s \<and>
    (''unl_1'', [2], 7) \<in> set (es_log s) \<and> (''unl_1'', [1], 7) \<notin> set (es_log s)"
proof -
  let ?row = "\<lparr>ek_key = ''unl_1'', ek_user = 7, ek_expires = Some (as_i64 100), ek_used_by = None\<rparr>"
  let ?s2 = "\<lparr>es_store = demo_key_store, es_pending = [(1, ''unl_1'', [1], ?row), (2, ''unl_1'', [2], ?row)],
              es_log = []\<rparr>"
  have lt: "as_i64 50 < as_i64 100" by (simp add: as_i64_def)
  obtain c1 st1 where c1: "claim_key ''unl_1'' [2] 50 demo_key_store = (c1, st1)" by fastforce
  then have "c1" using claimed_iff [OF demo_key_inv, of "''unl_1''" "[2]" 50] demo_key_row lt
    by (auto simp: claimable_def)
  then have r1: "claim_result c1 ?row [2] = Inr 7" by (simp add: claim_result_def)
  obtain c2 st2 where c2: "claim_key ''unl_1'' [1] 50 st1 = (c2, st2)" by fastforce
  have "find_key st1 ''unl_1'' = Some (?row\<lparr>ek_used_by := Some [2]\<rparr>)"
    using claim_find [of "''unl_1''" "[2]" 50 demo_key_store "''unl_1''"] c1 demo_key_row lt
    by (simp add: claimable_def)
  then have "\<not> c2"
    using claimed_iff [of st1 "''unl_1''" "[1]" 50] claim_inv [OF demo_key_inv, of "''unl_1''" "[2]" 50]
      c1 c2 by (auto simp: claimable_def)
  then have r2: "claim_result c2 ?row [1] = Inl KeyExpired" by (simp add: claim_result_def)
  let ?s3 = "\<lparr>es_store = st1, es_pending = [(1, ''unl_1'', [1], ?row)], es_log = [(''unl_1'', [2], 7)]\<rparr>"
  let ?s4 = "\<lparr>es_store = st2, es_pending = [], es_log = [(''unl_1'', [2], 7)]\<rparr>"
  have "ek_step (ek_start demo_key_store) (Read 1 ''unl_1'' [1])
      \<lparr>es_store = demo_key_store, es_pending = [(1, ''unl_1'', [1], ?row)], es_log = []\<rparr>"
    using ek_step.read [of "ek_start demo_key_store" "''unl_1''" ?row 1 "[1]"] demo_key_row
    by (simp add: ek_start_def tput_def)
  moreover have "ek_step \<lparr>es_store = demo_key_store, es_pending = [(1, ''unl_1'', [1], ?row)], es_log = []\<rparr>
      (Read 2 ''unl_1'' [2]) ?s2"
    using ek_step.read [of "\<lparr>es_store = demo_key_store, es_pending = [(1, ''unl_1'', [1], ?row)], es_log = []\<rparr>"
        "''unl_1''" ?row 2 "[2]"] demo_key_row
    by (simp add: tput_def)
  moreover have "ek_step ?s2 (Claim 2 50) ?s3"
    using ek_step.granted [of ?s2 2 "''unl_1''" "[2]" ?row 50 c1 st1 7] c1 r1
    by (simp add: tget_def tdel_def)
  moreover have "ek_step ?s3 (Claim 1 50) ?s4"
    using ek_step.refused [of ?s3 1 "''unl_1''" "[1]" ?row 50 c2 st2 KeyExpired] c2 r2
    by (simp add: tget_def tdel_def)
  ultimately have run: "ek_run (ek_start demo_key_store)
      [Read 1 ''unl_1'' [1], Read 2 ''unl_1'' [2], Claim 2 50, Claim 1 50] ?s4"
    by (blast intro: ek_run.intros)
  have "(''unl_1'', [2], 7) \<in> set (es_log ?s4)" by simp
  then have "(''unl_1'', [1], 7) \<notin> set (es_log ?s4)"
    using enrollment_key_single_use [OF demo_key_inv run, of "''unl_1''" "[2]" 7 "[1]" 7] by auto
  with run \<open>(''unl_1'', [2], 7) \<in> set (es_log ?s4)\<close> show ?thesis by blast
qed

theorem consume_enrollment_key_spec_witness:
  "fst (consume_enrollment_key ''unl_1'' [1] 50 demo_key_store) = Inr 7 \<and>
   fst (consume_enrollment_key ''unl_1'' [1] 100 demo_key_store) = Inl KeyExpired"
  using consume_enrollment_key_spec [OF demo_key_inv, of "''unl_1''" "[1]" 50]
    consume_enrollment_key_spec [OF demo_key_inv, of "''unl_1''" "[1]" 100] demo_key_row
  by (simp add: as_i64_def)

theorem bind_oauth_spec_witness: "oauth_user (bind_oauth [1] 7 50 empty_store) [1] = Some 7"
proof -
  have "oauth_inv empty_store" by (simp add: oauth_inv_def empty_store_def)
  moreover have "\<forall>r\<in>set (oauth_authorized empty_store). oa_bound_at r \<le> as_i64 50"
    by (simp add: empty_store_def)
  ultimately show ?thesis using bind_oauth_spec by blast
qed

end
