(* ===== verification/Limiter.thy ===== *)
theory Limiter
  imports Table
begin

section \<open>Rate limiting: \<open>limiter.rs\<close>, \<open>api/ratelimit.rs\<close>, \<open>stun.rs\<close>\<close>

text \<open>
  The windowed counter both unauthenticated surfaces share, their caps, and the choice of the
  address a request is counted under. An \<open>Instant\<close> is a natural number of nanoseconds, whose
  subtraction saturates as \<open>duration_since\<close> does.
\<close>

subsection \<open>Addresses\<close>

datatype ip = V4 u32 | V6 "128 word"

record sockaddr =
  sa_ip :: ip
  sa_port :: u16

subsection \<open>The counter\<close>

record caps =
  cap_window :: nat
  max_per_ip :: u32
  max_total :: u32
  max_tracked_ips :: nat

record counter =
  wc_caps :: caps
  window_start :: nat
  wc_total :: u32
  per_ip :: "(ip, u32) hmap"

definition new_counter :: "caps \<Rightarrow> nat \<Rightarrow> counter" where
  "new_counter c now = \<lparr>wc_caps = c, window_start = now, wc_total = 0, per_ip = []\<rparr>"

definition roll_window :: "nat \<Rightarrow> counter \<Rightarrow> counter" where
  "roll_window now w =
     (if cap_window (wc_caps w) \<le> now - window_start w
      then w\<lparr>window_start := now, wc_total := 0, per_ip := []\<rparr> else w)"

definition allow :: "ip \<Rightarrow> nat \<Rightarrow> counter \<Rightarrow> bool \<times> counter" where
  "allow a now w0 =
     (let w = roll_window now w0; c = wc_caps w
      in if max_total c \<le> wc_total w then (False, w)
         else case tget (per_ip w) a of
           Some count \<Rightarrow>
             if max_per_ip c \<le> count then (False, w)
             else (True, w\<lparr>per_ip := tput a (count + 1) (per_ip w), wc_total := wc_total w + 1\<rparr>)
         | None \<Rightarrow>
             if max_tracked_ips c \<le> length (per_ip w) then (False, w)
             else (True, w\<lparr>per_ip := tput a 1 (per_ip w), wc_total := wc_total w + 1\<rparr>))"

text \<open>The caps of the two callers.\<close>

definition RL_CAPS :: caps where
  "RL_CAPS = \<lparr>cap_window = 10 ^ 9, max_per_ip = 30, max_total = 500, max_tracked_ips = 65536\<rparr>"

definition STUN_CAPS :: caps where
  "STUN_CAPS = \<lparr>cap_window = 10 ^ 9, max_per_ip = 20, max_total = 2000, max_tracked_ips = 4096\<rparr>"

definition new_limiter :: "nat \<Rightarrow> counter" where
  "new_limiter now = new_counter RL_CAPS now"

subsection \<open>The address a request is counted under\<close>

text \<open>
  \<open>parse\<close> is \<open>trim\<close> followed by \<open>IpAddr::from_str\<close>; \<open>contains\<close> is \<open>IpNet::contains\<close>
  (crate \<open>ipnet\<close>). The header is absent, or its comma-separated fields in order.
\<close>

definition is_trusted :: "('n \<Rightarrow> ip \<Rightarrow> bool) \<Rightarrow> 'n list \<Rightarrow> ip \<Rightarrow> bool" where
  "is_trusted contains trusted a \<longleftrightarrow> (\<exists>n\<in>set trusted. contains n a)"

definition client_ip ::
  "('n \<Rightarrow> ip \<Rightarrow> bool) \<Rightarrow> (string \<Rightarrow> ip option) \<Rightarrow> ip \<Rightarrow> string list option \<Rightarrow> 'n list \<Rightarrow> ip" where
  "client_ip contains parse peer forwarded trusted =
     (if \<not> is_trusted contains trusted peer then peer
      else case forwarded of
        None \<Rightarrow> peer
      | Some entries \<Rightarrow>
          (case List.find (\<lambda>a. \<not> is_trusted contains trusted a) (List.map_filter parse (rev entries)) of
             None \<Rightarrow> peer
           | Some a \<Rightarrow> a))"

text \<open>The middleware: \<open>None\<close> is the \<open>429\<close> answer.\<close>

definition rate_limit ::
  "('n \<Rightarrow> ip \<Rightarrow> bool) \<Rightarrow> (string \<Rightarrow> ip option) \<Rightarrow> ip option \<Rightarrow> string list option \<Rightarrow> 'n list \<Rightarrow> nat \<Rightarrow>
   (unit \<Rightarrow> 'r) \<Rightarrow> counter \<Rightarrow> 'r option \<times> counter" where
  "rate_limit contains parse connect_info forwarded trusted now next_handler w =
     (let peer = (case connect_info of Some a \<Rightarrow> a | None \<Rightarrow> V4 0);
          a = client_ip contains parse peer forwarded trusted;
          (admit, w') = allow a now w
      in (if admit then Some (next_handler ()) else None, w'))"

subsection \<open>Admissions, window by window\<close>

text \<open>
  A run of requests and the log of the admitted ones, each with the start of the window it was
  counted in.
\<close>

fun serve :: "(ip \<times> nat) list \<Rightarrow> counter \<Rightarrow> (nat \<times> ip) list \<Rightarrow> counter \<times> (nat \<times> ip) list" where
  "serve [] w admitted = (w, admitted)"
| "serve ((a, now) # reqs) w admitted =
     (let (ok, w') = allow a now w
      in serve reqs w' (if ok then (window_start w', a) # admitted else admitted))"

definition in_window :: "nat \<Rightarrow> (nat \<times> ip) list \<Rightarrow> ip list" where
  "in_window s admitted = map snd (filter (\<lambda>x. fst x = s) admitted)"

definition within :: "caps \<Rightarrow> ip list \<Rightarrow> bool" where
  "within c ips \<longleftrightarrow> length ips \<le> unat (max_total c) \<and>
     (\<forall>a. count_list ips a \<le> unat (max_per_ip c)) \<and> card (set ips) \<le> max_tracked_ips c"

definition wc_inv :: "caps \<Rightarrow> counter \<Rightarrow> (nat \<times> ip) list \<Rightarrow> bool" where
  "wc_inv c w admitted \<longleftrightarrow> wc_caps w = c \<and> tok (per_ip w) \<and>
     (\<forall>x\<in>set admitted. fst x \<le> window_start w) \<and>
     (\<forall>s. within c (in_window s admitted)) \<and>
     unat (wc_total w) = length (in_window (window_start w) admitted) \<and>
     (\<forall>a. count_list (in_window (window_start w) admitted) a =
        (case tget (per_ip w) a of None \<Rightarrow> 0 | Some n \<Rightarrow> unat n)) \<and>
     set (tkeys (per_ip w)) = set (in_window (window_start w) admitted)"

lemma in_window_Cons:
  "in_window s ((s', a) # adm) = (if s' = s then a # in_window s adm else in_window s adm)"
  by (simp add: in_window_def)

lemma unat_inc: "(n :: u32) < m \<Longrightarrow> unat (n + 1) = Suc (unat n)"
proof -
  assume "n < m"
  then have "unat n < unat m" by (simp add: word_less_nat_alt)
  moreover have "unat m < 2 ^ 32" using unsigned_less [of m, where ?'a = nat] by simp
  ultimately show ?thesis by (simp add: unat_word_ariths)
qed

lemma length_tkeys: "tok m \<Longrightarrow> length m = card (set (tkeys m))"
  by (metis distinct_card length_map tkeys_def tok_distinct_tkeys)

text \<open>The contract of caps that limit anything: a window that passes, and one request per source.\<close>

locale admission =
  fixes c :: caps
  assumes window_pos: "0 < cap_window c"
    and per_ip_pos: "0 < unat (max_per_ip c)"
begin

lemma roll_inv:
  assumes "wc_inv c w adm"
  shows "wc_inv c (roll_window now w) adm"
proof (cases "cap_window (wc_caps w) \<le> now - window_start w")
  case True
  have "wc_caps w = c" using assms by (simp add: wc_inv_def)
  with True window_pos have lt: "window_start w < now" by auto
  have "in_window now adm = []"
    using assms lt unfolding in_window_def wc_inv_def by (auto simp: filter_empty_conv)
  with assms lt True show ?thesis
    by (fastforce simp: wc_inv_def roll_window_def tkeys_def)
qed (use assms in \<open>simp add: roll_window_def\<close>)

lemma allow_step:
  assumes "wc_inv c w0 adm" and "allow a now w0 = (ok, w)"
  shows "wc_inv c w (if ok then (window_start w, a) # adm else adm) \<and>
    (ok \<longleftrightarrow> within c (a # in_window (window_start w) adm))"
proof -
  define w1 where "w1 = roll_window now w0"
  define cur where "cur = in_window (window_start w1) adm"
  have inv: "wc_inv c w1 adm" unfolding w1_def by (rule roll_inv [OF assms(1)])
  have caps: "wc_caps w1 = c" and tk: "tok (per_ip w1)"
    and tot: "unat (wc_total w1) = length cur"
    and cnt: "\<And>b. count_list cur b = (case tget (per_ip w1) b of None \<Rightarrow> 0 | Some n \<Rightarrow> unat n)"
    and keys: "set (tkeys (per_ip w1)) = set cur"
    and cur: "within c cur"
    using inv by (auto simp: wc_inv_def cur_def)
  have len: "length (per_ip w1) = card (set cur)" using length_tkeys [OF tk] keys by simp
  have mem: "a \<in> set cur \<longleftrightarrow> tget (per_ip w1) a \<noteq> None" using keys by (auto simp: set_tkeys)
  have wit: "within c (a # cur) \<longleftrightarrow> unat (wc_total w1) < unat (max_total c) \<and>
      (case tget (per_ip w1) a of
         Some n \<Rightarrow> unat n < unat (max_per_ip c)
       | None \<Rightarrow> card (set cur) < max_tracked_ips c)"
    using cur cnt [of a] mem tot per_ip_pos unfolding within_def
    by (auto simp: Suc_le_eq insert_absorb card_insert_if split: option.splits)
  show ?thesis
  proof (cases "within c (a # cur)")
    case False
    then have "ok = False \<and> w = w1"
      using assms(2) wit caps len
      by (auto simp: allow_def Let_def w1_def [symmetric] word_le_nat_alt split: option.splits if_splits)
    with inv False show ?thesis by (simp add: cur_def)
  next
    case True
    define n where "n = (case tget (per_ip w1) a of None \<Rightarrow> 1 | Some n \<Rightarrow> n + 1)"
    have w: "ok \<and> w = w1\<lparr>per_ip := tput a n (per_ip w1), wc_total := wc_total w1 + 1\<rparr>"
      using assms(2) wit True caps len
      by (auto simp: allow_def Let_def w1_def [symmetric] word_le_nat_alt n_def split: option.splits if_splits)
    have n: "unat n = Suc (count_list cur a)"
      using wit True cnt [of a] unat_inc [of _ "max_per_ip c"]
      by (auto simp: n_def word_less_nat_alt split: option.splits)
    have t: "unat (wc_total w1 + 1) = Suc (length cur)"
      using wit True tot unat_inc [of "wc_total w1" "max_total c"] by (simp add: word_less_nat_alt)
    have "within c (in_window s ((window_start w1, a) # adm))" for s
      using inv True by (auto simp: in_window_Cons cur_def wc_inv_def)
    with w n t inv cnt keys True show ?thesis
      by (auto simp: wc_inv_def in_window_Cons cur_def [symmetric] set_tkeys split: if_splits)
  qed
qed

lemma serve_inv:
  "wc_inv c w adm \<Longrightarrow> serve reqs w adm = (w', adm') \<Longrightarrow> wc_inv c w' adm'"
proof (induction reqs arbitrary: w adm)
  case (Cons r reqs)
  obtain a now ok w1 where r: "r = (a, now)" "allow a now w = (ok, w1)"
    by (metis surj_pair)
  with Cons allow_step [OF Cons.prems(1) r(2)] show ?case by (auto split: if_splits)
qed simp

lemma new_inv: "wc_inv c (new_counter c now) []"
  by (simp add: wc_inv_def new_counter_def in_window_def within_def tkeys_def)

lemma table_bounded: "wc_inv c w adm \<Longrightarrow> length (per_ip w) \<le> max_tracked_ips c"
  using length_tkeys [of "per_ip w"] by (auto simp: wc_inv_def within_def)

lemma decides:
  assumes "serve reqs (new_counter c t0) [] = (w, adm)" and "allow a now w = (ok, w')"
  shows "ok \<longleftrightarrow> within c (a # in_window (window_start w') adm)"
  using allow_step [OF serve_inv [OF new_inv assms(1)] assms(2)] by simp

end

interpretation http: admission RL_CAPS
  by unfold_locales (simp_all add: RL_CAPS_def)

interpretation stun: admission STUN_CAPS
  by unfold_locales (simp_all add: STUN_CAPS_def)

text \<open>
  Whatever requests arrived, from however many claimed sources: the API admitted at most 500 in
  any window, at most 30 from one source, and its table never exceeds 65536 rows; for the
  STUN responder the numbers are 2000, 20 and 4096. And nothing else is refused: a request is
  admitted exactly when its window stays within the three caps with it.\<close>

theorem rate_limit_caps:
  assumes "serve reqs (new_limiter t0) [] = (w, adm)" and "allow a now w = (ok, w')"
    and "serve reqs2 (new_counter STUN_CAPS t1) [] = (u, adm2)" and "allow a now2 u = (ok2, u')"
  shows "(\<forall>s. length (in_window s adm) \<le> 500 \<and> (\<forall>b. count_list (in_window s adm) b \<le> 30)) \<and>
    length (per_ip w) \<le> 65536 \<and>
    (ok \<longleftrightarrow> within RL_CAPS (a # in_window (window_start w') adm)) \<and>
    (\<forall>s. length (in_window s adm2) \<le> 2000 \<and> (\<forall>b. count_list (in_window s adm2) b \<le> 20)) \<and>
    length (per_ip u) \<le> 4096 \<and>
    (ok2 \<longleftrightarrow> within STUN_CAPS (a # in_window (window_start u') adm2))"
proof -
  have r: "serve reqs (new_counter RL_CAPS t0) [] = (w, adm)"
    using assms(1) by (simp add: new_limiter_def)
  have i1: "wc_inv RL_CAPS w adm" by (rule http.serve_inv [OF http.new_inv r])
  have i2: "wc_inv STUN_CAPS u adm2" by (rule stun.serve_inv [OF stun.new_inv assms(3)])
  have "within RL_CAPS (in_window s adm)" "within STUN_CAPS (in_window s adm2)" for s
    using i1 i2 by (auto simp: wc_inv_def)
  then show ?thesis
    using http.table_bounded [OF i1] stun.table_bounded [OF i2] http.decides [OF r assms(2)]
      stun.decides [OF assms(3,4)]
    by (simp add: within_def RL_CAPS_def STUN_CAPS_def)
qed

text \<open>
  A peer that is not a configured proxy is counted under its own address whatever headers it
  sends; behind a proxy the address is the rightmost parseable entry that is not itself a
  proxy, so that whatever a client writes to the left of it changes nothing; and with none
  there is the proxy's own address is used.\<close>

theorem client_ip_spec:
  shows "(\<not> is_trusted con tr peer \<longrightarrow> client_ip con parse peer fwd tr = peer) \<and>
    (is_trusted con tr peer \<and> parse e = Some a \<and> \<not> is_trusted con tr a \<and>
       (\<forall>x\<in>set right. \<forall>b. parse x = Some b \<longrightarrow> is_trusted con tr b) \<longrightarrow>
     client_ip con parse peer (Some (left @ e # right)) tr = a) \<and>
    (is_trusted con tr peer \<and>
       (\<forall>x\<in>set ents. \<forall>b. parse x = Some b \<longrightarrow> is_trusted con tr b) \<longrightarrow>
     client_ip con parse peer (Some ents) tr = peer)"
proof -
  have skip: "List.find (\<lambda>a. \<not> is_trusted con tr a) (List.map_filter parse (xs @ ys)) =
      List.find (\<lambda>a. \<not> is_trusted con tr a) (List.map_filter parse ys)"
    if "\<forall>x\<in>set xs. \<forall>b. parse x = Some b \<longrightarrow> is_trusted con tr b" for xs ys
    using that by (induction xs) (auto simp: map_filter_simps split: option.splits)
  have none: "List.find (\<lambda>a. \<not> is_trusted con tr a) (List.map_filter parse (rev xs)) = None"
    if "\<forall>x\<in>set xs. \<forall>b. parse x = Some b \<longrightarrow> is_trusted con tr b" for xs
    using skip [of "rev xs" "[]"] that by (simp add: map_filter_simps)
  have hit: "List.find (\<lambda>a. \<not> is_trusted con tr a) (List.map_filter parse (rev right @ e # rev left)) = Some a"
    if "parse e = Some a" "\<not> is_trusted con tr a"
      "\<forall>x\<in>set right. \<forall>b. parse x = Some b \<longrightarrow> is_trusted con tr b"
    using skip [of "rev right" "e # rev left"] that by (simp add: map_filter_simps)
  show ?thesis by (auto simp: client_ip_def hit none)
qed

theorem rate_limit_caps_witness:
  "length (in_window 0 (snd (serve [(V4 1, 5), (V4 2, 6)] (new_limiter 0) []))) \<le> 500"
proof -
  obtain w adm where r: "serve [(V4 1, 5), (V4 2, 6)] (new_limiter 0) [] = (w, adm)" by fastforce
  obtain ok w' where a: "allow (V4 1) 7 w = (ok, w')" by fastforce
  obtain u adm2 where r2: "serve [(V4 1, 5)] (new_counter STUN_CAPS 0) [] = (u, adm2)" by fastforce
  obtain ok2 u' where a2: "allow (V4 1) 7 u = (ok2, u')" by fastforce
  from rate_limit_caps [OF r a r2 a2] r show ?thesis by simp
qed

theorem client_ip_spec_witness:
  "client_ip (=) (\<lambda>s. if s = ''c'' then Some (V4 9) else Some (V4 1)) (V4 1)
     (Some [''x'', ''c'', ''p'']) [V4 1] = V4 9"
  using client_ip_spec [where con = "(=)" and tr = "[V4 1]" and peer = "V4 1"
      and parse = "\<lambda>s. if s = ''c'' then Some (V4 9) else Some (V4 1)" and e = "''c''" and a = "V4 9"
      and right = "[''p'']" and left = "[''x'']"]
  by (simp add: is_trusted_def)

end
