(* ===== verification/Versions.thy ===== *)
theory Versions
  imports Table
begin

section \<open>Scoped membership versions: \<open>crates/coordinator/src/versions.rs\<close>\<close>

text \<open>
  One counter per scope and one for the deployment. The version a client holds is a hash over
  the counters of its own scopes; the hasher is a parameter (\<open>hash\<close>), applied to the sequence
  of scope and counter the code feeds it.
\<close>

datatype scope = Guild u64 | User u64

text \<open>The derived order: variants in declaration order, then the id.\<close>

fun scope_rank :: "scope \<Rightarrow> nat \<times> nat" where
  "scope_rank (Guild g) = (0, unat g)"
| "scope_rank (User u) = (1, unat u)"

lemma scope_rank_inj: "scope_rank a = scope_rank b \<longleftrightarrow> a = b"
  by (cases a; cases b) (auto simp: word_unat_eq_iff)

instantiation scope :: linorder
begin

definition less_eq_scope :: "scope \<Rightarrow> scope \<Rightarrow> bool" where
  "less_eq_scope a b \<longleftrightarrow> fst (scope_rank a) < fst (scope_rank b) \<or>
     fst (scope_rank a) = fst (scope_rank b) \<and> snd (scope_rank a) \<le> snd (scope_rank b)"

definition less_scope :: "scope \<Rightarrow> scope \<Rightarrow> bool" where
  "less_scope a b \<longleftrightarrow> a \<le> b \<and> \<not> b \<le> (a :: scope)"

instance
proof
  fix a b c :: scope
  show "a \<le> a" by (simp add: less_eq_scope_def)
  show "a \<le> b \<or> b \<le> a" by (auto simp: less_eq_scope_def)
  show "a \<le> b \<Longrightarrow> b \<le> c \<Longrightarrow> a \<le> c" by (auto simp: less_eq_scope_def)
  show "a \<le> b \<Longrightarrow> b \<le> a \<Longrightarrow> a = b"
    by (auto simp: less_eq_scope_def scope_rank_inj [symmetric] prod_eq_iff)
  show "(a < b) = (a \<le> b \<and> \<not> b \<le> a)" by (simp add: less_scope_def)
qed

end

record versions =
  v_scopes :: "(scope, u64) hmap"
  v_global :: u64

definition no_versions :: versions where
  "no_versions = \<lparr>v_scopes = [], v_global = 0\<rparr>"

definition counter_of :: "versions \<Rightarrow> scope \<Rightarrow> u64" where
  "counter_of v s = (case tget (v_scopes v) s of None \<Rightarrow> 0 | Some n \<Rightarrow> n)"

text \<open>\<open>sender(s).send_modify(|v| *v += 1)\<close>: the counter is created at 0 on first use.\<close>

definition bump_one :: "scope \<Rightarrow> versions \<Rightarrow> versions" where
  "bump_one s v = v\<lparr>v_scopes := tput s (counter_of v s + 1) (v_scopes v)\<rparr>"

definition bump_all :: "scope list \<Rightarrow> versions \<Rightarrow> versions" where
  "bump_all ss v =
     (let v' = fold bump_one ss v in if ss = [] then v' else v'\<lparr>v_global := v_global v' + 1\<rparr>)"

definition bump :: "scope \<Rightarrow> versions \<Rightarrow> versions" where
  "bump s = bump_all [s]"

text \<open>What \<open>aggregate\<close> hashes, and the aggregate.\<close>

definition ledger :: "versions \<Rightarrow> scope set \<Rightarrow> (scope \<times> u64) list" where
  "ledger v scopes = map (\<lambda>s. (s, counter_of v s)) (sorted_list_of_set scopes)"

definition aggregate :: "((scope \<times> u64) list \<Rightarrow> u64) \<Rightarrow> versions \<Rightarrow> scope set \<Rightarrow> u64" where
  "aggregate hash v scopes = hash (ledger v scopes)"

subsection \<open>Lemmas\<close>

lemma counter_bump_one: "counter_of (bump_one s v) t = (if t = s then counter_of v s + 1 else counter_of v t)"
  by (simp add: counter_of_def bump_one_def)

lemma counter_fold: "counter_of (fold bump_one ss v) t = counter_of v t + of_nat (count_list ss t)"
  by (induction ss arbitrary: v) (auto simp: counter_bump_one)

lemma counter_bump_all: "counter_of (bump_all ss v) t = counter_of v t + of_nat (count_list ss t)"
proof -
  have "counter_of (v\<lparr>v_global := n\<rparr>) t = counter_of v t" for v :: versions and n
    by (simp add: counter_of_def)
  then show ?thesis by (simp add: bump_all_def Let_def counter_fold)
qed

lemma bump_all_other: "t \<notin> set ss \<Longrightarrow> counter_of (bump_all ss v) t = counter_of v t"
  by (simp add: counter_bump_all count_list_0_iff)

lemma bump_all_once: "distinct ss \<Longrightarrow> t \<in> set ss \<Longrightarrow> counter_of (bump_all ss v) t = counter_of v t + 1"
proof -
  assume "distinct ss" "t \<in> set ss"
  then have "count_list ss t = 1" by (induction ss) (auto simp: count_list_0_iff)
  then show ?thesis by (simp add: counter_bump_all)
qed

lemma ledger_eq:
  assumes "finite a" and "finite b"
  shows "ledger v a = ledger v' b \<longleftrightarrow> a = b \<and> (\<forall>s\<in>a. counter_of v s = counter_of v' s)"
proof
  assume eq: "ledger v a = ledger v' b"
  then have "map fst (ledger v a) = map fst (ledger v' b)" by simp
  then have "sorted_list_of_set a = sorted_list_of_set b" by (simp add: ledger_def o_def)
  then have ab: "a = b" by (metis assms set_sorted_list_of_set)
  with eq have "\<forall>s\<in>set (sorted_list_of_set a). counter_of v s = counter_of v' s"
    by (simp add: ledger_def)
  with ab assms show "a = b \<and> (\<forall>s\<in>a. counter_of v s = counter_of v' s)" by simp
qed (use assms in \<open>auto simp: ledger_def\<close>)

lemma word_inc_neq: "(n :: u64) + 1 \<noteq> n"
  by simp

end
