(* ===== verification/Presence.thy ===== *)
theory Presence
  imports Versions Netid Limiter Proto
begin

section \<open>Presence: \<open>crates/coordinator/src/presence.rs\<close>\<close>

text \<open>
  Which devices are registered in each network, and which are online for their own user. The
  operations report whether they changed anything; the caller bumps the matching scope.
\<close>

record member_presence =
  mp_pubkey :: key
  mp_ip :: ipv4
  mp_user_id :: u64
  mp_username :: string
  mp_device_name :: string
  mp_is_primary :: bool
  mp_endpoint :: "sockaddr option"

record pentry =
  e_p :: member_presence
  e_last_seen :: u64
  e_client_version :: string

record presence =
  pr_map :: "(u64 \<times> u64 \<times> key, pentry) hmap"
  pr_self :: "(u64 \<times> key, pentry) hmap"

definition no_presence :: presence where
  "no_presence = \<lparr>pr_map = [], pr_self = []\<rparr>"

definition record_in ::
  "'k \<Rightarrow> member_presence \<Rightarrow> string \<Rightarrow> u64 \<Rightarrow> ('k, pentry) hmap \<Rightarrow> bool \<times> ('k, pentry) hmap" where
  "record_in k p cv now m =
     (map_option e_p (tget m k) \<noteq> Some p,
      tput k \<lparr>e_p = p, e_last_seen = now, e_client_version = cv\<rparr> m)"

definition record_presence ::
  "u64 \<Rightarrow> u64 \<Rightarrow> member_presence \<Rightarrow> string \<Rightarrow> u64 \<Rightarrow> presence \<Rightarrow> bool \<times> presence" where
  "record_presence g r p cv now s =
     (let (changed, m) = record_in (g, r, mp_pubkey p) p cv now (pr_map s)
      in (changed, s\<lparr>pr_map := m\<rparr>))"

definition record_self ::
  "u64 \<Rightarrow> member_presence \<Rightarrow> string \<Rightarrow> u64 \<Rightarrow> presence \<Rightarrow> bool \<times> presence" where
  "record_self u p cv now s =
     (let (changed, m) = record_in (u, mp_pubkey p) p cv now (pr_self s)
      in (changed, s\<lparr>pr_self := m\<rparr>))"

definition present_pubkeys :: "presence \<Rightarrow> key list" where
  "present_pubkeys s =
     remdups (map (\<lambda>(g, r, pk). pk) (tkeys (pr_map s)) @ map snd (tkeys (pr_self s)))"

definition evict_self :: "u64 \<Rightarrow> key \<Rightarrow> presence \<Rightarrow> bool \<times> presence" where
  "evict_self u pk s =
     (tget (pr_self s) (u, pk) \<noteq> None, s\<lparr>pr_self := tdel (u, pk) (pr_self s)\<rparr>)"

definition others_of_user :: "u64 \<Rightarrow> key \<Rightarrow> presence \<Rightarrow> member_presence list" where
  "others_of_user u me s =
     map (\<lambda>(k, e). e_p e) (filter (\<lambda>((uid, pk), e). uid = u \<and> pk \<noteq> me) (pr_self s))"

definition fresh_entry :: "u64 \<Rightarrow> u64 \<Rightarrow> pentry \<Rightarrow> bool" where
  "fresh_entry now max_age e \<longleftrightarrow> sat_sub now (e_last_seen e) \<le> max_age"

text \<open>The set of changed scopes is the list of the dropped entries' scopes.\<close>

definition reap :: "u64 \<Rightarrow> u64 \<Rightarrow> presence \<Rightarrow> scope list \<times> presence" where
  "reap now max_age s =
     (let fresh = fresh_entry now max_age;
          gone = filter (\<lambda>(k, e). \<not> fresh e) (pr_map s);
          gone_self = filter (\<lambda>(k, e). \<not> fresh e) (pr_self s)
      in (remdups (map (\<lambda>((g, r, pk), e). Guild g) gone @ map (\<lambda>((u, pk), e). User u) gone_self),
          s\<lparr>pr_map := tkeep (\<lambda>k e. fresh e) (pr_map s),
             pr_self := tkeep (\<lambda>k e. fresh e) (pr_self s)\<rparr>))"

definition networks_of :: "key \<Rightarrow> presence \<Rightarrow> (u64 \<times> u64) list" where
  "networks_of pk s =
     map (\<lambda>(g, r, k). (g, r)) (filter (\<lambda>(g, r, k). k = pk) (tkeys (pr_map s)))"

definition evict :: "u64 \<Rightarrow> u64 \<Rightarrow> key \<Rightarrow> presence \<Rightarrow> bool \<times> presence" where
  "evict g r pk s =
     (tget (pr_map s) (g, r, pk) \<noteq> None, s\<lparr>pr_map := tdel (g, r, pk) (pr_map s)\<rparr>)"

definition evict_user :: "u64 \<Rightarrow> u64 \<Rightarrow> u64 \<Rightarrow> presence \<Rightarrow> bool \<times> presence" where
  "evict_user g r u s =
     (let m = tkeep (\<lambda>(g', r', pk) e. \<not> (g' = g \<and> r' = r \<and> mp_user_id (e_p e) = u)) (pr_map s)
      in (length m \<noteq> length (pr_map s), s\<lparr>pr_map := m\<rparr>))"

definition others_in :: "u64 \<Rightarrow> u64 \<Rightarrow> key \<Rightarrow> presence \<Rightarrow> member_presence list" where
  "others_in g r me s =
     map (\<lambda>(k, e). e_p e)
       (filter (\<lambda>((g', r', pk), e). g' = g \<and> r' = r \<and> pk \<noteq> me) (pr_map s))"

definition membership :: "presence \<Rightarrow> (u64 \<times> u64 \<times> u64) set" where
  "membership s = (\<lambda>((g, r, pk), e). (g, r, mp_user_id (e_p e))) ` set (pr_map s)"

record presence_stats =
  ps_online :: "u64 \<times> u64 \<Rightarrow> nat"
  ps_users :: "u64 \<times> u64 \<Rightarrow> nat"
  ps_devices :: nat
  ps_online_users :: nat
  ps_off_network :: nat

text \<open>\<open>stats\<close>, less the tally of client versions.\<close>

definition stats :: "presence \<Rightarrow> presence_stats" where
  "stats s =
     (let net = (\<lambda>((g, r, pk), e). pk) ` set (pr_map s);
          own = (\<lambda>((u, pk), e). pk) ` set (pr_self s)
      in \<lparr>ps_online = (\<lambda>(g, r). length (filter (\<lambda>((g', r', pk), e). g' = g \<and> r' = r) (pr_map s))),
          ps_users = (\<lambda>(g, r). card ((\<lambda>((g', r', pk), e). mp_user_id (e_p e)) `
                        {x \<in> set (pr_map s). fst (fst x) = g \<and> fst (snd (fst x)) = r})),
          ps_devices = card (net \<union> own),
          ps_online_users = card ((\<lambda>(k, e). mp_user_id (e_p e)) ` set (pr_map s) \<union>
                                  (\<lambda>((u, pk), e). u) ` set (pr_self s)),
          ps_off_network = card (own - net)\<rparr>)"

subsection \<open>What a scope sees\<close>

definition presence_ok :: "presence \<Rightarrow> bool" where
  "presence_ok s \<longleftrightarrow> tok (pr_map s) \<and> tok (pr_self s) \<and>
     (\<forall>g r pk e. tget (pr_map s) (g, r, pk) = Some e \<longrightarrow> mp_pubkey (e_p e) = pk) \<and>
     (\<forall>u pk e. tget (pr_self s) (u, pk) = Some e \<longrightarrow> mp_pubkey (e_p e) = pk)"

definition guild_view :: "presence \<Rightarrow> u64 \<Rightarrow> u64 \<Rightarrow> key \<Rightarrow> member_presence option" where
  "guild_view s g r pk = map_option e_p (tget (pr_map s) (g, r, pk))"

definition user_view :: "presence \<Rightarrow> u64 \<Rightarrow> key \<Rightarrow> member_presence option" where
  "user_view s u pk = map_option e_p (tget (pr_self s) (u, pk))"

fun scope_view :: "presence \<Rightarrow> scope \<Rightarrow> (u64 \<times> key \<Rightarrow> member_presence option)" where
  "scope_view s (Guild g) = (\<lambda>(r, pk). guild_view s g r pk)"
| "scope_view s (User u) = (\<lambda>(r, pk). user_view s u pk)"

definition when_changed :: "bool \<Rightarrow> scope \<Rightarrow> scope list" where
  "when_changed b s = (if b then [s] else [])"

text \<open>
  The contract every operation has with its callers: the scopes it reports are distinct, and a
  scope it does not report sees exactly what it saw. From it, once: a client whose view of any
  of its scopes changed finds its version changed after the report is bumped, and a client none
  of whose scopes is reported keeps its version.
\<close>

locale scoped_op =
  fixes op :: "presence \<Rightarrow> scope list \<times> presence"
  assumes reports: "presence_ok s \<Longrightarrow> t \<notin> set (fst (op s)) \<Longrightarrow>
        scope_view (snd (op s)) t = scope_view s t"
    and keeps_ok: "presence_ok s \<Longrightarrow> presence_ok (snd (op s))"
    and no_dups: "distinct (fst (op s))"
begin

lemma wakes:
  assumes "presence_ok s" and "finite subs" and "t \<in> subs"
    and "scope_view (snd (op s)) t \<noteq> scope_view s t"
  shows "ledger (bump_all (fst (op s)) v) subs \<noteq> ledger v subs"
proof -
  have "t \<in> set (fst (op s))" using reports [OF assms(1)] assms(4) by blast
  from bump_all_once [OF no_dups this, of v]
  have "counter_of (bump_all (fst (op s)) v) t \<noteq> counter_of v t" by simp
  with assms(2,3) show ?thesis using ledger_eq by blast
qed

lemma stays_parked:
  assumes "finite subs" and "set (fst (op s)) \<inter> subs = {}"
  shows "aggregate hash (bump_all (fst (op s)) v) subs = aggregate hash v subs"
proof -
  have "\<forall>t\<in>subs. counter_of (bump_all (fst (op s)) v) t = counter_of v t"
    using assms(2) bump_all_other by blast
  then have "ledger (bump_all (fst (op s)) v) subs = ledger v subs"
    using ledger_eq [OF assms(1) assms(1)] by blast
  then show ?thesis by (simp add: aggregate_def)
qed

end

subsection \<open>The operations, with the scopes their callers bump\<close>

definition op_record :: "u64 \<Rightarrow> u64 \<Rightarrow> member_presence \<Rightarrow> string \<Rightarrow> u64 \<Rightarrow> presence \<Rightarrow> scope list \<times> presence" where
  "op_record g r p cv now s =
     (let (b, s') = record_presence g r p cv now s in (when_changed b (Guild g), s'))"
definition op_record_self :: "u64 \<Rightarrow> member_presence \<Rightarrow> string \<Rightarrow> u64 \<Rightarrow> presence \<Rightarrow> scope list \<times> presence" where
  "op_record_self u p cv now s =
     (let (b, s') = record_self u p cv now s in (when_changed b (User u), s'))"
definition op_evict :: "u64 \<Rightarrow> u64 \<Rightarrow> key \<Rightarrow> presence \<Rightarrow> scope list \<times> presence" where
  "op_evict g r pk s = (let (b, s') = evict g r pk s in (when_changed b (Guild g), s'))"
definition op_evict_self :: "u64 \<Rightarrow> key \<Rightarrow> presence \<Rightarrow> scope list \<times> presence" where
  "op_evict_self u pk s = (let (b, s') = evict_self u pk s in (when_changed b (User u), s'))"
definition op_evict_user :: "u64 \<Rightarrow> u64 \<Rightarrow> u64 \<Rightarrow> presence \<Rightarrow> scope list \<times> presence" where
  "op_evict_user g r u s = (let (b, s') = evict_user g r u s in (when_changed b (Guild g), s'))"

lemma op_record_eq:
  "op_record g r p cv now s =
     (when_changed (guild_view s g r (mp_pubkey p) \<noteq> Some p) (Guild g),
      s\<lparr>pr_map := tput (g, r, mp_pubkey p) \<lparr>e_p = p, e_last_seen = now, e_client_version = cv\<rparr> (pr_map s)\<rparr>)"
  by (simp add: op_record_def record_presence_def record_in_def guild_view_def)

lemma op_record_self_eq:
  "op_record_self u p cv now s =
     (when_changed (user_view s u (mp_pubkey p) \<noteq> Some p) (User u),
      s\<lparr>pr_self := tput (u, mp_pubkey p) \<lparr>e_p = p, e_last_seen = now, e_client_version = cv\<rparr> (pr_self s)\<rparr>)"
  by (simp add: op_record_self_def record_self_def record_in_def user_view_def)

lemma op_evict_eq:
  "op_evict g r pk s =
     (when_changed (guild_view s g r pk \<noteq> None) (Guild g), s\<lparr>pr_map := tdel (g, r, pk) (pr_map s)\<rparr>)"
  by (simp add: op_evict_def evict_def guild_view_def)

lemma op_evict_self_eq:
  "op_evict_self u pk s =
     (when_changed (user_view s u pk \<noteq> None) (User u), s\<lparr>pr_self := tdel (u, pk) (pr_self s)\<rparr>)"
  by (simp add: op_evict_self_def evict_self_def user_view_def)

lemma op_evict_user_eq:
  "op_evict_user g r u s =
     (let m = tkeep (\<lambda>(g', r', pk) e. \<not> (g' = g \<and> r' = r \<and> mp_user_id (e_p e) = u)) (pr_map s)
      in (when_changed (length m \<noteq> length (pr_map s)) (Guild g), s\<lparr>pr_map := m\<rparr>))"
  by (simp add: op_evict_user_def evict_user_def Let_def)

text \<open>A guild's or a user's view after the network map or the own-device map is replaced.\<close>

lemma views_map:
  "guild_view (s\<lparr>pr_map := m\<rparr>) g r pk = map_option e_p (tget m (g, r, pk))"
  "user_view (s\<lparr>pr_map := m\<rparr>) u pk = user_view s u pk"
  "guild_view (s\<lparr>pr_self := n\<rparr>) g r pk = guild_view s g r pk"
  "user_view (s\<lparr>pr_self := n\<rparr>) u pk = map_option e_p (tget n (u, pk))"
  by (simp_all add: guild_view_def user_view_def)

lemma scope_view_eqI:
  "(\<And>g r pk. t = Guild g \<Longrightarrow> guild_view s' g r pk = guild_view s g r pk) \<Longrightarrow>
   (\<And>u pk. t = User u \<Longrightarrow> user_view s' u pk = user_view s u pk) \<Longrightarrow> scope_view s' t = scope_view s t"
  by (cases t) (auto simp: fun_eq_iff)

lemma ok_map:
  "presence_ok s \<Longrightarrow> tok m \<Longrightarrow>
   (\<And>g r pk e. tget m (g, r, pk) = Some e \<Longrightarrow> mp_pubkey (e_p e) = pk) \<Longrightarrow> presence_ok (s\<lparr>pr_map := m\<rparr>)"
  by (simp add: presence_ok_def)

lemma ok_self:
  "presence_ok s \<Longrightarrow> tok n \<Longrightarrow>
   (\<And>u pk e. tget n (u, pk) = Some e \<Longrightarrow> mp_pubkey (e_p e) = pk) \<Longrightarrow> presence_ok (s\<lparr>pr_self := n\<rparr>)"
  by (simp add: presence_ok_def)

lemma ok_get:
  "presence_ok s \<Longrightarrow> tget (pr_map s) (g, r, pk) = Some e \<Longrightarrow> mp_pubkey (e_p e) = pk"
  "presence_ok s \<Longrightarrow> tget (pr_self s) (u, pk) = Some e \<Longrightarrow> mp_pubkey (e_p e) = pk"
  "presence_ok s \<Longrightarrow> tok (pr_map s)" "presence_ok s \<Longrightarrow> tok (pr_self s)"
  by (auto simp: presence_ok_def)

lemma when_changed_in: "t \<notin> set (when_changed b s) \<longleftrightarrow> \<not> (b \<and> t = s)"
  by (auto simp: when_changed_def)

lemma when_changed_distinct [simp]: "distinct (when_changed b s)"
  by (simp add: when_changed_def)

interpretation rec: scoped_op "op_record g r p cv now" for g r p cv now
proof
  fix s t assume "t \<notin> set (fst (op_record g r p cv now s))"
  then show "scope_view (snd (op_record g r p cv now s)) t = scope_view s t"
    by (intro scope_view_eqI)
      (auto simp: op_record_eq when_changed_in views_map, auto simp: guild_view_def)
next
  fix s assume "presence_ok s"
  then show "presence_ok (snd (op_record g r p cv now s))"
    unfolding op_record_eq snd_conv by (intro ok_map) (auto simp: ok_get split: if_splits)
qed (simp add: op_record_eq)

interpretation recself: scoped_op "op_record_self u p cv now" for u p cv now
proof
  fix s t assume "t \<notin> set (fst (op_record_self u p cv now s))"
  then show "scope_view (snd (op_record_self u p cv now s)) t = scope_view s t"
    by (intro scope_view_eqI)
      (auto simp: op_record_self_eq when_changed_in views_map, auto simp: user_view_def)
next
  fix s assume "presence_ok s"
  then show "presence_ok (snd (op_record_self u p cv now s))"
    unfolding op_record_self_eq snd_conv by (intro ok_self) (auto simp: ok_get split: if_splits)
qed (simp add: op_record_self_eq)

interpretation ev: scoped_op "op_evict g r pk" for g r pk
proof
  fix s t assume "presence_ok s" "t \<notin> set (fst (op_evict g r pk s))"
  then show "scope_view (snd (op_evict g r pk s)) t = scope_view s t"
    by (intro scope_view_eqI)
      (auto simp: op_evict_eq when_changed_in views_map ok_get, auto simp: guild_view_def)
next
  fix s assume "presence_ok s"
  then show "presence_ok (snd (op_evict g r pk s))"
    unfolding op_evict_eq snd_conv by (intro ok_map) (auto simp: ok_get split: if_splits)
qed (simp add: op_evict_eq)

interpretation evself: scoped_op "op_evict_self u pk" for u pk
proof
  fix s t assume "presence_ok s" "t \<notin> set (fst (op_evict_self u pk s))"
  then show "scope_view (snd (op_evict_self u pk s)) t = scope_view s t"
    by (intro scope_view_eqI)
      (auto simp: op_evict_self_eq when_changed_in views_map ok_get, auto simp: user_view_def)
next
  fix s assume "presence_ok s"
  then show "presence_ok (snd (op_evict_self u pk s))"
    unfolding op_evict_self_eq snd_conv by (intro ok_self) (auto simp: ok_get split: if_splits)
qed (simp add: op_evict_self_eq)

lemma tkeep_length_eq: "length (tkeep P m) = length m \<longleftrightarrow> tkeep P m = m"
proof
  assume "length (tkeep P m) = length m"
  then show "tkeep P m = m" unfolding tkeep_def
    by (metis (no_types, lifting) filter_id_conv length_filter_less less_irrefl)
qed simp

lemma ok_tkeep_map: "presence_ok s \<Longrightarrow> presence_ok (s\<lparr>pr_map := tkeep P (pr_map s)\<rparr>)"
  by (intro ok_map) (auto simp: ok_get tget_tkeep split: option.splits if_splits)

lemma ok_tkeep_self: "presence_ok s \<Longrightarrow> presence_ok (s\<lparr>pr_self := tkeep P (pr_self s)\<rparr>)"
  by (intro ok_self) (auto simp: ok_get tget_tkeep split: option.splits if_splits)

interpretation evuser: scoped_op "op_evict_user g r u" for g r u
proof
  fix s t assume ok: "presence_ok s" and t: "t \<notin> set (fst (op_evict_user g r u s))"
  let ?P = "\<lambda>(g', r', pk) e. \<not> (g' = g \<and> r' = r \<and> mp_user_id (e_p e) = u)"
  show "scope_view (snd (op_evict_user g r u s)) t = scope_view s t"
  proof (cases "t = Guild g")
    case True
    with t have "tkeep ?P (pr_map s) = pr_map s"
      by (simp add: op_evict_user_eq Let_def when_changed_in tkeep_length_eq)
    then show ?thesis by (simp add: op_evict_user_eq Let_def)
  next
    case False
    then show ?thesis
      by (intro scope_view_eqI)
        (auto simp: op_evict_user_eq Let_def views_map guild_view_def tget_tkeep [OF ok_get(3) [OF ok]]
          split: option.splits)
  qed
next
  fix s assume "presence_ok s"
  then show "presence_ok (snd (op_evict_user g r u s))"
    by (simp add: op_evict_user_eq Let_def ok_tkeep_map)
qed (simp add: op_evict_user_eq Let_def)

lemma reap_scopes:
  "Guild g \<in> set (fst (reap now age s)) \<longleftrightarrow>
     (\<exists>r pk e. ((g, r, pk), e) \<in> set (pr_map s) \<and> \<not> fresh_entry now age e)"
  "User u \<in> set (fst (reap now age s)) \<longleftrightarrow>
     (\<exists>pk e. ((u, pk), e) \<in> set (pr_self s) \<and> \<not> fresh_entry now age e)"
  by (force simp: reap_def Let_def)+

lemma reap_state:
  "snd (reap now age s) = s\<lparr>pr_map := tkeep (\<lambda>k e. fresh_entry now age e) (pr_map s),
     pr_self := tkeep (\<lambda>k e. fresh_entry now age e) (pr_self s)\<rparr>"
  by (simp add: reap_def Let_def)

interpretation reaper: scoped_op "reap now age" for now age
proof
  fix s t assume ok: "presence_ok s" and t: "t \<notin> set (fst (reap now age s))"
  note get = tget_tkeep [OF ok_get(3) [OF ok]] tget_tkeep [OF ok_get(4) [OF ok]]
  show "scope_view (snd (reap now age s)) t = scope_view s t"
  proof (rule scope_view_eqI)
    fix g r pk assume "t = Guild g"
    with t have "\<forall>e. tget (pr_map s) (g, r, pk) = Some e \<longrightarrow> fresh_entry now age e"
      using reap_scopes(1) tget_SomeD by metis
    then show "guild_view (snd (reap now age s)) g r pk = guild_view s g r pk"
      by (auto simp: reap_state guild_view_def get split: option.splits)
  next
    fix u pk assume "t = User u"
    with t have "\<forall>e. tget (pr_self s) (u, pk) = Some e \<longrightarrow> fresh_entry now age e"
      using reap_scopes(2) tget_SomeD by metis
    then show "user_view (snd (reap now age s)) u pk = user_view s u pk"
      by (auto simp: reap_state user_view_def get split: option.splits)
  qed
next
  fix s assume "presence_ok s"
  then have "presence_ok ((s\<lparr>pr_map := tkeep (\<lambda>k e. fresh_entry now age e) (pr_map s)\<rparr>)
      \<lparr>pr_self := tkeep (\<lambda>k e. fresh_entry now age e)
        (pr_self (s\<lparr>pr_map := tkeep (\<lambda>k e. fresh_entry now age e) (pr_map s)\<rparr>))\<rparr>)"
    by (intro ok_tkeep_self ok_tkeep_map)
  then show "presence_ok (snd (reap now age s))" by (simp add: reap_state)
qed (simp add: reap_def Let_def)

subsection \<open>Properties\<close>

datatype presence_op =
    Record u64 u64 member_presence string u64
  | RecordSelf u64 member_presence string u64
  | Evict u64 u64 key
  | EvictSelf u64 key
  | EvictUser u64 u64 u64
  | Reap u64 u64

fun presence_step :: "presence_op \<Rightarrow> presence \<Rightarrow> scope list \<times> presence" where
  "presence_step (Record g r p cv now) = op_record g r p cv now"
| "presence_step (RecordSelf u p cv now) = op_record_self u p cv now"
| "presence_step (Evict g r pk) = op_evict g r pk"
| "presence_step (EvictSelf u pk) = op_evict_self u pk"
| "presence_step (EvictUser g r u) = op_evict_user g r u"
| "presence_step (Reap now age) = reap now age"

definition presence_run :: "presence_op list \<Rightarrow> presence \<Rightarrow> presence" where
  "presence_run ops s = fold (\<lambda>op s. snd (presence_step op s)) ops s"

lemma presence_step_ok: "presence_ok s \<Longrightarrow> presence_ok (snd (presence_step op s))"
  by (cases op) (simp_all add: rec.keeps_ok recself.keeps_ok ev.keeps_ok evself.keeps_ok
      evuser.keeps_ok reaper.keeps_ok)

lemma presence_run_ok: "presence_ok s \<Longrightarrow> presence_ok (presence_run ops s)"
  unfolding presence_run_def
  by (induction ops arbitrary: s) (simp_all add: presence_step_ok)

lemma no_presence_ok: "presence_ok no_presence"
  by (simp add: presence_ok_def no_presence_def)

text \<open>
  Whatever happened before, after any operation on presence the bump its caller makes changes
  the versions of every client one of whose scopes now shows different devices, so none of
  them stays parked on a stale view; and it leaves unchanged, whatever the hash, the version
  of every client none of whose scopes the operation reports.\<close>

theorem presence_wakeups:
  assumes "finite subs"
  shows "(\<forall>t\<in>subs.
      scope_view (snd (presence_step op (presence_run ops no_presence))) t \<noteq>
        scope_view (presence_run ops no_presence) t \<longrightarrow>
      ledger (bump_all (fst (presence_step op (presence_run ops no_presence))) v) subs \<noteq> ledger v subs) \<and>
    (set (fst (presence_step op (presence_run ops no_presence))) \<inter> subs = {} \<longrightarrow>
      aggregate hash (bump_all (fst (presence_step op (presence_run ops no_presence))) v) subs =
        aggregate hash v subs)"
proof -
  have ok: "presence_ok (presence_run ops no_presence)" by (rule presence_run_ok [OF no_presence_ok])
  note w = rec.wakes [OF ok assms] recself.wakes [OF ok assms] ev.wakes [OF ok assms]
    evself.wakes [OF ok assms] evuser.wakes [OF ok assms] reaper.wakes [OF ok assms]
  note p = rec.stays_parked [OF assms] recself.stays_parked [OF assms] ev.stays_parked [OF assms]
    evself.stays_parked [OF assms] evuser.stays_parked [OF assms] reaper.stays_parked [OF assms]
  show ?thesis by (cases op) (auto simp: w p)
qed

lemma others_in_view:
  "presence_ok s \<Longrightarrow> p \<in> set (others_in g r me s) \<longleftrightarrow>
     mp_pubkey p \<noteq> me \<and> guild_view s g r (mp_pubkey p) = Some p"
proof -
  assume ok: "presence_ok s"
  have "p \<in> set (others_in g r me s) \<longleftrightarrow> (\<exists>pk e. ((g, r, pk), e) \<in> set (pr_map s) \<and> pk \<noteq> me \<and> p = e_p e)"
    by (force simp: others_in_def)
  also have "\<dots> \<longleftrightarrow> (\<exists>pk e. tget (pr_map s) (g, r, pk) = Some e \<and> pk \<noteq> me \<and> p = e_p e)"
    using tget_Some_iff [OF ok_get(3) [OF ok]] by metis
  also have "\<dots> \<longleftrightarrow> mp_pubkey p \<noteq> me \<and> guild_view s g r (mp_pubkey p) = Some p"
    using ok_get(1) [OF ok] by (auto simp: guild_view_def)
  finally show ?thesis .
qed

lemma others_of_user_view:
  "presence_ok s \<Longrightarrow> p \<in> set (others_of_user u me s) \<longleftrightarrow>
     mp_pubkey p \<noteq> me \<and> user_view s u (mp_pubkey p) = Some p"
proof -
  assume ok: "presence_ok s"
  have "p \<in> set (others_of_user u me s) \<longleftrightarrow> (\<exists>pk e. ((u, pk), e) \<in> set (pr_self s) \<and> pk \<noteq> me \<and> p = e_p e)"
    by (force simp: others_of_user_def)
  also have "\<dots> \<longleftrightarrow> (\<exists>pk e. tget (pr_self s) (u, pk) = Some e \<and> pk \<noteq> me \<and> p = e_p e)"
    using tget_Some_iff [OF ok_get(4) [OF ok]] by metis
  also have "\<dots> \<longleftrightarrow> mp_pubkey p \<noteq> me \<and> user_view s u (mp_pubkey p) = Some p"
    using ok_get(2) [OF ok] by (auto simp: user_view_def)
  finally show ?thesis .
qed

text \<open>
  The reaper, run with the deployment's presence lifetime, drops a device from a network
  exactly when it has not been recorded there for more than that lifetime, which is more than
  two long-poll holds: a device recorded at most two holds before is still handed to its
  co-members.\<close>

theorem reap_ttl:
  assumes "presence_ok s" and "tget (pr_map s) (g, r, pk) = Some e"
  shows "(tget (pr_map (snd (reap now PRESENCE_TTL_SECS s))) (g, r, pk) =
      (if unat now \<le> unat (e_last_seen e) + unat PRESENCE_TTL_SECS then Some e else None)) \<and>
    (unat now \<le> unat (e_last_seen e) + 2 * unat LONGPOLL_HOLD_SECS \<and> me \<noteq> pk \<longrightarrow>
      e_p e \<in> set (others_in g r me (snd (reap now PRESENCE_TTL_SECS s))))"
proof -
  have fresh: "fresh_entry now PRESENCE_TTL_SECS e \<longleftrightarrow>
      unat now \<le> unat (e_last_seen e) + unat PRESENCE_TTL_SECS"
    by (auto simp: fresh_entry_def word_le_nat_alt unat_sat_sub)
  have eq: "tget (pr_map (snd (reap now PRESENCE_TTL_SECS s))) (g, r, pk) =
      (if unat now \<le> unat (e_last_seen e) + unat PRESENCE_TTL_SECS then Some e else None)"
    using assms by (simp add: reap_state tget_tkeep ok_get fresh)
  have hold: "2 * unat LONGPOLL_HOLD_SECS \<le> unat PRESENCE_TTL_SECS"
    by (simp add: LONGPOLL_HOLD_SECS_def PRESENCE_TTL_SECS_def ATTESTATION_TTL_SECS_def)
  have ok': "presence_ok (snd (reap now PRESENCE_TTL_SECS s))" by (rule reaper.keeps_ok [OF assms(1)])
  have "mp_pubkey (e_p e) = pk" using ok_get(1) [OF assms] .
  then show ?thesis
    using eq hold by (auto simp: others_in_view [OF ok'] guild_view_def)
qed

subsection \<open>Witnesses\<close>

definition demo_mp :: member_presence where
  "demo_mp = \<lparr>mp_pubkey = [1], mp_ip = 7, mp_user_id = 7, mp_username = ''alice'',
     mp_device_name = ''nas'', mp_is_primary = True, mp_endpoint = None\<rparr>"

definition demo_ledger_hash :: "(scope \<times> u64) list \<Rightarrow> u64" where
  "demo_ledger_hash l = of_nat (length l)"

theorem presence_wakeups_witness:
  "ledger (bump_all (fst (presence_step (Record 5 6 demo_mp [] 10) (presence_run [] no_presence))) no_versions)
     {Guild 5} \<noteq> ledger no_versions {Guild 5} \<and>
   aggregate demo_ledger_hash (bump_all (fst (presence_step (Record 5 6 demo_mp [] 10) (presence_run [] no_presence))) no_versions)
     {Guild 4, User 7} = aggregate demo_ledger_hash no_versions {Guild 4, User 7}"
proof -
  have ne: "scope_view (snd (presence_step (Record 5 6 demo_mp [] 10) (presence_run [] no_presence))) (Guild 5) \<noteq>
      scope_view (presence_run [] no_presence) (Guild 5)"
  proof
    assume "scope_view (snd (presence_step (Record 5 6 demo_mp [] 10) (presence_run [] no_presence))) (Guild 5) =
      scope_view (presence_run [] no_presence) (Guild 5)"
    from fun_cong [OF this, of "(6, [1])"] show False
      by (simp add: presence_run_def no_presence_def op_record_eq views_map demo_mp_def)
        (simp add: guild_view_def)
  qed
  have "set (fst (presence_step (Record 5 6 demo_mp [] 10) (presence_run [] no_presence))) \<inter> {Guild 4, User 7} = {}"
    by (auto simp: op_record_eq when_changed_def)
  then show ?thesis
    using presence_wakeups [of "{Guild 5}" "Record 5 6 demo_mp [] 10" "[]" no_versions demo_ledger_hash] ne
      presence_wakeups [of "{Guild 4, User 7}" "Record 5 6 demo_mp [] 10" "[]" no_versions demo_ledger_hash]
    by auto
qed

theorem reap_ttl_witness:
  "demo_mp \<in> set (others_in 5 6 [2] (snd (reap 500 PRESENCE_TTL_SECS
     (no_presence\<lparr>pr_map := [((5, 6, [1]), \<lparr>e_p = demo_mp, e_last_seen = 10, e_client_version = []\<rparr>)]\<rparr>))))"
proof -
  let ?e = "\<lparr>e_p = demo_mp, e_last_seen = 10, e_client_version = []\<rparr>"
  let ?s = "no_presence\<lparr>pr_map := [((5, 6, [1]), ?e)]\<rparr>"
  have "presence_ok ?s"
    by (auto simp: presence_ok_def no_presence_def tget_def tok_def demo_mp_def)
  moreover have "tget (pr_map ?s) (5, 6, [1]) = Some ?e" by (simp add: tget_def)
  ultimately show ?thesis
    using reap_ttl [of ?s 5 6 "[1]" ?e 500 "[2]"]
    by (simp add: LONGPOLL_HOLD_SECS_def ATTESTATION_TTL_SECS_def)
qed

end
