(* ===== verification/Signer.thy ===== *)
theory Signer
  imports Attestation Store
begin

section \<open>Signing: \<open>crates/coordinator/src/signer.rs\<close>\<close>

text \<open>
  Per-guild keys, loaded on first use, and the cache of signed attestations. The state is the
  cache, the loaded keys and the store; the request's time (\<open>now\<close>), the clock read when signing
  (\<open>clock\<close>) and the seed a new guild would draw are arguments. The re-check under the signing
  lock sees, in one call at a time, what the first check saw.
\<close>

record att_identity =
  id_user_id :: u64
  id_username :: string
  id_device_name :: string
  id_is_primary :: bool
  id_ip :: ipv4
  id_pubkey :: key

record signer =
  sg_key :: key
  sg_guild_id :: u64
  sg_wg_net :: ipv4net
  sg_ttl :: u64

definition signer_from_seed :: "key \<Rightarrow> u64 \<Rightarrow> ipv4net \<Rightarrow> u64 \<Rightarrow> signer" where
  "signer_from_seed seed g net ttl =
     \<lparr>sg_key = seed, sg_guild_id = g, sg_wg_net = net, sg_ttl = ttl\<rparr>"

definition signer_attestation :: "signer \<Rightarrow> att_identity \<Rightarrow> u64 \<Rightarrow> attestation" where
  "signer_attestation sg i clock =
     \<lparr>at_guild_id = sg_guild_id sg, at_user_id = id_user_id i, at_username = id_username i,
      at_device_name = id_device_name i, at_is_primary = id_is_primary i, at_wg_ip = id_ip i,
      at_wg_net = sg_wg_net sg, at_wg_pubkey = id_pubkey i, at_issued_at = clock,
      at_expires_at = clock + sg_ttl sg\<rparr>"

definition signer_sign ::
  "crypto \<Rightarrow> att_codecs \<Rightarrow> signer \<Rightarrow> att_identity \<Rightarrow> u64 \<Rightarrow> u32 \<Rightarrow> attestation_error + signed" where
  "signer_sign c k sg i clock schema = sign_attestation c k (sg_key sg) (signer_attestation sg i clock) schema"

record guild_key =
  gk_signer :: signer
  gk_rotation_chain :: "string list"

record guild_keys =
  gks_wg_net :: ipv4net
  gks_ttl :: u64
  gks_cache :: "(u64, guild_key) hmap"

definition keys_get ::
  "u64 \<Rightarrow> key \<Rightarrow> guild_keys \<Rightarrow> store \<Rightarrow> (store_error + guild_key) \<times> guild_keys \<times> store" where
  "keys_get g fresh ks st =
     (case tget (gks_cache ks) g of
        Some gk \<Rightarrow> (Inr gk, ks, st)
      | None \<Rightarrow>
          (case load_or_create_seed g fresh st of
             (Inl e, st') \<Rightarrow> (Inl e, ks, st')
           | (Inr seed, st') \<Rightarrow>
               (let gk = \<lparr>gk_signer = signer_from_seed seed g (gks_wg_net ks) (gks_ttl ks),
                          gk_rotation_chain = rotation_chain st' g\<rparr>
                in (Inr gk, ks\<lparr>gks_cache := tput g gk (gks_cache ks)\<rparr>, st'))))"

definition SIGN_CACHE_REUSE_CAP_SECS :: u64 where "SIGN_CACHE_REUSE_CAP_SECS = 300"

record cached_att =
  ca_blob :: string
  ca_signed_at :: u64
  ca_ip :: ipv4
  ca_is_primary :: bool
  ca_username :: string
  ca_device_name :: string

record sign_cache =
  sc_map :: "(u64 \<times> key \<times> u32, cached_att) hmap"
  sc_last_prune :: u64
  sc_reuse_secs :: u64

definition new_sign_cache :: "u64 \<Rightarrow> sign_cache" where
  "new_sign_cache ttl =
     \<lparr>sc_map = [], sc_last_prune = 0, sc_reuse_secs = min SIGN_CACHE_REUSE_CAP_SECS (ttl div 2)\<rparr>"

definition cache_fresh ::
  "sign_cache \<Rightarrow> u64 \<times> key \<times> u32 \<Rightarrow> u64 \<Rightarrow> att_identity \<Rightarrow> string option" where
  "cache_fresh sc k now i =
     (case tget (sc_map sc) k of
        None \<Rightarrow> None
      | Some e \<Rightarrow>
          if sat_sub now (ca_signed_at e) < sc_reuse_secs sc \<and> ca_ip e = id_ip i \<and>
             ca_is_primary e = id_is_primary i \<and> ca_username e = id_username i \<and>
             ca_device_name e = id_device_name i
          then Some (ca_blob e) else None)"

definition cache_store ::
  "u64 \<times> key \<times> u32 \<Rightarrow> string \<Rightarrow> u64 \<Rightarrow> att_identity \<Rightarrow> sign_cache \<Rightarrow> sign_cache" where
  "cache_store k blob now i sc =
     (let sc' = (if sc_reuse_secs sc \<le> sat_sub now (sc_last_prune sc)
                 then sc\<lparr>sc_map := tkeep (\<lambda>_ v. sat_sub now (ca_signed_at v) < sc_reuse_secs sc) (sc_map sc),
                         sc_last_prune := now\<rparr>
                 else sc)
      in sc'\<lparr>sc_map := tput k \<lparr>ca_blob = blob, ca_signed_at = now, ca_ip = id_ip i,
              ca_is_primary = id_is_primary i, ca_username = id_username i,
              ca_device_name = id_device_name i\<rparr> (sc_map sc')\<rparr>)"

datatype sign_error = SignStore store_error | SignAtt attestation_error | SignPanic

record signing =
  sn_cache :: sign_cache
  sn_keys :: guild_keys
  sn_store :: store

definition cached_attestation ::
  "crypto \<Rightarrow> att_codecs \<Rightarrow> signed codec \<Rightarrow> u64 \<Rightarrow> att_identity \<Rightarrow> u64 \<Rightarrow> u64 \<Rightarrow> u32 \<Rightarrow> key \<Rightarrow>
   signing \<Rightarrow> (sign_error + string) \<times> signing" where
  "cached_attestation c k sk g i now clock schema fresh sn =
     (let ck = (g, id_pubkey i, schema)
      in case cache_fresh (sn_cache sn) ck now i of
           Some hit \<Rightarrow> (Inr hit, sn)
         | None \<Rightarrow>
             (case keys_get g fresh (sn_keys sn) (sn_store sn) of
                (Inl e, ks, st) \<Rightarrow> (Inl (SignStore e), sn\<lparr>sn_keys := ks, sn_store := st\<rparr>)
              | (Inr gk, ks, st) \<Rightarrow>
                  (let sn' = sn\<lparr>sn_keys := ks, sn_store := st\<rparr>
                   in case signer_sign c k (gk_signer gk) i clock schema of
                        Inl e \<Rightarrow> (Inl (SignAtt e), sn')
                      | Inr s \<Rightarrow>
                          (case to_base64 c sk s of
                             None \<Rightarrow> (Inl SignPanic, sn')
                           | Some blob \<Rightarrow>
                               (Inr blob, sn'\<lparr>sn_cache := cache_store ck blob now i (sn_cache sn')\<rparr>)))))"

subsection \<open>The invariant\<close>

definition seed_of :: "signing \<Rightarrow> u64 \<Rightarrow> key option" where
  "seed_of sn g = tget (guild_signing_keys (sn_store sn)) g"

definition keys_inv :: "signing \<Rightarrow> bool" where
  "keys_inv sn \<longleftrightarrow> (\<forall>g gk. tget (gks_cache (sn_keys sn)) g = Some gk \<longrightarrow>
     (\<exists>seed. seed_of sn g = Some seed \<and>
        gk_signer gk = signer_from_seed seed g (gks_wg_net (sn_keys sn)) (gks_ttl (sn_keys sn))))"

text \<open>A cached blob is a signature, made no earlier than its stamp, over the identity it is kept for.\<close>

definition blob_for ::
  "crypto \<Rightarrow> att_codecs \<Rightarrow> signed codec \<Rightarrow> signing \<Rightarrow> u64 \<Rightarrow> att_identity \<Rightarrow> u64 \<Rightarrow> u32 \<Rightarrow> string \<Rightarrow> bool" where
  "blob_for c k sk sn g i stamp schema blob \<longleftrightarrow>
     (\<exists>seed clock s. seed_of sn g = Some seed \<and> unat stamp \<le> unat clock \<and>
        unat clock + unat (gks_ttl (sn_keys sn)) < 2 ^ 64 \<and>
        signer_sign c k (signer_from_seed seed g (gks_wg_net (sn_keys sn)) (gks_ttl (sn_keys sn)))
          i clock schema = Inr s \<and>
        to_base64 c sk s = Some blob)"

definition cache_inv :: "crypto \<Rightarrow> att_codecs \<Rightarrow> signed codec \<Rightarrow> signing \<Rightarrow> bool" where
  "cache_inv c k sk sn \<longleftrightarrow> tok (sc_map (sn_cache sn)) \<and>
     sc_reuse_secs (sn_cache sn) = min SIGN_CACHE_REUSE_CAP_SECS (gks_ttl (sn_keys sn) div 2) \<and>
     (\<forall>g pk schema e. tget (sc_map (sn_cache sn)) (g, pk, schema) = Some e \<longrightarrow>
        (\<exists>u. blob_for c k sk sn g
           \<lparr>id_user_id = u, id_username = ca_username e, id_device_name = ca_device_name e,
            id_is_primary = ca_is_primary e, id_ip = ca_ip e, id_pubkey = pk\<rparr>
           (ca_signed_at e) schema (ca_blob e)))"

lemma keys_get_spec:
  assumes "keys_inv sn" and "keys_get g fresh (sn_keys sn) (sn_store sn) = (res, ks, st)"
  defines "sn' \<equiv> sn\<lparr>sn_keys := ks, sn_store := st\<rparr>"
  shows "keys_inv sn'" and "gks_wg_net ks = gks_wg_net (sn_keys sn)" and "gks_ttl ks = gks_ttl (sn_keys sn)"
    and "seed_of sn h = Some x \<Longrightarrow> seed_of sn' h = Some x"
    and "res = Inr gk \<Longrightarrow> \<exists>seed. seed_of sn' g = Some seed \<and>
      gk_signer gk = signer_from_seed seed g (gks_wg_net ks) (gks_ttl ks)"
  using assms
  by (auto simp: keys_get_def load_or_create_seed_def keys_inv_def seed_of_def Let_def
      split: option.splits if_splits)

lemma blob_for_mono:
  assumes "\<And>h x. seed_of sn h = Some x \<Longrightarrow> seed_of sn' h = Some x"
    and "gks_wg_net (sn_keys sn') = gks_wg_net (sn_keys sn)" and "gks_ttl (sn_keys sn') = gks_ttl (sn_keys sn)"
    and "blob_for c k sk sn g i stamp schema blob"
  shows "blob_for c k sk sn' g i stamp schema blob"
  using assms(1,4) unfolding blob_for_def assms(2,3) by blast

lemma cache_store_get:
  assumes "tok (sc_map sc)" and "tget (sc_map (cache_store ck blob now i sc)) j = Some e"
  shows "j = ck \<and> e = \<lparr>ca_blob = blob, ca_signed_at = now, ca_ip = id_ip i,
              ca_is_primary = id_is_primary i, ca_username = id_username i,
              ca_device_name = id_device_name i\<rparr> \<or>
         j \<noteq> ck \<and> tget (sc_map sc) j = Some e"
  using assms by (auto simp: cache_store_def Let_def tget_tkeep split: if_splits option.splits)

lemma cache_store_other:
  "tok (sc_map sc) \<Longrightarrow> tok (sc_map (cache_store ck blob now i sc))"
  "sc_reuse_secs (cache_store ck blob now i sc) = sc_reuse_secs sc"
  by (simp_all add: cache_store_def Let_def)

definition time_ok :: "signing \<Rightarrow> u64 \<Rightarrow> u64 \<Rightarrow> bool" where
  "time_ok sn now clock \<longleftrightarrow> unat now \<le> unat clock \<and> unat clock + unat (gks_ttl (sn_keys sn)) < 2 ^ 64"

definition signing_inv :: "crypto \<Rightarrow> att_codecs \<Rightarrow> signed codec \<Rightarrow> signing \<Rightarrow> bool" where
  "signing_inv c k sk sn \<longleftrightarrow> keys_inv sn \<and> cache_inv c k sk sn"

lemma fresh_hit:
  assumes "cache_inv c k sk sn" and "cache_fresh (sn_cache sn) (g, id_pubkey i, schema) now i = Some blob"
  shows "\<exists>u stamp. blob_for c k sk sn g (i\<lparr>id_user_id := u\<rparr>) stamp schema blob \<and>
    unat now \<le> unat stamp + unat (gks_ttl (sn_keys sn)) div 2"
proof -
  obtain e where e: "tget (sc_map (sn_cache sn)) (g, id_pubkey i, schema) = Some e"
    "sat_sub now (ca_signed_at e) < sc_reuse_secs (sn_cache sn)" "ca_ip e = id_ip i"
    "ca_is_primary e = id_is_primary i" "ca_username e = id_username i"
    "ca_device_name e = id_device_name i" "ca_blob e = blob"
    using assms(2) by (auto simp: cache_fresh_def split: option.splits if_splits)
  obtain u where u: "blob_for c k sk sn g
      \<lparr>id_user_id = u, id_username = ca_username e, id_device_name = ca_device_name e,
       id_is_primary = ca_is_primary e, id_ip = ca_ip e, id_pubkey = id_pubkey i\<rparr>
      (ca_signed_at e) schema (ca_blob e)"
    using assms(1) e(1) unfolding cache_inv_def by blast
  have "\<lparr>id_user_id = u, id_username = ca_username e, id_device_name = ca_device_name e,
       id_is_primary = ca_is_primary e, id_ip = ca_ip e, id_pubkey = id_pubkey i\<rparr> = i\<lparr>id_user_id := u\<rparr>"
    using e by (cases i) simp
  with u e(7) have b: "blob_for c k sk sn g (i\<lparr>id_user_id := u\<rparr>) (ca_signed_at e) schema blob" by simp
  have "unat (sat_sub now (ca_signed_at e)) < unat (gks_ttl (sn_keys sn) div 2)"
  proof -
    have "sc_reuse_secs (sn_cache sn) \<le> gks_ttl (sn_keys sn) div 2"
      using assms(1) by (simp add: cache_inv_def)
    with e(2) show ?thesis by (simp add: word_less_nat_alt word_le_nat_alt)
  qed
  then have "unat now \<le> unat (ca_signed_at e) + unat (gks_ttl (sn_keys sn)) div 2"
    by (simp add: unat_sat_sub unat_div)
  with b show ?thesis by blast
qed

lemma cached_attestation_step:
  assumes "signing_inv c k sk sn" and "time_ok sn now clock"
    and "cached_attestation c k sk g i now clock schema fresh sn = (res, sn')"
  shows "signing_inv c k sk sn' \<and> gks_wg_net (sn_keys sn') = gks_wg_net (sn_keys sn) \<and>
    gks_ttl (sn_keys sn') = gks_ttl (sn_keys sn) \<and>
    (\<forall>h x. seed_of sn h = Some x \<longrightarrow> seed_of sn' h = Some x) \<and>
    (\<forall>blob. res = Inr blob \<longrightarrow> (\<exists>u stamp. blob_for c k sk sn' g (i\<lparr>id_user_id := u\<rparr>) stamp schema blob \<and>
       unat now \<le> unat stamp + unat (gks_ttl (sn_keys sn')) div 2))"
proof (cases "cache_fresh (sn_cache sn) (g, id_pubkey i, schema) now i")
  case (Some hit)
  then have "res = Inr hit" "sn' = sn" using assms(3) by (auto simp: cached_attestation_def)
  with assms(1) fresh_hit [OF _ Some] show ?thesis by (auto simp: signing_inv_def)
next
  case None
  obtain r ks st where get: "keys_get g fresh (sn_keys sn) (sn_store sn) = (r, ks, st)"
    by (metis surj_pair)
  define sn1 where "sn1 = sn\<lparr>sn_keys := ks, sn_store := st\<rparr>"
  have inv: "keys_inv sn" "cache_inv c k sk sn" using assms(1) by (auto simp: signing_inv_def)
  note kg = keys_get_spec [OF inv(1) get, folded sn1_def]
  have cache1: "sn_cache sn1 = sn_cache sn" "sn_keys sn1 = ks" by (simp_all add: sn1_def)
  have net: "gks_wg_net (sn_keys sn1) = gks_wg_net (sn_keys sn)"
    "gks_ttl (sn_keys sn1) = gks_ttl (sn_keys sn)" using kg(2,3) cache1 by simp_all
  have mono: "blob_for c k sk sn1 h j stamp sch b" if "blob_for c k sk sn h j stamp sch b" for h j stamp sch b
    by (rule blob_for_mono [OF kg(4) net that])
  have inv1: "cache_inv c k sk sn1"
    using inv(2) mono unfolding cache_inv_def cache1(1) net by blast
  have unfold: "cached_attestation c k sk g i now clock schema fresh sn =
      (case r of Inl e \<Rightarrow> (Inl (SignStore e), sn1)
       | Inr gk \<Rightarrow> (case signer_sign c k (gk_signer gk) i clock schema of
            Inl e \<Rightarrow> (Inl (SignAtt e), sn1)
          | Inr s \<Rightarrow> (case to_base64 c sk s of None \<Rightarrow> (Inl SignPanic, sn1)
             | Some blob \<Rightarrow> (Inr blob, sn1\<lparr>sn_cache := cache_store (g, id_pubkey i, schema) blob now i (sn_cache sn1)\<rparr>))))"
    unfolding cached_attestation_def Let_def None option.case get prod.case sn1_def [symmetric] ..
  show ?thesis
  proof (cases "\<exists>blob. res = Inr blob")
    case False
    then have "sn' = sn1" using assms(3) unfolding unfold by (auto split: sum.splits option.splits)
    with kg(1,4) inv1 net False show ?thesis by (auto simp: signing_inv_def)
  next
    case True
    then obtain blob gk s where b: "res = Inr blob" "r = Inr gk"
      "signer_sign c k (gk_signer gk) i clock schema = Inr s" "to_base64 c sk s = Some blob"
      "sn' = sn1\<lparr>sn_cache := cache_store (g, id_pubkey i, schema) blob now i (sn_cache sn1)\<rparr>"
      using assms(3) unfolding unfold by (auto split: sum.splits option.splits)
    have bf: "blob_for c k sk sn1 g i now schema blob"
    proof -
      obtain seed where seed: "seed_of sn1 g = Some seed"
        "gk_signer gk = signer_from_seed seed g (gks_wg_net ks) (gks_ttl ks)"
        using kg(5) [OF b(2)] by blast
      with b(3) have "signer_sign c k (signer_from_seed seed g (gks_wg_net (sn_keys sn1))
          (gks_ttl (sn_keys sn1))) i clock schema = Inr s" by (simp add: cache1(2))
      with seed(1) b(4) assms(2) show ?thesis unfolding blob_for_def time_ok_def net by blast
    qed
    have same: "blob_for c k sk sn' h j stamp sch x = blob_for c k sk sn1 h j stamp sch x" for h j stamp sch x
      by (simp add: blob_for_def seed_of_def b(5))
    have tk: "tok (sc_map (sn_cache sn1))" using inv1 by (simp add: cache_inv_def)
    have "cache_inv c k sk sn'"
    proof -
      have "\<exists>u. blob_for c k sk sn' h
           \<lparr>id_user_id = u, id_username = ca_username e, id_device_name = ca_device_name e,
            id_is_primary = ca_is_primary e, id_ip = ca_ip e, id_pubkey = pk\<rparr>
           (ca_signed_at e) sch (ca_blob e)"
        if "tget (sc_map (sn_cache sn')) (h, pk, sch) = Some e" for h pk sch e
      proof -
        have "tget (sc_map (cache_store (g, id_pubkey i, schema) blob now i (sn_cache sn1))) (h, pk, sch) = Some e"
          using that by (simp add: b(5))
        then consider "(h, pk, sch) = (g, id_pubkey i, schema)"
            "e = \<lparr>ca_blob = blob, ca_signed_at = now, ca_ip = id_ip i, ca_is_primary = id_is_primary i,
              ca_username = id_username i, ca_device_name = id_device_name i\<rparr>"
          | "tget (sc_map (sn_cache sn1)) (h, pk, sch) = Some e"
          using cache_store_get [OF tk] by blast
        then show ?thesis
        proof cases
          case 1
          have full: "\<lparr>id_user_id = id_user_id i, id_username = id_username i, id_device_name = id_device_name i,
              id_is_primary = id_is_primary i, id_ip = id_ip i, id_pubkey = id_pubkey i\<rparr> = i"
            by (cases i) simp
          from 1(1) have hps: "h = g" "pk = id_pubkey i" "sch = schema" by auto
          show ?thesis
            unfolding same 1(2) hps cached_att.select_convs
            by (rule exI [of _ "id_user_id i"]) (simp only: full bf)
        next
          case 2
          then show ?thesis using inv1 unfolding cache_inv_def same by blast
        qed
      qed
      moreover have "tok (sc_map (sn_cache sn'))" "sc_reuse_secs (sn_cache sn') = sc_reuse_secs (sn_cache sn1)"
        using cache_store_other(1) [OF tk] by (simp_all add: b(5) cache_store_other(2))
      moreover have "gks_ttl (sn_keys sn') = gks_ttl (sn_keys sn1)" by (simp add: b(5))
      moreover have "sc_reuse_secs (sn_cache sn1) = min SIGN_CACHE_REUSE_CAP_SECS (gks_ttl (sn_keys sn1) div 2)"
        using inv1 by (simp add: cache_inv_def)
      ultimately show ?thesis by (simp add: cache_inv_def)
    qed
    moreover have "keys_inv sn'" using kg(1) by (simp add: keys_inv_def seed_of_def b(5))
    moreover have "seed_of sn' = seed_of sn1" "sn_keys sn' = sn_keys sn1"
      by (simp_all add: seed_of_def b(5) fun_eq_iff)
    moreover have "\<exists>u stamp. blob_for c k sk sn' g (i\<lparr>id_user_id := u\<rparr>) stamp schema blob \<and>
        unat now \<le> unat stamp + unat (gks_ttl (sn_keys sn')) div 2"
      using bf same by (intro exI [of _ "id_user_id i"] exI [of _ now]) simp
    ultimately show ?thesis
      using net kg(4) b(1) by (auto simp: signing_inv_def)
  qed
qed

text \<open>A blob the coordinator serves, read by a client at \<open>now\<close> against the guild's anchor.\<close>

definition vouched ::
  "crypto \<Rightarrow> att_codecs \<Rightarrow> signed codec \<Rightarrow> signing \<Rightarrow> u64 \<Rightarrow> att_identity \<Rightarrow> u64 \<Rightarrow> u32 \<Rightarrow> string \<Rightarrow> bool" where
  "vouched c k sk sn g i now schema blob \<longleftrightarrow>
     (\<exists>seed s att. seed_of sn g = Some seed \<and> from_base64 c sk blob = Inr s \<and>
        verify_attestation c k s (ed_anchor c seed) now g schema = Inr att \<and>
        at_wg_ip att = id_ip i \<and> at_wg_pubkey att = id_pubkey i \<and>
        at_username att = id_username i \<and> at_device_name att = id_device_name i \<and>
        at_is_primary att = id_is_primary i \<and> at_wg_net att = gks_wg_net (sn_keys sn) \<and>
        unat now + (unat (gks_ttl (sn_keys sn)) - unat (gks_ttl (sn_keys sn)) div 2) \<le> unat (at_expires_at att))"

definition crypto_ok :: "crypto \<Rightarrow> att_codecs \<Rightarrow> signed codec \<Rightarrow> bool" where
  "crypto_ok c k sk \<longleftrightarrow> signing_ok c \<and> b64_ok c \<and> codec_ok sk \<and> att_codecs_ok k"

lemma blob_vouched:
  assumes "crypto_ok c k sk" and "gks_ttl (sn_keys sn) \<noteq> 0"
    and "blob_for c k sk sn g (i\<lparr>id_user_id := u\<rparr>) stamp schema blob"
    and "unat now \<le> unat stamp + unat (gks_ttl (sn_keys sn)) div 2"
  shows "vouched c k sk sn g i now schema blob"
proof -
  let ?net = "gks_wg_net (sn_keys sn)" and ?ttl = "gks_ttl (sn_keys sn)"
  note cr = assms(1) [unfolded crypto_ok_def]
  obtain seed clock s where s: "seed_of sn g = Some seed" "unat stamp \<le> unat clock"
    "unat clock + unat ?ttl < 2 ^ 64"
    "signer_sign c k (signer_from_seed seed g ?net ?ttl) (i\<lparr>id_user_id := u\<rparr>) clock schema = Inr s"
    "to_base64 c sk s = Some blob"
    using assms(3) by (auto simp: blob_for_def)
  define att where "att = signer_attestation (signer_from_seed seed g ?net ?ttl) (i\<lparr>id_user_id := u\<rparr>) clock"
  have sg: "sign_attestation c k seed att schema = Inr s"
    using s(4) by (simp add: signer_sign_def att_def signer_from_seed_def)
  have ex: "unat (at_expires_at att) = unat clock + unat ?ttl"
    using s(3) by (simp add: att_def signer_attestation_def signer_from_seed_def unat_word_ariths)
  have pos: "0 < unat ?ttl" using assms(2) by (simp add: unat_gt_0)
  then have live: "unat now + (unat ?ttl - unat ?ttl div 2) \<le> unat (at_expires_at att)"
    "unat now < unat (at_expires_at att)"
    using ex assms(4) s(2) by auto
  have "verify_attestation c k s (ed_anchor c seed) now g schema = Inr att"
    unfolding sign_verify_attestation [OF conjunct1 [OF cr] conjunct2 [OF conjunct2 [OF conjunct2 [OF cr]]] sg]
    using live(2) by (simp add: is_expired_def att_def signer_attestation_def signer_from_seed_def word_le_nat_alt)
  moreover have "from_base64 c sk blob = Inr s" using base64_roundtrip s(5) cr by blast
  ultimately show ?thesis
    unfolding vouched_def using s(1) live(1)
    by (auto simp: att_def signer_attestation_def signer_from_seed_def)
qed

lemma vouched_mono:
  assumes "\<And>h x. seed_of sn h = Some x \<Longrightarrow> seed_of sn' h = Some x"
    and "gks_wg_net (sn_keys sn') = gks_wg_net (sn_keys sn)" and "gks_ttl (sn_keys sn') = gks_ttl (sn_keys sn)"
    and "vouched c k sk sn g i now schema blob"
  shows "vouched c k sk sn' g i now schema blob"
  using assms(1,4) unfolding vouched_def assms(2,3) by blast

text \<open>Requests served one after another.\<close>

record sign_req =
  rq_guild :: u64
  rq_identity :: att_identity
  rq_now :: u64
  rq_clock :: u64
  rq_schema :: u32
  rq_fresh :: key

definition serve_sign :: "crypto \<Rightarrow> att_codecs \<Rightarrow> signed codec \<Rightarrow> sign_req \<Rightarrow> signing \<Rightarrow> (sign_error + string) \<times> signing" where
  "serve_sign c k sk r = cached_attestation c k sk (rq_guild r) (rq_identity r) (rq_now r) (rq_clock r)
     (rq_schema r) (rq_fresh r)"

definition sign_run :: "crypto \<Rightarrow> att_codecs \<Rightarrow> signed codec \<Rightarrow> sign_req list \<Rightarrow> signing \<Rightarrow> signing" where
  "sign_run c k sk rs sn = fold (\<lambda>r sn. snd (serve_sign c k sk r sn)) rs sn"

definition new_signing :: "ipv4net \<Rightarrow> u64 \<Rightarrow> store \<Rightarrow> signing" where
  "new_signing net ttl st =
     \<lparr>sn_cache = new_sign_cache ttl, sn_keys = \<lparr>gks_wg_net = net, gks_ttl = ttl, gks_cache = []\<rparr>, sn_store = st\<rparr>"

lemma new_signing_inv: "signing_inv c k sk (new_signing net ttl st)"
  by (simp add: signing_inv_def keys_inv_def cache_inv_def new_signing_def new_sign_cache_def)

lemma sign_run_inv:
  assumes "signing_inv c k sk sn" and "\<forall>r\<in>set rs. time_ok sn (rq_now r) (rq_clock r)"
  shows "signing_inv c k sk (sign_run c k sk rs sn) \<and>
    gks_wg_net (sn_keys (sign_run c k sk rs sn)) = gks_wg_net (sn_keys sn) \<and>
    gks_ttl (sn_keys (sign_run c k sk rs sn)) = gks_ttl (sn_keys sn)"
  using assms
proof (induction rs arbitrary: sn)
  case (Cons r rs)
  let ?sn1 = "snd (serve_sign c k sk r sn)"
  have t: "time_ok sn (rq_now r) (rq_clock r)" using Cons.prems by simp
  have s: "signing_inv c k sk ?sn1" "gks_wg_net (sn_keys ?sn1) = gks_wg_net (sn_keys sn)"
    "gks_ttl (sn_keys ?sn1) = gks_ttl (sn_keys sn)"
    using cached_attestation_step [OF Cons.prems(1) t prod.collapse [symmetric]]
    by (simp_all add: serve_sign_def)
  with Cons.IH [OF s(1)] Cons.prems show ?case by (simp add: sign_run_def time_ok_def)
qed (simp add: sign_run_def)

text \<open>
  Whatever the coordinator signed and cached before, the blob it answers for a device decodes
  and verifies under that guild's current anchor, at the time of the request and for the guild
  and layout asked for, to an attestation with exactly the address, name, user label, primary
  flag and key asked for and the deployment's network; and at least half of the configured
  lifetime is left on it.\<close>

theorem sign_cache_serves_current:
  assumes "signing_ok c" and "b64_ok c" and "codec_ok sk" and "att_codecs_ok k" and "ttl \<noteq> 0"
    and "\<forall>r\<in>set (rs @ [r]). unat (rq_now r) \<le> unat (rq_clock r) \<and> unat (rq_clock r) + unat ttl < 2 ^ 64"
    and "serve_sign c k sk r (sign_run c k sk rs (new_signing net ttl st)) = (Inr blob, sn')"
  shows "\<exists>seed s att. seed_of sn' (rq_guild r) = Some seed \<and> from_base64 c sk blob = Inr s \<and>
    verify_attestation c k s (ed_anchor c seed) (rq_now r) (rq_guild r) (rq_schema r) = Inr att \<and>
    at_wg_ip att = id_ip (rq_identity r) \<and> at_wg_pubkey att = id_pubkey (rq_identity r) \<and>
    at_username att = id_username (rq_identity r) \<and> at_device_name att = id_device_name (rq_identity r) \<and>
    at_is_primary att = id_is_primary (rq_identity r) \<and> at_wg_net att = net \<and>
    unat (rq_now r) + (unat ttl - unat ttl div 2) \<le> unat (at_expires_at att)"
proof -
  let ?sn = "sign_run c k sk rs (new_signing net ttl st)"
  let ?i = "rq_identity r"
  have run: "signing_inv c k sk ?sn" "gks_wg_net (sn_keys ?sn) = net" "gks_ttl (sn_keys ?sn) = ttl"
    using sign_run_inv [OF new_signing_inv, of rs net ttl st c k sk] assms(6)
    by (auto simp: time_ok_def new_signing_def)
  have t: "time_ok ?sn (rq_now r) (rq_clock r)" using assms(6) run(3) by (simp add: time_ok_def)
  note step = cached_attestation_step [OF run(1) t assms(7) [unfolded serve_sign_def]]
  obtain u stamp where b: "blob_for c k sk sn' (rq_guild r) (?i\<lparr>id_user_id := u\<rparr>) stamp (rq_schema r) blob"
    "unat (rq_now r) \<le> unat stamp + unat ttl div 2"
    using step run(3) by auto
  have cfg: "gks_wg_net (sn_keys sn') = net" "gks_ttl (sn_keys sn') = ttl" using step run by auto
  have "vouched c k sk sn' (rq_guild r) ?i (rq_now r) (rq_schema r) blob"
    by (rule blob_vouched [OF _ _ b(1)]) (use assms(1-5) b(2) cfg in \<open>simp_all add: crypto_ok_def\<close>)
  then show ?thesis unfolding vouched_def cfg by blast
qed

subsection \<open>A witness: a first request, signed and served\<close>

definition demo_identity :: att_identity where
  "demo_identity = \<lparr>id_user_id = 7, id_username = ''alice'', id_device_name = ''nas'',
     id_is_primary = True, id_ip = ipv4_octets 100 72 0 9, id_pubkey = [1]\<rparr>"

definition demo_req :: sign_req where
  "demo_req = \<lparr>rq_guild = 5, rq_identity = demo_identity, rq_now = 100, rq_clock = 100,
     rq_schema = ATTESTATION_SCHEMA_V2, rq_fresh = replicate 32 9\<rparr>"

definition demo_signed_codec :: "signed codec" where
  "demo_signed_codec = \<lparr>enc = (\<lambda>s. if length (sig s) = 64 then Some (sig s @ payload s) else None),
     dec_of = (\<lambda>b. Some \<lparr>payload = drop 64 b, sig = take 64 b\<rparr>)\<rparr>"

theorem sign_cache_serves_current_witness:
  "\<exists>blob sn'. serve_sign demo_crypto demo_codecs demo_signed_codec demo_req
      (sign_run demo_crypto demo_codecs demo_signed_codec [] (new_signing demo_net 1800 empty_store)) = (Inr blob, sn') \<and>
    (\<exists>s. from_base64 demo_crypto demo_signed_codec blob = Inr s)"
proof -
  have att: "signer_attestation (signer_from_seed (replicate 32 9) 5 demo_net 1800) demo_identity 100 = demo_att"
    by (simp add: signer_attestation_def signer_from_seed_def demo_identity_def demo_att_def)
  have codec: "codec_ok demo_signed_codec"
    by (auto simp: codec_ok_def demo_signed_codec_def)
  obtain blob sn' where run: "serve_sign demo_crypto demo_codecs demo_signed_codec demo_req
      (sign_run demo_crypto demo_codecs demo_signed_codec [] (new_signing demo_net 1800 empty_store)) = (Inr blob, sn')"
  proof -
    have "sign_attestation demo_crypto demo_codecs (replicate 32 9) demo_att ATTESTATION_SCHEMA_V2 =
        Inr \<lparr>payload = [2], sig = demo_sign (replicate 32 9) [2]\<rparr>"
      by (simp add: sign_attestation_def signed_sign_def demo_codecs_def one_codec_def demo_crypto_def)
    then have sg: "signer_sign demo_crypto demo_codecs (signer_from_seed (replicate 32 9) 5 demo_net 1800)
        demo_identity 100 ATTESTATION_SCHEMA_V2 = Inr \<lparr>payload = [2], sig = demo_sign (replicate 32 9) [2]\<rparr>"
      unfolding signer_sign_def att by (simp add: signer_from_seed_def)
    have len: "length (demo_sign (replicate 32 9) [2]) = 64" by (simp add: demo_sign_def)
    show ?thesis
      using that len
      by (auto simp: serve_sign_def demo_req_def sign_run_def cached_attestation_def new_signing_def
          new_sign_cache_def cache_fresh_def keys_get_def load_or_create_seed_def empty_store_def Let_def sg
          to_base64_def demo_signed_codec_def)
  qed
  have t: "\<forall>r\<in>set ([] @ [demo_req]). unat (rq_now r) \<le> unat (rq_clock r) \<and> unat (rq_clock r) + unat (1800::u64) < 2 ^ 64"
    by (simp add: demo_req_def)
  from sign_cache_serves_current [OF demo_signing_ok demo_b64_ok codec demo_codecs_ok _ t run] run
  show ?thesis by auto
qed

end
