(* ===== verification/Challenges.thy ===== *)
theory Challenges
  imports Table "HOL-Library.Multiset"
begin

section \<open>Live ACME challenges: \<open>ChallengeStore\<close> of \<open>crates/coordinator/src/zone.rs\<close>\<close>

text \<open>
  The \<open>TXT\<close> values published for certificate orders, and the weekly budget they spend.
  Instants are natural numbers of seconds; \<open>duration_since\<close> saturates.
\<close>

definition CHALLENGE_TTL :: nat where "CHALLENGE_TTL = 5 * 60"
definition MAX_LIVE_CHALLENGES :: nat where "MAX_LIVE_CHALLENGES = 4096"
definition MAX_VALUES_PER_NAME :: nat where "MAX_VALUES_PER_NAME = 8"
definition ISSUANCE_WINDOW :: nat where "ISSUANCE_WINDOW = 7 * 24 * 60 * 60"
definition MAX_CERTS_PER_DEVICE_PER_WEEK :: u32 where "MAX_CERTS_PER_DEVICE_PER_WEEK = 5"

datatype publish_error = DeviceBudgetExhausted | BudgetExhausted | TooManyLive

record live =
  lv_values :: "string list"
  lv_expires_at :: nat

record challenge_store =
  ch_live :: "(string, live) hmap"
  ch_issuances :: "nat list"
  ch_per_device :: "(key, nat list) hmap"
  ch_max_certs :: u32

definition new_challenges :: "u32 \<Rightarrow> challenge_store" where
  "new_challenges m = \<lparr>ch_live = [], ch_issuances = [], ch_per_device = [], ch_max_certs = m\<rparr>"

definition issued_within :: "nat \<Rightarrow> nat \<Rightarrow> bool" where
  "issued_within now at \<longleftrightarrow> now - at < ISSUANCE_WINDOW"

definition prune :: "nat \<Rightarrow> challenge_store \<Rightarrow> challenge_store" where
  "prune now st =
     st\<lparr>ch_live := tkeep (\<lambda>_ l. now < lv_expires_at l) (ch_live st),
        ch_issuances := filter (issued_within now) (ch_issuances st),
        ch_per_device := filter (\<lambda>(d, ats). ats \<noteq> [])
          (map (\<lambda>(d, ats). (d, filter (issued_within now) ats)) (ch_per_device st))\<rparr>"

definition push_value :: "string \<Rightarrow> nat \<Rightarrow> live \<Rightarrow> live" where
  "push_value v expires l =
     (let vs = lv_values l;
          vs' = (if v \<in> set vs then vs
                 else (if MAX_VALUES_PER_NAME \<le> length vs then tl vs else vs) @ [v])
      in l\<lparr>lv_values := vs', lv_expires_at := expires\<rparr>)"

definition live_of :: "(string, live) hmap \<Rightarrow> string \<Rightarrow> nat \<Rightarrow> live" where
  "live_of m name expires = (case tget m name of Some l \<Rightarrow> l | None \<Rightarrow> \<lparr>lv_values = [], lv_expires_at = expires\<rparr>)"

definition add_record :: "nat \<Rightarrow> string \<times> string \<Rightarrow> (string, live) hmap \<Rightarrow> (string, live) hmap" where
  "add_record expires r m = tput (fst r) (push_value (snd r) expires (live_of m (fst r) expires)) m"

definition refresh_record :: "nat \<Rightarrow> string \<times> string \<Rightarrow> (string, live) hmap \<Rightarrow> (string, live) hmap" where
  "refresh_record expires r m =
     (case tget m (fst r) of Some l \<Rightarrow> tput (fst r) (l\<lparr>lv_expires_at := expires\<rparr>) m | None \<Rightarrow> m)"

definition is_live :: "(string, live) hmap \<Rightarrow> string \<times> string \<Rightarrow> bool" where
  "is_live m r \<longleftrightarrow> (case tget m (fst r) of None \<Rightarrow> False | Some l \<Rightarrow> snd r \<in> set (lv_values l))"

definition device_issuances :: "challenge_store \<Rightarrow> key \<Rightarrow> nat list" where
  "device_issuances st d = (case tget (ch_per_device st) d of None \<Rightarrow> [] | Some ats \<Rightarrow> ats)"

definition publish_at ::
  "key \<Rightarrow> (string \<times> string) list \<Rightarrow> nat \<Rightarrow> challenge_store \<Rightarrow> (publish_error + unit) \<times> challenge_store" where
  "publish_at device records now st0 =
     (let st = prune now st0; expires = now + CHALLENGE_TTL
      in if \<not> (\<exists>r\<in>set records. \<not> is_live (ch_live st) r)
         then (Inr (), st\<lparr>ch_live := fold (refresh_record expires) records (ch_live st)\<rparr>)
         else if unat (min MAX_CERTS_PER_DEVICE_PER_WEEK (ch_max_certs st)) \<le> length (device_issuances st device)
         then (Inl DeviceBudgetExhausted, st)
         else if unat (ch_max_certs st) \<le> length (ch_issuances st) then (Inl BudgetExhausted, st)
         else if MAX_LIVE_CHALLENGES < length (ch_live st) +
                   length (filter (\<lambda>r. tget (ch_live st) (fst r) = None) records)
         then (Inl TooManyLive, st)
         else (Inr (), st\<lparr>ch_live := fold (add_record expires) records (ch_live st),
                          ch_issuances := ch_issuances st @ [now],
                          ch_per_device := tput device (device_issuances st device @ [now]) (ch_per_device st)\<rparr>))"

definition lookup_challenge :: "string \<Rightarrow> nat \<Rightarrow> challenge_store \<Rightarrow> string list option \<times> challenge_store" where
  "lookup_challenge name now st0 =
     (let st = prune now st0 in (map_option lv_values (tget (ch_live st) name), st))"

definition issued_this_week :: "nat \<Rightarrow> challenge_store \<Rightarrow> nat \<times> challenge_store" where
  "issued_this_week now st0 = (let st = prune now st0 in (length (ch_issuances st), st))"

subsection \<open>The invariant\<close>

definition live_ok :: "live \<Rightarrow> bool" where
  "live_ok l \<longleftrightarrow> distinct (lv_values l) \<and> length (lv_values l) \<le> MAX_VALUES_PER_NAME"

definition live_inv :: "(string, live) hmap \<Rightarrow> bool" where
  "live_inv m \<longleftrightarrow> tok m \<and> (\<forall>n l. tget m n = Some l \<longrightarrow> live_ok l)"

definition all_issuances :: "(key, nat list) hmap \<Rightarrow> nat multiset" where
  "all_issuances m = mset (concat (map snd m))"

definition challenge_inv :: "challenge_store \<Rightarrow> bool" where
  "challenge_inv st \<longleftrightarrow> live_inv (ch_live st) \<and> length (ch_live st) \<le> MAX_LIVE_CHALLENGES \<and>
     length (ch_issuances st) \<le> unat (ch_max_certs st) \<and>
     tok (ch_per_device st) \<and>
     (\<forall>d ats. tget (ch_per_device st) d = Some ats \<longrightarrow>
        ats \<noteq> [] \<and> length ats \<le> unat (min MAX_CERTS_PER_DEVICE_PER_WEEK (ch_max_certs st))) \<and>
     all_issuances (ch_per_device st) = mset (ch_issuances st)"

lemma new_challenges_inv: "challenge_inv (new_challenges m)"
  by (simp add: challenge_inv_def new_challenges_def live_inv_def all_issuances_def)

lemma tget_map_filter:
  "tok m \<Longrightarrow> tget (filter (\<lambda>(d, x). P x) (map (\<lambda>(d, x). (d, f x)) m)) d =
     (case tget m d of None \<Rightarrow> None | Some x \<Rightarrow> if P (f x) then Some (f x) else None)"
proof (induction m)
  case (Cons y m)
  obtain a b where y: "y = (a, b)" by (cases y)
  with Cons.prems have "tget m a = None"
    by (simp add: tok_def tget_def map_of_eq_None_iff)
  with Cons y show ?case
    by (auto simp: tok_def tget_def split: option.splits)
qed simp

lemma tok_map_filter:
  "tok m \<Longrightarrow> tok (filter (\<lambda>(d, x). P x) (map (\<lambda>(d, x). (d, f x)) m))"
proof -
  assume "tok m"
  then have "distinct (map fst (map (\<lambda>(d, x). (d, f x)) m))"
    by (simp add: tok_def o_def case_prod_beta)
  then show ?thesis unfolding tok_def by (rule distinct_map_filter)
qed

lemma concat_prune: "concat (map snd (filter (\<lambda>(d, ats). ats \<noteq> []) (map (\<lambda>(d, ats). (d, filter P ats)) m)))
    = filter P (concat (map snd m))"
  by (induction m) auto

lemma prune_simps [simp]:
  "ch_max_certs (prune now st) = ch_max_certs st"
  "ch_issuances (prune now st) = filter (issued_within now) (ch_issuances st)"
  "ch_live (prune now st) = tkeep (\<lambda>_ l. now < lv_expires_at l) (ch_live st)"
  by (simp_all add: prune_def)

lemma prune_inv: "challenge_inv st \<Longrightarrow> challenge_inv (prune now st)"
proof -
  assume inv: "challenge_inv st"
  have tk: "tok (ch_live st)" "tok (ch_per_device st)" using inv by (auto simp: challenge_inv_def live_inv_def)
  have "live_inv (ch_live (prune now st))"
    using inv by (auto simp: challenge_inv_def live_inv_def tget_tkeep split: option.splits if_splits)
  moreover have "length (ch_live (prune now st)) \<le> MAX_LIVE_CHALLENGES"
    using inv length_tkeep [of "\<lambda>_ l. now < lv_expires_at l" "ch_live st"] by (simp add: challenge_inv_def)
  moreover have "length (ch_issuances (prune now st)) \<le> unat (ch_max_certs st)"
  proof -
    have "length (ch_issuances st) \<le> unat (ch_max_certs st)" using inv by (simp add: challenge_inv_def)
    then show ?thesis unfolding prune_simps by (rule le_trans [OF length_filter_le])
  qed
  moreover have "ats \<noteq> [] \<and> length ats \<le> unat (min MAX_CERTS_PER_DEVICE_PER_WEEK (ch_max_certs st))"
    if g: "tget (ch_per_device (prune now st)) d = Some ats" for d ats
  proof -
    have "tget (ch_per_device (prune now st)) d =
        (case tget (ch_per_device st) d of None \<Rightarrow> None
         | Some x \<Rightarrow> if filter (issued_within now) x \<noteq> [] then Some (filter (issued_within now) x) else None)"
      using tget_map_filter [OF tk(2), of "\<lambda>x. x \<noteq> []" "filter (issued_within now)" d] by (simp add: prune_def)
    with g obtain x where x: "tget (ch_per_device st) d = Some x" "ats = filter (issued_within now) x" "ats \<noteq> []"
      by (auto split: option.splits if_splits)
    then have "length x \<le> unat (min MAX_CERTS_PER_DEVICE_PER_WEEK (ch_max_certs st))"
      using inv by (auto simp: challenge_inv_def)
    with x length_filter_le [of "issued_within now" x] show ?thesis by (metis le_trans)
  qed
  moreover have "tok (ch_per_device (prune now st))"
    using tok_map_filter [OF tk(2)] by (simp add: prune_def)
  moreover have "all_issuances (ch_per_device (prune now st)) = mset (ch_issuances (prune now st))"
  proof -
    have "mset (concat (map snd (ch_per_device st))) = mset (ch_issuances st)"
      using inv by (simp add: challenge_inv_def all_issuances_def)
    then show ?thesis by (simp add: all_issuances_def prune_def concat_prune)
  qed
  ultimately show ?thesis by (simp add: challenge_inv_def)
qed

lemma push_value_ok: "live_ok l \<Longrightarrow> live_ok (push_value v e l)"
proof -
  assume l: "live_ok l"
  have "length (tl (lv_values l)) < MAX_VALUES_PER_NAME \<and> distinct (tl (lv_values l)) \<and>
      set (tl (lv_values l)) \<subseteq> set (lv_values l)"
    using l by (cases "lv_values l") (auto simp: live_ok_def MAX_VALUES_PER_NAME_def)
  with l show ?thesis by (auto simp: live_ok_def push_value_def Let_def)
qed

lemma add_record_inv: "live_inv m \<Longrightarrow> live_inv (add_record e r m)"
  by (auto simp: live_inv_def add_record_def live_of_def live_ok_def [of "\<lparr>lv_values = [], lv_expires_at = e\<rparr>"]
      split: option.splits intro!: push_value_ok)

lemma refresh_record_inv: "live_inv m \<Longrightarrow> live_inv (refresh_record e r m) \<and> length (refresh_record e r m) = length m"
  by (auto simp: live_inv_def refresh_record_def live_ok_def length_tput split: option.splits if_splits)

lemma fold_refresh_inv:
  "live_inv m \<Longrightarrow> live_inv (fold (refresh_record e) rs m) \<and> length (fold (refresh_record e) rs m) = length m"
  by (induction rs arbitrary: m) (auto simp: refresh_record_inv)

lemma length_fold_add:
  "live_inv m \<Longrightarrow> live_inv (fold (add_record e) rs m) \<and>
   length (fold (add_record e) rs m) \<le> length m + length (filter (\<lambda>r. tget m (fst r) = None) rs)"
proof (induction rs arbitrary: m)
  case (Cons r rs)
  let ?m = "add_record e r m"
  have i: "live_inv ?m" using Cons.prems by (rule add_record_inv)
  have l: "length ?m = length m + (if tget m (fst r) = None then 1 else 0)"
    by (simp add: add_record_def length_tput)
  have "length (filter (\<lambda>x. tget ?m (fst x) = None) rs) \<le> length (filter (\<lambda>x. tget m (fst x) = None) rs)"
    by (induction rs) (auto simp: add_record_def)
  with Cons.IH [OF i] l show ?case by auto
qed simp

lemma all_issuances_put:
  assumes "tok m"
  shows "all_issuances (tput d ((case tget m d of None \<Rightarrow> [] | Some a \<Rightarrow> a) @ [now]) m) = add_mset now (all_issuances m)"
  using assms
proof (induction m)
  case Nil
  then show ?case by (simp add: all_issuances_def tput_def)
next
  case (Cons y m)
  obtain a b where y: "y = (a, b)" by (cases y)
  show ?case
  proof (cases "a = d")
    case True
    with y show ?thesis by (simp add: all_issuances_def tput_def tget_def)
  next
    case False
    with Cons y show ?thesis by (simp add: all_issuances_def tput_def tget_def tok_def)
  qed
qed

lemma publish_inv: "challenge_inv st \<Longrightarrow> publish_at d rs now st = (res, st') \<Longrightarrow> challenge_inv st'"
proof -
  assume "challenge_inv st" and run: "publish_at d rs now st = (res, st')"
  then have inv: "challenge_inv (prune now st)" by (simp add: prune_inv)
  let ?st = "prune now st" and ?e = "now + CHALLENGE_TTL"
  have lv: "live_inv (ch_live ?st)" and tk: "tok (ch_per_device ?st)"
    using inv by (auto simp: challenge_inv_def)
  consider "st' = ?st" | "st' = ?st\<lparr>ch_live := fold (refresh_record ?e) rs (ch_live ?st)\<rparr>"
    | "st' = ?st\<lparr>ch_live := fold (add_record ?e) rs (ch_live ?st), ch_issuances := ch_issuances ?st @ [now],
          ch_per_device := tput d (device_issuances ?st d @ [now]) (ch_per_device ?st)\<rparr>"
      "length (device_issuances ?st d) < unat (min MAX_CERTS_PER_DEVICE_PER_WEEK (ch_max_certs ?st))"
      "length (ch_issuances ?st) < unat (ch_max_certs ?st)"
      "length (ch_live ?st) + length (filter (\<lambda>r. tget (ch_live ?st) (fst r) = None) rs) \<le> MAX_LIVE_CHALLENGES"
    using run by (auto simp: publish_at_def Let_def not_le not_less simp del: prune_simps split: if_splits)
  then show ?thesis
  proof cases
    case 1
    with inv show ?thesis by simp
  next
    case 2
    with inv fold_refresh_inv [OF lv, of ?e rs] show ?thesis
      by (simp add: challenge_inv_def)
  next
    case 3
    have "live_inv (fold (add_record ?e) rs (ch_live ?st)) \<and>
        length (fold (add_record ?e) rs (ch_live ?st)) \<le> MAX_LIVE_CHALLENGES"
      using length_fold_add [OF lv, of ?e rs] 3(4) by linarith
    moreover have "all_issuances (ch_per_device st') = mset (ch_issuances st')"
      using all_issuances_put [OF tk, of d now] inv
      by (simp add: 3(1) device_issuances_def challenge_inv_def)
    moreover have "ats \<noteq> [] \<and> length ats \<le> unat (min MAX_CERTS_PER_DEVICE_PER_WEEK (ch_max_certs st'))"
      if "tget (ch_per_device st') x = Some ats" for x ats
      using that inv 3(2) by (auto simp: 3(1) challenge_inv_def Suc_le_eq split: if_splits)
    ultimately show ?thesis
      using 3(3) tk by (simp add: challenge_inv_def 3(1))
  qed
qed

subsection \<open>Runs, and the orders charged along them\<close>

datatype ch_op = Publish key "(string \<times> string) list" nat | Lookup string nat

fun op_time :: "ch_op \<Rightarrow> nat" where
  "op_time (Publish d rs now) = now"
| "op_time (Lookup name now) = now"

definition novel :: "(string \<times> string) list \<Rightarrow> nat \<Rightarrow> challenge_store \<Rightarrow> bool" where
  "novel rs now st \<longleftrightarrow> (\<exists>r\<in>set rs. \<not> is_live (ch_live (prune now st)) r)"

text \<open>The log, newest first, of the orders that spent budget.\<close>

fun ch_step :: "ch_op \<Rightarrow> challenge_store \<times> (nat \<times> key) list \<Rightarrow> challenge_store \<times> (nat \<times> key) list" where
  "ch_step (Publish d rs now) (st, charged) =
     (let (res, st') = publish_at d rs now st
      in (st', if res = Inr () \<and> novel rs now st then (now, d) # charged else charged))"
| "ch_step (Lookup name now) (st, charged) = (snd (lookup_challenge name now st), charged)"

definition ch_run :: "ch_op list \<Rightarrow> u32 \<Rightarrow> challenge_store \<times> (nat \<times> key) list" where
  "ch_run ops m = fold ch_step ops (new_challenges m, [])"

text \<open>Each charge was within the caps of the week that ended with it.\<close>

fun good_log :: "u32 \<Rightarrow> (nat \<times> key) list \<Rightarrow> bool" where
  "good_log m [] = True"
| "good_log m ((t, d) # rest) =
     (good_log m rest \<and> (\<forall>x\<in>set rest. fst x \<le> t) \<and>
      length (filter (\<lambda>x. issued_within t (fst x)) rest) < unat m \<and>
      length (filter (\<lambda>x. issued_within t (fst x) \<and> snd x = d) rest) < unat (min MAX_CERTS_PER_DEVICE_PER_WEEK m))"

definition log_inv :: "challenge_store \<Rightarrow> (nat \<times> key) list \<Rightarrow> nat \<Rightarrow> bool" where
  "log_inv st charged last_op \<longleftrightarrow> (\<forall>x\<in>set charged. fst x \<le> last_op) \<and>
     (\<forall>now\<ge>last_op. length (filter (issued_within now) (ch_issuances st)) =
        length (filter (\<lambda>x. issued_within now (fst x)) charged) \<and>
        (\<forall>d. length (filter (issued_within now) (device_issuances st d)) =
           length (filter (\<lambda>x. issued_within now (fst x) \<and> snd x = d) charged))) \<and>
     good_log (ch_max_certs st) charged"

lemma length_filter_mono:
  "(\<And>x. x \<in> set xs \<Longrightarrow> P x \<Longrightarrow> Q x) \<Longrightarrow> length (filter P xs) \<le> length (filter Q xs)"
  by (induction xs) (auto intro: le_SucI)

lemma good_log_window:
  "good_log m charged \<Longrightarrow>
   length (filter (\<lambda>x. s \<le> fst x \<and> fst x < s + ISSUANCE_WINDOW) charged) \<le> unat m \<and>
   length (filter (\<lambda>x. (s \<le> fst x \<and> fst x < s + ISSUANCE_WINDOW) \<and> snd x = d) charged)
     \<le> unat (min MAX_CERTS_PER_DEVICE_PER_WEEK m)"
proof (induction m charged rule: good_log.induct)
  case (2 m t e rest)
  then have IH: "length (filter (\<lambda>x. s \<le> fst x \<and> fst x < s + ISSUANCE_WINDOW) rest) \<le> unat m"
    "length (filter (\<lambda>x. (s \<le> fst x \<and> fst x < s + ISSUANCE_WINDOW) \<and> snd x = d) rest)
       \<le> unat (min MAX_CERTS_PER_DEVICE_PER_WEEK m)" by simp_all
  show ?case
  proof (cases "s \<le> t \<and> t < s + ISSUANCE_WINDOW")
    case True
    have "length (filter (\<lambda>x. s \<le> fst x \<and> fst x < s + ISSUANCE_WINDOW) rest) \<le>
        length (filter (\<lambda>x. issued_within t (fst x)) rest)"
      by (rule length_filter_mono) (use True in \<open>auto simp: issued_within_def\<close>)
    moreover have "length (filter (\<lambda>x. (s \<le> fst x \<and> fst x < s + ISSUANCE_WINDOW) \<and> snd x = e) rest) \<le>
        length (filter (\<lambda>x. issued_within t (fst x) \<and> snd x = e) rest)"
      by (rule length_filter_mono) (use True in \<open>auto simp: issued_within_def\<close>)
    ultimately show ?thesis using 2(2) IH(2) True by auto
  qed (use IH in auto)
qed simp

lemma in_window_mono: "now0 \<le> now \<Longrightarrow> issued_within now at \<Longrightarrow> issued_within now0 at"
  by (simp add: issued_within_def)

lemma filter_window_mono:
  "now0 \<le> now \<Longrightarrow> filter (issued_within now) (filter (issued_within now0) xs) = filter (issued_within now) xs"
  by (induction xs) (auto dest: in_window_mono)

lemma device_issuances_prune:
  assumes "tok (ch_per_device st)"
  shows "device_issuances (prune now st) d = filter (issued_within now) (device_issuances st d)"
proof -
  have "tget (ch_per_device (prune now st)) d =
      (case tget (ch_per_device st) d of None \<Rightarrow> None
       | Some x \<Rightarrow> if filter (issued_within now) x \<noteq> [] then Some (filter (issued_within now) x) else None)"
    using tget_map_filter [OF assms, of "\<lambda>x. x \<noteq> []" "filter (issued_within now)" d] by (simp add: prune_def)
  then show ?thesis by (auto simp: device_issuances_def split: option.splits)
qed

lemma log_inv_prune:
  assumes "challenge_inv st" and "log_inv st charged t0" and "t0 \<le> now"
  shows "log_inv (prune now st) charged now"
proof -
  have tk: "tok (ch_per_device st)" using assms(1) by (simp add: challenge_inv_def)
  have "\<forall>x\<in>set charged. fst x \<le> now" using assms(2,3) by (auto simp: log_inv_def)
  moreover have "length (filter (issued_within n) (ch_issuances (prune now st))) =
        length (filter (\<lambda>x. issued_within n (fst x)) charged) \<and>
      length (filter (issued_within n) (device_issuances (prune now st) d)) =
        length (filter (\<lambda>x. issued_within n (fst x) \<and> snd x = d) charged)" if "now \<le> n" for n d
    using that assms(2,3) by (simp add: log_inv_def device_issuances_prune [OF tk] filter_window_mono del: filter_filter)
  ultimately show ?thesis using assms(2) by (simp add: log_inv_def)
qed

lemma publish_max: "ch_max_certs (snd (publish_at d rs now st)) = ch_max_certs st"
  by (simp add: publish_at_def Let_def)

text \<open>The two answers \<open>Ok\<close> has: nothing new, or an order charged within the budgets.\<close>

lemma publish_cases:
  assumes "publish_at d rs now st = (res, st')"
  obtains (free) "\<not> novel rs now st" "res = Inr ()"
      "st' = (prune now st)\<lparr>ch_live := fold (refresh_record (now + CHALLENGE_TTL)) rs (ch_live (prune now st))\<rparr>"
  | (refused) e where "novel rs now st" "res = Inl e" "st' = prune now st"
  | (charged) "novel rs now st" "res = Inr ()"
      "length (device_issuances (prune now st) d) < unat (min MAX_CERTS_PER_DEVICE_PER_WEEK (ch_max_certs st))"
      "length (ch_issuances (prune now st)) < unat (ch_max_certs st)"
      "st' = (prune now st)\<lparr>ch_live := fold (add_record (now + CHALLENGE_TTL)) rs (ch_live (prune now st)),
         ch_issuances := ch_issuances (prune now st) @ [now],
         ch_per_device := tput d (device_issuances (prune now st) d @ [now]) (ch_per_device (prune now st))\<rparr>"
proof (cases "novel rs now st")
  case False
  then show ?thesis
    using assms free by (auto simp: publish_at_def Let_def novel_def simp del: prune_simps)
next
  case True
  then show ?thesis
    using assms refused charged
    by (auto simp: publish_at_def Let_def novel_def not_le simp del: prune_simps(2,3) split: if_splits)
qed

lemma ch_step_inv:
  assumes "challenge_inv st" and "log_inv st charged t0" and "t0 \<le> op_time op"
    and "ch_step op (st, charged) = (st', charged')"
  shows "challenge_inv st' \<and> log_inv st' charged' (op_time op) \<and> ch_max_certs st' = ch_max_certs st"
proof (cases op)
  case (Lookup name now)
  with assms show ?thesis
    by (auto simp: lookup_challenge_def Let_def prune_inv log_inv_prune)
next
  case (Publish d rs now)
  obtain res st1 where run: "publish_at d rs now st = (res, st1)" by fastforce
  have t0: "t0 \<le> now" using assms(3) Publish by simp
  have inv: "challenge_inv st1" by (rule publish_inv [OF assms(1) run])
  have li: "log_inv (prune now st) charged now" by (rule log_inv_prune [OF assms(1,2) t0])
  have st': "st' = st1" "charged' = (if res = Inr () \<and> novel rs now st then (now, d) # charged else charged)"
    using assms(4) run by (simp_all add: Publish Let_def split: if_splits)
  have mx: "ch_max_certs st1 = ch_max_certs st" using publish_max [of d rs now st] run by simp
  from run show ?thesis
  proof (cases rule: publish_cases)
    case free
    with li inv mx st' Publish show ?thesis by (simp add: log_inv_def device_issuances_def)
  next
    case (refused e)
    with li inv mx st' Publish show ?thesis by simp
  next
    case charged: charged
    have cur: "filter (issued_within now) (ch_issuances (prune now st)) = ch_issuances (prune now st)"
      "filter (issued_within now) (device_issuances (prune now st) d) = device_issuances (prune now st) d"
      using assms(1) by (simp_all add: device_issuances_prune challenge_inv_def)
    have len: "length (filter (issued_within now) (ch_issuances (prune now st))) =
        length (filter (\<lambda>x. issued_within now (fst x)) charged)"
      "length (filter (issued_within now) (device_issuances (prune now st) d)) =
        length (filter (\<lambda>x. issued_within now (fst x) \<and> snd x = d) charged)"
      using li unfolding log_inv_def by blast+
    have "length (filter (\<lambda>x. issued_within now (fst x)) charged) < unat (ch_max_certs st)"
      "length (filter (\<lambda>x. issued_within now (fst x) \<and> snd x = d) charged) <
         unat (min MAX_CERTS_PER_DEVICE_PER_WEEK (ch_max_certs st))"
      using charged(4,3) unfolding len [symmetric] cur .
    then have good: "good_log (ch_max_certs st) ((now, d) # charged)"
      using li by (simp add: log_inv_def)
    have get: "device_issuances st1 e = (if e = d then device_issuances (prune now st) d @ [now]
        else device_issuances (prune now st) e)" for e
      by (simp add: charged(5) device_issuances_def)
    have "length (filter (issued_within n) (ch_issuances st1)) =
        length (filter (\<lambda>x. issued_within n (fst x)) ((now, d) # charged)) \<and>
      length (filter (issued_within n) (device_issuances st1 e)) =
        length (filter (\<lambda>x. issued_within n (fst x) \<and> snd x = e) ((now, d) # charged))"
      if "now \<le> n" for n e
      using that li unfolding log_inv_def get by (simp add: charged(5))
    moreover have "\<forall>x\<in>set ((now, d) # charged). fst x \<le> now" using li by (simp add: log_inv_def)
    ultimately have "log_inv st1 ((now, d) # charged) now"
      using good mx by (simp add: log_inv_def del: good_log.simps)
    with inv mx st' charged(1,2) Publish show ?thesis by simp
  qed
qed

lemma length_le_concat: "\<forall>x\<in>set xs. snd x \<noteq> [] \<Longrightarrow> length xs \<le> length (concat (map snd xs))"
proof (induction xs)
  case (Cons x xs)
  then show ?case by (cases "snd x") auto
qed simp

lemma ch_fold_inv:
  "challenge_inv st \<Longrightarrow> log_inv st charged t0 \<Longrightarrow> sorted (t0 # map op_time ops) \<Longrightarrow>
   fold ch_step ops (st, charged) = (st', charged') \<Longrightarrow>
   challenge_inv st' \<and> good_log (ch_max_certs st) charged' \<and> ch_max_certs st' = ch_max_certs st"
proof (induction ops arbitrary: st charged t0)
  case Nil
  then show ?case by (simp add: log_inv_def)
next
  case (Cons op ops)
  obtain st1 c1 where s: "ch_step op (st, charged) = (st1, c1)" by fastforce
  have "challenge_inv st1 \<and> log_inv st1 c1 (op_time op) \<and> ch_max_certs st1 = ch_max_certs st"
    using ch_step_inv [OF Cons.prems(1,2) _ s] Cons.prems(3) by simp
  with Cons.IH [of st1 c1 "op_time op"] Cons.prems(3,4) s show ?case by simp
qed

text \<open>
  Whatever orders devices place and resolvers look up, in any seven days at most the
  deployment's weekly number of orders is charged, and at most five of them to one device; at
  no time are more than 4096 names live or more than eight values at one name, and the
  budget tables hold no more entries than the weekly number.\<close>

theorem challenge_budget:
  assumes "ch_run ops m = (st, charged)" and "sorted (map op_time ops)"
  shows "length (filter (\<lambda>x. s \<le> fst x \<and> fst x < s + ISSUANCE_WINDOW) charged) \<le> unat m \<and>
    length (filter (\<lambda>x. (s \<le> fst x \<and> fst x < s + ISSUANCE_WINDOW) \<and> snd x = d) charged) \<le> 5 \<and>
    length (ch_live st) \<le> MAX_LIVE_CHALLENGES \<and>
    (\<forall>n l. tget (ch_live st) n = Some l \<longrightarrow> length (lv_values l) \<le> MAX_VALUES_PER_NAME) \<and>
    length (ch_issuances st) \<le> unat m \<and> length (ch_per_device st) \<le> unat m"
proof -
  have "log_inv (new_challenges m) [] 0"
    by (simp add: log_inv_def new_challenges_def device_issuances_def)
  then have r: "challenge_inv st \<and> good_log m charged \<and> ch_max_certs st = m"
    using ch_fold_inv [OF new_challenges_inv, of m "[]" 0 ops st charged] assms
    by (simp add: ch_run_def new_challenges_def)
  have "unat (min MAX_CERTS_PER_DEVICE_PER_WEEK m) \<le> 5"
    by (simp add: MAX_CERTS_PER_DEVICE_PER_WEEK_def min_def word_le_nat_alt)
  then have w: "length (filter (\<lambda>x. s \<le> fst x \<and> fst x < s + ISSUANCE_WINDOW) charged) \<le> unat m"
    "length (filter (\<lambda>x. (s \<le> fst x \<and> fst x < s + ISSUANCE_WINDOW) \<and> snd x = d) charged) \<le> 5"
    using good_log_window [of m charged s d] r by linarith+
  have "length (ch_per_device st) \<le> length (concat (map snd (ch_per_device st)))"
  proof -
    have "\<forall>x\<in>set (ch_per_device st). snd x \<noteq> []"
      using r tget_SomeI unfolding challenge_inv_def by (metis prod.collapse)
    then show ?thesis by (rule length_le_concat)
  qed
  also have "\<dots> = length (ch_issuances st)"
    using r unfolding challenge_inv_def all_issuances_def by (metis size_mset)
  finally have "length (ch_per_device st) \<le> length (ch_issuances st)" .
  moreover have "length (ch_issuances st) \<le> unat m" using r by (auto simp: challenge_inv_def)
  ultimately show ?thesis using w r by (auto simp: challenge_inv_def live_inv_def live_ok_def)
qed

lemma challenge_budget_witness:
  "fst (hd (snd (ch_run [Publish [1] [(''a'', ''v'')] 7, Lookup ''a'' 8] 1))) = 7 \<and>
   length (filter (\<lambda>x. 0 \<le> fst x \<and> fst x < 0 + ISSUANCE_WINDOW)
     (snd (ch_run [Publish [1] [(''a'', ''v'')] 7, Lookup ''a'' 8] 1))) \<le> unat (1 :: u32)"
proof (rule conjI)
  show "fst (hd (snd (ch_run [Publish [1] [(''a'', ''v'')] 7, Lookup ''a'' 8] 1))) = 7"
    by (simp add: ch_run_def publish_at_def Let_def novel_def is_live_def new_challenges_def
        device_issuances_def prune_def tkeep_def tget_def MAX_CERTS_PER_DEVICE_PER_WEEK_def MAX_LIVE_CHALLENGES_def)
  have "sorted (map op_time [Publish [1] [(''a'', ''v'')] 7, Lookup ''a'' 8])" by simp
  from challenge_budget [OF prod.collapse [symmetric] this]
  show "length (filter (\<lambda>x. 0 \<le> fst x \<and> fst x < 0 + ISSUANCE_WINDOW)
     (snd (ch_run [Publish [1] [(''a'', ''v'')] 7, Lookup ''a'' 8] 1))) \<le> unat (1 :: u32)"
    by (rule conjunct1)
qed

subsection \<open>What a publish makes resolvable\<close>

lemma fold_refresh_get:
  "tget m n = Some l \<Longrightarrow> n \<in> fst ` set rs \<Longrightarrow>
   tget (fold (refresh_record e) rs m) n = Some (l\<lparr>lv_expires_at := e\<rparr>)"
proof (induction rs arbitrary: m l)
  case (Cons r rs)
  show ?case
  proof (cases "n \<in> fst ` set rs")
    case True
    with Cons.IH [of "refresh_record e r m"] Cons.prems show ?thesis
      by (cases "fst r = n") (auto simp: refresh_record_def split: option.splits)
  next
    case False
    then have r: "fst r = n" using Cons.prems by auto
    have "n \<notin> fst ` set rs \<Longrightarrow> tget (fold (refresh_record e) rs m') n = tget m' n" for m'
      by (induction rs arbitrary: m') (auto simp: refresh_record_def split: option.splits)
    from this [OF False] r Cons.prems(1) show ?thesis
      by (simp only: fold_simps) (simp add: refresh_record_def [of e r])
  qed
qed simp

definition values_at :: "(string, live) hmap \<Rightarrow> string \<Rightarrow> string list" where
  "values_at m n = (case tget m n of None \<Rightarrow> [] | Some l \<Rightarrow> lv_values l)"

lemma values_at_add:
  "values_at (add_record e r m) n =
     (if fst r = n then lv_values (push_value (snd r) e \<lparr>lv_values = values_at m n, lv_expires_at = e\<rparr>)
      else values_at m n)"
  by (auto simp: values_at_def add_record_def live_of_def push_value_def Let_def split: option.splits)

lemma push_value_room:
  "length vs < MAX_VALUES_PER_NAME \<Longrightarrow>
   set (lv_values (push_value v e \<lparr>lv_values = vs, lv_expires_at = x\<rparr>)) = insert v (set vs) \<and>
   length (lv_values (push_value v e \<lparr>lv_values = vs, lv_expires_at = x\<rparr>)) \<le> Suc (length vs)"
  by (auto simp: push_value_def Let_def)

lemma fold_add_values:
  "length (values_at m n) + length (filter (\<lambda>r. fst r = n) rs) \<le> MAX_VALUES_PER_NAME \<Longrightarrow>
   set (values_at (fold (add_record e) rs m) n) = set (values_at m n) \<union> snd ` {r \<in> set rs. fst r = n}"
proof (induction rs arbitrary: m)
  case (Cons r rs)
  show ?case
  proof (cases "fst r = n")
    case True
    then have room: "length (values_at m n) < MAX_VALUES_PER_NAME" using Cons.prems by simp
    have "set (values_at (fold (add_record e) rs (add_record e r m)) n) =
        set (values_at (add_record e r m) n) \<union> snd ` {r \<in> set rs. fst r = n}"
      by (rule Cons.IH) (use push_value_room [OF room, of "snd r" e e] Cons.prems True in \<open>simp add: values_at_add\<close>)
    with push_value_room [OF room, of "snd r" e e] True show ?thesis
      by (auto simp: values_at_add)
  next
    case False
    with Cons.IH [of "add_record e r m"] Cons.prems show ?thesis by (auto simp: values_at_add)
  qed
qed simp

lemma fold_add_expiry:
  "n \<in> fst ` set rs \<or> (\<exists>l. tget m n = Some l \<and> lv_expires_at l = e) \<Longrightarrow>
   \<exists>l. tget (fold (add_record e) rs m) n = Some l \<and> lv_expires_at l = e"
proof (induction rs arbitrary: m)
  case (Cons r rs)
  have "lv_expires_at (push_value v e l) = e" for v l by (simp add: push_value_def Let_def)
  then have "n \<in> fst ` set rs \<or> (\<exists>l. tget (add_record e r m) n = Some l \<and> lv_expires_at l = e)"
    using Cons.prems by (auto simp: add_record_def)
  with Cons.IH show ?case by simp
qed auto

lemma publish_live:
  assumes "challenge_inv st" and "publish_at d rs now st = (Inr (), st')" and "r \<in> set rs"
    and "length (values_at (ch_live (prune now st)) (fst r)) + length (filter (\<lambda>r'. fst r' = fst r) rs)
      \<le> MAX_VALUES_PER_NAME"
  shows "\<exists>l. tget (ch_live st') (fst r) = Some l \<and> snd r \<in> set (lv_values l) \<and> lv_expires_at l = now + CHALLENGE_TTL"
  using assms(2)
proof (cases rule: publish_cases)
  case free
  then obtain l where "tget (ch_live (prune now st)) (fst r) = Some l" "snd r \<in> set (lv_values l)"
    using assms(3) by (auto simp: novel_def is_live_def split: option.splits)
  with fold_refresh_get [of "ch_live (prune now st)" "fst r" l rs] free(3) assms(3) show ?thesis by simp
next
  case charged
  have live: "ch_live st' = fold (add_record (now + CHALLENGE_TTL)) rs (ch_live (prune now st))"
    by (simp add: charged(5))
  obtain l where l: "tget (ch_live st') (fst r) = Some l" "lv_expires_at l = now + CHALLENGE_TTL"
    using fold_add_expiry [of "fst r" rs] assms(3) unfolding live by blast
  have "snd r \<in> set (values_at (ch_live st') (fst r))"
    unfolding live fold_add_values [OF assms(4)] using assms(3) by blast
  with l show ?thesis by (simp add: values_at_def)
qed simp

text \<open>
  After a publish that succeeded, the value of each record is among the answers for its name
  until five minutes have passed, whether it was new or refreshed, and then the name is
  gone; the name must have room for the values the request gives it, since a full name
  evicts its oldest one.\<close>

theorem published_is_served:
  assumes "challenge_inv st" and "publish_at d rs now st = (Inr (), st')" and "r \<in> set rs"
    and "length (values_at (ch_live (prune now st)) (fst r)) + length (filter (\<lambda>r'. fst r' = fst r) rs)
      \<le> MAX_VALUES_PER_NAME"
  shows "case fst (lookup_challenge (fst r) t st') of
      Some vs \<Rightarrow> t < now + CHALLENGE_TTL \<and> snd r \<in> set vs
    | None \<Rightarrow> now + CHALLENGE_TTL \<le> t"
proof -
  note publish_live [OF assms]
  moreover have "tok (ch_live st')"
    using publish_inv [OF assms(1,2)] by (simp add: challenge_inv_def live_inv_def)
  ultimately show ?thesis by (auto simp: lookup_challenge_def Let_def tget_tkeep)
qed

lemma published_is_served_witness:
  "case fst (lookup_challenge ''a'' 306
      (snd (publish_at [1] [(''a'', ''v''), (''a'', ''w'')] 7 (new_challenges 1)))) of
      Some vs \<Rightarrow> 306 < 7 + CHALLENGE_TTL \<and> ''w'' \<in> set vs
    | None \<Rightarrow> 7 + CHALLENGE_TTL \<le> 306"
proof -
  have "fst (publish_at [1] [(''a'', ''v''), (''a'', ''w'')] 7 (new_challenges 1)) = Inr ()" by code_simp
  then have "publish_at [1] [(''a'', ''v''), (''a'', ''w'')] 7 (new_challenges 1)
      = (Inr (), snd (publish_at [1] [(''a'', ''v''), (''a'', ''w'')] 7 (new_challenges 1)))"
    by (metis prod.collapse)
  from published_is_served [OF new_challenges_inv this, where r = "(''a'', ''w'')" and t = 306]
  show ?thesis
    unfolding fst_conv snd_conv
    by (simp add: values_at_def prune_def new_challenges_def MAX_VALUES_PER_NAME_def tget_def tkeep_def)
qed

end
