(* ===== verification/ApiTypes.thy ===== *)
theory ApiTypes
  imports Store Limiter
begin

section \<open>Requests and refusals of the HTTP API\<close>

text \<open>
  \<open>ApiError\<close> of \<open>crates/coordinator/src/api/mod.rs\<close> by its status (its text is for people), and the
  request and reply types of \<open>crates/common/src/api.rs\<close> the handlers read.
\<close>

subsection \<open>Refusals\<close>

datatype status =
    BAD_REQUEST | UNAUTHORIZED | FORBIDDEN | NOT_FOUND | CONFLICT | UPGRADE_REQUIRED
  | TOO_MANY_REQUESTS | INTERNAL_SERVER_ERROR | NOT_IMPLEMENTED | SERVICE_UNAVAILABLE

datatype api_error = ApiError status

definition internal :: "store_error \<Rightarrow> api_error" where
  "internal e = ApiError INTERNAL_SERVER_ERROR"

definition orInternal :: "store_error + 'a \<Rightarrow> api_error + 'a" where
  "orInternal r = (case r of Inl e \<Rightarrow> Inl (internal e) | Inr a \<Rightarrow> Inr a)"

lemma orInternal_simps [simp]:
  "orInternal (Inl e) = Inl (internal e)" "orInternal (Inr a) = Inr a"
  by (simp_all add: orInternal_def)

lemma orInternal_Inr [simp]: "orInternal r = Inr a \<longleftrightarrow> r = Inr a"
  by (cases r) simp_all

subsection \<open>The messages of \<open>/register\<close>\<close>

record network_ref =
  nr_guild_id :: u64
  nr_role_id :: u64

record observed_endpoint =
  oe_pubkey :: key
  oe_endpoint :: sockaddr

record relay_allocation =
  al_peer :: key
  al_relayed :: sockaddr

record ice_params =
  ic_ufrag :: string
  ic_pwd :: string
  ic_candidates :: "string list"

record ice_endpoint =
  ie_peer :: key
  ie_params :: ice_params

record held_peer =
  hp_pubkey :: key
  hp_rev :: u64

record register_req =
  rq_wg_pubkey :: key
  rq_device_name :: string
  rq_enrollment_key :: "string option"
  rq_device_token :: "string option"
  rq_possession_proof :: "key option"
  rq_endpoint :: "sockaddr option"
  rq_since :: "u64 option"
  rq_disabled_networks :: "network_ref list"
  rq_observed :: "observed_endpoint list"
  rq_supersede :: "string option"
  rq_paused :: bool
  rq_relay_capable :: bool
  rq_relay_addr :: "sockaddr option"
  rq_relay_secret :: "string option"
  rq_need_relay :: "key list"
  rq_relay_allocated :: "relay_allocation list"
  rq_ice :: "ice_endpoint list"
  rq_peer_own_devices :: bool
  rq_proto :: u32
  rq_proto_min :: u32
  rq_caps :: "string list"
  rq_client_version :: string
  rq_held :: "held_peer list"

record relay_info =
  ri_turn_addr :: sockaddr
  ri_username :: string
  ri_credential :: string
  ri_realm :: string
  ri_peer_relayed :: "sockaddr option"

record guild_attestation =
  ga_attestation :: string
  ga_community_name :: string
  ga_att_schema :: u32

record shared_network =
  sh_name :: string
  sh_community :: string
  sh_guild_id :: u64
  sh_role_id :: u64

definition shared_network_id :: "shared_network \<Rightarrow> (u64 \<times> u64) option" where
  "shared_network_id n =
     (if sh_guild_id n \<noteq> 0 \<and> sh_role_id n \<noteq> 0 then Some (sh_guild_id n, sh_role_id n) else None)"

record grant =
  gr_attestations :: "guild_attestation list"
  gr_networks :: "string list"

record seed =
  sd_attestations :: "guild_attestation list"
  sd_endpoint :: "sockaddr option"
  sd_punch :: "sockaddr option"
  sd_networks :: "shared_network list"
  sd_relay :: "relay_info option"
  sd_ice :: "ice_params option"
  sd_rev :: u64

record network_status =
  ns_guild_id :: u64
  ns_role_id :: u64
  ns_name :: string
  ns_guild_name :: string
  ns_enabled :: bool

record guild_anchor =
  an_guild_id :: u64
  an_pubkey :: key
  an_rotation_chain :: "string list"

record register_resp =
  rs_anchors :: "guild_anchor list"
  rs_grant :: "grant option"
  rs_device_token :: "string option"
  rs_seeds :: "seed list"
  rs_version :: u64
  rs_networks :: "network_status list"
  rs_dns_domain :: "string option"
  rs_stun_port :: "u16 option"
  rs_proto :: u32
  rs_proto_min :: u32
  rs_proto_max :: u32
  rs_caps :: "string list"
  rs_server_version :: string
  rs_release :: "string option"
  rs_release_signed :: "string option"
  rs_partial :: bool
  rs_removed :: "key list"

end
