(* ===== verification/Zone.thy ===== *)
theory Zone
  imports Challenges Limiter ServiceNames
begin

section \<open>The authoritative responder: \<open>Zone\<close> of \<open>crates/coordinator/src/zone.rs\<close>\<close>

text \<open>
  What the coordinator's DNS listener answers. Names, their comparison and the wire format belong to
  the crate \<open>hickory_proto\<close>: they are the fields of \<open>hickory\<close>, a parameter of every operation. The
  messages are the fields of hickory's \<open>Message\<close> that \<open>answer\<close> reads or writes.
\<close>

datatype message_type = MtQuery | MtResponse
datatype op_code = OpQuery | OpOther u8
datatype response_code = NoError | FormErr | NXDomain | NotImp | Refused
datatype record_type = SOA | NS | TXT | TypeA | ANY | AXFR | IXFR | OtherType u16

datatype 'n rdata =
    RSoa 'n 'n u32 int int int u32
  | RNs 'n
  | RTxt "string list"
  | RA u32

record 'n question =
  q_name :: 'n
  q_type :: record_type

record 'n rr =
  rr_name :: 'n
  rr_ttl :: u32
  rr_data :: "'n rdata"

record 'n message =
  m_id :: u16
  m_type :: message_type
  m_op_code :: op_code
  m_recursion_desired :: bool
  m_recursion_available :: bool
  m_authoritative :: bool
  m_response_code :: response_code
  m_queries :: "'n question list"
  m_answers :: "'n rr list"
  m_authorities :: "'n rr list"

record 'n hickory =
  h_parse :: "string \<Rightarrow> 'n option"
  h_from_ascii :: "string \<Rightarrow> 'n option"
  h_to_string :: "'n \<Rightarrow> string"
  h_to_lowercase :: "'n \<Rightarrow> 'n"
  h_zone_of :: "'n \<Rightarrow> 'n \<Rightarrow> bool"
  h_same :: "'n \<Rightarrow> 'n \<Rightarrow> bool"
  h_response :: "u16 \<Rightarrow> op_code \<Rightarrow> 'n message"
  h_from_vec :: "u8 list \<Rightarrow> 'n message option"
  h_to_vec :: "'n message \<Rightarrow> u8 list option"
  h_max_payload :: "'n message \<Rightarrow> u16"
  h_truncate :: "'n message \<Rightarrow> 'n message"

text \<open>
  What is documented of \<open>Message::response\<close>: a reply with that id and opcode, no error and empty
  sections.
\<close>

definition hickory_ok :: "'n hickory \<Rightarrow> bool" where
  "hickory_ok h \<longleftrightarrow> (\<forall>i op. let m = h_response h i op in
     m_id m = i \<and> m_type m = MtResponse \<and> m_op_code m = op \<and> m_response_code m = NoError \<and>
     m_queries m = [] \<and> m_answers m = [] \<and> m_authorities m = [])"

subsection \<open>The zone\<close>

definition CHALLENGE_RECORD_TTL_SECS :: u32 where "CHALLENGE_RECORD_TTL_SECS = 60"
definition ZONE_TTL_SECS :: u32 where "ZONE_TTL_SECS = 300"
definition MIN_UDP_PAYLOAD :: nat where "MIN_UDP_PAYLOAD = 512"
definition MAX_TCP_QUERY :: nat where "MAX_TCP_QUERY = 4096"

record 'n zone =
  z_origin :: 'n
  z_serial :: u32

definition new_zone :: "'n hickory \<Rightarrow> string \<Rightarrow> u64 option \<Rightarrow> 'n zone option" where
  "new_zone h domain now =
     (case h_parse h (domain @ [dot]) of
        None \<Rightarrow> None
      | Some origin \<Rightarrow>
          Some \<lparr>z_origin = h_to_lowercase h origin,
                z_serial = (case now of Some s \<Rightarrow> ucast s | None \<Rightarrow> 1)\<rparr>)"

definition soa :: "'n hickory \<Rightarrow> 'n zone \<Rightarrow> 'n rr" where
  "soa h z =
     \<lparr>rr_name = z_origin z, rr_ttl = ZONE_TTL_SECS,
      rr_data = RSoa (z_origin z)
        (case h_from_ascii h (''hostmaster.'' @ h_to_string h (z_origin z)) of Some n \<Rightarrow> n | None \<Rightarrow> z_origin z)
        (z_serial z) (uint ZONE_TTL_SECS) (uint ZONE_TTL_SECS) (int ISSUANCE_WINDOW) ZONE_TTL_SECS\<rparr>"

definition add_answer :: "'n rr \<Rightarrow> 'n message \<Rightarrow> 'n message" where
  "add_answer r m = m\<lparr>m_answers := m_answers m @ [r]\<rparr>"

definition add_authority :: "'n rr \<Rightarrow> 'n message \<Rightarrow> 'n message" where
  "add_authority r m = m\<lparr>m_authorities := m_authorities m @ [r]\<rparr>"

definition apex_answer :: "'n hickory \<Rightarrow> 'n zone \<Rightarrow> record_type \<Rightarrow> 'n message \<Rightarrow> 'n message" where
  "apex_answer h z qtype resp =
     (case qtype of
        SOA \<Rightarrow> add_answer (soa h z) resp
      | NS \<Rightarrow> add_answer \<lparr>rr_name = z_origin z, rr_ttl = ZONE_TTL_SECS, rr_data = RNs (z_origin z)\<rparr> resp
      | _ \<Rightarrow> add_authority (soa h z) resp)"

definition challenge_rr :: "'n \<Rightarrow> string \<Rightarrow> 'n rr" where
  "challenge_rr qname v = \<lparr>rr_name = qname, rr_ttl = CHALLENGE_RECORD_TTL_SECS, rr_data = RTxt [v]\<rparr>"

definition unrooted :: "string \<Rightarrow> string" where
  "unrooted key = (case strip_suffix [dot] key of Some k \<Rightarrow> k | None \<Rightarrow> key)"

definition below_answer ::
  "'n hickory \<Rightarrow> 'n zone \<Rightarrow> 'n question \<Rightarrow> string list option \<Rightarrow> 'n message \<Rightarrow> 'n message" where
  "below_answer h z q found resp =
     (case found of
        Some values \<Rightarrow>
          if q_type q = TXT then fold (\<lambda>v. add_answer (challenge_rr (q_name q) v)) values resp
          else add_authority (soa h z) resp
      | None \<Rightarrow> add_authority (soa h z) (resp\<lparr>m_response_code := NXDomain\<rparr>))"

definition reply_to :: "'n hickory \<Rightarrow> 'n message \<Rightarrow> 'n message" where
  "reply_to h req =
     (h_response h (m_id req) (m_op_code req))\<lparr>m_recursion_desired := m_recursion_desired req,
        m_recursion_available := False, m_authoritative := True\<rparr>"

definition answer ::
  "'n hickory \<Rightarrow> 'n zone \<Rightarrow> 'n message \<Rightarrow> nat \<Rightarrow> challenge_store \<Rightarrow> 'n message option \<times> challenge_store" where
  "answer h z req now st =
     (if m_type req \<noteq> MtQuery then (None, st)
      else let resp = reply_to h req
        in if m_op_code req \<noteq> OpQuery then (Some (resp\<lparr>m_response_code := NotImp\<rparr>), st)
           else case m_queries req of
             [q] \<Rightarrow>
               let resp = resp\<lparr>m_queries := m_queries resp @ [q]\<rparr>;
                   qname = h_to_lowercase h (q_name q)
               in if \<not> h_zone_of h (z_origin z) qname
                  then (Some (resp\<lparr>m_authoritative := False, m_response_code := Refused\<rparr>), st)
                  else if q_type q \<in> {ANY, AXFR, IXFR} then (Some (resp\<lparr>m_response_code := Refused\<rparr>), st)
                  else if h_same h qname (z_origin z) then (Some (apex_answer h z (q_type q) resp), st)
                  else let (found, st') = lookup_challenge (unrooted (h_to_string h qname)) now st
                    in (Some (below_answer h z q found resp), st')
           | _ \<Rightarrow> (Some (resp\<lparr>m_response_code := FormErr\<rparr>), st))"

definition respond ::
  "'n hickory \<Rightarrow> 'n zone \<Rightarrow> u8 list \<Rightarrow> bool \<Rightarrow> nat \<Rightarrow> challenge_store \<Rightarrow> u8 list option \<times> challenge_store" where
  "respond h z query over_tcp now st =
     (case h_from_vec h query of
        None \<Rightarrow> (None, st)
      | Some req \<Rightarrow>
          (case answer h z req now st of
             (None, st') \<Rightarrow> (None, st')
           | (Some resp, st') \<Rightarrow>
               (case h_to_vec h resp of
                  None \<Rightarrow> (None, st')
                | Some bytes \<Rightarrow>
                    (if over_tcp then Some bytes
                     else if length bytes \<le> max (unat (h_max_payload h req)) MIN_UDP_PAYLOAD then Some bytes
                     else h_to_vec h (h_truncate h resp), st'))))"

subsection \<open>The listeners\<close>

text \<open>
  One datagram of \<open>serve_udp\<close> (at most \<open>MIN_UDP_PAYLOAD * 8\<close> bytes of it are read), and one
  connection of \<open>serve_tcp\<close> whose length prefix and body arrived in time. The limiter counts
  nanoseconds and the challenge store seconds.
\<close>

definition DNS_CAPS :: caps where
  "DNS_CAPS = \<lparr>cap_window = 10 ^ 9, max_per_ip = 20, max_total = 2000, max_tracked_ips = 4096\<rparr>"

definition udp_step ::
  "'n hickory \<Rightarrow> 'n zone \<Rightarrow> ip \<Rightarrow> u8 list \<Rightarrow> nat \<Rightarrow> counter \<times> challenge_store \<Rightarrow>
   u8 list option \<times> counter \<times> challenge_store" where
  "udp_step h z src packet now s =
     (case allow src now (fst s) of
        (False, limiter) \<Rightarrow> (None, limiter, snd s)
      | (True, limiter) \<Rightarrow>
          (case respond h z (take (MIN_UDP_PAYLOAD * 8) packet) False (now div 10 ^ 9) (snd s) of
             (resp, st) \<Rightarrow> (resp, limiter, st)))"

definition tcp_conn ::
  "'n hickory \<Rightarrow> 'n zone \<Rightarrow> ip \<Rightarrow> u16 \<Rightarrow> u8 list \<Rightarrow> nat \<Rightarrow> counter \<times> challenge_store \<Rightarrow>
   u8 list option \<times> counter \<times> challenge_store" where
  "tcp_conn h z src len body now s =
     (case allow src now (fst s) of
        (False, limiter) \<Rightarrow> (None, limiter, snd s)
      | (True, limiter) \<Rightarrow>
          if MAX_TCP_QUERY < unat len \<or> length body < unat len then (None, limiter, snd s)
          else (case respond h z (take (unat len) body) True (now div 10 ^ 9) (snd s) of
             (resp, st) \<Rightarrow> (resp, limiter, st)))"

interpretation dns: admission DNS_CAPS
  by unfold_locales (simp_all add: DNS_CAPS_def)

subsection \<open>Lemmas\<close>

lemma add_answer_simps [simp]:
  "m_answers (add_answer r m) = m_answers m @ [r]" "m_authorities (add_answer r m) = m_authorities m"
  "m_id (add_answer r m) = m_id m" "m_type (add_answer r m) = m_type m"
  "m_recursion_available (add_answer r m) = m_recursion_available m"
  "m_authoritative (add_answer r m) = m_authoritative m"
  "m_response_code (add_answer r m) = m_response_code m" "m_queries (add_answer r m) = m_queries m"
  by (simp_all add: add_answer_def)

lemma add_authority_simps [simp]:
  "m_answers (add_authority r m) = m_answers m" "m_authorities (add_authority r m) = m_authorities m @ [r]"
  "m_id (add_authority r m) = m_id m" "m_type (add_authority r m) = m_type m"
  "m_recursion_available (add_authority r m) = m_recursion_available m"
  "m_authoritative (add_authority r m) = m_authoritative m"
  "m_response_code (add_authority r m) = m_response_code m" "m_queries (add_authority r m) = m_queries m"
  by (simp_all add: add_authority_def)

lemma fold_add_answer:
  "m_answers (fold (\<lambda>v. add_answer (f v)) vs m) = m_answers m @ map f vs"
  "m_authorities (fold (\<lambda>v. add_answer (f v)) vs m) = m_authorities m"
  "m_id (fold (\<lambda>v. add_answer (f v)) vs m) = m_id m"
  "m_type (fold (\<lambda>v. add_answer (f v)) vs m) = m_type m"
  "m_recursion_available (fold (\<lambda>v. add_answer (f v)) vs m) = m_recursion_available m"
  "m_authoritative (fold (\<lambda>v. add_answer (f v)) vs m) = m_authoritative m"
  "m_response_code (fold (\<lambda>v. add_answer (f v)) vs m) = m_response_code m"
  "m_queries (fold (\<lambda>v. add_answer (f v)) vs m) = m_queries m"
  by (induction vs arbitrary: m) auto

lemma reply_to_simps [simp]:
  assumes "hickory_ok h"
  shows "m_id (reply_to h req) = m_id req" "m_type (reply_to h req) = MtResponse"
    "m_response_code (reply_to h req) = NoError" "m_queries (reply_to h req) = []"
    "m_answers (reply_to h req) = []" "m_authorities (reply_to h req) = []"
    "\<not> m_recursion_available (reply_to h req)" "m_authoritative (reply_to h req)"
  using assms by (simp_all add: hickory_ok_def reply_to_def Let_def)

text \<open>What a reply's header and sections may be, as one predicate over the request.\<close>

definition asks :: "'n hickory \<Rightarrow> 'n zone \<Rightarrow> 'n message \<Rightarrow> 'n question \<Rightarrow> bool" where
  "asks h z req q \<longleftrightarrow> m_type req = MtQuery \<and> m_op_code req = OpQuery \<and> m_queries req = [q] \<and>
     h_zone_of h (z_origin z) (h_to_lowercase h (q_name q)) \<and> q_type q \<notin> {ANY, AXFR, IXFR}"

definition below_apex :: "'n hickory \<Rightarrow> 'n zone \<Rightarrow> 'n question \<Rightarrow> bool" where
  "below_apex h z q \<longleftrightarrow> \<not> h_same h (h_to_lowercase h (q_name q)) (z_origin z)"

definition key_of :: "'n hickory \<Rightarrow> 'n question \<Rightarrow> string" where
  "key_of h q = unrooted (h_to_string h (h_to_lowercase h (q_name q)))"

lemma answer_cases:
  assumes "answer h z req now st = (Some resp, st')"
  obtains (refuse) c aa where "m_type req = MtQuery" "st' = st" "c \<in> {NotImp, FormErr, Refused}"
      "resp = (reply_to h req)\<lparr>m_response_code := c\<rparr> \<or>
       (\<exists>q. m_queries req = [q] \<and>
         resp = (reply_to h req)\<lparr>m_queries := m_queries (reply_to h req) @ [q], m_authoritative := aa,
           m_response_code := c\<rparr>)"
      "\<nexists>q. asks h z req q"
  | (apex) q where "asks h z req q" "\<not> below_apex h z q" "st' = st"
      "resp = apex_answer h z (q_type q) ((reply_to h req)\<lparr>m_queries := m_queries (reply_to h req) @ [q]\<rparr>)"
  | (below) q found where "asks h z req q" "below_apex h z q" "lookup_challenge (key_of h q) now st = (found, st')"
      "resp = below_answer h z q found ((reply_to h req)\<lparr>m_queries := m_queries (reply_to h req) @ [q]\<rparr>)"
proof -
  have isq: "m_type req = MtQuery" using assms by (auto simp: answer_def split: if_splits)
  have aa: "m_authoritative (reply_to h req)" by (simp add: reply_to_def)
  show thesis
  proof (cases "m_op_code req = OpQuery \<and> (\<exists>q. m_queries req = [q])")
    case False
    then have "(m_op_code req \<noteq> OpQuery \<and> resp = (reply_to h req)\<lparr>m_response_code := NotImp\<rparr> \<or>
        resp = (reply_to h req)\<lparr>m_response_code := FormErr\<rparr>) \<and> st' = st"
      using assms isq by (auto simp: answer_def Let_def split: list.splits if_splits)
    then obtain c where c: "c \<in> {NotImp, FormErr, Refused}" "resp = (reply_to h req)\<lparr>m_response_code := c\<rparr>"
      "st' = st" by blast
    have "\<nexists>q. asks h z req q" using False by (auto simp: asks_def)
    with isq c show thesis by (intro refuse [of c True]) simp_all
  next
    case True
    then obtain q where q: "m_op_code req = OpQuery" "m_queries req = [q]" by blast
    have run: "answer h z req now st =
        (let resp = (reply_to h req)\<lparr>m_queries := m_queries (reply_to h req) @ [q]\<rparr>;
             qname = h_to_lowercase h (q_name q)
         in if \<not> h_zone_of h (z_origin z) qname
            then (Some (resp\<lparr>m_authoritative := False, m_response_code := Refused\<rparr>), st)
            else if q_type q \<in> {ANY, AXFR, IXFR} then (Some (resp\<lparr>m_response_code := Refused\<rparr>), st)
            else if h_same h qname (z_origin z) then (Some (apex_answer h z (q_type q) resp), st)
            else let (found, st') = lookup_challenge (unrooted (h_to_string h qname)) now st
                 in (Some (below_answer h z q found resp), st'))"
      using isq q by (simp add: answer_def Let_def)
    show thesis
    proof (cases "asks h z req q")
      case False
      show thesis
      proof (cases "h_zone_of h (z_origin z) (h_to_lowercase h (q_name q))")
        case True
        have ty: "q_type q \<in> {ANY, AXFR, IXFR}" using True False isq q by (auto simp: asks_def)
        have out: "resp = (reply_to h req)\<lparr>m_queries := m_queries (reply_to h req) @ [q],
            m_response_code := Refused\<rparr>" "st' = st"
          using assms ty True by (simp_all add: run Let_def)
        show thesis
          by (rule refuse [of Refused True]) (use isq q out aa False in \<open>auto simp: asks_def\<close>)
      next
        case nz: False
        have out: "resp = (reply_to h req)\<lparr>m_queries := m_queries (reply_to h req) @ [q],
            m_authoritative := False, m_response_code := Refused\<rparr>" "st' = st"
          using assms nz by (simp_all add: run Let_def)
        show thesis
          by (rule refuse [of Refused False]) (use isq q out nz in \<open>auto simp: asks_def\<close>)
      qed
    next
      case True
      then have d: "h_zone_of h (z_origin z) (h_to_lowercase h (q_name q))" "q_type q \<notin> {ANY, AXFR, IXFR}"
        by (simp_all add: asks_def)
      show thesis
      proof (cases "below_apex h z q")
        case False
        with True d assms show thesis by (intro apex [of q]) (simp_all add: run below_apex_def Let_def)
      next
        case b: True
        obtain found st2 where l: "lookup_challenge (key_of h q) now st = (found, st2)" by fastforce
        with b True d assms show thesis
          by (intro below [of q found]) (simp_all add: run below_apex_def key_of_def Let_def)
      qed
    qed
  qed
qed

lemma apex_answer_simps [simp]:
  "m_id (apex_answer h z t m) = m_id m" "m_type (apex_answer h z t m) = m_type m"
  "m_recursion_available (apex_answer h z t m) = m_recursion_available m"
  "m_response_code (apex_answer h z t m) = m_response_code m"
  "m_queries (apex_answer h z t m) = m_queries m" "m_authoritative (apex_answer h z t m) = m_authoritative m"
  by (simp_all add: apex_answer_def split: record_type.splits)

lemma below_answer_simps [simp]:
  "m_id (below_answer h z q f m) = m_id m" "m_type (below_answer h z q f m) = m_type m"
  "m_recursion_available (below_answer h z q f m) = m_recursion_available m"
  "m_response_code (below_answer h z q f m) = (if f = None then NXDomain else m_response_code m)"
  "m_queries (below_answer h z q f m) = m_queries m" "m_authoritative (below_answer h z q f m) = m_authoritative m"
  "m_answers (below_answer h z q f m) =
     m_answers m @ (case f of Some vs \<Rightarrow> if q_type q = TXT then map (challenge_rr (q_name q)) vs else [] | None \<Rightarrow> [])"
  "m_authorities (below_answer h z q f m) =
     m_authorities m @ (if f \<noteq> None \<and> q_type q = TXT then [] else [soa h z])"
  by (simp_all add: below_answer_def fold_add_answer split: option.splits)

text \<open>The content of a reply to a question the zone takes: by name, then by type.\<close>

definition takes :: "'n hickory \<Rightarrow> 'n zone \<Rightarrow> 'n question \<Rightarrow> string list option \<Rightarrow> 'n message \<Rightarrow> bool" where
  "takes h z q found resp \<longleftrightarrow>
     m_queries resp = [q] \<and> m_authoritative resp \<and>
     (if \<not> below_apex h z q
      then m_response_code resp = NoError \<and>
        (case q_type q of
           SOA \<Rightarrow> m_answers resp = [soa h z] \<and> m_authorities resp = []
         | NS \<Rightarrow> map rr_data (m_answers resp) = [RNs (z_origin z)] \<and> m_authorities resp = []
         | _ \<Rightarrow> m_answers resp = [] \<and> m_authorities resp = [soa h z])
      else case found of
           None \<Rightarrow> m_response_code resp = NXDomain \<and> m_answers resp = [] \<and> m_authorities resp = [soa h z]
         | Some vs \<Rightarrow> m_response_code resp = NoError \<and>
             (if q_type q = TXT then m_answers resp = map (challenge_rr (q_name q)) vs \<and> m_authorities resp = []
              else m_answers resp = [] \<and> m_authorities resp = [soa h z]))"

text \<open>
  Every reply answers a query, carries its id and offers no recursion. A request that is not a
  single standard question inside the zone, of a type other than \<open>ANY\<close> and the zone
  transfers, gets an error and empty sections; an accepted one is answered by name and type: the
  apex by its \<open>SOA\<close> and \<open>NS\<close>, a name below it by exactly the live values of its
  challenge and only to \<open>TXT\<close>, and with the \<open>SOA\<close> for what does not exist.\<close>

theorem zone_answer_policy:
  assumes "hickory_ok h" and "answer h z req now st = (Some resp, st')"
  shows "m_type req = MtQuery \<and> m_type resp = MtResponse \<and> m_id resp = m_id req \<and>
    \<not> m_recursion_available resp \<and>
    (if \<exists>q. asks h z req q
     then takes h z (hd (m_queries req)) (fst (lookup_challenge (key_of h (hd (m_queries req))) now st)) resp
     else m_response_code resp \<in> {NotImp, FormErr, Refused} \<and> m_answers resp = [] \<and> m_authorities resp = [])"
  using assms(2)
proof (cases rule: answer_cases)
  case (refuse c aa)
  then show ?thesis using assms(1) by auto
next
  case (apex q)
  then have "m_type req = MtQuery" "hd (m_queries req) = q" by (simp_all add: asks_def)
  moreover have "\<exists>q. asks h z req q" using apex(1) by blast
  ultimately show ?thesis using assms(1) apex(2,4)
    by (simp add: takes_def) (auto simp: apex_answer_def split: record_type.splits)
next
  case (below q found)
  then have "m_type req = MtQuery" "hd (m_queries req) = q" by (simp_all add: asks_def)
  moreover have "\<exists>q. asks h z req q" using below(1) by blast
  ultimately show ?thesis using assms(1) below(2,3,4) by (simp add: takes_def split: option.split)
qed

subsection \<open>Witness\<close>

definition demo_hickory :: "string hickory" where
  "demo_hickory = \<lparr>h_parse = Some, h_from_ascii = Some, h_to_string = id, h_to_lowercase = lower,
     h_zone_of = (\<lambda>z n. strip_suffix z n \<noteq> None), h_same = (=),
     h_response = (\<lambda>i op. \<lparr>m_id = i, m_type = MtResponse, m_op_code = op, m_recursion_desired = False,
       m_recursion_available = False, m_authoritative = False, m_response_code = NoError,
       m_queries = [], m_answers = [], m_authorities = []\<rparr>),
     h_from_vec = (\<lambda>b. None), h_to_vec = (\<lambda>m. None), h_max_payload = (\<lambda>m. 512), h_truncate = id\<rparr>"

definition demo_query :: "string \<Rightarrow> string message" where
  "demo_query name = \<lparr>m_id = 9, m_type = MtQuery, m_op_code = OpQuery, m_recursion_desired = True,
     m_recursion_available = False, m_authoritative = False, m_response_code = NoError,
     m_queries = [\<lparr>q_name = name, q_type = TXT\<rparr>], m_answers = [], m_authorities = []\<rparr>"

lemma zone_answer_policy_witness:
  "map_option m_response_code (fst (answer demo_hickory \<lparr>z_origin = ''a.b.'', z_serial = 1\<rparr>
     (demo_query ''x.c.'') 7 (new_challenges 1))) = Some Refused \<and>
   (case fst (answer demo_hickory \<lparr>z_origin = ''a.b.'', z_serial = 1\<rparr> (demo_query ''x.c.'') 7 (new_challenges 1)) of
      Some resp \<Rightarrow> m_id resp = 9 | None \<Rightarrow> False)"
proof -
  have ok: "hickory_ok demo_hickory" by (simp add: hickory_ok_def demo_hickory_def)
  let ?a = "answer demo_hickory \<lparr>z_origin = ''a.b.'', z_serial = 1\<rparr> (demo_query ''x.c.'') 7 (new_challenges 1)"
  have r: "map_option m_response_code (fst ?a) = Some Refused" by code_simp
  then obtain resp where resp: "fst ?a = Some resp" by blast
  then have "?a = (Some resp, snd ?a)" by (simp add: prod_eq_iff)
  from zone_answer_policy [OF ok this] have "m_id resp = 9" by (simp add: demo_query_def)
  with r resp show ?thesis by simp
qed

end
