(* ===== verification/Acme.thy ===== *)
theory Acme
  imports ApiTypes Zone Labels ServiceTable
begin

section \<open>Certificate orders: \<open>crates/coordinator/src/api/acme.rs\<close>\<close>

text \<open>
  The two routes a device calls to get a certificate. A request carries values, never names: the
  names are derived from the calling device's own rows. The \<open>BTreeMap\<close> of service challenges is the
  list of its entries in key order.
\<close>

definition MAX_DEVICE_CHALLENGES :: nat where "MAX_DEVICE_CHALLENGES = 2"
definition MAX_CHALLENGE_VALUE_LEN :: nat where "MAX_CHALLENGE_VALUE_LEN = 64"

definition valid_challenge_value :: "string \<Rightarrow> bool" where
  "valid_challenge_value v \<longleftrightarrow> v \<noteq> [] \<and> length v \<le> MAX_CHALLENGE_VALUE_LEN \<and>
     list_all (\<lambda>b. is_alnum b \<or> b = CHR ''-'' \<or> b = CHR ''_'') v"

record acme_req =
  ar_token :: string
  ar_device :: "string list"
  ar_primary :: "string option"
  ar_services :: "(string \<times> string) list"

definition challenge_name :: "string \<Rightarrow> string \<Rightarrow> string" where
  "challenge_name name domain = lower (''_acme-challenge.'' @ name @ [dot] @ domain)"

text \<open>The records of an order, from the rows of the device.\<close>

definition acme_records ::
  "store \<Rightarrow> key \<Rightarrow> string \<Rightarrow> string \<Rightarrow> string \<Rightarrow> bool \<Rightarrow> acme_req \<Rightarrow> (string \<times> string) list" where
  "acme_records st pk username device_name domain is_primary req =
     map (Pair (challenge_name (device_name @ [dot] @ username) domain)) (ar_device req) @
     map (\<lambda>(label, value). (challenge_name (label @ [dot] @ username) domain, value))
       (filter (\<lambda>(label, value). label \<in> set (device_services st pk)) (ar_services req)) @
     (case ar_primary req of
        Some value \<Rightarrow> if is_primary then [(challenge_name username domain, value)] else []
      | None \<Rightarrow> [])"

definition order_values :: "acme_req \<Rightarrow> string list" where
  "order_values req =
     ar_device req @ (case ar_primary req of Some v \<Rightarrow> [v] | None \<Rightarrow> []) @ map snd (ar_services req)"

definition distinct_names :: "(string \<times> string) list \<Rightarrow> string list" where
  "distinct_names records = foldl (\<lambda>names r. if fst r \<in> set names then names else names @ [fst r]) [] records"

text \<open>Everything up to the publish: the device's key and the records, or the refusal.\<close>

definition acme_order :: "string option \<Rightarrow> acme_req \<Rightarrow> store \<Rightarrow> api_error + (key \<times> (string \<times> string) list)" where
  "acme_order dns req st =
     (case dns of
        None \<Rightarrow> Inl (ApiError NOT_IMPLEMENTED)
      | Some domain \<Rightarrow>
          bindR (orInternal (device_by_token st (ar_token req))) (\<lambda>caller.
            case caller of
              None \<Rightarrow> Inl (ApiError UNAUTHORIZED)
            | Some (u, pk) \<Rightarrow>
                (case allocated_user_label st u of
                   None \<Rightarrow> Inl (ApiError CONFLICT)
                 | Some username \<Rightarrow>
                     (case device_name_of st pk of
                        None \<Rightarrow> Inl (ApiError CONFLICT)
                      | Some device_name \<Rightarrow>
                          if ar_device req = [] \<or> MAX_DEVICE_CHALLENGES < length (ar_device req)
                          then Inl (ApiError BAD_REQUEST)
                          else if MAX_WEB_SERVICES_PER_DEVICE < length (ar_services req)
                          then Inl (ApiError BAD_REQUEST)
                          else if \<not> list_all valid_challenge_value (order_values req)
                          then Inl (ApiError BAD_REQUEST)
                          else if ar_primary req = None
                          then Inr (pk, acme_records st pk username device_name domain False req)
                          else bindR (orInternal (primary_pubkey st u)) (\<lambda>p.
                            Inr (pk, acme_records st pk username device_name domain (p = Some pk) req))))))"

definition acme_challenge ::
  "string option \<Rightarrow> acme_req \<Rightarrow> nat \<Rightarrow> store \<Rightarrow> challenge_store \<Rightarrow> (api_error + string list) \<times> challenge_store" where
  "acme_challenge dns req now st cs =
     (case acme_order dns req st of
        Inl e \<Rightarrow> (Inl e, cs)
      | Inr (pk, records) \<Rightarrow>
          (case publish_at pk records now cs of
             (Inl e, cs') \<Rightarrow> (Inl (ApiError TOO_MANY_REQUESTS), cs')
           | (Inr _, cs') \<Rightarrow> (Inr (distinct_names records), cs')))"

text \<open>\<open>POST /services\<close>.\<close>

definition register_services ::
  "string option \<Rightarrow> string \<Rightarrow> string list \<Rightarrow> store \<Rightarrow> (api_error + (string list \<times> refused_service list)) \<times> store" where
  "register_services dns token names st =
     (if dns = None then (Inl (ApiError NOT_IMPLEMENTED), st)
      else if MAX_WEB_SERVICES_PER_DEVICE < length names then (Inl (ApiError BAD_REQUEST), st)
      else case device_by_token st token of
          Inl e \<Rightarrow> (Inl (internal e), st)
        | Inr None \<Rightarrow> (Inl (ApiError UNAUTHORIZED), st)
        | Inr (Some (u, pk)) \<Rightarrow>
            (case set_device_services u pk names st of (r, st') \<Rightarrow> (Inr r, st')))"

subsection \<open>Whose name a challenge is\<close>

lemma lower_lower [simp]: "lower (lower s) = lower s"
  by (simp add: lower_def to_lower_def is_upper_def)

lemma label_char_lower: "\<forall>c\<in>set l. label_char c \<Longrightarrow> lower l = l \<and> dot \<notin> set l"
proof -
  assume l: "\<forall>c\<in>set l. label_char c"
  have "to_lower c = c \<and> c \<noteq> dot" if "c \<in> set l" for c
    using l that by (auto simp: label_char_def to_lower_def is_upper_def is_lower_def is_digit_def dash_def dot_def)
  then show ?thesis by (auto simp: lower_def intro: map_idI)
qed

lemma last_label_eq:
  assumes "A @ dot # u @ E = B @ dot # v @ E" and "dot \<notin> set u" and "dot \<notin> set v"
  shows "u = v"
proof -
  have "A @ dot # u = B @ dot # v" using assms(1) by (metis append_Cons append_assoc append_same_eq)
  then have "takeWhile (\<lambda>c. c \<noteq> dot) (rev u @ dot # rev A) = takeWhile (\<lambda>c. c \<noteq> dot) (rev v @ dot # rev B)"
    by (metis append_Cons append_Nil append_assoc rev.simps(2) rev_append)
  moreover have "takeWhile (\<lambda>c. c \<noteq> dot) (rev w @ dot # X) = rev w" if "dot \<notin> set w" for w X
    using that by (subst takeWhile_append2) auto
  ultimately show ?thesis using assms(2,3) by simp
qed

text \<open>Names that end in a user's label, in front of the domain.\<close>

definition names_user :: "string \<Rightarrow> string \<Rightarrow> string \<Rightarrow> bool" where
  "names_user domain username n \<longleftrightarrow>
     n = challenge_name username domain \<or> (\<exists>x. n = challenge_name (x @ [dot] @ username) domain)"

lemma names_user_inj:
  assumes "names_user domain u n" and "names_user domain v n"
    and "\<forall>c\<in>set u. label_char c" and "\<forall>c\<in>set v. label_char c"
  shows "u = v"
proof -
  have form: "\<exists>A. n = A @ dot # w @ (dot # lower domain)"
    if n: "names_user domain w n" and w: "\<forall>c\<in>set w. label_char c" for w
  proof -
    have lw: "lower w = w" using label_char_lower [OF w] by simp
    have pre: "lower ''_acme-challenge.'' = lower ''_acme-challenge'' @ [dot]"
      by (simp add: lower_def dot_def to_lower_def is_upper_def)
    have ld: "lower (dot # s) = dot # lower s" for s using lower_append [of "[dot]" s] lower_dot by simp
    have e: "challenge_name s domain = lower ''_acme-challenge'' @ dot # lower s @ (dot # lower domain)" for s
      unfolding challenge_name_def lower_append pre by simp
    have "lower (x @ [dot] @ w) = lower x @ dot # w" for x by (simp add: lw ld)
    then have "challenge_name (x @ [dot] @ w) domain =
        (lower ''_acme-challenge'' @ dot # lower x) @ dot # w @ (dot # lower domain)" for x by (simp add: e)
    moreover have "challenge_name w domain = lower ''_acme-challenge'' @ dot # w @ (dot # lower domain)"
      by (simp add: e lw)
    ultimately show ?thesis using n unfolding names_user_def by blast
  qed
  obtain A B where "A @ dot # u @ (dot # lower domain) = B @ dot # v @ (dot # lower domain)"
    using form [OF assms(1,3)] form [OF assms(2,4)] by metis
  then show ?thesis by (rule last_label_eq) (use assms(3,4) label_char_lower in blast)+
qed

text \<open>Allocated labels are made of label characters, whatever their accounts are called.\<close>

definition labels_clean :: "store \<Rightarrow> bool" where
  "labels_clean st \<longleftrightarrow> label_inv st \<and> (\<forall>l\<in>snd ` set (user_labels st). \<forall>c\<in>set l. label_char c)"

lemma dec_label_chars: "c \<in> set (dec n) \<Longrightarrow> label_char c"
  using dec_digits [of c n] by (simp add: label_char_def)

lemma label_candidate_clean: "\<forall>c\<in>set d. label_char c \<Longrightarrow> \<forall>c\<in>set (label_candidate d n). label_char c"
  by (auto simp: label_candidate_def suffixed_label_def Let_def label_suffix_def label_char_def dash_def
      dest: in_set_takeD dec_digits)

lemma label_choice_clean:
  "label_choice taken (sanitize_label seed) u = Some l \<Longrightarrow> \<forall>c\<in>set l. label_char c"
proof -
  assume c: "label_choice taken (sanitize_label seed) u = Some l"
  have s: "\<forall>c\<in>set (sanitize_label seed). label_char c"
    using sanitize_label_dns [of seed] by (simp add: dns_label_def)
  have fb: "\<forall>c\<in>set (fallback_label u). label_char c"
    by (auto simp: fallback_label_def dec_label_chars)
      (simp_all add: label_char_def is_lower_def dash_def)
  from c consider "l \<in> label_candidate (sanitize_label seed) ` {0..<MAX_LABEL_SUFFIX}" | "l = fallback_label u"
    by (auto simp: label_choice_def split: option.splits if_splits dest: first_free_Some)
  then show ?thesis
  proof cases
    case 1
    then show ?thesis using label_candidate_clean [OF s] by blast
  qed (use fb in simp)
qed

lemma user_label_clean: "labels_clean st \<Longrightarrow> labels_clean (snd (user_label u seed st))"
proof -
  assume c: "labels_clean st"
  then have "label_inv (snd (user_label u seed st))" by (simp add: labels_clean_def user_label_inv')
  then show ?thesis using c label_choice_clean
    by (auto simp: labels_clean_def user_label_eq split: option.splits)
qed

lemma label_run_clean: "labels_clean st \<Longrightarrow> labels_clean (label_run rs st)"
proof (induction rs arbitrary: st)
  case (Cons r rs)
  then show ?case by (cases r) (simp add: user_label_clean)
qed simp

subsection \<open>What an order publishes\<close>

lemma set_distinct_names: "set (distinct_names rs) = fst ` set rs"
proof -
  have "set (foldl (\<lambda>names r. if fst r \<in> set names then names else names @ [fst r]) ns rs) = set ns \<union> fst ` set rs" for ns
    by (induction rs arbitrary: ns) auto
  then show ?thesis by (simp add: distinct_names_def)
qed

lemma fold_refresh_other: "n \<notin> fst ` set rs \<Longrightarrow> tget (fold (refresh_record e) rs m) n = tget m n"
  by (induction rs arbitrary: m) (auto simp: refresh_record_def split: option.splits)

lemma fold_add_other: "n \<notin> fst ` set rs \<Longrightarrow> tget (fold (add_record e) rs m) n = tget m n"
  by (induction rs arbitrary: m) (auto simp: add_record_def)

lemma publish_other:
  assumes "publish_at d rs now st = (res, st')" and "n \<notin> fst ` set rs"
  shows "tget (ch_live st') n = tget (ch_live (prune now st)) n"
  using assms(1)
proof (cases rule: publish_cases)
  case free
  then show ?thesis using fold_refresh_other [OF assms(2)] by simp
next
  case charged
  then show ?thesis using fold_add_other [OF assms(2)] by simp
qed simp

lemma acme_orderE:
  assumes "acme_order dns req st = Inr (pk, records)"
  obtains domain u username device_name is_primary where "dns = Some domain"
    "device_by_token st (ar_token req) = Inr (Some (u, pk))" "allocated_user_label st u = Some username"
    "device_name_of st pk = Some device_name"
    "ar_device req \<noteq> []" "length (ar_device req) \<le> MAX_DEVICE_CHALLENGES"
    "length (ar_services req) \<le> MAX_WEB_SERVICES_PER_DEVICE"
    "list_all valid_challenge_value (order_values req)"
    "is_primary \<Longrightarrow> primary_pubkey st u = Inr (Some pk)"
    "records = acme_records st pk username device_name domain is_primary req"
proof -
  obtain domain where d: "dns = Some domain" using assms by (cases dns) (auto simp: acme_order_def)
  obtain c where c: "device_by_token st (ar_token req) = Inr c"
    using assms d by (auto simp: acme_order_def bindR_eq_Inr)
  then obtain u k where c: "device_by_token st (ar_token req) = Inr (Some (u, k))"
    using assms d by (cases c) (auto simp: acme_order_def)
  obtain username where u: "allocated_user_label st u = Some username"
    using assms d c by (cases "allocated_user_label st u") (auto simp: acme_order_def)
  obtain dn where n: "device_name_of st k = Some dn"
    using assms d c u by (cases "device_name_of st k") (auto simp: acme_order_def)
  have g: "ar_device req \<noteq> [] \<and> length (ar_device req) \<le> MAX_DEVICE_CHALLENGES \<and>
      length (ar_services req) \<le> MAX_WEB_SERVICES_PER_DEVICE \<and> list_all valid_challenge_value (order_values req)"
    using assms unfolding acme_order_def by (simp add: d c u n not_less split: if_splits)
  have "\<exists>b. (b \<longrightarrow> primary_pubkey st u = Inr (Some k)) \<and> k = pk \<and>
      records = acme_records st k username dn domain b req"
  proof (cases "ar_primary req = None")
    case True
    with assms g d c u n show ?thesis by (intro exI [of _ False]) (auto simp: acme_order_def)
  next
    case False
    then have "bindR (orInternal (primary_pubkey st u)) (\<lambda>p.
        Inr (k, acme_records st k username dn domain (p = Some k) req)) = acme_order dns req st"
      using g d c u n by (auto simp: acme_order_def)
    then have "bindR (orInternal (primary_pubkey st u)) (\<lambda>p.
        Inr (k, acme_records st k username dn domain (p = Some k) req)) = Inr (pk, records)"
      using assms by (rule trans)
    then obtain p where "primary_pubkey st u = Inr p" "k = pk"
        "records = acme_records st k username dn domain (p = Some k) req" by (auto simp: bindR_eq_Inr)
    then show ?thesis by (intro exI [of _ "p = Some k"]) simp
  qed
  then obtain b where b: "b \<longrightarrow> primary_pubkey st u = Inr (Some k)" "k = pk"
      "records = acme_records st k username dn domain b req" by blast
  from g show thesis
    by (elim conjE) (rule that [of domain u username dn b]; use d c u n b in simp)
qed

lemma acme_records_names:
  assumes "(n, v) \<in> set (acme_records st pk username dn domain prim req)"
  shows "names_user domain username n"
  using assms by (auto simp: acme_records_def names_user_def split: option.splits if_splits)

lemma acme_records_alias:
  assumes "(challenge_name username domain, v) \<in> set (acme_records st pk username dn domain prim req)"
  shows prim
proof -
  have "challenge_name username domain \<noteq> challenge_name (x @ [dot] @ username) domain" for x
  proof
    assume "challenge_name username domain = challenge_name (x @ [dot] @ username) domain"
    then have "length (challenge_name username domain) = length (challenge_name (x @ [dot] @ username) domain)"
      by simp
    then show False by (simp add: challenge_name_def lower_def)
  qed
  with assms show ?thesis by (auto simp: acme_records_def split: option.splits if_splits)
qed

text \<open>
  An answered order belongs to the device its token names: every published name is that of the
  device, of a service or of the alias under the label allocated to its owner, the bare alias
  only for the owner's primary device, and no other name's challenges are touched.\<close>

theorem acme_owner_only:
  assumes "acme_challenge dns req now st cs = (Inr ns, cs')"
  shows "\<exists>domain u pk label. dns = Some domain \<and> device_by_token st (ar_token req) = Inr (Some (u, pk)) \<and>
    allocated_user_label st u = Some label \<and> ns \<noteq> [] \<and> (\<forall>n\<in>set ns. names_user domain label n) \<and>
    (challenge_name label domain \<in> set ns \<longrightarrow> primary_pubkey st u = Inr (Some pk)) \<and>
    (\<forall>n. n \<notin> set ns \<longrightarrow> tget (ch_live cs') n = tget (ch_live (prune now cs)) n)"
proof -
  obtain pk records where o: "acme_order dns req st = Inr (pk, records)"
      "publish_at pk records now cs = (Inr (), cs')" "ns = distinct_names records"
    using assms by (auto simp: acme_challenge_def split: sum.splits prod.splits)
  from o(1) obtain domain u label dn prim where r: "dns = Some domain"
      "device_by_token st (ar_token req) = Inr (Some (u, pk))" "allocated_user_label st u = Some label"
      "ar_device req \<noteq> []" "prim \<Longrightarrow> primary_pubkey st u = Inr (Some pk)"
      "records = acme_records st pk label dn domain prim req"
    by (rule acme_orderE) blast
  have "fst ` set records \<noteq> {}" using r(4,6) by (simp add: acme_records_def)
  then have "ns \<noteq> []" using o(3) set_distinct_names [of records] by force
  moreover have "names_user domain label n" if "n \<in> set ns" for n
    using that acme_records_names r(6) by (auto simp: o(3) set_distinct_names)
  moreover have "primary_pubkey st u = Inr (Some pk)" if "challenge_name label domain \<in> set ns"
  proof -
    obtain v where "(challenge_name label domain, v) \<in> set (acme_records st pk label dn domain prim req)"
      using \<open>challenge_name label domain \<in> set ns\<close> r(6) by (auto simp: o(3) set_distinct_names)
    then show ?thesis by (rule r(5) [OF acme_records_alias])
  qed
  moreover have "tget (ch_live cs') n = tget (ch_live (prune now cs)) n" if "n \<notin> set ns" for n
    using publish_other [OF o(2)] that by (simp add: o(3) set_distinct_names)
  ultimately show ?thesis using r(1,2,3) by blast
qed

lemma acme_names:
  assumes "acme_challenge (Some domain) req now st cs = (Inr ns, cs')"
    and "device_by_token st (ar_token req) = Inr (Some (u, pk))" and "n \<in> set ns"
  shows "\<exists>label. tget (user_labels st) u = Some label \<and> names_user domain label n"
proof -
  obtain pk' records where o: "acme_order (Some domain) req st = Inr (pk', records)"
      "ns = distinct_names records"
    using assms(1) by (auto simp: acme_challenge_def split: sum.splits prod.splits)
  from o(1) obtain label dn prim where "allocated_user_label st u = Some label"
      "records = acme_records st pk' label dn domain prim req"
    by (rule acme_orderE) (use assms(2) in auto)
  then show ?thesis using assms(3) acme_records_names
    by (auto simp: o(2) set_distinct_names allocated_user_label_def lookup_user_label_def)
qed


text \<open>
  What a device orders is what a CA sees: after an answered order, for five minutes, the
  responder's reply to a \<open>TXT\<close> question for the name of any record of the order contains the
  record's value.\<close>

theorem acme_order_resolves:
  assumes "challenge_inv cs" and "acme_order dns req st = Inr (pk, records)"
    and "acme_challenge dns req now st cs = (Inr ns, cs')" and "r \<in> set records"
    and "length (values_at (ch_live (prune now cs)) (fst r)) + length (filter (\<lambda>r'. fst r' = fst r) records)
      \<le> MAX_VALUES_PER_NAME"
    and "hickory_ok h" and "asks h z msg q" and "below_apex h z q" and "q_type q = TXT"
    and "key_of h q = fst r" and "t < now + CHALLENGE_TTL"
  shows "\<exists>resp. fst (answer h z msg t cs') = Some resp \<and> m_response_code resp = NoError \<and>
    challenge_rr (q_name q) (snd r) \<in> set (m_answers resp)"
proof -
  have pub: "publish_at pk records now cs = (Inr (), cs')"
    using assms(2,3) by (auto simp: acme_challenge_def split: prod.splits sum.splits)
  have live: "\<exists>l. tget (ch_live cs') (fst r) = Some l \<and> snd r \<in> set (lv_values l) \<and>
      lv_expires_at l = now + CHALLENGE_TTL"
    by (rule publish_live [OF assms(1) pub assms(4,5)])
  moreover have "tok (ch_live cs')"
    using publish_inv [OF assms(1) pub] by (simp add: challenge_inv_def live_inv_def)
  ultimately obtain vs where vs: "fst (lookup_challenge (fst r) t cs') = Some vs" "snd r \<in> set vs"
    using assms(11) by (auto simp: lookup_challenge_def Let_def tget_tkeep)
  have d: "m_type msg = MtQuery" "m_op_code msg = OpQuery" "m_queries msg = [q]"
      "h_zone_of h (z_origin z) (h_to_lowercase h (q_name q))"
    using assms(7) by (simp_all add: asks_def)
  have "fst (answer h z msg t cs') =
      Some (below_answer h z q (Some vs) ((reply_to h msg)\<lparr>m_queries := m_queries (reply_to h msg) @ [q]\<rparr>))"
    using d assms(8-10) vs(1)
    by (cases "lookup_challenge (fst r) t cs'") (simp add: answer_def Let_def below_apex_def key_of_def)
  then show ?thesis using assms(6,9) vs(2) by simp
qed

subsection \<open>Witnesses\<close>

definition demo_dev :: "u8 \<Rightarrow> u64 \<Rightarrow> string \<Rightarrow> string \<Rightarrow> dev_row" where
  "demo_dev b u name token = \<lparr>d_pubkey = replicate 32 b, d_idx = uint b, d_user = u, d_name = name,
     d_token = Some token, d_seen = None, d_personal = False\<rparr>"

definition demo_acme :: store where
  "demo_acme = empty_store\<lparr>devices := [demo_dev 1 7 ''nas'' ''s'', demo_dev 2 8 ''nas'' ''t''],
     user_labels := [(7, ''alice''), (8, ''bob'')]\<rparr>"

definition demo_order :: "string \<Rightarrow> acme_req" where
  "demo_order token = \<lparr>ar_token = token, ar_device = [''AAA''], ar_primary = None, ar_services = []\<rparr>"

definition demo_name :: "string \<Rightarrow> string" where
  "demo_name user = ''_acme-challenge.nas.'' @ user @ ''.a.b''"

lemma demo_tokens:
  "device_by_token demo_acme ''s'' = Inr (Some (7, replicate 32 1))"
  "device_by_token demo_acme ''t'' = Inr (Some (8, replicate 32 2))"
  by (simp_all add: demo_acme_def demo_dev_def device_by_token_def pubkey_from_blob_def empty_store_def)

lemma demo_names:
  "allocated_user_label demo_acme 7 = Some ''alice''" "allocated_user_label demo_acme 8 = Some ''bob''"
  "device_name_of demo_acme (replicate 32 1) = Some ''nas''" "device_name_of demo_acme (replicate 32 2) = Some ''nas''"
  by (simp_all add: demo_acme_def demo_dev_def allocated_user_label_def lookup_user_label_def tget_def
      device_name_of_def find_device_row_def empty_store_def)

lemma demo_orders:
  "acme_order (Some ''a.b'') (demo_order ''s'') demo_acme = Inr (replicate 32 1, [(demo_name ''alice'', ''AAA'')])"
  "acme_order (Some ''a.b'') (demo_order ''t'') demo_acme = Inr (replicate 32 2, [(demo_name ''bob'', ''AAA'')])"
proof -
  have c: "challenge_name ''nas.alice'' ''a.b'' = demo_name ''alice''" "challenge_name ''nas.bob'' ''a.b'' = demo_name ''bob''"
    by code_simp+
  have v: "valid_challenge_value ''AAA''" by code_simp
  show "acme_order (Some ''a.b'') (demo_order ''s'') demo_acme = Inr (replicate 32 1, [(demo_name ''alice'', ''AAA'')])"
    and "acme_order (Some ''a.b'') (demo_order ''t'') demo_acme = Inr (replicate 32 2, [(demo_name ''bob'', ''AAA'')])"
    using c v
    by (simp_all add: acme_order_def demo_order_def demo_tokens demo_names order_values_def acme_records_def
        MAX_DEVICE_CHALLENGES_def dot_def)
qed

lemma demo_publish:
  "fst (publish_at k [(n, v)] 7 (new_challenges 1)) = Inr ()"
  by (simp add: publish_at_def Let_def is_live_def new_challenges_def device_issuances_def prune_def tkeep_def
      tget_def MAX_CERTS_PER_DEVICE_PER_WEEK_def MAX_LIVE_CHALLENGES_def)

lemma demo_challenge:
  "fst (acme_challenge (Some ''a.b'') (demo_order ''s'') 7 demo_acme (new_challenges 1)) = Inr [demo_name ''alice'']"
  "fst (acme_challenge (Some ''a.b'') (demo_order ''t'') 7 demo_acme (new_challenges 1)) = Inr [demo_name ''bob'']"
proof -
  obtain cs1 where "publish_at (replicate 32 1) [(demo_name ''alice'', ''AAA'')] 7 (new_challenges 1) = (Inr (), cs1)"
    using demo_publish by (metis prod.collapse)
  then show "fst (acme_challenge (Some ''a.b'') (demo_order ''s'') 7 demo_acme (new_challenges 1)) = Inr [demo_name ''alice'']"
    by (simp add: acme_challenge_def demo_orders distinct_names_def)
  obtain cs2 where "publish_at (replicate 32 2) [(demo_name ''bob'', ''AAA'')] 7 (new_challenges 1) = (Inr (), cs2)"
    using demo_publish by (metis prod.collapse)
  then show "fst (acme_challenge (Some ''a.b'') (demo_order ''t'') 7 demo_acme (new_challenges 1)) = Inr [demo_name ''bob'']"
    by (simp add: acme_challenge_def demo_orders distinct_names_def)
qed

lemma acme_owner_only_witness:
  "\<exists>label. allocated_user_label demo_acme 7 = Some label \<and> names_user ''a.b'' label (demo_name ''alice'')"
proof -
  obtain cs' where "acme_challenge (Some ''a.b'') (demo_order ''s'') 7 demo_acme (new_challenges 1) =
      (Inr [demo_name ''alice''], cs')"
    using demo_challenge(1) by (metis prod.collapse)
  from acme_owner_only [OF this] show ?thesis by (auto simp: demo_order_def demo_tokens)
qed


lemma acme_order_resolves_witness:
  "\<exists>resp. fst (answer demo_hickory \<lparr>z_origin = ''a.b.'', z_serial = 1\<rparr> (demo_query (demo_name ''alice'' @ ''.'')) 306
     (snd (acme_challenge (Some ''a.b'') (demo_order ''s'') 7 demo_acme (new_challenges 1)))) = Some resp \<and>
     m_response_code resp = NoError \<and>
     challenge_rr (demo_name ''alice'' @ ''.'') ''AAA'' \<in> set (m_answers resp)"
proof -
  let ?q = "\<lparr>q_name = demo_name ''alice'' @ ''.'', q_type = TXT\<rparr>"
  obtain cs1 where
    a: "acme_challenge (Some ''a.b'') (demo_order ''s'') 7 demo_acme (new_challenges 1) = (Inr [demo_name ''alice''], cs1)"
    using demo_challenge by (metis prod.collapse)
  have ok: "hickory_ok demo_hickory" by (simp add: hickory_ok_def demo_hickory_def)
  have q: "asks demo_hickory \<lparr>z_origin = ''a.b.'', z_serial = 1\<rparr> (demo_query (demo_name ''alice'' @ ''.'')) ?q"
    "below_apex demo_hickory \<lparr>z_origin = ''a.b.'', z_serial = 1\<rparr> ?q" "key_of demo_hickory ?q = demo_name ''alice''"
    by (simp_all add: asks_def below_apex_def demo_query_def demo_hickory_def key_of_def unrooted_def)
      (simp_all add: demo_name_def strip_suffix_def lower_def to_lower_def is_upper_def dot_def)
  show ?thesis
    using acme_order_resolves [OF new_challenges_inv demo_orders(1) a, where r = "(demo_name ''alice'', ''AAA'')"
        and h = demo_hickory and t = 306 and q = ?q] ok q a
    by (simp add: values_at_def prune_def new_challenges_def MAX_VALUES_PER_NAME_def CHALLENGE_TTL_def
        tget_def tkeep_def)
qed

end
