(* ===== verification/Release.thy ===== *)
theory Release
  imports Prelude
begin

section \<open>The release manifest: \<open>common/src/update.rs\<close>\<close>

text \<open>What the coordinator serves and the engine installs: one artifact per platform, the first listed counts.\<close>

datatype platform = LinuxAmd64 | WindowsAmd64

record release_artifact =
  ra_platform :: platform
  ra_url :: string
  ra_sha256 :: "u8 list"
  ra_size :: u64

record release_manifest =
  rm_version :: string
  rm_artifacts :: "release_artifact list"

definition artifact_for :: "platform \<Rightarrow> release_manifest \<Rightarrow> release_artifact option" where
  "artifact_for p m = List.find (\<lambda>a. ra_platform a = p) (rm_artifacts m)"

end
