(* ===== verification/NatTables.thy ===== *)
theory NatTables
  imports ApiTypes Wire Presence
begin

section \<open>NAT-traversal brokering: \<open>api/nat.rs\<close> and \<open>common/src/relay.rs\<close>\<close>

text \<open>
  The tables of what devices publish about each other (reflexive addresses, relayed addresses, ICE
  offers), the gates in front of them, and the punch and relay targets read out of them. The sets
  \<open>comembers\<close> and \<open>wake_targets\<close> of the code are lists here, compared as sets.
\<close>

definition MAX_PEER_REPORTS :: nat where "MAX_PEER_REPORTS = 256"
definition MAX_ICE_REPORTS :: nat where "MAX_ICE_REPORTS = 128"
definition MAX_ICE_CANDIDATES :: nat where "MAX_ICE_CANDIDATES = 16"
definition MAX_ICE_CREDENTIAL_BYTES :: nat where "MAX_ICE_CREDENTIAL_BYTES = 256"
definition MAX_ICE_CANDIDATE_BYTES :: nat where "MAX_ICE_CANDIDATE_BYTES = 512"
definition MAX_RELAY_SECRET_BYTES :: nat where "MAX_RELAY_SECRET_BYTES = 256"

record relay_reg =
  rr_addr :: sockaddr
  rr_secret :: string

record nat_tables =
  nt_source_ip :: "(key, ip) hmap"
  nt_reflexive :: "(key, sockaddr) hmap"
  nt_relays :: "(key, relay_reg) hmap"
  nt_relay_allocs :: "(key \<times> key, sockaddr) hmap"
  nt_ice :: "(key \<times> key, ice_params) hmap"

definition no_nat :: nat_tables where
  "no_nat = \<lparr>nt_source_ip = [], nt_reflexive = [], nt_relays = [], nt_relay_allocs = [], nt_ice = []\<rparr>"

subsection \<open>Recording reports\<close>

definition accepted_reflexives :: "observed_endpoint list \<Rightarrow> key list \<Rightarrow> (key, ip) hmap \<Rightarrow> observed_endpoint list" where
  "accepted_reflexives obs comembers src =
     filter (\<lambda>o'. oe_pubkey o' \<in> set comembers \<and> tget src (oe_pubkey o') = Some (sa_ip (oe_endpoint o'))) obs"

text \<open>
  The loop all three tables share: insert what is new or changed, and name the device to wake.
\<close>

fun report_loop :: "('k \<times> 'v \<times> key) list \<Rightarrow> ('k, 'v) hmap \<Rightarrow> key list \<Rightarrow> ('k, 'v) hmap \<times> key list" where
  "report_loop [] m wakes = (m, wakes)"
| "report_loop ((k, v, target) # rs) m wakes =
     (if tget m k \<noteq> Some v then report_loop rs (tput k v m) (target # wakes)
      else report_loop rs m wakes)"

definition reflexive_reports :: "register_req \<Rightarrow> key list \<Rightarrow> (key, ip) hmap \<Rightarrow> (key \<times> sockaddr \<times> key) list" where
  "reflexive_reports req comembers src =
     map (\<lambda>o'. (oe_pubkey o', oe_endpoint o', oe_pubkey o')) (accepted_reflexives (rq_observed req) comembers src)"

definition alloc_reports :: "register_req \<Rightarrow> key list \<Rightarrow> ((key \<times> key) \<times> sockaddr \<times> key) list" where
  "alloc_reports req comembers =
     map (\<lambda>a. ((rq_wg_pubkey req, al_peer a), al_relayed a, al_peer a))
       (filter (\<lambda>a. al_peer a \<in> set comembers) (rq_relay_allocated req))"

definition ice_reports :: "register_req \<Rightarrow> key list \<Rightarrow> ((key \<times> key) \<times> ice_params \<times> key) list" where
  "ice_reports req comembers =
     map (\<lambda>e. ((rq_wg_pubkey req, ie_peer e), ie_params e, ie_peer e))
       (filter (\<lambda>e. ie_peer e \<in> set comembers) (rq_ice req))"

definition record_relay :: "register_req \<Rightarrow> (key, relay_reg) hmap \<Rightarrow> (key, relay_reg) hmap" where
  "record_relay req m =
     (case (rq_relay_capable req, rq_relay_addr req, rq_relay_secret req) of
        (True, Some addr, Some secret) \<Rightarrow> tput (rq_wg_pubkey req) \<lparr>rr_addr = addr, rr_secret = secret\<rparr> m
      | _ \<Rightarrow> tdel (rq_wg_pubkey req) m)"

definition record_peer_reports :: "register_req \<Rightarrow> key list \<Rightarrow> nat_tables \<Rightarrow> key list \<Rightarrow> nat_tables \<times> key list" where
  "record_peer_reports req comembers t wakes =
     (let (refl, wakes) = report_loop (reflexive_reports req comembers (nt_source_ip t)) (nt_reflexive t) wakes;
          rel = record_relay req (nt_relays t);
          (allocs, wakes) = report_loop (alloc_reports req comembers) (nt_relay_allocs t) wakes;
          (ices, wakes) = report_loop (ice_reports req comembers) (nt_ice t) wakes
      in (t\<lparr>nt_reflexive := refl, nt_relays := rel, nt_relay_allocs := allocs, nt_ice := ices\<rparr>, wakes))"

definition validate_peer_reports :: "register_req \<Rightarrow> api_error + unit" where
  "validate_peer_reports req =
     (if MAX_PEER_REPORTS < length (rq_observed req) \<or> MAX_PEER_REPORTS < length (rq_need_relay req) \<or>
         MAX_PEER_REPORTS < length (rq_relay_allocated req)
      then Inl (ApiError BAD_REQUEST)
      else if MAX_ICE_REPORTS < length (rq_ice req) then Inl (ApiError BAD_REQUEST)
      else if (case rq_relay_secret req of Some s \<Rightarrow> MAX_RELAY_SECRET_BYTES < length s | None \<Rightarrow> False)
      then Inl (ApiError BAD_REQUEST)
      else if \<exists>e\<in>set (rq_ice req).
           MAX_ICE_CREDENTIAL_BYTES < length (ic_ufrag (ie_params e)) \<or>
           MAX_ICE_CREDENTIAL_BYTES < length (ic_pwd (ie_params e)) \<or>
           MAX_ICE_CANDIDATES < length (ic_candidates (ie_params e)) \<or>
           (\<exists>c\<in>set (ic_candidates (ie_params e)). MAX_ICE_CANDIDATE_BYTES < length c)
      then Inl (ApiError BAD_REQUEST)
      else Inr ())"

text \<open>\<open>prune_nat_tables\<close> of \<open>api/mod.rs\<close>, without its last line on the wakers.\<close>

definition prune_nat_tables :: "key list \<Rightarrow> nat_tables \<Rightarrow> nat_tables" where
  "prune_nat_tables present t =
     t\<lparr>nt_source_ip := tkeep (\<lambda>pk _. pk \<in> set present) (nt_source_ip t),
       nt_reflexive := tkeep (\<lambda>pk _. pk \<in> set present) (nt_reflexive t),
       nt_relays := tkeep (\<lambda>pk _. pk \<in> set present) (nt_relays t),
       nt_relay_allocs := tkeep (\<lambda>(owner, peer) _. owner \<in> set present \<and> peer \<in> set present) (nt_relay_allocs t),
       nt_ice := tkeep (\<lambda>(owner, peer) _. owner \<in> set present \<and> peer \<in> set present) (nt_ice t)\<rparr>"

subsection \<open>Targets\<close>

definition punch_target :: "bool \<Rightarrow> sockaddr option \<Rightarrow> sockaddr option \<Rightarrow> sockaddr option" where
  "punch_target caller_dialable peer_endpoint peer_reflexive =
     (if \<not> caller_dialable \<and> peer_endpoint = None then peer_reflexive else None)"

definition RELAY_REALM :: string where "RELAY_REALM = ''unitylan''"

definition relay_credential :: "crypto \<Rightarrow> string \<Rightarrow> string \<Rightarrow> string" where
  "relay_credential c secret username = b64_enc c (hmac_sha1 c (bytes secret) (bytes username))"

definition issue_relay_creds :: "crypto \<Rightarrow> sockaddr \<Rightarrow> string \<Rightarrow> u64 \<Rightarrow> u64 \<Rightarrow> relay_info" where
  "issue_relay_creds c turn_addr secret now ttl =
     (let username = dec (unat (now + ttl))
      in \<lparr>ri_turn_addr = turn_addr, ri_username = username, ri_credential = relay_credential c secret username,
          ri_realm = RELAY_REALM, ri_peer_relayed = None\<rparr>)"

type_synonym relay_candidate = "key \<times> shared_network list \<times> relay_reg"

definition serves_both :: "key \<Rightarrow> shared_network list \<Rightarrow> relay_candidate \<Rightarrow> bool" where
  "serves_both peer peer_networks cand \<longleftrightarrow>
     (case cand of (pk, nets, reg) \<Rightarrow> pk \<noteq> peer \<and> (\<exists>n\<in>set nets. n \<in> set peer_networks))"

text \<open>\<open>Iterator::min_by_key\<close>: of several minima the first.\<close>

fun min_by_key :: "('a \<Rightarrow> 'b::linorder) \<Rightarrow> 'a list \<Rightarrow> 'a option" where
  "min_by_key f [] = None"
| "min_by_key f (x # xs) =
     (case min_by_key f xs of None \<Rightarrow> Some x | Some y \<Rightarrow> if f x \<le> f y then Some x else Some y)"

definition relay_target ::
  "crypto \<Rightarrow> key \<Rightarrow> shared_network list \<Rightarrow> relay_candidate list \<Rightarrow> u64 \<Rightarrow> relay_info option" where
  "relay_target c peer peer_networks cands now =
     map_option (\<lambda>(pk, nets, reg). issue_relay_creds c (rr_addr reg) (rr_secret reg) now RELAY_CRED_TTL_SECS)
       (min_by_key fst (filter (serves_both peer peer_networks) cands))"

subsection \<open>What a report may change\<close>

lemma report_loop_spec:
  assumes "report_loop rs m wakes = (m', wakes')"
  shows "set wakes \<subseteq> set wakes' \<and> set wakes' \<subseteq> set wakes \<union> (\<lambda>(k, v, t). t) ` set rs \<and>
    (\<forall>k. tget m' k \<noteq> tget m k \<longrightarrow>
       (\<exists>v target. (k, v, target) \<in> set rs \<and> tget m' k = Some v \<and> target \<in> set wakes'))"
  using assms
proof (induction rs m wakes rule: report_loop.induct)
  case (2 k v target rs m wakes)
  show ?case
  proof (cases "tget m k = Some v")
    case True
    with 2 show ?thesis by (auto; blast)
  next
    case False
    let ?m = "tput k v m"
    have run: "report_loop rs ?m (target # wakes) = (m', wakes')" using 2(3) False by simp
    have IH: "set (target # wakes) \<subseteq> set wakes'"
      "set wakes' \<subseteq> set (target # wakes) \<union> (\<lambda>(k, v, t). t) ` set rs"
      "\<And>j. tget m' j \<noteq> tget ?m j \<Longrightarrow>
         \<exists>v target. (j, v, target) \<in> set rs \<and> tget m' j = Some v \<and> target \<in> set wakes'"
      using 2(1) [OF False run] by blast+
    have "\<exists>v' target'. (j, v', target') \<in> set ((k, v, target) # rs) \<and> tget m' j = Some v' \<and> target' \<in> set wakes'"
      if "tget m' j \<noteq> tget m j" for j
    proof (cases "tget m' j = tget ?m j")
      case True
      with that have "j = k" by (cases "j = k") auto
      with True IH(1) show ?thesis by auto
    next
      case False
      with IH(3) [OF False] show ?thesis by auto
    qed
    with IH(1,2) show ?thesis by auto
  qed
qed simp

text \<open>Nothing reported is lost either: an entry the loop reaches ends up as some report has it.\<close>

lemma report_loop_stored:
  "report_loop rs m wakes = (m', wakes') \<Longrightarrow> (k, v, target) \<in> set rs \<Longrightarrow>
   \<exists>v' target'. (k, v', target') \<in> set rs \<and> tget m' k = Some v'"
proof (induction rs arbitrary: m wakes v target)
  case (Cons r rs)
  obtain a b c where r: "r = (a, b, c)" by (cases r)
  obtain m1 w1 where run: "report_loop rs m1 w1 = (m', wakes')" "tget m1 a = Some b"
    using Cons.prems(1) by (cases "tget m a = Some b") (auto simp: r)
  show ?case
  proof (cases "\<exists>v target. (k, v, target) \<in> set rs")
    case True
    then obtain v1 t1 where "(k, v1, t1) \<in> set rs" by blast
    from Cons.IH [OF run(1) this] show ?thesis by (metis list.set_intros(2))
  next
    case False
    then have "tget m' k = tget m1 k"
      using report_loop_spec [OF run(1)] by blast
    moreover have "a = k" using False Cons.prems(2) r by auto
    ultimately show ?thesis using run(2) r by auto
  qed
qed simp

text \<open>
  A request changes the tables only about itself and its co-members: a reflexive address only of
  a co-member, to an address some report of the request gives and whose IP is the one the
  coordinator saw that device connect from; a relay registration only its own; relayed addresses
  and ICE offers only from itself to a co-member. Whoever an entry is changed for is woken, and
  no one else than co-members is.\<close>

theorem peer_reports_confined:
  assumes "record_peer_reports req comembers t wakes = (t', wakes')"
  shows "nt_source_ip t' = nt_source_ip t \<and> set wakes' \<subseteq> set wakes \<union> set comembers \<and>
    (\<forall>k. tget (nt_reflexive t') k \<noteq> tget (nt_reflexive t) k \<longrightarrow> k \<in> set comembers \<and> k \<in> set wakes' \<and>
       (\<exists>a. tget (nt_reflexive t') k = Some a \<and> \<lparr>oe_pubkey = k, oe_endpoint = a\<rparr> \<in> set (rq_observed req) \<and>
            tget (nt_source_ip t) k = Some (sa_ip a))) \<and>
    (\<forall>k. k \<noteq> rq_wg_pubkey req \<longrightarrow> tok (nt_relays t) \<longrightarrow> tget (nt_relays t') k = tget (nt_relays t) k) \<and>
    (\<forall>owner peer. tget (nt_relay_allocs t') (owner, peer) \<noteq> tget (nt_relay_allocs t) (owner, peer) \<longrightarrow>
       owner = rq_wg_pubkey req \<and> peer \<in> set comembers \<and> peer \<in> set wakes') \<and>
    (\<forall>owner peer. tget (nt_ice t') (owner, peer) \<noteq> tget (nt_ice t) (owner, peer) \<longrightarrow>
       owner = rq_wg_pubkey req \<and> peer \<in> set comembers \<and> peer \<in> set wakes')"
proof -
  obtain refl w1 where r1: "report_loop (reflexive_reports req comembers (nt_source_ip t)) (nt_reflexive t) wakes = (refl, w1)"
    by fastforce
  obtain allocs w2 where r2: "report_loop (alloc_reports req comembers) (nt_relay_allocs t) w1 = (allocs, w2)" by fastforce
  obtain ices w3 where r3: "report_loop (ice_reports req comembers) (nt_ice t) w2 = (ices, w3)" by fastforce
  have t': "t' = t\<lparr>nt_reflexive := refl, nt_relays := record_relay req (nt_relays t), nt_relay_allocs := allocs, nt_ice := ices\<rparr>"
    "wakes' = w3"
    using assms r1 r2 r3 by (simp_all add: record_peer_reports_def Let_def)
  note s1 = report_loop_spec [OF r1] and s2 = report_loop_spec [OF r2] and s3 = report_loop_spec [OF r3]
  have targets: "(\<lambda>(k, v, t). t) ` set (reflexive_reports req comembers (nt_source_ip t)) \<subseteq> set comembers"
    "(\<lambda>(k, v, t). t) ` set (alloc_reports req comembers) \<subseteq> set comembers"
    "(\<lambda>(k, v, t). t) ` set (ice_reports req comembers) \<subseteq> set comembers"
    by (auto simp: reflexive_reports_def accepted_reflexives_def alloc_reports_def ice_reports_def)
  have "set w3 \<subseteq> set wakes \<union> set comembers" using s1 s2 s3 targets by blast
  moreover have "k \<in> set comembers \<and> k \<in> set w3 \<and>
       (\<exists>a. tget refl k = Some a \<and> \<lparr>oe_pubkey = k, oe_endpoint = a\<rparr> \<in> set (rq_observed req) \<and>
            tget (nt_source_ip t) k = Some (sa_ip a))"
    if c: "tget refl k \<noteq> tget (nt_reflexive t) k" for k
  proof -
    obtain v target where v: "(k, v, target) \<in> set (reflexive_reports req comembers (nt_source_ip t))"
        "tget refl k = Some v" "target \<in> set w1" using s1 c by blast
    then have "target = k" "k \<in> set comembers" "\<lparr>oe_pubkey = k, oe_endpoint = v\<rparr> \<in> set (rq_observed req)"
        "tget (nt_source_ip t) k = Some (sa_ip v)"
      by (auto simp: reflexive_reports_def accepted_reflexives_def) (metis observed_endpoint.surjective old.unit.exhaust)+
    with v s2 s3 show ?thesis by blast
  qed
  moreover have "k \<noteq> rq_wg_pubkey req \<longrightarrow> tok (nt_relays t) \<longrightarrow> tget (record_relay req (nt_relays t)) k = tget (nt_relays t) k" for k
    by (auto simp: record_relay_def split: bool.splits option.splits)
  moreover have "owner = rq_wg_pubkey req \<and> peer \<in> set comembers \<and> peer \<in> set w3"
    if c: "tget allocs (owner, peer) \<noteq> tget (nt_relay_allocs t) (owner, peer)" for owner peer
  proof -
    obtain v target where "((owner, peer), v, target) \<in> set (alloc_reports req comembers)" "target \<in> set w2"
      using s2 c by blast
    then show ?thesis using s3 by (auto simp: alloc_reports_def)
  qed
  moreover have "owner = rq_wg_pubkey req \<and> peer \<in> set comembers \<and> peer \<in> set w3"
    if c: "tget ices (owner, peer) \<noteq> tget (nt_ice t) (owner, peer)" for owner peer
  proof -
    obtain v target where "((owner, peer), v, target) \<in> set (ice_reports req comembers)" "target \<in> set w3"
      using s3 c by blast
    then show ?thesis by (auto simp: ice_reports_def)
  qed
  ultimately show ?thesis unfolding t' by simp
qed

subsection \<open>The relay both ends agree on\<close>

lemma min_by_key_None [simp]: "min_by_key f xs = None \<longleftrightarrow> xs = []"
  by (cases xs) (auto split: option.splits)

lemma min_by_key_Some:
  "min_by_key f xs = Some x \<Longrightarrow> x \<in> set xs \<and> (\<forall>y\<in>set xs. f x \<le> f y)"
  by (induction xs arbitrary: x) (auto split: option.splits if_splits intro: order_trans)

lemma min_by_key_unique:
  assumes "x \<in> set xs" and "\<forall>y\<in>set xs. y \<noteq> x \<longrightarrow> f x < f y"
  shows "min_by_key f xs = Some x"
proof -
  obtain z where z: "min_by_key f xs = Some z" using assms(1) by (cases "min_by_key f xs") auto
  with min_by_key_Some [OF z] assms have "z = x" by (metis leD)
  with z show ?thesis by simp
qed

text \<open>The relay chosen depends only on which relays serve both, not on the lists seen.\<close>

lemma relay_target_cong:
  assumes "fst ` set (filter (serves_both p np) cs) = fst ` set (filter (serves_both q nq) ds)"
    and "\<And>pk n r n' r'. (pk, n, r) \<in> set cs \<Longrightarrow> (pk, n', r') \<in> set ds \<Longrightarrow> r = r'"
  shows "relay_target c p np cs now = relay_target c q nq ds now"
proof (cases "filter (serves_both p np) cs = []")
  case True
  then have "filter (serves_both q nq) ds = []" using assms(1) by (metis image_is_empty set_empty)
  with True show ?thesis by (simp add: relay_target_def)
next
  case False
  then have "filter (serves_both q nq) ds \<noteq> []" using assms(1) by (metis image_is_empty set_empty)
  then obtain y where y: "min_by_key fst (filter (serves_both q nq) ds) = Some y"
    by (cases "min_by_key fst (filter (serves_both q nq) ds)") auto
  obtain x where x: "min_by_key fst (filter (serves_both p np) cs) = Some x"
    using False by (cases "min_by_key fst (filter (serves_both p np) cs)") auto
  note mx = min_by_key_Some [OF x] and my = min_by_key_Some [OF y]
  have "fst x \<le> fst y"
  proof -
    have "fst y \<in> fst ` set (filter (serves_both p np) cs)" using my assms(1) by blast
    then obtain z where "z \<in> set (filter (serves_both p np) cs)" "fst y = fst z" by blast
    then show ?thesis using mx by metis
  qed
  moreover have "fst y \<le> fst x"
  proof -
    have "fst x \<in> fst ` set (filter (serves_both q nq) ds)" using mx assms(1) by blast
    then obtain z where "z \<in> set (filter (serves_both q nq) ds)" "fst x = fst z" by blast
    then show ?thesis using my by metis
  qed
  ultimately have k: "fst x = fst y" by simp
  obtain pk n r where x': "x = (pk, n, r)" by (cases x)
  obtain n' r' where y': "y = (pk, n', r')" using k x' by (cases y) simp
  have "r = r'" using assms(2) mx my x' y' by auto
  with x y x' y' show ?thesis by (simp add: relay_target_def)
qed

subsection \<open>Witness\<close>

definition demo_addr :: "u32 \<Rightarrow> sockaddr" where
  "demo_addr a = \<lparr>sa_ip = V4 a, sa_port = 51820\<rparr>"

definition demo_register :: "key \<Rightarrow> register_req" where
  "demo_register pk = \<lparr>rq_wg_pubkey = pk, rq_device_name = ''nas'', rq_enrollment_key = None, rq_device_token = None,
     rq_possession_proof = None, rq_endpoint = None, rq_since = None, rq_disabled_networks = [], rq_observed = [],
     rq_supersede = None, rq_paused = False, rq_relay_capable = False, rq_relay_addr = None, rq_relay_secret = None,
     rq_need_relay = [], rq_relay_allocated = [], rq_ice = [], rq_peer_own_devices = True, rq_proto = 5,
     rq_proto_min = 4, rq_caps = [], rq_client_version = [], rq_held = []\<rparr>"

lemma peer_reports_confined_witness:
  "tget (nt_reflexive (fst (record_peer_reports
     ((demo_register [1])\<lparr>rq_observed := [\<lparr>oe_pubkey = [2], oe_endpoint = demo_addr 9\<rparr>]\<rparr>) [[2]]
     (no_nat\<lparr>nt_source_ip := [([2], V4 9)]\<rparr>) []))) [2] = Some (demo_addr 9) \<and>
   [2] \<in> set (snd (record_peer_reports
     ((demo_register [1])\<lparr>rq_observed := [\<lparr>oe_pubkey = [2], oe_endpoint = demo_addr 9\<rparr>]\<rparr>) [[2]]
     (no_nat\<lparr>nt_source_ip := [([2], V4 9)]\<rparr>) []))"
proof -
  let ?req = "(demo_register [1])\<lparr>rq_observed := [\<lparr>oe_pubkey = [2], oe_endpoint = demo_addr 9\<rparr>]\<rparr>"
  let ?t = "no_nat\<lparr>nt_source_ip := [([2], V4 9)]\<rparr>"
  obtain t' w where run: "record_peer_reports ?req [[2]] ?t [] = (t', w)" by fastforce
  then have e: "tget (nt_reflexive t') [2] = Some (demo_addr 9)"
    by (simp add: record_peer_reports_def reflexive_reports_def accepted_reflexives_def demo_register_def
        no_nat_def demo_addr_def alloc_reports_def ice_reports_def tget_def tput_def) auto
  have "tget (nt_reflexive ?t) [2] = None" by (simp add: no_nat_def tget_def)
  with peer_reports_confined [OF run] e have "[2] \<in> set w" by (metis option.distinct(1))
  with run e show ?thesis by simp
qed

end
