(* ===== verification/Wake.thy ===== *)
theory Wake
  imports Versions
begin

section \<open>Parking and waking: \<open>crates/coordinator/src/api/wake.rs\<close>\<close>

text \<open>
  The long-poll's three mechanisms: the admission of parked requests, the registry of targeted
  wakes, and the loop a parked request sits in. A \<open>watch\<close> channel is its value, a count of its live
  receivers, and for the loop the version tokio keeps beside the value.
\<close>

subsection \<open>\<open>ParkSlots\<close>\<close>

record permit =
  pm_pubkey :: key
  pm_seq :: u64
  pm_preempted :: bool

record park_slots =
  sl_max :: nat
  sl_permits :: "permit list"
  sl_devices :: "(key, u64) hmap"
  sl_next_seq :: u64

definition new_park_slots :: "nat \<Rightarrow> park_slots" where
  "new_park_slots m = \<lparr>sl_max = m, sl_permits = [], sl_devices = [], sl_next_seq = 0\<rparr>"

definition preempt :: "key \<Rightarrow> u64 option \<Rightarrow> permit \<Rightarrow> permit" where
  "preempt pk displaced p =
     (if pm_pubkey p = pk \<and> displaced = Some (pm_seq p) then p\<lparr>pm_preempted := True\<rparr> else p)"

definition try_acquire :: "key \<Rightarrow> park_slots \<Rightarrow> permit option \<times> park_slots" where
  "try_acquire pk ps =
     (if sl_max ps \<le> length (sl_permits ps) then (None, ps)
      else let sq = sl_next_seq ps; p = \<lparr>pm_pubkey = pk, pm_seq = sq, pm_preempted = False\<rparr>
        in (Some p, ps\<lparr>sl_next_seq := sq + 1, sl_devices := tput pk sq (sl_devices ps),
              sl_permits := map (preempt pk (tget (sl_devices ps) pk)) (sl_permits ps) @ [p]\<rparr>))"

definition drop_permit :: "key \<Rightarrow> u64 \<Rightarrow> park_slots \<Rightarrow> park_slots" where
  "drop_permit pk sq ps =
     ps\<lparr>sl_permits := filter (\<lambda>p. \<not> (pm_pubkey p = pk \<and> pm_seq p = sq)) (sl_permits ps),
        sl_devices := (if tget (sl_devices ps) pk = Some sq then tdel pk (sl_devices ps) else sl_devices ps)\<rparr>"

datatype park_op = Acquire key | Release key u64

definition park_step :: "park_op \<Rightarrow> park_slots \<Rightarrow> park_slots" where
  "park_step op ps =
     (case op of Acquire pk \<Rightarrow> snd (try_acquire pk ps) | Release pk sq \<Rightarrow> drop_permit pk sq ps)"

definition park_run :: "park_op list \<Rightarrow> nat \<Rightarrow> park_slots" where
  "park_run ops m = fold park_step ops (new_park_slots m)"

text \<open>\<open>n\<close> counts the acquisitions so far, below the wrap of the sequence counter.\<close>

definition park_inv :: "nat \<Rightarrow> park_slots \<Rightarrow> bool" where
  "park_inv n ps \<longleftrightarrow> length (sl_permits ps) \<le> sl_max ps \<and> tok (sl_devices ps) \<and>
     distinct (map pm_seq (sl_permits ps)) \<and> unat (sl_next_seq ps) = n \<and>
     (\<forall>p\<in>set (sl_permits ps). unat (pm_seq p) < n \<and>
        (pm_preempted p \<longleftrightarrow> tget (sl_devices ps) (pm_pubkey p) \<noteq> Some (pm_seq p))) \<and>
     (\<forall>pk sq. tget (sl_devices ps) pk = Some sq \<longrightarrow>
        (\<exists>p\<in>set (sl_permits ps). pm_pubkey p = pk \<and> pm_seq p = sq))"

lemma preempt_simps [simp]:
  "pm_pubkey (preempt pk d p) = pm_pubkey p" "pm_seq (preempt pk d p) = pm_seq p"
  "pm_preempted (preempt pk d p) \<longleftrightarrow> pm_preempted p \<or> pm_pubkey p = pk \<and> d = Some (pm_seq p)"
  by (auto simp: preempt_def)

lemma distinct_const: "distinct (map f xs) \<Longrightarrow> \<forall>x\<in>set xs. f x = c \<Longrightarrow> length xs \<le> 1"
proof (cases xs)
  case (Cons x ys)
  then show "distinct (map f xs) \<Longrightarrow> \<forall>x\<in>set xs. f x = c \<Longrightarrow> length xs \<le> 1"
    by (cases ys) auto
qed simp

lemma park_inv_new: "park_inv 0 (new_park_slots m)"
  by (simp add: park_inv_def new_park_slots_def)

lemma acquire_refused: "sl_max ps \<le> length (sl_permits ps) \<Longrightarrow> try_acquire pk ps = (None, ps)"
  by (simp add: try_acquire_def)

lemma park_inv_acquire:
  assumes inv: "park_inv n ps" and room: "\<not> sl_max ps \<le> length (sl_permits ps)" and "Suc n < 2 ^ 64"
  shows "park_inv (Suc n) (snd (try_acquire pk ps))"
proof -
  have seq: "unat (sl_next_seq ps) = n" using inv by (simp add: park_inv_def)
  have nx: "unat (sl_next_seq ps + 1) = Suc n"
    using seq assms(3) by (simp add: unat_word_ariths)
  have new: "pm_seq p \<noteq> sl_next_seq ps" if "p \<in> set (sl_permits ps)" for p
    using inv that seq by (auto simp: park_inv_def)
  have "distinct (map pm_seq (sl_permits ps) @ [sl_next_seq ps])"
    using inv new by (auto simp: park_inv_def)
  moreover have "unat (pm_seq p) < Suc n" if "p \<in> set (sl_permits ps)" for p
    using inv that by (auto simp: park_inv_def less_Suc_eq)
  moreover have "tget (sl_devices ps) pk = Some (pm_seq p) \<or> pm_preempted p \<longleftrightarrow>
      tget (tput pk (sl_next_seq ps) (sl_devices ps)) (pm_pubkey p) \<noteq> Some (pm_seq p)"
    if "p \<in> set (sl_permits ps)" "pm_pubkey p = pk" for p
    using inv that new [OF that(1)] by (auto simp: park_inv_def)
  moreover have "pm_preempted p \<longleftrightarrow>
      tget (tput pk (sl_next_seq ps) (sl_devices ps)) (pm_pubkey p) \<noteq> Some (pm_seq p)"
    if "p \<in> set (sl_permits ps)" "pm_pubkey p \<noteq> pk" for p
    using inv that by (auto simp: park_inv_def)
  moreover have "\<exists>p\<in>set (sl_permits ps). pm_pubkey p = d \<and> pm_seq p = sq"
    if "tget (sl_devices ps) d = Some sq" for d sq
    using inv that unfolding park_inv_def by blast
  moreover have "tok (sl_devices ps)" using inv by (simp add: park_inv_def)
  ultimately show ?thesis
    using room nx seq
    by (simp add: park_inv_def try_acquire_def Let_def o_def) (auto split: if_splits)
qed

lemma park_inv_release:
  assumes inv: "park_inv n ps"
  shows "park_inv n (drop_permit pk sq ps)"
proof -
  have tk: "tok (sl_devices ps)" using inv by (simp add: park_inv_def)
  let ?ps = "drop_permit pk sq ps"
  have sub: "p \<in> set (sl_permits ?ps) \<longleftrightarrow> p \<in> set (sl_permits ps) \<and> \<not> (pm_pubkey p = pk \<and> pm_seq p = sq)" for p
    by (simp add: drop_permit_def)
  have dev: "tget (sl_devices ?ps) d = Some s \<longleftrightarrow> tget (sl_devices ps) d = Some s \<and> \<not> (d = pk \<and> s = sq)" for d s
    using tk by (auto simp: drop_permit_def)
  have "length (sl_permits ?ps) \<le> sl_max ?ps"
    using inv le_trans [OF length_filter_le, of "sl_permits ps" "sl_max ps"]
    by (simp add: park_inv_def drop_permit_def)
  moreover have "distinct (map pm_seq (sl_permits ?ps))"
    using inv unfolding park_inv_def drop_permit_def by (simp add: distinct_map_filter)
  moreover have "\<forall>p\<in>set (sl_permits ?ps). unat (pm_seq p) < n \<and>
      (pm_preempted p \<longleftrightarrow> tget (sl_devices ?ps) (pm_pubkey p) \<noteq> Some (pm_seq p))"
    using inv by (auto simp: sub dev park_inv_def)
  moreover have "\<forall>d s. tget (sl_devices ?ps) d = Some s \<longrightarrow>
      (\<exists>p\<in>set (sl_permits ?ps). pm_pubkey p = d \<and> pm_seq p = s)"
    using inv unfolding park_inv_def by (metis dev sub)
  moreover have "tok (sl_devices ?ps)" using tk by (simp add: drop_permit_def)
  moreover have "unat (sl_next_seq ?ps) = n" using inv by (simp add: park_inv_def drop_permit_def)
  ultimately show ?thesis unfolding park_inv_def by blast
qed

lemma park_fold_inv:
  "park_inv n ps \<Longrightarrow> n + length ops < 2 ^ 64 \<Longrightarrow>
   (\<exists>k. park_inv k (fold park_step ops ps) \<and> k \<le> n + length ops) \<and>
   sl_max (fold park_step ops ps) = sl_max ps"
proof (induction ops arbitrary: n ps)
  case (Cons op ops)
  have "\<exists>k\<le>Suc n. park_inv k (park_step op ps)"
  proof (cases op)
    case (Acquire pk)
    show ?thesis
    proof (cases "sl_max ps \<le> length (sl_permits ps)")
      case True
      with Acquire acquire_refused [OF True, of pk] Cons.prems(1) show ?thesis
        by (intro exI [of _ n]) (simp add: park_step_def)
    next
      case False
      have "Suc n < 2 ^ 64" using Cons.prems(2) by simp
      with park_inv_acquire [OF Cons.prems(1) False] Acquire show ?thesis
        by (intro exI [of _ "Suc n"]) (simp add: park_step_def)
    qed
  next
    case (Release pk sq)
    then show ?thesis using park_inv_release [OF Cons.prems(1)]
      by (intro exI [of _ n]) (simp add: park_step_def)
  qed
  then obtain k where k: "k \<le> Suc n" "park_inv k (park_step op ps)" by blast
  have m: "sl_max (park_step op ps) = sl_max ps"
    by (simp add: park_step_def try_acquire_def drop_permit_def Let_def split: park_op.split)
  from Cons.IH [OF k(2)] k(1) Cons.prems(2) m show ?case by fastforce
qed auto

text \<open>
  However requests come and go, at most the configured number is parked, at most one of a device's
  parked requests has not been told to let go, and it is the one the device's slot names; a
  request is refused only when that number is reached, never because of the device's own
  earlier requests.\<close>

theorem park_admission:
  assumes "length ops < 2 ^ 64"
  shows "length (sl_permits (park_run ops m)) \<le> m \<and>
    length (filter (\<lambda>p. pm_pubkey p = pk \<and> \<not> pm_preempted p) (sl_permits (park_run ops m))) \<le> 1 \<and>
    (\<forall>p\<in>set (sl_permits (park_run ops m)). \<not> pm_preempted p \<longleftrightarrow>
       tget (sl_devices (park_run ops m)) (pm_pubkey p) = Some (pm_seq p)) \<and>
    (fst (try_acquire pk (park_run ops m)) = None \<longleftrightarrow> m = length (sl_permits (park_run ops m)))"
proof -
  obtain n where inv: "park_inv n (park_run ops m)" and mx: "sl_max (park_run ops m) = m"
    using park_fold_inv [OF park_inv_new, of ops m] assms by (auto simp: park_run_def new_park_slots_def)
  let ?own = "filter (\<lambda>p. pm_pubkey p = pk \<and> \<not> pm_preempted p) (sl_permits (park_run ops m))"
  have same: "\<forall>p\<in>set ?own. Some (pm_seq p) = tget (sl_devices (park_run ops m)) pk"
    using inv by (auto simp: park_inv_def)
  have "distinct (map (\<lambda>p. Some (pm_seq p)) ?own)"
  proof -
    have "distinct (map pm_seq ?own)"
      using inv unfolding park_inv_def by (simp add: distinct_map_filter)
    then show ?thesis by (simp add: distinct_map inj_on_def)
  qed
  then have "length ?own \<le> 1" using same by (rule distinct_const)
  moreover have le: "length (sl_permits (park_run ops m)) \<le> m" using inv mx by (simp add: park_inv_def)
  moreover have "\<forall>p\<in>set (sl_permits (park_run ops m)). \<not> pm_preempted p \<longleftrightarrow>
       tget (sl_devices (park_run ops m)) (pm_pubkey p) = Some (pm_seq p)"
    using inv unfolding park_inv_def by blast
  moreover have "fst (try_acquire pk (park_run ops m)) = None \<longleftrightarrow> m = length (sl_permits (park_run ops m))"
    using le mx by (auto simp: try_acquire_def Let_def)
  ultimately show ?thesis by blast
qed

lemma park_admission_witness:
  "length (sl_permits (park_run [Acquire [1], Acquire [1], Release [1] 0, Acquire [2]] 2)) \<le> 2"
  using park_admission [of "[Acquire [1], Acquire [1], Release [1] 0, Acquire [2]]" 2 "[1]"] by simp

subsection \<open>\<open>Wakers\<close>\<close>

record waker =
  wk_value :: u64
  wk_receivers :: nat
  wk_pending :: bool

record wakers =
  wk_map :: "(key, waker) hmap"
  wk_subs :: u32

definition WAKERS_GC_EVERY :: u32 where "WAKERS_GC_EVERY = 64"

definition no_wakers :: wakers where "no_wakers = \<lparr>wk_map = [], wk_subs = 0\<rparr>"

definition new_waker :: waker where "new_waker = \<lparr>wk_value = 0, wk_receivers = 0, wk_pending = False\<rparr>"

definition waker_of :: "wakers \<Rightarrow> key \<Rightarrow> waker" where
  "waker_of w pk = (case tget (wk_map w) pk of Some k \<Rightarrow> k | None \<Rightarrow> new_waker)"

definition gc_wakers :: "wakers \<Rightarrow> wakers" where
  "gc_wakers w =
     (if wk_subs w mod WAKERS_GC_EVERY = 0
      then w\<lparr>wk_map := tkeep (\<lambda>_ k. 0 < wk_receivers k \<or> wk_pending k) (wk_map w)\<rparr> else w)"

text \<open>The receiver handed out has seen the current value; the answer says whether a wake was owed.\<close>

definition subscribe :: "key \<Rightarrow> wakers \<Rightarrow> (u64 \<times> bool) \<times> wakers" where
  "subscribe pk w0 =
     (let w = gc_wakers (w0\<lparr>wk_subs := wk_subs w0 + 1\<rparr>); k = waker_of w pk
      in ((wk_value k, wk_pending k),
          w\<lparr>wk_map := tput pk (k\<lparr>wk_receivers := wk_receivers k + 1, wk_pending := False\<rparr>) (wk_map w)\<rparr>))"

text \<open>Dropping the receiver, when the request that subscribed returns.\<close>

definition unsubscribe :: "key \<Rightarrow> wakers \<Rightarrow> wakers" where
  "unsubscribe pk w =
     (case tget (wk_map w) pk of
        None \<Rightarrow> w
      | Some k \<Rightarrow> w\<lparr>wk_map := tput pk (k\<lparr>wk_receivers := wk_receivers k - 1\<rparr>) (wk_map w)\<rparr>)"

definition wake :: "key \<Rightarrow> wakers \<Rightarrow> wakers" where
  "wake pk w =
     (let k = waker_of w pk; k' = k\<lparr>wk_value := wk_value k + 1\<rparr>
      in w\<lparr>wk_map := tput pk (if wk_receivers k' = 0 then k'\<lparr>wk_pending := True\<rparr> else k') (wk_map w)\<rparr>)"

definition retain :: "key list \<Rightarrow> wakers \<Rightarrow> wakers" where
  "retain present w =
     w\<lparr>wk_map := tkeep (\<lambda>pk k. pk \<in> set present \<or> 0 < wk_receivers k) (wk_map w)\<rparr>"

datatype wk_op = Subscribe key | Return key | Wake key | Retain "key list"

definition wk_step :: "wk_op \<Rightarrow> wakers \<Rightarrow> wakers" where
  "wk_step op w =
     (case op of Subscribe pk \<Rightarrow> snd (subscribe pk w) | Return pk \<Rightarrow> unsubscribe pk w
      | Wake pk \<Rightarrow> wake pk w | Retain present \<Rightarrow> retain present w)"

definition wk_run :: "wk_op list \<Rightarrow> wakers \<Rightarrow> wakers" where
  "wk_run ops w = fold wk_step ops w"

lemma gc_keeps: "tok (wk_map w) \<Longrightarrow> tget (wk_map w) pk = Some k \<Longrightarrow> 0 < wk_receivers k \<or> wk_pending k \<Longrightarrow>
   tget (wk_map (gc_wakers w)) pk = Some k"
  by (simp add: gc_wakers_def tget_tkeep)

lemma tok_gc [simp]: "tok (wk_map w) \<Longrightarrow> tok (wk_map (gc_wakers w))"
  by (simp add: gc_wakers_def)

lemma wk_step_tok: "tok (wk_map w) \<Longrightarrow> tok (wk_map (wk_step op w))"
  by (cases op) (auto simp: wk_step_def subscribe_def unsubscribe_def wake_def retain_def Let_def split: option.splits)

text \<open>A wake owed to a device survives everything but its own next request and its leaving.\<close>

definition owed :: "key \<Rightarrow> wakers \<Rightarrow> bool" where
  "owed pk w \<longleftrightarrow> (\<exists>k. tget (wk_map w) pk = Some k \<and> wk_pending k)"

fun leaves :: "key \<Rightarrow> wk_op \<Rightarrow> bool" where
  "leaves pk (Subscribe d) = (d = pk)"
| "leaves pk (Retain present) = (pk \<notin> set present)"
| "leaves pk op = False"

lemma owed_step: "tok (wk_map w) \<Longrightarrow> owed pk w \<Longrightarrow> \<not> leaves pk op \<Longrightarrow> owed pk (wk_step op w)"
proof (cases op)
  case (Subscribe d)
  assume a: "tok (wk_map w)" "owed pk w" "\<not> leaves pk op"
  then obtain k where "tget (wk_map w) pk = Some k" "wk_pending k" by (auto simp: owed_def)
  then have "tget (wk_map (gc_wakers (w\<lparr>wk_subs := wk_subs w + 1\<rparr>))) pk = Some k"
    using a(1) by (intro gc_keeps) auto
  with a Subscribe \<open>wk_pending k\<close> show ?thesis by (simp add: owed_def wk_step_def subscribe_def Let_def)
qed (auto simp: owed_def wk_step_def unsubscribe_def wake_def waker_of_def retain_def Let_def tget_tkeep
    split: option.splits if_splits)

lemma owed_run:
  "tok (wk_map w) \<Longrightarrow> owed pk w \<Longrightarrow> \<forall>op\<in>set ops. \<not> leaves pk op \<Longrightarrow>
   owed pk (wk_run ops w) \<and> tok (wk_map (wk_run ops w))"
proof (induction ops arbitrary: w)
  case (Cons op ops)
  then show ?case using owed_step [of w pk op] wk_step_tok [of w op] by (simp add: wk_run_def)
qed (simp add: wk_run_def)

lemma subscribe_owed: "tok (wk_map w) \<Longrightarrow> owed pk w \<Longrightarrow> snd (fst (subscribe pk w))"
proof -
  assume a: "tok (wk_map w)" "owed pk w"
  then obtain k where "tget (wk_map w) pk = Some k" "wk_pending k" by (auto simp: owed_def)
  then have "tget (wk_map (gc_wakers (w\<lparr>wk_subs := wk_subs w + 1\<rparr>))) pk = Some k"
    using a(1) by (intro gc_keeps) auto
  with \<open>wk_pending k\<close> show ?thesis by (simp add: subscribe_def Let_def waker_of_def)
qed

text \<open>
  A wake fired while its device has no request in flight is delivered: however many other requests
  subscribe, return and wake in between, and whatever the sweeps drop, the device's next
  request is told not to park, unless the device has left the mesh before that.\<close>

theorem wake_while_away_kept:
  assumes "tok (wk_map w)" and "wk_receivers (waker_of w pk) = 0" and "\<forall>op\<in>set ops. \<not> leaves pk op"
  shows "snd (fst (subscribe pk (wk_run ops (wake pk w))))"
proof -
  have "owed pk (wake pk w)" using assms(2) by (simp add: owed_def wake_def Let_def)
  moreover have "tok (wk_map (wake pk w))" using wk_step_tok [OF assms(1), of "Wake pk"] by (simp add: wk_step_def)
  ultimately show ?thesis using owed_run [OF _ _ assms(3)] subscribe_owed by blast
qed

lemma wake_while_away_kept_witness:
  "snd (fst (subscribe [1] (wk_run [Subscribe [2], Wake [1], Retain [[1]], Return [2]] (wake [1] no_wakers))))"
  by (rule wake_while_away_kept) (simp_all add: no_wakers_def waker_of_def new_waker_def)

text \<open>
  A wake fired while the device's request is in flight but no longer waiting, because it is already
  building its answer, is lost: the live receiver absorbs it, the request returns without
  looking at it, and the device's next request is not told.\<close>

theorem wake_lost_while_answering:
  assumes "tok (wk_map w)"
  shows "\<not> snd (fst (subscribe pk (wk_run [Subscribe pk, Wake pk, Return pk] w)))"
  using assms
  by (auto simp: wk_run_def wk_step_def subscribe_def unsubscribe_def wake_def gc_wakers_def
      waker_of_def new_waker_def Let_def tget_tkeep split: option.splits)

lemma wake_lost_while_answering_witness:
  "\<not> snd (fst (subscribe [1] (wk_run [Subscribe [1], Wake [1], Return [1]] no_wakers)))"
  by (rule wake_lost_while_answering) (simp add: no_wakers_def)

subsection \<open>\<open>wait_park\<close>\<close>

text \<open>
  One parked request, between the bumps of everyone else. \<open>wp_version\<close> is the version tokio keeps
  for each channel and \<open>wp_seen\<close> the one this request's receiver has seen; \<open>Marking\<close> holds the
  receivers the loop still has to mark before it reads the aggregate.
\<close>

datatype woke = Herd | Personal | Elapsed | Preempted

datatype wp_phase = Marking "scope list" | Waiting | Woken woke

record wait_state =
  wp_versions :: versions
  wp_version :: "scope \<Rightarrow> nat"
  wp_seen :: "scope \<Rightarrow> nat"
  wp_phase :: wp_phase

datatype wp_event = Bumped scope | MarkSeen | CheckAggregate | Changed | Fired woke

inductive wp_step ::
  "((scope \<times> u64) list \<Rightarrow> u64) \<Rightarrow> scope set \<Rightarrow> u64 \<Rightarrow> wait_state \<Rightarrow> wp_event \<Rightarrow> wait_state \<Rightarrow> bool"
  for hash scopes since where
  bumped: "wp_step hash scopes since w (Bumped s)
     (w\<lparr>wp_versions := bump s (wp_versions w), wp_version := (wp_version w)(s := wp_version w s + 1)\<rparr>)"
| mark: "wp_phase w = Marking (s # rest) \<Longrightarrow>
    wp_step hash scopes since w MarkSeen
     (w\<lparr>wp_seen := (wp_seen w)(s := wp_version w s), wp_phase := Marking rest\<rparr>)"
| herd: "wp_phase w = Marking [] \<Longrightarrow> aggregate hash (wp_versions w) scopes \<noteq> since \<Longrightarrow>
    wp_step hash scopes since w CheckAggregate (w\<lparr>wp_phase := Woken Herd\<rparr>)"
| sleep: "wp_phase w = Marking [] \<Longrightarrow> aggregate hash (wp_versions w) scopes = since \<Longrightarrow>
    wp_step hash scopes since w CheckAggregate (w\<lparr>wp_phase := Waiting\<rparr>)"
| changed: "wp_phase w = Waiting \<Longrightarrow> s \<in> scopes \<Longrightarrow> wp_seen w s \<noteq> wp_version w s \<Longrightarrow>
    wp_step hash scopes since w Changed (w\<lparr>wp_phase := Marking (sorted_list_of_set scopes)\<rparr>)"
| fired: "wp_phase w = Waiting \<Longrightarrow> why \<noteq> Herd \<Longrightarrow>
    wp_step hash scopes since w (Fired why) (w\<lparr>wp_phase := Woken why\<rparr>)"

inductive wp_run ::
  "((scope \<times> u64) list \<Rightarrow> u64) \<Rightarrow> scope set \<Rightarrow> u64 \<Rightarrow> wait_state \<Rightarrow> wp_event list \<Rightarrow> wait_state \<Rightarrow> bool"
  for hash scopes since where
  wp_stop: "wp_run hash scopes since w [] w"
| wp_more: "wp_step hash scopes since w e w1 \<Longrightarrow> wp_run hash scopes since w1 es w2 \<Longrightarrow>
    wp_run hash scopes since w (e # es) w2"

inductive_cases wp_stepE: "wp_step hash scopes since w e w'"
inductive_simps wp_run_simps [simp]: "wp_run hash scopes since w [] w'" "wp_run hash scopes since w (e # es) w'"

definition wp_start :: "scope set \<Rightarrow> versions \<Rightarrow> (scope \<Rightarrow> nat) \<Rightarrow> (scope \<Rightarrow> nat) \<Rightarrow> wait_state" where
  "wp_start scopes v version seen =
     \<lparr>wp_versions = v, wp_version = version, wp_seen = seen, wp_phase = Marking (sorted_list_of_set scopes)\<rparr>"

definition unseen :: "scope set \<Rightarrow> wait_state \<Rightarrow> bool" where
  "unseen scopes w \<longleftrightarrow> (\<exists>s\<in>scopes. wp_seen w s \<noteq> wp_version w s)"

definition wp_inv :: "((scope \<times> u64) list \<Rightarrow> u64) \<Rightarrow> scope set \<Rightarrow> u64 \<Rightarrow> wait_state \<Rightarrow> bool" where
  "wp_inv hash scopes since w \<longleftrightarrow> (\<forall>s. wp_seen w s \<le> wp_version w s) \<and>
     (wp_phase w = Waiting \<and> \<not> unseen scopes w \<longrightarrow> aggregate hash (wp_versions w) scopes = since)"

lemma aggregate_bump_other:
  assumes "finite scopes" and "s \<notin> scopes"
  shows "aggregate hash (bump s v) scopes = aggregate hash v scopes"
proof -
  have "counter_of (bump s v) t = counter_of v t" if "t \<in> scopes" for t
    using that assms(2) by (auto simp: bump_def intro!: bump_all_other)
  then show ?thesis using ledger_eq [OF assms(1) assms(1), of "bump s v" v] by (simp add: aggregate_def)
qed

lemma wp_inv_step:
  assumes "finite scopes" and "wp_inv hash scopes since w" and "wp_step hash scopes since w e w'"
  shows "wp_inv hash scopes since w'"
  using assms(3)
proof (cases rule: wp_step.cases)
  case (bumped s)
  have le: "wp_seen w s \<le> wp_version w s" using assms(2) by (simp add: wp_inv_def)
  show ?thesis
  proof (cases "s \<in> scopes")
    case True
    then have "unseen scopes w'" using le bumped by (auto simp: unseen_def)
    with bumped assms(2) show ?thesis by (auto simp: wp_inv_def le_Suc_eq)
  next
    case False
    then have "unseen scopes w' \<longleftrightarrow> unseen scopes w" using bumped by (auto simp: unseen_def)
    with bumped assms(2) aggregate_bump_other [OF assms(1) False] show ?thesis
      by (auto simp: wp_inv_def le_Suc_eq)
  qed
qed (use assms(2) in \<open>auto simp: wp_inv_def unseen_def\<close>)

lemma wp_inv_run:
  "finite scopes \<Longrightarrow> wp_run hash scopes since w es w' \<Longrightarrow> wp_inv hash scopes since w \<Longrightarrow> wp_inv hash scopes since w'"
proof (induction es arbitrary: w)
  case (Cons e es)
  from Cons.prems(2) obtain w1 where "wp_step hash scopes since w e w1" "wp_run hash scopes since w1 es w'" by auto
  with Cons.IH [OF Cons.prems(1)] wp_inv_step [OF Cons.prems(1,3)] show ?case by blast
qed simp

lemma wp_run_append:
  "wp_run hash scopes since a es1 b \<Longrightarrow> wp_run hash scopes since b es2 c \<Longrightarrow>
   wp_run hash scopes since a (es1 @ es2) c"
  by (induction es1 arbitrary: a) auto

lemma marks_all:
  "wp_phase w = Marking ss \<Longrightarrow> \<exists>w'. wp_run hash scopes since w (replicate (length ss) MarkSeen) w' \<and>
     wp_phase w' = Marking [] \<and> wp_versions w' = wp_versions w"
proof (induction ss arbitrary: w)
  case (Cons s ss)
  let ?w = "w\<lparr>wp_seen := (wp_seen w)(s := wp_version w s), wp_phase := Marking ss\<rparr>"
  have "wp_step hash scopes since w MarkSeen ?w" using Cons.prems by (rule wp_step.mark)
  moreover obtain w' where "wp_run hash scopes since ?w (replicate (length ss) MarkSeen) w'"
      "wp_phase w' = Marking []" "wp_versions w' = wp_versions ?w"
    using Cons.IH [of ?w] by auto
  ultimately show ?case by auto
qed simp

text \<open>C24 (no_lost_wakeup).
  However membership bumps interleave with a parked request's own steps, including between its
  marking of the receivers and its reading of the aggregate: whenever it sleeps while the
  aggregate has moved off the version its client holds, one of its receivers is ready, and the
  loop it then runs ends the wait as a herd wake.\<close>

theorem no_lost_wakeup:
  assumes "finite scopes" and "\<forall>s. seen s \<le> version s"
    and "wp_run hash scopes since (wp_start scopes v version seen) es w"
    and "wp_phase w = Waiting" and "aggregate hash (wp_versions w) scopes \<noteq> since"
  shows "(\<exists>s\<in>scopes. wp_seen w s \<noteq> wp_version w s) \<and>
    (\<exists>w'. wp_run hash scopes since w (Changed # replicate (card scopes) MarkSeen @ [CheckAggregate]) w' \<and>
       wp_phase w' = Woken Herd)"
proof -
  have "wp_inv hash scopes since (wp_start scopes v version seen)"
    using assms(2) by (simp add: wp_inv_def wp_start_def)
  then have "wp_inv hash scopes since w" by (rule wp_inv_run [OF assms(1,3)])
  then obtain s where s: "s \<in> scopes" "wp_seen w s \<noteq> wp_version w s"
    using assms(4,5) by (auto simp: wp_inv_def unseen_def)
  let ?w = "w\<lparr>wp_phase := Marking (sorted_list_of_set scopes)\<rparr>"
  have c: "wp_step hash scopes since w Changed ?w" by (rule wp_step.changed [OF assms(4) s])
  obtain w1 where m: "wp_run hash scopes since ?w (replicate (card scopes) MarkSeen) w1"
      "wp_phase w1 = Marking []" "wp_versions w1 = wp_versions w"
    using marks_all [of ?w "sorted_list_of_set scopes" hash scopes since] assms(1) by auto
  have h: "wp_step hash scopes since w1 CheckAggregate (w1\<lparr>wp_phase := Woken Herd\<rparr>)"
    by (rule wp_step.herd) (use m assms(5) in simp_all)
  then have "wp_run hash scopes since w1 [CheckAggregate] (w1\<lparr>wp_phase := Woken Herd\<rparr>)" by auto
  from wp_run.wp_more [OF c wp_run_append [OF m(1) this]]
  have "wp_run hash scopes since w (Changed # replicate (card scopes) MarkSeen @ [CheckAggregate]) (w1\<lparr>wp_phase := Woken Herd\<rparr>)" .
  moreover have "wp_phase (w1\<lparr>wp_phase := Woken Herd\<rparr>) = Woken Herd" by simp
  ultimately show ?thesis using s by blast
qed


lemma no_lost_wakeup_witness:
  "\<exists>w'. wp_run (\<lambda>l. if l = [(User 7, 0)] then 3 else 4) {User 7} 3
     (wp_start {User 7} no_versions (\<lambda>_. 0) (\<lambda>_. 0))
     ([MarkSeen, CheckAggregate, Bumped (User 7)] @ [Changed, MarkSeen, CheckAggregate]) w' \<and>
     wp_phase w' = Woken Herd"
proof -
  let ?h = "\<lambda>l :: (scope \<times> u64) list. if l = [(User 7, 0)] then 3 else 4 :: u64"
  let ?S = "{User 7}"
  let ?w0 = "wp_start ?S no_versions (\<lambda>_. 0) (\<lambda>_. 0)"
  let ?w1 = "?w0\<lparr>wp_seen := (wp_seen ?w0)(User 7 := wp_version ?w0 (User 7)), wp_phase := Marking []\<rparr>"
  let ?w2 = "?w1\<lparr>wp_phase := Waiting\<rparr>"
  let ?w3 = "?w2\<lparr>wp_versions := bump (User 7) (wp_versions ?w2),
      wp_version := (wp_version ?w2)(User 7 := wp_version ?w2 (User 7) + 1)\<rparr>"
  have s1: "wp_step ?h ?S 3 ?w0 MarkSeen ?w1" by (rule wp_step.mark) (simp add: wp_start_def)
  have s2: "wp_step ?h ?S 3 ?w1 CheckAggregate ?w2"
    by (rule wp_step.sleep)
      (simp_all add: wp_start_def aggregate_def ledger_def counter_of_def no_versions_def)
  have s3: "wp_step ?h ?S 3 ?w2 (Bumped (User 7)) ?w3" by (rule wp_step.bumped)
  have run: "wp_run ?h ?S 3 ?w0 [MarkSeen, CheckAggregate, Bumped (User 7)] ?w3"
    using s1 s2 s3 by auto
  have moved: "aggregate ?h (wp_versions ?w3) ?S \<noteq> 3"
    by (simp add: wp_start_def aggregate_def ledger_def bump_def counter_bump_all)
      (simp add: counter_of_def no_versions_def)
  have "\<exists>w'. wp_run ?h ?S 3 ?w3 (Changed # replicate (card ?S) MarkSeen @ [CheckAggregate]) w' \<and>
      wp_phase w' = Woken Herd"
    by (rule no_lost_wakeup [OF _ _ run _ moved, THEN conjunct2]) simp_all
  then obtain w' where w': "wp_run ?h ?S 3 ?w3 [Changed, MarkSeen, CheckAggregate] w'" "wp_phase w' = Woken Herd"
    by (auto simp del: wp_run_simps)
  show ?thesis by (intro exI conjI) (rule wp_run_append [OF run w'(1)], rule w'(2))
qed

end
