(* ===== verification/Roleless.thy ===== *)
theory Roleless
  imports Table
begin

section \<open>The memo of roleless users: \<open>crates/coordinator/src/roleless.rs\<close>\<close>

text \<open>
  Which users were recently walked and found to hold no network role. Instants are natural numbers
  of seconds; \<open>elapsed\<close> saturates at 0.
\<close>

definition ROLELESS_TTL :: nat where "ROLELESS_TTL = 600"
definition PRUNE_AT :: nat where "PRUNE_AT = 4096"

type_synonym roleless_memo = "(u64, nat) hmap"

definition memo_fresh :: "u64 \<Rightarrow> nat \<Rightarrow> roleless_memo \<Rightarrow> bool" where
  "memo_fresh u now m = (case tget m u of Some t \<Rightarrow> now - t < ROLELESS_TTL | None \<Rightarrow> False)"

definition memo_remember :: "u64 \<Rightarrow> nat \<Rightarrow> roleless_memo \<Rightarrow> roleless_memo" where
  "memo_remember u now m =
     tput u now (if PRUNE_AT \<le> length m then tkeep (\<lambda>_ t. now - t < ROLELESS_TTL) m else m)"

definition memo_forget :: "u64 \<Rightarrow> roleless_memo \<Rightarrow> roleless_memo" where
  "memo_forget u m = tdel u m"

text \<open>Pruning never changes an answer: it drops what is not fresh any more.\<close>

lemma memo_fresh_remember:
  "tok m \<Longrightarrow> t0 \<le> t \<Longrightarrow> memo_fresh v t (memo_remember u t0 m) \<longleftrightarrow>
     (if v = u then t - t0 < ROLELESS_TTL else memo_fresh v t m)"
  by (auto simp: memo_fresh_def memo_remember_def tget_tkeep split: option.splits)

lemma memo_fresh_forget: "tok m \<Longrightarrow> memo_fresh v t (memo_forget u m) \<longleftrightarrow> v \<noteq> u \<and> memo_fresh v t m"
  by (auto simp: memo_fresh_def memo_forget_def)

lemma memo_tok [simp]: "tok m \<Longrightarrow> tok (memo_remember u t m)" "tok m \<Longrightarrow> tok (memo_forget u m)"
  by (simp_all add: memo_remember_def memo_forget_def)

datatype memo_op = Remember u64 nat | Forget u64

fun memo_step :: "memo_op \<Rightarrow> roleless_memo \<Rightarrow> roleless_memo" where
  "memo_step (Remember u t) m = memo_remember u t m"
| "memo_step (Forget u) m = memo_forget u m"

definition memo_run :: "memo_op list \<Rightarrow> roleless_memo" where
  "memo_run ops = fold memo_step ops []"

text \<open>The last thing that happened to a user, as the time of the walk it remembers.\<close>

fun last_walk :: "u64 \<Rightarrow> memo_op list \<Rightarrow> nat option" where
  "last_walk u [] = None"
| "last_walk u (Remember v t # ops) = (case last_walk u ops of Some r \<Rightarrow> Some r
     | None \<Rightarrow> if v = u \<and> Forget u \<notin> set ops then Some t else None)"
| "last_walk u (Forget v # ops) = last_walk u ops"

fun op_at :: "memo_op \<Rightarrow> nat" where
  "op_at (Remember u t) = t"
| "op_at (Forget u) = 0"

lemma memo_fold:
  "tok m \<Longrightarrow> \<forall>op\<in>set ops. op_at op \<le> t \<Longrightarrow>
   tok (fold memo_step ops m) \<and>
   (memo_fresh u t (fold memo_step ops m) \<longleftrightarrow>
     (case last_walk u ops of Some r \<Rightarrow> t - r < ROLELESS_TTL
      | None \<Rightarrow> Forget u \<notin> set ops \<and> memo_fresh u t m))"
proof (induction ops arbitrary: m)
  case (Cons op ops)
  show ?case
  proof (cases op)
    case (Remember v t0)
    with Cons show ?thesis
      by (auto simp: memo_fresh_remember split: option.splits)
  next
    case (Forget v)
    with Cons show ?thesis by (auto simp: memo_fresh_forget split: option.splits)
  qed
qed simp

text \<open>
  However full the memo was and whatever it pruned, a user counts as roleless exactly while the
  last walk that found so is less than ten minutes old and no role change was reported since.\<close>

theorem roleless_memo_exact:
  assumes "\<forall>op\<in>set ops. op_at op \<le> t"
  shows "memo_fresh u t (memo_run ops) \<longleftrightarrow>
     (case last_walk u ops of Some r \<Rightarrow> t - r < ROLELESS_TTL | None \<Rightarrow> False)"
  using memo_fold [of "[]" ops t u] assms
  by (auto simp: memo_run_def memo_fresh_def [of u t "[]"] split: option.splits)

lemma roleless_memo_exact_witness:
  "memo_fresh 7 500 (memo_run [Remember 7 0, Remember 8 1, Forget 8])"
  using roleless_memo_exact [of "[Remember 7 0, Remember 8 1, Forget 8]" 500 7]
  by (simp add: ROLELESS_TTL_def)

end
