(* ===== verification/App.thy ===== *)
theory App
  imports Release NatTables Wake Roleless Signer Labels DeviceTable Enrollment
begin

section \<open>The state every handler shares: \<open>AppState\<close> of \<open>api/mod.rs\<close>\<close>

text \<open>
  One record for the shared state, one for what a handler takes from outside (cryptography,
  codecs, hashers, clock and randomness), and sequencing with early return over the state. Each
  component behind its own mutex is a field, so a handler is a sequence of the components'
  operations; the model runs one handler at a time, where the code may interleave other handlers
  at its \<open>await\<close> points. The concurrency that matters by itself is modelled where it is handled
  (Enrollment, Wake).
\<close>

record member_roles =
  mr_username :: string
  mr_role_ids :: "u64 list"

text \<open>The trait \<open>RoleSource\<close> of \<open>roles.rs\<close>: what Discord answers while one request is served.\<close>

record role_source =
  ro_guild_name :: "u64 \<Rightarrow> string option"
  ro_member :: "u64 \<Rightarrow> u64 \<Rightarrow> member_roles option"
  ro_role_name :: "u64 \<Rightarrow> u64 \<Rightarrow> string option"

record app =
  a_signing :: signing
  a_roles :: role_source
  a_presence :: presence
  a_versions :: versions
  a_roleless :: roleless_memo
  a_nat :: nat_tables
  a_wakers :: wakers
  a_park :: park_slots
  a_user_labels :: "(u64, string) hmap"
  a_dns_domain :: "string option"
  a_stun_port :: "u16 option"
  a_release :: "release_manifest option"
  a_release_signed :: "string option"
  a_enroll_secret :: key
  a_require_enroll_proof :: bool
  a_enroll_proven :: u64
  a_enroll_unproven :: u64

text \<open>What \<open>seed_rev\<close> serialises and hashes; \<open>DefaultHasher\<close> over the bytes is \<open>e_seed_hash\<close>.\<close>

type_synonym seed_content =
  "key \<times> ipv4 \<times> bool \<times> string \<times> string \<times> sockaddr option \<times> sockaddr option \<times> shared_network list \<times>
   relay_info option \<times> ice_params option"

record env =
  e_crypto :: crypto
  e_att :: att_codecs
  e_signed :: "signed codec"
  e_manifest :: "release_manifest codec"
  e_siphash :: "u8 list \<Rightarrow> u64"
  e_ledger_hash :: "(scope \<times> u64) list \<Rightarrow> u64"
  e_seed_hash :: "seed_content \<Rightarrow> u64"
  e_now :: u64
  e_clock :: u64
  e_version :: string
  e_instant :: nat
  e_fresh_seed :: "u64 \<Rightarrow> key"
  e_fresh_token :: string

abbreviation a_store :: "app \<Rightarrow> store" where
  "a_store st \<equiv> sn_store (a_signing st)"

subsection \<open>Sequencing\<close>

type_synonym 'a act = "app \<Rightarrow> (api_error + 'a) \<times> app"

definition retA :: "'a \<Rightarrow> 'a act" where
  "retA x st = (Inr x, st)"

definition failA :: "api_error \<Rightarrow> 'a act" where
  "failA e st = (Inl e, st)"

definition bindA :: "'a act \<Rightarrow> ('a \<Rightarrow> 'b act) \<Rightarrow> 'b act" where
  "bindA m f st = (case m st of (Inl e, st') \<Rightarrow> (Inl e, st') | (Inr a, st') \<Rightarrow> f a st')"

definition liftA :: "api_error + 'a \<Rightarrow> 'a act" where
  "liftA r st = (r, st)"

definition set_store :: "store \<Rightarrow> app \<Rightarrow> app" where
  "set_store s st = st\<lparr>a_signing := (a_signing st)\<lparr>sn_store := s\<rparr>\<rparr>"

text \<open>A store call, its failure mapped by \<open>internal\<close> unless said otherwise.\<close>

definition dbA :: "(store_error \<Rightarrow> api_error) \<Rightarrow> 'a db \<Rightarrow> 'a act" where
  "dbA err m st =
     (case m (a_store st) of
        (Inl e, s) \<Rightarrow> (Inl (err e), set_store s st)
      | (Inr a, s) \<Rightarrow> (Inr a, set_store s st))"

fun mapA :: "('a \<Rightarrow> 'b act) \<Rightarrow> 'a list \<Rightarrow> 'b list act" where
  "mapA f [] = retA []"
| "mapA f (x # xs) = bindA (f x) (\<lambda>y. bindA (mapA f xs) (\<lambda>ys. retA (y # ys)))"

lemma bindA_simps [simp]:
  "bindA (retA x) f = f x" "bindA (failA e) f = failA e"
  by (simp_all add: fun_eq_iff bindA_def retA_def failA_def)

lemma retA_eq [simp]: "retA x st = (r, st') \<longleftrightarrow> r = Inr x \<and> st' = st"
  by (auto simp: retA_def)

lemma failA_eq [simp]: "failA e st = (r, st') \<longleftrightarrow> r = Inl e \<and> st' = st"
  by (auto simp: failA_def)

lemma liftA_eq [simp]: "liftA x st = (r, st') \<longleftrightarrow> r = x \<and> st' = st"
  by (auto simp: liftA_def)

lemma bindA_InrE:
  assumes "bindA m f st = (Inr b, st')"
  obtains a st1 where "m st = (Inr a, st1)" "f a st1 = (Inr b, st')"
  using assms by (auto simp: bindA_def split: prod.splits sum.splits)

lemma bindA_Inr: "bindA m f st = (Inr b, st') \<longleftrightarrow> (\<exists>a st1. m st = (Inr a, st1) \<and> f a st1 = (Inr b, st'))"
  by (auto simp: bindA_def split: prod.splits sum.splits)

text \<open>Invariants through sequencing: what both parts keep, the whole keeps.\<close>

lemma bindA_inv:
  assumes "\<And>r st'. m st = (r, st') \<Longrightarrow> P st'" and "\<And>a st1 r st'. P st1 \<Longrightarrow> f a st1 = (r, st') \<Longrightarrow> P st'"
    and "bindA m f st = (r, st')"
  shows "P st'"
  using assms(3) by (auto simp: bindA_def split: prod.splits sum.splits intro: assms(1,2))

lemma dbA_eq:
  "dbA err m st = (r, st') \<longleftrightarrow> (\<exists>x s. m (a_store st) = (x, s) \<and> st' = set_store s st \<and>
     r = (case x of Inl e \<Rightarrow> Inl (err e) | Inr a \<Rightarrow> Inr a))"
  by (auto simp: dbA_def split: prod.splits sum.splits)

lemma dbA_Inr: "dbA err m st = (Inr a, st') \<longleftrightarrow> (\<exists>s. m (a_store st) = (Inr a, s) \<and> st' = set_store s st)"
  by (auto simp: dbA_def split: prod.splits sum.splits)

lemma set_store_simps [simp]:
  "a_store (set_store s st) = s" "a_roles (set_store s st) = a_roles st"
  "a_presence (set_store s st) = a_presence st" "a_versions (set_store s st) = a_versions st"
  "a_roleless (set_store s st) = a_roleless st" "a_nat (set_store s st) = a_nat st"
  "a_wakers (set_store s st) = a_wakers st" "a_user_labels (set_store s st) = a_user_labels st"
  "a_enroll_secret (set_store s st) = a_enroll_secret st"
  "a_require_enroll_proof (set_store s st) = a_require_enroll_proof st"
  "set_store (a_store st) st = st" "set_store s (set_store s' st) = set_store s st"
  by (simp_all add: set_store_def)

subsection \<open>The memo of labels: \<open>AppState::user_label\<close>\<close>

definition app_user_label :: "u64 \<Rightarrow> string \<Rightarrow> string act" where
  "app_user_label u seed st =
     (case tget (a_user_labels st) u of
        Some label \<Rightarrow> (Inr label, st)
      | None \<Rightarrow>
          bindA (dbA internal (user_label u seed)) (\<lambda>label st.
            (Inr label, st\<lparr>a_user_labels := tput u label (a_user_labels st)\<rparr>)) st)"

text \<open>The memo never disagrees with the table, so it needs no invalidation.\<close>

definition memo_ok :: "app \<Rightarrow> bool" where
  "memo_ok st \<longleftrightarrow> (\<forall>u l. tget (a_user_labels st) u = Some l \<longrightarrow> tget (user_labels (a_store st)) u = Some l)"

lemma app_user_label_eq:
  assumes "memo_ok st"
  shows "fst (app_user_label u seed st) = orInternal (fst (user_label u seed (a_store st))) \<and>
    a_store (snd (app_user_label u seed st)) = snd (user_label u seed (a_store st)) \<and>
    memo_ok (snd (app_user_label u seed st))"
proof (cases "tget (a_user_labels st) u")
  case None
  obtain x s where run: "user_label u seed (a_store st) = (x, s)" by fastforce
  have keep: "tget (user_labels s) v = Some l" if "tget (a_user_labels st) v = Some l" for v l
    using user_label_keeps [of "a_store st" v l u seed] assms that run by (simp add: memo_ok_def)
  show ?thesis
  proof (cases x)
    case (Inl e)
    with None run keep show ?thesis by (simp add: app_user_label_def bindA_def dbA_def memo_ok_def)
  next
    case (Inr l)
    then have "tget (user_labels s) u = Some l" using user_label_stored [of u seed "a_store st" l s] run by simp
    with Inr None run keep show ?thesis
      by (simp add: app_user_label_def bindA_def dbA_def memo_ok_def set_store_def)
  qed
next
  case (Some l)
  then have "tget (user_labels (a_store st)) u = Some l" using assms by (simp add: memo_ok_def)
  with Some assms show ?thesis by (simp add: app_user_label_def user_label_eq)
qed

subsection \<open>A small deployment for the witnesses\<close>

definition demo_env :: env where
  "demo_env = \<lparr>e_crypto = demo_crypto, e_att = demo_codecs, e_signed = demo_signed_codec,
     e_manifest = \<lparr>enc = (\<lambda>m. Some []), dec_of = (\<lambda>b. None)\<rparr>, e_siphash = (\<lambda>b. 0),
     e_ledger_hash = (\<lambda>l. of_nat (length l)), e_seed_hash = (\<lambda>x. 0), e_now = 100, e_clock = 100, e_version = ''1.0.0'', e_instant = 0,
     e_fresh_seed = (\<lambda>g. replicate 32 9), e_fresh_token = ''new-token''\<rparr>"

definition demo_roles :: role_source where
  "demo_roles = \<lparr>ro_guild_name = (\<lambda>g. Some ''home''),
     ro_member = (\<lambda>g u. if g = 1 \<and> u = 7 then Some \<lparr>mr_username = ''alice'', mr_role_ids = [2]\<rparr> else None),
     ro_role_name = (\<lambda>g r. None)\<rparr>"

definition demo_app :: "store \<Rightarrow> app" where
  "demo_app s = \<lparr>a_signing = new_signing demo_net 1800 s, a_roles = demo_roles, a_presence = no_presence,
     a_versions = no_versions, a_roleless = [], a_nat = no_nat, a_wakers = no_wakers, a_park = new_park_slots 100, a_user_labels = [],
     a_dns_domain = None, a_stun_port = None, a_release = None, a_release_signed = None,
     a_enroll_secret = replicate 32 5, a_require_enroll_proof = True, a_enroll_proven = 0,
     a_enroll_unproven = 0\<rparr>"

definition demo_row :: "u8 \<Rightarrow> u64 \<Rightarrow> string \<Rightarrow> string \<Rightarrow> dev_row" where
  "demo_row b u name token = \<lparr>d_pubkey = replicate 32 b, d_idx = uint b, d_user = u, d_name = name,
     d_token = Some token, d_seen = None, d_personal = False\<rparr>"

lemma demo_app_store [simp]: "a_store (demo_app s) = s"
  by (simp add: demo_app_def new_signing_def)

end
