(* ===== verification/DeviceOps.thy ===== *)
theory DeviceOps
  imports App DeviceLife
begin

section \<open>\<open>POST /devices/manage\<close>: \<open>crates/coordinator/src/api/devices.rs\<close>\<close>

text \<open>
  The message for the user is left out; the reply is the list of the owner's devices.
\<close>

datatype manage_op = ListDevices | Rename string | SetPrimary string | Remove string

record manage_req =
  mg_token :: string
  mg_op :: manage_op

record device_info =
  di_device_name :: string
  di_is_primary :: bool
  di_is_self :: bool

definition find_device :: "u64 \<Rightarrow> string \<Rightarrow> key act" where
  "find_device u name st =
     bindA (liftA (orInternal (user_devices (a_store st) u))) (\<lambda>devs.
       case match_device_by_name devs (sanitize_label name) of
         One pk \<Rightarrow> retA pk
       | NoMatch \<Rightarrow> failA (ApiError NOT_FOUND)
       | Many \<Rightarrow> failA (ApiError CONFLICT)) st"

text \<open>
  Evicting a device from every network it is present in, collecting the changed scopes; the loop is
  also that of \<open>retire_superseded\<close>.
\<close>

fun evict_loop :: "key \<Rightarrow> (u64 \<times> u64) list \<Rightarrow> presence \<Rightarrow> scope list \<Rightarrow> presence \<times> scope list" where
  "evict_loop pk [] p changed = (p, changed)"
| "evict_loop pk ((g, r) # nets) p changed =
     (let (did, p') = evict g r pk p in evict_loop pk nets p' (if did then Guild g # changed else changed))"

definition evict_everywhere :: "u64 \<Rightarrow> key \<Rightarrow> presence \<Rightarrow> presence \<times> scope list" where
  "evict_everywhere u pk p =
     (let (p1, changed) = evict_loop pk (networks_of pk p) p [];
          (did, p2) = evict_self u pk p1
      in (p2, if did then User u # changed else changed))"

text \<open>\<open>BTreeSet<Scope>\<close>: each scope once.\<close>

definition bump_changed :: "scope list \<Rightarrow> app \<Rightarrow> app" where
  "bump_changed changed st = st\<lparr>a_versions := bump_all (sorted_list_of_set (set changed)) (a_versions st)\<rparr>"

definition manage_step :: "u64 \<Rightarrow> key \<Rightarrow> manage_op \<Rightarrow> unit act" where
  "manage_step u self op =
     (case op of
        ListDevices \<Rightarrow> retA ()
      | Rename new_name \<Rightarrow>
          bindA (dbA internal (rename_device u self (sanitize_label new_name))) (\<lambda>_. retA ())
      | SetPrimary name \<Rightarrow>
          bindA (find_device u name) (\<lambda>pk st. (Inr (), set_store (set_primary u pk (a_store st)) st))
      | Remove name \<Rightarrow>
          bindA (find_device u name) (\<lambda>pk.
            bindA (dbA internal (remove_device u pk)) (\<lambda>_ st.
              let (p, changed) = evict_everywhere u pk (a_presence st)
              in (Inr (), bump_changed changed (st\<lparr>a_presence := p\<rparr>)))))"

definition device_list :: "u64 \<Rightarrow> key \<Rightarrow> app \<Rightarrow> api_error + device_info list" where
  "device_list u self st =
     bindR (orInternal (primary_pubkey (a_store st) u)) (\<lambda>primary.
     bindR (orInternal (user_devices (a_store st) u)) (\<lambda>devs.
       Inr (map (\<lambda>(pk, name). \<lparr>di_device_name = name, di_is_primary = (primary = Some pk),
                                di_is_self = (pk = self)\<rparr>) devs)))"

definition manage :: "manage_req \<Rightarrow> device_info list act" where
  "manage req st =
     bindA (liftA (orInternal (device_by_token (a_store st) (mg_token req)))) (\<lambda>caller.
       case caller of
         None \<Rightarrow> failA (ApiError UNAUTHORIZED)
       | Some (u, self) \<Rightarrow>
           bindA (manage_step u self (mg_op req)) (\<lambda>_ st. (device_list u self st, st))) st"

subsection \<open>Evicting a device everywhere\<close>

lemma evict_loop_spec:
  assumes "tok (pr_map p)" and "evict_loop pk nets p changed = (p', changed')"
  shows "tok (pr_map p') \<and> pr_self p' = pr_self p \<and>
    (\<forall>g r d. tget (pr_map p') (g, r, d) =
       (if d = pk \<and> (g, r) \<in> set nets then None else tget (pr_map p) (g, r, d))) \<and>
    (\<forall>s. s \<in> set changed' \<longleftrightarrow> s \<in> set changed \<or>
       (\<exists>g r. s = Guild g \<and> (g, r) \<in> set nets \<and> tget (pr_map p) (g, r, pk) \<noteq> None))"
  using assms
proof (induction pk nets p changed rule: evict_loop.induct)
  case (2 pk g r nets p changed)
  obtain did p1 where ev: "evict g r pk p = (did, p1)" by fastforce
  then have p1: "did \<longleftrightarrow> tget (pr_map p) (g, r, pk) \<noteq> None" "p1 = p\<lparr>pr_map := tdel (g, r, pk) (pr_map p)\<rparr>"
    by (simp_all add: evict_def)
  have run: "evict_loop pk nets p1 (if did then Guild g # changed else changed) = (p', changed')"
    using 2(3) ev by (simp add: Let_def)
  have tk: "tok (pr_map p1)" using 2(2) by (simp add: p1)
  have get: "tget (pr_map p1) k = (if k = (g, r, pk) then None else tget (pr_map p) k)" for k
    using 2(2) by (simp add: p1)
  have IH: "tok (pr_map p')" "pr_self p' = pr_self p1"
    "\<And>g' r' d. tget (pr_map p') (g', r', d) =
       (if d = pk \<and> (g', r') \<in> set nets then None else tget (pr_map p1) (g', r', d))"
    "\<And>s. s \<in> set changed' \<longleftrightarrow> s \<in> set (if did then Guild g # changed else changed) \<or>
       (\<exists>g' r'. s = Guild g' \<and> (g', r') \<in> set nets \<and> tget (pr_map p1) (g', r', pk) \<noteq> None)"
    using 2(1) [OF ev [symmetric] refl tk run] by blast+
  have "s \<in> set changed' \<longleftrightarrow> s \<in> set changed \<or>
      (\<exists>g' r'. s = Guild g' \<and> (g', r') \<in> set ((g, r) # nets) \<and> tget (pr_map p) (g', r', pk) \<noteq> None)" for s
    unfolding IH(4) get using p1(1) by (cases did; auto; metis option.distinct(1))
  moreover have "pr_self p' = pr_self p" using IH(2) p1 by simp
  ultimately show ?case using IH(1,3) get by auto
qed simp

lemma networks_of_set: "(g, r) \<in> set (networks_of pk p) \<longleftrightarrow> tget (pr_map p) (g, r, pk) \<noteq> None"
proof -
  have "(g, r) \<in> set (networks_of pk p) \<longleftrightarrow> (g, r, pk) \<in> set (tkeys (pr_map p))"
    by (auto simp: networks_of_def image_iff)
  then show ?thesis by (simp add: set_tkeys)
qed

lemma evict_everywhere_spec:
  assumes "tok (pr_map p)" and "tok (pr_self p)" and "evict_everywhere u pk p = (p', changed)"
  shows "tok (pr_map p') \<and> tok (pr_self p') \<and>
    (\<forall>g r d. tget (pr_map p') (g, r, d) = (if d = pk then None else tget (pr_map p) (g, r, d))) \<and>
    (\<forall>v d. tget (pr_self p') (v, d) = (if v = u \<and> d = pk then None else tget (pr_self p) (v, d))) \<and>
    (\<forall>s. s \<in> set changed \<longleftrightarrow>
       (case s of Guild g \<Rightarrow> \<exists>r. tget (pr_map p) (g, r, pk) \<noteq> None
        | User v \<Rightarrow> v = u \<and> tget (pr_self p) (u, pk) \<noteq> None))"
proof -
  obtain p1 ch1 where loop: "evict_loop pk (networks_of pk p) p [] = (p1, ch1)" by fastforce
  note l = evict_loop_spec [OF assms(1) loop]
  have p': "p' = p1\<lparr>pr_self := tdel (u, pk) (pr_self p1)\<rparr>"
    "changed = (if tget (pr_self p1) (u, pk) \<noteq> None then User u # ch1 else ch1)"
    using assms(3) by (simp_all add: evict_everywhere_def loop evict_self_def Let_def)
  have "tget (pr_map p1) (g, r, d) = (if d = pk then None else tget (pr_map p) (g, r, d))" for g r d
    using l networks_of_set [of g r pk p] by auto
  moreover have "s \<in> set ch1 \<longleftrightarrow> (\<exists>g r. s = Guild g \<and> tget (pr_map p) (g, r, pk) \<noteq> None)" for s
    using l networks_of_set [of _ _ pk p] by auto
  ultimately show ?thesis using l assms(2) by (auto simp: p' split: scope.split)
qed

subsection \<open>Whose devices a request touches\<close>

lemma device_by_token_row:
  assumes "dev_inv s" and "device_by_token s t = Inr (Some (u, pk))"
  shows "\<exists>r. find_device_row s pk = Some r \<and> d_user r = u \<and> d_token r = Some t"
proof -
  obtain r where r: "List.find (\<lambda>r. d_token r = Some t) (devices s) = Some r" "u = d_user r" "pk = d_pubkey r"
    using assms(2) by (auto simp: device_by_token_def bindR_eq_Inr pubkey_from_blob_def split: option.splits if_splits)
  then have "r \<in> set (devices s)" "d_token r = Some t" by (auto simp: find_Some_iff)
  moreover have "find_device_row s (d_pubkey r) = Some r"
    by (rule find_device_row_unique) (use assms(1) \<open>r \<in> set (devices s)\<close> in \<open>simp_all add: dev_inv_def\<close>)
  ultimately show ?thesis using r by auto
qed

lemma device_list_store: "a_store st = a_store st' \<Longrightarrow> device_list u pk st = device_list u pk st'"
  by (simp add: device_list_def)

lemma find_device_run:
  "find_device u name st = (r, st') \<Longrightarrow> st' = st \<and>
   (\<forall>pk. r = Inr pk \<longrightarrow> (\<exists>devs. user_devices (a_store st) u = Inr devs \<and>
      match_device_by_name devs (sanitize_label name) = One pk))"
  by (auto simp: find_device_def bindA_def liftA_def split: sum.splits device_match.splits)

text \<open>Everything an operation of one owner may do to the tables of another.\<close>

definition same_for_others :: "u64 \<Rightarrow> store \<Rightarrow> store \<Rightarrow> bool" where
  "same_for_others u s s' \<longleftrightarrow>
     (\<forall>r. d_user r \<noteq> u \<longrightarrow> (r \<in> set (devices s') \<longleftrightarrow> r \<in> set (devices s))) \<and>
     (\<forall>v. v \<noteq> u \<longrightarrow> tget (primary_device s') v = tget (primary_device s) v)"

lemma same_for_others_refl [simp]: "same_for_others u s s"
  by (simp add: same_for_others_def)

lemma rename_others:
  assumes "device_owner s pk = Some u" and "dev_inv s" and "rename_device u pk name s = (r, s')"
  shows "same_for_others u s s'"
proof (cases "unique_device_name s u name (Some pk)")
  case (Some nm)
  have own: "d_user x = u" if "x \<in> set (devices s)" "d_pubkey x = pk" for x
    using assms(1,2) that find_device_row_unique [of s x] by (auto simp: device_owner_def dev_inv_def)
  have "devices s' = map (\<lambda>x. if d_pubkey x = pk then x\<lparr>d_name := nm\<rparr> else x) (devices s)"
    "primary_device s' = primary_device s"
    using assms(3) Some by (auto simp: rename_device_def update_device_def)
  then show ?thesis using own by (auto simp: same_for_others_def image_iff)
qed (use assms(3) in \<open>auto simp: rename_device_def\<close>)

lemma remove_others:
  assumes "dev_inv s" and "primary_inv s" and "remove_device u pk s = (r, s')"
  shows "same_for_others u s s'"
proof -
  have "s' = snd (remove_device u pk s)" using assms(3) by simp
  then show ?thesis using remove_device_devices [OF assms] assms(2)
    by (auto simp: same_for_others_def remove_device_result [OF assms(1,2)] set_primary_def primary_inv_def
        split: list.splits if_splits)
qed

lemma matched_owner:
  assumes "tables_ok net s" and "user_devices s u = Inr devs" and "match_device_by_name devs n = One pk"
  shows "device_owner s pk = Some u"
proof -
  have d: "dev_inv s" using assms(1) by (simp add: tables_ok_def)
  have "\<exists>m. (pk, m) \<in> set devs"
  proof -
    have "\<exists>m rest. filter (\<lambda>(p, m). m = n) devs = (pk, m) # rest"
      using assms(3) by (auto simp: match_device_by_name_def split: list.splits prod.splits)
    then obtain m rest where "filter (\<lambda>(p, m). m = n) devs = (pk, m) # rest" by blast
    then have "(pk, m) \<in> set (filter (\<lambda>(p, m). m = n) devs)" by simp
    then show ?thesis by auto
  qed
  then obtain r where "r \<in> set (rows_of s u)" "d_pubkey r = pk"
    using assms(2) by (auto simp: user_devices_ok [OF d])
  then have "r \<in> set (devices s)" "d_user r = u" "d_pubkey r = pk" by (auto simp: rows_of_def)
  then show ?thesis using d find_device_row_unique [of s r] by (auto simp: device_owner_def dev_inv_def)
qed

text \<open>C19 (manage_confined).
  A request whose token is no device's is refused and changes nothing. Any other acts for the
  owner of the device its token belongs to: whatever it asks for and however it ends, the tables stay
  well-formed, no row and no primary pointer of another account changes, and no row appears.\<close>

theorem manage_confined:
  assumes "tables_ok net (a_store st)" and "manage req st = (res, st')"
  shows "tables_ok net (a_store st') \<and>
    (case device_by_token (a_store st) (mg_token req) of
       Inr (Some (u, self)) \<Rightarrow> device_owner (a_store st) self = Some u \<and>
         same_for_others u (a_store st) (a_store st') \<and>
         d_pubkey ` set (devices (a_store st')) \<subseteq> d_pubkey ` set (devices (a_store st))
     | _ \<Rightarrow> st' = st \<and> (\<exists>s. res = Inl (ApiError s)))"
proof (cases "device_by_token (a_store st) (mg_token req)")
  case (Inl e)
  with assms show ?thesis by (auto simp: manage_def bindA_def liftA_def internal_def)
next
  case tok: (Inr caller)
  show ?thesis
  proof (cases caller)
    case None
    with tok assms show ?thesis by (auto simp: manage_def bindA_def liftA_def)
  next
    case (Some p)
    obtain u self where p: "p = (u, self)" by (cases p)
    let ?s = "a_store st"
    have d: "dev_inv ?s" and pr: "primary_inv ?s" using assms(1) by (simp_all add: tables_ok_def)
    have own: "device_owner ?s self = Some u"
      using device_by_token_row [OF d, of "mg_token req" u self] tok Some p by (auto simp: device_owner_def)
    obtain r1 st1 where run: "manage_step u self (mg_op req) st = (r1, st1)" by fastforce
    then have st': "a_store st' = a_store st1"
      using assms(2) tok Some p by (auto simp: manage_def bindA_def liftA_def split: sum.splits)
    have "tables_ok net (a_store st1) \<and> same_for_others u ?s (a_store st1) \<and>
        d_pubkey ` set (devices (a_store st1)) \<subseteq> d_pubkey ` set (devices ?s)"
    proof (cases "mg_op req")
      case ListDevices
      with run assms(1) show ?thesis by (simp add: manage_step_def)
    next
      case (Rename name)
      obtain x s1 where rn: "rename_device u self (sanitize_label name) ?s = (x, s1)" by fastforce
      with run Rename have s1: "a_store st1 = s1"
        by (auto simp: manage_step_def bindA_def dbA_def split: sum.splits)
      have "tables_ok net s1"
        using rename_device_inv [OF rn d own] assms(1) by (simp add: tables_ok_def)
      moreover have "d_pubkey ` set (devices s1) \<subseteq> d_pubkey ` set (devices ?s)"
        using rn by (auto simp: rename_device_def update_device_def split: option.splits if_splits)
      ultimately show ?thesis using rename_others [OF own d rn] s1 by simp
    next
      case (SetPrimary name)
      obtain x st2 where f: "find_device u name st = (x, st2)" by fastforce
      note fr = find_device_run [OF f]
      show ?thesis
      proof (cases x)
        case (Inl e)
        with run SetPrimary f fr assms(1) show ?thesis by (auto simp: manage_step_def bindA_def)
      next
        case (Inr pk)
        then have st1: "a_store st1 = set_primary u pk ?s"
          using run SetPrimary f fr by (auto simp: manage_step_def bindA_def)
        obtain devs where "user_devices ?s u = Inr devs" "match_device_by_name devs (sanitize_label name) = One pk"
          using fr Inr by blast
        from set_primary_inv [OF matched_owner [OF assms(1) this] assms(1)]
        show ?thesis by (simp add: st1) (simp add: same_for_others_def set_primary_def)
      qed
    next
      case (Remove name)
      obtain x st2 where f: "find_device u name st = (x, st2)" by fastforce
      note fr = find_device_run [OF f]
      show ?thesis
      proof (cases x)
        case (Inl e)
        with run Remove f fr assms(1) show ?thesis by (auto simp: manage_step_def bindA_def)
      next
        case (Inr pk)
        obtain y s1 where rm: "remove_device u pk ?s = (y, s1)" by fastforce
        have st1: "a_store st1 = s1"
          using run Remove f fr Inr rm
          by (auto simp: manage_step_def bindA_def dbA_def bump_changed_def set_store_def Let_def
              split: sum.splits prod.splits)
        show ?thesis
          using remove_device_inv [OF d pr rm] remove_others [OF d pr rm] remove_device_devices [OF d pr rm] assms(1)
          by (auto simp: st1 tables_ok_def)
      qed
    qed
    then show ?thesis using tok Some p own st' by simp
  qed
qed

text \<open>
  An answered removal leaves no trace of the device it names: its row is gone, it is present in no
  network and not online for its owner, and every guild it was present in, and the owner if it
  was online for them, had its version moved by one so that whoever is parked there wakes; no
  other device's presence and no other scope's version changed.\<close>

theorem manage_remove_spec:
  assumes "tables_ok net (a_store st)" and "tok (pr_map (a_presence st))" and "tok (pr_self (a_presence st))"
    and "mg_op req = Remove name" and "manage req st = (Inr devs, st')"
  shows "\<exists>u self pk. device_by_token (a_store st) (mg_token req) = Inr (Some (u, self)) \<and>
    device_owner (a_store st) pk = Some u \<and> find_device_row (a_store st') pk = None \<and>
    (\<forall>g r d. tget (pr_map (a_presence st')) (g, r, d) =
       (if d = pk then None else tget (pr_map (a_presence st)) (g, r, d))) \<and>
    (\<forall>v d. tget (pr_self (a_presence st')) (v, d) =
       (if v = u \<and> d = pk then None else tget (pr_self (a_presence st)) (v, d))) \<and>
    (\<forall>s. counter_of (a_versions st') s =
       (if (case s of Guild g \<Rightarrow> \<exists>r. tget (pr_map (a_presence st)) (g, r, pk) \<noteq> None
            | User v \<Rightarrow> v = u \<and> tget (pr_self (a_presence st)) (u, pk) \<noteq> None)
        then counter_of (a_versions st) s + 1 else counter_of (a_versions st) s))"
proof -
  let ?s = "a_store st"
  have d: "dev_inv ?s" and pr: "primary_inv ?s" using assms(1) by (simp_all add: tables_ok_def)
  from assms(5) obtain u self where c: "device_by_token ?s (mg_token req) = Inr (Some (u, self))"
    by (auto simp: manage_def bindA_def liftA_def split: sum.splits option.splits)
  from assms(4,5) c obtain st1 where step: "manage_step u self (Remove name) st = (Inr (), st1)" "st' = st1"
    by (auto simp: manage_def bindA_Inr)
  then obtain pk st2 y st3 where f: "find_device u name st = (Inr pk, st2)"
      and rm: "dbA internal (remove_device u pk) st2 = (Inr y, st3)"
      and fin: "(let (p, changed) = evict_everywhere u pk (a_presence st3)
         in (Inr (), bump_changed changed (st3\<lparr>a_presence := p\<rparr>))) = (Inr () :: api_error + unit, st1)"
    by (auto simp: manage_step_def bindA_Inr)
  have st2: "st2 = st" using find_device_run [OF f] by simp
  obtain ds where "user_devices ?s u = Inr ds" "match_device_by_name ds (sanitize_label name) = One pk"
    using find_device_run [OF f] by blast
  from matched_owner [OF assms(1) this] have own: "device_owner ?s pk = Some u" .
  obtain s3 where s3: "remove_device u pk ?s = (Inr y, s3)" "st3 = set_store s3 st"
    using rm st2 by (auto simp: dbA_Inr)
  obtain p ch where ev: "evict_everywhere u pk (a_presence st) = (p, ch)" by fastforce
  have st1: "st1 = bump_changed ch (st3\<lparr>a_presence := p\<rparr>)" using fin ev s3(2) by simp
  have fields: "a_store st1 = s3" "a_presence st1 = p"
    "a_versions st1 = bump_all (sorted_list_of_set (set ch)) (a_versions st)"
    using s3(2) by (simp_all add: st1 bump_changed_def)
  note e = evict_everywhere_spec [OF assms(2,3) ev]
  have "find_device_row s3 pk = None"
    using remove_device_devices [OF d pr s3(1)] own d find_device_row_unique [of ?s]
    by (auto simp: find_device_row_None device_owner_def dev_inv_def)
  moreover have "counter_of (a_versions st1) s =
      (if s \<in> set ch then counter_of (a_versions st) s + 1 else counter_of (a_versions st) s)" for s
    by (simp add: fields bump_all_once bump_all_other)
  ultimately show ?thesis using c own e step(2) fields by (intro exI [of _ u] exI [of _ self] exI [of _ pk]) simp
qed

subsection \<open>Witnesses\<close>

definition demo_manage :: app where
  "demo_manage = demo_app (empty_store\<lparr>devices := [demo_row 1 7 ''nas'' ''s''], primary_device := [(7, replicate 32 1)]\<rparr>)"

lemma demo_net_idx: "u32_of 1 = Some 1 \<and> index_is_valid net30 1"
  by (simp add: u32_of_def index_is_valid_def net30_allocatable)

lemma demo_manage_ok: "tables_ok net30 (a_store demo_manage)"
  using demo_net_idx
  by (auto simp: demo_manage_def tables_ok_def dev_inv_def idx_inv_def primary_inv_def rows_of_def demo_row_def
      empty_store_def tok_def tget_def MAX_DEVICES_PER_USER_def split: if_splits)

lemma demo_manage_token:
  "device_by_token (a_store demo_manage) ''s'' = Inr (Some (7, replicate 32 1))"
  by (simp add: demo_manage_def demo_row_def device_by_token_def pubkey_from_blob_def empty_store_def)

lemma manage_confined_witness:
  "tables_ok net30 (a_store (snd (manage \<lparr>mg_token = ''s'', mg_op = Remove ''nas''\<rparr> demo_manage))) \<and>
   device_owner (a_store demo_manage) (replicate 32 1) = Some 7"
proof -
  obtain res st' where run: "manage \<lparr>mg_token = ''s'', mg_op = Remove ''nas''\<rparr> demo_manage = (res, st')" by fastforce
  from manage_confined [OF demo_manage_ok run] run show ?thesis by (simp add: demo_manage_token)
qed

lemma manage_remove_spec_witness:
  "find_device_row (a_store (snd (manage \<lparr>mg_token = ''s'', mg_op = Remove ''nas''\<rparr> demo_manage))) (replicate 32 1) = None"
proof -
  let ?req = "\<lparr>mg_token = ''s'', mg_op = Remove ''nas''\<rparr>"
  have inv: "dev_inv (a_store demo_manage)" "primary_inv (a_store demo_manage)"
    using demo_manage_ok by (simp_all add: tables_ok_def)
  have san: "sanitize_label ''nas'' = ''nas''" by code_simp
  have devs: "user_devices (a_store demo_manage) 7 = Inr [(replicate 32 1, ''nas'')]"
    unfolding user_devices_ok [OF inv(1)]
    by (simp add: demo_manage_def rows_of_def demo_row_def empty_store_def)
  have find: "find_device 7 ''nas'' demo_manage = (Inr (replicate 32 1), demo_manage)"
    by (simp add: find_device_def devs bindA_def liftA_def match_device_by_name_def san)
  obtain s' where rm: "remove_device 7 (replicate 32 1) (a_store demo_manage) = (Inr (), s')"
    unfolding remove_device_result [OF inv] by blast
  have inv': "dev_inv s'" "primary_inv s'" using remove_device_inv [OF inv rm] by blast+
  have len: "length (d_pubkey r) = 32" if "r \<in> set (devices s')" for r
    using inv'(1) that by (auto simp: dev_inv_def)
  have list: "\<exists>l. device_list 7 k st = Inr l" if "a_store st = s'" for st k
    using that user_devices_ok [OF inv'(1)] primary_pubkey_ok [OF len inv'(2)]
    by (simp add: device_list_def)
  have p: "a_presence demo_manage = no_presence" by (simp add: demo_manage_def demo_app_def)
  obtain devs st' where run: "manage ?req demo_manage = (Inr devs, st')"
  proof -
    have "\<exists>st1. manage_step 7 (replicate 32 1) (Remove ''nas'') demo_manage = (Inr (), st1) \<and> a_store st1 = s'"
      by (simp add: manage_step_def bindA_def find dbA_def rm bump_changed_def Let_def split: prod.split)
    then obtain st1 where "manage_step 7 (replicate 32 1) (Remove ''nas'') demo_manage = (Inr (), st1)" "a_store st1 = s'"
      by blast
    with list [of st1 "replicate 32 1"] that show thesis
      by (auto simp: manage_def demo_manage_token bindA_def liftA_def)
  qed
  have "\<exists>u self pk. device_by_token (a_store demo_manage) ''s'' = Inr (Some (u, self)) \<and>
      device_owner (a_store demo_manage) pk = Some u \<and> find_device_row (a_store st') pk = None"
    using manage_remove_spec [OF demo_manage_ok _ _ _ run, of "''nas''"] p by (auto simp: no_presence_def)
  then obtain pk where pk: "device_owner (a_store demo_manage) pk = Some 7" "find_device_row (a_store st') pk = None"
    by (auto simp: demo_manage_token)
  then have "pk = replicate 32 1"
    by (auto simp: demo_manage_def device_owner_def find_device_row_def demo_row_def empty_store_def split: if_splits)
  with pk run show ?thesis by simp
qed

end
