(* ===== verification/Auth.thy ===== *)
theory Auth
  imports App
begin

section \<open>Who is calling: \<open>crates/coordinator/src/api/auth.rs\<close>\<close>

datatype auth_outcome = Admit | Reject

definition decide_device_auth :: "string option \<Rightarrow> string option \<Rightarrow> auth_outcome" where
  "decide_device_auth stored presented =
     (case (stored, presented) of
        (Some s, Some p) \<Rightarrow> if ct_eq (bytes s) (bytes p) then Admit else Reject
      | _ \<Rightarrow> Reject)"

definition authenticate_enrolled :: "register_req \<Rightarrow> unit act" where
  "authenticate_enrolled req st =
     (case device_auth (a_store st) (rq_wg_pubkey req) of
        None \<Rightarrow> (Inr (), st)
      | Some stored \<Rightarrow>
          (case decide_device_auth stored (rq_device_token req) of
             Admit \<Rightarrow> (Inr (), st)
           | Reject \<Rightarrow> (Inl (ApiError UNAUTHORIZED), st)))"

datatype possession_outcome = Proven | Unproven | RejectInvalid | RejectMissing

fun decide_possession :: "bool option \<Rightarrow> bool \<Rightarrow> possession_outcome" where
  "decide_possession (Some True) require = Proven"
| "decide_possession (Some False) require = RejectInvalid"
| "decide_possession None True = RejectMissing"
| "decide_possession None False = Unproven"

definition verify_possession :: "env \<Rightarrow> register_req \<Rightarrow> unit act" where
  "verify_possession ev req st =
     (let valid = map_option (verify_enroll_proof (e_crypto ev) (a_enroll_secret st) (rq_wg_pubkey req))
            (rq_possession_proof req)
      in case decide_possession valid (a_require_enroll_proof st) of
           Proven \<Rightarrow> (Inr (), st\<lparr>a_enroll_proven := a_enroll_proven st + 1\<rparr>)
         | Unproven \<Rightarrow> (Inr (), st\<lparr>a_enroll_unproven := a_enroll_unproven st + 1\<rparr>)
         | RejectInvalid \<Rightarrow> (Inl (ApiError UNAUTHORIZED), st)
         | RejectMissing \<Rightarrow> (Inl (ApiError UNAUTHORIZED), st))"

definition resolve_user :: "env \<Rightarrow> register_req \<Rightarrow> (u64 \<times> bool) act" where
  "resolve_user ev req st =
     (case device_owner (a_store st) (rq_wg_pubkey req) of
        Some uid \<Rightarrow> bindA (authenticate_enrolled req) (\<lambda>_. retA (uid, True)) st
      | None \<Rightarrow>
          (case oauth_user (a_store st) (rq_wg_pubkey req) of
             Some uid \<Rightarrow> bindA (verify_possession ev req) (\<lambda>_. retA (uid, False)) st
           | None \<Rightarrow>
               (case rq_enrollment_key req of
                  None \<Rightarrow> (Inl (ApiError UNAUTHORIZED), st)
                | Some key \<Rightarrow>
                    bindA (verify_possession ev req) (\<lambda>_.
                      bindA (dbA (\<lambda>e. ApiError UNAUTHORIZED)
                          (consume_enrollment_key key (rq_wg_pubkey req) (e_now ev))) (\<lambda>uid.
                        retA (uid, False))) st)))"

subsection \<open>Lemmas\<close>

lemma bytes_inj [simp]: "bytes s = bytes p \<longleftrightarrow> s = p"
proof -
  have "inj (\<lambda>ch :: char. (of_nat (of_char ch) :: u8))"
  proof (rule injI)
    fix a b :: char
    assume eq: "(of_nat (of_char a) :: u8) = of_nat (of_char b)"
    have "(of_char a :: nat) < 256" "(of_char b :: nat) < 256" by (simp_all add: of_char_def)
    moreover from eq have "unat (of_nat (of_char a) :: u8) = unat (of_nat (of_char b) :: u8)" by simp
    ultimately have "(of_char a :: nat) = of_char b" by (simp add: unat_of_nat)
    then show "a = b" by simp
  qed
  then show ?thesis by (simp add: bytes_def inj_map_eq_map)
qed

lemma decide_device_auth_Admit:
  "decide_device_auth stored presented = Admit \<longleftrightarrow> stored \<noteq> None \<and> stored = presented"
  by (auto simp: decide_device_auth_def split: option.splits)

lemma verify_possession_Inr:
  "verify_possession ev req st = (Inr x, st') \<Longrightarrow>
   a_store st' = a_store st \<and>
   (case rq_possession_proof req of
      Some p \<Rightarrow> verify_enroll_proof (e_crypto ev) (a_enroll_secret st) (rq_wg_pubkey req) p
    | None \<Rightarrow> \<not> a_require_enroll_proof st)"
  by (cases "rq_possession_proof req"; cases "a_require_enroll_proof st")
    (auto simp: verify_possession_def Let_def split: possession_outcome.splits
      elim!: decide_possession.elims)

text \<open>What an admitted caller showed: the device's bearer token, or a proof of possession together
  with a login binding or an enrollment key that is claimed for this device.\<close>

definition showed_possession :: "env \<Rightarrow> app \<Rightarrow> register_req \<Rightarrow> bool" where
  "showed_possession ev st req \<longleftrightarrow>
     (case rq_possession_proof req of
        Some p \<Rightarrow> verify_enroll_proof (e_crypto ev) (a_enroll_secret st) (rq_wg_pubkey req) p
      | None \<Rightarrow> \<not> a_require_enroll_proof st)"

text \<open>C1 (resolve_user_sound).
  A request is only ever attributed to an account on evidence. For an enrolled key it is the row's
  owner, and the request carried exactly the bearer token stored with the row; a row without a
  token admits nobody. For any other key the caller showed possession of the private key (a
  proof that verifies, or none at all where the deployment does not require one), and the
  account is the one the key is bound to by login, or else the owner of a one-time key this
  request claimed. Only the last case writes to the database, and a refusal never does more
  than mark a key.\<close>

theorem resolve_user_sound:
  assumes "resolve_user ev req st = (Inr (uid, enrolled), st')"
  shows "(enrolled \<longleftrightarrow> device_owner (a_store st) (rq_wg_pubkey req) \<noteq> None) \<and>
    (if enrolled
     then device_owner (a_store st) (rq_wg_pubkey req) = Some uid \<and> rq_device_token req \<noteq> None \<and>
       device_auth (a_store st) (rq_wg_pubkey req) = Some (rq_device_token req) \<and> st' = st
     else showed_possession ev st req \<and>
       (case oauth_user (a_store st) (rq_wg_pubkey req) of
          Some u \<Rightarrow> u = uid \<and> a_store st' = a_store st
        | None \<Rightarrow> \<exists>key. rq_enrollment_key req = Some key \<and>
            consume_enrollment_key key (rq_wg_pubkey req) (e_now ev) (a_store st) = (Inr uid, a_store st')))"
proof (cases "device_owner (a_store st) (rq_wg_pubkey req)")
  case (Some u)
  then obtain tk where row: "device_auth (a_store st) (rq_wg_pubkey req) = Some tk"
    by (auto simp: device_owner_def device_auth_def)
  have "bindA (authenticate_enrolled req) (\<lambda>_. retA (u, True)) st = (Inr (uid, enrolled), st')"
    using assms Some by (simp add: resolve_user_def)
  then have "u = uid" "enrolled" "st' = st" "decide_device_auth tk (rq_device_token req) = Admit"
    by (auto simp: bindA_Inr authenticate_enrolled_def row split: auth_outcome.splits)
  with Some row show ?thesis by (auto simp: decide_device_auth_Admit)
next
  case None
  show ?thesis
  proof (cases "oauth_user (a_store st) (rq_wg_pubkey req)")
    case (Some u)
    with None assms have "bindA (verify_possession ev req) (\<lambda>_. retA (u, False)) st = (Inr (uid, enrolled), st')"
      by (simp add: resolve_user_def)
    then obtain x st1 where v: "verify_possession ev req st = (Inr x, st1)" "u = uid" "\<not> enrolled" "st' = st1"
      by (auto simp: bindA_Inr)
    with None Some verify_possession_Inr [OF v(1)] show ?thesis by (simp add: showed_possession_def)
  next
    case no: None
    with None assms obtain key where key: "rq_enrollment_key req = Some key"
      by (cases "rq_enrollment_key req") (auto simp: resolve_user_def)
    with None no assms have "bindA (verify_possession ev req) (\<lambda>_.
        bindA (dbA (\<lambda>e. ApiError UNAUTHORIZED) (consume_enrollment_key key (rq_wg_pubkey req) (e_now ev)))
          (\<lambda>uid. retA (uid, False))) st = (Inr (uid, enrolled), st')"
      by (simp add: resolve_user_def)
    then obtain x st1 s where v: "verify_possession ev req st = (Inr x, st1)" "\<not> enrolled"
        "consume_enrollment_key key (rq_wg_pubkey req) (e_now ev) (a_store st1) = (Inr uid, s)" "a_store st' = s"
      by (auto simp: bindA_Inr dbA_Inr)
    with None no key verify_possession_Inr [OF v(1)] show ?thesis by (simp add: showed_possession_def)
  qed
qed

lemma resolve_user_sound_witness:
  "fst (resolve_user demo_env ((demo_register (replicate 32 1))\<lparr>rq_device_token := Some ''s''\<rparr>)
     (demo_app (empty_store\<lparr>devices := [demo_row 1 7 ''nas'' ''s'']\<rparr>))) = Inr (7, True) \<and>
   device_auth (empty_store\<lparr>devices := [demo_row 1 7 ''nas'' ''s'']\<rparr>) (replicate 32 1) = Some (Some ''s'')"
proof -
  let ?req = "(demo_register (replicate 32 1))\<lparr>rq_device_token := Some ''s''\<rparr>"
  let ?st = "demo_app (empty_store\<lparr>devices := [demo_row 1 7 ''nas'' ''s'']\<rparr>)"
  have "resolve_user demo_env ?req ?st = (Inr (7, True), ?st)"
    by (simp add: resolve_user_def device_owner_def find_device_row_def demo_row_def demo_register_def bindA_def
        authenticate_enrolled_def device_auth_def decide_device_auth_def)
  with resolve_user_sound [OF this] show ?thesis by (simp add: demo_register_def)
qed

end
