(* ===== verification/Membership.thy ===== *)
theory Membership
  imports DeviceOps Auth
begin

section \<open>Who the caller is and where it belongs: \<open>api/snapshot.rs\<close>, phases 1 and 2\<close>

text \<open>
  The first half of \<open>build_snapshot\<close>: the device identity of the caller, the retirement of a key it
  superseded, the walk over the registered networks that decides where it is present, and its entry
  among its owner's own devices. The set \<open>changed\<close> of scopes is a list here, read as a set.
\<close>

subsection \<open>The caller's roles, looked up once per guild\<close>

type_synonym member_cache = "(u64, member_roles option) hmap"

definition cached_member :: "role_source \<Rightarrow> u64 \<Rightarrow> u64 \<Rightarrow> member_cache \<Rightarrow> member_roles option \<times> member_cache" where
  "cached_member roles u g cache =
     (case tget cache g of
        Some m \<Rightarrow> (m, cache)
      | None \<Rightarrow> (let m = ro_member roles g u in (m, tput g m cache)))"

definition role_among :: "u64 \<Rightarrow> member_roles option \<Rightarrow> bool" where
  "role_among r m = (case m of Some mr \<Rightarrow> r \<in> set (mr_role_ids mr) | None \<Rightarrow> False)"

fun holds_any_network_role :: "role_source \<Rightarrow> network list \<Rightarrow> u64 \<Rightarrow> member_cache \<Rightarrow> bool \<times> member_cache" where
  "holds_any_network_role roles [] u cache = (False, cache)"
| "holds_any_network_role roles (n # nets) u cache =
     (case cached_member roles u (n_guild_id n) cache of (m, cache') \<Rightarrow>
        if role_among (n_role_id n) m then (True, cache')
        else holds_any_network_role roles nets u cache')"

subsection \<open>Phase 1: the device\<close>

record device =
  dv_ip :: ipv4
  dv_name :: string
  dv_is_primary :: bool

definition wants_personal_scope :: "register_req \<Rightarrow> bool" where
  "wants_personal_scope req = rq_peer_own_devices req"

definition resolve_device ::
  "env \<Rightarrow> register_req \<Rightarrow> u64 \<Rightarrow> network list \<Rightarrow> member_cache \<Rightarrow> (device \<times> member_cache) act" where
  "resolve_device ev req u nets cache st =
     (case holds_any_network_role (a_roles st) nets u cache of (held, cache') \<Rightarrow>
        if \<not> held \<and> \<not> wants_personal_scope req
        then (Inr (\<lparr>dv_ip = 0, dv_name = [], dv_is_primary = False\<rparr>, cache'), st)
        else
          bindA (dbA internal (allocate_device (e_siphash ev) (gks_wg_net (sn_keys (a_signing st)))
              (rq_wg_pubkey req) u (sanitize_label (rq_device_name req)) (e_fresh_token ev)))
            (\<lambda>(ip, name) st1.
               let st2 = set_store (ensure_primary u (rq_wg_pubkey req) (a_store st1)) st1
               in bindA (liftA (orInternal (primary_pubkey (a_store st2) u))) (\<lambda>p.
                    retA (\<lparr>dv_ip = ip, dv_name = name, dv_is_primary = (p = Some (rq_wg_pubkey req))\<rparr>, cache')) st2) st)"

subsection \<open>Superseding a key\<close>

definition should_supersede :: "u64 \<Rightarrow> key \<Rightarrow> u64 \<Rightarrow> key \<Rightarrow> bool" where
  "should_supersede token_owner old_pubkey caller_user caller_pubkey \<longleftrightarrow>
     token_owner = caller_user \<and> old_pubkey \<noteq> caller_pubkey"

definition retire_superseded :: "register_req \<Rightarrow> u64 \<Rightarrow> scope list \<Rightarrow> scope list act" where
  "retire_superseded req u changed st =
     (case rq_supersede req of
        None \<Rightarrow> (Inr changed, st)
      | Some old_token \<Rightarrow>
          bindA (liftA (orInternal (device_by_token (a_store st) old_token))) (\<lambda>found.
            case found of
              None \<Rightarrow> retA changed
            | Some (owner, old_pubkey) \<Rightarrow>
                if \<not> should_supersede owner old_pubkey u (rq_wg_pubkey req) then retA changed
                else bindA (dbA internal (remove_device u old_pubkey)) (\<lambda>_ st.
                  case evict_everywhere owner old_pubkey (a_presence st) of (p, gone) \<Rightarrow>
                    (Inr (gone @ changed), st\<lparr>a_presence := p\<rparr>))) st)"

subsection \<open>Phase 2: the networks\<close>

record mship =
  ms_status :: "network_status list"
  ms_held :: "(u64 \<times> u64) list"
  ms_network_names :: "string list"
  ms_community :: "(u64, string) hmap"
  ms_username :: string
  ms_personal :: bool

definition ms_guilds :: "mship \<Rightarrow> u64 list" where
  "ms_guilds m =
     (if ms_personal m then [PERSONAL_SCOPE] else sorted_list_of_set (ns_guild_id ` set (ms_status m)))"

definition has_identity :: "mship \<Rightarrow> bool" where
  "has_identity m \<longleftrightarrow> ms_status m \<noteq> [] \<or> ms_personal m"

definition presence_of :: "register_req \<Rightarrow> u64 \<Rightarrow> device \<Rightarrow> string \<Rightarrow> member_presence" where
  "presence_of req u dev username =
     \<lparr>mp_pubkey = rq_wg_pubkey req, mp_ip = dv_ip dev, mp_user_id = u, mp_username = username,
      mp_device_name = dv_name dev, mp_is_primary = dv_is_primary dev, mp_endpoint = rq_endpoint req\<rparr>"

definition community_of :: "app \<Rightarrow> u64 \<Rightarrow> string" where
  "community_of st g =
     (case community_slug (a_store st) g of
        Some s \<Rightarrow> s
      | None \<Rightarrow> (case ro_guild_name (a_roles st) g of Some n \<Rightarrow> n | None \<Rightarrow> []))"

definition opted_out :: "register_req \<Rightarrow> u64 \<Rightarrow> u64 \<Rightarrow> bool" where
  "opted_out req g r \<longleftrightarrow> (g, r) \<in> (\<lambda>n. (nr_guild_id n, nr_role_id n)) ` set (rq_disabled_networks req)"

text \<open>The variables of the loop over the networks.\<close>

record walk =
  wl_cache :: member_cache
  wl_m :: mship
  wl_label_resolved :: bool
  wl_changed :: "scope list"

definition list_network :: "app \<Rightarrow> register_req \<Rightarrow> network \<Rightarrow> mship \<Rightarrow> mship" where
  "list_network st req net m =
     (let g = n_guild_id net; r = n_role_id net;
          label = (case tget (ms_community m) g of Some l \<Rightarrow> l | None \<Rightarrow> community_of st g);
          name = (case ro_role_name (a_roles st) g r of Some n \<Rightarrow> n | None \<Rightarrow> n_name net)
      in m\<lparr>ms_community := (if tget (ms_community m) g = None then tput g label (ms_community m) else ms_community m),
           ms_status := ms_status m @ [\<lparr>ns_guild_id = g, ns_role_id = r, ns_name = name,
             ns_guild_name = label, ns_enabled = (\<not> opted_out req g r)\<rparr>]\<rparr>)"

definition join_network ::
  "env \<Rightarrow> register_req \<Rightarrow> u64 \<Rightarrow> device \<Rightarrow> network \<Rightarrow> walk \<Rightarrow> walk act" where
  "join_network ev req u dev net w st =
     (let g = n_guild_id net; r = n_role_id net; m = wl_m w;
          name = (case ro_role_name (a_roles st) g r of Some n \<Rightarrow> n | None \<Rightarrow> n_name net);
          (did, p) = (if rq_paused req then (False, a_presence st)
             else record_presence g r (presence_of req u dev (ms_username m)) (rq_client_version req)
                    (e_now ev) (a_presence st))
      in (Inr (w\<lparr>wl_m := m\<lparr>ms_network_names := ms_network_names m @ [name], ms_held := ms_held m @ [(g, r)]\<rparr>,
                 wl_changed := (if did then Guild g # wl_changed w else wl_changed w)\<rparr>),
          st\<lparr>a_presence := p\<rparr>))"

definition visit_network ::
  "env \<Rightarrow> register_req \<Rightarrow> u64 \<Rightarrow> device \<Rightarrow> network \<Rightarrow> walk \<Rightarrow> walk act" where
  "visit_network ev req u dev net w st =
     (case cached_member (a_roles st) u (n_guild_id net) (wl_cache w) of (member, cache) \<Rightarrow>
        case member of
          None \<Rightarrow> (Inr (w\<lparr>wl_cache := cache\<rparr>), st)
        | Some mr \<Rightarrow>
            if n_role_id net \<notin> set (mr_role_ids mr) then (Inr (w\<lparr>wl_cache := cache\<rparr>), st)
            else
              bindA
                (let m = list_network st req net (wl_m w)
                 in if wl_label_resolved w then retA m
                    else bindA (app_user_label u (mr_username mr)) (\<lambda>l. retA (m\<lparr>ms_username := l\<rparr>)))
                (\<lambda>m. let w' = w\<lparr>wl_cache := cache, wl_m := m, wl_label_resolved := True\<rparr>
                     in if opted_out req (n_guild_id net) (n_role_id net) then retA w'
                        else join_network ev req u dev net w') st)"

fun walk_networks :: "env \<Rightarrow> register_req \<Rightarrow> u64 \<Rightarrow> device \<Rightarrow> network list \<Rightarrow> walk \<Rightarrow> walk act" where
  "walk_networks ev req u dev [] w = retA w"
| "walk_networks ev req u dev (n # nets) w =
     bindA (visit_network ev req u dev n w) (walk_networks ev req u dev nets)"

text \<open>Self-eviction: everywhere while paused, else from the networks no longer held.\<close>

definition stale_networks :: "register_req \<Rightarrow> mship \<Rightarrow> presence \<Rightarrow> (u64 \<times> u64) list" where
  "stale_networks req m p =
     filter (\<lambda>n. rq_paused req \<or> n \<notin> set (ms_held m)) (networks_of (rq_wg_pubkey req) p)"

definition empty_mship :: "u64 \<Rightarrow> mship" where
  "empty_mship u = \<lparr>ms_status = [], ms_held = [], ms_network_names = [], ms_community = [],
     ms_username = ''user-'' @ dec (unat u), ms_personal = False\<rparr>"

definition resolve_membership ::
  "env \<Rightarrow> register_req \<Rightarrow> u64 \<Rightarrow> network list \<Rightarrow> device \<Rightarrow> member_cache \<Rightarrow> scope list \<Rightarrow>
   (mship \<times> scope list) act" where
  "resolve_membership ev req u nets dev cache changed =
     bindA (walk_networks ev req u dev nets
        \<lparr>wl_cache = cache, wl_m = empty_mship u, wl_label_resolved = False, wl_changed = changed\<rparr>)
       (\<lambda>w st.
          case evict_loop (rq_wg_pubkey req) (stale_networks req (wl_m w) (a_presence st)) (a_presence st)
                 (wl_changed w) of (p, changed') \<Rightarrow>
            let st1 = st\<lparr>a_presence := p\<rparr>;
                m = (wl_m w)\<lparr>ms_personal := (ms_status (wl_m w) = [] \<and> wants_personal_scope req)\<rparr>
            in if \<not> ms_personal m then (Inr (m, changed'), st1)
               else (case user_handle (a_store st1) u of
                       None \<Rightarrow> (Inr (m, changed'), st1)
                     | Some h \<Rightarrow>
                         bindA (app_user_label u h) (\<lambda>l. retA (m\<lparr>ms_username := l\<rparr>, changed')) st1))"

subsection \<open>The owner's own devices\<close>

definition record_own_device ::
  "env \<Rightarrow> register_req \<Rightarrow> u64 \<Rightarrow> device \<Rightarrow> mship \<Rightarrow> scope list \<Rightarrow> app \<Rightarrow> scope list \<times> app" where
  "record_own_device ev req u dev m changed st =
     (let (did, p) =
        (if rq_peer_own_devices req \<and> \<not> rq_paused req \<and> has_identity m
         then record_self u (presence_of req u dev (ms_username m)) (rq_client_version req) (e_now ev) (a_presence st)
         else evict_self u (rq_wg_pubkey req) (a_presence st))
      in (if did then User u # changed else changed, st\<lparr>a_presence := p\<rparr>))"

subsection \<open>The cache answers what Discord answers\<close>

definition cache_ok :: "role_source \<Rightarrow> u64 \<Rightarrow> member_cache \<Rightarrow> bool" where
  "cache_ok roles u c \<longleftrightarrow> (\<forall>g m. tget c g = Some m \<longrightarrow> m = ro_member roles g u)"

definition in_role :: "role_source \<Rightarrow> u64 \<Rightarrow> network \<Rightarrow> bool" where
  "in_role roles u n \<longleftrightarrow> role_among (n_role_id n) (ro_member roles (n_guild_id n) u)"

lemma cache_ok_Nil [simp]: "cache_ok roles u []"
  by (simp add: cache_ok_def)

lemma cached_member_ok:
  assumes "cache_ok roles u c"
  shows "fst (cached_member roles u g c) = ro_member roles g u \<and> cache_ok roles u (snd (cached_member roles u g c))"
  using assms by (auto simp: cached_member_def cache_ok_def Let_def split: option.splits)

lemma holds_any_spec:
  "cache_ok roles u c \<Longrightarrow>
   (fst (holds_any_network_role roles nets u c) \<longleftrightarrow> (\<exists>n\<in>set nets. in_role roles u n)) \<and>
   cache_ok roles u (snd (holds_any_network_role roles nets u c))"
proof (induction nets arbitrary: c)
  case (Cons n nets)
  obtain m c' where cm: "cached_member roles u (n_guild_id n) c = (m, c')" by fastforce
  with cached_member_ok [OF Cons.prems, of "n_guild_id n"]
  have "m = ro_member roles (n_guild_id n) u" "cache_ok roles u c'" by simp_all
  with Cons.IH [of c'] show ?case by (simp add: cm in_role_def)
qed simp

subsection \<open>What the walk may touch\<close>

text \<open>Presence, labels and their memo; nothing else of the state.\<close>

definition label_frame :: "app \<Rightarrow> app \<Rightarrow> bool" where
  "label_frame st0 st \<longleftrightarrow> (\<exists>p ul ml. st =
     (set_store ((a_store st0)\<lparr>user_labels := ul\<rparr>) st0)\<lparr>a_presence := p, a_user_labels := ml\<rparr>)"

lemma label_frame_refl [simp]: "label_frame st st"
  unfolding label_frame_def
  by (rule exI [of _ "a_presence st"], rule exI [of _ "user_labels (a_store st)"],
      rule exI [of _ "a_user_labels st"]) (simp add: set_store_def)

lemma label_frame_trans: "label_frame a b \<Longrightarrow> label_frame b c \<Longrightarrow> label_frame a c"
  unfolding label_frame_def
  by (elim exE) (auto simp: set_store_def intro!: exI)

lemma label_frame_presence [simp]: "label_frame st0 (st\<lparr>a_presence := p\<rparr>) \<longleftrightarrow> label_frame st0 st"
proof -
  have "label_frame st (st\<lparr>a_presence := p\<rparr>)" "label_frame (st\<lparr>a_presence := p\<rparr>) st"
    unfolding label_frame_def
    by (rule exI [of _ p], rule exI [of _ "user_labels (a_store st)"], rule exI [of _ "a_user_labels st"],
        simp add: set_store_def)
      (rule exI [of _ "a_presence st"], rule exI [of _ "user_labels (a_store st)"],
        rule exI [of _ "a_user_labels st"], simp add: set_store_def)
  then show ?thesis by (blast intro: label_frame_trans)
qed

lemma label_frame_keeps:
  assumes "label_frame st0 st"
  shows "a_roles st = a_roles st0" "devices (a_store st) = devices (a_store st0)"
    "primary_device (a_store st) = primary_device (a_store st0)"
    "networks (a_store st) = networks (a_store st0)" "a_nat st = a_nat st0"
    "a_versions st = a_versions st0" "a_wakers st = a_wakers st0"
    "sn_cache (a_signing st) = sn_cache (a_signing st0)" "sn_keys (a_signing st) = sn_keys (a_signing st0)"
    "guild_signing_keys (a_store st) = guild_signing_keys (a_store st0)"
    "a_roleless st = a_roleless st0" "user_handles (a_store st) = user_handles (a_store st0)"
  using assms by (auto simp: label_frame_def set_store_def)

lemma user_label_store: "\<exists>ul. snd (user_label u h s) = s\<lparr>user_labels := ul\<rparr>"
  by (auto simp: user_label_eq split: option.splits intro: exI [of _ "user_labels s"])

lemma app_user_label_frame:
  assumes "app_user_label u h st = (res, st')"
  shows "label_frame st st' \<and> a_presence st' = a_presence st"
proof -
  obtain x s where run: "user_label u h (a_store st) = (x, s)" by fastforce
  obtain ul where ul: "s = (a_store st)\<lparr>user_labels := ul\<rparr>" using user_label_store [of u h "a_store st"] run by auto
  have "label_frame st (set_store s st\<lparr>a_user_labels := ml\<rparr>)" for ml
    unfolding label_frame_def ul
    by (rule exI [of _ "a_presence st"], rule exI [of _ ul], rule exI [of _ ml]) (simp add: set_store_def)
  from this [of "a_user_labels st"] this have fr: "label_frame st (set_store s st)"
    "\<And>ml. label_frame st (set_store s st\<lparr>a_user_labels := ml\<rparr>)" by (simp_all add: set_store_def)
  from assms run fr show ?thesis
    by (auto simp: app_user_label_def bindA_def dbA_def split: option.splits sum.splits)
qed

subsection \<open>What the walk has done\<close>

definition ids :: "network \<Rightarrow> u64 \<times> u64" where
  "ids n = (n_guild_id n, n_role_id n)"

definition joins :: "role_source \<Rightarrow> register_req \<Rightarrow> u64 \<Rightarrow> network list \<Rightarrow> (u64 \<times> u64) list" where
  "joins roles req u ns =
     map ids (filter (\<lambda>n. in_role roles u n \<and> \<not> opted_out req (n_guild_id n) (n_role_id n)) ns)"

definition listing :: "role_source \<Rightarrow> register_req \<Rightarrow> u64 \<Rightarrow> network list \<Rightarrow> ((u64 \<times> u64) \<times> bool) list" where
  "listing roles req u ns =
     map (\<lambda>n. (ids n, \<not> opted_out req (n_guild_id n) (n_role_id n))) (filter (in_role roles u) ns)"

definition status_ids :: "mship \<Rightarrow> ((u64 \<times> u64) \<times> bool) list" where
  "status_ids m = map (\<lambda>s. ((ns_guild_id s, ns_role_id s), ns_enabled s)) (ms_status m)"

text \<open>Presence after the caller joined \<open>held\<close> under \<open>p\<close> (or nothing, while paused).\<close>

definition shown :: "presence \<Rightarrow> bool \<Rightarrow> (u64 \<times> u64) list \<Rightarrow> member_presence \<Rightarrow> presence \<Rightarrow> bool" where
  "shown p0 paused held mp p \<longleftrightarrow> presence_ok p \<and> pr_self p = pr_self p0 \<and>
     (\<forall>g r d. guild_view p g r d =
        (if d = mp_pubkey mp \<and> (g, r) \<in> set held \<and> \<not> paused then Some mp else guild_view p0 g r d))"

text \<open>A scope outside the announced list sees what it saw.\<close>

definition announced :: "presence \<Rightarrow> presence \<Rightarrow> scope list \<Rightarrow> bool" where
  "announced p0 p changed \<longleftrightarrow> (\<forall>t. t \<notin> set changed \<longrightarrow> scope_view p t = scope_view p0 t)"

lemma announced_refl [simp]: "announced p p ch"
  by (simp add: announced_def)

lemma announced_trans:
  "announced p0 p1 ch \<Longrightarrow> announced p1 p2 ch' \<Longrightarrow> set ch \<subseteq> set ch' \<Longrightarrow> announced p0 p2 ch'"
  by (auto simp: announced_def)

lemma announced_mono: "announced p0 p1 ch \<Longrightarrow> set ch \<subseteq> set ch' \<Longrightarrow> announced p0 p1 ch'"
  by (auto simp: announced_def)

definition walk_inv ::
  "register_req \<Rightarrow> u64 \<Rightarrow> device \<Rightarrow> app \<Rightarrow> scope list \<Rightarrow> network list \<Rightarrow> walk \<Rightarrow> app \<Rightarrow> bool" where
  "walk_inv req u dev st0 ch0 ns w st \<longleftrightarrow>
     cache_ok (a_roles st0) u (wl_cache w) \<and>
     status_ids (wl_m w) = listing (a_roles st0) req u ns \<and>
     ms_held (wl_m w) = joins (a_roles st0) req u ns \<and>
     length (ms_network_names (wl_m w)) = length (ms_held (wl_m w)) \<and>
     (wl_label_resolved w \<longleftrightarrow> ms_status (wl_m w) \<noteq> []) \<and> \<not> ms_personal (wl_m w) \<and>
     label_frame st0 st \<and>
     shown (a_presence st0) (rq_paused req) (ms_held (wl_m w)) (presence_of req u dev (ms_username (wl_m w)))
       (a_presence st) \<and>
     announced (a_presence st0) (a_presence st) (wl_changed w) \<and> set ch0 \<subseteq> set (wl_changed w)"

lemma presence_of_pubkey [simp]: "mp_pubkey (presence_of req u dev l) = rq_wg_pubkey req"
  by (simp add: presence_of_def)

lemma status_nil: "status_ids m = listing roles req u ns \<Longrightarrow> ms_status m = [] \<Longrightarrow> joins roles req u ns = []"
  by (auto simp: status_ids_def listing_def joins_def filter_empty_conv)

text \<open>Joining one more network.\<close>

lemma join_network_inv:
  assumes inv: "shown (a_presence st0) (rq_paused req) (ms_held (wl_m w))
      (presence_of req u dev (ms_username (wl_m w))) (a_presence st)"
    and ann: "announced (a_presence st0) (a_presence st) (wl_changed w)"
    and run: "join_network ev req u dev net w st = (res, st')"
  shows "\<exists>w'. res = Inr w' \<and> label_frame st st' \<and> wl_cache w' = wl_cache w \<and>
    wl_label_resolved w' = wl_label_resolved w \<and>
    ms_status (wl_m w') = ms_status (wl_m w) \<and> ms_personal (wl_m w') = ms_personal (wl_m w) \<and>
    ms_username (wl_m w') = ms_username (wl_m w) \<and>
    ms_held (wl_m w') = ms_held (wl_m w) @ [ids net] \<and>
    length (ms_network_names (wl_m w')) = Suc (length (ms_network_names (wl_m w))) \<and>
    shown (a_presence st0) (rq_paused req) (ms_held (wl_m w'))
      (presence_of req u dev (ms_username (wl_m w'))) (a_presence st') \<and>
    announced (a_presence st0) (a_presence st') (wl_changed w') \<and> set (wl_changed w) \<subseteq> set (wl_changed w')"
proof (cases "rq_paused req")
  case True
  with run inv ann show ?thesis by (auto simp: join_network_def shown_def ids_def Let_def)
next
  case False
  let ?mp = "presence_of req u dev (ms_username (wl_m w))"
  obtain did p where rec: "record_presence (n_guild_id net) (n_role_id net) ?mp (rq_client_version req)
      (e_now ev) (a_presence st) = (did, p)" by fastforce
  have ok: "presence_ok (a_presence st)" using inv by (simp add: shown_def)
  have op: "op_record (n_guild_id net) (n_role_id net) ?mp (rq_client_version req) (e_now ev) (a_presence st) =
      (when_changed did (Guild (n_guild_id net)), p)" by (simp add: op_record_def rec)
  have okp: "presence_ok p" using rec.keeps_ok [OF ok] op by (metis snd_conv)
  have view: "guild_view p g r d = (if (g, r, d) = (n_guild_id net, n_role_id net, rq_wg_pubkey req) then Some ?mp
      else guild_view (a_presence st) g r d)" for g r d
    using op ok by (auto simp: op_record_eq views_map ok_get) (auto simp: guild_view_def)
  have self: "pr_self p = pr_self (a_presence st)" using op by (auto simp: op_record_eq)
  have ann1: "announced (a_presence st) p (if did then Guild (n_guild_id net) # wl_changed w else wl_changed w)"
    using rec.reports [OF ok] op unfolding announced_def
    by (metis (mono_tags, opaque_lifting) fst_conv list.set_intros(1) snd_conv when_changed_in)
  have ann2: "announced (a_presence st0) p (if did then Guild (n_guild_id net) # wl_changed w else wl_changed w)"
    by (rule announced_trans [OF ann ann1]) auto
  from run False rec inv okp view self ann2 show ?thesis
    by (auto simp: join_network_def shown_def ids_def Let_def)
qed

lemma list_network_simps [simp]:
  "ms_held (list_network st req net m) = ms_held m"
  "ms_network_names (list_network st req net m) = ms_network_names m"
  "ms_username (list_network st req net m) = ms_username m"
  "ms_personal (list_network st req net m) = ms_personal m"
  "status_ids (list_network st req net m) =
     status_ids m @ [(ids net, \<not> opted_out req (n_guild_id net) (n_role_id net))]"
  "ms_status (list_network st req net m) \<noteq> []"
  by (simp_all add: list_network_def status_ids_def ids_def Let_def)

lemma visit_network_inv:
  assumes inv: "walk_inv req u dev st0 ch0 ns w st"
    and run: "visit_network ev req u dev net w st = (Inr w', st')"
  shows "walk_inv req u dev st0 ch0 (ns @ [net]) w' st'"
proof -
  have fr: "label_frame st0 st" and roles: "a_roles st = a_roles st0"
    using inv label_frame_keeps(1) by (auto simp: walk_inv_def)
  obtain member cache where cm: "cached_member (a_roles st) u (n_guild_id net) (wl_cache w) = (member, cache)"
    by fastforce
  have c: "member = ro_member (a_roles st0) (n_guild_id net) u" "cache_ok (a_roles st0) u cache"
    using cached_member_ok [of "a_roles st0" u "wl_cache w" "n_guild_id net"] inv cm roles
    by (simp_all add: walk_inv_def)
  show ?thesis
  proof (cases "in_role (a_roles st0) u net")
    case False
    then have "w' = w\<lparr>wl_cache := cache\<rparr>" "st' = st"
      using run cm c(1) by (auto simp: visit_network_def in_role_def role_among_def split: option.splits if_splits)
    moreover have "listing (a_roles st0) req u (ns @ [net]) = listing (a_roles st0) req u ns"
      "joins (a_roles st0) req u (ns @ [net]) = joins (a_roles st0) req u ns"
      using False by (simp_all add: listing_def joins_def)
    ultimately show ?thesis using inv c(2) by (auto simp: walk_inv_def)
  next
    case True
    then obtain mr where mr: "member = Some mr" "n_role_id net \<in> set (mr_role_ids mr)"
      using c(1) by (auto simp: in_role_def role_among_def split: option.splits)
    let ?l = "list_network st req net (wl_m w)"
    obtain m st1 where m: "(if wl_label_resolved w then retA ?l
          else bindA (app_user_label u (mr_username mr)) (\<lambda>l. retA (?l\<lparr>ms_username := l\<rparr>))) st = (Inr m, st1)"
      and rest: "(if opted_out req (n_guild_id net) (n_role_id net)
          then retA (w\<lparr>wl_cache := cache, wl_m := m, wl_label_resolved := True\<rparr>)
          else join_network ev req u dev net (w\<lparr>wl_cache := cache, wl_m := m, wl_label_resolved := True\<rparr>)) st1 =
            (Inr w', st')"
      using run cm mr by (auto simp: visit_network_def bindA_Inr Let_def)
    have m1: "label_frame st st1" "a_presence st1 = a_presence st" "ms_held m = ms_held (wl_m w)"
      "ms_network_names m = ms_network_names (wl_m w)" "ms_personal m = ms_personal (wl_m w)"
      "status_ids m = status_ids ?l" "ms_status m \<noteq> []"
      "wl_label_resolved w \<Longrightarrow> ms_username m = ms_username (wl_m w)"
      using m app_user_label_frame by (auto simp: bindA_Inr status_ids_def split: if_splits)
    have "shown (a_presence st0) (rq_paused req) (ms_held m) (presence_of req u dev (ms_username m)) (a_presence st1)"
    proof (cases "wl_label_resolved w")
      case True
      with inv m1 show ?thesis by (auto simp: walk_inv_def)
    next
      case False
      then have "ms_status (wl_m w) = []" using inv by (simp add: walk_inv_def)
      moreover have "status_ids (wl_m w) = listing (a_roles st0) req u ns" "ms_held (wl_m w) = joins (a_roles st0) req u ns"
        using inv by (auto simp: walk_inv_def)
      ultimately have "ms_held (wl_m w) = []" using status_nil by metis
      with inv m1(2,3) show ?thesis by (simp add: walk_inv_def shown_def)
    qed
    note sh = this
    have ann: "announced (a_presence st0) (a_presence st1) (wl_changed w)" "set ch0 \<subseteq> set (wl_changed w)"
      using inv m1(2) by (simp_all add: walk_inv_def)
    have fr1: "label_frame st0 st1" using fr m1(1) by (rule label_frame_trans)
    have lens: "length (ms_network_names m) = length (ms_held m)" "status_ids m = listing (a_roles st0) req u (ns @ [net])"
      "\<not> ms_personal m" "ms_held m = joins (a_roles st0) req u ns"
      using inv m1 True by (simp_all add: walk_inv_def listing_def)
    show ?thesis
    proof (cases "opted_out req (n_guild_id net) (n_role_id net)")
      case True
      with rest have "w' = w\<lparr>wl_cache := cache, wl_m := m, wl_label_resolved := True\<rparr>" "st' = st1" by simp_all
      moreover have "joins (a_roles st0) req u (ns @ [net]) = joins (a_roles st0) req u ns"
        using True by (simp add: joins_def)
      ultimately show ?thesis using c(2) sh ann fr1 lens m1(7) by (auto simp: walk_inv_def)
    next
      case False
      with rest have j: "join_network ev req u dev net (w\<lparr>wl_cache := cache, wl_m := m, wl_label_resolved := True\<rparr>) st1 =
          (Inr w', st')" by simp
      have jn: "joins (a_roles st0) req u (ns @ [net]) = joins (a_roles st0) req u ns @ [ids net]"
        using True False by (simp add: joins_def)
      let ?w = "w\<lparr>wl_cache := cache, wl_m := m, wl_label_resolved := True\<rparr>"
      have "shown (a_presence st0) (rq_paused req) (ms_held (wl_m ?w))
          (presence_of req u dev (ms_username (wl_m ?w))) (a_presence st1)"
        "announced (a_presence st0) (a_presence st1) (wl_changed ?w)" using sh ann by simp_all
      from join_network_inv [OF this j] c(2) lens m1(7) jn ann(2) label_frame_trans [OF fr1]
      show ?thesis by (auto simp: walk_inv_def status_ids_def)
    qed
  qed
qed

lemma walk_networks_inv:
  "walk_inv req u dev st0 ch0 ns w st \<Longrightarrow> walk_networks ev req u dev nets w st = (Inr w', st') \<Longrightarrow>
   walk_inv req u dev st0 ch0 (ns @ nets) w' st'"
proof (induction nets arbitrary: ns w st)
  case (Cons n nets)
  from Cons.prems(2) obtain w1 st1 where s: "visit_network ev req u dev n w st = (Inr w1, st1)"
    "walk_networks ev req u dev nets w1 st1 = (Inr w', st')"
    by (auto simp: bindA_Inr)
  from Cons.IH [OF visit_network_inv [OF Cons.prems(1) s(1)] s(2)] show ?case by simp
qed simp

subsection \<open>The caller ends up present exactly where it belongs\<close>

lemma evict_loop_views:
  assumes "presence_ok p" and "evict_loop pk nets p ch = (p', ch')"
  shows "presence_ok p' \<and> pr_self p' = pr_self p \<and> announced p p' ch' \<and> set ch \<subseteq> set ch' \<and>
    (\<forall>g r d. guild_view p' g r d = (if d = pk \<and> (g, r) \<in> set nets then None else guild_view p g r d))"
proof -
  note sp = evict_loop_spec [OF ok_get(3) [OF assms(1)] assms(2)]
  have view: "guild_view p' g r d = (if d = pk \<and> (g, r) \<in> set nets then None else guild_view p g r d)" for g r d
    using sp by (simp add: guild_view_def)
  have "announced p p' ch'"
    unfolding announced_def
  proof (intro allI impI)
    fix t assume t: "t \<notin> set ch'"
    have "guild_view p' g r d = guild_view p g r d" if "t = Guild g" for g r d
      using t sp that view [of g r d] by (auto simp: guild_view_def)
    moreover have "user_view p' v d = user_view p v d" for v d using sp by (simp add: user_view_def)
    ultimately show "scope_view p' t = scope_view p t" by (intro scope_view_eqI) auto
  qed
  moreover have "presence_ok p'" using assms(1) sp by (auto simp: presence_ok_def split: if_splits)
  ultimately show ?thesis using sp view by auto
qed

lemma set_joins: "set (joins roles req u ns) =
    ids ` {n \<in> set ns. in_role roles u n \<and> \<not> opted_out req (n_guild_id n) (n_role_id n)}"
  by (simp add: joins_def)

lemma resolve_membership_run:
  assumes ok: "presence_ok (a_presence st)" and c: "cache_ok (a_roles st) u cache"
    and run: "resolve_membership ev req u nets dev cache changed st = (Inr (m, changed'), st')"
  shows "status_ids m = listing (a_roles st) req u nets \<and> ms_held m = joins (a_roles st) req u nets \<and>
    length (ms_network_names m) = length (ms_held m) \<and>
    (ms_personal m \<longleftrightarrow> ms_status m = [] \<and> wants_personal_scope req) \<and> label_frame st st' \<and>
    presence_ok (a_presence st') \<and> pr_self (a_presence st') = pr_self (a_presence st) \<and>
    (\<forall>g r d. guild_view (a_presence st') g r d =
       (if d = rq_wg_pubkey req
        then if (g, r) \<in> set (ms_held m) \<and> \<not> rq_paused req then Some (presence_of req u dev (ms_username m)) else None
        else guild_view (a_presence st) g r d)) \<and>
    announced (a_presence st) (a_presence st') changed' \<and> set changed \<subseteq> set changed'"
proof -
  let ?w0 = "\<lparr>wl_cache = cache, wl_m = empty_mship u, wl_label_resolved = False, wl_changed = changed\<rparr>"
  obtain w st1 where walk: "walk_networks ev req u dev nets ?w0 st = (Inr w, st1)"
    using run by (auto simp: resolve_membership_def bindA_Inr)
  have "walk_inv req u dev st changed [] ?w0 st"
    using ok c by (simp add: walk_inv_def empty_mship_def status_ids_def listing_def joins_def shown_def)
  from walk_networks_inv [OF this walk] have inv: "walk_inv req u dev st changed nets w st1" by simp
  obtain p ch where ev: "evict_loop (rq_wg_pubkey req) (stale_networks req (wl_m w) (a_presence st1))
      (a_presence st1) (wl_changed w) = (p, ch)" by fastforce
  have ok1: "presence_ok (a_presence st1)" using inv by (simp add: walk_inv_def shown_def)
  note e = evict_loop_views [OF ok1 ev]
  let ?st2 = "st1\<lparr>a_presence := p\<rparr>"
  let ?m = "(wl_m w)\<lparr>ms_personal := (ms_status (wl_m w) = [] \<and> wants_personal_scope req)\<rparr>"
  have fr2: "label_frame st ?st2" using inv by (simp add: walk_inv_def)
  have out: "changed' = ch" "a_presence st' = p" "label_frame st st'"
    "ms_status m = ms_status ?m" "ms_held m = ms_held ?m" "ms_network_names m = ms_network_names ?m"
    "ms_personal m = ms_personal ?m" "\<not> ms_personal ?m \<Longrightarrow> ms_username m = ms_username ?m"
    using run walk ev fr2 label_frame_trans [OF fr2]
    by (auto simp: resolve_membership_def bindA_Inr Let_def split: if_splits option.splits
        dest!: app_user_label_frame)
  have held: "ms_held m = joins (a_roles st) req u nets" using inv out(5) by (simp add: walk_inv_def)
  have none: "ms_personal ?m \<Longrightarrow> joins (a_roles st) req u nets = []"
    using inv status_nil [of "wl_m w"] by (simp add: walk_inv_def)
  let ?pk = "rq_wg_pubkey req"
  have v1: "guild_view (a_presence st1) g r d =
      (if d = ?pk \<and> (g, r) \<in> set (ms_held m) \<and> \<not> rq_paused req then Some (presence_of req u dev (ms_username m))
       else guild_view (a_presence st) g r d)" for g r d
    using inv held none out(8) by (cases "ms_personal ?m") (simp_all add: walk_inv_def shown_def)
  have stale: "(g, r) \<in> set (stale_networks req (wl_m w) (a_presence st1)) \<longleftrightarrow>
      (rq_paused req \<or> (g, r) \<notin> set (ms_held m)) \<and> guild_view (a_presence st1) g r ?pk \<noteq> None" for g r
    using networks_of_set [of g r ?pk "a_presence st1"] out(5)
    by (auto simp: stale_networks_def guild_view_def)
  have "guild_view p g r d = (if d = ?pk
        then if (g, r) \<in> set (ms_held m) \<and> \<not> rq_paused req then Some (presence_of req u dev (ms_username m)) else None
        else guild_view (a_presence st) g r d)" for g r d
    using e v1 [of g r d] stale [of g r] by auto
  moreover have "announced (a_presence st) p ch"
    by (rule announced_trans [of _ "a_presence st1" "wl_changed w"]) (use inv e in \<open>auto simp: walk_inv_def\<close>)
  ultimately show ?thesis
    using out held inv e by (auto simp: walk_inv_def shown_def status_ids_def)
qed

end
