(* ===== verification/Snapshot.thy ===== *)
theory Snapshot
  imports Membership
begin

section \<open>Building a caller's view of the mesh: \<open>api/snapshot.rs\<close>\<close>

text \<open>
  The rest of \<open>build_snapshot\<close>: the caller's grant, the seeds of its co-members with their NAT paths,
  the delta against what the client holds, and the response. The handler is cut in two where it has
  read the presence tables and not yet the versions (\<open>snapshot_read\<close>, \<open>snapshot_stamp\<close>), because
  other handlers run in between. The iteration order of a \<open>HashMap\<close> is that of insertion here.
\<close>

subsection \<open>Keys and signatures\<close>

definition keysA :: "env \<Rightarrow> u64 \<Rightarrow> guild_key act" where
  "keysA ev g st =
     (let sn = a_signing st
      in case keys_get g (e_fresh_seed ev g) (sn_keys sn) (sn_store sn) of
           (r, ks, s) \<Rightarrow> (orInternal r, st\<lparr>a_signing := sn\<lparr>sn_keys := ks, sn_store := s\<rparr>\<rparr>))"

definition signA :: "env \<Rightarrow> u64 \<Rightarrow> att_identity \<Rightarrow> u32 \<Rightarrow> string act" where
  "signA ev g i schema st =
     (case cached_attestation (e_crypto ev) (e_att ev) (e_signed ev) g i (e_now ev) (e_clock ev) schema
             (e_fresh_seed ev g) (a_signing st) of
        (Inl e, sn) \<Rightarrow> (Inl (ApiError INTERNAL_SERVER_ERROR), st\<lparr>a_signing := sn\<rparr>)
      | (Inr blob, sn) \<Rightarrow> (Inr blob, st\<lparr>a_signing := sn\<rparr>))"

definition base64A :: "env \<Rightarrow> 'e + signed \<Rightarrow> string act" where
  "base64A ev r st =
     (case r of
        Inl e \<Rightarrow> (Inl (ApiError INTERNAL_SERVER_ERROR), st)
      | Inr s \<Rightarrow>
          (case to_base64 (e_crypto ev) (e_signed ev) s of
             None \<Rightarrow> (Inl (ApiError INTERNAL_SERVER_ERROR), st)
           | Some b \<Rightarrow> (Inr b, st)))"

definition community_name :: "mship \<Rightarrow> u64 \<Rightarrow> string" where
  "community_name m g = (case tget (ms_community m) g of Some l \<Rightarrow> l | None \<Rightarrow> [])"

subsection \<open>Phase 3: the grant\<close>

definition grant_attestation ::
  "env \<Rightarrow> register_req \<Rightarrow> u64 \<Rightarrow> device \<Rightarrow> mship \<Rightarrow> u32 \<Rightarrow> u64 \<Rightarrow> guild_attestation act" where
  "grant_attestation ev req u dev m schema g =
     bindA (keysA ev g) (\<lambda>gk.
       bindA (base64A ev (signer_sign (e_crypto ev) (e_att ev) (gk_signer gk)
           \<lparr>id_user_id = u, id_username = ms_username m, id_device_name = dv_name dev,
            id_is_primary = dv_is_primary dev, id_ip = dv_ip dev, id_pubkey = rq_wg_pubkey req\<rparr>
           (e_clock ev) schema)) (\<lambda>blob.
         retA \<lparr>ga_attestation = blob, ga_community_name = community_name m g, ga_att_schema = schema\<rparr>))"

definition build_grant :: "env \<Rightarrow> register_req \<Rightarrow> u64 \<Rightarrow> device \<Rightarrow> mship \<Rightarrow> u32 \<Rightarrow> grant option act" where
  "build_grant ev req u dev m schema =
     (if \<not> has_identity m then retA None
      else bindA (mapA (grant_attestation ev req u dev m schema) (ms_guilds m)) (\<lambda>atts.
        retA (Some \<lparr>gr_attestations = atts, gr_networks = ms_network_names m\<rparr>)))"

subsection \<open>Phase 4: the seeds\<close>

type_synonym comember = "member_presence \<times> shared_network list \<times> u64 list"

definition add_comember ::
  "shared_network \<Rightarrow> u64 \<Rightarrow> member_presence \<Rightarrow> (key, comember) hmap \<Rightarrow> (key, comember) hmap" where
  "add_comember net g mp tab =
     (let (mp0, nets, gs) = (case tget tab (mp_pubkey mp) of Some c \<Rightarrow> c | None \<Rightarrow> (mp, [], []))
      in tput (mp_pubkey mp)
           (mp0, if net \<in> set nets then nets else nets @ [net], insort_insert g gs) tab)"

definition network_comembers ::
  "register_req \<Rightarrow> mship \<Rightarrow> presence \<Rightarrow> (u64 \<times> u64) \<times> string \<Rightarrow> (key, comember) hmap \<Rightarrow> (key, comember) hmap" where
  "network_comembers req m p held tab =
     (case held of ((g, r), net_name) \<Rightarrow>
        let net = \<lparr>sh_name = net_name, sh_community = community_name m g, sh_guild_id = g, sh_role_id = r\<rparr>
        in fold (add_comember net g) (others_in g r (rq_wg_pubkey req) p) tab)"

definition add_own :: "u64 list \<Rightarrow> member_presence \<Rightarrow> (key, comember) hmap \<Rightarrow> (key, comember) hmap" where
  "add_own guilds mp tab =
     (if tget tab (mp_pubkey mp) = None then tput (mp_pubkey mp) (mp, [], guilds) tab else tab)"

definition comembers_of ::
  "register_req \<Rightarrow> u64 \<Rightarrow> mship \<Rightarrow> u64 list \<Rightarrow> presence \<Rightarrow> (key, comember) hmap" where
  "comembers_of req u m guilds p =
     (let tab = fold (network_comembers req m p) (zip (ms_held m) (ms_network_names m)) []
      in if rq_peer_own_devices req \<and> has_identity m
         then fold (add_own guilds) (others_of_user u (rq_wg_pubkey req) p) tab else tab)"

definition relay_candidates :: "(key, relay_reg) hmap \<Rightarrow> (key, comember) hmap \<Rightarrow> relay_candidate list" where
  "relay_candidates regs tab =
     List.map_filter (\<lambda>(pk, mp, nets, gs). map_option (\<lambda>reg. (pk, nets, reg)) (tget regs pk)) tab"

definition seed_rev ::
  "(seed_content \<Rightarrow> u64) \<Rightarrow> member_presence \<Rightarrow> sockaddr option \<Rightarrow> sockaddr option \<Rightarrow> shared_network list \<Rightarrow>
   relay_info option \<Rightarrow> ice_params option \<Rightarrow> u64" where
  "seed_rev hash mp endpoint punch nets relay ice =
     hash (mp_pubkey mp, mp_ip mp, mp_is_primary mp, mp_username mp, mp_device_name mp, endpoint, punch,
       nets, relay, ice)"

definition identity_of :: "member_presence \<Rightarrow> att_identity" where
  "identity_of mp = \<lparr>id_user_id = mp_user_id mp, id_username = mp_username mp, id_device_name = mp_device_name mp,
     id_is_primary = mp_is_primary mp, id_ip = mp_ip mp, id_pubkey = mp_pubkey mp\<rparr>"

definition peer_relay ::
  "env \<Rightarrow> register_req \<Rightarrow> nat_tables \<Rightarrow> relay_candidate list \<Rightarrow> member_presence \<Rightarrow> shared_network list \<Rightarrow>
   relay_info option" where
  "peer_relay ev req t cands mp nets =
     (if mp_pubkey mp \<in> set (rq_need_relay req)
      then map_option (\<lambda>i. i\<lparr>ri_peer_relayed := tget (nt_relay_allocs t) (mp_pubkey mp, rq_wg_pubkey req)\<rparr>)
             (relay_target (e_crypto ev) (mp_pubkey mp) nets cands (e_now ev))
      else None)"

text \<open>A peer's seed once its attestations are signed.\<close>

definition assemble_seed ::
  "env \<Rightarrow> register_req \<Rightarrow> nat_tables \<Rightarrow> relay_candidate list \<Rightarrow> member_presence \<Rightarrow> shared_network list \<Rightarrow>
   guild_attestation list \<Rightarrow> seed" where
  "assemble_seed ev req t cands mp nets atts =
     (let punch = punch_target (rq_endpoint req \<noteq> None) (mp_endpoint mp) (tget (nt_reflexive t) (mp_pubkey mp));
          relay = peer_relay ev req t cands mp nets;
          ice = tget (nt_ice t) (mp_pubkey mp, rq_wg_pubkey req)
      in \<lparr>sd_attestations = atts, sd_endpoint = mp_endpoint mp, sd_punch = punch, sd_networks = nets,
          sd_relay = relay, sd_ice = ice,
          sd_rev = seed_rev (e_seed_hash ev) mp (mp_endpoint mp) punch nets relay ice\<rparr>)"

definition peer_seed ::
  "env \<Rightarrow> register_req \<Rightarrow> mship \<Rightarrow> nat_tables \<Rightarrow> relay_candidate list \<Rightarrow> u32 \<Rightarrow> key \<times> comember \<Rightarrow> (key \<times> seed) act" where
  "peer_seed ev req m t cands schema entry =
     (case entry of (_, mp, nets, guilds) \<Rightarrow>
        bindA (mapA (\<lambda>g. bindA (signA ev g (identity_of mp) schema) (\<lambda>blob.
            retA \<lparr>ga_attestation = blob, ga_community_name = community_name m g, ga_att_schema = schema\<rparr>)) guilds)
          (\<lambda>atts. retA (mp_pubkey mp, assemble_seed ev req t cands mp nets atts)))"

definition build_seeds ::
  "env \<Rightarrow> register_req \<Rightarrow> u64 \<Rightarrow> mship \<Rightarrow> u64 list \<Rightarrow> u32 \<Rightarrow> ((key \<times> seed) list \<times> key list) act" where
  "build_seeds ev req u m guilds schema st =
     (let tab = comembers_of req u m guilds (a_presence st);
          (t, wakes) = record_peer_reports req (tkeys tab) (a_nat st) [];
          cands = relay_candidates (nt_relays t) tab
      in bindA (mapA (peer_seed ev req m t cands schema) tab) (\<lambda>all. retA (all, wakes)) (st\<lparr>a_nat := t\<rparr>))"

subsection \<open>Phase 5: the delta\<close>

definition held_revs :: "register_req \<Rightarrow> (key, u64) hmap" where
  "held_revs req = fold (\<lambda>h. tput (hp_pubkey h) (hp_rev h)) (rq_held req) []"

definition apply_delta :: "register_req \<Rightarrow> (key \<times> seed) list \<Rightarrow> seed list \<times> key list \<times> bool" where
  "apply_delta req all =
     (if rq_held req = [] then (map snd all, [], False)
      else (map snd (filter (\<lambda>(pk, s). tget (held_revs req) pk \<noteq> Some (sd_rev s)) all),
            filter (\<lambda>pk. pk \<notin> set (map fst all)) (tkeys (held_revs req)), True))"

subsection \<open>Anchors and the release manifest\<close>

definition build_anchors :: "env \<Rightarrow> u64 list \<Rightarrow> guild_anchor list act" where
  "build_anchors ev guilds =
     mapA (\<lambda>g. bindA (keysA ev g) (\<lambda>gk.
       retA \<lparr>an_guild_id = g, an_pubkey = ed_anchor (e_crypto ev) (sg_key (gk_signer gk)),
             an_rotation_chain = gk_rotation_chain gk\<rparr>)) guilds"

definition sign_release :: "env \<Rightarrow> u64 list \<Rightarrow> string option act" where
  "sign_release ev guilds st =
     (case (a_release st, guilds) of
        (Some m, g # _) \<Rightarrow>
          bindA (keysA ev g) (\<lambda>gk.
            bindA (base64A ev (signed_sign (e_crypto ev) (e_manifest ev) (sg_key (gk_signer gk)) m))
              (\<lambda>b. retA (Some b))) st
      | _ \<Rightarrow> (Inr None, st))"

subsection \<open>The handler\<close>

definition negotiate :: "register_req \<Rightarrow> api_error + u32" where
  "negotiate req =
     (case negotiate_proto (rq_proto_min req) (rq_proto req) of
        Inl e \<Rightarrow> Inl (ApiError UPGRADE_REQUIRED) | Inr v \<Rightarrow> Inr v)"

record built =
  bt_resp :: register_resp
  bt_caller_changed :: bool
  bt_scopes :: "scope set"

text \<open>Up to the point where the caller's own state is recorded.\<close>

record caller =
  cl_user :: u64
  cl_enrolled :: bool
  cl_device :: device
  cl_m :: mship
  cl_changed :: "scope list"

definition source_seen :: "register_req \<Rightarrow> ip \<Rightarrow> app \<Rightarrow> app" where
  "source_seen req caller_ip st =
     st\<lparr>a_nat := (a_nat st)\<lparr>nt_source_ip := tput (rq_wg_pubkey req) caller_ip (nt_source_ip (a_nat st))\<rparr>\<rparr>"

text \<open>No walk for a caller recently found to hold no role.\<close>

definition networks_to_walk :: "env \<Rightarrow> u64 \<Rightarrow> app \<Rightarrow> network list" where
  "networks_to_walk ev u st = (if memo_fresh u (e_instant ev) (a_roleless st) then [] else all_networks (a_store st))"

definition settle :: "env \<Rightarrow> register_req \<Rightarrow> u64 \<Rightarrow> bool \<Rightarrow> mship \<Rightarrow> app \<Rightarrow> app" where
  "settle ev req u walked m st =
     (let st1 = (if walked \<and> ms_status m = []
                 then st\<lparr>a_roleless := memo_remember u (e_instant ev) (a_roleless st)\<rparr> else st)
      in if has_identity m
         then set_store (touch_device (rq_wg_pubkey req) (ms_personal m) (e_clock ev) (a_store st1)) st1 else st1)"

definition record_caller :: "env \<Rightarrow> register_req \<Rightarrow> u64 \<Rightarrow> bool \<Rightarrow> bool \<Rightarrow> device \<Rightarrow> mship \<Rightarrow> scope list \<Rightarrow> caller act" where
  "record_caller ev req u enrolled walked dev m changed st =
     (case record_own_device ev req u dev m changed (settle ev req u walked m st) of
        (changed', st') \<Rightarrow>
          (Inr \<lparr>cl_user = u, cl_enrolled = enrolled, cl_device = dev, cl_m = m, cl_changed = changed'\<rparr>, st'))"

definition snapshot_caller :: "env \<Rightarrow> register_req \<Rightarrow> ip \<Rightarrow> caller act" where
  "snapshot_caller ev req caller_ip =
     bindA (liftA (validate_peer_reports req)) (\<lambda>_.
     bindA (resolve_user ev req) (\<lambda>(u, enrolled) st0.
       let st = source_seen req caller_ip st0;
           walked = (\<not> memo_fresh u (e_instant ev) (a_roleless st));
           nets = networks_to_walk ev u st
       in bindA (resolve_device ev req u nets []) (\<lambda>(dev, cache).
          bindA (retire_superseded req u []) (\<lambda>changed.
          bindA (resolve_membership ev req u nets dev cache changed) (\<lambda>(m, changed).
            record_caller ev req u enrolled walked dev m changed))) st))"

text \<open>What is read for the caller: its grant, its seeds, its token.\<close>

record reading =
  rd_grant :: "grant option"
  rd_seeds :: "(key \<times> seed) list"
  rd_wakes :: "key list"
  rd_token :: "string option"

definition snapshot_read :: "env \<Rightarrow> register_req \<Rightarrow> caller \<Rightarrow> reading act" where
  "snapshot_read ev req cl =
     bindA (build_grant ev req (cl_user cl) (cl_device cl) (cl_m cl) ATTESTATION_SCHEMA_V2) (\<lambda>gr.
     bindA (build_seeds ev req (cl_user cl) (cl_m cl) (ms_guilds (cl_m cl)) ATTESTATION_SCHEMA_V2) (\<lambda>(all, wakes).
     bindA (if cl_enrolled cl then retA None
            else dbA internal (device_token (rq_wg_pubkey req) (e_fresh_token ev))) (\<lambda>token.
       retA \<lparr>rd_grant = gr, rd_seeds = all, rd_wakes = wakes, rd_token = token\<rparr>)))"

definition caller_scopes :: "u64 \<Rightarrow> u64 list \<Rightarrow> scope set" where
  "caller_scopes u guilds = insert (User u) (Guild ` {g \<in> set guilds. g \<noteq> PERSONAL_SCOPE})"

text \<open>Announcing the changes, taking the version, and the response.\<close>

definition snapshot_stamp :: "env \<Rightarrow> register_req \<Rightarrow> caller \<Rightarrow> reading \<Rightarrow> built act" where
  "snapshot_stamp ev req cl rd st0 =
     (let guilds = ms_guilds (cl_m cl);
          (seeds, removed, partial) = apply_delta req (rd_seeds rd);
          st1 = bump_changed (cl_changed cl) st0;
          st2 = st1\<lparr>a_wakers := fold wake (remdups (rd_wakes rd)) (a_wakers st1)\<rparr>;
          scopes = caller_scopes (cl_user cl) guilds;
          version = aggregate (e_ledger_hash ev) (a_versions st2) scopes
      in bindA (build_anchors ev guilds) (\<lambda>anchors.
         bindA (sign_release ev guilds) (\<lambda>release st.
           (Inr \<lparr>bt_resp = \<lparr>rs_anchors = anchors, rs_grant = rd_grant rd, rs_device_token = rd_token rd,
                   rs_seeds = seeds, rs_version = version, rs_networks = ms_status (cl_m cl),
                   rs_dns_domain = a_dns_domain st, rs_stun_port = a_stun_port st,
                   rs_proto = (case negotiate req of Inr v \<Rightarrow> v | Inl e \<Rightarrow> PROTOCOL_VERSION),
                   rs_proto_min = MIN_PROTOCOL_VERSION, rs_proto_max = PROTOCOL_VERSION,
                   rs_caps = CAPABILITIES, rs_server_version = e_version ev, rs_release = release,
                   rs_release_signed = a_release_signed st, rs_partial = partial, rs_removed = removed\<rparr>,
                 bt_caller_changed = (cl_changed cl \<noteq> [] \<or> rd_wakes rd \<noteq> []),
                 bt_scopes = scopes\<rparr>, st))) st2)"

definition build_snapshot :: "env \<Rightarrow> register_req \<Rightarrow> ip \<Rightarrow> built act" where
  "build_snapshot ev req caller_ip =
     bindA (snapshot_caller ev req caller_ip) (\<lambda>cl.
     bindA (snapshot_read ev req cl) (\<lambda>rd. snapshot_stamp ev req cl rd))"

subsection \<open>Who the co-members are\<close>

lemma others_in_distinct:
  assumes "presence_ok s"
  shows "distinct (map mp_pubkey (others_in g r me s))"
proof -
  let ?l = "filter (\<lambda>((g', r', k), e). g' = g \<and> r' = r \<and> k \<noteq> me) (pr_map s)"
  have "map mp_pubkey (others_in g r me s) = map (\<lambda>((g, r, k), e). k) ?l"
    unfolding others_in_def map_map
    by (rule map_cong) (auto simp: comp_def dest: tget_SomeI [OF ok_get(3) [OF assms]] ok_get(1) [OF assms])
  moreover have "distinct (map (\<lambda>((g, r, k), e). k) ?l)"
  proof -
    have "distinct (map fst ?l)" using assms by (simp add: presence_ok_def tok_def distinct_map_filter)
    then have "distinct ?l" "inj_on fst (set ?l)" by (simp_all add: distinct_map)
    then show ?thesis by (auto simp: distinct_map inj_on_def)
  qed
  ultimately show ?thesis by simp
qed

lemma others_of_user_distinct:
  assumes "presence_ok s"
  shows "distinct (map mp_pubkey (others_of_user u me s))"
proof -
  let ?l = "filter (\<lambda>((v, k), e). v = u \<and> k \<noteq> me) (pr_self s)"
  have "map mp_pubkey (others_of_user u me s) = map (\<lambda>((v, k), e). k) ?l"
    unfolding others_of_user_def map_map
    by (rule map_cong) (auto simp: comp_def dest: tget_SomeI [OF ok_get(4) [OF assms]] ok_get(2) [OF assms])
  moreover have "distinct (map (\<lambda>((v, k), e). k) ?l)"
  proof -
    have "distinct (map fst ?l)" using assms by (simp add: presence_ok_def tok_def distinct_map_filter)
    then have "distinct ?l" "inj_on fst (set ?l)" by (simp_all add: distinct_map)
    then show ?thesis by (auto simp: distinct_map inj_on_def)
  qed
  ultimately show ?thesis by simp
qed

definition joined_with :: "shared_network \<Rightarrow> u64 \<Rightarrow> member_presence \<Rightarrow> comember option \<Rightarrow> comember" where
  "joined_with net g mp old =
     (case old of
        None \<Rightarrow> (mp, [net], [g])
      | Some (mp0, nets, gs) \<Rightarrow> (mp0, if net \<in> set nets then nets else nets @ [net], insort_insert g gs))"

lemma add_comember_get:
  "tget (add_comember net g mp tab) pk =
     (if pk = mp_pubkey mp then Some (joined_with net g mp (tget tab pk)) else tget tab pk)"
  by (auto simp: add_comember_def joined_with_def insort_insert_key_def split: option.splits prod.splits)

lemma add_comember_tok [simp]: "tok tab \<Longrightarrow> tok (add_comember net g mp tab)"
  by (auto simp: add_comember_def split: option.splits prod.splits)

lemma fold_comember_tok: "tok tab \<Longrightarrow> tok (fold (add_comember net g) mps tab)"
  by (induction mps arbitrary: tab) simp_all

lemma fold_comember_get:
  assumes "distinct (map mp_pubkey mps)"
  shows "tget (fold (add_comember net g) mps tab) pk =
    (case List.find (\<lambda>mp. mp_pubkey mp = pk) mps of
       None \<Rightarrow> tget tab pk | Some mp \<Rightarrow> Some (joined_with net g mp (tget tab pk)))"
  using assms
proof (induction mps arbitrary: tab)
  case (Cons mp mps)
  have IH: "tget (fold (add_comember net g) mps (add_comember net g mp tab)) pk =
    (case List.find (\<lambda>mp. mp_pubkey mp = pk) mps of
       None \<Rightarrow> tget (add_comember net g mp tab) pk
     | Some mp' \<Rightarrow> Some (joined_with net g mp' (tget (add_comember net g mp tab) pk)))"
    using Cons by simp
  show ?case
  proof (cases "mp_pubkey mp = pk")
    case True
    then have "List.find (\<lambda>mp. mp_pubkey mp = pk) mps = None"
      using Cons.prems by (auto simp: find_None_iff image_iff)
    with IH True show ?thesis by (simp add: add_comember_get)
  next
    case False
    with IH show ?thesis by (simp add: add_comember_get split: option.splits)
  qed
qed simp

lemma find_unique:
  assumes "distinct (map f xs)"
  shows "List.find (\<lambda>x. f x = k) xs = Some x \<longleftrightarrow> x \<in> set xs \<and> f x = k"
  using assms by (induction xs) auto

lemma find_view:
  assumes "distinct (map f xs)" and "\<And>x. x \<in> set xs \<longleftrightarrow> f x \<noteq> me \<and> v (f x) = Some x"
    and "\<And>x. v k = Some x \<Longrightarrow> f x = k"
  shows "List.find (\<lambda>x. f x = k) xs = (if k = me then None else v k)"
proof (cases "List.find (\<lambda>x. f x = k) xs")
  case None
  then have no: "\<And>x. x \<in> set xs \<Longrightarrow> f x \<noteq> k" by (auto simp: find_None_iff)
  have "k = me \<or> v k = None" using no assms(2,3) by (cases "v k") blast+
  with None show ?thesis by auto
next
  case (Some x)
  then have "x \<in> set xs" "f x = k" using find_unique [OF assms(1)] by auto
  with Some assms(2) show ?thesis by auto
qed

lemma others_in_find:
  assumes "presence_ok s"
  shows "List.find (\<lambda>mp. mp_pubkey mp = pk) (others_in g r me s) = (if pk = me then None else guild_view s g r pk)"
  by (rule find_view [OF others_in_distinct [OF assms] others_in_view [OF assms]])
    (use ok_get(1) [OF assms] in \<open>auto simp: guild_view_def\<close>)

lemma others_of_user_find:
  assumes "presence_ok s"
  shows "List.find (\<lambda>mp. mp_pubkey mp = pk) (others_of_user u me s) = (if pk = me then None else user_view s u pk)"
  by (rule find_view [OF others_of_user_distinct [OF assms] others_of_user_view [OF assms]])
    (use ok_get(2) [OF assms] in \<open>auto simp: user_view_def\<close>)

text \<open>The caller's networks a device is present in, and the record a network becomes in a seed.\<close>

definition shared_with ::
  "register_req \<Rightarrow> mship \<Rightarrow> presence \<Rightarrow> key \<Rightarrow> ((u64 \<times> u64) \<times> string) list" where
  "shared_with req m p pk =
     filter (\<lambda>((g, r), nm). pk \<noteq> rq_wg_pubkey req \<and> guild_view p g r pk \<noteq> None) (zip (ms_held m) (ms_network_names m))"

definition net_of :: "mship \<Rightarrow> (u64 \<times> u64) \<times> string \<Rightarrow> shared_network" where
  "net_of m h = (case h of ((g, r), nm) \<Rightarrow>
     \<lparr>sh_name = nm, sh_community = community_name m g, sh_guild_id = g, sh_role_id = r\<rparr>)"

lemma network_comembers_get:
  assumes "presence_ok p"
  shows "tget (network_comembers req m p ((g, r), nm) tab) pk =
    (if pk \<noteq> rq_wg_pubkey req \<and> guild_view p g r pk \<noteq> None
     then Some (joined_with (net_of m ((g, r), nm)) g (the (guild_view p g r pk)) (tget tab pk)) else tget tab pk)"
  using others_in_find [OF assms, of pk g r "rq_wg_pubkey req"]
  by (auto simp: network_comembers_def fold_comember_get [OF others_in_distinct [OF assms]] net_of_def
      split: option.splits)

lemma network_comembers_tok: "tok tab \<Longrightarrow> tok (network_comembers req m p h tab)"
  by (simp add: network_comembers_def case_prod_unfold Let_def fold_comember_tok)

definition comember_ok ::
  "register_req \<Rightarrow> mship \<Rightarrow> presence \<Rightarrow> ((u64 \<times> u64) \<times> string) list \<Rightarrow> key \<Rightarrow> comember option \<Rightarrow> bool" where
  "comember_ok req m p shared pk c \<longleftrightarrow>
     (case c of
        None \<Rightarrow> shared = []
      | Some (mp, nets, gs) \<Rightarrow> shared \<noteq> [] \<and> set nets = net_of m ` set shared \<and> sorted gs \<and> distinct gs \<and>
          set gs = (\<lambda>h. fst (fst h)) ` set shared \<and>
          (\<exists>g r nm. ((g, r), nm) \<in> set shared \<and> guild_view p g r pk = Some mp))"

lemma joined_with_ok:
  assumes "comember_ok req m p shared pk old" and "guild_view p g r pk = Some mp"
  shows "comember_ok req m p (shared @ [((g, r), nm)]) pk
     (Some (joined_with (net_of m ((g, r), nm)) g mp old))"
proof (cases old)
  case None
  with assms show ?thesis by (auto simp: comember_ok_def joined_with_def)
next
  case (Some c)
  then obtain mp0 nets gs where c: "old = Some (mp0, nets, gs)" by (cases c) auto
  with assms obtain g' r' nm' where w: "((g', r'), nm') \<in> set shared" "guild_view p g' r' pk = Some mp0"
    by (auto simp: comember_ok_def)
  from assms(1) show ?thesis
    using w by (auto simp: comember_ok_def joined_with_def c set_insort_insert sorted_insort_insert
        distinct_insort_insert)
qed

lemma network_fold_ok:
  assumes "presence_ok p"
  shows "tok (fold (network_comembers req m p) L []) \<and>
    comember_ok req m p (filter (\<lambda>((g, r), nm). pk \<noteq> rq_wg_pubkey req \<and> guild_view p g r pk \<noteq> None) L) pk
      (tget (fold (network_comembers req m p) L []) pk)"
proof (induction L rule: rev_induct)
  case (snoc h L)
  obtain g r nm where h: "h = ((g, r), nm)" by (metis prod.exhaust)
  let ?t = "fold (network_comembers req m p) L []"
  have "tok (network_comembers req m p h ?t)" using snoc by (blast intro: network_comembers_tok)
  moreover have "comember_ok req m p (filter (\<lambda>((g, r), nm). pk \<noteq> rq_wg_pubkey req \<and> guild_view p g r pk \<noteq> None)
      (L @ [h])) pk (tget (network_comembers req m p h ?t) pk)"
  proof (cases "pk \<noteq> rq_wg_pubkey req \<and> guild_view p g r pk \<noteq> None")
    case True
    then obtain mp where "guild_view p g r pk = Some mp" by blast
    with True joined_with_ok [OF conjunct2 [OF snoc]] show ?thesis
      by (simp add: h network_comembers_get [OF assms])
  next
    case False
    with snoc show ?thesis by (auto simp: h network_comembers_get [OF assms])
  qed
  ultimately show ?case by simp
qed (simp add: comember_ok_def)

lemma fold_own_get:
  assumes "distinct (map mp_pubkey mps)"
  shows "tget (fold (add_own gs) mps tab) pk =
    (case tget tab pk of Some c \<Rightarrow> Some c
     | None \<Rightarrow> map_option (\<lambda>mp. (mp, [], gs)) (List.find (\<lambda>mp. mp_pubkey mp = pk) mps))"
  using assms
proof (induction mps arbitrary: tab)
  case (Cons mp mps)
  have "List.find (\<lambda>x. mp_pubkey x = mp_pubkey mp) mps = None"
    using Cons.prems by (auto simp: find_None_iff image_iff)
  with Cons show ?case by (auto simp: add_own_def split: option.splits)
qed (simp split: option.splits)

lemma fold_own_tok: "tok tab \<Longrightarrow> tok (fold (add_own gs) mps tab)"
  by (induction mps arbitrary: tab) (simp_all add: add_own_def)

lemma comembers_of_spec:
  assumes "presence_ok p"
  shows "tok (comembers_of req u m gs p) \<and>
    (case tget (comembers_of req u m gs p) pk of
       None \<Rightarrow> shared_with req m p pk = [] \<and>
         (pk = rq_wg_pubkey req \<or> \<not> (rq_peer_own_devices req \<and> has_identity m) \<or> user_view p u pk = None)
     | Some (mp, nets, gs') \<Rightarrow> pk \<noteq> rq_wg_pubkey req \<and>
         (comember_ok req m p (shared_with req m p pk) pk (Some (mp, nets, gs')) \<or>
          shared_with req m p pk = [] \<and> rq_peer_own_devices req \<and> has_identity m \<and> user_view p u pk = Some mp \<and>
          nets = [] \<and> gs' = gs))"
proof -
  let ?t = "fold (network_comembers req m p) (zip (ms_held m) (ms_network_names m)) []"
  have t: "tok ?t" "comember_ok req m p (shared_with req m p pk) pk (tget ?t pk)"
    using network_fold_ok [OF assms, of req m "zip (ms_held m) (ms_network_names m)" pk]
    by (simp_all add: shared_with_def)
  have me: "shared_with req m p (rq_wg_pubkey req) = []" by (simp add: shared_with_def case_prod_unfold)
  show ?thesis
  proof (cases "rq_peer_own_devices req \<and> has_identity m")
    case False
    then have "comembers_of req u m gs p = ?t" by (auto simp: comembers_of_def Let_def)
    with t False me show ?thesis by (auto simp: comember_ok_def split: option.splits)
  next
    case True
    then have eq: "comembers_of req u m gs p = fold (add_own gs) (others_of_user u (rq_wg_pubkey req) p) ?t"
      by (simp add: comembers_of_def Let_def)
    have "tok (comembers_of req u m gs p)" using t(1) by (simp add: eq fold_own_tok)
    with t(2) True me show ?thesis
      unfolding eq fold_own_get [OF others_of_user_distinct [OF assms]] others_of_user_find [OF assms]
      by (auto simp: comember_ok_def split: option.splits)
  qed
qed

subsection \<open>Running an action over a list\<close>

lemma mapA_all:
  assumes step: "\<And>x st y st1. x \<in> set xs \<Longrightarrow> P st \<Longrightarrow> f x st = (Inr y, st1) \<Longrightarrow> P st1 \<and> Q x y st1 \<and> R st st1"
    and mono: "\<And>x y st st1. Q x y st \<Longrightarrow> R st st1 \<Longrightarrow> Q x y st1"
    and refl: "\<And>st. R st st" and trans: "\<And>a b c. R a b \<Longrightarrow> R b c \<Longrightarrow> R a c"
    and start: "P st" and run: "mapA f xs st = (Inr ys, st')"
  shows "P st' \<and> R st st' \<and> list_all2 (\<lambda>x y. Q x y st') xs ys"
  using step start run
proof (induction xs arbitrary: st ys)
  case (Cons x xs)
  from Cons.prems(3) obtain y st1 zs where x: "f x st = (Inr y, st1)" and r: "mapA f xs st1 = (Inr zs, st')"
    and ys: "ys = y # zs" by (auto simp: bindA_Inr)
  have 1: "P st1" "Q x y st1" "R st st1" using Cons.prems(1) [OF _ Cons.prems(2) x] by simp_all
  have 2: "P st'" "R st1 st'" "list_all2 (\<lambda>x y. Q x y st') xs zs"
    using Cons.IH [OF _ 1(1) r] Cons.prems(1) by auto
  show ?case using 1 2 mono [OF 1(2) 2(2)] trans [OF 1(3) 2(2)] by (simp add: ys)
qed (simp add: refl)

subsection \<open>Signing\<close>

text \<open>What signing may change: keys and blobs are only added.\<close>

definition signs_only :: "app \<Rightarrow> app \<Rightarrow> bool" where
  "signs_only st st' \<longleftrightarrow> st' = st\<lparr>a_signing := a_signing st'\<rparr> \<and>
     gks_wg_net (sn_keys (a_signing st')) = gks_wg_net (sn_keys (a_signing st)) \<and>
     gks_ttl (sn_keys (a_signing st')) = gks_ttl (sn_keys (a_signing st)) \<and>
     devices (a_store st') = devices (a_store st) \<and>
     (\<forall>g s. seed_of (a_signing st) g = Some s \<longrightarrow> seed_of (a_signing st') g = Some s)"

lemma signs_only_refl [simp]: "signs_only st st"
  by (simp add: signs_only_def)

lemma signs_only_trans: "signs_only a b \<Longrightarrow> signs_only b c \<Longrightarrow> signs_only a c"
  unfolding signs_only_def by (elim conjE, intro conjI) (metis app.surjective app.update_convs(1), simp_all)

lemma signs_only_keeps:
  assumes "signs_only st st'"
  shows "a_presence st' = a_presence st" "a_versions st' = a_versions st" "a_nat st' = a_nat st"
    "a_roles st' = a_roles st" "a_release st' = a_release st" "a_wakers st' = a_wakers st"
    "a_dns_domain st' = a_dns_domain st" "a_stun_port st' = a_stun_port st"
    "a_release_signed st' = a_release_signed st" "a_roleless st' = a_roleless st"
proof -
  have "st' = st\<lparr>a_signing := a_signing st'\<rparr>" using assms by (simp add: signs_only_def)
  then show "a_presence st' = a_presence st" "a_versions st' = a_versions st" "a_nat st' = a_nat st"
    "a_roles st' = a_roles st" "a_release st' = a_release st" "a_wakers st' = a_wakers st"
    "a_dns_domain st' = a_dns_domain st" "a_stun_port st' = a_stun_port st"
    "a_release_signed st' = a_release_signed st" "a_roleless st' = a_roleless st"
    by (metis app.select_convs app.surjective app.update_convs(1))+
qed

definition env_inv :: "env \<Rightarrow> app \<Rightarrow> bool" where
  "env_inv ev st \<longleftrightarrow> signing_inv (e_crypto ev) (e_att ev) (e_signed ev) (a_signing st) \<and>
     time_ok (a_signing st) (e_now ev) (e_clock ev)"

abbreviation vouchedA :: "env \<Rightarrow> u64 \<Rightarrow> att_identity \<Rightarrow> u32 \<Rightarrow> string \<Rightarrow> app \<Rightarrow> bool" where
  "vouchedA ev g i schema blob st \<equiv>
     vouched (e_crypto ev) (e_att ev) (e_signed ev) (a_signing st) g i (e_now ev) schema blob"

lemma vouchedA_mono: "vouchedA ev g i schema blob st \<Longrightarrow> signs_only st st1 \<Longrightarrow> vouchedA ev g i schema blob st1"
  by (rule vouched_mono) (auto simp: signs_only_def)

lemma cached_attestation_devices:
  "cached_attestation c k sk g i now clock schema fresh sn = (res, sn') \<Longrightarrow>
   devices (sn_store sn') = devices (sn_store sn)"
  by (auto simp: cached_attestation_def keys_get_def load_or_create_seed_def Let_def
      split: option.splits sum.splits if_splits)

lemma signA_step:
  assumes "env_inv ev st" and "crypto_ok (e_crypto ev) (e_att ev) (e_signed ev)"
    and "gks_ttl (sn_keys (a_signing st)) \<noteq> 0" and "signA ev g i schema st = (Inr blob, st1)"
  shows "env_inv ev st1 \<and> vouchedA ev g i schema blob st1 \<and> signs_only st st1"
proof -
  obtain sn where c: "cached_attestation (e_crypto ev) (e_att ev) (e_signed ev) g i (e_now ev) (e_clock ev) schema
      (e_fresh_seed ev g) (a_signing st) = (Inr blob, sn)" and st1: "st1 = st\<lparr>a_signing := sn\<rparr>"
    using assms(4) by (auto simp: signA_def split: prod.splits sum.splits)
  note s = cached_attestation_step [OF conjunct1 [OF assms(1) [unfolded env_inv_def]]
      conjunct2 [OF assms(1) [unfolded env_inv_def]] c]
  then obtain u stamp where "blob_for (e_crypto ev) (e_att ev) (e_signed ev) sn g (i\<lparr>id_user_id := u\<rparr>) stamp schema blob"
    "unat (e_now ev) \<le> unat stamp + unat (gks_ttl (sn_keys sn)) div 2" by blast
  then have "vouchedA ev g i schema blob st1"
    using blob_vouched [OF assms(2)] s assms(3) by (simp add: st1)
  moreover have "signs_only st st1"
    using s cached_attestation_devices [OF c] by (simp add: st1 signs_only_def)
  ultimately show ?thesis using s assms(1) by (auto simp: env_inv_def time_ok_def st1)
qed

lemma keysA_step:
  assumes "env_inv ev st" and "keysA ev g st = (res, st1)"
  shows "env_inv ev st1 \<and> signs_only st st1 \<and>
    (\<forall>gk. res = Inr gk \<longrightarrow> (\<exists>seed. seed_of (a_signing st1) g = Some seed \<and>
       gk_signer gk = signer_from_seed seed g (gks_wg_net (sn_keys (a_signing st1))) (gks_ttl (sn_keys (a_signing st1)))))"
proof -
  let ?sn = "a_signing st"
  obtain r ks s where k: "keys_get g (e_fresh_seed ev g) (sn_keys ?sn) (sn_store ?sn) = (r, ks, s)"
    by (metis prod.exhaust)
  let ?sn1 = "?sn\<lparr>sn_keys := ks, sn_store := s\<rparr>"
  have st1: "st1 = st\<lparr>a_signing := ?sn1\<rparr>" "res = orInternal r"
    using assms(2) k by (auto simp: keysA_def Let_def)
  have inv: "keys_inv ?sn" "cache_inv (e_crypto ev) (e_att ev) (e_signed ev) ?sn"
    using assms(1) by (simp_all add: env_inv_def signing_inv_def)
  note kg = keys_get_spec [OF inv(1) k]
  have "blob_for (e_crypto ev) (e_att ev) (e_signed ev) ?sn1 h i stamp schema blob"
    if "blob_for (e_crypto ev) (e_att ev) (e_signed ev) ?sn h i stamp schema blob" for h i stamp schema blob
    using kg(2-4) that by (intro blob_for_mono [where sn = ?sn and sn' = ?sn1]) simp_all
  then have "cache_inv (e_crypto ev) (e_att ev) (e_signed ev) ?sn1"
    using inv(2) kg(3) by (simp add: cache_inv_def) blast
  moreover have "devices s = devices (sn_store ?sn)"
    using k by (auto simp: keys_get_def load_or_create_seed_def Let_def split: option.splits sum.splits if_splits)
  ultimately show ?thesis
    using kg assms(1) by (auto simp: st1 env_inv_def signing_inv_def signs_only_def time_ok_def)
qed

lemma base64A_step: "base64A ev r st = (Inr b, st1) \<longleftrightarrow>
    (\<exists>s. r = Inr s \<and> to_base64 (e_crypto ev) (e_signed ev) s = Some b) \<and> st1 = st"
  by (auto simp: base64A_def split: sum.splits option.splits)

text \<open>The attestations of one device, one per guild in \<open>gs\<close>, as a client will read them.\<close>

definition attests :: "env \<Rightarrow> att_identity \<Rightarrow> u64 list \<Rightarrow> guild_attestation list \<Rightarrow> app \<Rightarrow> bool" where
  "attests ev i gs atts st \<longleftrightarrow>
     list_all2 (\<lambda>g ga. ga_att_schema ga = ATTESTATION_SCHEMA_V2 \<and>
       vouchedA ev g i ATTESTATION_SCHEMA_V2 (ga_attestation ga) st) gs atts"

lemma attests_mono: "attests ev i gs atts st \<Longrightarrow> signs_only st st1 \<Longrightarrow> attests ev i gs atts st1"
  unfolding attests_def by (erule list_all2_mono) (blast intro: vouchedA_mono)

definition ready :: "env \<Rightarrow> app \<Rightarrow> bool" where
  "ready ev st \<longleftrightarrow> env_inv ev st \<and> crypto_ok (e_crypto ev) (e_att ev) (e_signed ev) \<and>
     gks_ttl (sn_keys (a_signing st)) \<noteq> 0"

lemma ready_step: "ready ev st \<Longrightarrow> env_inv ev st1 \<Longrightarrow> signs_only st st1 \<Longrightarrow> ready ev st1"
  by (auto simp: ready_def signs_only_def)

lemma grant_attestation_step:
  assumes "ready ev st" and "grant_attestation ev req u dev m ATTESTATION_SCHEMA_V2 g st = (Inr ga, st1)"
  shows "ready ev st1 \<and> (ga_att_schema ga = ATTESTATION_SCHEMA_V2 \<and>
      vouchedA ev g (identity_of (presence_of req u dev (ms_username m))) ATTESTATION_SCHEMA_V2 (ga_attestation ga) st1) \<and>
    signs_only st st1"
proof -
  let ?i = "identity_of (presence_of req u dev (ms_username m))"
  have id: "\<lparr>id_user_id = u, id_username = ms_username m, id_device_name = dv_name dev,
      id_is_primary = dv_is_primary dev, id_ip = dv_ip dev, id_pubkey = rq_wg_pubkey req\<rparr> = ?i"
    by (simp add: identity_of_def presence_of_def)
  obtain gk blob s where k: "keysA ev g st = (Inr gk, st1)"
    and sg: "signer_sign (e_crypto ev) (e_att ev) (gk_signer gk) ?i (e_clock ev) ATTESTATION_SCHEMA_V2 = Inr s"
    and b: "to_base64 (e_crypto ev) (e_signed ev) s = Some blob"
    and ga: "ga_attestation ga = blob" "ga_att_schema ga = ATTESTATION_SCHEMA_V2"
    using assms(2) by (auto simp: grant_attestation_def bindA_Inr base64A_step id)
  have ei: "env_inv ev st" using assms(1) by (simp add: ready_def)
  note ks = keysA_step [OF ei k]
  have rd: "ready ev st1" using ready_step assms(1) ks by blast
  obtain seed where seed: "seed_of (a_signing st1) g = Some seed"
    "gk_signer gk = signer_from_seed seed g (gks_wg_net (sn_keys (a_signing st1))) (gks_ttl (sn_keys (a_signing st1)))"
    using ks by auto
  have t: "unat (e_now ev) \<le> unat (e_clock ev)"
    "unat (e_clock ev) + unat (gks_ttl (sn_keys (a_signing st1))) < 2 ^ 64"
    using ks by (auto simp: env_inv_def time_ok_def)
  have full: "?i\<lparr>id_user_id := u\<rparr> = ?i" by (simp add: identity_of_def presence_of_def)
  have "blob_for (e_crypto ev) (e_att ev) (e_signed ev) (a_signing st1) g ?i (e_now ev) ATTESTATION_SCHEMA_V2 blob"
    unfolding blob_for_def using seed sg b t by auto
  then have "vouchedA ev g ?i ATTESTATION_SCHEMA_V2 blob st1"
    using rd blob_vouched [where i = ?i and u = u and sn = "a_signing st1" and g = g and stamp = "e_now ev" and now = "e_now ev"]
    unfolding full by (simp add: ready_def)
  with rd ga ks show ?thesis by simp
qed

lemma build_grant_spec:
  assumes "ready ev st" and "build_grant ev req u dev m ATTESTATION_SCHEMA_V2 st = (Inr gr, st1)"
  shows "ready ev st1 \<and> signs_only st st1 \<and>
    (case gr of
       None \<Rightarrow> \<not> has_identity m
     | Some g \<Rightarrow> has_identity m \<and> gr_networks g = ms_network_names m \<and>
         attests ev (identity_of (presence_of req u dev (ms_username m))) (ms_guilds m) (gr_attestations g) st1)"
proof (cases "has_identity m")
  case False
  with assms show ?thesis by (simp add: build_grant_def)
next
  case True
  then obtain atts where m: "mapA (grant_attestation ev req u dev m ATTESTATION_SCHEMA_V2) (ms_guilds m) st = (Inr atts, st1)"
    and gr: "gr = Some \<lparr>gr_attestations = atts, gr_networks = ms_network_names m\<rparr>"
    using assms(2) by (auto simp: build_grant_def bindA_Inr)
  have "ready ev st1 \<and> signs_only st st1 \<and> list_all2 (\<lambda>g ga. ga_att_schema ga = ATTESTATION_SCHEMA_V2 \<and>
      vouchedA ev g (identity_of (presence_of req u dev (ms_username m))) ATTESTATION_SCHEMA_V2 (ga_attestation ga) st1)
      (ms_guilds m) atts"
    by (rule mapA_all [where P = "ready ev" and R = signs_only, OF _ _ _ _ assms(1) m])
      (use grant_attestation_step vouchedA_mono signs_only_trans in \<open>blast intro: signs_only_refl\<close>)+
  with True gr show ?thesis by (simp add: attests_def)
qed

lemma peer_seed_step:
  assumes "ready ev st" and "peer_seed ev req m t cands ATTESTATION_SCHEMA_V2 (pk0, mp, nets, gs) st = (Inr (pk, sd), st1)"
  shows "ready ev st1 \<and> (pk = mp_pubkey mp \<and> sd = assemble_seed ev req t cands mp nets (sd_attestations sd) \<and>
      attests ev (identity_of mp) gs (sd_attestations sd) st1) \<and> signs_only st st1"
proof -
  let ?f = "\<lambda>g. bindA (signA ev g (identity_of mp) ATTESTATION_SCHEMA_V2) (\<lambda>blob.
      retA \<lparr>ga_attestation = blob, ga_community_name = community_name m g, ga_att_schema = ATTESTATION_SCHEMA_V2\<rparr>)"
  obtain atts where a: "mapA ?f gs st = (Inr atts, st1)"
    and eq: "pk = mp_pubkey mp" "sd = assemble_seed ev req t cands mp nets atts"
    using assms(2) by (auto simp: peer_seed_def bindA_Inr)
  have one: "ready ev s1 \<and> (ga_att_schema y = ATTESTATION_SCHEMA_V2 \<and>
      vouchedA ev g (identity_of mp) ATTESTATION_SCHEMA_V2 (ga_attestation y) s1) \<and> signs_only s s1"
    if r: "ready ev s" and run: "?f g s = (Inr y, s1)" for g s y s1
  proof -
    obtain blob where b: "signA ev g (identity_of mp) ATTESTATION_SCHEMA_V2 s = (Inr blob, s1)"
      "ga_attestation y = blob" "ga_att_schema y = ATTESTATION_SCHEMA_V2"
      using run by (auto simp: bindA_Inr)
    from signA_step [OF _ _ _ b(1)] r b(2,3) ready_step [OF r] show ?thesis by (simp add: ready_def)
  qed
  have "ready ev st1 \<and> signs_only st st1 \<and> list_all2 (\<lambda>g ga. ga_att_schema ga = ATTESTATION_SCHEMA_V2 \<and>
      vouchedA ev g (identity_of mp) ATTESTATION_SCHEMA_V2 (ga_attestation ga) st1) gs atts"
    by (rule mapA_all [where P = "ready ev" and R = signs_only, OF _ _ _ _ assms(1) a])
      (use one vouchedA_mono signs_only_trans in \<open>blast intro: signs_only_refl\<close>)+
  moreover have "sd_attestations sd = atts" by (simp add: eq(2) assemble_seed_def Let_def)
  ultimately show ?thesis using eq by (simp add: attests_def)
qed

definition seed_ok ::
  "env \<Rightarrow> register_req \<Rightarrow> nat_tables \<Rightarrow> relay_candidate list \<Rightarrow> key \<times> comember \<Rightarrow> key \<times> seed \<Rightarrow> app \<Rightarrow> bool" where
  "seed_ok ev req t cands entry out st \<longleftrightarrow>
     (case entry of (_, mp, nets, gs) \<Rightarrow> case out of (pk, sd) \<Rightarrow>
        pk = mp_pubkey mp \<and> sd = assemble_seed ev req t cands mp nets (sd_attestations sd) \<and>
        attests ev (identity_of mp) gs (sd_attestations sd) st)"

lemma seed_ok_mono: "seed_ok ev req t cands e y st \<Longrightarrow> signs_only st st1 \<Longrightarrow> seed_ok ev req t cands e y st1"
  by (auto simp: seed_ok_def intro: attests_mono)

lemma build_seeds_spec:
  assumes "ready ev st" and "build_seeds ev req u m gs ATTESTATION_SCHEMA_V2 st = (Inr (all, wakes), st1)"
    and "record_peer_reports req (tkeys (comembers_of req u m gs (a_presence st))) (a_nat st) [] = (t, ws)"
  shows "wakes = ws \<and> ready ev st1 \<and> signs_only (st\<lparr>a_nat := t\<rparr>) st1 \<and>
    list_all2 (\<lambda>e y. seed_ok ev req t (relay_candidates (nt_relays t) (comembers_of req u m gs (a_presence st))) e y st1)
      (comembers_of req u m gs (a_presence st)) all"
proof -
  let ?tab = "comembers_of req u m gs (a_presence st)"
  let ?c = "relay_candidates (nt_relays t) ?tab"
  have a: "mapA (peer_seed ev req m t ?c ATTESTATION_SCHEMA_V2) ?tab (st\<lparr>a_nat := t\<rparr>) = (Inr all, st1)"
    and w: "wakes = ws"
    using assms(2,3) by (auto simp: build_seeds_def bindA_Inr Let_def)
  have r: "ready ev (st\<lparr>a_nat := t\<rparr>)" using assms(1) by (simp add: ready_def env_inv_def)
  have "ready ev st1 \<and> signs_only (st\<lparr>a_nat := t\<rparr>) st1 \<and>
      list_all2 (\<lambda>e y. seed_ok ev req t ?c e y st1) ?tab all"
  proof (rule mapA_all [where P = "ready ev" and R = signs_only, OF _ _ _ _ r a])
    fix e s y s1
    assume r: "ready ev s" and run: "peer_seed ev req m t ?c ATTESTATION_SCHEMA_V2 e s = (Inr y, s1)"
    obtain pk0 mp nets gs' pk sd where e: "e = (pk0, mp, nets, gs')" and y: "y = (pk, sd)" by (metis prod.exhaust)
    from peer_seed_step [OF r run [unfolded e y]]
    show "ready ev s1 \<and> seed_ok ev req t ?c e y s1 \<and> signs_only s s1"
      by (simp add: seed_ok_def e y)
  qed (auto intro: seed_ok_mono signs_only_trans)
  with w show ?thesis by simp
qed

text \<open>The guilds a device's seed is attested under.\<close>

definition seed_guilds :: "register_req \<Rightarrow> mship \<Rightarrow> presence \<Rightarrow> key \<Rightarrow> u64 set" where
  "seed_guilds req m p pk =
     (if shared_with req m p pk = [] then set (ms_guilds m) else (\<lambda>h. fst (fst h)) ` set (shared_with req m p pk))"

text \<open>Whether the caller's own-device peering reaches the device.\<close>

definition own_sibling :: "register_req \<Rightarrow> u64 \<Rightarrow> mship \<Rightarrow> presence \<Rightarrow> key \<Rightarrow> bool" where
  "own_sibling req u m p pk \<longleftrightarrow> pk \<noteq> rq_wg_pubkey req \<and> rq_peer_own_devices req \<and> has_identity m \<and> user_view p u pk \<noteq> None"

text \<open>How the device presents itself: in one of the shared networks, or else as an own device.\<close>

definition presents :: "register_req \<Rightarrow> u64 \<Rightarrow> mship \<Rightarrow> presence \<Rightarrow> key \<Rightarrow> member_presence \<Rightarrow> bool" where
  "presents req u m p pk mp \<longleftrightarrow>
     (if shared_with req m p pk = [] then user_view p u pk = Some mp
      else \<exists>g r nm. ((g, r), nm) \<in> set (shared_with req m p pk) \<and> guild_view p g r pk = Some mp)"

lemma comember_facts:
  assumes "presence_ok p" and "(pk, mp, nets, gs) \<in> set (comembers_of req u m (ms_guilds m) p)"
  shows "(shared_with req m p pk \<noteq> [] \<or> own_sibling req u m p pk) \<and> pk \<noteq> rq_wg_pubkey req \<and> mp_pubkey mp = pk \<and>
    set nets = net_of m ` set (shared_with req m p pk) \<and> set gs = seed_guilds req m p pk \<and> presents req u m p pk mp"
proof -
  have "tget (comembers_of req u m (ms_guilds m) p) pk = Some (mp, nets, gs)"
    using comembers_of_spec [OF assms(1)] assms(2) by (blast intro: tget_SomeI)
  with comembers_of_spec [OF assms(1), of req u m "ms_guilds m" pk]
  have c: "pk \<noteq> rq_wg_pubkey req" "comember_ok req m p (shared_with req m p pk) pk (Some (mp, nets, gs)) \<or>
      shared_with req m p pk = [] \<and> rq_peer_own_devices req \<and> has_identity m \<and> user_view p u pk = Some mp \<and>
      nets = [] \<and> gs = ms_guilds m" by auto
  have "mp_pubkey mp = pk"
    using c(2) ok_get [OF assms(1)] by (auto simp: comember_ok_def guild_view_def user_view_def)
  with c show ?thesis
    by (auto simp: comember_ok_def own_sibling_def seed_guilds_def presents_def)
qed

lemma comember_keys:
  assumes "presence_ok p"
  shows "distinct (tkeys (comembers_of req u m (ms_guilds m) p)) \<and>
    (pk \<in> set (tkeys (comembers_of req u m (ms_guilds m) p)) \<longleftrightarrow>
       shared_with req m p pk \<noteq> [] \<or> own_sibling req u m p pk)"
proof -
  have tk: "tok (comembers_of req u m (ms_guilds m) p)" using comembers_of_spec [OF assms] by blast
  have "shared_with req m p (rq_wg_pubkey req) = []" by (simp add: shared_with_def case_prod_unfold)
  with comembers_of_spec [OF assms, of req u m "ms_guilds m" pk] tk show ?thesis
    by (auto simp: set_tkeys tok_distinct_tkeys own_sibling_def comember_ok_def split: option.splits)
qed

text \<open>Attestations outlast whatever keeps the guild keys.\<close>

definition keys_grow :: "app \<Rightarrow> app \<Rightarrow> bool" where
  "keys_grow st st' \<longleftrightarrow> gks_wg_net (sn_keys (a_signing st')) = gks_wg_net (sn_keys (a_signing st)) \<and>
     gks_ttl (sn_keys (a_signing st')) = gks_ttl (sn_keys (a_signing st)) \<and>
     (\<forall>g s. seed_of (a_signing st) g = Some s \<longrightarrow> seed_of (a_signing st') g = Some s)"

lemma attests_grow: "attests ev i gs atts st \<Longrightarrow> keys_grow st st' \<Longrightarrow> attests ev i gs atts st'"
  unfolding attests_def by (erule list_all2_mono) (auto simp: keys_grow_def intro: vouched_mono)

lemma signs_grow: "signs_only st st' \<Longrightarrow> keys_grow st st'"
  by (simp add: signs_only_def keys_grow_def)

lemma keys_grow_trans: "keys_grow a b \<Longrightarrow> keys_grow b c \<Longrightarrow> keys_grow a c"
  by (simp add: keys_grow_def)

lemma token_grow: "dbA err (device_token pk fresh) st = (res, st') \<Longrightarrow> keys_grow st st'"
  by (auto simp: dbA_eq device_token_def keys_grow_def seed_of_def set_store_def update_device_def split: option.splits)

lemma snapshot_read_spec:
  assumes "presence_ok (a_presence st)" and "ready ev st" and "snapshot_read ev req cl st = (Inr rd, st')"
  defines "m \<equiv> cl_m cl" and "p \<equiv> a_presence st"
  shows "distinct (map fst (rd_seeds rd)) \<and>
    (\<forall>pk. pk \<in> fst ` set (rd_seeds rd) \<longleftrightarrow> shared_with req m p pk \<noteq> [] \<or> own_sibling req (cl_user cl) m p pk) \<and>
    (\<forall>pk sd. (pk, sd) \<in> set (rd_seeds rd) \<longrightarrow> pk \<noteq> rq_wg_pubkey req \<and>
       set (sd_networks sd) = net_of m ` set (shared_with req m p pk) \<and>
       (\<exists>mp gs. presents req (cl_user cl) m p pk mp \<and> mp_pubkey mp = pk \<and> sd_endpoint sd = mp_endpoint mp \<and>
          set gs = seed_guilds req m p pk \<and> attests ev (identity_of mp) gs (sd_attestations sd) st')) \<and>
    (case rd_grant rd of
       None \<Rightarrow> \<not> has_identity m
     | Some g \<Rightarrow> has_identity m \<and>
         attests ev (identity_of (presence_of req (cl_user cl) (cl_device cl) (ms_username m))) (ms_guilds m)
           (gr_attestations g) st')"
proof -
  let ?u = "cl_user cl"
  obtain st1 st2 wakes where g: "build_grant ev req ?u (cl_device cl) m ATTESTATION_SCHEMA_V2 st = (Inr (rd_grant rd), st1)"
    and b: "build_seeds ev req ?u m (ms_guilds m) ATTESTATION_SCHEMA_V2 st1 = (Inr (rd_seeds rd, wakes), st2)"
    and t: "keys_grow st2 st'"
    using assms(3) unfolding snapshot_read_def m_def
    by (auto simp: bindA_Inr keys_grow_def dest: token_grow split: if_splits prod.splits)
  note gs = build_grant_spec [OF assms(2) g]
  have p1: "a_presence st1 = p" using gs signs_only_keeps(1) by (simp add: p_def)
  obtain nt ws where rec: "record_peer_reports req (tkeys (comembers_of req ?u m (ms_guilds m) (a_presence st1)))
      (a_nat st1) [] = (nt, ws)" by fastforce
  note bs = build_seeds_spec [OF conjunct1 [OF gs] b rec]
  let ?tab = "comembers_of req ?u m (ms_guilds m) p"
  have pt: "tkeys ?tab = map fst ?tab" by (simp add: tkeys_def)
  have ok: "presence_ok p" using assms(1) by (simp add: p_def)
  have l2: "list_all2 (\<lambda>e y. seed_ok ev req nt (relay_candidates (nt_relays nt) ?tab) e y st2) ?tab (rd_seeds rd)"
    using bs by (simp add: p1)
  have "list_all2 (\<lambda>e y. fst e = fst y) ?tab (rd_seeds rd)"
    by (rule list.rel_mono_strong [OF l2]) (auto simp: seed_ok_def dest: comember_facts [OF ok])
  then have "list_all2 (=) (map fst ?tab) (map fst (rd_seeds rd))" by (simp add: list_all2_map1 list_all2_map2)
  then have keys: "map fst (rd_seeds rd) = tkeys ?tab" by (simp add: list.rel_eq tkeys_def)
  have each: "pk \<noteq> rq_wg_pubkey req \<and> set (sd_networks sd) = net_of m ` set (shared_with req m p pk) \<and>
      (\<exists>mp gs. presents req ?u m p pk mp \<and> mp_pubkey mp = pk \<and> sd_endpoint sd = mp_endpoint mp \<and>
         set gs = seed_guilds req m p pk \<and> attests ev (identity_of mp) gs (sd_attestations sd) st')"
    if sd: "(pk, sd) \<in> set (rd_seeds rd)" for pk sd
  proof -
    obtain i where i: "i < length (rd_seeds rd)" "rd_seeds rd ! i = (pk, sd)" using sd by (auto simp: in_set_conv_nth)
    obtain pk0 mp nets gs where "?tab ! i = (pk0, mp, nets, gs)" by (metis prod.exhaust)
    then have e: "(pk0, mp, nets, gs) \<in> set ?tab"
      and so: "seed_ok ev req nt (relay_candidates (nt_relays nt) ?tab) (pk0, mp, nets, gs) (pk, sd) st2"
      using l2 i by (auto simp: list_all2_conv_all_nth in_set_conv_nth)
    note f = comember_facts [OF ok e]
    have s: "pk = pk0" "sd_networks sd = nets" "sd_endpoint sd = mp_endpoint mp"
      "attests ev (identity_of mp) gs (sd_attestations sd) st2"
    proof -
      show "pk = pk0" using so f by (simp add: seed_ok_def)
      from so have sd: "sd = assemble_seed ev req nt (relay_candidates (nt_relays nt) ?tab) mp nets (sd_attestations sd)"
        by (simp add: seed_ok_def)
      show "sd_networks sd = nets" "sd_endpoint sd = mp_endpoint mp"
        by (subst sd, simp add: assemble_seed_def Let_def)+
      show "attests ev (identity_of mp) gs (sd_attestations sd) st2" using so by (simp add: seed_ok_def)
    qed
    then show ?thesis using f attests_grow [OF s(4) t] by blast
  qed
  have grow: "keys_grow st1 st'"
    using signs_grow [of "st1\<lparr>a_nat := nt\<rparr>" st2] bs t by (auto simp: keys_grow_def)
  have grant: "case rd_grant rd of None \<Rightarrow> \<not> has_identity m
     | Some g \<Rightarrow> has_identity m \<and>
         attests ev (identity_of (presence_of req ?u (cl_device cl) (ms_username m))) (ms_guilds m) (gr_attestations g) st'"
    using gs grow by (auto split: option.splits intro: attests_grow)
  have "distinct (map fst (rd_seeds rd))" using comember_keys [OF ok] by (simp add: keys)
  moreover have "\<forall>pk. pk \<in> fst ` set (rd_seeds rd) \<longleftrightarrow> shared_with req m p pk \<noteq> [] \<or> own_sibling req ?u m p pk"
    using comember_keys [OF ok] keys by (metis list.set_map)
  ultimately show ?thesis using each grant by blast
qed

text \<open>C8 (seeds_are_comembers).
  What a caller is told about others is exactly its co-membership: every device present in one of
  its enabled networks, and its owner's other devices where it asked for them, each once and
  never itself. A seed names the networks shared and no other, and carries one attestation per
  guild shared (or, for a device that shares none, per guild of the caller), each of which a client
  reads under that guild's anchor, now, as the device's own address, name and key, with at least
  half of its lifetime left. The caller's own grant is attested the same way, and is given exactly
  to callers with an identity.\<close>

theorem seeds_are_comembers:
  assumes "presence_ok (a_presence st)" and "ready ev st" and "snapshot_read ev req cl st = (Inr rd, st')"
  defines "m \<equiv> cl_m cl" and "p \<equiv> a_presence st"
  shows "distinct (map fst (rd_seeds rd)) \<and>
    (\<forall>pk. pk \<in> fst ` set (rd_seeds rd) \<longleftrightarrow> shared_with req m p pk \<noteq> [] \<or> own_sibling req (cl_user cl) m p pk) \<and>
    (\<forall>pk sd. (pk, sd) \<in> set (rd_seeds rd) \<longrightarrow> pk \<noteq> rq_wg_pubkey req \<and>
       set (sd_networks sd) = net_of m ` set (shared_with req m p pk) \<and>
       (\<exists>mp gs. presents req (cl_user cl) m p pk mp \<and> mp_pubkey mp = pk \<and> sd_endpoint sd = mp_endpoint mp \<and>
          set gs = seed_guilds req m p pk \<and> attests ev (identity_of mp) gs (sd_attestations sd) st')) \<and>
    (case rd_grant rd of
       None \<Rightarrow> \<not> has_identity m
     | Some g \<Rightarrow> has_identity m \<and>
         attests ev (identity_of (presence_of req (cl_user cl) (cl_device cl) (ms_username m))) (ms_guilds m)
           (gr_attestations g) st')"
  unfolding m_def p_def by (rule snapshot_read_spec [OF assms(1-3)])

subsection \<open>A deployment of two devices\<close>

definition pair_codec :: "'a \<Rightarrow> 'a \<Rightarrow> 'a codec" where
  "pair_codec a b = \<lparr>enc = (\<lambda>x. if x = a then Some [1] else if x = b then Some [2] else None),
     dec_of = (\<lambda>y. if y = [1] then Some a else if y = [2] then Some b else None)\<rparr>"

lemma pair_codec_ok [simp]: "codec_ok (pair_codec a b)"
  by (auto simp: codec_ok_def pair_codec_def)

definition demo_key :: "u8 \<Rightarrow> key" where "demo_key b = replicate 32 b"

definition demo_peer :: "u8 \<Rightarrow> string \<Rightarrow> member_presence" where
  "demo_peer b name = \<lparr>mp_pubkey = demo_key b, mp_ip = ipv4_octets 100 72 0 9, mp_user_id = 7,
     mp_username = ''alice'', mp_device_name = name, mp_is_primary = False, mp_endpoint = None\<rparr>"

definition demo_attestation :: "u8 \<Rightarrow> string \<Rightarrow> attestation" where
  "demo_attestation b name =
     signer_attestation (signer_from_seed (replicate 32 9) 1 demo_net 1800) (identity_of (demo_peer b name)) 100"

definition snap_env :: env where
  "snap_env = demo_env\<lparr>e_att :=
     \<lparr>codec_v1 = one_codec demo_att [1],
      codec_v2 = pair_codec (v2_from_att (demo_attestation 1 ''nas'')) (v2_from_att (demo_attestation 2 ''tv''))\<rparr>\<rparr>"

definition demo_mship :: mship where
  "demo_mship = \<lparr>ms_status = [\<lparr>ns_guild_id = 1, ns_role_id = 2, ns_name = ''net'', ns_guild_name = ''home'', ns_enabled = True\<rparr>],
     ms_held = [(1, 2)], ms_network_names = [''net''], ms_community = [(1, ''home'')], ms_username = ''alice'',
     ms_personal = False\<rparr>"

definition demo_caller :: caller where
  "demo_caller = \<lparr>cl_user = 7, cl_enrolled = True,
     cl_device = \<lparr>dv_ip = ipv4_octets 100 72 0 9, dv_name = ''nas'', dv_is_primary = False\<rparr>, cl_m = demo_mship, cl_changed = []\<rparr>"

definition demo_present :: "(u8 \<times> string) list \<Rightarrow> presence" where
  "demo_present ds = \<lparr>pr_map = map (\<lambda>(b, name). ((1, 2, demo_key b), \<lparr>e_p = demo_peer b name, e_last_seen = 90, e_client_version = []\<rparr>)) ds,
     pr_self = []\<rparr>"

definition demo_snapshot_app :: "(u8 \<times> string) list \<Rightarrow> app" where
  "demo_snapshot_app ds = (demo_app (empty_store\<lparr>networks := [((1, 2), ''net'')]\<rparr>))\<lparr>a_presence := demo_present ds\<rparr>"

lemma demo_key_eq [simp]: "demo_key a = demo_key b \<longleftrightarrow> a = b"
  by (simp add: demo_key_def)

lemma demo_peer_pubkey [simp]: "mp_pubkey (demo_peer b name) = demo_key b"
  by (simp add: demo_peer_def)

lemma snap_sign:
  assumes "(b, name) \<in> {(1, ''nas''), (2, ''tv'')}"
  shows "\<exists>blob s. to_base64 demo_crypto demo_signed_codec s = Some blob \<and>
    signer_sign demo_crypto (e_att snap_env) (signer_from_seed (replicate 32 9) 1 demo_net 1800)
      (identity_of (demo_peer b name)) 100 ATTESTATION_SCHEMA_V2 = Inr s"
proof -
  have ne: "v2_from_att (demo_attestation 2 ''tv'') \<noteq> v2_from_att (demo_attestation 1 ''nas'')"
  proof
    assume "v2_from_att (demo_attestation 2 ''tv'') = v2_from_att (demo_attestation 1 ''nas'')"
    then have "demo_attestation 2 ''tv'' = demo_attestation 1 ''nas''" by (metis attestation_of_v2_from_att)
    then show False
      by (simp add: demo_attestation_def signer_attestation_def signer_from_seed_def identity_of_def demo_peer_def)
  qed
  have len: "length (demo_sign (replicate 32 9) [x]) = 64" for x by (simp add: demo_sign_def)
  have eq: "signer_attestation \<lparr>sg_key = replicate 32 9, sg_guild_id = 1, sg_wg_net = demo_net, sg_ttl = 1800\<rparr>
      (identity_of (demo_peer x n)) 100 = demo_attestation x n" for x n
    by (simp add: demo_attestation_def signer_from_seed_def)
  show ?thesis
    using assms ne len
    by (auto simp: signer_sign_def sign_attestation_def signed_sign_def snap_env_def pair_codec_def eq
        signer_from_seed_def to_base64_def demo_signed_codec_def demo_crypto_def)
qed

lemma snap_env_simps [simp]:
  "e_crypto snap_env = demo_crypto" "e_signed snap_env = demo_signed_codec" "e_now snap_env = 100"
  "e_clock snap_env = 100" "e_fresh_seed snap_env g = replicate 32 9"
  by (simp_all add: snap_env_def demo_env_def)

lemma demo_read:
  "\<exists>rd st'. snapshot_read snap_env (demo_register (demo_key 1)) demo_caller
     (demo_snapshot_app [(1, ''nas''), (2, ''tv'')]) = (Inr rd, st') \<and>
     tget (gks_cache (sn_keys (a_signing st'))) 1 =
       Some \<lparr>gk_signer = signer_from_seed (replicate 32 9) 1 demo_net 1800, gk_rotation_chain = []\<rparr> \<and> a_release st' = None"
proof -
  obtain b1 s1 where 1: "to_base64 demo_crypto demo_signed_codec s1 = Some b1"
    "signer_sign demo_crypto (e_att snap_env) (signer_from_seed (replicate 32 9) 1 demo_net 1800)
      (identity_of (demo_peer 1 ''nas'')) 100 ATTESTATION_SCHEMA_V2 = Inr s1"
    using snap_sign [of 1 "''nas''"] by auto
  obtain b2 s2 where 2: "to_base64 demo_crypto demo_signed_codec s2 = Some b2"
    "signer_sign demo_crypto (e_att snap_env) (signer_from_seed (replicate 32 9) 1 demo_net 1800)
      (identity_of (demo_peer 2 ''tv'')) 100 ATTESTATION_SCHEMA_V2 = Inr s2"
    using snap_sign [of 2 "''tv''"] by auto
  have me: "\<lparr>id_user_id = 7, id_username = ''alice'', id_device_name = ''nas'', id_is_primary = False,
      id_ip = ipv4_octets 100 72 0 9, id_pubkey = demo_key 1\<rparr> = identity_of (demo_peer 1 ''nas'')"
    by (simp add: identity_of_def demo_peer_def)
  let ?st = "demo_snapshot_app [(1, ''nas''), (2, ''tv'')]"
  let ?gk = "\<lparr>gk_signer = signer_from_seed (replicate 32 9) 1 demo_net 1800, gk_rotation_chain = []\<rparr>"
  obtain st1 where k: "keysA snap_env 1 ?st = (Inr ?gk, st1)" and st1: "a_presence st1 = a_presence ?st"
      "a_nat st1 = no_nat" "tget (gks_cache (sn_keys (a_signing st1))) 1 = Some ?gk"
      "sc_map (sn_cache (a_signing st1)) = []" "a_release st1 = None"
    by (auto simp: keysA_def demo_snapshot_app_def demo_app_def new_signing_def new_sign_cache_def keys_get_def
        load_or_create_seed_def empty_store_def rotation_chain_def Let_def)
  have gr: "build_grant snap_env (demo_register (demo_key 1)) 7
      \<lparr>dv_ip = ipv4_octets 100 72 0 9, dv_name = ''nas'', dv_is_primary = False\<rparr> demo_mship ATTESTATION_SCHEMA_V2 ?st =
      (Inr (Some \<lparr>gr_attestations = [\<lparr>ga_attestation = b1, ga_community_name = ''home'', ga_att_schema = ATTESTATION_SCHEMA_V2\<rparr>],
         gr_networks = [''net'']\<rparr>), st1)"
    by (simp add: build_grant_def grant_attestation_def bindA_Inr k demo_mship_def has_identity_def ms_guilds_def
        demo_register_def me 1 base64A_def community_name_def tget_def)
  have tab: "comembers_of (demo_register (demo_key 1)) 7 demo_mship [1] (a_presence ?st) =
      [(demo_key 2, demo_peer 2 ''tv'', [net_of demo_mship ((1, 2), ''net'')], [1])]"
    by (simp add: comembers_of_def demo_mship_def has_identity_def demo_register_def demo_snapshot_app_def demo_present_def
        network_comembers_def others_in_def others_of_user_def add_comember_def tget_def tput_def net_of_def insort_insert_key_def)
  have sg: "\<exists>st'. signA snap_env 1 (identity_of (demo_peer 2 ''tv'')) ATTESTATION_SCHEMA_V2 st = (Inr b2, st') \<and>
      tget (gks_cache (sn_keys (a_signing st'))) 1 = Some ?gk \<and> a_release st' = a_release st"
    if "tget (gks_cache (sn_keys (a_signing st))) 1 = Some ?gk" "sc_map (sn_cache (a_signing st)) = []" for st
    using that 2 by (simp add: signA_def cached_attestation_def cache_fresh_def keys_get_def Let_def)
  obtain t where rec: "record_peer_reports (demo_register (demo_key 1)) [demo_key 2] no_nat [] = (t, [])"
    by (simp add: record_peer_reports_def reflexive_reports_def accepted_reflexives_def alloc_reports_def ice_reports_def
        demo_register_def no_nat_def Let_def)
  obtain st2 where sg2: "signA snap_env 1 (identity_of (demo_peer 2 ''tv'')) ATTESTATION_SCHEMA_V2 (st1\<lparr>a_nat := t\<rparr>) = (Inr b2, st2)"
      "tget (gks_cache (sn_keys (a_signing st2))) 1 = Some ?gk" "a_release st2 = None"
    using sg [of "st1\<lparr>a_nat := t\<rparr>"] st1 by auto
  have "ms_guilds demo_mship = [1]" by (simp add: ms_guilds_def demo_mship_def)
  then have "\<exists>st' all. build_seeds snap_env (demo_register (demo_key 1)) 7 demo_mship (ms_guilds demo_mship)
      ATTESTATION_SCHEMA_V2 st1 = (Inr (all, []), st') \<and>
      tget (gks_cache (sn_keys (a_signing st'))) 1 = Some ?gk \<and> a_release st' = None"
    using tab st1 rec sg2 by (simp add: build_seeds_def bindA_Inr tkeys_def peer_seed_def)
  then show ?thesis
    by (auto simp: snapshot_read_def demo_caller_def bindA_Inr gr)
qed

lemma demo_snapshot_ok: "presence_ok (a_presence (demo_snapshot_app [(1, ''nas''), (2, ''tv'')]))"
  by (auto simp: presence_ok_def demo_snapshot_app_def demo_present_def tok_def tget_def split: if_splits)

lemma demo_ready: "ready snap_env (demo_snapshot_app ds)"
proof -
  have codec: "codec_ok demo_signed_codec" by (auto simp: codec_ok_def demo_signed_codec_def)
  show ?thesis
    using new_signing_inv demo_signing_ok demo_b64_ok codec
    by (simp add: ready_def env_inv_def crypto_ok_def time_ok_def demo_snapshot_app_def demo_app_def att_codecs_ok_def
        snap_env_def demo_env_def new_signing_def)
qed

lemma seeds_are_comembers_witness:
  "\<exists>rd st'. snapshot_read snap_env (demo_register (demo_key 1)) demo_caller
     (demo_snapshot_app [(1, ''nas''), (2, ''tv'')]) = (Inr rd, st') \<and> fst ` set (rd_seeds rd) = {demo_key 2}"
proof -
  let ?st = "demo_snapshot_app [(1, ''nas''), (2, ''tv'')]"
  obtain rd st' where run: "snapshot_read snap_env (demo_register (demo_key 1)) demo_caller ?st = (Inr rd, st')"
    using demo_read by blast
  have view: "guild_view (a_presence ?st) 1 2 pk \<noteq> None \<longleftrightarrow> pk \<in> {demo_key 1, demo_key 2}"
    "user_view (a_presence ?st) 7 pk = None" for pk
    by (auto simp: guild_view_def user_view_def demo_snapshot_app_def demo_present_def tget_def)
  have "pk \<in> fst ` set (rd_seeds rd) \<longleftrightarrow> pk = demo_key 2" for pk
    using seeds_are_comembers [OF demo_snapshot_ok demo_ready run] view [of pk]
    by (auto simp: shared_with_def own_sibling_def demo_caller_def demo_mship_def demo_register_def)
  with run show ?thesis by blast
qed

end
