(* ===== verification/Register.thy ===== *)
theory Register
  imports Snapshot
begin

section \<open>The long poll: \<open>api/register.rs\<close>, and what a register changes\<close>

text \<open>
  \<open>register\<close> in its two halves: up to the answer or the park, and the rebuild after the wake. Then
  what the whole of \<open>build_snapshot\<close> does to the presence tables, to the device table and to the
  caller's other devices, and what the two ends of a pair are told about relays.
\<close>

datatype polled = Answered register_resp | Parked "scope set" u64 permit

definition leave :: "key \<Rightarrow> app \<Rightarrow> app" where
  "leave pk st = st\<lparr>a_wakers := unsubscribe pk (a_wakers st)\<rparr>"

definition decide_park :: "register_req \<Rightarrow> bool \<Rightarrow> built \<Rightarrow> polled act" where
  "decide_park req due b st =
     (if \<not> bt_caller_changed b \<and> \<not> due \<and> rq_since req = Some (rs_version (bt_resp b))
      then (case try_acquire (rq_wg_pubkey req) (a_park st) of
              (None, ps) \<Rightarrow> (Inl (ApiError TOO_MANY_REQUESTS), st\<lparr>a_park := ps\<rparr>)
            | (Some p, ps) \<Rightarrow> (Inr (Parked (bt_scopes b) (rs_version (bt_resp b)) p), st\<lparr>a_park := ps\<rparr>))
      else (Inr (Answered (bt_resp b)), st))"

text \<open>The receiver of wakes lives until the request returns: it is dropped with every answer.\<close>

definition register_open :: "env \<Rightarrow> register_req \<Rightarrow> ip \<Rightarrow> polled act" where
  "register_open ev req caller_ip st =
     (case negotiate req of
        Inl e \<Rightarrow> (Inl e, st)
      | Inr _ \<Rightarrow>
          (case subscribe (rq_wg_pubkey req) (a_wakers st) of
             ((_, due), w) \<Rightarrow>
               (case bindA (build_snapshot ev req caller_ip) (decide_park req due) (st\<lparr>a_wakers := w\<rparr>) of
                  (Inr (Parked sc v p), st') \<Rightarrow> (Inr (Parked sc v p), st')
                | (r, st') \<Rightarrow> (r, leave (rq_wg_pubkey req) st'))))"

text \<open>After the wake (and, for a herd wake, the jitter): rebuild, answer, give up the permit.\<close>

definition register_resume :: "env \<Rightarrow> register_req \<Rightarrow> ip \<Rightarrow> permit \<Rightarrow> register_resp act" where
  "register_resume ev req caller_ip p st =
     (case build_snapshot ev req caller_ip st of
        (r, st') \<Rightarrow>
          (case r of Inl e \<Rightarrow> Inl e | Inr b \<Rightarrow> Inr (bt_resp b),
           (leave (rq_wg_pubkey req) st')\<lparr>a_park := drop_permit (pm_pubkey p) (pm_seq p) (a_park st')\<rparr>))"

subsection \<open>Frames\<close>

lemma resolve_user_frame:
  assumes "resolve_user ev req st = (r, st')"
  shows "a_presence st' = a_presence st" "a_roles st' = a_roles st" "a_roleless st' = a_roleless st"
    "devices (a_store st') = devices (a_store st)" "networks (a_store st') = networks (a_store st)"
    "a_wakers st' = a_wakers st" "sn_keys (a_signing st') = sn_keys (a_signing st)"
proof -
  have c: "networks (snd (consume_enrollment_key k p n s)) = networks s \<and>
      devices (snd (consume_enrollment_key k p n s)) = devices s" for k p n s
    by (auto simp: consume_enrollment_key_def claim_key_def Let_def split: option.splits prod.splits)
  have "a_presence st' = a_presence st \<and> a_roles st' = a_roles st \<and> a_roleless st' = a_roleless st \<and>
    devices (a_store st') = devices (a_store st) \<and> networks (a_store st') = networks (a_store st) \<and>
    a_wakers st' = a_wakers st \<and> sn_keys (a_signing st') = sn_keys (a_signing st)"
    using assms c
    by (auto simp: resolve_user_def authenticate_enrolled_def verify_possession_def bindA_def dbA_def set_store_def
        Let_def split: option.splits auth_outcome.splits possession_outcome.splits prod.splits sum.splits)
      (metis snd_conv)+
  then show "a_presence st' = a_presence st" "a_roles st' = a_roles st" "a_roleless st' = a_roleless st"
    "devices (a_store st') = devices (a_store st)" "networks (a_store st') = networks (a_store st)"
    "a_wakers st' = a_wakers st" "sn_keys (a_signing st') = sn_keys (a_signing st)" by blast+
qed

lemma resolve_device_frame:
  assumes "resolve_device ev req u nets c st = (r, st')"
  shows "st' = set_store (a_store st') st"
  using assms
  by (auto simp: resolve_device_def bindA_def dbA_def liftA_def Let_def split: prod.splits sum.splits if_splits)

lemma retire_superseded_frame:
  assumes "retire_superseded req u ch st = (r, st')"
  shows "a_roles st' = a_roles st" "a_roleless st' = a_roleless st" "a_wakers st' = a_wakers st"
  using assms
  by (auto simp: retire_superseded_def bindA_def dbA_def liftA_def split: option.splits prod.splits sum.splits if_splits)

lemma record_own_views:
  assumes "presence_ok (a_presence st)" and "record_own_device ev req u dev m ch st = (ch', st')"
  shows "presence_ok (a_presence st') \<and> st' = st\<lparr>a_presence := a_presence st'\<rparr> \<and> set ch \<subseteq> set ch' \<and>
    announced (a_presence st) (a_presence st') ch' \<and>
    (\<forall>g r d. guild_view (a_presence st') g r d = guild_view (a_presence st) g r d) \<and>
    (\<forall>v d. user_view (a_presence st') v d =
       (if v = u \<and> d = rq_wg_pubkey req
        then if rq_peer_own_devices req \<and> \<not> rq_paused req \<and> has_identity m
             then Some (presence_of req u dev (ms_username m)) else None
        else user_view (a_presence st) v d))"
proof -
  let ?mp = "presence_of req u dev (ms_username m)" and ?p = "a_presence st"
  define yes where "yes \<longleftrightarrow> rq_peer_own_devices req \<and> \<not> rq_paused req \<and> has_identity m"
  define op where "op = (if yes then op_record_self u ?mp (rq_client_version req) (e_now ev) else op_evict_self u (rq_wg_pubkey req))"
  obtain did p where d: "(if yes then record_self u ?mp (rq_client_version req) (e_now ev) ?p
      else evict_self u (rq_wg_pubkey req) ?p) = (did, p)" by fastforce
  then have opp: "op ?p = (when_changed did (User u), p)"
    by (auto simp: op_def op_record_self_def op_evict_self_def split: if_splits)
  have out: "ch' = (if did then User u # ch else ch)" "st' = st\<lparr>a_presence := p\<rparr>"
    using assms(2) d by (simp_all add: record_own_device_def yes_def)
  have rep: "t \<notin> set (fst (op ?p)) \<Longrightarrow> scope_view (snd (op ?p)) t = scope_view ?p t" for t
    using recself.reports [OF assms(1)] evself.reports [OF assms(1)] by (simp add: op_def split: if_splits)
  have "presence_ok p"
    using recself.keeps_ok [OF assms(1)] evself.keeps_ok [OF assms(1)] opp
    by (simp add: op_def split: if_splits) (metis snd_conv)+
  moreover have "announced ?p p ch'"
    unfolding announced_def out
    by (metis opp rep fst_conv snd_conv list.set_intros(1) when_changed_in)
  moreover have "guild_view p g r d = guild_view ?p g r d" for g r d
    using opp by (auto simp: op_def op_record_self_eq op_evict_self_eq views_map split: if_splits)
  moreover have "user_view p v d = (if v = u \<and> d = rq_wg_pubkey req then if yes then Some ?mp else None else user_view ?p v d)" for v d
    using opp assms(1)
    by (auto simp: op_def op_record_self_eq op_evict_self_eq views_map ok_get split: if_splits) (auto simp: user_view_def)
  ultimately show ?thesis by (auto simp: out yes_def)
qed

text \<open>The key a request retires, if any.\<close>

definition retires :: "app \<Rightarrow> register_req \<Rightarrow> u64 \<Rightarrow> key option" where
  "retires st req u =
     (case rq_supersede req of
        None \<Rightarrow> None
      | Some t \<Rightarrow>
          (case device_by_token (a_store st) t of
             Inr (Some (owner, old)) \<Rightarrow> if should_supersede owner old u (rq_wg_pubkey req) then Some old else None
           | _ \<Rightarrow> None))"

lemma retire_superseded_spec:
  assumes "presence_ok (a_presence st)" and "retire_superseded req u ch st = (Inr ch', st')"
  shows "presence_ok (a_presence st') \<and> set ch \<subseteq> set ch' \<and> announced (a_presence st) (a_presence st') ch' \<and>
    (case retires st req u of
       None \<Rightarrow> st' = st \<and> ch' = ch
     | Some old \<Rightarrow> old \<noteq> rq_wg_pubkey req \<and> remove_device u old (a_store st) = (Inr (), a_store st')) \<and>
    (\<forall>g r d. guild_view (a_presence st') g r d =
       (if retires st req u = Some d then None else guild_view (a_presence st) g r d)) \<and>
    (\<forall>v d. user_view (a_presence st') v d =
       (if retires st req u = Some d \<and> v = u then None else user_view (a_presence st) v d))"
proof (cases "retires st req u")
  case None
  then have "st' = st \<and> ch' = ch"
    using assms(2)
    by (auto simp: retire_superseded_def retires_def bindA_def liftA_def
        split: option.splits if_splits sum.splits prod.splits)
  with None assms(1) show ?thesis by simp
next
  case (Some old)
  then obtain t where t: "rq_supersede req = Some t" "device_by_token (a_store st) t = Inr (Some (u, old))"
    "old \<noteq> rq_wg_pubkey req"
    by (auto simp: retires_def should_supersede_def split: option.splits sum.splits if_splits)
  obtain p gone where ev: "evict_everywhere u old (a_presence st) = (p, gone)" by fastforce
  obtain s where s: "remove_device u old (a_store st) = (Inr (), s)" "st' = (set_store s st)\<lparr>a_presence := p\<rparr>"
    "ch' = gone @ ch"
    using assms(2) t ev
    by (auto simp: retire_superseded_def bindA_Inr dbA_Inr should_supersede_def)
  note e = evict_everywhere_spec [OF ok_get(3) [OF assms(1)] ok_get(4) [OF assms(1)] ev]
  have ok: "presence_ok p" using e assms(1) by (auto simp: presence_ok_def split: if_splits)
  have views: "guild_view p g r d = (if d = old then None else guild_view (a_presence st) g r d)"
    "user_view p v d = (if v = u \<and> d = old then None else user_view (a_presence st) v d)" for g r v d
    using e by (simp_all add: guild_view_def user_view_def)
  have "announced (a_presence st) p ch'"
    unfolding announced_def
  proof (intro allI impI scope_view_eqI)
    fix t g r d assume "t \<notin> set ch'" "t = Guild g"
    then show "guild_view p g r d = guild_view (a_presence st) g r d"
      using e views(1) [of g r d] by (auto simp: s(3) guild_view_def)
  next
    fix t v d assume "t \<notin> set ch'" "t = User v"
    then show "user_view p v d = user_view (a_presence st) v d"
      using e views(2) [of v d] by (auto simp: s(3) user_view_def)
  qed
  with Some ok views t(3) s show ?thesis by auto
qed

lemma snapshot_callerE:
  assumes "snapshot_caller ev req caller_ip st = (Inr cl, st')"
  obtains u en st0 dev cache st1 ch2 st2 m ch3 st3 where
    "resolve_user ev req st = (Inr (u, en), st0)"
    "resolve_device ev req u (networks_to_walk ev u st0) [] (source_seen req caller_ip st0) = (Inr (dev, cache), st1)"
    "retire_superseded req u [] st1 = (Inr ch2, st2)"
    "resolve_membership ev req u (networks_to_walk ev u st0) dev cache ch2 st2 = (Inr (m, ch3), st3)"
    "record_caller ev req u en (\<not> memo_fresh u (e_instant ev) (a_roleless st0)) dev m ch3 st3 = (Inr cl, st')"
proof -
  have n: "networks_to_walk ev u (source_seen req caller_ip s) = networks_to_walk ev u s"
    "a_roleless (source_seen req caller_ip s) = a_roleless s" for u s
    by (simp_all add: networks_to_walk_def source_seen_def)
  obtain u en st0 where 1: "resolve_user ev req st = (Inr (u, en), st0)"
    and 2: "bindA (resolve_device ev req u (networks_to_walk ev u st0) []) (\<lambda>(dev, cache).
          bindA (retire_superseded req u []) (\<lambda>changed.
          bindA (resolve_membership ev req u (networks_to_walk ev u st0) dev cache changed) (\<lambda>(m, changed).
            record_caller ev req u en (\<not> memo_fresh u (e_instant ev) (a_roleless st0)) dev m changed)))
          (source_seen req caller_ip st0) = (Inr cl, st')"
    using assms by (auto simp: snapshot_caller_def bindA_Inr n Let_def)
  from 2 obtain x st1 where 3: "resolve_device ev req u (networks_to_walk ev u st0) [] (source_seen req caller_ip st0) =
        (Inr x, st1)" and r3: "(case x of (dev, cache) \<Rightarrow>
          bindA (retire_superseded req u []) (\<lambda>changed.
          bindA (resolve_membership ev req u (networks_to_walk ev u st0) dev cache changed) (\<lambda>(m, changed).
            record_caller ev req u en (\<not> memo_fresh u (e_instant ev) (a_roleless st0)) dev m changed))) st1 = (Inr cl, st')"
    by (rule bindA_InrE)
  obtain dev cache where x: "x = (dev, cache)" by (cases x)
  from r3 [unfolded x prod.case] obtain ch2 st2 where 4: "retire_superseded req u [] st1 = (Inr ch2, st2)"
    and r4: "bindA (resolve_membership ev req u (networks_to_walk ev u st0) dev cache ch2) (\<lambda>(m, changed).
            record_caller ev req u en (\<not> memo_fresh u (e_instant ev) (a_roleless st0)) dev m changed) st2 = (Inr cl, st')"
    by (rule bindA_InrE)
  from r4 obtain y st3 where 5: "resolve_membership ev req u (networks_to_walk ev u st0) dev cache ch2 st2 = (Inr y, st3)"
    and r5: "(case y of (m, changed) \<Rightarrow>
       record_caller ev req u en (\<not> memo_fresh u (e_instant ev) (a_roleless st0)) dev m changed) st3 = (Inr cl, st')"
    by (rule bindA_InrE)
  obtain m ch3 where y: "y = (m, ch3)" by (cases y)
  show ?thesis by (rule that [OF 1 3 [unfolded x] 4 5 [unfolded y] r5 [unfolded y prod.case]])
qed

lemma settle_frame [simp]:
  "a_presence (settle ev req u w m st) = a_presence st"
  "d_pubkey ` set (devices (a_store (settle ev req u w m st))) = d_pubkey ` set (devices (a_store st))"
proof -
  show "a_presence (settle ev req u w m st) = a_presence st" by (simp add: settle_def Let_def)
  have "map d_pubkey (devices (touch_device pk per t s)) = map d_pubkey (devices s)" for pk per t s
    by (auto simp: touch_device_def update_device_def)
  then have "map d_pubkey (devices (a_store (settle ev req u w m st))) = map d_pubkey (devices (a_store st))"
    by (simp add: settle_def Let_def)
  then show "d_pubkey ` set (devices (a_store (settle ev req u w m st))) = d_pubkey ` set (devices (a_store st))"
    by (metis set_map)
qed

lemma source_seen_simps [simp]:
  "a_presence (source_seen req ip st) = a_presence st" "a_roles (source_seen req ip st) = a_roles st"
  "a_store (source_seen req ip st) = a_store st" "a_roleless (source_seen req ip st) = a_roleless st"
  by (simp_all add: source_seen_def)

lemma resolve_device_facts:
  assumes "resolve_device ev req u nets [] st = (Inr (dev, cache), st')"
  shows "a_presence st' = a_presence st" "a_roles st' = a_roles st" "cache_ok (a_roles st) u cache"
    "\<not> (\<exists>n\<in>set nets. in_role (a_roles st) u n) \<Longrightarrow> \<not> rq_peer_own_devices req \<Longrightarrow> st' = st"
proof -
  note f = resolve_device_frame [OF assms]
  show "a_presence st' = a_presence st" by (subst f) simp
  show "a_roles st' = a_roles st" by (subst f) simp
  obtain held c where h: "holds_any_network_role (a_roles st) nets u [] = (held, c)" by fastforce
  with holds_any_spec [of "a_roles st" u "[]" nets]
  have hc: "held \<longleftrightarrow> (\<exists>n\<in>set nets. in_role (a_roles st) u n)" "cache_ok (a_roles st) u c" by auto
  have "cache = c"
    using assms h by (auto simp: resolve_device_def bindA_Inr Let_def split: if_splits)
  with hc show "cache_ok (a_roles st) u cache" by simp
  assume "\<not> (\<exists>n\<in>set nets. in_role (a_roles st) u n)" "\<not> rq_peer_own_devices req"
  with assms h hc show "st' = st" by (auto simp: resolve_device_def wants_personal_scope_def)
qed

lemma remove_device_rows:
  "remove_device u pk s = (r, s') \<Longrightarrow> set (devices s') \<subseteq> set (devices s)"
  by (auto simp: remove_device_def set_primary_def Let_def split: sum.splits if_splits list.splits prod.splits)


subsection \<open>A device of the demo deployment registers\<close>

definition demo_register_store :: store where
  "demo_register_store = empty_store\<lparr>networks := [((1, 2), ''net'')], devices := [demo_row 1 7 ''nas'' ''s'']\<rparr>"

definition demo_member_app :: app where
  "demo_member_app = (demo_app demo_register_store)\<lparr>a_presence := demo_present [(2, ''tv'')], a_user_labels := [(7, ''alice'')]\<rparr>"

definition demo_refresh :: register_req where
  "demo_refresh = (demo_register (demo_key 1))\<lparr>rq_device_token := Some ''s''\<rparr>"

lemma demo_resolve_user: "resolve_user ev demo_refresh demo_member_app = (Inr (7, True), demo_member_app)"
  by (simp add: resolve_user_def demo_refresh_def demo_member_app_def demo_register_def demo_register_store_def empty_store_def
      device_owner_def find_device_row_def demo_row_def demo_key_def authenticate_enrolled_def device_auth_def
      decide_device_auth_def bindA_def demo_app_def new_signing_def ct_eq_def)

lemma demo_index: "u32_of 1 = Some 1 \<and> index_is_valid demo_net 1"
  by code_simp

abbreviation demo_nets :: "network list" where
  "demo_nets \<equiv> [\<lparr>n_guild_id = 1, n_role_id = 2, n_name = ''net''\<rparr>]"

lemma demo_device:
  "\<exists>st1. resolve_device snap_env demo_refresh 7 demo_nets [] (source_seen demo_refresh a demo_member_app) =
     (Inr (\<lparr>dv_ip = addr_from_index demo_net 1, dv_name = ''nas'', dv_is_primary = True\<rparr>,
        [(1, Some \<lparr>mr_username = ''alice'', mr_role_ids = [2]\<rparr>)]), st1) \<and>
     a_roles st1 = demo_roles \<and> a_presence st1 = demo_present [(2, ''tv'')] \<and> a_user_labels st1 = [(7, ''alice'')]"
  using demo_index
  by (simp add: resolve_device_def bindA_def dbA_def liftA_def Let_def cached_member_def role_among_def allocate_device_def
      find_device_row_def demo_member_app_def demo_app_def new_signing_def demo_register_store_def empty_store_def demo_row_def
      demo_refresh_def demo_register_def demo_key_def source_seen_def demo_roles_def tget_def tput_def set_store_def
      ensure_primary_def primary_pubkey_def pubkey_from_blob_def split: prod.split)

lemma demo_retire: "retire_superseded demo_refresh u ch st = (Inr ch, st)"
  by (simp add: retire_superseded_def demo_refresh_def demo_register_def)

lemma demo_membership:
  assumes "a_roles st = demo_roles" "a_user_labels st = [(7, ''alice'')]"
  shows "\<exists>m ch st'. resolve_membership ev demo_refresh 7 demo_nets dev
    [(1, Some \<lparr>mr_username = ''alice'', mr_role_ids = [2]\<rparr>)] [] st = (Inr (m, ch), st')"
  using assms
  by (auto simp: resolve_membership_def bindA_def visit_network_def cached_member_def Let_def app_user_label_def
      join_network_def opted_out_def demo_refresh_def demo_register_def tget_def list_network_def empty_mship_def
      split: prod.splits)

lemma demo_caller_runs:
  "\<exists>cl st'. snapshot_caller snap_env demo_refresh a demo_member_app = (Inr cl, st') \<and> cl_user cl = 7"
proof -
  have v: "validate_peer_reports demo_refresh = Inr ()"
    by (simp add: validate_peer_reports_def demo_refresh_def demo_register_def)
  have n: "networks_to_walk snap_env 7 (source_seen demo_refresh a demo_member_app) = demo_nets"
    by (simp add: networks_to_walk_def memo_fresh_def demo_member_app_def demo_app_def demo_register_store_def
        all_networks_def new_signing_def empty_store_def)
  obtain st1 where 1: "resolve_device snap_env demo_refresh 7 demo_nets [] (source_seen demo_refresh a demo_member_app) =
     (Inr (\<lparr>dv_ip = addr_from_index demo_net 1, dv_name = ''nas'', dv_is_primary = True\<rparr>,
        [(1, Some \<lparr>mr_username = ''alice'', mr_role_ids = [2]\<rparr>)]), st1)"
     "a_roles st1 = demo_roles" "a_user_labels st1 = [(7, ''alice'')]"
    using demo_device by blast
  obtain m ch st' where 2: "resolve_membership snap_env demo_refresh 7 demo_nets
      \<lparr>dv_ip = addr_from_index demo_net 1, dv_name = ''nas'', dv_is_primary = True\<rparr>
      [(1, Some \<lparr>mr_username = ''alice'', mr_role_ids = [2]\<rparr>)] [] st1 = (Inr (m, ch), st')"
    using demo_membership [OF 1(2,3)] by blast
  show ?thesis
    by (simp add: snapshot_caller_def bindA_def v demo_resolve_user n 1(1) demo_retire 2 liftA_def record_caller_def Let_def
        split: prod.split)
qed


subsection \<open>Two ends, one relay\<close>

definition present_where_held :: "register_req \<Rightarrow> mship \<Rightarrow> presence \<Rightarrow> bool" where
  "present_where_held req m p \<longleftrightarrow> length (ms_network_names m) = length (ms_held m) \<and>
     (\<forall>g r. (g, r) \<in> set (ms_held m) \<longleftrightarrow> guild_view p g r (rq_wg_pubkey req) \<noteq> None)"

definition all_in :: "presence \<Rightarrow> key set \<Rightarrow> bool" where
  "all_in p ks \<longleftrightarrow> (\<exists>g r. \<forall>k\<in>ks. guild_view p g r k \<noteq> None)"

lemma net_of_ids: "net_of m h = net_of m h' \<Longrightarrow> fst h = fst h'"
  by (cases h; cases h') (auto simp: net_of_def)

lemma held_zip: "length names = length held \<Longrightarrow> x \<in> set held \<longleftrightarrow> (\<exists>n. (x, n) \<in> set (zip held names))"
  by (metis in_set_impl_in_set_zip1 in_set_zipE)

lemma shared_nets_meet:
  assumes "present_where_held req m p" and "b \<noteq> rq_wg_pubkey req" and "k \<noteq> rq_wg_pubkey req"
  shows "net_of m ` set (shared_with req m p k) \<inter> net_of m ` set (shared_with req m p b) \<noteq> {} \<longleftrightarrow>
    all_in p {rq_wg_pubkey req, b, k}"
proof
  assume "net_of m ` set (shared_with req m p k) \<inter> net_of m ` set (shared_with req m p b) \<noteq> {}"
  then obtain h h' where h: "h \<in> set (shared_with req m p k)" "h' \<in> set (shared_with req m p b)" "fst h = fst h'"
    using net_of_ids by blast
  obtain g r n where hh: "h = ((g, r), n)" by (metis prod.exhaust)
  from h(1) have "(g, r) \<in> set (ms_held m)" "guild_view p g r k \<noteq> None"
    by (auto simp: shared_with_def hh dest: set_zip_leftD)
  moreover have "guild_view p g r b \<noteq> None" using h(2,3) by (auto simp: shared_with_def hh)
  moreover have "guild_view p g r (rq_wg_pubkey req) \<noteq> None"
    using assms(1) \<open>(g, r) \<in> set (ms_held m)\<close> by (simp add: present_where_held_def)
  ultimately show "all_in p {rq_wg_pubkey req, b, k}" unfolding all_in_def by blast
next
  assume "all_in p {rq_wg_pubkey req, b, k}"
  then obtain g r where v: "guild_view p g r (rq_wg_pubkey req) \<noteq> None" "guild_view p g r b \<noteq> None"
    "guild_view p g r k \<noteq> None" by (auto simp: all_in_def)
  then have "(g, r) \<in> set (ms_held m)" using assms(1) by (simp add: present_where_held_def)
  then obtain n where "((g, r), n) \<in> set (zip (ms_held m) (ms_network_names m))"
    using held_zip assms(1) by (metis present_where_held_def)
  then have "((g, r), n) \<in> set (shared_with req m p k)" "((g, r), n) \<in> set (shared_with req m p b)"
    using v assms(2,3) by (auto simp: shared_with_def)
  then show "net_of m ` set (shared_with req m p k) \<inter> net_of m ` set (shared_with req m p b) \<noteq> {}" by blast
qed

lemma relay_candidates_iff:
  "(pk, nets, reg) \<in> set (relay_candidates regs tab) \<longleftrightarrow>
     (\<exists>mp gs. (pk, mp, nets, gs) \<in> set tab) \<and> tget regs pk = Some reg"
  unfolding relay_candidates_def List.map_filter_def by (force simp: image_iff split: option.splits)

text \<open>The relays that serve the caller and \<open>b\<close>: registered ones that share a network with both.\<close>

lemma relays_serving:
  assumes "presence_ok p" and "present_where_held req m p" and "b \<noteq> rq_wg_pubkey req"
    and "set nets = net_of m ` set (shared_with req m p b)"
  shows "fst ` set (filter (serves_both b nets) (relay_candidates regs (comembers_of req u m (ms_guilds m) p))) =
    {k. k \<noteq> rq_wg_pubkey req \<and> k \<noteq> b \<and> tget regs k \<noteq> None \<and> all_in p {rq_wg_pubkey req, b, k}}"
proof (rule set_eqI)
  fix k
  let ?tab = "comembers_of req u m (ms_guilds m) p"
  have "k \<in> fst ` set (filter (serves_both b nets) (relay_candidates regs ?tab)) \<longleftrightarrow>
      (\<exists>mp ns gs. (k, mp, ns, gs) \<in> set ?tab \<and> tget regs k \<noteq> None \<and> k \<noteq> b \<and> set ns \<inter> set nets \<noteq> {})"
    by (force simp: serves_both_def relay_candidates_iff image_iff)
  also have "\<dots> \<longleftrightarrow> k \<noteq> rq_wg_pubkey req \<and> k \<noteq> b \<and> tget regs k \<noteq> None \<and> all_in p {rq_wg_pubkey req, b, k}"
  proof
    assume "\<exists>mp ns gs. (k, mp, ns, gs) \<in> set ?tab \<and> tget regs k \<noteq> None \<and> k \<noteq> b \<and> set ns \<inter> set nets \<noteq> {}"
    then obtain mp ns gs where e: "(k, mp, ns, gs) \<in> set ?tab" "tget regs k \<noteq> None" "k \<noteq> b" "set ns \<inter> set nets \<noteq> {}"
      by blast
    note f = comember_facts [OF assms(1) e(1)]
    with e shared_nets_meet [OF assms(2,3)] assms(4)
    show "k \<noteq> rq_wg_pubkey req \<and> k \<noteq> b \<and> tget regs k \<noteq> None \<and> all_in p {rq_wg_pubkey req, b, k}" by metis
  next
    assume a: "k \<noteq> rq_wg_pubkey req \<and> k \<noteq> b \<and> tget regs k \<noteq> None \<and> all_in p {rq_wg_pubkey req, b, k}"
    then have meet: "net_of m ` set (shared_with req m p k) \<inter> set nets \<noteq> {}"
      using shared_nets_meet [OF assms(2,3)] assms(4) by metis
    then have "k \<in> set (tkeys ?tab)" using comember_keys [OF assms(1)] by auto
    then obtain mp ns gs where e: "(k, mp, ns, gs) \<in> set ?tab" by (auto simp: tkeys_def)
    with comember_facts [OF assms(1) e] meet a
    show "\<exists>mp ns gs. (k, mp, ns, gs) \<in> set ?tab \<and> tget regs k \<noteq> None \<and> k \<noteq> b \<and> set ns \<inter> set nets \<noteq> {}" by metis
  qed
  finally show "k \<in> fst ` set (filter (serves_both b nets) (relay_candidates regs ?tab)) \<longleftrightarrow>
      k \<in> {k. k \<noteq> rq_wg_pubkey req \<and> k \<noteq> b \<and> tget regs k \<noteq> None \<and> all_in p {rq_wg_pubkey req, b, k}}" by simp
qed

text \<open>
  Two devices that cannot reach each other directly and each ask for a relay meet: built from
  the same tables in the same second, the two snapshots name the same TURN server with the same
  credentials for the pair, or neither names one, although each is computed from its own
  co-members and in its own order; and each hands the other's relayed address across.\<close>

theorem relay_agreement:
  assumes "presence_ok p" and "present_where_held ra ma p" and "present_where_held rb mb p"
    and "(rq_wg_pubkey rb, mpb, nets_b, gs_b) \<in> set (comembers_of ra ua ma (ms_guilds ma) p)"
    and "(rq_wg_pubkey ra, mpa, nets_a, gs_a) \<in> set (comembers_of rb ub mb (ms_guilds mb) p)"
    and "rq_wg_pubkey rb \<in> set (rq_need_relay ra)" and "rq_wg_pubkey ra \<in> set (rq_need_relay rb)"
    and to_b: "to_b = peer_relay ev ra t (relay_candidates (nt_relays t) (comembers_of ra ua ma (ms_guilds ma) p)) mpb nets_b"
    and to_a: "to_a = peer_relay ev rb t (relay_candidates (nt_relays t) (comembers_of rb ub mb (ms_guilds mb) p)) mpa nets_a"
  shows "map_option (\<lambda>i. i\<lparr>ri_peer_relayed := None\<rparr>) to_b = map_option (\<lambda>i. i\<lparr>ri_peer_relayed := None\<rparr>) to_a \<and>
    (\<forall>i. to_b = Some i \<longrightarrow> ri_peer_relayed i = tget (nt_relay_allocs t) (rq_wg_pubkey rb, rq_wg_pubkey ra))"
proof -
  let ?A = "rq_wg_pubkey ra" and ?B = "rq_wg_pubkey rb"
  note fb = comember_facts [OF assms(1,4)] and fa = comember_facts [OF assms(1,5)]
  let ?ca = "relay_candidates (nt_relays t) (comembers_of ra ua ma (ms_guilds ma) p)"
  let ?cb = "relay_candidates (nt_relays t) (comembers_of rb ub mb (ms_guilds mb) p)"
  have "fst ` set (filter (serves_both ?B nets_b) ?ca) = fst ` set (filter (serves_both ?A nets_a) ?cb)"
    using relays_serving [OF assms(1,2), of ?B nets_b "nt_relays t" ua] relays_serving [OF assms(1,3), of ?A nets_a "nt_relays t" ub]
      fa fb by (auto simp: insert_commute)
  moreover have "r = r'" if "(pk, n, r) \<in> set ?ca" "(pk, n', r') \<in> set ?cb" for pk n r n' r'
    using that by (auto simp: relay_candidates_iff)
  ultimately have eq: "relay_target (e_crypto ev) ?B nets_b ?ca (e_now ev) = relay_target (e_crypto ev) ?A nets_a ?cb (e_now ev)"
    by (rule relay_target_cong)
  have pk: "mp_pubkey mpb = ?B" "mp_pubkey mpa = ?A" using fa fb by simp_all
  show ?thesis
    using assms(6,7) pk eq by (auto simp: to_b to_a peer_relay_def option.map_comp comp_def)
qed

definition demo_asks :: "u8 \<Rightarrow> u8 \<Rightarrow> register_req" where
  "demo_asks a b = (demo_register (demo_key a))\<lparr>rq_need_relay := [demo_key b]\<rparr>"

definition demo_nat :: nat_tables where
  "demo_nat = no_nat\<lparr>nt_relays := [(demo_key 3, \<lparr>rr_addr = demo_addr 9, rr_secret = ''s''\<rparr>)]\<rparr>"

lemma demo_trio:
  "comembers_of (demo_asks 1 2) 7 demo_mship [1] (demo_present [(1, ''nas''), (2, ''tv''), (3, ''vps'')]) =
     [(demo_key 2, demo_peer 2 ''tv'', [net_of demo_mship ((1, 2), ''net'')], [1]),
      (demo_key 3, demo_peer 3 ''vps'', [net_of demo_mship ((1, 2), ''net'')], [1])]"
  "comembers_of (demo_asks 2 1) 7 demo_mship [1] (demo_present [(1, ''nas''), (2, ''tv''), (3, ''vps'')]) =
     [(demo_key 1, demo_peer 1 ''nas'', [net_of demo_mship ((1, 2), ''net'')], [1]),
      (demo_key 3, demo_peer 3 ''vps'', [net_of demo_mship ((1, 2), ''net'')], [1])]"
  by (simp_all add: comembers_of_def demo_mship_def has_identity_def demo_register_def demo_asks_def demo_present_def
      network_comembers_def others_in_def others_of_user_def add_comember_def add_own_def tget_def tput_def net_of_def
      insort_insert_key_def)

lemma demo_asks_simps [simp]: "rq_wg_pubkey (demo_asks a b) = demo_key a" "rq_need_relay (demo_asks a b) = [demo_key b]"
  by (simp_all add: demo_asks_def demo_register_def)

lemma relay_agreement_witness:
  "map_option (\<lambda>i. i\<lparr>ri_peer_relayed := None\<rparr>) (peer_relay snap_env (demo_asks 1 2) demo_nat
       (relay_candidates (nt_relays demo_nat) (comembers_of (demo_asks 1 2) 7 demo_mship [1]
          (demo_present [(1, ''nas''), (2, ''tv''), (3, ''vps'')]))) (demo_peer 2 ''tv'')
       [net_of demo_mship ((1, 2), ''net'')]) =
   map_option (\<lambda>i. i\<lparr>ri_peer_relayed := None\<rparr>) (peer_relay snap_env (demo_asks 2 1) demo_nat
       (relay_candidates (nt_relays demo_nat) (comembers_of (demo_asks 2 1) 7 demo_mship [1]
          (demo_present [(1, ''nas''), (2, ''tv''), (3, ''vps'')]))) (demo_peer 1 ''nas'')
       [net_of demo_mship ((1, 2), ''net'')]) \<and>
   map_option ri_turn_addr (peer_relay snap_env (demo_asks 1 2) demo_nat
       (relay_candidates (nt_relays demo_nat) (comembers_of (demo_asks 1 2) 7 demo_mship [1]
          (demo_present [(1, ''nas''), (2, ''tv''), (3, ''vps'')]))) (demo_peer 2 ''tv'')
       [net_of demo_mship ((1, 2), ''net'')]) \<noteq> None"
proof -
  let ?p = "demo_present [(1, ''nas''), (2, ''tv''), (3, ''vps'')]"
  have ok: "presence_ok ?p" by (auto simp: presence_ok_def demo_present_def tok_def tget_def split: if_splits)
  have held: "present_where_held (demo_asks 1 2) demo_mship ?p" "present_where_held (demo_asks 2 1) demo_mship ?p"
    by (auto simp: present_where_held_def demo_mship_def demo_present_def guild_view_def tget_def)
  have guilds: "ms_guilds demo_mship = [1]" by (simp add: ms_guilds_def demo_mship_def)
  note t = relay_agreement [OF ok held, of "demo_peer 2 ''tv''" "[net_of demo_mship ((1, 2), ''net'')]" "[1]" 7
      "demo_peer 1 ''nas''" "[net_of demo_mship ((1, 2), ''net'')]" "[1]" 7 _ snap_env demo_nat, unfolded guilds]
  have "map_option (\<lambda>i. i\<lparr>ri_peer_relayed := None\<rparr>) (peer_relay snap_env (demo_asks 1 2) demo_nat
       (relay_candidates (nt_relays demo_nat) (comembers_of (demo_asks 1 2) 7 demo_mship [1] ?p)) (demo_peer 2 ''tv'')
       [net_of demo_mship ((1, 2), ''net'')]) =
   map_option (\<lambda>i. i\<lparr>ri_peer_relayed := None\<rparr>) (peer_relay snap_env (demo_asks 2 1) demo_nat
       (relay_candidates (nt_relays demo_nat) (comembers_of (demo_asks 2 1) 7 demo_mship [1] ?p)) (demo_peer 1 ''nas'')
       [net_of demo_mship ((1, 2), ''net'')])"
    by (rule conjunct1 [OF t [OF _ _ _ _ refl refl]]) (simp_all add: demo_trio)
  then show ?thesis
    by (simp add: demo_trio peer_relay_def relay_candidates_def List.map_filter_def demo_nat_def tget_def
        relay_target_def serves_both_def)
qed

end
