(* ===== verification/Coord.thy ===== *)
theory Coord
  imports Snapshot Rotate
begin

section \<open>The engine's client of the coordinator: \<open>crates/engine/src/coord.rs\<close>\<close>

text \<open>
  What a device does with a coordinator's answer: it pins the guild anchors, verifies its own grant
  and the seeds under the pins, and folds the verified peers into the set it holds. The HTTP
  exchange is an argument (\<open>http_reply\<close>), the clock too; the pins are the state that survives. What
  the client needs of third-party code is in \<open>cenv\<close>: the signature scheme, the codecs, and
  \<open>ipnet\<close>'s \<open>contains\<close>.
\<close>

record cenv =
  ce_crypto :: crypto
  ce_att :: att_codecs
  ce_rot :: rot_codecs
  ce_contains :: "ipv4net \<Rightarrow> ipv4 \<Rightarrow> bool"

subsection \<open>The request\<close>

record relay_report =
  rl_capable :: bool
  rl_addr :: "sockaddr option"
  rl_secret :: "string option"
  rl_need_relay :: "key list"
  rl_allocated :: "relay_allocation list"

record coord_req =
  cq_wg_pubkey :: key
  cq_device_name :: string
  cq_endpoint :: "sockaddr option"
  cq_enrollment_key :: "string option"
  cq_device_token :: "string option"
  cq_possession_proof :: "key option"
  cq_since :: "u64 option"
  cq_disabled_networks :: "network_ref list"
  cq_observed :: "observed_endpoint list"
  cq_supersede :: "string option"
  cq_paused :: bool
  cq_peer_own_devices :: bool
  cq_relay :: relay_report
  cq_ice :: "ice_endpoint list"
  cq_held :: "held_peer list"

definition first_contact :: "coord_req \<Rightarrow> coord_req" where
  "first_contact q = q\<lparr>cq_since := None, cq_observed := [], cq_ice := [], cq_held := []\<rparr>"

definition renewal :: "coord_req \<Rightarrow> coord_req" where
  "renewal q = q\<lparr>cq_supersede := None\<rparr>"

definition wire_req :: "string \<Rightarrow> coord_req \<Rightarrow> register_req" where
  "wire_req version q =
     \<lparr>rq_wg_pubkey = cq_wg_pubkey q, rq_device_name = cq_device_name q,
      rq_enrollment_key = cq_enrollment_key q, rq_device_token = cq_device_token q,
      rq_possession_proof = cq_possession_proof q, rq_endpoint = cq_endpoint q, rq_since = cq_since q,
      rq_disabled_networks = cq_disabled_networks q, rq_observed = cq_observed q,
      rq_supersede = cq_supersede q, rq_paused = cq_paused q,
      rq_relay_capable = rl_capable (cq_relay q), rq_relay_addr = rl_addr (cq_relay q),
      rq_relay_secret = rl_secret (cq_relay q), rq_need_relay = rl_need_relay (cq_relay q),
      rq_relay_allocated = rl_allocated (cq_relay q), rq_ice = cq_ice q,
      rq_peer_own_devices = cq_peer_own_devices q, rq_proto = PROTOCOL_VERSION,
      rq_proto_min = MIN_PROTOCOL_VERSION, rq_caps = CAPABILITIES, rq_client_version = version,
      rq_held = cq_held q\<rparr>"

subsection \<open>Verification under the pins\<close>

type_synonym pinned = "(u64 \<times> key) list"

definition pinned_anchors :: "register_resp \<Rightarrow> pins \<Rightarrow> pinned" where
  "pinned_anchors resp pins =
     List.map_filter (\<lambda>a. map_option (\<lambda>pk. (an_guild_id a, pk)) (load_anchor pins (an_guild_id a)))
       (rs_anchors resp)"

fun verify_against_pinned :: "cenv \<Rightarrow> signed \<Rightarrow> pinned \<Rightarrow> u64 \<Rightarrow> u32 \<Rightarrow> attestation option" where
  "verify_against_pinned cv s [] now schema = None"
| "verify_against_pinned cv s ((g, pk) # ps) now schema =
     (if \<not> ed_key_ok (ce_crypto cv) pk then verify_against_pinned cv s ps now schema
      else case verify_attestation (ce_crypto cv) (ce_att cv) s pk now g schema of
             Inr att \<Rightarrow> Some att
           | Inl e \<Rightarrow> verify_against_pinned cv s ps now schema)"

definition verify_blob :: "cenv \<Rightarrow> pinned \<Rightarrow> u64 \<Rightarrow> guild_attestation \<Rightarrow> attestation option" where
  "verify_blob cv ps now ga =
     (case from_base64 (ce_crypto cv) (rk_signed (ce_rot cv)) (ga_attestation ga) of
        Inl e \<Rightarrow> None
      | Inr s \<Rightarrow> verify_against_pinned cv s ps now (ga_att_schema ga))"

fun first_verified ::
  "cenv \<Rightarrow> guild_attestation list \<Rightarrow> pinned \<Rightarrow> u64 \<Rightarrow> (attestation \<Rightarrow> bool) \<Rightarrow> (guild_attestation \<times> attestation) option" where
  "first_verified cv [] ps now accept = None"
| "first_verified cv (ga # gas) ps now accept =
     (case verify_blob cv ps now ga of
        Some att \<Rightarrow> if accept att then Some (ga, att) else first_verified cv gas ps now accept
      | None \<Rightarrow> first_verified cv gas ps now accept)"

definition verify_grant :: "cenv \<Rightarrow> grant \<Rightarrow> pinned \<Rightarrow> u64 \<Rightarrow> (attestation \<times> string) option" where
  "verify_grant cv g ps now =
     map_option (\<lambda>(ga, att). (att, ga_community_name ga)) (first_verified cv (gr_attestations g) ps now (\<lambda>_. True))"

subsection \<open>Peers\<close>

record seed_peer =
  sp_pubkey :: key
  sp_user_id :: u64
  sp_username :: string
  sp_ip :: ipv4
  sp_endpoint :: "sockaddr option"
  sp_punch :: "sockaddr option"
  sp_hostname :: string
  sp_primary_alias :: "string option"
  sp_networks :: "shared_network list"
  sp_relay :: "relay_info option"
  sp_ice :: "ice_params option"
  sp_rev :: u64
  sp_expires_at :: u64

definition peer_of :: "attestation \<Rightarrow> seed \<Rightarrow> seed_peer" where
  "peer_of att sd =
     \<lparr>sp_pubkey = at_wg_pubkey att, sp_user_id = at_user_id att, sp_username = at_username att,
      sp_ip = at_wg_ip att, sp_endpoint = sd_endpoint sd, sp_punch = sd_punch sd,
      sp_hostname = hostname att, sp_primary_alias = primary_alias att, sp_networks = sd_networks sd,
      sp_relay = sd_relay sd, sp_ice = sd_ice sd, sp_rev = sd_rev sd, sp_expires_at = at_expires_at att\<rparr>"

text \<open>One round of the loop of \<open>verified_seeds\<close>: the peer it pushes, if it pushes one.\<close>

definition admit_seed :: "cenv \<Rightarrow> pinned \<Rightarrow> u64 \<Rightarrow> seed \<Rightarrow> seed_peer option" where
  "admit_seed cv ps now sd =
     (case first_verified cv (sd_attestations sd) ps now (\<lambda>_. True) of
        None \<Rightarrow> None
      | Some (ga, att) \<Rightarrow> if ce_contains cv (at_wg_net att) (at_wg_ip att) then Some (peer_of att sd) else None)"

definition verified_seeds :: "cenv \<Rightarrow> register_resp \<Rightarrow> pins \<Rightarrow> u64 \<Rightarrow> seed_peer list" where
  "verified_seeds cv resp pins now =
     List.map_filter (admit_seed cv (pinned_anchors resp pins) now) (rs_seeds resp)"

definition merge_seeds :: "cenv \<Rightarrow> seed_peer list \<Rightarrow> register_resp \<Rightarrow> pins \<Rightarrow> u64 \<Rightarrow> seed_peer list" where
  "merge_seeds cv prev resp pins now =
     (let changed = verified_seeds cv resp pins now
      in if \<not> rs_partial resp then changed
         else let kept = filter (\<lambda>p. sp_pubkey p \<notin> set (rs_removed resp)) prev;
                  table = fold (\<lambda>p. tput (sp_pubkey p) p) kept []
              in map snd (fold (\<lambda>p. tput (sp_pubkey p) p) changed table))"

text \<open>\<open>now + refresh_margin\<close> is \<open>u64\<close> addition, which wraps in a release build.\<close>

definition held_for_refresh :: "seed_peer list \<Rightarrow> u64 \<Rightarrow> u64 \<Rightarrow> held_peer list" where
  "held_for_refresh seeds now margin =
     (if \<exists>p\<in>set seeds. sp_expires_at p \<le> now + margin then []
      else map (\<lambda>p. \<lparr>hp_pubkey = sp_pubkey p, hp_rev = sp_rev p\<rparr>) seeds)"

subsection \<open>What a peer serves of itself\<close>

definition verify_pulled ::
  "cenv \<Rightarrow> guild_attestation list \<Rightarrow> key \<Rightarrow> u64 \<Rightarrow> pins \<Rightarrow> u64 \<Rightarrow> attestation option" where
  "verify_pulled cv blobs pk current pins now =
     map_option snd (first_verified cv blobs (load_all_pinned pins) now
       (\<lambda>att. at_wg_pubkey att = pk \<and> ce_contains cv (at_wg_net att) (at_wg_ip att) \<and> current < at_expires_at att))"

definition apply_pulled :: "attestation \<Rightarrow> seed_peer \<Rightarrow> seed_peer" where
  "apply_pulled att p =
     p\<lparr>sp_user_id := at_user_id att, sp_username := at_username att, sp_ip := at_wg_ip att,
       sp_hostname := hostname att, sp_primary_alias := primary_alias att, sp_expires_at := at_expires_at att\<rparr>"

subsection \<open>One exchange\<close>

datatype http_reply = NoReply | Reply nat string "register_resp option"

datatype client_error =
  Transport | UpgradeRequired string | Refused string nat string | Undecodable | PinRefused pin_error | GrantUnverified

record self_device =
  se_community_name :: string
  se_user_id :: u64
  se_username :: string
  se_networks :: "string list"
  se_wg_ip :: ipv4
  se_wg_net :: ipv4net
  se_hostname :: string
  se_is_primary :: bool
  se_grant_expires_at :: u64
  se_primary_alias :: "string option"
  se_networks_status :: "network_status list"
  se_dns_domain :: "string option"

definition ensure_ok :: "string \<Rightarrow> http_reply \<Rightarrow> client_error + register_resp option" where
  "ensure_ok what r =
     (case r of
        NoReply \<Rightarrow> Inl Transport
      | Reply status body json \<Rightarrow>
          if 200 \<le> status \<and> status < 300 then Inr json
          else if status = 426 then Inl (UpgradeRequired body) else Inl (Refused what status body))"

fun pin_all :: "cenv \<Rightarrow> guild_anchor list \<Rightarrow> pins \<Rightarrow> (pin_error + unit) \<times> pins" where
  "pin_all cv [] pins = (Inr (), pins)"
| "pin_all cv (a # as) pins =
     (case pin_anchor (ce_crypto cv) (ce_rot cv) (an_guild_id a) (an_pubkey a) (an_rotation_chain a) pins of
        (Inl e, pins') \<Rightarrow> (Inl e, pins')
      | (Inr _, pins') \<Rightarrow> pin_all cv as pins')"

definition self_device_of :: "register_resp \<Rightarrow> grant \<Rightarrow> attestation \<Rightarrow> string \<Rightarrow> self_device" where
  "self_device_of resp g att community =
     \<lparr>se_community_name = community, se_user_id = at_user_id att, se_username = at_username att,
      se_networks = gr_networks g, se_wg_ip = at_wg_ip att, se_wg_net = at_wg_net att,
      se_hostname = hostname att, se_is_primary = at_is_primary att, se_grant_expires_at = at_expires_at att,
      se_primary_alias = primary_alias att, se_networks_status = rs_networks resp, se_dns_domain = rs_dns_domain resp\<rparr>"

definition post ::
  "cenv \<Rightarrow> string \<Rightarrow> http_reply \<Rightarrow> u64 \<Rightarrow> pins \<Rightarrow> (client_error + register_resp \<times> self_device option) \<times> pins" where
  "post cv path reply now pins =
     (case ensure_ok path reply of
        Inl e \<Rightarrow> (Inl e, pins)
      | Inr None \<Rightarrow> (Inl Undecodable, pins)
      | Inr (Some resp) \<Rightarrow>
          (case pin_all cv (rs_anchors resp) pins of
             (Inl e, pins') \<Rightarrow> (Inl (PinRefused e), pins')
           | (Inr _, pins') \<Rightarrow>
               (case rs_grant resp of
                  None \<Rightarrow> (Inr (resp, None), pins')
                | Some g \<Rightarrow>
                    (case verify_grant cv g (pinned_anchors resp pins') now of
                       None \<Rightarrow> (Inl GrantUnverified, pins')
                     | Some (att, community) \<Rightarrow> (Inr (resp, Some (self_device_of resp g att community)), pins')))))"

definition register_with :: "cenv \<Rightarrow> string \<Rightarrow> (register_req \<Rightarrow> http_reply) \<Rightarrow> coord_req \<Rightarrow> u64 \<Rightarrow> pins \<Rightarrow>
   (client_error + register_resp \<times> self_device option) \<times> pins" where
  "register_with cv version send q now pins =
     post cv ''register'' (send (wire_req version (first_contact q))) now pins"

definition refresh_with :: "cenv \<Rightarrow> string \<Rightarrow> (register_req \<Rightarrow> http_reply) \<Rightarrow> coord_req \<Rightarrow> u64 \<Rightarrow> pins \<Rightarrow>
   (client_error + register_resp \<times> self_device option) \<times> pins" where
  "refresh_with cv version send q now pins =
     post cv ''refresh'' (send (wire_req version (renewal q))) now pins"

subsection \<open>What verification gives\<close>

lemma verify_later:
  assumes "verify_attestation c k s pk now g schema = Inr att" and "now' < at_expires_at att"
  shows "verify_attestation c k s pk now' g schema = Inr att"
  using assms by (simp add: verify_attestation_Inr)

text \<open>The bytes of an envelope read one way, whoever's anchor they are tried under.\<close>

lemma verify_det:
  assumes "verify_attestation c k s pk now g schema = Inr att" and "verify_attestation c k s pk' now' g' schema = Inr att'"
  shows "att' = att"
  using assms by (auto simp: verify_attestation_Inr)

lemma verify_against_pinned_Some:
  assumes "verify_against_pinned cv s ps now schema = Some att"
  shows "\<exists>g pk. (g, pk) \<in> set ps \<and> ed_key_ok (ce_crypto cv) pk \<and>
    verify_attestation (ce_crypto cv) (ce_att cv) s pk now g schema = Inr att"
  using assms
proof (induction ps)
  case (Cons a ps)
  then show ?case by (cases a) (auto split: if_splits sum.splits)
qed simp

lemma verify_against_pinned_hit:
  assumes "(g, pk) \<in> set ps" and "ed_key_ok (ce_crypto cv) pk"
    and "verify_attestation (ce_crypto cv) (ce_att cv) s pk now g schema = Inr att"
  shows "verify_against_pinned cv s ps now schema = Some att"
  using assms
proof (induction ps)
  case (Cons a ps)
  then show ?case by (cases a) (auto split: sum.splits dest: verify_det)
qed simp

text \<open>An attestation a device may rely on at \<open>now\<close>: signed under an anchor of \<open>ps\<close>, for that anchor's guild.\<close>

definition signed_under :: "cenv \<Rightarrow> pinned \<Rightarrow> u64 \<Rightarrow> guild_attestation \<Rightarrow> attestation \<Rightarrow> bool" where
  "signed_under cv ps now ga att \<longleftrightarrow>
     (\<exists>s pk. from_base64 (ce_crypto cv) (rk_signed (ce_rot cv)) (ga_attestation ga) = Inr s \<and>
        (at_guild_id att, pk) \<in> set ps \<and> ed_key_ok (ce_crypto cv) pk \<and>
        length (sig s) = 64 \<and> ed_verify (ce_crypto cv) pk (payload s) (sig s) \<and>
        (ga_att_schema ga = ATTESTATION_SCHEMA_V1 \<and> dec_of (codec_v1 (ce_att cv)) (payload s) = Some att \<or>
         ga_att_schema ga = ATTESTATION_SCHEMA_V2 \<and>
           map_option attestation_of_v2 (dec_of (codec_v2 (ce_att cv)) (payload s)) = Some att) \<and>
        now < at_expires_at att)"

lemma verify_blob_Some:
  assumes "verify_blob cv ps now ga = Some att"
  shows "signed_under cv ps now ga att"
proof -
  obtain s where s: "from_base64 (ce_crypto cv) (rk_signed (ce_rot cv)) (ga_attestation ga) = Inr s"
    "verify_against_pinned cv s ps now (ga_att_schema ga) = Some att"
    using assms by (auto simp: verify_blob_def split: sum.splits)
  from verify_against_pinned_Some [OF s(2)] s(1) show ?thesis
    by (auto simp: signed_under_def verify_attestation_Inr)
qed

lemma first_verified_Some:
  assumes "first_verified cv gas ps now accept = Some (ga, att)"
  shows "ga \<in> set gas \<and> accept att \<and> verify_blob cv ps now ga = Some att"
  using assms by (induction gas) (auto split: option.splits if_splits)

lemma first_verified_hit:
  assumes "gas \<noteq> []" and "\<And>ga. ga \<in> set gas \<Longrightarrow> \<exists>att. verify_blob cv ps now ga = Some att \<and> accept att"
  shows "\<exists>att. first_verified cv gas ps now accept = Some (hd gas, att) \<and> verify_blob cv ps now (hd gas) = Some att"
  using assms by (cases gas) force+

lemma admit_seed_Some:
  assumes "admit_seed cv ps now sd = Some p"
  shows "\<exists>ga att. ga \<in> set (sd_attestations sd) \<and> signed_under cv ps now ga att \<and>
    ce_contains cv (at_wg_net att) (at_wg_ip att) \<and> p = peer_of att sd"
proof -
  obtain ga att where "first_verified cv (sd_attestations sd) ps now (\<lambda>_. True) = Some (ga, att)"
    "ce_contains cv (at_wg_net att) (at_wg_ip att)" "p = peer_of att sd"
    using assms by (auto simp: admit_seed_def split: option.splits if_splits)
  with first_verified_Some [OF this(1)] verify_blob_Some show ?thesis by blast
qed

lemma verified_seeds_iff:
  "p \<in> set (verified_seeds cv resp pins now) \<longleftrightarrow>
     (\<exists>sd\<in>set (rs_seeds resp). admit_seed cv (pinned_anchors resp pins) now sd = Some p)"
  by (force simp: verified_seeds_def List.map_filter_def)

lemma pinned_anchors_iff:
  "(g, pk) \<in> set (pinned_anchors resp pins) \<longleftrightarrow>
     (\<exists>a\<in>set (rs_anchors resp). an_guild_id a = g) \<and> load_anchor pins g = Some pk"
  unfolding pinned_anchors_def List.map_filter_def by (force simp: image_iff)

subsection \<open>Pinning a response's anchors\<close>

text \<open>The certificates a response offers for a guild, as hops from anchor to anchor.\<close>

definition offered :: "cenv \<Rightarrow> guild_anchor list \<Rightarrow> u64 \<Rightarrow> (key \<times> key) set" where
  "offered cv as g = (\<Union>a\<in>{a \<in> set as. an_guild_id a = g}.
     vouches (ce_crypto cv) (rk_cert (ce_rot cv)) (parse_chain (ce_crypto cv) (rk_signed (ce_rot cv)) (an_rotation_chain a)))"

lemma offered_Cons: "offered cv as g \<subseteq> offered cv (a # as) g"
  by (auto simp: offered_def)

lemma pin_anchor_get:
  assumes "pin_anchor c rk g anchor chain pins = (res, pins')"
  shows "(h \<noteq> g \<longrightarrow> tget pins' h = tget pins h) \<and> (res = Inr () \<longrightarrow> tget pins' g = Some anchor) \<and>
    (\<forall>old. tget pins g = Some old \<longrightarrow> (\<exists>new. tget pins' g = Some new \<and>
       (old, new) \<in> (vouches c (rk_cert rk) (parse_chain c (rk_signed rk) chain))\<^sup>*))"
  using assms walk_chain_sound [of c "rk_cert rk" _ anchor "parse_chain c (rk_signed rk) chain"]
  by (auto simp: pin_anchor_def split: option.splits if_splits)

lemma pin_all_path:
  assumes "pin_all cv as pins = (res, pins')" and "tget pins g = Some old"
  shows "\<exists>new. tget pins' g = Some new \<and> (old, new) \<in> (offered cv as g)\<^sup>*"
  using assms
proof (induction as arbitrary: pins old)
  case (Cons a as)
  let ?g = "an_guild_id a"
  obtain r p1 where 1: "pin_anchor (ce_crypto cv) (ce_rot cv) ?g (an_pubkey a) (an_rotation_chain a) pins = (r, p1)"
    by fastforce
  have "\<exists>mid. tget p1 g = Some mid \<and> (old, mid) \<in> (offered cv (a # as) g)\<^sup>*"
  proof (cases "g = ?g")
    case True
    then obtain mid where "tget p1 g = Some mid" "(old, mid) \<in> (vouches (ce_crypto cv) (rk_cert (ce_rot cv))
        (parse_chain (ce_crypto cv) (rk_signed (ce_rot cv)) (an_rotation_chain a)))\<^sup>*"
      using pin_anchor_get [OF 1, of g] Cons.prems(2) by auto
    moreover have "vouches (ce_crypto cv) (rk_cert (ce_rot cv))
        (parse_chain (ce_crypto cv) (rk_signed (ce_rot cv)) (an_rotation_chain a)) \<subseteq> offered cv (a # as) g"
      using True by (auto simp: offered_def)
    ultimately show ?thesis using rtrancl_mono by blast
  next
    case False
    with pin_anchor_get [OF 1, of g] Cons.prems(2) show ?thesis by auto
  qed
  then obtain mid where mid: "tget p1 g = Some mid" "(old, mid) \<in> (offered cv (a # as) g)\<^sup>*" by blast
  show ?case
  proof (cases r)
    case (Inl e)
    with Cons.prems(1) 1 mid show ?thesis by auto
  next
    case (Inr u)
    with Cons.prems(1) 1 have "pin_all cv as p1 = (res, pins')" by simp
    from Cons.IH [OF this mid(1)] mid(2) show ?thesis
      using rtrancl_mono [OF offered_Cons [of cv as g a]] by (meson rtrancl_trans subsetD)
  qed
qed auto

lemma pin_all_other:
  "pin_all cv as pins = (res, pins') \<Longrightarrow> g \<notin> an_guild_id ` set as \<Longrightarrow> tget pins' g = tget pins g"
  by (induction as arbitrary: pins) (auto split: prod.splits sum.splits dest!: pin_anchor_get [where h = g])

lemma pin_all_pinned:
  assumes "pin_all cv as pins = (Inr (), pins')" and "distinct (map an_guild_id as)" and "a \<in> set as"
  shows "tget pins' (an_guild_id a) = Some (an_pubkey a)"
  using assms
proof (induction as arbitrary: pins)
  case (Cons b as)
  obtain p1 where 1: "pin_anchor (ce_crypto cv) (ce_rot cv) (an_guild_id b) (an_pubkey b) (an_rotation_chain b) pins = (Inr (), p1)"
    and 2: "pin_all cv as p1 = (Inr (), pins')"
    using Cons.prems(1) by (auto split: prod.splits sum.splits)
  show ?case
  proof (cases "a \<in> set as")
    case True
    with Cons.IH [OF 2] Cons.prems(2) show ?thesis by simp
  next
    case False
    with Cons.prems(3) have "a = b" by simp
    with pin_all_other [OF 2, of "an_guild_id b"] pin_anchor_get [OF 1] Cons.prems(2) show ?thesis by auto
  qed
qed simp

text \<open>A peer the pins of \<open>pins'\<close> vouch for, pins that the response moved only along its certificates.\<close>

definition vouched_peer :: "cenv \<Rightarrow> register_resp \<Rightarrow> pins \<Rightarrow> pins \<Rightarrow> u64 \<Rightarrow> guild_attestation list \<Rightarrow> attestation \<Rightarrow> bool" where
  "vouched_peer cv resp pins pins' now atts att \<longleftrightarrow>
     (\<exists>ga\<in>set atts. \<exists>pk. tget pins' (at_guild_id att) = Some pk \<and>
        signed_under cv [(at_guild_id att, pk)] now ga att \<and>
        (\<forall>old. tget pins (at_guild_id att) = Some old \<longrightarrow>
           (old, pk) \<in> (offered cv (rs_anchors resp) (at_guild_id att))\<^sup>*))"

lemma signed_under_pins:
  assumes "signed_under cv (pinned_anchors resp pins') now ga att" and "ga \<in> set atts"
    and "pin_all cv (rs_anchors resp) pins = (r, pins')"
  shows "vouched_peer cv resp pins pins' now atts att"
proof -
  obtain s pk where pk: "(at_guild_id att, pk) \<in> set (pinned_anchors resp pins')"
    and s: "signed_under cv [(at_guild_id att, pk)] now ga att"
    using assms(1) by (auto simp: signed_under_def)
  then have "tget pins' (at_guild_id att) = Some pk"
    by (auto simp: pinned_anchors_iff load_anchor_def split: option.splits if_splits)
  moreover have "(old, pk) \<in> (offered cv (rs_anchors resp) (at_guild_id att))\<^sup>*" if "tget pins (at_guild_id att) = Some old" for old
    using pin_all_path [OF assms(3) that] calculation by auto
  ultimately show ?thesis using s assms(2) by (auto simp: vouched_peer_def)
qed

lemma post_Inr:
  assumes "post cv path reply now pins = (Inr (resp, dev), pins')"
  shows "pin_all cv (rs_anchors resp) pins = (Inr (), pins') \<and>
    (case rs_grant resp of
       None \<Rightarrow> dev = None
     | Some g \<Rightarrow> (\<exists>ga att. first_verified cv (gr_attestations g) (pinned_anchors resp pins') now (\<lambda>_. True) = Some (ga, att) \<and>
         dev = Some (self_device_of resp g att (ga_community_name ga))))"
  using assms by (auto simp: post_def verify_grant_def split: sum.splits option.splits prod.splits)

lemma fold_tput_set:
  "set (map snd (fold (\<lambda>p. tput (k p) p) xs m)) \<subseteq> set xs \<union> set (map snd m)"
proof (induction xs arbitrary: m)
  case (Cons x xs)
  have "set (map snd (tput (k x) x m)) \<subseteq> insert x (set (map snd m))"
    unfolding tput_def by (induction m) auto
  with Cons.IH [of "tput (k x) x m"] show ?case by auto
qed simp

lemma merge_seeds_set:
  assumes "p \<in> set (merge_seeds cv prev resp pins now)"
  shows "p \<in> set (verified_seeds cv resp pins now) \<or>
    p \<in> set prev \<and> rs_partial resp \<and> sp_pubkey p \<notin> set (rs_removed resp)"
proof (cases "rs_partial resp")
  case True
  let ?kept = "filter (\<lambda>p. sp_pubkey p \<notin> set (rs_removed resp)) prev"
  have "p \<in> set (map snd (fold (\<lambda>p. tput (sp_pubkey p) p) (verified_seeds cv resp pins now)
      (fold (\<lambda>p. tput (sp_pubkey p) p) ?kept [])))"
    using assms True by (simp add: merge_seeds_def)
  then have "p \<in> set (verified_seeds cv resp pins now) \<union> set (map snd (fold (\<lambda>p. tput (sp_pubkey p) p) ?kept []))"
    using subsetD [OF fold_tput_set [of sp_pubkey "verified_seeds cv resp pins now"
          "fold (\<lambda>p. tput (sp_pubkey p) p) ?kept []"]] by blast
  moreover have "set (map snd (fold (\<lambda>p. tput (sp_pubkey p) p) ?kept [])) \<subseteq> set ?kept"
    using fold_tput_set [of sp_pubkey ?kept "[]"] by simp
  ultimately show ?thesis using True by auto
next
  case False
  with assms show ?thesis by (simp add: merge_seeds_def)
qed

text \<open>C14 (only_pinned_peers).
  Whatever a coordinator, or anyone in its place, answers: every peer a device holds after folding
  the answer in was either held before and not named as removed by a delta, or comes from a seed
  one of whose attestations verifies under the anchor pinned for the attestation's guild, unexpired
  and with its address inside the signed network; and its own identity likewise. A pin that existed
  before the exchange is where it was, or was led to by the certificates the answer carries, hop by
  verified hop.\<close>

theorem only_pinned_peers:
  assumes "post cv path reply now pins = (Inr (resp, dev), pins')"
    and "p \<in> set (merge_seeds cv prev resp pins' now')"
  shows "(p \<in> set prev \<and> rs_partial resp \<and> sp_pubkey p \<notin> set (rs_removed resp) \<or>
      (\<exists>sd\<in>set (rs_seeds resp). \<exists>att. p = peer_of att sd \<and> ce_contains cv (at_wg_net att) (at_wg_ip att) \<and>
         vouched_peer cv resp pins pins' now' (sd_attestations sd) att)) \<and>
    (\<forall>d. dev = Some d \<longrightarrow> (\<exists>g att. rs_grant resp = Some g \<and> se_wg_ip d = at_wg_ip att \<and> se_hostname d = hostname att \<and>
         vouched_peer cv resp pins pins' now (gr_attestations g) att))"
proof -
  note run = post_Inr [OF assms(1)]
  have "\<exists>sd\<in>set (rs_seeds resp). \<exists>att. p = peer_of att sd \<and> ce_contains cv (at_wg_net att) (at_wg_ip att) \<and>
      vouched_peer cv resp pins pins' now' (sd_attestations sd) att"
    if new: "p \<in> set (verified_seeds cv resp pins' now')"
  proof -
    obtain sd where sd: "sd \<in> set (rs_seeds resp)" "admit_seed cv (pinned_anchors resp pins') now' sd = Some p"
      using new by (auto simp: verified_seeds_iff)
    with admit_seed_Some [OF sd(2)] signed_under_pins run show ?thesis by blast
  qed
  moreover have "\<exists>g att. rs_grant resp = Some g \<and> se_wg_ip d = at_wg_ip att \<and> se_hostname d = hostname att \<and>
      vouched_peer cv resp pins pins' now (gr_attestations g) att" if d: "dev = Some d" for d
  proof -
    obtain g ga att where g: "rs_grant resp = Some g" "d = self_device_of resp g att (ga_community_name ga)"
      and v: "first_verified cv (gr_attestations g) (pinned_anchors resp pins') now (\<lambda>_. True) = Some (ga, att)"
      using run d by (auto split: option.splits)
    from first_verified_Some [OF v] verify_blob_Some signed_under_pins run
    have "vouched_peer cv resp pins pins' now (gr_attestations g) att" by blast
    with g show ?thesis by (auto simp: self_device_of_def)
  qed
  ultimately show ?thesis using merge_seeds_set [OF assms(2)] by blast
qed

text \<open>
  What a peer serves of itself moves only the entry of that very peer, only towards a later expiry,
  only under an anchor already pinned and to an address inside the signed network; what the
  coordinator brokers for the pair (endpoint, punch target, relay, ICE, shared networks, revision)
  it does not touch.\<close>

theorem pull_is_bounded:
  assumes "verify_pulled cv blobs (sp_pubkey p) (sp_expires_at p) pins now = Some att"
  shows "(\<exists>ga\<in>set blobs. \<exists>pk. (at_guild_id att, pk) \<in> set pins \<and> signed_under cv [(at_guild_id att, pk)] now ga att) \<and>
    ce_contains cv (at_wg_net att) (sp_ip (apply_pulled att p)) \<and>
    sp_pubkey (apply_pulled att p) = at_wg_pubkey att \<and>
    sp_expires_at p < sp_expires_at (apply_pulled att p) \<and> now < sp_expires_at (apply_pulled att p) \<and>
    (let q = apply_pulled att p in sp_endpoint q = sp_endpoint p \<and> sp_punch q = sp_punch p \<and> sp_relay q = sp_relay p \<and>
       sp_ice q = sp_ice p \<and> sp_networks q = sp_networks p \<and> sp_rev q = sp_rev p)"
proof -
  obtain ga where f: "first_verified cv blobs (load_all_pinned pins) now (\<lambda>att. at_wg_pubkey att = sp_pubkey p \<and>
      ce_contains cv (at_wg_net att) (at_wg_ip att) \<and> sp_expires_at p < at_expires_at att) = Some (ga, att)"
    using assms by (auto simp: verify_pulled_def)
  note v = first_verified_Some [OF f]
  have su: "signed_under cv (load_all_pinned pins) now ga att" using v verify_blob_Some by blast
  then obtain pk where "(at_guild_id att, pk) \<in> set pins" "signed_under cv [(at_guild_id att, pk)] now ga att"
    unfolding signed_under_def load_all_pinned_def by fastforce
  moreover have "now < at_expires_at att" using su by (auto simp: signed_under_def)
  ultimately show ?thesis using v by (auto simp: apply_pulled_def)
qed

subsection \<open>Deltas\<close>

text \<open>
  The interface between a server that answers with changes and a client that folds them in: what
  one exchange promises, and that any number of them does.
\<close>

locale delta_sync =
  fixes sync :: "'p \<Rightarrow> 's \<Rightarrow> 'p"
    and view :: "'p \<Rightarrow> 'v"
    and full :: "'s \<Rightarrow> 'v"
    and ok :: "'p \<Rightarrow> bool"
    and fits :: "'s \<Rightarrow> bool"
  assumes sync_view: "ok p \<Longrightarrow> fits s \<Longrightarrow> view (sync p s) = full s"
    and sync_ok: "ok p \<Longrightarrow> fits s \<Longrightarrow> ok (sync p s)"
begin

lemma fold_ok: "ok p \<Longrightarrow> list_all fits ss \<Longrightarrow> ok (fold (\<lambda>s p. sync p s) ss p)"
  by (induction ss arbitrary: p) (auto intro: sync_ok)

lemma fold_view:
  assumes "ok p" and "list_all fits ss" and "ss \<noteq> []"
  shows "view (fold (\<lambda>s p. sync p s) ss p) = full (last ss)"
proof -
  obtain ss' s where ss: "ss = ss' @ [s]" using assms(3) by (metis append_butlast_last_id)
  with assms fold_ok [of p ss'] show ?thesis by (simp add: sync_view)
qed

end

text \<open>What of a peer outlives its attestation, and the peers a device holds by key.\<close>

definition lasting :: "seed_peer \<Rightarrow> seed_peer" where
  "lasting p = p\<lparr>sp_expires_at := 0\<rparr>"

definition roster :: "seed_peer list \<Rightarrow> key \<Rightarrow> seed_peer option" where
  "roster ps = map_of (map (\<lambda>p. (sp_pubkey p, lasting p)) ps)"

text \<open>
  One refresh: what the coordinator would answer in full (the seeds of \<open>build_seeds\<close> and the rest
  of the response), the pins it leaves, the client's clock and its refresh margin. \<open>delta_answer\<close> is the
  coordinator's \<open>apply_delta\<close> for the request the client sends.
\<close>

record refresh_round =
  rf_seeds :: "(key \<times> seed) list"
  rf_resp :: register_resp
  rf_pins :: pins
  rf_now :: u64
  rf_margin :: u64

definition delta_answer :: "register_resp \<Rightarrow> register_req \<Rightarrow> (key \<times> seed) list \<Rightarrow> register_resp" where
  "delta_answer resp req all =
     (case apply_delta req all of (seeds, drops, partial) \<Rightarrow>
        resp\<lparr>rs_seeds := seeds, rs_removed := drops, rs_partial := partial\<rparr>)"

definition refresh_peers :: "cenv \<Rightarrow> register_req \<Rightarrow> seed_peer list \<Rightarrow> refresh_round \<Rightarrow> seed_peer list" where
  "refresh_peers cv req prev x =
     merge_seeds cv prev
       (delta_answer (rf_resp x) (req\<lparr>rq_held := held_for_refresh prev (rf_now x) (rf_margin x)\<rparr>) (rf_seeds x))
       (rf_pins x) (rf_now x)"

definition full_peers :: "cenv \<Rightarrow> register_req \<Rightarrow> refresh_round \<Rightarrow> seed_peer list" where
  "full_peers cv req x =
     merge_seeds cv [] (delta_answer (rf_resp x) (req\<lparr>rq_held := []\<rparr>) (rf_seeds x)) (rf_pins x) (rf_now x)"

text \<open>
  A pool of peers in which a key and a revision determine the peer, what \<open>seed_rev\<close> is for; a
  held set drawn from it; and a round all of whose seeds verify, as peers of the pool.
\<close>

definition rev_determines :: "seed_peer set \<Rightarrow> bool" where
  "rev_determines pool \<longleftrightarrow> (\<forall>a\<in>pool. \<forall>b\<in>pool. sp_pubkey a = sp_pubkey b \<and> sp_rev a = sp_rev b \<longrightarrow> a = b)"

definition held_from :: "seed_peer set \<Rightarrow> seed_peer list \<Rightarrow> bool" where
  "held_from pool ps \<longleftrightarrow> rev_determines pool \<and> distinct (map sp_pubkey ps) \<and> lasting ` set ps \<subseteq> pool"

definition round_fits :: "cenv \<Rightarrow> seed_peer set \<Rightarrow> refresh_round \<Rightarrow> bool" where
  "round_fits cv pool x \<longleftrightarrow> distinct (map fst (rf_seeds x)) \<and>
     (\<forall>(pk, sd)\<in>set (rf_seeds x). \<exists>q. admit_seed cv (pinned_anchors (rf_resp x) (rf_pins x)) (rf_now x) sd = Some q \<and>
        sp_pubkey q = pk \<and> lasting q \<in> pool)"

lemma lasting_simps [simp]: "sp_pubkey (lasting p) = sp_pubkey p" "sp_rev (lasting p) = sp_rev p"
  by (simp_all add: lasting_def)

lemma admit_seed_rev: "admit_seed cv ps now sd = Some q \<Longrightarrow> sp_rev q = sd_rev sd"
  by (auto simp: admit_seed_def peer_of_def split: option.splits if_splits)

lemma tget_fold_tput:
  "distinct (map k xs) \<Longrightarrow> tget (fold (\<lambda>x. tput (k x) (v x)) xs m) j =
     (case map_of (map (\<lambda>x. (k x, v x)) xs) j of Some w \<Rightarrow> Some w | None \<Rightarrow> tget m j)"
proof (induction xs arbitrary: m)
  case (Cons x xs)
  then have "map_of (map (\<lambda>x. (k x, v x)) xs) (k x) = None"
    by (auto simp: map_of_eq_None_iff)
  with Cons show ?case by (auto split: option.splits)
qed simp

lemma tok_fold_tput: "tok m \<Longrightarrow> tok (fold (\<lambda>x. tput (k x) (v x)) xs m)"
  by (induction xs arbitrary: m) simp_all

lemma keyed_fold:
  assumes "\<forall>(j, p)\<in>set m. j = sp_pubkey p"
  shows "\<forall>(j, p)\<in>set (fold (\<lambda>p. tput (sp_pubkey p) p) xs m). j = sp_pubkey p"
  using assms
proof (induction xs arbitrary: m)
  case (Cons x xs)
  have "\<forall>(j, p)\<in>set (tput (sp_pubkey x) x m). j = sp_pubkey p"
    using Cons.prems unfolding tput_def by (induction m) auto
  with Cons.IH show ?case by simp
qed simp

lemma map_of_map_some: "map_of (map (\<lambda>x. (k x, f x)) xs) j = map_option f (map_of (map (\<lambda>x. (k x, x)) xs) j)"
  by (induction xs) auto

lemma roster_get: "roster ps j = map_option lasting (map_of (map (\<lambda>p. (sp_pubkey p, p)) ps) j)"
  unfolding roster_def by (rule map_of_map_some)

lemma roster_values:
  assumes "\<forall>(j, p)\<in>set m. j = sp_pubkey p"
  shows "roster (map snd m) j = map_option lasting (tget m j)"
  using assms by (induction m) (auto simp: roster_def tget_def)

text \<open>The table of a merge, before its values are listed.\<close>

definition merge_table :: "seed_peer list \<Rightarrow> key list \<Rightarrow> seed_peer list \<Rightarrow> (key, seed_peer) hmap" where
  "merge_table prev drops changed =
     fold (\<lambda>p. tput (sp_pubkey p) p) changed
       (fold (\<lambda>p. tput (sp_pubkey p) p) (filter (\<lambda>p. sp_pubkey p \<notin> set drops) prev) [])"

lemma merge_table_keyed: "\<forall>(j, p)\<in>set (merge_table prev drops changed). j = sp_pubkey p"
  unfolding merge_table_def by (intro keyed_fold) simp

lemma merge_table_get:
  assumes "distinct (map sp_pubkey prev)" and "distinct (map sp_pubkey changed)"
  shows "tget (merge_table prev drops changed) j =
    (case map_of (map (\<lambda>p. (sp_pubkey p, p)) changed) j of
       Some q \<Rightarrow> Some q
     | None \<Rightarrow> if j \<in> set drops then None else map_of (map (\<lambda>p. (sp_pubkey p, p)) prev) j)"
proof -
  have "distinct (map sp_pubkey (filter (\<lambda>p. sp_pubkey p \<notin> set drops) prev))"
    using assms(1) by (rule distinct_map_filter)
  moreover have "map_of (map (\<lambda>p. (sp_pubkey p, p)) (filter (\<lambda>p. sp_pubkey p \<notin> set drops) prev)) j =
      (if j \<in> set drops then None else map_of (map (\<lambda>p. (sp_pubkey p, p)) prev) j)"
    by (induction prev) auto
  ultimately show ?thesis
    unfolding merge_table_def by (simp add: tget_fold_tput [OF assms(2)] tget_fold_tput split: option.splits)
qed

lemma merge_values:
  assumes "distinct (map sp_pubkey prev)" and "distinct (map sp_pubkey changed)"
  shows "distinct (map sp_pubkey (map snd (merge_table prev drops changed)))"
proof -
  let ?t = "merge_table prev drops changed"
  have keys: "map sp_pubkey (map snd ?t) = map fst ?t"
    unfolding map_map by (rule map_cong [OF refl]) (use merge_table_keyed in fastforce)
  have "tok ?t" unfolding merge_table_def by (intro tok_fold_tput) simp
  then show ?thesis unfolding keys by (simp add: tok_def)
qed

text \<open>A round's seeds, or some of them, as the peers they are admitted as.\<close>

definition admitted :: "cenv \<Rightarrow> refresh_round \<Rightarrow> seed \<Rightarrow> seed_peer" where
  "admitted cv x sd = the (admit_seed cv (pinned_anchors (rf_resp x) (rf_pins x)) (rf_now x) sd)"

lemma admitted_seeds:
  assumes "round_fits cv pool x" and "set l \<subseteq> set (rf_seeds x)"
  shows "List.map_filter (admit_seed cv (pinned_anchors (rf_resp x) (rf_pins x)) (rf_now x)) (map snd l) =
      map (admitted cv x \<circ> snd) l \<and>
    map sp_pubkey (map (admitted cv x \<circ> snd) l) = map fst l \<and>
    (\<forall>(pk, sd)\<in>set l. lasting (admitted cv x sd) \<in> pool \<and> sp_rev (admitted cv x sd) = sd_rev sd)"
  using assms(2)
proof (induction l)
  case (Cons e l)
  obtain pk sd where e: "e = (pk, sd)" by (cases e)
  then obtain q where q: "admit_seed cv (pinned_anchors (rf_resp x) (rf_pins x)) (rf_now x) sd = Some q"
    "sp_pubkey q = pk" "lasting q \<in> pool"
    using assms(1) Cons.prems by (auto simp: round_fits_def)
  with Cons e admit_seed_rev [OF q(1)] show ?case
    by (auto simp: admitted_def map_filter_simps)
qed (simp add: map_filter_simps)

lemma admitted_one:
  assumes "round_fits cv pool x" and "(pk, sd) \<in> set (rf_seeds x)"
  shows "sp_pubkey (admitted cv x sd) = pk" and "lasting (admitted cv x sd) \<in> pool" and "sp_rev (admitted cv x sd) = sd_rev sd"
  using admitted_seeds [OF assms(1), of "[(pk, sd)]"] assms(2) by simp_all

lemma admitted_distinct:
  assumes "round_fits cv pool x"
  shows "distinct (map sp_pubkey (map (admitted cv x \<circ> snd) (filter P (rf_seeds x))))"
proof -
  have "map sp_pubkey (map (admitted cv x \<circ> snd) (filter P (rf_seeds x))) = map fst (filter P (rf_seeds x))"
    using admitted_seeds [OF assms, of "filter P (rf_seeds x)"] by (meson filter_is_subset)
  moreover have "distinct (map fst (filter P (rf_seeds x)))"
    using assms by (intro distinct_map_filter) (simp add: round_fits_def)
  ultimately show ?thesis by presburger
qed

lemma admitted_get:
  assumes "round_fits cv pool x" and "set l \<subseteq> set (rf_seeds x)"
  shows "map_of (map (\<lambda>p. (sp_pubkey p, p)) (map (admitted cv x \<circ> snd) l)) j = map_option (admitted cv x) (map_of l j)"
  using assms(2)
proof (induction l)
  case (Cons e l)
  have "sp_pubkey (admitted cv x (snd e)) = fst e"
    using admitted_one(1) [OF assms(1), of "fst e" "snd e"] Cons.prems by simp
  with Cons show ?case by (cases e) auto
qed simp

lemma answer_anchors [simp]: "pinned_anchors (delta_answer resp req all) pins = pinned_anchors resp pins"
  by (simp add: delta_answer_def pinned_anchors_def split: prod.split)

lemma full_peers_eq:
  assumes "round_fits cv pool x"
  shows "full_peers cv req x = map (admitted cv x \<circ> snd) (rf_seeds x)"
  using admitted_seeds [OF assms, of "rf_seeds x"]
  by (simp add: full_peers_def merge_seeds_def verified_seeds_def delta_answer_def apply_delta_def)
     (simp add: pinned_anchors_def)

lemma held_revs_get:
  assumes "distinct (map sp_pubkey prev)"
  shows "tget (held_revs (req\<lparr>rq_held := map (\<lambda>p. \<lparr>hp_pubkey = sp_pubkey p, hp_rev = sp_rev p\<rparr>) prev\<rparr>)) j =
    map_option sp_rev (map_of (map (\<lambda>p. (sp_pubkey p, p)) prev) j)"
proof -
  let ?held = "map (\<lambda>p. \<lparr>hp_pubkey = sp_pubkey p, hp_rev = sp_rev p\<rparr>) prev"
  have d: "distinct (map hp_pubkey ?held)" using assms by (simp add: comp_def)
  show ?thesis
    unfolding held_revs_def
    by (simp add: tget_fold_tput [OF d] map_of_map_some [of sp_pubkey sp_rev] comp_def split: option.splits)
qed

text \<open>The delta of a round, as the table the client ends with.\<close>

lemma delta_peers_eq:
  assumes "round_fits cv pool x" and "held_for_refresh prev (rf_now x) (rf_margin x) \<noteq> []"
    and req': "req' = req\<lparr>rq_held := map (\<lambda>p. \<lparr>hp_pubkey = sp_pubkey p, hp_rev = sp_rev p\<rparr>) prev\<rparr>"
  shows "refresh_peers cv req prev x =
    map snd (merge_table prev (filter (\<lambda>pk. pk \<notin> set (map fst (rf_seeds x))) (tkeys (held_revs req')))
      (map (admitted cv x \<circ> snd) (filter (\<lambda>(pk, s). tget (held_revs req') pk \<noteq> Some (sd_rev s)) (rf_seeds x))))"
proof -
  let ?l = "filter (\<lambda>(pk, s). tget (held_revs req') pk \<noteq> Some (sd_rev s)) (rf_seeds x)"
  have held: "held_for_refresh prev (rf_now x) (rf_margin x) = map (\<lambda>p. \<lparr>hp_pubkey = sp_pubkey p, hp_rev = sp_rev p\<rparr>) prev"
    using assms(2) by (auto simp: held_for_refresh_def split: if_splits)
  then have ne: "rq_held req' \<noteq> []" using assms(2) by (simp add: req')
  have "List.map_filter (admit_seed cv (pinned_anchors (rf_resp x) (rf_pins x)) (rf_now x)) (map snd ?l) =
      map (admitted cv x \<circ> snd) ?l"
    using admitted_seeds [OF assms(1), of ?l] by auto
  moreover have "pinned_anchors (rf_resp x \<lparr>rs_seeds := a, rs_removed := b, rs_partial := d\<rparr>) (rf_pins x) =
      pinned_anchors (rf_resp x) (rf_pins x)" for a b d
    by (simp add: pinned_anchors_def)
  ultimately show ?thesis
    unfolding refresh_peers_def held req' [symmetric]
    by (simp add: merge_seeds_def verified_seeds_def delta_answer_def apply_delta_def ne merge_table_def)
qed

lemma refresh_when_full:
  assumes "held_for_refresh prev (rf_now x) (rf_margin x) = []"
  shows "refresh_peers cv req prev x = full_peers cv req x"
  by (simp add: refresh_peers_def full_peers_def assms merge_seeds_def delta_answer_def apply_delta_def verified_seeds_def)

lemma map_of_roster: "map_of (map (\<lambda>p. (sp_pubkey p, p)) ps) j = Some p \<Longrightarrow> p \<in> set ps \<and> sp_pubkey p = j"
  by (induction ps) (auto split: if_splits)

lemma delta_view:
  assumes "held_from pool prev" and "round_fits cv pool x" and "held_for_refresh prev (rf_now x) (rf_margin x) \<noteq> []"
  shows "roster (refresh_peers cv req prev x) j = roster (full_peers cv req x) j"
proof -
  define req' where "req' = req\<lparr>rq_held := map (\<lambda>p. \<lparr>hp_pubkey = sp_pubkey p, hp_rev = sp_rev p\<rparr>) prev\<rparr>"
  let ?revs = "held_revs req'"
  let ?l = "filter (\<lambda>(pk, s). tget ?revs pk \<noteq> Some (sd_rev s)) (rf_seeds x)"
  let ?rm = "filter (\<lambda>pk. pk \<notin> set (map fst (rf_seeds x))) (tkeys ?revs)"
  let ?prev = "map_of (map (\<lambda>p. (sp_pubkey p, p)) prev)"
  have d: "distinct (map sp_pubkey prev)" "distinct (map fst (rf_seeds x))"
    using assms(1,2) by (simp_all add: held_from_def round_fits_def)
  have revs: "tget ?revs k = map_option sp_rev (?prev k)" for k
    unfolding req'_def by (rule held_revs_get [OF d(1)])
  have sub: "set ?l \<subseteq> set (rf_seeds x)" by auto
  have dl: "distinct (map sp_pubkey (map (admitted cv x \<circ> snd) ?l))" by (rule admitted_distinct [OF assms(2)])
  have lhs: "roster (refresh_peers cv req prev x) j = map_option lasting
      (case map_option (admitted cv x) (map_of ?l j) of Some q \<Rightarrow> Some q | None \<Rightarrow> if j \<in> set ?rm then None else ?prev j)"
    unfolding delta_peers_eq [OF assms(2,3) req'_def] roster_values [OF merge_table_keyed]
      merge_table_get [OF d(1) dl] admitted_get [OF assms(2) sub] ..
  have rhs: "roster (full_peers cv req x) j = map_option lasting (map_option (admitted cv x) (map_of (rf_seeds x) j))"
    unfolding full_peers_eq [OF assms(2)] roster_get using admitted_get [OF assms(2), of "rf_seeds x" j] by simp
  have l: "map_of ?l j = (case map_of (rf_seeds x) j of None \<Rightarrow> None
      | Some sd \<Rightarrow> if tget ?revs j \<noteq> Some (sd_rev sd) then Some sd else None)"
    by (rule map_of_filter_distinct [OF d(2)])
  show ?thesis
  proof (cases "map_of (rf_seeds x) j")
    case None
    then have "j \<notin> fst ` set (rf_seeds x)" by (simp add: map_of_eq_None_iff)
    then have "?prev j = None \<or> j \<in> set ?rm" using revs [of j] by (auto simp: set_tkeys)
    moreover have "map_of ?l j = None" using None l by simp
    ultimately have "roster (refresh_peers cv req prev x) j = None" unfolding lhs by auto
    with None rhs show ?thesis by simp
  next
    case (Some sd)
    then have mem: "(j, sd) \<in> set (rf_seeds x)" by (rule map_of_SomeD)
    then have jr: "j \<notin> set ?rm" by force
    show ?thesis
    proof (cases "tget ?revs j = Some (sd_rev sd)")
      case False
      with Some lhs rhs l show ?thesis by simp
    next
      case True
      then obtain p where p: "?prev j = Some p" "sp_rev p = sd_rev sd" using revs [of j] by auto
      have a: "lasting (admitted cv x sd) \<in> pool" "sp_rev (admitted cv x sd) = sd_rev sd"
        using admitted_one [OF assms(2) mem] by simp_all
      have k: "sp_pubkey (admitted cv x sd) = j" using admitted_one [OF assms(2) mem] by simp
      have "lasting p \<in> pool" "sp_pubkey p = j" using map_of_roster [OF p(1)] assms(1) by (auto simp: held_from_def)
      then have "lasting p = lasting (admitted cv x sd)"
        using assms(1) a k p(2) unfolding held_from_def rev_determines_def by (metis lasting_simps)
      with Some True lhs rhs l jr p(1) show ?thesis by simp
    qed
  qed
qed

lemma refresh_view:
  assumes "held_from pool prev" and "round_fits cv pool x"
  shows "roster (refresh_peers cv req prev x) = roster (full_peers cv req x)"
  using delta_view [OF assms] refresh_when_full by (metis ext)

lemma full_held_from:
  assumes "rev_determines pool" and "round_fits cv pool x"
  shows "held_from pool (full_peers cv req x)"
proof -
  have "distinct (map sp_pubkey (full_peers cv req x))"
    unfolding full_peers_eq [OF assms(2)] using admitted_distinct [OF assms(2), of "\<lambda>_. True"] by simp
  moreover have "lasting ` set (full_peers cv req x) \<subseteq> pool"
    unfolding full_peers_eq [OF assms(2)] using admitted_one(2) [OF assms(2)] by auto
  ultimately show ?thesis using assms(1) by (simp add: held_from_def)
qed

lemma roster_lasting: "roster ps j = Some q \<Longrightarrow> q \<in> lasting ` set ps"
  by (auto simp: roster_get dest: map_of_roster)

lemma roster_mem: "distinct (map sp_pubkey ps) \<Longrightarrow> p \<in> set ps \<Longrightarrow> roster ps (sp_pubkey p) = Some (lasting p)"
  by (induction ps) (auto simp: roster_def image_iff)

lemma refresh_held_from:
  assumes "held_from pool prev" and "round_fits cv pool x"
  shows "held_from pool (refresh_peers cv req prev x)"
proof (cases "held_for_refresh prev (rf_now x) (rf_margin x) = []")
  case True
  have "rev_determines pool" using assms(1) by (simp add: held_from_def)
  from full_held_from [OF this assms(2)] show ?thesis by (simp only: refresh_when_full [where req = req, OF True])
next
  case False
  have "rev_determines pool" using assms(1) by (simp add: held_from_def)
  then have f: "held_from pool (full_peers cv req x)" using assms(2) by (rule full_held_from)
  have "distinct (map sp_pubkey (refresh_peers cv req prev x))"
    unfolding delta_peers_eq [OF assms(2) False refl]
    by (intro merge_values admitted_distinct [OF assms(2)]) (use assms(1) in \<open>simp add: held_from_def\<close>)
  then have "lasting p \<in> pool" if "p \<in> set (refresh_peers cv req prev x)" for p
    using roster_mem [OF _ that] refresh_view [OF assms, of req] roster_lasting f
    by (metis held_from_def subsetD)
  with \<open>distinct _\<close> f show ?thesis by (auto simp: held_from_def)
qed

interpretation delta: delta_sync "refresh_peers cv req" roster "\<lambda>x. roster (full_peers cv req x)"
    "held_from pool" "round_fits cv pool" for cv req pool
  by unfold_locales (simp_all add: refresh_view refresh_held_from)

text \<open>C16 (deltas_are_full).
  However a device and its coordinator got here, by whole answers or by deltas against what the
  device said it holds, the peers it holds after a refresh are the ones the last answer would
  have given it in full, but for the expiry of attestations a delta does not resend: as long as the
  seeds verify and a revision stands for one content of its peer.\<close>

theorem deltas_are_full:
  assumes "held_from pool prev" and "list_all (round_fits cv pool) rounds" and "rounds \<noteq> []"
  shows "roster (fold (\<lambda>x ps. refresh_peers cv req ps x) rounds prev) = roster (full_peers cv req (last rounds))"
  by (rule delta.fold_view [OF assms])

subsection \<open>The two sides together\<close>

lemma anchor_step:
  assumes "env_inv ev st" and "bindA (keysA ev g) (\<lambda>gk. retA \<lparr>an_guild_id = g,
      an_pubkey = ed_anchor (e_crypto ev) (sg_key (gk_signer gk)), an_rotation_chain = gk_rotation_chain gk\<rparr>) st = (Inr a, st1)"
  shows "env_inv ev st1 \<and> (an_guild_id a = g \<and>
      (\<exists>seed. seed_of (a_signing st1) g = Some seed \<and> an_pubkey a = ed_anchor (e_crypto ev) seed)) \<and> signs_only st st1"
proof -
  obtain gk where k: "keysA ev g st = (Inr gk, st1)" and a: "an_guild_id a = g"
    "an_pubkey a = ed_anchor (e_crypto ev) (sg_key (gk_signer gk))"
    using assms(2) by (auto simp: bindA_Inr)
  with keysA_step [OF assms(1) k] show ?thesis by (auto simp: signer_from_seed_def)
qed

text \<open>An anchor per guild, the one its key signs under.\<close>

definition anchors_of :: "env \<Rightarrow> u64 list \<Rightarrow> guild_anchor list \<Rightarrow> app \<Rightarrow> bool" where
  "anchors_of ev gs as st \<longleftrightarrow> map an_guild_id as = gs \<and>
     (\<forall>a\<in>set as. \<exists>seed. seed_of (a_signing st) (an_guild_id a) = Some seed \<and> an_pubkey a = ed_anchor (e_crypto ev) seed)"

lemma build_anchors_spec:
  assumes "env_inv ev st" and "build_anchors ev gs st = (Inr as, st1)"
  shows "env_inv ev st1 \<and> signs_only st st1 \<and> anchors_of ev gs as st1"
proof -
  let ?Q = "\<lambda>g a st. an_guild_id a = g \<and>
      (\<exists>seed. seed_of (a_signing st) g = Some seed \<and> an_pubkey a = ed_anchor (e_crypto ev) seed)"
  have "env_inv ev st1 \<and> signs_only st st1 \<and> list_all2 (\<lambda>g a. ?Q g a st1) gs as"
  proof (rule mapA_all [where P = "env_inv ev" and R = signs_only and Q = ?Q, OF _ _ _ _ assms(1) assms(2) [unfolded build_anchors_def]])
    show "?Q g a s1" if "?Q g a s" "signs_only s s1" for g a s s1
      using that by (auto simp: signs_only_def)
  qed (use anchor_step signs_only_trans in \<open>blast intro: signs_only_refl\<close>)+
  moreover from this have "map an_guild_id as = gs"
    by (intro nth_equalityI) (auto simp: list_all2_conv_all_nth)
  ultimately show ?thesis
    by (auto simp: anchors_of_def list_all2_conv_all_nth in_set_conv_nth)
qed

lemma sign_release_grows:
  assumes "env_inv ev st" and "sign_release ev gs st = (Inr r, st1)"
  shows "keys_grow st st1"
proof -
  have "signs_only st s1" if "keysA ev g st = (res, s1)" for g res s1
    using keysA_step [OF assms(1) that] by blast
  with assms(2) show ?thesis
    by (auto simp: sign_release_def bindA_Inr base64A_step split: option.splits list.splits
        intro: signs_grow)
qed

lemma snapshot_stamp_spec:
  assumes "env_inv ev st" and "snapshot_stamp ev req cl rd st = (Inr b, st')"
  shows "keys_grow st st' \<and> anchors_of ev (ms_guilds (cl_m cl)) (rs_anchors (bt_resp b)) st' \<and>
    rs_grant (bt_resp b) = rd_grant rd \<and>
    (rs_seeds (bt_resp b), rs_removed (bt_resp b), rs_partial (bt_resp b)) = apply_delta req (rd_seeds rd)"
proof -
  obtain seeds drops partial where d: "apply_delta req (rd_seeds rd) = (seeds, drops, partial)" by (metis prod.exhaust)
  let ?st1 = "bump_changed (cl_changed cl) st"
  let ?st2 = "?st1\<lparr>a_wakers := fold wake (remdups (rd_wakes rd)) (a_wakers ?st1)\<rparr>"
  have sg: "a_signing ?st2 = a_signing st" by (simp add: bump_changed_def)
  then have i2: "env_inv ev ?st2" using assms(1) by (simp add: env_inv_def)
  obtain as st3 where a: "build_anchors ev (ms_guilds (cl_m cl)) ?st2 = (Inr as, st3)"
    and r: "\<exists>rel. sign_release ev (ms_guilds (cl_m cl)) st3 = (Inr rel, st')"
    and b: "rs_anchors (bt_resp b) = as" "rs_grant (bt_resp b) = rd_grant rd" "rs_seeds (bt_resp b) = seeds"
      "rs_removed (bt_resp b) = drops" "rs_partial (bt_resp b) = partial"
    using assms(2) by (auto simp: snapshot_stamp_def d Let_def bindA_Inr)
  note as = build_anchors_spec [OF i2 a]
  obtain rel where "sign_release ev (ms_guilds (cl_m cl)) st3 = (Inr rel, st')" using r by blast
  then have g: "keys_grow st3 st'" using sign_release_grows as by blast
  have "keys_grow ?st2 st3" using as signs_grow by blast
  then have "keys_grow st st3" using sg by (simp add: keys_grow_def)
  moreover have "anchors_of ev (ms_guilds (cl_m cl)) as st'" using as g by (auto simp: anchors_of_def keys_grow_def)
  ultimately show ?thesis using g b d keys_grow_trans by auto
qed

lemma ms_guilds_distinct [simp]: "distinct (ms_guilds m)"
  by (simp add: ms_guilds_def)

lemma ms_guilds_ne: "has_identity m \<Longrightarrow> ms_guilds m \<noteq> []"
  by (auto simp: ms_guilds_def has_identity_def)

text \<open>A client of this coordinator: the same signature scheme and codecs.\<close>

definition client_of :: "env \<Rightarrow> cenv \<Rightarrow> bool" where
  "client_of ev cv \<longleftrightarrow> ce_crypto cv = e_crypto ev \<and> ce_att cv = e_att ev \<and> rk_signed (ce_rot cv) = e_signed ev"

text \<open>On the wire an anchor is a \<open>[u8; 32]\<close>.\<close>

definition anchors_typed :: "register_resp \<Rightarrow> bool" where
  "anchors_typed resp \<longleftrightarrow> list_all (\<lambda>a. length (an_pubkey a) = 32) (rs_anchors resp)"

definition trusts :: "env \<Rightarrow> pinned \<Rightarrow> u64 list \<Rightarrow> app \<Rightarrow> bool" where
  "trusts ev ps gs st \<longleftrightarrow>
     (\<forall>g\<in>set gs. \<forall>seed. seed_of (a_signing st) g = Some seed \<longrightarrow> (g, ed_anchor (e_crypto ev) seed) \<in> set ps)"

definition client_time_ok :: "env \<Rightarrow> app \<Rightarrow> u64 \<Rightarrow> bool" where
  "client_time_ok ev st now \<longleftrightarrow>
     unat now < unat (e_now ev) + (unat (gks_ttl (sn_keys (a_signing st))) - unat (gks_ttl (sn_keys (a_signing st))) div 2)"

lemma vouched_read:
  assumes "vouchedA ev g i (ga_att_schema ga) (ga_attestation ga) st" and "client_of ev cv" and "signing_ok (e_crypto ev)"
    and "trusts ev ps gs st" and "g \<in> set gs" and "client_time_ok ev st now"
  shows "\<exists>att. verify_blob cv ps now ga = Some att \<and> at_wg_ip att = id_ip i \<and> at_wg_pubkey att = id_pubkey i \<and>
    at_username att = id_username i \<and> at_device_name att = id_device_name i \<and>
    at_wg_net att = gks_wg_net (sn_keys (a_signing st))"
proof -
  obtain seed s att where v: "seed_of (a_signing st) g = Some seed" "from_base64 (e_crypto ev) (e_signed ev) (ga_attestation ga) = Inr s"
    "verify_attestation (e_crypto ev) (e_att ev) s (ed_anchor (e_crypto ev) seed) (e_now ev) g (ga_att_schema ga) = Inr att"
    and f: "at_wg_ip att = id_ip i" "at_wg_pubkey att = id_pubkey i" "at_username att = id_username i"
      "at_device_name att = id_device_name i" "at_wg_net att = gks_wg_net (sn_keys (a_signing st))"
    and t: "unat (e_now ev) + (unat (gks_ttl (sn_keys (a_signing st))) - unat (gks_ttl (sn_keys (a_signing st))) div 2)
      \<le> unat (at_expires_at att)"
    using assms(1) by (auto simp: vouched_def)
  have "now < at_expires_at att" using t assms(6) by (simp add: client_time_ok_def word_less_nat_alt)
  note later = verify_later [OF v(3) this]
  have "(g, ed_anchor (e_crypto ev) seed) \<in> set ps" using assms(4,5) v(1) by (simp add: trusts_def)
  moreover have "ed_key_ok (ce_crypto cv) (ed_anchor (e_crypto ev) seed)"
    using assms(2,3) by (simp add: client_of_def signing_ok_def)
  ultimately have "verify_against_pinned cv s ps now (ga_att_schema ga) = Some att"
    by (rule verify_against_pinned_hit) (use later assms(2) in \<open>simp add: client_of_def\<close>)
  with v(2) f assms(2) show ?thesis by (simp add: verify_blob_def client_of_def)
qed

lemma attests_read:
  assumes "attests ev i gs' atts st" and "gs' \<noteq> []" and "set gs' \<subseteq> set gs" and "client_of ev cv"
    and "signing_ok (e_crypto ev)" and "trusts ev ps gs st" and "client_time_ok ev st now"
  shows "\<exists>ga att. first_verified cv atts ps now (\<lambda>_. True) = Some (ga, att) \<and> at_wg_ip att = id_ip i \<and>
    at_wg_pubkey att = id_pubkey i \<and> at_username att = id_username i \<and> at_device_name att = id_device_name i \<and>
    at_wg_net att = gks_wg_net (sn_keys (a_signing st))"
proof -
  have each: "\<exists>att. verify_blob cv ps now ga = Some att \<and> at_wg_ip att = id_ip i \<and> at_wg_pubkey att = id_pubkey i \<and>
      at_username att = id_username i \<and> at_device_name att = id_device_name i \<and>
      at_wg_net att = gks_wg_net (sn_keys (a_signing st))" if ga: "ga \<in> set atts" for ga
  proof -
    obtain g where "g \<in> set gs'" "ga_att_schema ga = ATTESTATION_SCHEMA_V2"
      "vouchedA ev g i ATTESTATION_SCHEMA_V2 (ga_attestation ga) st"
      using assms(1) ga unfolding attests_def list_all2_conv_all_nth by (metis in_set_conv_nth nth_mem)
    with vouched_read [OF _ assms(4-6) _ assms(7)] assms(3) show ?thesis by (metis subsetD)
  qed
  have "atts \<noteq> []" using assms(1,2) by (auto simp: attests_def)
  with first_verified_hit [of atts cv ps now "\<lambda>_. True"] each show ?thesis by (metis hd_in_set option.inject)
qed

lemma pins_trust:
  assumes "anchors_of ev gs (rs_anchors resp) st" and "distinct gs" and "anchors_typed resp"
    and "pin_all cv (rs_anchors resp) pins = (Inr (), pins')"
  shows "trusts ev (pinned_anchors resp pins') gs st"
proof -
  have "(g, ed_anchor (e_crypto ev) seed) \<in> set (pinned_anchors resp pins')"
    if g: "g \<in> set gs" "seed_of (a_signing st) g = Some seed" for g seed
  proof -
    obtain a where a: "a \<in> set (rs_anchors resp)" "an_guild_id a = g"
      using assms(1) g(1) by (auto simp: anchors_of_def)
    then have pk: "an_pubkey a = ed_anchor (e_crypto ev) seed" using assms(1) g(2) by (auto simp: anchors_of_def)
    have "distinct (map an_guild_id (rs_anchors resp))" using assms(1,2) by (simp add: anchors_of_def)
    from pin_all_pinned [OF assms(4) this a(1)] pk a assms(3) show ?thesis
      by (auto simp: pinned_anchors_iff load_anchor_def anchors_typed_def list_all_iff)
  qed
  then show ?thesis by (simp add: trusts_def)
qed

lemma env_inv_same_keys:
  assumes "env_inv ev st" and "a_signing st' = (a_signing st)\<lparr>sn_store := s\<rparr>"
    and "guild_signing_keys s = guild_signing_keys (sn_store (a_signing st))"
  shows "env_inv ev st'"
proof -
  have "seed_of (a_signing st') = seed_of (a_signing st)" using assms(2,3) by (simp add: seed_of_def fun_eq_iff)
  then show ?thesis
    using assms(1,2) by (simp add: env_inv_def signing_inv_def keys_inv_def cache_inv_def blob_for_def time_ok_def)
qed

lemma token_env_inv:
  assumes "env_inv ev st" and "dbA err (device_token pk fresh) st = (res, st')"
  shows "env_inv ev st'"
proof -
  obtain r s where d: "device_token pk fresh (a_store st) = (r, s)" by fastforce
  then have "guild_signing_keys s = guild_signing_keys (a_store st)"
    by (auto simp: device_token_def update_device_def split: option.splits)
  with env_inv_same_keys [OF assms(1)] assms(2) d show ?thesis
    by (auto simp: dbA_eq set_store_def)
qed

lemma snapshot_read_grows:
  assumes "ready ev st" and "snapshot_read ev req cl st = (Inr rd, st')"
  shows "keys_grow st st' \<and> env_inv ev st'"
proof -
  obtain gr st1 all wakes st2 where g: "build_grant ev req (cl_user cl) (cl_device cl) (cl_m cl) ATTESTATION_SCHEMA_V2 st = (Inr gr, st1)"
    and b: "build_seeds ev req (cl_user cl) (cl_m cl) (ms_guilds (cl_m cl)) ATTESTATION_SCHEMA_V2 st1 = (Inr (all, wakes), st2)"
    and t: "\<exists>tok. (if cl_enrolled cl then retA None else dbA internal (device_token (rq_wg_pubkey req) (e_fresh_token ev))) st2 = (Inr tok, st')"
    using assms(2) by (auto simp: snapshot_read_def bindA_Inr split: prod.splits)
  note gs = build_grant_spec [OF assms(1) g]
  obtain nt ws where rec: "record_peer_reports req (tkeys (comembers_of req (cl_user cl) (cl_m cl) (ms_guilds (cl_m cl)) (a_presence st1)))
      (a_nat st1) [] = (nt, ws)" by fastforce
  note bs = build_seeds_spec [OF conjunct1 [OF gs] b rec]
  have 1: "keys_grow st st1" using gs signs_grow by blast
  have 2: "keys_grow st1 st2" using signs_grow [of "st1\<lparr>a_nat := nt\<rparr>" st2] bs by (auto simp: keys_grow_def)
  have 3: "keys_grow st2 st' \<and> env_inv ev st'"
  proof (cases "cl_enrolled cl")
    case True
    with t have "st' = st2" by auto
    with bs show ?thesis by (simp add: keys_grow_def ready_def)
  next
    case False
    with t obtain tok where tk: "dbA internal (device_token (rq_wg_pubkey req) (e_fresh_token ev)) st2 = (Inr tok, st')" by auto
    from bs have "env_inv ev st2" by (simp add: ready_def)
    from token_env_inv [OF this tk] token_grow [OF tk] show ?thesis by simp
  qed
  from keys_grow_trans [OF keys_grow_trans [OF 1 2]] 3 show ?thesis by blast
qed

text \<open>Where the addresses the coordinator hands out lie, as the client's \<open>contains\<close> sees it.\<close>

definition addresses_inside :: "cenv \<Rightarrow> register_req \<Rightarrow> u64 \<Rightarrow> mship \<Rightarrow> app \<Rightarrow> bool" where
  "addresses_inside cv req u m st \<longleftrightarrow>
     (\<forall>pk mp. presents req u m (a_presence st) pk mp \<longrightarrow>
        ce_contains cv (gks_wg_net (sn_keys (a_signing st))) (mp_ip mp))"

lemma seed_guilds_sub:
  assumes "fst ` set (ms_held m) \<subseteq> set (ms_guilds m)"
  shows "seed_guilds req m p pk \<subseteq> set (ms_guilds m)"
  using assms by (auto simp: seed_guilds_def shared_with_def dest!: set_zip_leftD)

text \<open>C12 (peers_are_comembers).
  The whole path of one poll: a device that trusts this coordinator's guild keys, polls, pins what
  the answer carries and reads its seeds holds exactly its co-members (the devices present in its
  enabled networks, and its owner's own where it asked for them), each under its own key, at the
  address and name it presents there, sharing the networks it shares; and its own grant verifies,
  exactly when it has an identity.\<close>

theorem peers_are_comembers:
  assumes "presence_ok (a_presence st)" and "ready ev st" and "snapshot_read ev req cl st = (Inr rd, st1)"
    and "snapshot_stamp ev req cl rd st1 = (Inr b, st2)" and "rq_held req = []"
    and "fst ` set (ms_held (cl_m cl)) \<subseteq> set (ms_guilds (cl_m cl))"
    and "client_of ev cv" and "addresses_inside cv req (cl_user cl) (cl_m cl) st" and "client_time_ok ev st now"
    and "anchors_typed (bt_resp b)" and "pin_all cv (rs_anchors (bt_resp b)) pins = (Inr (), pins')"
  shows "set (map sp_pubkey (verified_seeds cv (bt_resp b) pins' now)) =
      {pk. shared_with req (cl_m cl) (a_presence st) pk \<noteq> [] \<or> own_sibling req (cl_user cl) (cl_m cl) (a_presence st) pk} \<and>
    (\<forall>q\<in>set (verified_seeds cv (bt_resp b) pins' now).
       \<exists>mp. presents req (cl_user cl) (cl_m cl) (a_presence st) (sp_pubkey q) mp \<and> sp_ip q = mp_ip mp \<and>
         sp_hostname q = mp_device_name mp @ ''.'' @ mp_username mp @ ''.'' @ DNS_SUFFIX \<and>
         set (sp_networks q) = net_of (cl_m cl) ` set (shared_with req (cl_m cl) (a_presence st) (sp_pubkey q))) \<and>
    (case rs_grant (bt_resp b) of
       None \<Rightarrow> \<not> has_identity (cl_m cl)
     | Some g \<Rightarrow> has_identity (cl_m cl) \<and>
         (\<exists>att c. verify_grant cv g (pinned_anchors (bt_resp b) pins') now = Some (att, c) \<and>
            at_wg_pubkey att = rq_wg_pubkey req \<and> at_wg_ip att = dv_ip (cl_device cl)))"
proof -
  let ?m = "cl_m cl" and ?u = "cl_user cl" and ?p = "a_presence st"
  let ?ps = "pinned_anchors (bt_resp b) pins'"
  note rd = snapshot_read_spec [OF assms(1-3)]
  note rd_keys = rd [THEN conjunct2, THEN conjunct1, rule_format]
  note rd_each = rd [THEN conjunct2, THEN conjunct2, THEN conjunct1, rule_format]
  note rd_grant = rd [THEN conjunct2, THEN conjunct2, THEN conjunct2]
  have grow1: "keys_grow st st1 \<and> env_inv ev st1"
    by (rule snapshot_read_grows [OF assms(2,3)])
  note stamp = snapshot_stamp_spec [OF conjunct2 [OF grow1] assms(4)]
  have grow: "keys_grow st1 st2" using stamp by blast
  have sk: "signing_ok (e_crypto ev)" using assms(2) by (simp add: ready_def crypto_ok_def)
  have tr: "trusts ev ?ps (ms_guilds ?m) st2"
    using pins_trust [OF _ ms_guilds_distinct assms(10,11)] stamp by blast
  have ct: "client_time_ok ev st2 now"
    using assms(9) grow1 grow by (simp add: client_time_ok_def keys_grow_def)
  have net: "gks_wg_net (sn_keys (a_signing st2)) = gks_wg_net (sn_keys (a_signing st))"
    using grow1 grow by (simp add: keys_grow_def)
  have read: "\<exists>ga att. first_verified cv atts ?ps now (\<lambda>_. True) = Some (ga, att) \<and> at_wg_ip att = id_ip i \<and>
      at_wg_pubkey att = id_pubkey i \<and> at_username att = id_username i \<and> at_device_name att = id_device_name i \<and>
      at_wg_net att = gks_wg_net (sn_keys (a_signing st))"
    if "attests ev i gs atts st1" "gs \<noteq> []" "set gs \<subseteq> set (ms_guilds ?m)" for i gs atts
    using attests_read [OF attests_grow [OF that(1) grow] that(2,3) assms(7) sk tr ct] net by simp
  have seeds: "rs_seeds (bt_resp b) = map snd (rd_seeds rd)"
    using stamp assms(5) by (simp add: apply_delta_def)
  have one: "\<exists>q mp. admit_seed cv ?ps now sd = Some q \<and> sp_pubkey q = pk \<and> presents req ?u ?m ?p pk mp \<and>
      sp_ip q = mp_ip mp \<and> sp_hostname q = mp_device_name mp @ ''.'' @ mp_username mp @ ''.'' @ DNS_SUFFIX \<and>
      set (sp_networks q) = net_of ?m ` set (shared_with req ?m ?p pk)" if sd: "(pk, sd) \<in> set (rd_seeds rd)" for pk sd
  proof -
    obtain mp gs where mp: "presents req ?u ?m ?p pk mp" "mp_pubkey mp = pk" "set gs = seed_guilds req ?m ?p pk"
      "attests ev (identity_of mp) gs (sd_attestations sd) st1"
      and nets: "set (sd_networks sd) = net_of ?m ` set (shared_with req ?m ?p pk)"
      using rd_each [OF sd] by auto
    have "shared_with req ?m ?p pk \<noteq> [] \<or> own_sibling req ?u ?m ?p pk"
      using rd_keys [of pk] sd by (metis fst_conv image_eqI)
    then have "seed_guilds req ?m ?p pk \<noteq> {}" using ms_guilds_ne by (auto simp: seed_guilds_def own_sibling_def)
    then have ne: "gs \<noteq> []" using mp(3) by auto
    obtain ga att where f: "first_verified cv (sd_attestations sd) ?ps now (\<lambda>_. True) = Some (ga, att)"
      and a: "at_wg_ip att = mp_ip mp" "at_wg_pubkey att = pk" "at_username att = mp_username mp"
        "at_device_name att = mp_device_name mp" "at_wg_net att = gks_wg_net (sn_keys (a_signing st))"
      using read [OF mp(4) ne] seed_guilds_sub [OF assms(6)] mp(2,3) by (auto simp: identity_of_def)
    have "ce_contains cv (at_wg_net att) (at_wg_ip att)"
      using assms(8) mp(1) a by (simp add: addresses_inside_def)
    then have "admit_seed cv ?ps now sd = Some (peer_of att sd)" using f by (simp add: admit_seed_def)
    then show ?thesis
      by (intro exI [of _ "peer_of att sd"] exI [of _ mp]) (use a mp(1) nets in \<open>simp add: peer_of_def hostname_def\<close>)
  qed
  have pks: "set (map sp_pubkey (verified_seeds cv (bt_resp b) pins' now)) = fst ` set (rd_seeds rd)"
  proof (intro set_eqI iffI)
    fix pk assume "pk \<in> set (map sp_pubkey (verified_seeds cv (bt_resp b) pins' now))"
    then obtain q pk' sd where "(pk', sd) \<in> set (rd_seeds rd)" "admit_seed cv ?ps now sd = Some q" "pk = sp_pubkey q"
      by (auto simp: verified_seeds_iff seeds)
    with one [OF this(1)] show "pk \<in> fst ` set (rd_seeds rd)" by force
  next
    fix pk assume "pk \<in> fst ` set (rd_seeds rd)"
    then obtain sd where sd: "(pk, sd) \<in> set (rd_seeds rd)" by auto
    with one [OF sd] obtain q where "admit_seed cv ?ps now sd = Some q" "sp_pubkey q = pk" by blast
    moreover have "sd \<in> set (rs_seeds (bt_resp b))" using sd unfolding seeds by force
    ultimately have "q \<in> set (verified_seeds cv (bt_resp b) pins' now)" unfolding verified_seeds_iff by blast
    with \<open>sp_pubkey q = pk\<close> show "pk \<in> set (map sp_pubkey (verified_seeds cv (bt_resp b) pins' now))" by auto
  qed
  have qs: "\<exists>mp. presents req ?u ?m ?p (sp_pubkey q) mp \<and> sp_ip q = mp_ip mp \<and>
      sp_hostname q = mp_device_name mp @ ''.'' @ mp_username mp @ ''.'' @ DNS_SUFFIX \<and>
      set (sp_networks q) = net_of ?m ` set (shared_with req ?m ?p (sp_pubkey q))"
    if q: "q \<in> set (verified_seeds cv (bt_resp b) pins' now)" for q
  proof -
    obtain pk sd where "(pk, sd) \<in> set (rd_seeds rd)" "admit_seed cv ?ps now sd = Some q"
      using q by (auto simp: verified_seeds_iff seeds)
    with one [OF this(1)] show ?thesis by auto
  qed
  have gr: "case rs_grant (bt_resp b) of None \<Rightarrow> \<not> has_identity ?m
     | Some g \<Rightarrow> has_identity ?m \<and> (\<exists>att c. verify_grant cv g ?ps now = Some (att, c) \<and>
            at_wg_pubkey att = rq_wg_pubkey req \<and> at_wg_ip att = dv_ip (cl_device cl))"
  proof (cases "rd_grant rd")
    case None
    then show ?thesis using rd_grant stamp by simp
  next
    case (Some g)
    then have h: "has_identity ?m" and at: "attests ev (identity_of (presence_of req ?u (cl_device cl) (ms_username ?m)))
        (ms_guilds ?m) (gr_attestations g) st1" using rd_grant by simp_all
    from read [OF at ms_guilds_ne [OF h] subset_refl] h Some stamp show ?thesis
      by (auto simp: verify_grant_def identity_of_def presence_of_def)
  qed
  have "set (map sp_pubkey (verified_seeds cv (bt_resp b) pins' now)) =
      {pk. shared_with req ?m ?p pk \<noteq> [] \<or> own_sibling req ?u ?m ?p pk}"
    unfolding pks using rd_keys by blast
  with qs gr show ?thesis by blast
qed

subsection \<open>A device with one peer\<close>

definition inside :: "ipv4net \<Rightarrow> ipv4 \<Rightarrow> bool" where
  "inside n a \<longleftrightarrow> drop_bit (32 - net_prefix n) a = drop_bit (32 - net_prefix n) (net_network n)"

definition demo_cv :: "att_codecs \<Rightarrow> cenv" where
  "demo_cv k = \<lparr>ce_crypto = demo_crypto, ce_att = k,
     ce_rot = \<lparr>rk_cert = \<lparr>enc = (\<lambda>c. None), dec_of = (\<lambda>b. None)\<rparr>, rk_signed = demo_signed_codec\<rparr>, ce_contains = inside\<rparr>"

definition demo_envelope :: signed where
  "demo_envelope = \<lparr>payload = [2], sig = demo_sign (replicate 32 9) [2]\<rparr>"

definition demo_ga :: guild_attestation where
  "demo_ga = \<lparr>ga_attestation = b64_enc demo_crypto (sig demo_envelope @ payload demo_envelope),
     ga_community_name = ''home'', ga_att_schema = ATTESTATION_SCHEMA_V2\<rparr>"

definition demo_seed :: seed where
  "demo_seed = \<lparr>sd_attestations = [demo_ga], sd_endpoint = None, sd_punch = None, sd_networks = [], sd_relay = None,
     sd_ice = None, sd_rev = 4\<rparr>"

definition demo_resp :: register_resp where
  "demo_resp = \<lparr>rs_anchors = [\<lparr>an_guild_id = 5, an_pubkey = replicate 32 9, an_rotation_chain = []\<rparr>], rs_grant = None,
     rs_device_token = None, rs_seeds = [demo_seed], rs_version = 3, rs_networks = [], rs_dns_domain = None,
     rs_stun_port = None, rs_proto = 5, rs_proto_min = 4, rs_proto_max = 5, rs_caps = [], rs_server_version = ''1.0.0'',
     rs_release = None, rs_release_signed = None, rs_partial = False, rs_removed = []\<rparr>"

lemma demo_signed_codec_ok: "codec_ok demo_signed_codec"
  by (auto simp: codec_ok_def demo_signed_codec_def)

lemma demo_inside: "inside demo_net (at_wg_ip demo_att)"
  by code_simp

lemma demo_peer_simps [simp]:
  "ce_contains (demo_cv k) = inside" "at_wg_net demo_att = demo_net" "at_wg_pubkey demo_att = [1]"
  "sd_attestations demo_seed = [demo_ga]" "sd_rev demo_seed = 4" "at_expires_at demo_att = 1900"
  by (simp_all add: demo_cv_def demo_att_def demo_seed_def)

lemma demo_blob: "verify_blob (demo_cv demo_codecs) [(5, replicate 32 9)] 500 demo_ga = Some demo_att"
proof -
  have "length (sig demo_envelope) = 64" by (simp add: demo_envelope_def demo_sign_def)
  then have "to_base64 demo_crypto demo_signed_codec demo_envelope = Some (ga_attestation demo_ga)"
    by (simp add: to_base64_def demo_signed_codec_def demo_ga_def)
  from base64_roundtrip [OF demo_b64_ok demo_signed_codec_ok this]
  have b: "from_base64 demo_crypto demo_signed_codec (ga_attestation demo_ga) = Inr demo_envelope" .
  have "verify_attestation demo_crypto demo_codecs demo_envelope (replicate 32 9) 500 5 ATTESTATION_SCHEMA_V2 = Inr demo_att"
    unfolding verify_attestation_Inr
    by (auto simp: demo_envelope_def demo_crypto_def demo_sign_def demo_codecs_def one_codec_def demo_att_def)
  then show ?thesis using b
    by (simp add: verify_blob_def demo_cv_def demo_crypto_def demo_ga_def)
qed

lemma demo_admit: "admit_seed (demo_cv demo_codecs) [(5, replicate 32 9)] 500 demo_seed = Some (peer_of demo_att demo_seed)"
  using demo_inside by (simp add: admit_seed_def demo_blob)

lemma demo_pins:
  "pinned_anchors demo_resp [(5, replicate 32 9)] = [(5, replicate 32 9)]"
  by (simp add: pinned_anchors_def demo_resp_def map_filter_simps load_anchor_def tget_def)

lemma only_pinned_peers_witness:
  "\<exists>dev pins'. post (demo_cv demo_codecs) ''register'' (Reply 200 [] (Some demo_resp)) 500 [] = (Inr (demo_resp, dev), pins') \<and>
     peer_of demo_att demo_seed \<in> set (merge_seeds (demo_cv demo_codecs) [] demo_resp pins' 500) \<and>
     tget pins' 5 = Some (replicate 32 9)"
proof -
  have run: "post (demo_cv demo_codecs) ''register'' (Reply 200 [] (Some demo_resp)) 500 [] =
      (Inr (demo_resp, None), [(5, replicate 32 9)])"
    by (simp add: post_def ensure_ok_def demo_resp_def pin_anchor_def tput_def)
  have seeds: "rs_seeds demo_resp = [demo_seed]" "\<not> rs_partial demo_resp" by (simp_all add: demo_resp_def)
  have peer: "peer_of demo_att demo_seed \<in> set (merge_seeds (demo_cv demo_codecs) [] demo_resp [(5, replicate 32 9)] 500)"
    by (simp add: merge_seeds_def verified_seeds_def seeds demo_pins demo_admit map_filter_simps)
  have "\<exists>g pk. tget [(5 :: u64, replicate 32 (9 :: u8))] g = Some pk"
    using conjunct1 [OF only_pinned_peers [OF run peer]] seeds unfolding vouched_peer_def by auto
  with run peer show ?thesis by (auto simp: tget_def split: if_splits)
qed

lemma pull_is_bounded_witness:
  "sp_expires_at (apply_pulled demo_att ((peer_of demo_att demo_seed)\<lparr>sp_expires_at := 600\<rparr>)) = 1900 \<and>
   sp_rev (apply_pulled demo_att ((peer_of demo_att demo_seed)\<lparr>sp_expires_at := 600\<rparr>)) = 4"
proof -
  let ?p = "(peer_of demo_att demo_seed)\<lparr>sp_expires_at := 600\<rparr>"
  have "verify_pulled (demo_cv demo_codecs) [demo_ga] (sp_pubkey ?p) (sp_expires_at ?p) [(5, replicate 32 9)] 500 = Some demo_att"
    using demo_inside
    by (simp add: verify_pulled_def load_all_pinned_def demo_blob peer_of_def)
  from pull_is_bounded [OF this] show ?thesis
    by (simp add: Let_def peer_of_def) (simp add: apply_pulled_def)
qed

definition demo_round :: refresh_round where
  "demo_round = \<lparr>rf_seeds = [([1], demo_seed)], rf_resp = demo_resp, rf_pins = [(5, replicate 32 9)], rf_now = 500, rf_margin = 300\<rparr>"

lemma deltas_are_full_witness:
  "roster (fold (\<lambda>x ps. refresh_peers (demo_cv demo_codecs) (demo_register (demo_key 1)) ps x) [demo_round, demo_round] []) [1] =
   Some (lasting (peer_of demo_att demo_seed))"
proof -
  let ?q = "peer_of demo_att demo_seed"
  have held: "held_from {lasting ?q} []" by (simp add: held_from_def rev_determines_def)
  have fits: "round_fits (demo_cv demo_codecs) {lasting ?q} demo_round"
    by (simp add: round_fits_def demo_round_def demo_pins demo_admit) (simp add: peer_of_def)
  have "roster (full_peers (demo_cv demo_codecs) req demo_round) [1] = Some (lasting ?q)" for req
    unfolding full_peers_eq [OF fits]
    by (simp add: demo_round_def admitted_def demo_pins demo_admit roster_def) (simp add: peer_of_def)
  then show ?thesis using deltas_are_full [OF held, of "demo_cv demo_codecs" "[demo_round, demo_round]"] fits by simp
qed

text \<open>The two-device deployment of \<open>Snapshot\<close>, polled by the first.\<close>

lemma demo_stamp:
  assumes "tget (gks_cache (sn_keys (a_signing st))) 1 =
      Some \<lparr>gk_signer = signer_from_seed (replicate 32 9) 1 demo_net 1800, gk_rotation_chain = []\<rparr>" and "a_release st = None"
  shows "\<exists>b st'. snapshot_stamp snap_env (demo_register (demo_key 1)) demo_caller rd st = (Inr b, st') \<and>
    rs_anchors (bt_resp b) = [\<lparr>an_guild_id = 1, an_pubkey = replicate 32 9, an_rotation_chain = []\<rparr>]"
proof -
  have g: "ms_guilds demo_mship = [1]" by (simp add: ms_guilds_def demo_mship_def)
  have a: "ed_anchor demo_crypto x = x" for x by (simp add: demo_crypto_def)
  have k: "keysA snap_env 1 s = (Inr \<lparr>gk_signer = signer_from_seed (replicate 32 9) 1 demo_net 1800, gk_rotation_chain = []\<rparr>, s)"
    if "a_signing s = a_signing st" for s
    using that assms(1) by (cases s) (simp add: keysA_def keys_get_def Let_def)
  show ?thesis
    using assms(2) by (simp add: snapshot_stamp_def demo_caller_def g Let_def bindA_def build_anchors_def sign_release_def
        bump_changed_def signer_from_seed_def a k split: prod.split)
qed

lemma peers_are_comembers_witness:
  "\<exists>rd st1 b st2. snapshot_read snap_env (demo_register (demo_key 1)) demo_caller
       (demo_snapshot_app [(1, ''nas''), (2, ''tv'')]) = (Inr rd, st1) \<and>
     snapshot_stamp snap_env (demo_register (demo_key 1)) demo_caller rd st1 = (Inr b, st2) \<and>
     set (map sp_pubkey (verified_seeds (demo_cv (e_att snap_env)) (bt_resp b) [(1, replicate 32 9)] 200)) = {demo_key 2}"
proof -
  let ?st = "demo_snapshot_app [(1, ''nas''), (2, ''tv'')]" and ?req = "demo_register (demo_key 1)"
  obtain rd st1 where run: "snapshot_read snap_env ?req demo_caller ?st = (Inr rd, st1)"
    and k: "tget (gks_cache (sn_keys (a_signing st1))) 1 =
      Some \<lparr>gk_signer = signer_from_seed (replicate 32 9) 1 demo_net 1800, gk_rotation_chain = []\<rparr>" "a_release st1 = None"
    using demo_read by blast
  obtain b st2 where stamp: "snapshot_stamp snap_env ?req demo_caller rd st1 = (Inr b, st2)"
    and an: "rs_anchors (bt_resp b) = [\<lparr>an_guild_id = 1, an_pubkey = replicate 32 9, an_rotation_chain = []\<rparr>]"
    using demo_stamp [OF k] by blast
  have view: "guild_view (a_presence ?st) 1 2 pk \<noteq> None \<longleftrightarrow> pk \<in> {demo_key 1, demo_key 2}"
    "user_view (a_presence ?st) 7 pk = None" for pk
    by (auto simp: guild_view_def user_view_def demo_snapshot_app_def demo_present_def tget_def)
  have m: "cl_m demo_caller = demo_mship" "ms_guilds demo_mship = [1]" "ms_held demo_mship = [(1, 2)]" "\<not> rq_held ?req \<noteq> []"
    by (simp_all add: demo_caller_def ms_guilds_def demo_mship_def demo_register_def)
  have ip: "inside demo_net (ipv4_octets 100 72 0 9)" by code_simp
  have net: "gks_wg_net (sn_keys (a_signing ?st)) = demo_net" "gks_ttl (sn_keys (a_signing ?st)) = 1800"
    by (simp_all add: demo_snapshot_app_def demo_app_def new_signing_def)
  have "mp_ip mp = ipv4_octets 100 72 0 9" if "presents ?req u demo_mship (a_presence ?st) pk mp" for u pk mp
    using that by (auto simp: presents_def shared_with_def guild_view_def user_view_def demo_snapshot_app_def
        demo_present_def tget_def demo_peer_def split: if_splits)
  then have addr: "addresses_inside (demo_cv (e_att snap_env)) ?req (cl_user demo_caller) (cl_m demo_caller) ?st"
    using ip by (simp add: addresses_inside_def net demo_cv_def m)
  have client: "client_of snap_env (demo_cv (e_att snap_env))"
    by (simp add: client_of_def demo_cv_def snap_env_def demo_env_def)
  have pins: "pin_all (demo_cv (e_att snap_env)) (rs_anchors (bt_resp b)) [] = (Inr (), [(1, replicate 32 9)])"
    by (simp add: an pin_anchor_def tput_def)
  have "set (map sp_pubkey (verified_seeds (demo_cv (e_att snap_env)) (bt_resp b) [(1, replicate 32 9)] 200)) =
      {pk. shared_with ?req (cl_m demo_caller) (a_presence ?st) pk \<noteq> [] \<or>
         own_sibling ?req (cl_user demo_caller) (cl_m demo_caller) (a_presence ?st) pk}"
    by (rule conjunct1 [OF peers_are_comembers [OF demo_snapshot_ok demo_ready run stamp _ _ client addr _ _ pins]])
      (use m an net in \<open>simp_all add: client_time_ok_def anchors_typed_def\<close>)
  also have "\<dots> = {demo_key 2}"
    using view by (auto simp: shared_with_def own_sibling_def demo_caller_def demo_mship_def demo_register_def)
  finally show ?thesis using run stamp by blast
qed

end
