(* ===== verification/Exposure.thy ===== *)
theory Exposure
  imports ServiceNames Netid "HOL-Library.Char_ord"
begin

section \<open>Exposed ports: \<open>crates/engine/src/fw/mod.rs\<close>, \<open>crates/common/src/control/expose.rs\<close>\<close>

text \<open>
  Which ports of a device are open, to whom, and under which name: the \<open>Firewall\<close>'s bookkeeping,
  independent of the packet filter it drives. The two things an operation does outside memory,
  writing \<open>exposed.json\<close> and installing the ruleset, succeed or fail as the argument \<open>io\<close> says; what
  they left behind is part of the state.
\<close>

subsection \<open>Scopes\<close>

datatype expose_scope = AllPeers | OwnDevices | Net u64 u64 | Unresolved "string option" string

definition OWN_DEVICES_LABEL :: string where "OWN_DEVICES_LABEL = ''My devices''"

definition scope_fallback_label :: "expose_scope \<Rightarrow> string" where
  "scope_fallback_label s =
     (case s of
        AllPeers \<Rightarrow> ''all peers''
      | OwnDevices \<Rightarrow> OWN_DEVICES_LABEL
      | Net g r \<Rightarrow> ''network '' @ dec (unat g) @ ''/'' @ dec (unat r)
      | Unresolved None n \<Rightarrow> n
      | Unresolved (Some g) n \<Rightarrow> n @ '' @ '' @ g)"

text \<open>
  The wire form: the JSON values the codec distinguishes. The untagged \<open>Any\<close> is tried as the legacy
  \<open>Option<String>\<close> first, then as an object tagged by its \<open>kind\<close> (\<open>serde\<close> ignores other fields, and a
  \<open>u64\<close> field holds an integer below \<open>2 ^ 64\<close>).
\<close>

datatype json = JNull | JString string | JInt int | JObject "(string \<times> json) list"

definition scope_to_json :: "expose_scope \<Rightarrow> json" where
  "scope_to_json s =
     (case s of
        AllPeers \<Rightarrow> JNull
      | Unresolved None n \<Rightarrow> JString n
      | OwnDevices \<Rightarrow> JObject [(''kind'', JString ''own_devices'')]
      | Net g r \<Rightarrow> JObject [(''kind'', JString ''net''), (''guild_id'', JInt (uint g)), (''role_id'', JInt (uint r))]
      | Unresolved (Some g) n \<Rightarrow> JObject [(''kind'', JString ''net_named''), (''guild'', JString g), (''name'', JString n)])"

definition json_u64 :: "json option \<Rightarrow> u64 option" where
  "json_u64 j = (case j of Some (JInt i) \<Rightarrow> if 0 \<le> i \<and> i < 2 ^ 64 then Some (word_of_int i) else None | _ \<Rightarrow> None)"

definition json_string :: "json option \<Rightarrow> string option" where
  "json_string j = (case j of Some (JString s) \<Rightarrow> Some s | _ \<Rightarrow> None)"

definition scope_of_tagged :: "(string \<times> json) list \<Rightarrow> expose_scope option" where
  "scope_of_tagged fs =
     (case map_of fs ''kind'' of
        Some (JString k) \<Rightarrow>
          if k = ''own_devices'' then Some OwnDevices
          else if k = ''net'' then
            (case (json_u64 (map_of fs ''guild_id''), json_u64 (map_of fs ''role_id'')) of
               (Some g, Some r) \<Rightarrow> Some (Net g r) | _ \<Rightarrow> None)
          else if k = ''net_named'' then
            (case (json_string (map_of fs ''guild''), json_string (map_of fs ''name'')) of
               (Some g, Some n) \<Rightarrow> Some (Unresolved (Some g) n) | _ \<Rightarrow> None)
          else None
      | _ \<Rightarrow> None)"

definition scope_of_json :: "json \<Rightarrow> expose_scope option" where
  "scope_of_json j =
     (case j of
        JNull \<Rightarrow> Some AllPeers
      | JString n \<Rightarrow> Some (Unresolved None n)
      | JObject fs \<Rightarrow> scope_of_tagged fs
      | JInt i \<Rightarrow> None)"

subsection \<open>Peers\<close>

record net_info =
  ni_guild_id :: u64
  ni_role_id :: u64
  ni_guild :: string
  ni_name :: string
  ni_ips :: "ipv4 list"

record peer_sets =
  pe_nets :: "net_info list"
  pe_own_devices :: "ipv4 list"

definition net_label :: "net_info \<Rightarrow> string" where
  "net_label n = (if ni_guild n = [] then ni_name n else ni_name n @ '' @ '' @ ni_guild n)"

definition matching :: "string option \<Rightarrow> string \<Rightarrow> peer_sets \<Rightarrow> net_info list" where
  "matching guild name ps =
     filter (\<lambda>n. ni_name n = name \<and> (case guild of None \<Rightarrow> True | Some g \<Rightarrow> ni_guild n = g)) (pe_nets ps)"

definition find_net :: "u64 \<Rightarrow> u64 \<Rightarrow> peer_sets \<Rightarrow> net_info option" where
  "find_net g r ps = List.find (\<lambda>n. ni_guild_id n = g \<and> ni_role_id n = r) (pe_nets ps)"

definition sources :: "peer_sets \<Rightarrow> expose_scope \<Rightarrow> ipv4 list option" where
  "sources ps scope =
     (case scope of
        AllPeers \<Rightarrow> None
      | OwnDevices \<Rightarrow> Some (pe_own_devices ps)
      | Net g r \<Rightarrow> Some (case find_net g r ps of None \<Rightarrow> [] | Some n \<Rightarrow> ni_ips n)
      | Unresolved guild name \<Rightarrow> Some (case matching guild name ps of [only] \<Rightarrow> ni_ips only | _ \<Rightarrow> []))"

definition scope_label :: "peer_sets \<Rightarrow> expose_scope \<Rightarrow> string" where
  "scope_label ps scope =
     (case scope of
        Net g r \<Rightarrow> (case find_net g r ps of None \<Rightarrow> scope_fallback_label scope | Some n \<Rightarrow> net_label n)
      | _ \<Rightarrow> scope_fallback_label scope)"

subsection \<open>The firewall's state\<close>

record exposed =
  ex_proto :: proto
  ex_port :: u16
  ex_scope :: expose_scope
  ex_name :: "string option"
  ex_kind :: service_kind

text \<open>What the backend was last told to install.\<close>

record installed =
  in_iface :: string
  in_mesh_addr :: "ipv4 option"
  in_exposed :: "exposed list"
  in_peers :: peer_sets

record firewall =
  fw_iface :: string
  fw_exposed :: "exposed list"
  fw_peers :: peer_sets
  fw_mesh_addr :: "ipv4 option"
  fw_disk :: "exposed list option"
  fw_installed :: "installed option"

record fw_io =
  io_write_ok :: bool
  io_apply_ok :: bool

datatype fw_error = BadLabel string | TooManyServices | WriteFailed | ApplyFailed

datatype state_file = NoFile | Unreadable | Holds "exposed list"

definition name_exposure :: "exposed \<Rightarrow> exposed" where
  "name_exposure e = (if ex_name e = None then e\<lparr>ex_name := Some (default_label (ex_port e))\<rparr> else e)"

definition fw_load :: "string \<Rightarrow> exposed list \<Rightarrow> state_file \<Rightarrow> firewall" where
  "fw_load iface seeds file =
     \<lparr>fw_iface = iface,
      fw_exposed = map name_exposure (case file of Holds es \<Rightarrow> es | Unreadable \<Rightarrow> seeds | NoFile \<Rightarrow> seeds),
      fw_peers = \<lparr>pe_nets = [], pe_own_devices = []\<rparr>, fw_mesh_addr = None,
      fw_disk = (case file of Holds es \<Rightarrow> Some es | _ \<Rightarrow> None), fw_installed = None\<rparr>"

definition HTTPS_PORT :: u16 where "HTTPS_PORT = 443"

definition effective_exposed :: "exposed list \<Rightarrow> exposed list" where
  "effective_exposed es =
     es @ map (\<lambda>s. \<lparr>ex_proto = Tcp, ex_port = HTTPS_PORT, ex_scope = s, ex_name = None, ex_kind = Port\<rparr>)
       (rev (remdups (rev (map ex_scope (filter (\<lambda>e. ex_kind e = Web \<and> ex_name e \<noteq> None) es)))))"

definition wanted :: "firewall \<Rightarrow> installed" where
  "wanted fw = \<lparr>in_iface = fw_iface fw, in_mesh_addr = fw_mesh_addr fw,
     in_exposed = effective_exposed (fw_exposed fw), in_peers = fw_peers fw\<rparr>"

definition reconcile :: "fw_io \<Rightarrow> firewall \<Rightarrow> (fw_error + unit) \<times> firewall" where
  "reconcile io fw =
     (if io_apply_ok io then (Inr (), fw\<lparr>fw_installed := Some (wanted fw)\<rparr>) else (Inl ApplyFailed, fw))"

definition persist :: "fw_io \<Rightarrow> firewall \<Rightarrow> (fw_error + unit) \<times> firewall" where
  "persist io fw =
     (if io_write_ok io then (Inr (), fw\<lparr>fw_disk := Some (fw_exposed fw)\<rparr>) else (Inl WriteFailed, fw))"

text \<open>\<open>self.persist()?; self.reconcile()?;\<close>, then the answer.\<close>

definition commit :: "fw_io \<Rightarrow> (firewall \<Rightarrow> 'a) \<Rightarrow> firewall \<Rightarrow> (fw_error + 'a) \<times> firewall" where
  "commit io answer fw =
     (case persist io fw of
        (Inl e, fw1) \<Rightarrow> (Inl e, fw1)
      | (Inr _, fw1) \<Rightarrow>
          (case reconcile io fw1 of
             (Inl e, fw2) \<Rightarrow> (Inl e, fw2)
           | (Inr _, fw2) \<Rightarrow> (Inr (answer fw2), fw2)))"

subsection \<open>What is shown\<close>

record exposed_port =
  ep_proto :: proto
  ep_port :: u16
  ep_scope :: expose_scope
  ep_label :: string
  ep_name :: "string option"
  ep_kind :: service_kind
  ep_active :: bool

definition fw_list :: "firewall \<Rightarrow> exposed_port list" where
  "fw_list fw = map (\<lambda>e. \<lparr>ep_proto = ex_proto e, ep_port = ex_port e, ep_scope = ex_scope e,
     ep_label = scope_label (fw_peers fw) (ex_scope e), ep_name = ex_name e, ep_kind = ex_kind e,
     ep_active = (case sources (fw_peers fw) (ex_scope e) of None \<Rightarrow> True | Some ips \<Rightarrow> ips \<noteq> [])\<rparr>) (fw_exposed fw)"

definition service_of :: "exposed \<Rightarrow> string \<Rightarrow> mesh_service" where
  "service_of e name = \<lparr>ms_name = name, ms_proto = ex_proto e, ms_port = ex_port e, ms_kind = ex_kind e\<rparr>"

definition admits :: "peer_sets \<Rightarrow> expose_scope \<Rightarrow> ipv4 \<Rightarrow> bool" where
  "admits ps scope ip = (case sources ps scope of None \<Rightarrow> True | Some ips \<Rightarrow> ip \<in> set ips)"

text \<open>The loop that pushes a service unless it is there, over the exposures \<open>P\<close> lets through.\<close>

fun push_services :: "(exposed \<Rightarrow> bool) \<Rightarrow> exposed list \<Rightarrow> mesh_service list \<Rightarrow> mesh_service list" where
  "push_services P [] out = out"
| "push_services P (e # es) out =
     (case ex_name e of
        None \<Rightarrow> push_services P es out
      | Some name \<Rightarrow>
          if \<not> P e then push_services P es out
          else if service_of e name \<in> set out then push_services P es out
          else push_services P es (out @ [service_of e name]))"

definition services_for :: "ipv4 \<Rightarrow> firewall \<Rightarrow> mesh_service list" where
  "services_for peer fw =
     take MAX_SERVICES_PER_DEVICE (push_services (\<lambda>e. admits (fw_peers fw) (ex_scope e) peer) (fw_exposed fw) [])"

definition own_services :: "firewall \<Rightarrow> mesh_service list" where
  "own_services fw = push_services (\<lambda>_. True) (fw_exposed fw) []"

definition web_service_labels :: "firewall \<Rightarrow> string list" where
  "web_service_labels fw =
     take MAX_WEB_SERVICES_PER_DEVICE (sort (remdups (List.map_filter ex_name (filter (\<lambda>e. ex_kind e = Web) (fw_exposed fw)))))"

subsection \<open>Operations\<close>

definition fw_init :: "fw_io \<Rightarrow> firewall \<Rightarrow> (fw_error + unit) \<times> firewall" where
  "fw_init io fw = reconcile io fw"

definition update_peers :: "fw_io \<Rightarrow> peer_sets \<Rightarrow> firewall \<Rightarrow> (fw_error + bool) \<times> firewall" where
  "update_peers io ps fw =
     (if fw_peers fw = ps then (Inr False, fw)
      else case reconcile io (fw\<lparr>fw_peers := ps\<rparr>) of
             (Inl e, fw') \<Rightarrow> (Inl e, fw') | (Inr _, fw') \<Rightarrow> (Inr True, fw'))"

definition set_mesh_addr :: "fw_io \<Rightarrow> ipv4 \<Rightarrow> firewall \<Rightarrow> (fw_error + unit) \<times> firewall" where
  "set_mesh_addr io a fw =
     (if fw_mesh_addr fw = Some a then (Inr (), fw) else reconcile io (fw\<lparr>fw_mesh_addr := Some a\<rparr>))"

definition same_opening :: "proto \<Rightarrow> u16 \<Rightarrow> expose_scope \<Rightarrow> exposed \<Rightarrow> bool" where
  "same_opening pr port scope e \<longleftrightarrow> ex_proto e = pr \<and> ex_port e = port \<and> ex_scope e = scope"

fun put_opening :: "exposed \<Rightarrow> exposed list \<Rightarrow> exposed list" where
  "put_opening n [] = [n]"
| "put_opening n (e # es) =
     (if same_opening (ex_proto n) (ex_port n) (ex_scope n) e
      then e\<lparr>ex_name := ex_name n, ex_kind := ex_kind n\<rparr> # es else e # put_opening n es)"

definition expose ::
  "fw_io \<Rightarrow> proto \<Rightarrow> u16 \<Rightarrow> expose_scope \<Rightarrow> string option \<Rightarrow> service_kind \<Rightarrow> firewall \<Rightarrow>
   (fw_error + exposed_port list) \<times> firewall" where
  "expose io pr port scope name kind fw =
     (let n = (case name of Some n \<Rightarrow> n | None \<Rightarrow> default_label port)
      in if \<not> valid_label n then (Inl (BadLabel n), fw)
         else if MAX_SERVICES_PER_DEVICE < length (remdups (n # List.map_filter ex_name (fw_exposed fw)))
         then (Inl TooManyServices, fw)
         else commit io fw_list (fw\<lparr>fw_exposed := put_opening
                \<lparr>ex_proto = pr, ex_port = port, ex_scope = scope, ex_name = Some n, ex_kind = kind\<rparr> (fw_exposed fw)\<rparr>))"

datatype remove_scope = RemoveAll | RemoveExact expose_scope

definition removes :: "proto \<Rightarrow> u16 \<Rightarrow> remove_scope \<Rightarrow> exposed \<Rightarrow> bool" where
  "removes pr port scope e \<longleftrightarrow> ex_proto e = pr \<and> ex_port e = port \<and>
     (case scope of RemoveAll \<Rightarrow> True | RemoveExact s \<Rightarrow> ex_scope e = s)"

definition unexpose :: "fw_io \<Rightarrow> proto \<Rightarrow> u16 \<Rightarrow> remove_scope \<Rightarrow> firewall \<Rightarrow> (fw_error + exposed_port list) \<times> firewall" where
  "unexpose io pr port scope fw =
     commit io fw_list (fw\<lparr>fw_exposed := filter (\<lambda>e. \<not> removes pr port scope e) (fw_exposed fw)\<rparr>)"

definition widen :: "string \<Rightarrow> expose_scope \<Rightarrow> exposed \<Rightarrow> exposed list \<times> nat \<Rightarrow> exposed list \<times> nat" where
  "widen name scope t acc =
     (case acc of (es, added) \<Rightarrow>
        if list_ex (same_opening (ex_proto t) (ex_port t) scope) es then (es, added)
        else (es @ [\<lparr>ex_proto = ex_proto t, ex_port = ex_port t, ex_scope = scope, ex_name = Some name, ex_kind = ex_kind t\<rparr>],
              added + 1))"

definition expose_named_scope ::
  "fw_io \<Rightarrow> string \<Rightarrow> expose_scope \<Rightarrow> firewall \<Rightarrow> (fw_error + nat \<times> exposed_port list) \<times> firewall" where
  "expose_named_scope io name scope fw =
     (case fold (widen name scope) (filter (\<lambda>e. ex_name e = Some name) (fw_exposed fw)) (fw_exposed fw, 0) of
        (es, added) \<Rightarrow>
          if added = 0 then (Inr (0, fw_list fw), fw)
          else commit io (\<lambda>f. (added, fw_list f)) (fw\<lparr>fw_exposed := es\<rparr>))"

definition unexpose_named :: "fw_io \<Rightarrow> string \<Rightarrow> firewall \<Rightarrow> (fw_error + nat \<times> exposed_port list) \<times> firewall" where
  "unexpose_named io name fw =
     (let es = filter (\<lambda>e. ex_name e \<noteq> Some name) (fw_exposed fw);
          gone = length (fw_exposed fw) - length es
      in if gone = 0 then (Inr (0, fw_list fw), fw)
         else commit io (\<lambda>f. (gone, fw_list f)) (fw\<lparr>fw_exposed := es\<rparr>))"

subsection \<open>Requests in sequence\<close>

datatype fw_op =
    Init | Peers peer_sets | MeshAddr ipv4
  | Expose proto u16 expose_scope "string option" service_kind
  | Unexpose proto u16 remove_scope | Widen string expose_scope | CloseNamed string

definition fw_step :: "fw_io \<times> fw_op \<Rightarrow> firewall \<Rightarrow> firewall" where
  "fw_step s fw =
     (case s of (io, op) \<Rightarrow>
        (case op of
           Init \<Rightarrow> snd (fw_init io fw)
         | Peers ps \<Rightarrow> snd (update_peers io ps fw)
         | MeshAddr a \<Rightarrow> snd (set_mesh_addr io a fw)
         | Expose pr port scope name kind \<Rightarrow> snd (expose io pr port scope name kind fw)
         | Unexpose pr port scope \<Rightarrow> snd (unexpose io pr port scope fw)
         | Widen name scope \<Rightarrow> snd (expose_named_scope io name scope fw)
         | CloseNamed name \<Rightarrow> snd (unexpose_named io name fw)))"

definition fw_run :: "(fw_io \<times> fw_op) list \<Rightarrow> firewall \<Rightarrow> firewall" where
  "fw_run = fold fw_step"

definition io_ok :: "fw_io \<Rightarrow> bool" where
  "io_ok io \<longleftrightarrow> io_write_ok io \<and> io_apply_ok io"

text \<open>Every exposure carries a usable name, and one opening (protocol, port, scope) is listed once.\<close>

definition opening_of :: "exposed \<Rightarrow> proto \<times> u16 \<times> expose_scope" where
  "opening_of e = (ex_proto e, ex_port e, ex_scope e)"

definition well_named :: "exposed \<Rightarrow> bool" where
  "well_named e \<longleftrightarrow> (\<exists>n. ex_name e = Some n \<and> valid_label n)"

definition exposures_ok :: "exposed list \<Rightarrow> bool" where
  "exposures_ok es \<longleftrightarrow> list_all well_named es \<and> distinct (map opening_of es) \<and>
     card (ex_name ` set es) \<le> MAX_SERVICES_PER_DEVICE"

definition synced :: "firewall \<Rightarrow> bool" where
  "synced fw \<longleftrightarrow> fw_installed fw = Some (wanted fw)"

lemma same_opening_iff: "same_opening pr port scope e \<longleftrightarrow> opening_of e = (pr, port, scope)"
  by (auto simp: same_opening_def opening_of_def)

lemma wanted_simps [simp]: "wanted (fw\<lparr>fw_installed := i\<rparr>) = wanted fw" "wanted (fw\<lparr>fw_disk := d\<rparr>) = wanted fw"
  by (simp_all add: wanted_def)

lemma commit_eq:
  "commit io answer fw =
     (if \<not> io_write_ok io then (Inl WriteFailed, fw)
      else if \<not> io_apply_ok io then (Inl ApplyFailed, fw\<lparr>fw_disk := Some (fw_exposed fw)\<rparr>)
      else (let fw' = fw\<lparr>fw_disk := Some (fw_exposed fw), fw_installed := Some (wanted fw)\<rparr> in (Inr (answer fw'), fw')))"
  by (simp add: commit_def persist_def reconcile_def Let_def)

lemma commit_exposed [simp]: "fw_exposed (snd (commit io answer fw)) = fw_exposed fw"
  by (simp add: commit_eq Let_def)

lemma commit_synced: "io_ok io \<Longrightarrow> synced (snd (commit io answer fw)) \<and> fw_disk (snd (commit io answer fw)) = Some (fw_exposed fw)"
  by (simp add: commit_eq io_ok_def synced_def Let_def)

subsection \<open>The table of exposures stays well-formed\<close>

lemma put_opening_openings:
  "map opening_of (put_opening n es) = (if opening_of n \<in> opening_of ` set es then map opening_of es else map opening_of es @ [opening_of n])"
  by (induction es) (auto simp: same_opening_iff opening_of_def)

lemma put_opening_names: "list_all well_named es \<Longrightarrow> well_named n \<Longrightarrow> list_all well_named (put_opening n es)"
  by (induction es) (auto simp: well_named_def)

lemma put_opening_name_set: "ex_name ` set (put_opening n es) \<subseteq> insert (ex_name n) (ex_name ` set es)"
  by (induction es) auto

lemma put_opening_distinct: "distinct (map opening_of es) \<Longrightarrow> distinct (map opening_of (put_opening n es))"
  by (simp add: put_opening_openings)

lemma names_some:
  assumes "list_all well_named es"
  shows "ex_name ` set es = Some ` set (List.map_filter ex_name es)"
  using assms by (induction es) (auto simp: well_named_def map_filter_simps)

lemma put_opening_cap:
  assumes "list_all well_named es" and "ex_name n = Some m"
    and "length (remdups (m # List.map_filter ex_name es)) \<le> MAX_SERVICES_PER_DEVICE"
  shows "card (ex_name ` set (put_opening n es)) \<le> MAX_SERVICES_PER_DEVICE"
proof -
  have "ex_name ` set (put_opening n es) \<subseteq> Some ` set (m # List.map_filter ex_name es)"
    using put_opening_name_set [of n es] by (simp add: names_some [OF assms(1)] assms(2))
  then have "card (ex_name ` set (put_opening n es)) \<le> card (Some ` set (m # List.map_filter ex_name es))"
    by (intro card_mono) simp_all
  also have "\<dots> = length (remdups (m # List.map_filter ex_name es))"
    by (metis card_image inj_Some inj_on_subset length_remdups_card_conv top_greatest)
  finally show ?thesis using assms(3) by linarith
qed

lemma filter_exposures_ok: "exposures_ok es \<Longrightarrow> exposures_ok (filter P es)"
proof -
  assume a: "exposures_ok es"
  then have "card (ex_name ` set (filter P es)) \<le> card (ex_name ` set es)" by (intro card_mono) auto
  with a show ?thesis by (auto simp: exposures_ok_def list_all_iff intro: distinct_map_filter)
qed

text \<open>Widening adds openings of the same service to one scope, each at most once.\<close>

lemma widen_fold:
  assumes "fold (widen name scope) ts (es, n) = (es', n')"
  shows "\<exists>new. es' = es @ new \<and> n' = n + length new \<and>
    (\<forall>e\<in>set new. ex_name e = Some name \<and> ex_scope e = scope \<and>
       (\<exists>t\<in>set ts. ex_proto e = ex_proto t \<and> ex_port e = ex_port t \<and> ex_kind e = ex_kind t)) \<and>
    (distinct (map opening_of es) \<longrightarrow> distinct (map opening_of es')) \<and>
    (\<forall>t\<in>set ts. (ex_proto t, ex_port t, scope) \<in> opening_of ` set es')"
  using assms
proof (induction ts arbitrary: es n)
  case (Cons t ts)
  let ?e = "\<lparr>ex_proto = ex_proto t, ex_port = ex_port t, ex_scope = scope, ex_name = Some name, ex_kind = ex_kind t\<rparr>"
  have ope: "opening_of ?e = (ex_proto t, ex_port t, scope)" by (simp add: opening_of_def)
  show ?case
  proof (cases "(ex_proto t, ex_port t, scope) \<in> opening_of ` set es")
    case True
    then have "widen name scope t (es, n) = (es, n)"
      by (auto simp: widen_def list_ex_iff same_opening_iff)
    with Cons.prems have "fold (widen name scope) ts (es, n) = (es', n')" by simp
    from Cons.IH [OF this] True show ?thesis by auto
  next
    case False
    then have "widen name scope t (es, n) = (es @ [?e], n + 1)"
      by (force simp: widen_def list_ex_iff same_opening_iff)
    with Cons.prems have run: "fold (widen name scope) ts (es @ [?e], n + 1) = (es', n')" by simp
    from Cons.IH [OF run] obtain new where new: "es' = (es @ [?e]) @ new" "n' = n + 1 + length new"
      "\<forall>e\<in>set new. ex_name e = Some name \<and> ex_scope e = scope \<and>
         (\<exists>t\<in>set ts. ex_proto e = ex_proto t \<and> ex_port e = ex_port t \<and> ex_kind e = ex_kind t)"
      "distinct (map opening_of (es @ [?e])) \<longrightarrow> distinct (map opening_of es')"
      "\<forall>t\<in>set ts. (ex_proto t, ex_port t, scope) \<in> opening_of ` set es'"
      by blast
    show ?thesis
      using new False by (intro exI [of _ "?e # new"]) (auto simp: ope)
  qed
qed simp

lemma widen_ok:
  assumes "exposures_ok es" and "fold (widen name scope) (filter (\<lambda>e. ex_name e = Some name) es) (es, 0) = (es', n)"
  shows "exposures_ok es'"
proof -
  obtain new where new: "es' = es @ new" "n = length new" "\<forall>e\<in>set new. ex_name e = Some name \<and>
      (\<exists>t\<in>set (filter (\<lambda>e. ex_name e = Some name) es). ex_proto e = ex_proto t)"
    "distinct (map opening_of es')"
    using widen_fold [OF assms(2)] assms(1) by (auto simp: exposures_ok_def) metis
  have named: "valid_label name \<and> Some name \<in> ex_name ` set es" if ne: "new \<noteq> []"
  proof -
    obtain t where "t \<in> set es" "ex_name t = Some name" using new(3) ne by (cases new) auto
    with assms(1) show ?thesis by (force simp: exposures_ok_def list_all_iff well_named_def)
  qed
  have "ex_name ` set es' = ex_name ` set es"
    using new(1,3) named by (cases "new = []") auto
  moreover have "list_all well_named es'"
    using new(1,3) named assms(1) by (cases "new = []") (auto simp: exposures_ok_def list_all_iff well_named_def)
  ultimately show ?thesis using new(4) assms(1) by (simp add: exposures_ok_def)
qed

lemma fw_step_exposed:
  assumes "exposures_ok (fw_exposed fw)"
  shows "exposures_ok (fw_exposed (fw_step s fw))"
proof -
  obtain io op where s: "s = (io, op)" by (cases s)
  show ?thesis
  proof (cases op)
    case (Expose pr port scope name kind)
    let ?n = "case name of Some n \<Rightarrow> n | None \<Rightarrow> default_label port"
    let ?e = "\<lparr>ex_proto = pr, ex_port = port, ex_scope = scope, ex_name = Some ?n, ex_kind = kind\<rparr>"
    have "exposures_ok (put_opening ?e (fw_exposed fw))"
      if "valid_label ?n" "length (remdups (?n # List.map_filter ex_name (fw_exposed fw))) \<le> MAX_SERVICES_PER_DEVICE"
      using assms that put_opening_cap [of "fw_exposed fw" ?e ?n]
      by (simp add: exposures_ok_def put_opening_distinct put_opening_names well_named_def del: remdups.simps)
    with assms show ?thesis
      by (simp add: s Expose fw_step_def expose_def Let_def not_less del: remdups.simps)
  next
    case (Widen name scope)
    obtain es n where f: "fold (widen name scope) (filter (\<lambda>e. ex_name e = Some name) (fw_exposed fw)) (fw_exposed fw, 0) = (es, n)"
      by fastforce
    from widen_ok [OF assms f] assms show ?thesis
      by (simp add: s Widen fw_step_def expose_named_scope_def f)
  qed (use assms in \<open>simp_all add: s fw_step_def fw_init_def update_peers_def set_mesh_addr_def unexpose_def
        unexpose_named_def reconcile_def Let_def filter_exposures_ok\<close>)
qed

text \<open>C39 (exposures_typed).
  Whatever a device is asked, in any order, and whatever fails to be written or installed: every
  exposure carries a usable name, no opening (protocol, port, scope) is listed twice, and at most
  sixteen names are announced, provided the state it started from was so; and a start from
  unnamed exposures names each of them after its port.\<close>

theorem exposures_typed:
  assumes "exposures_ok (map name_exposure es)"
  shows "exposures_ok (fw_exposed (fw_run steps (fw_load iface seeds (Holds es)))) \<and>
    (\<forall>e\<in>set es. ex_name e = None \<longrightarrow>
       e\<lparr>ex_name := Some (default_label (ex_port e))\<rparr> \<in> set (fw_exposed (fw_load iface seeds (Holds es))))"
proof -
  have "exposures_ok (fw_exposed (fw_run steps fw))" if "exposures_ok (fw_exposed fw)" for fw
    using that unfolding fw_run_def by (induction steps arbitrary: fw) (auto intro: fw_step_exposed)
  moreover have "exposures_ok (fw_exposed (fw_load iface seeds (Holds es)))" using assms by (simp add: fw_load_def)
  ultimately show ?thesis by (auto simp: fw_load_def name_exposure_def image_iff)
qed

text \<open>
  What is installed is always the owner's intent against the present peers: once the base policy is
  in, and as long as writing and installing succeed, after any sequence of requests and membership
  changes the backend holds exactly the effective exposures, the peer sets and the address the
  device has now, and the file holds the exposures unless none was ever changed; one change that
  succeeds repairs both after any that failed; and a restart from the file comes back to the same
  exposures.\<close>

theorem rules_follow_intent:
  assumes "synced fw" and "list_all (io_ok \<circ> fst) steps"
  shows "synced (fw_run steps fw) \<and>
    (fw_disk (fw_run steps fw) = Some (fw_exposed (fw_run steps fw)) \<or>
     fw_disk (fw_run steps fw) = fw_disk fw \<and> fw_exposed (fw_run steps fw) = fw_exposed fw) \<and>
    (\<forall>broken io pr port scope. io_ok io \<longrightarrow>
       (let fw' = fw_step (io, Unexpose pr port scope) broken
        in synced fw' \<and> fw_disk fw' = Some (fw_exposed fw') \<and>
           (exposures_ok (fw_exposed broken) \<longrightarrow> fw_exposed (fw_load iface seeds (Holds (fw_exposed fw'))) = fw_exposed fw')))"
proof -
  have step: "synced (fw_step s f) \<and> (fw_disk (fw_step s f) = Some (fw_exposed (fw_step s f)) \<or>
      fw_disk (fw_step s f) = fw_disk f \<and> fw_exposed (fw_step s f) = fw_exposed f)"
    if "synced f" "io_ok (fst s)" for s f
  proof -
    obtain io op where s: "s = (io, op)" by (cases s)
    then have "io_ok io" using that by simp
    note c = commit_synced [OF this, THEN conjunct1, unfolded synced_def] commit_synced [OF this, THEN conjunct2]
      and k = this [unfolded io_ok_def]
    show ?thesis
      using that(1) k
      by (cases op) (simp_all add: s fw_step_def fw_init_def update_peers_def set_mesh_addr_def expose_def unexpose_def
          expose_named_scope_def unexpose_named_def reconcile_def synced_def Let_def c del: remdups.simps split: prod.split)
  qed
  have run: "synced (fw_run steps f) \<and> (fw_disk (fw_run steps f) = Some (fw_exposed (fw_run steps f)) \<or>
      fw_disk (fw_run steps f) = fw_disk f \<and> fw_exposed (fw_run steps f) = fw_exposed f)" if "synced f" for f
    using that assms(2) unfolding fw_run_def
  proof (induction steps arbitrary: f)
    case (Cons s steps)
    then have io: "io_ok (fst s)" "list_all (io_ok \<circ> fst) steps" by (simp_all add: comp_def)
    note one = step [OF Cons.prems(1) io(1)]
    have eq: "fold fw_step (s # steps) f = fold fw_step steps (fw_step s f)" by simp
    show ?case unfolding eq using Cons.IH [OF conjunct1 [OF one] io(2)] one by auto
  qed simp
  have load: "map name_exposure es = es" if "list_all well_named es" for es
    using that by (intro map_idI) (auto simp: list_all_iff well_named_def name_exposure_def)
  have repair: "synced fw' \<and> fw_disk fw' = Some (fw_exposed fw') \<and>
      (exposures_ok (fw_exposed broken) \<longrightarrow> fw_exposed (fw_load iface seeds (Holds (fw_exposed fw'))) = fw_exposed fw')"
    if "io_ok io" "fw' = fw_step (io, Unexpose pr port scope) broken" for broken io pr port scope fw'
    using that commit_synced [OF that(1)] fw_step_exposed [of broken "(io, Unexpose pr port scope)"]
    by (auto simp: fw_step_def unexpose_def fw_load_def exposures_ok_def load)
  show ?thesis
    unfolding Let_def by (intro conjI allI impI) (use run [OF assms(1)] repair [OF _ refl] in blast)+
qed

text \<open>C38 (scope_wire_roundtrip).
  A scope survives the wire: what one end writes the other reads back as the same scope, every
  scope an old client cannot express is an object it rejects, and the two forms it can express
  (no restriction, a bare network name) are the ones it always wrote.\<close>

theorem scope_wire_roundtrip:
  "scope_of_json (scope_to_json s) = Some s \<and>
   ((scope_to_json s = JNull \<longleftrightarrow> s = AllPeers) \<and> (\<forall>n. scope_to_json s = JString n \<longleftrightarrow> s = Unresolved None n))"
proof -
  have "word_of_int (uint g) = g \<and> uint g < 2 ^ 64" for g :: u64
    using uint_lt2p [of g] by simp
  then show ?thesis
    by (auto simp: scope_to_json_def scope_of_json_def scope_of_tagged_def json_u64_def json_string_def
        split: expose_scope.splits option.splits)
qed

end
