(* ===== verification/Nft.thy ===== *)
theory Nft
  imports Exposure
begin

section \<open>The packet filter: \<open>crates/engine/src/fw/nftables.rs\<close>\<close>

text \<open>
  The script the Linux backend pipes to \<open>nft -f -\<close>. It is built here as a list of commands and
  rendered to the text the code writes; \<open>verdict\<close> is what such a chain decides by nftables' own
  documentation: its rules in order, the first that matches wins, and the chain's policy when none
  does.
\<close>

definition P2P_PORT :: u16 where "P2P_PORT = 51830"

definition TABLE :: string where "TABLE = ''inet unitylan''"

subsection \<open>Set names\<close>

definition san :: "string \<Rightarrow> string" where
  "san s = map (\<lambda>c. if is_alnum c then c else CHR ''_'') s"

definition set_name :: "expose_scope \<Rightarrow> string" where
  "set_name s =
     (case s of
        OwnDevices \<Rightarrow> ''own_devices''
      | Net g r \<Rightarrow> ''net_'' @ dec (unat g) @ ''_'' @ dec (unat r)
      | Unresolved guild name \<Rightarrow>
          ''named_'' @ san (case guild of None \<Rightarrow> [] | Some g \<Rightarrow> g) @ ''_'' @ san name
      | AllPeers \<Rightarrow> [])"

subsection \<open>The script\<close>

datatype rule =
    DropForeign ipv4 string
  | AcceptOther string
  | AcceptEstablished
  | AcceptEcho
  | AcceptUdp u16
  | AcceptPorts proto "u16 list"
  | AcceptFrom string proto u16
  | DropRest

datatype command = AddTable | DeleteTable | AddSet string | AddElements string "ipv4 list" | AddInput | AddRule rule

definition scoped :: "exposed list \<Rightarrow> exposed list" where
  "scoped es = filter (\<lambda>e. ex_scope e \<noteq> AllPeers) es"

text \<open>The \<open>BTreeMap\<close> of scopes by set name: of several scopes with one name, the last.\<close>

definition scope_of_set :: "exposed list \<Rightarrow> string \<Rightarrow> expose_scope option" where
  "scope_of_set es n = map_of (rev (map (\<lambda>e. (set_name (ex_scope e), ex_scope e)) (scoped es))) n"

definition set_names :: "exposed list \<Rightarrow> string list" where
  "set_names es = sort (remdups (map (\<lambda>e. set_name (ex_scope e)) (scoped es)))"

definition set_members :: "exposed list \<Rightarrow> peer_sets \<Rightarrow> string \<Rightarrow> ipv4 list" where
  "set_members es ps n =
     (case scope_of_set es n of None \<Rightarrow> [] | Some s \<Rightarrow> (case sources ps s of None \<Rightarrow> [] | Some ips \<Rightarrow> ips))"

definition set_commands :: "exposed list \<Rightarrow> peer_sets \<Rightarrow> command list" where
  "set_commands es ps =
     concat (map (\<lambda>n. AddSet n # (if set_members es ps n = [] then [] else [AddElements n (set_members es ps n)])) (set_names es))"

definition unscoped_ports :: "exposed list \<Rightarrow> proto \<Rightarrow> u16 list" where
  "unscoped_ports es pr = map ex_port (filter (\<lambda>e. ex_scope e = AllPeers \<and> ex_proto e = pr) es)"

definition input_rules :: "string \<Rightarrow> ipv4 option \<Rightarrow> exposed list \<Rightarrow> rule list" where
  "input_rules iface mesh es =
     (case mesh of None \<Rightarrow> [] | Some a \<Rightarrow> [DropForeign a iface]) @
     [AcceptOther iface, AcceptEstablished, AcceptEcho, AcceptUdp P2P_PORT] @
     (if unscoped_ports es Tcp = [] then [] else [AcceptPorts Tcp (unscoped_ports es Tcp)]) @
     (if unscoped_ports es Udp = [] then [] else [AcceptPorts Udp (unscoped_ports es Udp)]) @
     map (\<lambda>e. AcceptFrom (set_name (ex_scope e)) (ex_proto e) (ex_port e)) (scoped es) @
     [DropRest]"

definition commands :: "string \<Rightarrow> ipv4 option \<Rightarrow> exposed list \<Rightarrow> peer_sets \<Rightarrow> command list" where
  "commands iface mesh es ps =
     [AddTable, DeleteTable, AddTable] @ set_commands es ps @ [AddInput] @ map AddRule (input_rules iface mesh es)"

subsection \<open>Its text\<close>

definition ip_text :: "ipv4 \<Rightarrow> string" where
  "ip_text a = dec (unat (drop_bit 24 a AND 255)) @ ''.'' @ dec (unat (drop_bit 16 a AND 255)) @ ''.'' @
     dec (unat (drop_bit 8 a AND 255)) @ ''.'' @ dec (unat (a AND 255))"

fun joined :: "string list \<Rightarrow> string" where
  "joined [] = []"
| "joined [x] = x"
| "joined (x # xs) = x @ '', '' @ joined xs"

definition proto_text :: "proto \<Rightarrow> string" where
  "proto_text p = (case p of Tcp \<Rightarrow> ''tcp'' | Udp \<Rightarrow> ''udp'')"

definition quoted :: "string \<Rightarrow> string" where
  "quoted s = CHR 0x22 # s @ [CHR 0x22]"

fun rule_text :: "rule \<Rightarrow> string" where
  "rule_text (DropForeign a iface) = ''ip daddr '' @ ip_text a @ '' iifname != { '' @ quoted iface @ '', '' @ quoted ''lo'' @ '' } drop''"
| "rule_text (AcceptOther iface) = ''iifname != '' @ quoted iface @ '' accept''"
| "rule_text AcceptEstablished = ''ct state established,related accept''"
| "rule_text AcceptEcho = ''icmp type echo-request accept''"
| "rule_text (AcceptUdp p) = ''udp dport '' @ dec (unat p) @ '' accept''"
| "rule_text (AcceptPorts pr ports) =
     proto_text pr @ '' dport { '' @ joined (map (\<lambda>p. dec (unat p)) ports) @ '' } accept''"
| "rule_text (AcceptFrom n pr p) = ''ip saddr @'' @ n @ '' '' @ proto_text pr @ '' dport '' @ dec (unat p) @ '' accept''"
| "rule_text DropRest = ''drop''"

fun command_text :: "command \<Rightarrow> string" where
  "command_text AddTable = ''add table '' @ TABLE @ [CHR 0x0A]"
| "command_text DeleteTable = ''delete table '' @ TABLE @ [CHR 0x0A]"
| "command_text (AddSet n) = ''add set '' @ TABLE @ '' '' @ n @ '' { type ipv4_addr ; }'' @ [CHR 0x0A]"
| "command_text (AddElements n ips) =
     ''add element '' @ TABLE @ '' '' @ n @ '' { '' @ joined (map ip_text ips) @ '' }'' @ [CHR 0x0A]"
| "command_text AddInput =
     ''add chain '' @ TABLE @ '' input { type filter hook input priority 0 ; policy accept ; }'' @ [CHR 0x0A]"
| "command_text (AddRule r) = ''add rule '' @ TABLE @ '' input '' @ rule_text r @ [CHR 0x0A]"

definition ruleset :: "string \<Rightarrow> ipv4 option \<Rightarrow> exposed list \<Rightarrow> peer_sets \<Rightarrow> string" where
  "ruleset iface mesh es ps = concat (map command_text (commands iface mesh es ps))"

subsection \<open>What the chain decides\<close>

datatype transport = To proto u16 | EchoRequest | OtherTransport

record packet =
  pk_iif :: string
  pk_src :: ipv4
  pk_dst :: ipv4
  pk_transport :: transport
  pk_established :: bool

definition set_of :: "command list \<Rightarrow> string \<Rightarrow> ipv4 set" where
  "set_of cs n = (\<Union>c\<in>set cs. case c of AddElements m ips \<Rightarrow> if m = n then set ips else {} | _ \<Rightarrow> {})"

fun rule_verdict :: "(string \<Rightarrow> ipv4 set) \<Rightarrow> packet \<Rightarrow> rule \<Rightarrow> bool option" where
  "rule_verdict S p (DropForeign a iface) =
     (if pk_dst p = a \<and> pk_iif p \<notin> {iface, ''lo''} then Some False else None)"
| "rule_verdict S p (AcceptOther iface) = (if pk_iif p \<noteq> iface then Some True else None)"
| "rule_verdict S p AcceptEstablished = (if pk_established p then Some True else None)"
| "rule_verdict S p AcceptEcho = (if pk_transport p = EchoRequest then Some True else None)"
| "rule_verdict S p (AcceptUdp port) = (if pk_transport p = To Udp port then Some True else None)"
| "rule_verdict S p (AcceptPorts pr ports) =
     (if pk_transport p \<in> To pr ` set ports then Some True else None)"
| "rule_verdict S p (AcceptFrom n pr port) =
     (if pk_src p \<in> S n \<and> pk_transport p = To pr port then Some True else None)"
| "rule_verdict S p DropRest = Some False"

fun first_verdict :: "(rule \<Rightarrow> bool option) \<Rightarrow> rule list \<Rightarrow> bool" where
  "first_verdict v [] = True"
| "first_verdict v (r # rs) = (case v r of Some b \<Rightarrow> b | None \<Rightarrow> first_verdict v rs)"

definition rules_in :: "command list \<Rightarrow> rule list" where
  "rules_in cs = List.map_filter (\<lambda>c. case c of AddRule r \<Rightarrow> Some r | _ \<Rightarrow> None) cs"

definition verdict :: "command list \<Rightarrow> packet \<Rightarrow> bool" where
  "verdict cs p = first_verdict (rule_verdict (set_of cs) p) (rules_in cs)"

text \<open>The filter a firewall has installed, on a packet; without one nothing is filtered.\<close>

definition passes :: "firewall \<Rightarrow> packet \<Rightarrow> bool" where
  "passes fw p =
     (case fw_installed fw of
        None \<Rightarrow> True
      | Some i \<Rightarrow> verdict (commands (in_iface i) (in_mesh_addr i) (in_exposed i) (in_peers i)) p)"

subsection \<open>The chain, rule by rule\<close>

lemma rules_in_Cons [simp]: "rules_in (c # cs) = (case c of AddRule r \<Rightarrow> r # rules_in cs | _ \<Rightarrow> rules_in cs)"
  by (simp add: rules_in_def map_filter_simps split: command.splits)

lemma rules_in_append [simp]: "rules_in (a @ b) = rules_in a @ rules_in b"
  by (simp add: rules_in_def List.map_filter_def)

lemma rules_in_AddRule [simp]: "rules_in (map AddRule rs) = rs"
  by (induction rs) (simp_all add: rules_in_def map_filter_simps)

lemma rules_in_set_commands [simp]: "rules_in (set_commands es ps) = []"
proof -
  have "rules_in (concat xs) = concat (map rules_in xs)" for xs
    by (induction xs) (simp_all add: rules_in_def map_filter_simps List.map_filter_def)
  then show ?thesis
    by (simp add: set_commands_def comp_def) (simp add: rules_in_def map_filter_simps)
qed

lemma rules_in_commands: "rules_in (commands iface mesh es ps) = input_rules iface mesh es"
  by (simp add: commands_def)

lemma set_of_commands:
  "set_of (commands iface mesh es ps) n = (if n \<in> set (set_names es) then set (set_members es ps n) else {})"
proof -
  have "set_of (commands iface mesh es ps) n = (\<Union>c\<in>set (set_commands es ps). case c of
      AddElements m ips \<Rightarrow> if m = n then set ips else {} | _ \<Rightarrow> {})"
    by (auto simp: set_of_def commands_def)
  also have "\<dots> = (if n \<in> set (set_names es) then set (set_members es ps n) else {})"
    by (auto simp: set_commands_def split: if_splits)
  finally show ?thesis .
qed

lemma first_verdict_append:
  "first_verdict v (a @ b) = (case List.find (\<lambda>r. v r \<noteq> None) a of Some r \<Rightarrow> the (v r) | None \<Rightarrow> first_verdict v b)"
  by (induction a) (auto split: option.splits)

lemma first_verdict_accepts:
  assumes "\<And>r. r \<in> set rs \<Longrightarrow> v r \<noteq> Some False"
  shows "first_verdict v (rs @ [DropRest]) \<longleftrightarrow> (\<exists>r\<in>set rs. v r = Some True) \<or> (v DropRest \<noteq> Some False)"
  using assms
proof (induction rs)
  case (Cons r rs)
  have "v r = None \<or> v r = Some True" using Cons.prems [of r] by (cases "v r") auto
  with Cons.IH Cons.prems show ?case by auto
qed (auto split: option.splits)

lemma port_group:
  "(\<exists>r\<in>set (if ports = [] then [] else [AcceptPorts q ports]). rule_verdict S p r = Some True) \<longleftrightarrow>
     pk_transport p \<in> To q ` set ports"
  by auto

lemma scoped_set_names: "e \<in> set (scoped es) \<Longrightarrow> set_name (ex_scope e) \<in> set (set_names es)"
  by (auto simp: set_names_def)

text \<open>A packet arriving on the mesh interface that opens a connection to a port.\<close>

lemma mesh_verdict:
  assumes "pk_iif p = iface" and "\<not> pk_established p" and "pk_transport p = To pr port" and "(pr, port) \<noteq> (Udp, P2P_PORT)"
  shows "verdict (commands iface mesh es ps) p \<longleftrightarrow>
    (\<exists>e\<in>set es. ex_proto e = pr \<and> ex_port e = port \<and>
       (ex_scope e = AllPeers \<or> ex_scope e \<noteq> AllPeers \<and> pk_src p \<in> set (set_members es ps (set_name (ex_scope e)))))"
proof -
  let ?v = "rule_verdict (set_of (commands iface mesh es ps)) p"
  let ?mid = "(if unscoped_ports es Tcp = [] then [] else [AcceptPorts Tcp (unscoped_ports es Tcp)]) @
     (if unscoped_ports es Udp = [] then [] else [AcceptPorts Udp (unscoped_ports es Udp)]) @
     map (\<lambda>e. AcceptFrom (set_name (ex_scope e)) (ex_proto e) (ex_port e)) (scoped es)"
  have "verdict (commands iface mesh es ps) p \<longleftrightarrow> first_verdict ?v (?mid @ [DropRest])"
    unfolding verdict_def rules_in_commands input_rules_def
    using assms by (cases mesh) auto
  also have "\<dots> \<longleftrightarrow> (\<exists>r\<in>set ?mid. ?v r = Some True)"
    by (subst first_verdict_accepts) (auto split: if_splits)
  also have "\<dots> \<longleftrightarrow> (\<exists>e\<in>set es. ex_scope e = AllPeers \<and> ex_proto e = pr \<and> ex_port e = port) \<or>
      (\<exists>e\<in>set (scoped es). ex_proto e = pr \<and> ex_port e = port \<and> pk_src p \<in> set_of (commands iface mesh es ps) (set_name (ex_scope e)))"
  proof -
    have u: "pk_transport p \<in> To q ` set (unscoped_ports es q) \<longleftrightarrow>
        q = pr \<and> (\<exists>e\<in>set es. ex_scope e = AllPeers \<and> ex_proto e = pr \<and> ex_port e = port)" for q
      using assms(3) by (auto simp: unscoped_ports_def)
    have m: "(\<exists>r\<in>set (map (\<lambda>e. AcceptFrom (set_name (ex_scope e)) (ex_proto e) (ex_port e)) (scoped es)). ?v r = Some True) \<longleftrightarrow>
        (\<exists>e\<in>set (scoped es). ex_proto e = pr \<and> ex_port e = port \<and>
           pk_src p \<in> set_of (commands iface mesh es ps) (set_name (ex_scope e)))"
      using assms(3) by auto
    show ?thesis unfolding set_append bex_Un port_group u m by (cases pr) auto
  qed
  also have "\<dots> \<longleftrightarrow> (\<exists>e\<in>set es. ex_proto e = pr \<and> ex_port e = port \<and>
      (ex_scope e = AllPeers \<or> ex_scope e \<noteq> AllPeers \<and> pk_src p \<in> set (set_members es ps (set_name (ex_scope e)))))"
    using scoped_set_names by (fastforce simp: set_of_commands scoped_def)
  finally show ?thesis .
qed

subsection \<open>Set names are exact for resolved scopes\<close>

definition unresolved :: "expose_scope \<Rightarrow> bool" where
  "unresolved s \<longleftrightarrow> (case s of Unresolved g n \<Rightarrow> True | _ \<Rightarrow> False)"

lemma dec_no_underscore: "CHR ''_'' \<notin> set (dec n)"
  using dec_digits by (fastforce simp: is_digit_def)

lemma split_at_unique:
  assumes "a @ c # b = a' @ c # b'" and "c \<notin> set a" and "c \<notin> set a'"
  shows "a = a' \<and> b = b'"
  using assms
proof (induction a arbitrary: a')
  case Nil
  then show ?case by (cases a') auto
next
  case (Cons x a)
  then show ?case by (cases a') auto
qed

lemma set_name_resolved:
  assumes "s \<noteq> AllPeers" and "\<not> unresolved s" and "t \<noteq> AllPeers" and "set_name s = set_name t"
  shows "s = t"
proof (cases s)
  case (Net g r)
  then show ?thesis
  proof (cases t)
    case (Net g' r')
    with \<open>s = Net g r\<close> assms(4) have "dec (unat g) @ CHR ''_'' # dec (unat r) = dec (unat g') @ CHR ''_'' # dec (unat r')"
      by (simp add: set_name_def)
    from split_at_unique [OF this dec_no_underscore dec_no_underscore] Net \<open>s = Net g r\<close> show ?thesis
      by (simp add: word_unat_eq_iff)
  qed (use Net assms in \<open>auto simp: set_name_def\<close>)
next
  case OwnDevices
  then show ?thesis using assms by (cases t) (auto simp: set_name_def)
qed (use assms in \<open>auto simp: unresolved_def\<close>)

text \<open>No two names that were never resolved share a set.\<close>

definition names_apart :: "exposed list \<Rightarrow> bool" where
  "names_apart es \<longleftrightarrow> (\<forall>e\<in>set es. \<forall>f\<in>set es. unresolved (ex_scope e) \<and> unresolved (ex_scope f) \<and>
     set_name (ex_scope e) = set_name (ex_scope f) \<longrightarrow> ex_scope e = ex_scope f)"

lemma set_members_exact:
  assumes "names_apart es" and "e \<in> set es" and "ex_scope e \<noteq> AllPeers"
  shows "set (set_members es ps (set_name (ex_scope e))) = {a. admits ps (ex_scope e) a}"
proof -
  let ?l = "rev (map (\<lambda>e. (set_name (ex_scope e), ex_scope e)) (scoped es))"
  have "\<exists>s. map_of ?l (set_name (ex_scope e)) = Some s"
  proof -
    have "(set_name (ex_scope e), ex_scope e) \<in> set ?l" using assms(2,3) by (auto simp: scoped_def)
    then show ?thesis by (meson weak_map_of_SomeI)
  qed
  then obtain s where s: "scope_of_set es (set_name (ex_scope e)) = Some s" by (auto simp: scope_of_set_def)
  then obtain f where f: "f \<in> set es" "ex_scope f = s" "s \<noteq> AllPeers" "set_name s = set_name (ex_scope e)"
    by (auto simp: scope_of_set_def scoped_def dest!: map_of_SomeD)
  have "s = ex_scope e"
  proof (cases "unresolved s")
    case True
    then show ?thesis
    proof (cases "unresolved (ex_scope e)")
      case True
      with \<open>unresolved s\<close> f assms(1,2) show ?thesis unfolding names_apart_def by metis
    next
      case False
      from set_name_resolved [OF assms(3) False f(3)] f(4) show ?thesis by simp
    qed
  next
    case False
    from set_name_resolved [OF f(3) False assms(3) f(4)] show ?thesis .
  qed
  moreover have "sources ps (ex_scope e) \<noteq> None" using assms(3) by (simp add: sources_def split: expose_scope.split)
  ultimately show ?thesis using s by (auto simp: set_members_def admits_def)
qed

text \<open>A connection a peer opens to one of our ports.\<close>

definition inbound :: "firewall \<Rightarrow> ipv4 \<Rightarrow> proto \<Rightarrow> u16 \<Rightarrow> packet" where
  "inbound fw src pr port = \<lparr>pk_iif = fw_iface fw, pk_src = src,
     pk_dst = (case fw_mesh_addr fw of None \<Rightarrow> 0 | Some a \<Rightarrow> a), pk_transport = To pr port, pk_established = False\<rparr>"

lemma passes_inbound:
  assumes "synced fw" and "names_apart (fw_exposed fw)" and "(pr, port) \<noteq> (Udp, P2P_PORT)"
  shows "passes fw (inbound fw src pr port) \<longleftrightarrow>
    (\<exists>e\<in>set (effective_exposed (fw_exposed fw)). ex_proto e = pr \<and> ex_port e = port \<and> admits (fw_peers fw) (ex_scope e) src)"
proof -
  let ?es = "effective_exposed (fw_exposed fw)"
  have scopes: "ex_scope ` set ?es \<subseteq> ex_scope ` set (fw_exposed fw)"
    by (auto simp: effective_exposed_def)
  have apart: "names_apart ?es"
    unfolding names_apart_def
  proof (intro ballI impI)
    fix e f assume ef: "e \<in> set ?es" "f \<in> set ?es" "unresolved (ex_scope e) \<and> unresolved (ex_scope f) \<and>
        set_name (ex_scope e) = set_name (ex_scope f)"
    have "ex_scope e \<in> ex_scope ` set (fw_exposed fw)" "ex_scope f \<in> ex_scope ` set (fw_exposed fw)"
      using scopes ef(1,2) by blast+
    then obtain e' f' where ef': "e' \<in> set (fw_exposed fw)" "ex_scope e = ex_scope e'"
      "f' \<in> set (fw_exposed fw)" "ex_scope f = ex_scope f'"
      by (elim imageE) blast
    show "ex_scope e = ex_scope f"
      using assms(2) [unfolded names_apart_def, THEN bspec, OF ef'(1), THEN bspec, OF ef'(3)] ef(3)
      by (simp add: ef'(2,4))
  qed
  have "passes fw (inbound fw src pr port) \<longleftrightarrow>
      verdict (commands (fw_iface fw) (fw_mesh_addr fw) ?es (fw_peers fw)) (inbound fw src pr port)"
    using assms(1) by (simp add: passes_def synced_def wanted_def)
  also have "\<dots> \<longleftrightarrow> (\<exists>e\<in>set ?es. ex_proto e = pr \<and> ex_port e = port \<and>
       (ex_scope e = AllPeers \<or> ex_scope e \<noteq> AllPeers \<and> src \<in> set (set_members ?es (fw_peers fw) (set_name (ex_scope e)))))"
    by (subst mesh_verdict [OF _ _ _ assms(3)]) (simp_all add: inbound_def)
  also have "\<dots> \<longleftrightarrow> (\<exists>e\<in>set ?es. ex_proto e = pr \<and> ex_port e = port \<and> admits (fw_peers fw) (ex_scope e) src)"
  proof -
    have "ex_scope e = AllPeers \<or> ex_scope e \<noteq> AllPeers \<and> src \<in> set (set_members ?es (fw_peers fw) (set_name (ex_scope e))) \<longleftrightarrow>
        admits (fw_peers fw) (ex_scope e) src" if "e \<in> set ?es" for e
    proof (cases "ex_scope e = AllPeers")
      case True
      then show ?thesis by (simp add: admits_def sources_def)
    next
      case False
      with set_members_exact [OF apart that False] show ?thesis by simp
    qed
    then show ?thesis by meson
  qed
  finally show ?thesis .
qed

lemma open_always: "synced fw \<Longrightarrow> passes fw (inbound fw src Udp P2P_PORT)"
  by (cases "fw_mesh_addr fw")
     (simp_all add: synced_def passes_def wanted_def verdict_def rules_in_commands input_rules_def inbound_def)

lemma push_services_set:
  "set (push_services P es out) = set out \<union> {service_of e n | e n. e \<in> set es \<and> ex_name e = Some n \<and> P e}"
  by (induction P es out rule: push_services.induct) (auto split: option.splits)

lemma push_services_length: "length (push_services P es out) \<le> length es + length out"
  by (induction P es out rule: push_services.induct) (auto split: option.splits)


lemma told_services:
  "s \<in> set (push_services P es []) \<longleftrightarrow> (\<exists>e\<in>set es. \<exists>n. ex_name e = Some n \<and> P e \<and> s = service_of e n)"
  using push_services_set [of P es "[]"] by auto

lemma told_passes:
  assumes "synced fw" "names_apart (fw_exposed fw)" "s \<in> set (services_for peer fw)"
  shows "passes fw (inbound fw peer (ms_proto s) (ms_port s))"
proof -
  obtain e n where e: "e \<in> set (fw_exposed fw)" "admits (fw_peers fw) (ex_scope e) peer" "s = service_of e n"
    using in_set_takeD [OF assms(3) [unfolded services_for_def]] unfolding told_services by blast
  then have "e \<in> set (effective_exposed (fw_exposed fw))" by (simp add: effective_exposed_def)
  with e open_always [OF assms(1)] passes_inbound [OF assms(1,2), of "ms_proto s" "ms_port s" peer]
  show ?thesis by (cases "(ms_proto s, ms_port s) = (Udp, P2P_PORT)") (auto simp: service_of_def)
qed

text \<open>
  What a peer is told and what it can reach agree: each service announced to a peer is one whose port
  the filter opens to that peer, and of the ports the filter opens to it every one that carries a
  name is announced to it, up to the sixteen a device announces.\<close>

theorem told_is_reachable:
  assumes "synced fw" and "names_apart (fw_exposed fw)"
  shows "(\<forall>s\<in>set (services_for peer fw). passes fw (inbound fw peer (ms_proto s) (ms_port s))) \<and>
    (length (fw_exposed fw) \<le> MAX_SERVICES_PER_DEVICE \<longrightarrow>
     (\<forall>e\<in>set (fw_exposed fw). \<forall>n. ex_name e = Some n \<and> admits (fw_peers fw) (ex_scope e) peer \<longrightarrow>
        service_of e n \<in> set (services_for peer fw)))"
proof -
  let ?P = "\<lambda>e. admits (fw_peers fw) (ex_scope e) peer"
  let ?out = "push_services ?P (fw_exposed fw) []"
  have "set (services_for peer fw) = set ?out" if "length (fw_exposed fw) \<le> MAX_SERVICES_PER_DEVICE"
    using that push_services_length [of ?P "fw_exposed fw" "[]"] by (simp add: services_for_def)
  then show ?thesis using told_services told_passes [OF assms] by blast
qed

text \<open>
  Two exposures to networks that were never resolved to ids, whose names differ only in characters a
  set name replaces (\<open>game-night\<close>, \<open>game_night\<close>), share one address set, and it holds the last one's
  members: the first port is open to the members of the second network and closed to those of its
  own.\<close>

theorem named_sets_merge:
  assumes "synced fw" and "fw_exposed fw = [e1, e2]"
    and "ex_scope e1 = Unresolved None n1" and "ex_scope e2 = Unresolved None n2" and "san n1 = san n2"
    and "ex_kind e1 = Port" and "ex_kind e2 = Port"
    and "(ex_proto e1, ex_port e1) \<noteq> (ex_proto e2, ex_port e2)" and "(ex_proto e1, ex_port e1) \<noteq> (Udp, P2P_PORT)"
  shows "passes fw (inbound fw src (ex_proto e1) (ex_port e1)) \<longleftrightarrow> admits (fw_peers fw) (ex_scope e2) src"
proof -
  let ?es = "[e1, e2]"
  have eff: "effective_exposed [e1, e2] = ?es" using assms(6,7) by (simp add: effective_exposed_def)
  have name: "set_name (ex_scope e1) = set_name (ex_scope e2)" using assms(3-5) by (simp add: set_name_def)
  have "set_members ?es (fw_peers fw) (set_name (ex_scope e2)) = (case sources (fw_peers fw) (ex_scope e2) of None \<Rightarrow> [] | Some ips \<Rightarrow> ips)"
    using assms(3,4) by (simp add: set_members_def scope_of_set_def scoped_def)
  then have mem: "src \<in> set (set_members ?es (fw_peers fw) (set_name (ex_scope e2))) \<longleftrightarrow> admits (fw_peers fw) (ex_scope e2) src"
    using assms(4) by (simp add: admits_def sources_def)
  have "passes fw (inbound fw src (ex_proto e1) (ex_port e1)) \<longleftrightarrow>
      verdict (commands (fw_iface fw) (fw_mesh_addr fw) ?es (fw_peers fw)) (inbound fw src (ex_proto e1) (ex_port e1))"
    using assms(1,2) eff by (simp add: passes_def synced_def wanted_def)
  also have "\<dots> \<longleftrightarrow> (\<exists>e\<in>set ?es. ex_proto e = ex_proto e1 \<and> ex_port e = ex_port e1 \<and>
       (ex_scope e = AllPeers \<or> ex_scope e \<noteq> AllPeers \<and> src \<in> set (set_members ?es (fw_peers fw) (set_name (ex_scope e)))))"
    by (subst mesh_verdict [OF _ _ _ assms(9)]) (simp_all add: inbound_def)
  also have "\<dots> \<longleftrightarrow> admits (fw_peers fw) (ex_scope e2) src"
    using assms(3,4,8) mem name by auto
  finally show ?thesis .
qed

subsection \<open>A device that shares a game server\<close>

definition all_ok :: fw_io where "all_ok = \<lparr>io_write_ok = True, io_apply_ok = True\<rparr>"

definition demo_peers :: peer_sets where
  "demo_peers = \<lparr>pe_nets =
     [\<lparr>ni_guild_id = 1, ni_role_id = 2, ni_guild = ''home'', ni_name = ''game-night'', ni_ips = [5]\<rparr>,
      \<lparr>ni_guild_id = 1, ni_role_id = 3, ni_guild = ''home'', ni_name = ''game_night'', ni_ips = [6]\<rparr>], pe_own_devices = [7]\<rparr>"

definition demo_exposure :: "u16 \<Rightarrow> expose_scope \<Rightarrow> string \<Rightarrow> service_kind \<Rightarrow> exposed" where
  "demo_exposure port s n k = \<lparr>ex_proto = Tcp, ex_port = port, ex_scope = s, ex_name = Some n, ex_kind = k\<rparr>"

definition demo_fw :: "exposed list \<Rightarrow> firewall" where
  "demo_fw es = fw_run [(all_ok, Init), (all_ok, Peers demo_peers), (all_ok, MeshAddr 9)] (fw_load ''unl0'' [] (Holds es))"

lemma demo_fw_simps [simp]:
  "fw_exposed (demo_fw es) = map name_exposure es" "fw_peers (demo_fw es) = demo_peers" "fw_mesh_addr (demo_fw es) = Some 9"
  by (simp_all add: demo_fw_def fw_run_def fw_step_def fw_init_def update_peers_def set_mesh_addr_def reconcile_def all_ok_def
      fw_load_def demo_peers_def)

lemma demo_fw_synced: "synced (demo_fw es)"
  by (simp add: demo_fw_def fw_run_def fw_step_def fw_init_def update_peers_def set_mesh_addr_def reconcile_def all_ok_def
      fw_load_def demo_peers_def synced_def wanted_def)

lemma demo_named [simp]: "name_exposure (demo_exposure p s n k) = demo_exposure p s n k"
  by (simp add: name_exposure_def demo_exposure_def)

lemma demo_exposure_simps [simp]:
  "ex_proto (demo_exposure p s n k) = Tcp" "ex_port (demo_exposure p s n k) = p" "ex_scope (demo_exposure p s n k) = s"
  "ex_name (demo_exposure p s n k) = Some n" "ex_kind (demo_exposure p s n k) = k"
  by (simp_all add: demo_exposure_def)

lemma demo_admits [simp]: "admits demo_peers (Net 1 2) a \<longleftrightarrow> a = 5"
  by (simp add: admits_def sources_def find_net_def demo_peers_def)

lemma exposures_typed_witness:
  "exposures_ok (fw_exposed (fw_run [(all_ok, Expose Udp 25565 (Net 1 2) (Some ''mc'') Port), (all_ok, Widen ''mc'' OwnDevices)]
     (fw_load ''unl0'' [] (Holds [\<lparr>ex_proto = Tcp, ex_port = 22, ex_scope = AllPeers, ex_name = None, ex_kind = Port\<rparr>]))))"
proof -
  have "valid_label (default_label 22)" by code_simp
  then have "exposures_ok (map name_exposure [\<lparr>ex_proto = Tcp, ex_port = 22, ex_scope = AllPeers, ex_name = None, ex_kind = Port\<rparr>])"
    by (simp add: exposures_ok_def well_named_def name_exposure_def MAX_SERVICES_PER_DEVICE_def)
  from exposures_typed [OF this] show ?thesis by blast
qed

lemma rules_follow_intent_witness:
  "synced (fw_run [(all_ok, Expose Tcp 8096 OwnDevices (Some ''jellyfin'') Web)] (demo_fw []))"
proof -
  have "list_all (io_ok \<circ> fst) [(all_ok, Expose Tcp 8096 OwnDevices (Some ''jellyfin'') Web)]"
    by (simp add: io_ok_def all_ok_def)
  from rules_follow_intent [OF demo_fw_synced this] show ?thesis by blast
qed


lemma told_is_reachable_witness:
  "\<lparr>ms_name = ''mc'', ms_proto = Tcp, ms_port = 25565, ms_kind = Port\<rparr>
     \<in> set (services_for 5 (demo_fw [demo_exposure 25565 (Net 1 2) ''mc'' Port])) \<and>
   passes (demo_fw [demo_exposure 25565 (Net 1 2) ''mc'' Port]) (inbound (demo_fw [demo_exposure 25565 (Net 1 2) ''mc'' Port]) 5 Tcp 25565)"
proof -
  have apart: "names_apart (fw_exposed (demo_fw [demo_exposure 25565 (Net 1 2) ''mc'' Port]))"
    by (simp add: names_apart_def unresolved_def)
  show ?thesis
    using told_is_reachable [OF demo_fw_synced apart, of 5]
    by (auto simp: service_of_def MAX_SERVICES_PER_DEVICE_def)
qed

lemma named_sets_merge_witness:
  "passes (demo_fw [demo_exposure 1000 (Unresolved None ''game-night'') ''a'' Port, demo_exposure 2000 (Unresolved None ''game_night'') ''b'' Port])
     (inbound (demo_fw [demo_exposure 1000 (Unresolved None ''game-night'') ''a'' Port, demo_exposure 2000 (Unresolved None ''game_night'') ''b'' Port]) 6 Tcp 1000) \<and>
   \<not> admits demo_peers (Unresolved None ''game-night'') 6"
proof -
  let ?e = "demo_exposure 1000 (Unresolved None ''game-night'') ''a'' Port"
  let ?f = "demo_exposure 2000 (Unresolved None ''game_night'') ''b'' Port"
  have san: "san ''game-night'' = san ''game_night''" by code_simp
  have f: "ex_scope ?e = Unresolved None ''game-night''" "ex_scope ?f = Unresolved None ''game_night''" "ex_kind ?e = Port"
    "ex_kind ?f = Port" "ex_proto ?e = Tcp" "ex_port ?e = 1000" "ex_proto ?f = Tcp" "ex_port ?f = 2000"
    by (simp_all add: demo_exposure_def)
  have es: "fw_exposed (demo_fw [?e, ?f]) = [?e, ?f]" by simp
  have "passes (demo_fw [?e, ?f]) (inbound (demo_fw [?e, ?f]) 6 Tcp 1000)"
    using named_sets_merge [OF demo_fw_synced es f(1,2) san f(3,4), of 6] f
    by (simp add: admits_def sources_def matching_def demo_peers_def)
  then show ?thesis by (simp add: admits_def sources_def matching_def demo_peers_def)
qed

end
