(* ===== verification/WebProxy.thy ===== *)
theory WebProxy
  imports Nft
begin

section \<open>Web services behind the proxy: \<open>Firewall::web_routes\<close>, \<open>crates/proxy\<close>\<close>

text \<open>
  What the engine tells the TLS proxy to serve, which service the proxy picks for a request and a
  caller, and what it serves with as the engine's word changes. Loading a certificate is an
  argument; a \<open>Host\<close> header is a byte list, in which \<open>str::trim\<close> strips ASCII white space.
\<close>

record proxy_route =
  rt_hostnames :: "string list"
  rt_port :: u16
  rt_allow :: "ipv4 list option"

subsection \<open>The routes\<close>

definition service_hosts :: "string \<Rightarrow> string option \<Rightarrow> string \<Rightarrow> string list" where
  "service_hosts user cert_domain name =
     map lower ((name @ ''.'' @ user @ ''.'' @ DNS_SUFFIX) #
       (case cert_domain of None \<Rightarrow> [] | Some d \<Rightarrow> [name @ ''.'' @ user @ ''.'' @ d]))"

definition allow_list :: "peer_sets \<Rightarrow> ipv4 option \<Rightarrow> expose_scope \<Rightarrow> ipv4 list option" where
  "allow_list ps own scope =
     map_option (\<lambda>ips. sort (remdups (ips @ (case own of None \<Rightarrow> [] | Some a \<Rightarrow> [a])))) (sources ps scope)"

definition join_allow :: "ipv4 list option \<Rightarrow> ipv4 list option \<Rightarrow> ipv4 list option" where
  "join_allow old new =
     (case (old, new) of
        (Some l, None) \<Rightarrow> None
      | (Some l, Some l') \<Rightarrow> Some (sort (remdups (l @ l')))
      | (None, _) \<Rightarrow> None)"

fun add_route :: "proxy_route \<Rightarrow> proxy_route list \<Rightarrow> proxy_route list" where
  "add_route r [] = [r]"
| "add_route r (x # xs) =
     (if rt_hostnames x = rt_hostnames r then x\<lparr>rt_allow := join_allow (rt_allow x) (rt_allow r)\<rparr> # xs
      else x # add_route r xs)"

definition route_exposure ::
  "string \<Rightarrow> string option \<Rightarrow> peer_sets \<Rightarrow> ipv4 option \<Rightarrow> exposed \<Rightarrow> proxy_route list \<Rightarrow> proxy_route list" where
  "route_exposure user cd ps own e out =
     (case (ex_kind e, ex_name e) of
        (Web, Some name) \<Rightarrow>
          add_route \<lparr>rt_hostnames = service_hosts user cd name, rt_port = ex_port e, rt_allow = allow_list ps own (ex_scope e)\<rparr> out
      | _ \<Rightarrow> out)"

definition web_routes :: "string \<Rightarrow> string option \<Rightarrow> firewall \<Rightarrow> proxy_route list" where
  "web_routes user cd fw = fold (route_exposure user cd (fw_peers fw) (fw_mesh_addr fw)) (fw_exposed fw) []"

subsection \<open>The decision\<close>

definition rfind :: "char \<Rightarrow> string \<Rightarrow> nat option" where
  "rfind c s = (if c \<in> set s then Some (length s - 1 - length (takeWhile (\<lambda>x. x \<noteq> c) (rev s))) else None)"

definition normalize_host :: "string \<Rightarrow> string" where
  "normalize_host s =
     (let h = trim s;
          h = (case rfind (CHR '':'') h of
                 None \<Rightarrow> h
               | Some i \<Rightarrow>
                   if CHR '']'' \<notin> set h \<or> (case rfind (CHR '']'') h of None \<Rightarrow> False | Some b \<Rightarrow> b < i)
                   then take i h else h)
      in lower (trim_end_dot h))"

datatype decision = Forward u16 | Forbidden | Unknown

definition resolve_host :: "proxy_route list \<Rightarrow> string \<Rightarrow> ipv4 \<Rightarrow> decision" where
  "resolve_host routes host peer =
     (case List.find (\<lambda>r. normalize_host host \<in> set (rt_hostnames r)) routes of
        None \<Rightarrow> Unknown
      | Some r \<Rightarrow>
          (case rt_allow r of
             None \<Rightarrow> Forward (rt_port r)
           | Some allow \<Rightarrow> if peer \<in> set allow then Forward (rt_port r) else Forbidden))"

subsection \<open>Serving\<close>

record proxy_live =
  lv_bind :: "ipv4 option"
  lv_cert_path :: "string option"
  lv_key_path :: "string option"
  lv_cert_expires_at :: u64
  lv_routes :: "proxy_route list"

definition default_live :: proxy_live where
  "default_live = \<lparr>lv_bind = None, lv_cert_path = None, lv_key_path = None, lv_cert_expires_at = 0, lv_routes = []\<rparr>"

definition servable :: "proxy_live \<Rightarrow> (ipv4 \<times> string \<times> string) option" where
  "servable lv =
     (if lv_routes lv = [] then None
      else case (lv_bind lv, lv_cert_path lv, lv_key_path lv) of
             (Some b, Some c, Some k) \<Rightarrow> Some (b, c, k) | _ \<Rightarrow> None)"

text \<open>What connections are served with, and the address of the listener once there is one.\<close>

record 'tls proxy =
  px_live :: proxy_live
  px_serving :: "('tls \<times> proxy_route list) option"
  px_listener :: "ipv4 option"

definition no_proxy :: "'tls proxy" where
  "no_proxy = \<lparr>px_live = default_live, px_serving = None, px_listener = None\<rparr>"

definition serve_round :: "(string \<Rightarrow> string \<Rightarrow> 'tls option) \<Rightarrow> 'tls proxy \<Rightarrow> 'tls proxy" where
  "serve_round load px =
     (case (case servable (px_live px) of
              Some (b, c, k) \<Rightarrow> map_option (\<lambda>t. (b, t)) (load c k) | None \<Rightarrow> None) of
        Some (b, t) \<Rightarrow>
          px\<lparr>px_serving := Some (t, lv_routes (px_live px)),
             px_listener := (case px_listener px of None \<Rightarrow> Some b | Some a \<Rightarrow> Some a)\<rparr>
      | None \<Rightarrow> px\<lparr>px_serving := None\<rparr>)"

text \<open>
  A status line from the engine, or the end of its stream; \<open>load\<close> is what loading a certificate
  yields at that time. An unchanged word wakes nobody.
\<close>

datatype 'tls word = Said proxy_live "string \<Rightarrow> string \<Rightarrow> 'tls option" | Lost "string \<Rightarrow> string \<Rightarrow> 'tls option"

definition hear :: "proxy_live \<Rightarrow> (string \<Rightarrow> string \<Rightarrow> 'tls option) \<Rightarrow> 'tls proxy \<Rightarrow> 'tls proxy" where
  "hear lv load px = (if px_live px = lv then px else serve_round load (px\<lparr>px_live := lv\<rparr>))"

definition proxy_step :: "'tls word \<Rightarrow> 'tls proxy \<Rightarrow> 'tls proxy" where
  "proxy_step w px = (case w of Said lv load \<Rightarrow> hear lv load px | Lost load \<Rightarrow> hear default_live load px)"

subsection \<open>Which name a host is\<close>

lemma first_label:
  assumes "a @ CHR ''.'' # b = a' @ CHR ''.'' # b'" and "valid_label a" and "valid_label a'"
  shows "a = a'"
proof -
  have "CHR ''.'' \<notin> set n" if "valid_label n" for n
    using that by (auto simp: valid_label_def list_all_iff is_lower_def is_digit_def)
  with split_at_unique [OF assms(1)] assms(2,3) show ?thesis by blast
qed

lemma lower_label: "valid_label n \<Longrightarrow> lower n = n"
  unfolding lower_def
  by (intro map_idI) (auto simp: valid_label_def list_all_iff to_lower_def is_upper_def is_lower_def is_digit_def)

lemma hosts_apart:
  assumes "h \<in> set (service_hosts user cd n)" and "h \<in> set (service_hosts user cd n')" and "valid_label n" and "valid_label n'"
  shows "n = n'"
proof -
  have shape: "\<exists>b. h = m @ CHR ''.'' # b" if "h \<in> set (service_hosts user cd m)" "valid_label m" for m
  proof -
    have "lower ''.'' = ''.''" by code_simp
    then have dot: "lower (CHR ''.'' # r) = CHR ''.'' # lower r" for r
      using lower_append [of "''.''" r] by simp
    show ?thesis using that by (auto simp: service_hosts_def lower_label dot split: option.splits)
  qed
  obtain b b' where "h = n @ CHR ''.'' # b" "h = n' @ CHR ''.'' # b'"
    using shape [OF assms(1,3)] shape [OF assms(2,4)] by blast
  with first_label [of n b n' b'] assms(3,4) show ?thesis by simp
qed

subsection \<open>The routes of a list of exposures\<close>

definition web_named :: "string \<Rightarrow> exposed \<Rightarrow> bool" where
  "web_named n e \<longleftrightarrow> ex_kind e = Web \<and> ex_name e = Some n"

definition allows :: "proxy_route \<Rightarrow> ipv4 \<Rightarrow> bool" where
  "allows r peer \<longleftrightarrow> (case rt_allow r of None \<Rightarrow> True | Some l \<Rightarrow> peer \<in> set l)"

text \<open>One route per web service name, its port the first exposure's, its callers the union of the scopes'.\<close>

definition route_ok ::
  "string \<Rightarrow> string option \<Rightarrow> peer_sets \<Rightarrow> ipv4 option \<Rightarrow> exposed list \<Rightarrow> string \<Rightarrow> proxy_route \<Rightarrow> bool" where
  "route_ok user cd ps own es n r \<longleftrightarrow> valid_label n \<and> rt_hostnames r = service_hosts user cd n \<and>
     (\<exists>e. List.find (web_named n) es = Some e \<and> rt_port r = ex_port e) \<and>
     (\<forall>peer. allows r peer \<longleftrightarrow> (\<exists>e\<in>set es. web_named n e \<and> (admits ps (ex_scope e) peer \<or> own = Some peer)))"

definition routes_for ::
  "string \<Rightarrow> string option \<Rightarrow> peer_sets \<Rightarrow> ipv4 option \<Rightarrow> exposed list \<Rightarrow> proxy_route list \<Rightarrow> bool" where
  "routes_for user cd ps own es routes \<longleftrightarrow> distinct (map rt_hostnames routes) \<and>
     (\<forall>r\<in>set routes. \<exists>n. route_ok user cd ps own es n r) \<and>
     (\<forall>e\<in>set es. \<forall>n. web_named n e \<longrightarrow> service_hosts user cd n \<in> rt_hostnames ` set routes)"

lemma service_hosts_inj:
  "service_hosts user cd n = service_hosts user cd n' \<Longrightarrow> valid_label n \<Longrightarrow> valid_label n' \<Longrightarrow> n = n'"
  using hosts_apart [of "hd (service_hosts user cd n)" user cd n n'] by (simp add: service_hosts_def)

lemma allows_join: "allows (r\<lparr>rt_allow := join_allow (rt_allow r) a\<rparr>) peer \<longleftrightarrow>
    allows r peer \<or> (case a of None \<Rightarrow> True | Some l \<Rightarrow> peer \<in> set l)"
  by (auto simp: allows_def join_allow_def split: option.splits)

lemma allow_list_mem: "(case allow_list ps own scope of None \<Rightarrow> True | Some l \<Rightarrow> peer \<in> set l) \<longleftrightarrow>
    admits ps scope peer \<or> own = Some peer \<and> sources ps scope \<noteq> None"
  by (auto simp: allow_list_def admits_def split: option.splits)

lemma add_route_hit:
  assumes "\<exists>x\<in>set xs. rt_hostnames x = rt_hostnames r"
  shows "\<exists>a x b. xs = a @ x # b \<and> rt_hostnames x = rt_hostnames r \<and>
    add_route r xs = a @ x\<lparr>rt_allow := join_allow (rt_allow x) (rt_allow r)\<rparr> # b"
  using assms
proof (induction xs)
  case (Cons y xs)
  show ?case
  proof (cases "rt_hostnames y = rt_hostnames r")
    case True
    then show ?thesis by (intro exI [of _ "[]"] exI [of _ y] exI [of _ xs]) simp
  next
    case False
    with Cons obtain a x b where "xs = a @ x # b \<and> rt_hostnames x = rt_hostnames r \<and>
        add_route r xs = a @ x\<lparr>rt_allow := join_allow (rt_allow x) (rt_allow r)\<rparr> # b" by auto
    with False have "y # xs = (y # a) @ x # b" "rt_hostnames x = rt_hostnames r"
      "add_route r (y # xs) = (y # a) @ x\<lparr>rt_allow := join_allow (rt_allow x) (rt_allow r)\<rparr> # b" by auto
    then show ?thesis by blast
  qed
qed simp

lemma add_route_miss: "\<forall>x\<in>set xs. rt_hostnames x \<noteq> rt_hostnames r \<Longrightarrow> add_route r xs = xs @ [r]"
  by (induction xs) auto

lemma find_append: "List.find P (xs @ ys) = (case List.find P xs of Some x \<Rightarrow> Some x | None \<Rightarrow> List.find P ys)"
  by (induction xs) auto

lemma route_ok_skip:
  assumes "route_ok user cd ps own es n r" and "\<not> web_named n e"
  shows "route_ok user cd ps own (es @ [e]) n r"
  using assms by (auto simp: route_ok_def find_append)

lemma route_ok_join:
  assumes "route_ok user cd ps own es n r" and "web_named n e"
  shows "route_ok user cd ps own (es @ [e]) n (r\<lparr>rt_allow := join_allow (rt_allow r) (allow_list ps own (ex_scope e))\<rparr>)"
proof -
  have "\<exists>f\<in>set es. web_named n f" using assms(1) by (auto simp: route_ok_def find_Some_iff)
  then have "allows (r\<lparr>rt_allow := join_allow (rt_allow r) (allow_list ps own (ex_scope e))\<rparr>) peer \<longleftrightarrow>
      (\<exists>f\<in>set (es @ [e]). web_named n f \<and> (admits ps (ex_scope f) peer \<or> own = Some peer))" for peer
    unfolding allows_join allow_list_mem using assms by (auto simp: route_ok_def)
  then show ?thesis using assms by (auto simp: route_ok_def find_append)
qed

lemma route_ok_new:
  assumes "valid_label n" and "web_named n e" and "\<forall>f\<in>set es. \<not> web_named n f"
  shows "route_ok user cd ps own (es @ [e]) n
    \<lparr>rt_hostnames = service_hosts user cd n, rt_port = ex_port e, rt_allow = allow_list ps own (ex_scope e)\<rparr>"
proof -
  let ?r = "\<lparr>rt_hostnames = service_hosts user cd n, rt_port = ex_port e, rt_allow = allow_list ps own (ex_scope e)\<rparr>"
  have "allows ?r peer \<longleftrightarrow> admits ps (ex_scope e) peer \<or> own = Some peer \<and> sources ps (ex_scope e) \<noteq> None" for peer
    using allow_list_mem [where ps = ps and own = own and scope = "ex_scope e" and peer = peer] by (simp add: allows_def)
  then have "allows ?r peer \<longleftrightarrow> admits ps (ex_scope e) peer \<or> own = Some peer" for peer
    by (auto simp: admits_def split: option.splits)
  moreover have "List.find (web_named n) es = None" using assms(3) by (simp add: find_None_iff)
  ultimately show ?thesis using assms by (simp add: route_ok_def find_append)
qed

lemma route_step:
  assumes "routes_for user cd ps own es routes" and "well_named e"
  shows "routes_for user cd ps own (es @ [e]) (route_exposure user cd ps own e routes)"
proof (cases "ex_kind e = Web")
  case False
  then have eq: "route_exposure user cd ps own e routes = routes" and no: "\<not> web_named n e" for n
    by (auto simp: route_exposure_def web_named_def split: service_kind.splits)
  show ?thesis
    unfolding eq routes_for_def
  proof (intro conjI ballI allI impI)
    show "distinct (map rt_hostnames routes)" using assms(1) by (simp add: routes_for_def)
    show "\<exists>n. route_ok user cd ps own (es @ [e]) n r" if "r \<in> set routes" for r
      using assms(1) that route_ok_skip [OF _ no] unfolding routes_for_def by metis
    show "service_hosts user cd n \<in> rt_hostnames ` set routes" if "f \<in> set (es @ [e])" "web_named n f" for f n
      using assms(1) that no [of n] by (auto simp: routes_for_def)
  qed
next
  case True
  obtain n where n: "ex_name e = Some n" "valid_label n" using assms(2) by (auto simp: well_named_def)
  let ?r = "\<lparr>rt_hostnames = service_hosts user cd n, rt_port = ex_port e, rt_allow = allow_list ps own (ex_scope e)\<rparr>"
  have eq: "route_exposure user cd ps own e routes = add_route ?r routes"
    using True n by (simp add: route_exposure_def)
  have en: "web_named m e \<longleftrightarrow> m = n" for m using True n(1) by (auto simp: web_named_def)
  have dist: "distinct (map rt_hostnames routes)"
    and old: "\<And>r. r \<in> set routes \<Longrightarrow> \<exists>m. route_ok user cd ps own es m r"
    and has: "\<And>f m. f \<in> set es \<Longrightarrow> web_named m f \<Longrightarrow> service_hosts user cd m \<in> rt_hostnames ` set routes"
    using assms(1) by (auto simp: routes_for_def)
  have keep: "\<exists>m. route_ok user cd ps own (es @ [e]) m r"
    if r: "r \<in> set routes" "rt_hostnames r \<noteq> service_hosts user cd n" for r
  proof -
    obtain m where m: "route_ok user cd ps own es m r" using old [OF r(1)] by blast
    then have "\<not> web_named m e" using r(2) en by (auto simp: route_ok_def)
    with route_ok_skip [OF m] show ?thesis by blast
  qed
  show ?thesis
  proof (cases "\<exists>x\<in>set routes. rt_hostnames x = service_hosts user cd n")
    case True
    then obtain a x b where x: "routes = a @ x # b" "rt_hostnames x = service_hosts user cd n"
      "add_route ?r routes = a @ x\<lparr>rt_allow := join_allow (rt_allow x) (allow_list ps own (ex_scope e))\<rparr> # b"
      using add_route_hit [of routes ?r] by auto
    let ?x = "x\<lparr>rt_allow := join_allow (rt_allow x) (allow_list ps own (ex_scope e))\<rparr>"
    obtain m where m: "route_ok user cd ps own es m x" using old [of x] x(1) by auto
    then have "m = n" using service_hosts_inj n(2) x(2) by (metis route_ok_def)
    with route_ok_join [OF m] en have newx: "route_ok user cd ps own (es @ [e]) n ?x" by simp
    have others: "rt_hostnames r \<noteq> service_hosts user cd n" if "r \<in> set a \<union> set b" for r
    proof
      assume "rt_hostnames r = service_hosts user cd n"
      then have "rt_hostnames x = rt_hostnames r" using x(2) by simp
      moreover have "rt_hostnames x \<notin> rt_hostnames ` (set a \<union> set b)" using dist unfolding x(1) by auto
      ultimately show False using that by (metis image_eqI)
    qed
    have hosts: "map rt_hostnames (a @ ?x # b) = map rt_hostnames routes" using x(1) by simp
    have sub: "rt_hostnames ` set (a @ ?x # b) = rt_hostnames ` set routes" using arg_cong [OF hosts, of set] by (simp only: set_map)
    show ?thesis
      unfolding eq x(3) routes_for_def hosts sub
    proof (intro conjI ballI allI impI dist)
      fix r assume "r \<in> set (a @ ?x # b)"
      then consider "r = ?x" | "r \<in> set a \<union> set b" by auto
      then show "\<exists>m. route_ok user cd ps own (es @ [e]) m r"
        using newx keep [of r] others [of r] x(1) by cases auto
    next
      fix f m assume "f \<in> set (es @ [e])" "web_named m f"
      then show "service_hosts user cd m \<in> rt_hostnames ` set routes"
        using has en x(1,2) by (cases "f \<in> set es") auto
    qed
  next
    case False
    then have add: "add_route ?r routes = routes @ [?r]" by (intro add_route_miss) simp
    have "\<forall>f\<in>set es. \<not> web_named n f" using has False by (metis imageE)
    from route_ok_new [OF n(2) _ this] en have newr: "route_ok user cd ps own (es @ [e]) n ?r" by simp
    show ?thesis
      unfolding eq add routes_for_def
    proof (intro conjI ballI allI impI)
      show "distinct (map rt_hostnames (routes @ [?r]))" using dist False by auto
      fix r assume "r \<in> set (routes @ [?r])"
      then show "\<exists>m. route_ok user cd ps own (es @ [e]) m r"
        using keep [of r] newr False by auto
    next
      fix f m assume "f \<in> set (es @ [e])" "web_named m f"
      then show "service_hosts user cd m \<in> rt_hostnames ` set (routes @ [?r])"
        using has en by (cases "f \<in> set es") auto
    qed
  qed
qed

lemma web_routes_for:
  assumes "list_all well_named (fw_exposed fw)"
  shows "routes_for user cd (fw_peers fw) (fw_mesh_addr fw) (fw_exposed fw) (web_routes user cd fw)"
proof -
  let ?f = "route_exposure user cd (fw_peers fw) (fw_mesh_addr fw)"
  have "routes_for user cd (fw_peers fw) (fw_mesh_addr fw) (done @ es) (fold ?f es routes)"
    if "list_all well_named es" "routes_for user cd (fw_peers fw) (fw_mesh_addr fw) done routes" for es "done" routes
    using that
  proof (induction es arbitrary: "done" routes)
    case (Cons e es)
    from Cons.IH [OF _ route_step [OF Cons.prems(2)], of e] Cons.prems(1) show ?case by simp
  qed simp
  from this [OF assms, of "[]" "[]"] show ?thesis
    by (simp add: web_routes_def routes_for_def)
qed

lemma resolve_exposures:
  assumes "list_all well_named (fw_exposed fw)"
  shows "resolve_host (web_routes user cd fw) host peer =
    (case List.find (\<lambda>e. \<exists>n. web_named n e \<and> normalize_host host \<in> set (service_hosts user cd n)) (fw_exposed fw) of
       None \<Rightarrow> Unknown
     | Some e \<Rightarrow>
         if \<exists>f\<in>set (fw_exposed fw). ex_kind f = Web \<and> ex_name f = ex_name e \<and>
              (admits (fw_peers fw) (ex_scope f) peer \<or> fw_mesh_addr fw = Some peer)
         then Forward (ex_port e) else Forbidden)"
proof -
  let ?es = "fw_exposed fw" and ?h = "normalize_host host" and ?routes = "web_routes user cd fw"
  note R = web_routes_for [OF assms, of user cd]
  have valid: "valid_label n" if "e \<in> set ?es" "web_named n e" for e n
    using assms that by (auto simp: list_all_iff well_named_def web_named_def)
  show ?thesis
  proof (cases "List.find (\<lambda>r. ?h \<in> set (rt_hostnames r)) ?routes")
    case None
    have no: "\<not> (\<exists>n. web_named n e \<and> ?h \<in> set (service_hosts user cd n))" if ee: "e \<in> set ?es" for e
    proof
      assume "\<exists>n. web_named n e \<and> ?h \<in> set (service_hosts user cd n)"
      then obtain n where n: "web_named n e" "?h \<in> set (service_hosts user cd n)" by blast
      then obtain r where "r \<in> set ?routes" "rt_hostnames r = service_hosts user cd n"
        using R ee unfolding routes_for_def by (metis imageE)
      with n(2) None show False unfolding find_None_iff by metis
    qed
    then have "List.find (\<lambda>e. \<exists>n. web_named n e \<and> ?h \<in> set (service_hosts user cd n)) ?es = None"
      by (auto simp: find_None_iff)
    with None show ?thesis by (simp add: resolve_host_def)
  next
    case (Some r)
    then have r: "r \<in> set ?routes" "?h \<in> set (rt_hostnames r)" by (auto simp: find_Some_iff)
    then obtain n where "route_ok user cd (fw_peers fw) (fw_mesh_addr fw) ?es n r"
      using R unfolding routes_for_def by blast
    then obtain e where n: "valid_label n" "rt_hostnames r = service_hosts user cd n"
      "List.find (web_named n) ?es = Some e" "rt_port r = ex_port e"
      "\<And>peer. allows r peer \<longleftrightarrow> (\<exists>f\<in>set ?es. web_named n f \<and> (admits (fw_peers fw) (ex_scope f) peer \<or> fw_mesh_addr fw = Some peer))"
      unfolding route_ok_def by blast
    have only: "(\<exists>m. web_named m f \<and> ?h \<in> set (service_hosts user cd m)) \<longleftrightarrow> web_named n f" if "f \<in> set ?es" for f
      using hosts_apart r(2) n(1,2) valid [OF that] by metis
    have "List.find (\<lambda>e. \<exists>n. web_named n e \<and> ?h \<in> set (service_hosts user cd n)) ?es = List.find (web_named n) ?es"
      by (rule find_cong [OF refl]) (rule only)
    then have find: "List.find (\<lambda>e. \<exists>n. web_named n e \<and> ?h \<in> set (service_hosts user cd n)) ?es = Some e"
      using n(3) by simp
    have name: "ex_name e = Some n" using n(3) by (auto simp: find_Some_iff web_named_def)
    have callers: "(\<exists>f\<in>set ?es. ex_kind f = Web \<and> ex_name f = ex_name e \<and>
        (admits (fw_peers fw) (ex_scope f) peer \<or> fw_mesh_addr fw = Some peer)) \<longleftrightarrow> allows r peer"
      unfolding n(5) web_named_def name by auto
    show ?thesis
      unfolding resolve_host_def Some find callers option.case n(4) by (auto simp: allows_def split: option.splits)
  qed
qed

text \<open>
  The proxy's answer to a request is fixed by the exposures alone: a host that names no web service
  is unknown; one that does is forwarded for a caller some exposure of that name admits now, or for
  the device itself, to the port of the first exposure of that name; everyone else is refused. Case,
  port and trailing dots of the header do not matter.\<close>

theorem proxy_serves_scope:
  assumes "list_all well_named (fw_exposed fw)"
  shows "resolve_host (web_routes user cd fw) host peer =
    (case List.find (\<lambda>e. \<exists>n. web_named n e \<and> normalize_host host \<in> set (service_hosts user cd n)) (fw_exposed fw) of
       None \<Rightarrow> Unknown
     | Some e \<Rightarrow>
         if \<exists>f\<in>set (fw_exposed fw). ex_kind f = Web \<and> ex_name f = ex_name e \<and>
              (admits (fw_peers fw) (ex_scope f) peer \<or> fw_mesh_addr fw = Some peer)
         then Forward (ex_port e) else Forbidden)"
  by (rule resolve_exposures [OF assms])


text \<open>
  The proxy serves by the engine's last word and nothing older: once a status line is heard,
  connections are served with its routes if it names an address, a certificate that loads and at
  least one service, and with nothing otherwise, whatever was served before; and with nothing once
  the engine's stream is gone. (A certificate that does not load therefore stops the serving, and
  does not keep the previous one.)\<close>

theorem serving_is_current:
  fixes px :: "'tls proxy"
  assumes "px = fold proxy_step words no_proxy"
  shows "(px_live px \<noteq> lv \<longrightarrow> px_serving (proxy_step (Said lv load) px) =
      (case servable lv of
         None \<Rightarrow> None | Some (b, c, k) \<Rightarrow> map_option (\<lambda>t. (t, lv_routes lv)) (load c k))) \<and>
    (px_live px = lv \<longrightarrow> proxy_step (Said lv load) px = px) \<and>
    px_serving (proxy_step (Lost load) px) = None"
proof -
  have serv: "px_serving (serve_round load p) = (case servable (px_live p) of
         None \<Rightarrow> None | Some (b, c, k) \<Rightarrow> map_option (\<lambda>t. (t, lv_routes (px_live p))) (load c k))"
    for load :: "string \<Rightarrow> string \<Rightarrow> 'tls option" and p
    by (cases "servable (px_live p)"; cases "load (fst (snd (the (servable (px_live p))))) (snd (snd (the (servable (px_live p)))))")
      (auto simp: serve_round_def split: prod.splits)
  have live: "px_live (serve_round load p) = px_live p" for load :: "string \<Rightarrow> string \<Rightarrow> 'tls option" and p
    by (auto simp: serve_round_def split: option.splits)
  have said: "px_serving (serve_round load (p\<lparr>px_live := lv\<rparr>)) = (case servable lv of
         None \<Rightarrow> None | Some (b, c, k) \<Rightarrow> map_option (\<lambda>t. (t, lv_routes lv)) (load c k))"
    for load :: "string \<Rightarrow> string \<Rightarrow> 'tls option" and p lv
    using serv [of load "p\<lparr>px_live := lv\<rparr>"] by (simp split: option.splits)
  have default: "servable default_live = None" by (simp add: servable_def default_live_def)
  have idle: "px_live (fold proxy_step ws no_proxy) = default_live \<longrightarrow> px_serving (fold proxy_step ws (no_proxy :: 'tls proxy)) = None" for ws
  proof (induction ws rule: rev_induct)
    case (snoc w ws)
    then show ?case
      by (cases w) (auto simp: proxy_step_def hear_def said live default)
  qed (simp add: no_proxy_def)
  show ?thesis
    using idle [of words] unfolding assms [symmetric]
    by (auto simp: proxy_step_def hear_def said default)
qed

subsection \<open>Examples\<close>

definition demo_web :: firewall where
  "demo_web = demo_fw [demo_exposure 8096 (Net 1 2) ''tv'' Web]"

lemma demo_web_exposed:
  "fw_exposed demo_web = [demo_exposure 8096 (Net 1 2) ''tv'' Web]" "list_all well_named (fw_exposed demo_web)"
  "names_apart (fw_exposed demo_web)"
proof -
  have "valid_label ''tv''" by code_simp
  then show "fw_exposed demo_web = [demo_exposure 8096 (Net 1 2) ''tv'' Web]" "list_all well_named (fw_exposed demo_web)"
    "names_apart (fw_exposed demo_web)"
    by (simp_all add: demo_web_def well_named_def names_apart_def unresolved_def)
qed

lemma demo_host: "normalize_host '' TV.alice.unity.internal:443'' \<in> set (service_hosts ''alice'' None ''tv'')"
  by code_simp

lemma demo_forward: "resolve_host (web_routes ''alice'' None demo_web) '' TV.alice.unity.internal:443'' 5 = Forward 8096"
  "resolve_host (web_routes ''alice'' None demo_web) '' TV.alice.unity.internal:443'' 6 = Forbidden"
  using demo_host
  by (simp_all add: resolve_exposures [OF demo_web_exposed(2)] demo_web_exposed(1) web_named_def)
    (simp_all add: demo_web_def)

lemma proxy_serves_scope_witness:
  "resolve_host (web_routes ''alice'' None demo_web) '' TV.alice.unity.internal:443'' 5 = Forward 8096 \<and>
   resolve_host (web_routes ''alice'' None demo_web) '' TV.alice.unity.internal:443'' 6 = Forbidden"
  using demo_host
  by (simp add: proxy_serves_scope [OF demo_web_exposed(2)] demo_web_exposed(1) web_named_def)
    (simp add: demo_web_def)


definition demo_live :: proxy_live where
  "demo_live = \<lparr>lv_bind = Some 7, lv_cert_path = Some ''cert'', lv_key_path = Some ''key'', lv_cert_expires_at = 0,
     lv_routes = [\<lparr>rt_hostnames = [''tv''], rt_port = 8096, rt_allow = None\<rparr>]\<rparr>"

lemma serving_is_current_witness:
  "px_serving (fold proxy_step [Said demo_live (\<lambda>c k. Some ()), Said (demo_live\<lparr>lv_cert_expires_at := 9\<rparr>) (\<lambda>c k. None)] no_proxy) = None \<and>
   px_serving (fold proxy_step [Said demo_live (\<lambda>c k. Some ())] no_proxy) = Some ((), lv_routes demo_live)"
proof -
  have start: "px_live (no_proxy :: unit proxy) = default_live" "default_live \<noteq> demo_live"
    by (simp_all add: no_proxy_def default_live_def demo_live_def)
  have "px_live (fold proxy_step [Said demo_live (\<lambda>c k. Some ())] no_proxy) = demo_live"
    by (simp add: proxy_step_def hear_def serve_round_def no_proxy_def default_live_def demo_live_def servable_def)
  moreover have "demo_live \<noteq> demo_live\<lparr>lv_cert_expires_at := 9\<rparr>" by (simp add: demo_live_def)
  moreover have "servable demo_live = Some (7, ''cert'', ''key'')" "servable (demo_live\<lparr>lv_cert_expires_at := 9\<rparr>) = Some (7, ''cert'', ''key'')"
    by (simp_all add: servable_def demo_live_def)
  ultimately show ?thesis
    using serving_is_current [of no_proxy "[]" demo_live "\<lambda>c k. Some ()"] start
      serving_is_current [OF refl, of "[Said demo_live (\<lambda>c k. Some ())]" "demo_live\<lparr>lv_cert_expires_at := 9\<rparr>" "\<lambda>c k. None"]
    by simp
qed

end
