(* ===== verification/Beacon.thy ===== *)
theory Beacon
  imports Limiter Wire
begin

section \<open>LAN discovery: \<open>crates/engine/src/beacon.rs\<close>\<close>

text \<open>
  The beacon datagram, the receive and probe tasks, and the per-peer state machine that decides
  which peers are reached over their LAN address. The three tasks share the tables of \<open>beacon\<close> and
  run one step at a time. Instants are nanoseconds; the nonce of a probe and the clock are arguments.
\<close>

definition secs :: "nat \<Rightarrow> nat" where "secs n = n * 10 ^ 9"

definition MAGIC :: "u8 list" where "MAGIC = bytes ''ULB1''"
definition VERSION :: u8 where "VERSION = 1"
definition ANNOUNCE_LEN :: nat where "ANNOUNCE_LEN = 4 + 1 + 32 + 2"
definition NONCE_LEN :: nat where "NONCE_LEN = 16"
definition MAC_LEN :: nat where "MAC_LEN = 16"
definition KINDED_LEN :: nat where "KINDED_LEN = ANNOUNCE_LEN + 1 + NONCE_LEN + MAC_LEN"
definition KIND_PROBE :: u8 where "KIND_PROBE = 1"
definition KIND_ACK :: u8 where "KIND_ACK = 2"

definition CAND_TTL :: nat where "CAND_TTL = secs 90"
definition PROBE_GRACE :: nat where "PROBE_GRACE = secs 6"
definition PROBE_ACK_TTL :: nat where "PROBE_ACK_TTL = secs 10"
definition PROBE_BACKOFF :: nat where "PROBE_BACKOFF = secs 60"
definition LAN_SETTLE :: nat where "LAN_SETTLE = secs 3"
definition VERIFY_GRACE :: nat where "VERIFY_GRACE = secs 8"
definition STALE_GRACE :: nat where "STALE_GRACE = secs 60"
definition RETRY_COOLDOWN :: nat where "RETRY_COOLDOWN = secs 30"
definition PROBE_QUEUE :: nat where "PROBE_QUEUE = 64"

subsection \<open>The datagrams\<close>

definition u16_le :: "u16 \<Rightarrow> u8 list" where
  "u16_le p = [ucast p, ucast (drop_bit 8 p)]"

definition u16_of_le :: "u8 \<Rightarrow> u8 \<Rightarrow> u16" where
  "u16_of_le lo hi = or (ucast lo) (push_bit 8 (ucast hi))"

definition encode_beacon :: "key \<Rightarrow> u16 \<Rightarrow> u8 list" where
  "encode_beacon pk port = MAGIC @ [VERSION] @ pk @ u16_le port"

definition encode_kinded :: "key \<Rightarrow> u16 \<Rightarrow> u8 \<Rightarrow> u8 list \<Rightarrow> u8 list \<Rightarrow> u8 list" where
  "encode_kinded pk port kind nonce mac = encode_beacon pk port @ [kind] @ nonce @ mac"

record kinded =
  kd_kind :: u8
  kd_nonce :: "u8 list"
  kd_mac :: "u8 list"

record beacon_msg =
  bm_pk :: key
  bm_port :: u16
  bm_kinded :: "kinded option"

definition decode_beacon :: "u8 list \<Rightarrow> beacon_msg option" where
  "decode_beacon buf =
     (if length buf < ANNOUNCE_LEN \<or> take 4 buf \<noteq> MAGIC \<or> buf ! 4 \<noteq> VERSION then None
      else map_option (\<lambda>kinded.
             \<lparr>bm_pk = take 32 (drop 5 buf), bm_port = u16_of_le (buf ! 37) (buf ! 38), bm_kinded = kinded\<rparr>)
        (if length buf = ANNOUNCE_LEN then Some None
         else if length buf = KINDED_LEN \<and> buf ! ANNOUNCE_LEN \<in> {KIND_PROBE, KIND_ACK}
         then Some (Some \<lparr>kd_kind = buf ! ANNOUNCE_LEN, kd_nonce = take NONCE_LEN (drop (ANNOUNCE_LEN + 1) buf),
                          kd_mac = drop (ANNOUNCE_LEN + 1 + NONCE_LEN) buf\<rparr>)
         else None))"

subsection \<open>The shared tables\<close>

datatype lan_state =
    Probing sockaddr nat
  | Trying sockaddr nat
  | Active sockaddr nat
  | Failed sockaddr nat

record beacon =
  bc_candidates :: "(key, sockaddr \<times> nat) hmap"
  bc_members :: "key list"
  bc_acks :: "(key, sockaddr \<times> nat) hmap"
  bc_pending :: "(key, u8 list \<times> sockaddr \<times> nat) hmap"
  bc_probes :: "(key \<times> sockaddr) list"
  bc_backoff :: "(key, nat) hmap"
  bc_states :: "(key, lan_state) hmap"

definition new_beacon :: beacon where
  "new_beacon = \<lparr>bc_candidates = [], bc_members = [], bc_acks = [], bc_pending = [], bc_probes = [],
     bc_backoff = [], bc_states = []\<rparr>"

text \<open>Who we are, what we advertise, and where beacons are exchanged.\<close>

record beacon_self =
  bs_crypto :: crypto
  bs_pubkey :: key
  bs_private :: key
  bs_wg_port :: u16
  bs_beacon_port :: u16

subsection \<open>The tasks\<close>

text \<open>The datagram the receive task answers with, and where to.\<close>

definition beacon_heard ::
  "beacon_self \<Rightarrow> u8 list \<Rightarrow> sockaddr \<Rightarrow> nat \<Rightarrow> beacon \<Rightarrow> beacon \<times> (u8 list \<times> sockaddr) option" where
  "beacon_heard me datagram src now st =
     (case decode_beacon (take 512 datagram) of
        None \<Rightarrow> (st, None)
      | Some msg \<Rightarrow>
          if bm_pk msg = bs_pubkey me \<or> bm_pk msg \<notin> set (bc_members st) then (st, None)
          else let addr = src\<lparr>sa_port := bm_port msg\<rparr>;
                   st1 = st\<lparr>bc_candidates := tput (bm_pk msg) (addr, now) (bc_candidates st)\<rparr>
            in case bm_kinded msg of
                 None \<Rightarrow> (st1, None)
               | Some k \<Rightarrow>
                   if kd_kind k = KIND_PROBE then
                     (st1,
                      if \<not> verify_beacon_probe (bs_crypto me) (bs_private me) (bm_pk msg) (kd_nonce k) (kd_mac k) then None
                      else map_option (\<lambda>mac. (encode_kinded (bs_pubkey me) (bs_wg_port me) KIND_ACK (kd_nonce k) mac, src))
                             (beacon_ack_mac (bs_crypto me) (bs_private me) (bm_pk msg) (kd_nonce k)))
                   else if kd_kind k = KIND_ACK then
                     (let ok = (case tget (bc_pending st1) (bm_pk msg) of
                          None \<Rightarrow> False | Some (nonce, _, sent) \<Rightarrow> nonce = kd_nonce k \<and> now - sent < PROBE_ACK_TTL)
                      in (if ok \<and> verify_beacon_ack (bs_crypto me) (bs_private me) (bm_pk msg) (kd_nonce k) (kd_mac k)
                          then st1\<lparr>bc_acks := tput (bm_pk msg) (addr, now) (bc_acks st1)\<rparr> else st1, None))
                   else (st1, None))"

definition beacon_probed ::
  "beacon_self \<Rightarrow> u8 list \<Rightarrow> nat \<Rightarrow> beacon \<Rightarrow> beacon \<times> (u8 list \<times> sockaddr) option" where
  "beacon_probed me nonce now st =
     (case bc_probes st of
        [] \<Rightarrow> (st, None)
      | (pk, addr) # rest \<Rightarrow>
          let st1 = st\<lparr>bc_probes := rest\<rparr>
          in case beacon_probe_mac (bs_crypto me) (bs_private me) pk nonce of
               None \<Rightarrow> (st1, None)
             | Some mac \<Rightarrow>
                 (st1\<lparr>bc_pending := tput pk (nonce, addr, now) (bc_pending st1)\<rparr>,
                  Some (encode_kinded (bs_pubkey me) (bs_wg_port me) KIND_PROBE nonce mac,
                        addr\<lparr>sa_port := bs_beacon_port me\<rparr>)))"

definition ack_fresh :: "beacon \<Rightarrow> key \<Rightarrow> sockaddr \<Rightarrow> nat \<Rightarrow> bool" where
  "ack_fresh st pk addr now =
     (case tget (bc_acks st) pk of None \<Rightarrow> False | Some (a, t) \<Rightarrow> a = addr \<and> now - t < PROBE_ACK_TTL)"

definition send_probe :: "key \<Rightarrow> sockaddr \<Rightarrow> beacon \<Rightarrow> beacon" where
  "send_probe pk addr st =
     (if length (bc_probes st) < PROBE_QUEUE then st\<lparr>bc_probes := bc_probes st @ [(pk, addr)]\<rparr> else st)"

definition begin_adoption :: "key \<Rightarrow> sockaddr \<Rightarrow> nat \<Rightarrow> beacon \<Rightarrow> lan_state option \<times> beacon" where
  "begin_adoption pk cand now st =
     (if ack_fresh st pk cand now then (Some (Trying cand now), st)
      else if (case tget (bc_backoff st) pk of None \<Rightarrow> False | Some until \<Rightarrow> now < until) then (None, st)
      else (Some (Probing cand now), send_probe pk cand st))"

definition lan_step :: "key \<Rightarrow> sockaddr \<Rightarrow> bool \<Rightarrow> nat \<Rightarrow> beacon \<Rightarrow> lan_state option \<times> beacon" where
  "lan_step pk cand ok now st =
     (case tget (bc_states st) pk of
        None \<Rightarrow> begin_adoption pk cand now st
      | Some (Probing addr since) \<Rightarrow>
          if ack_fresh st pk addr now then (Some (Trying addr now), st)
          else if PROBE_GRACE \<le> now - since
          then (None, st\<lparr>bc_backoff := tput pk (now + PROBE_BACKOFF) (bc_backoff st)\<rparr>)
          else (Some (Probing addr since), send_probe pk addr st)
      | Some (Trying addr since) \<Rightarrow>
          (Some (if now - since < LAN_SETTLE then Trying addr since
                 else if ok then Active addr now
                 else if VERIFY_GRACE \<le> now - since then Failed addr (now + RETRY_COOLDOWN)
                 else Trying addr since), st)
      | Some (Active addr last_ok) \<Rightarrow>
          (Some (if ok then Active addr now
                 else if STALE_GRACE \<le> now - last_ok then Failed addr (now + RETRY_COOLDOWN)
                 else Active addr last_ok), st)
      | Some (Failed addr until) \<Rightarrow>
          if now < until then (Some (Failed addr until), st) else begin_adoption pk cand now st)"

definition routed :: "lan_state \<Rightarrow> sockaddr option" where
  "routed s = (case s of Trying a _ \<Rightarrow> Some a | Active a _ \<Rightarrow> Some a | _ \<Rightarrow> None)"

definition select_one ::
  "(key, sockaddr \<times> nat) hmap \<Rightarrow> nat \<Rightarrow> key \<times> bool \<Rightarrow> beacon \<times> (key, sockaddr) hmap \<Rightarrow> beacon \<times> (key, sockaddr) hmap" where
  "select_one live now peer acc =
     (case (peer, acc) of ((pk, ok), (st, out)) \<Rightarrow>
        case tget live pk of
          None \<Rightarrow> (st\<lparr>bc_states := tdel pk (bc_states st)\<rparr>, out)
        | Some (cand, _) \<Rightarrow>
            (case lan_step pk cand ok now st of
               (None, st') \<Rightarrow> (st'\<lparr>bc_states := tdel pk (bc_states st')\<rparr>, out)
             | (Some next, st') \<Rightarrow>
                 (st'\<lparr>bc_states := tput pk next (bc_states st')\<rparr>,
                  case routed next of None \<Rightarrow> out | Some a \<Rightarrow> tput pk a out)))"

definition tidy_tables :: "(key, bool) hmap \<Rightarrow> nat \<Rightarrow> beacon \<Rightarrow> beacon" where
  "tidy_tables reachable now st =
     (let there = (\<lambda>pk. pk \<in> set (tkeys reachable))
      in st\<lparr>bc_members := tkeys reachable,
            bc_candidates := tkeep (\<lambda>_ (_, seen). now - seen < CAND_TTL) (bc_candidates st),
            bc_acks := tkeep (\<lambda>_ (_, t). now - t < PROBE_ACK_TTL) (bc_acks st),
            bc_pending := tkeep (\<lambda>pk (_, _, t). there pk \<and> now - t < CAND_TTL) (bc_pending st),
            bc_states := tkeep (\<lambda>pk _. there pk) (bc_states st),
            bc_backoff := tkeep (\<lambda>pk _. there pk) (bc_backoff st)\<rparr>)"

definition beacon_select :: "nat \<Rightarrow> (key, bool) hmap \<Rightarrow> beacon \<Rightarrow> beacon \<times> (key, sockaddr) hmap" where
  "beacon_select now reachable st =
     (let st1 = tidy_tables reachable now st
      in fold (select_one (bc_candidates st1) now) reachable (st1, []))"

subsection \<open>Runs\<close>

datatype beacon_event = Heard "u8 list" sockaddr nat | Prober "u8 list" nat | Select nat "(key, bool) hmap"

definition beacon_step :: "beacon_self \<Rightarrow> beacon_event \<Rightarrow> beacon \<Rightarrow> beacon" where
  "beacon_step me e st =
     (case e of
        Heard d src now \<Rightarrow> fst (beacon_heard me d src now st)
      | Prober nonce now \<Rightarrow> fst (beacon_probed me nonce now st)
      | Select now reachable \<Rightarrow> fst (beacon_select now reachable st))"

definition beacon_run :: "beacon_self \<Rightarrow> beacon_event list \<Rightarrow> beacon" where
  "beacon_run me es = fold (beacon_step me) es new_beacon"


subsection \<open>The datagrams round trip\<close>

lemma magic_bytes: "MAGIC = [85, 76, 66, 49]"
  by (simp add: MAGIC_def bytes_def)

lemma u16_le_of: "u16_of_le (ucast p) (ucast (drop_bit 8 p)) = p"
  unfolding u16_of_le_def by (rule bit_word_eqI) (auto simp: bit_simps)

lemma u16_of_le_le: "u16_le (u16_of_le lo hi) = [lo, hi]"
proof -
  have "\<not> bit lo (8 + n)" for n using bit_imp_le_length [of lo "8 + n"] by auto
  then show ?thesis
    unfolding u16_le_def u16_of_le_def by (auto intro!: bit_word_eqI simp: bit_simps)
qed

lemma beacon_layout:
  assumes "length pk = 32"
  shows "take 4 (encode_beacon pk p @ r) = MAGIC" "(encode_beacon pk p @ r) ! 4 = VERSION"
    "take 32 (drop 5 (encode_beacon pk p @ r)) = pk" "drop ANNOUNCE_LEN (encode_beacon pk p @ r) = r"
    "(encode_beacon pk p @ r) ! 37 = ucast p" "(encode_beacon pk p @ r) ! 38 = ucast (drop_bit 8 p)"
    "length (encode_beacon pk p @ r) = ANNOUNCE_LEN + length r"
  using assms by (simp_all add: encode_beacon_def magic_bytes u16_le_def ANNOUNCE_LEN_def nth_append numeral_eq_Suc)

lemma nth_drop_hd: "length a = n \<Longrightarrow> (a @ x # b) ! n = x"
  by (simp add: nth_append)

lemma decode_beacon_Some:
  assumes "decode_beacon buf = Some m"
  shows "buf = (case bm_kinded m of
      None \<Rightarrow> encode_beacon (bm_pk m) (bm_port m)
    | Some k \<Rightarrow> encode_kinded (bm_pk m) (bm_port m) (kd_kind k) (kd_nonce k) (kd_mac k))" and "length (bm_pk m) = 32"
proof -
  have len: "ANNOUNCE_LEN \<le> length buf" and mg: "take 4 buf = MAGIC" "buf ! 4 = VERSION"
    and pk: "bm_pk m = take 32 (drop 5 buf)" and port: "bm_port m = u16_of_le (buf ! 37) (buf ! 38)"
    using assms by (auto simp: decode_beacon_def split: if_splits)
  show "length (bm_pk m) = 32" using len by (simp add: pk ANNOUNCE_LEN_def)
  have d4: "drop 4 buf = buf ! 4 # drop 5 buf" and d37: "drop 37 buf = buf ! 37 # drop 38 buf"
    and d38: "drop 38 buf = buf ! 38 # drop 39 buf"
    using len Cons_nth_drop_Suc [of 4 buf] Cons_nth_drop_Suc [of 37 buf] Cons_nth_drop_Suc [of 38 buf]
    by (simp_all add: ANNOUNCE_LEN_def)
  have "buf = take 4 buf @ drop 4 buf" by simp
  also have "drop 5 buf = take 32 (drop 5 buf) @ drop 37 buf" using append_take_drop_id [of 32 "drop 5 buf"] by simp
  then have "drop 4 buf = VERSION # bm_pk m @ buf ! 37 # buf ! 38 # drop 39 buf" by (simp only: d4 mg(2) pk d37 d38)
  finally have head: "buf = encode_beacon (bm_pk m) (bm_port m) @ drop 39 buf"
    by (simp add: mg(1) encode_beacon_def port u16_of_le_le)
  show "buf = (case bm_kinded m of
      None \<Rightarrow> encode_beacon (bm_pk m) (bm_port m)
    | Some k \<Rightarrow> encode_kinded (bm_pk m) (bm_port m) (kd_kind k) (kd_nonce k) (kd_mac k))"
  proof (cases "length buf = ANNOUNCE_LEN")
    case True
    then have "bm_kinded m = None" "drop 39 buf = []" using assms by (auto simp: decode_beacon_def ANNOUNCE_LEN_def split: if_splits)
    with head show ?thesis by simp
  next
    case False
    then have k: "bm_kinded m = Some \<lparr>kd_kind = buf ! 39, kd_nonce = take 16 (drop 40 buf), kd_mac = drop 56 buf\<rparr>"
      and full: "length buf = 72"
      using assms by (auto simp: decode_beacon_def ANNOUNCE_LEN_def KINDED_LEN_def NONCE_LEN_def MAC_LEN_def split: if_splits)
    have "drop 39 buf = buf ! 39 # drop 40 buf" using full Cons_nth_drop_Suc [of 39 buf] by simp
    also have "drop 40 buf = take 16 (drop 40 buf) @ drop 56 buf" using append_take_drop_id [of 16 "drop 40 buf"] by simp
    finally show ?thesis using k head by (simp add: encode_kinded_def)
  qed
qed

lemma decode_beacon_kinded:
  "decode_beacon buf = Some m \<Longrightarrow> bm_kinded m = Some k \<Longrightarrow>
     kd_kind k \<in> {KIND_PROBE, KIND_ACK} \<and> length (kd_nonce k) = 16 \<and> length (kd_mac k) = 16"
  by (auto simp: decode_beacon_def ANNOUNCE_LEN_def KINDED_LEN_def NONCE_LEN_def MAC_LEN_def split: if_splits)

lemma decode_announce:
  "length pk = 32 \<Longrightarrow> decode_beacon (encode_beacon pk port) = Some \<lparr>bm_pk = pk, bm_port = port, bm_kinded = None\<rparr>"
  using beacon_layout [of pk port "[]"] by (simp add: decode_beacon_def u16_le_of)

lemma decode_kinded:
  assumes "length pk = 32" "length nonce = 16" "length mac = 16" "kind \<in> {KIND_PROBE, KIND_ACK}"
  shows "decode_beacon (encode_kinded pk port kind nonce mac) =
    Some \<lparr>bm_pk = pk, bm_port = port, bm_kinded = Some \<lparr>kd_kind = kind, kd_nonce = nonce, kd_mac = mac\<rparr>\<rparr>"
proof -
  define buf where "buf = encode_beacon pk port @ kind # nonce @ mac"
  note lay = beacon_layout [OF assms(1), of port "kind # nonce @ mac", folded buf_def]
  have d39: "drop 39 buf = kind # nonce @ mac" using lay(4) by (simp add: ANNOUNCE_LEN_def)
  have len: "length buf = KINDED_LEN"
    using lay(7) assms by (simp add: KINDED_LEN_def NONCE_LEN_def MAC_LEN_def)
  have n39: "buf ! 39 = kind"
    using d39 len hd_drop_conv_nth [of 39 buf]
    by (simp add: KINDED_LEN_def ANNOUNCE_LEN_def NONCE_LEN_def MAC_LEN_def)
  have d40: "drop 40 buf = nonce @ mac" using drop_drop [of 1 39 buf] by (simp add: d39)
  have d56: "drop 56 buf = mac" using drop_drop [of 17 39 buf] assms(2) by (simp add: d39)
  have "decode_beacon buf =
      Some \<lparr>bm_pk = pk, bm_port = port, bm_kinded = Some \<lparr>kd_kind = kind, kd_nonce = nonce, kd_mac = mac\<rparr>\<rparr>"
    using n39 d40 d56 assms(2,4) lay(1-3,5,6) len
    by (simp add: decode_beacon_def ANNOUNCE_LEN_def KINDED_LEN_def NONCE_LEN_def MAC_LEN_def u16_le_of)
  then show ?thesis by (simp add: buf_def encode_kinded_def)
qed

text \<open> The beacon codec is exact in both directions: an announcement, a probe and
  an ack decode to the fields they were made from; and every datagram the parser accepts is byte for
  byte the encoding of what it read, with a 32-byte key, a known kind, and a 16-byte nonce and MAC. So no
  two accepted datagrams read the same, and nothing else an unauthenticated host can send is accepted.\<close>

theorem beacon_roundtrip:
  "(length pk = 32 \<longrightarrow> decode_beacon (encode_beacon pk port) = Some \<lparr>bm_pk = pk, bm_port = port, bm_kinded = None\<rparr>) \<and>
   (length pk = 32 \<and> length nonce = 16 \<and> length mac = 16 \<and> kind \<in> {KIND_PROBE, KIND_ACK} \<longrightarrow>
      decode_beacon (encode_kinded pk port kind nonce mac) =
        Some \<lparr>bm_pk = pk, bm_port = port, bm_kinded = Some \<lparr>kd_kind = kind, kd_nonce = nonce, kd_mac = mac\<rparr>\<rparr>) \<and>
   (decode_beacon buf = Some m \<longrightarrow> length (bm_pk m) = 32 \<and>
      (case bm_kinded m of
         None \<Rightarrow> buf = encode_beacon (bm_pk m) (bm_port m)
       | Some k \<Rightarrow> buf = encode_kinded (bm_pk m) (bm_port m) (kd_kind k) (kd_nonce k) (kd_mac k) \<and>
           kd_kind k \<in> {KIND_PROBE, KIND_ACK} \<and> length (kd_nonce k) = 16 \<and> length (kd_mac k) = 16))"
  using decode_announce decode_kinded decode_beacon_Some [of buf m] decode_beacon_kinded [of buf m]
  by (auto split: option.splits)

definition beacon_key :: "u8 \<Rightarrow> key" where
  "beacon_key b = replicate 32 b"

theorem beacon_roundtrip_witness:
  "decode_beacon (encode_beacon (beacon_key 7) 51820) = Some \<lparr>bm_pk = beacon_key 7, bm_port = 51820, bm_kinded = None\<rparr> \<and>
   decode_beacon (encode_kinded (beacon_key 7) 51820 KIND_ACK (replicate 16 3) (replicate 16 4)) =
     Some \<lparr>bm_pk = beacon_key 7, bm_port = 51820,
       bm_kinded = Some \<lparr>kd_kind = KIND_ACK, kd_nonce = replicate 16 3, kd_mac = replicate 16 4\<rparr>\<rparr> \<and>
   length (beacon_key 7) = 32"
proof -
  let ?m = "\<lparr>bm_pk = beacon_key 7, bm_port = 51820, bm_kinded = None\<rparr>"
  have len: "length (beacon_key 7) = 32" by (simp add: beacon_key_def)
  have "decode_beacon (encode_beacon (beacon_key 7) 51820) = Some ?m"
    by (simp add: decode_announce len)
  then show ?thesis
    using beacon_roundtrip [of "beacon_key 7" 51820 "replicate 16 3" "replicate 16 4" KIND_ACK
        "encode_beacon (beacon_key 7) 51820" ?m] len by simp
qed

subsection \<open>Only an answered candidate is routed\<close>

text \<open>What a run so far has seen: the nonce of a probe sent to a peer, and an authenticated answer.\<close>

definition probe_sent :: "beacon_self \<Rightarrow> beacon_event list \<Rightarrow> key \<Rightarrow> u8 list \<Rightarrow> nat \<Rightarrow> bool" where
  "probe_sent me es pk nonce sent \<longleftrightarrow>
     (\<exists>before after addr queue. es = before @ Prober nonce sent # after \<and>
        bc_probes (beacon_run me before) = (pk, addr) # queue)"

definition answered :: "beacon_self \<Rightarrow> beacon_event list \<Rightarrow> key \<Rightarrow> sockaddr \<Rightarrow> bool" where
  "answered me es pk addr \<longleftrightarrow>
     (\<exists>before datagram src now after m k sent.
        es = before @ Heard datagram src now # after \<and>
        decode_beacon (take 512 datagram) = Some m \<and> bm_pk m = pk \<and> bm_kinded m = Some k \<and>
        kd_kind k = KIND_ACK \<and> addr = src\<lparr>sa_port := bm_port m\<rparr> \<and>
        verify_beacon_ack (bs_crypto me) (bs_private me) pk (kd_nonce k) (kd_mac k) \<and>
        probe_sent me before pk (kd_nonce k) sent \<and> now - sent < PROBE_ACK_TTL)"

definition beacon_wf :: "beacon \<Rightarrow> bool" where
  "beacon_wf st \<longleftrightarrow> tok (bc_candidates st) \<and> tok (bc_acks st) \<and> tok (bc_pending st) \<and> tok (bc_states st)"

definition proved_states :: "(key \<Rightarrow> sockaddr \<Rightarrow> bool) \<Rightarrow> beacon \<Rightarrow> bool" where
  "proved_states A st \<longleftrightarrow>
     (\<forall>pk a t. tget (bc_acks st) pk = Some (a, t) \<longrightarrow> A pk a) \<and>
     (\<forall>pk s a. tget (bc_states st) pk = Some s \<longrightarrow> routed s = Some a \<longrightarrow> A pk a)"

lemma beacon_run_snoc: "beacon_run me (es @ [e]) = beacon_step me e (beacon_run me es)"
  by (simp add: beacon_run_def)

lemma probe_sent_snoc: "probe_sent me es pk n t \<Longrightarrow> probe_sent me (es @ [e]) pk n t"
  unfolding probe_sent_def by fastforce

lemma answered_snoc: "answered me es pk a \<Longrightarrow> answered me (es @ [e]) pk a"
  unfolding answered_def by (elim exE conjE) (intro exI conjI; (assumption | simp))

lemma begin_adoption_proved:
  assumes "proved_states A st" "begin_adoption pk cand now st = (s, st')"
  shows "proved_states A st' \<and> (\<forall>x a. s = Some x \<longrightarrow> routed x = Some a \<longrightarrow> A pk a) \<and> (beacon_wf st \<longrightarrow> beacon_wf st')"
  using assms unfolding begin_adoption_def
  by (auto simp: proved_states_def beacon_wf_def routed_def ack_fresh_def send_probe_def split: if_splits option.splits prod.splits)

lemma lan_step_proved:
  assumes "proved_states A st" "lan_step pk cand ok now st = (s, st')"
  shows "proved_states A st' \<and> (\<forall>x a. s = Some x \<longrightarrow> routed x = Some a \<longrightarrow> A pk a) \<and> (beacon_wf st \<longrightarrow> beacon_wf st')"
proof (cases "tget (bc_states st) pk")
  case None
  then show ?thesis using begin_adoption_proved [OF assms(1)] assms(2) by (auto simp: lan_step_def)
next
  case (Some old)
  then have old: "routed old = Some a \<Longrightarrow> A pk a" for a using assms(1) by (auto simp: proved_states_def)
  show ?thesis
  proof (cases old)
    case (Probing addr since)
    then show ?thesis using assms Some
      by (auto simp: lan_step_def proved_states_def beacon_wf_def routed_def ack_fresh_def send_probe_def
          split: if_splits option.splits prod.splits)
  next
    case (Failed addr until)
    then show ?thesis using assms Some begin_adoption_proved [OF assms(1)]
      by (auto simp: lan_step_def routed_def split: if_splits)
  qed (use assms Some old in \<open>auto simp: lan_step_def routed_def split: if_splits\<close>)
qed

lemma select_one_proved:
  assumes "proved_states A st" "\<forall>k a. tget out k = Some a \<longrightarrow> A k a"
  shows "(case select_one live now peer (st, out) of (st', out') \<Rightarrow>
    proved_states A st' \<and> (\<forall>k a. tget out' k = Some a \<longrightarrow> A k a) \<and> (beacon_wf st \<longrightarrow> beacon_wf st'))"
proof -
  obtain pk ok where peer: "peer = (pk, ok)" by (cases peer)
  show ?thesis
  proof (cases "tget live pk")
    case None
    then show ?thesis using assms by (auto simp: select_one_def peer proved_states_def beacon_wf_def)
  next
    case (Some cd)
    obtain s st' where step: "lan_step pk (fst cd) ok now st = (s, st')" by fastforce
    note proved = lan_step_proved [OF assms(1) step]
    show ?thesis using Some step proved assms(2)
      by (cases cd; cases s)
        (auto simp: select_one_def peer proved_states_def beacon_wf_def split: option.splits)
  qed
qed

lemma select_fold_proved:
  assumes "proved_states A st" "\<forall>k a. tget out k = Some a \<longrightarrow> A k a" "beacon_wf st"
    "fold (select_one live now) peers (st, out) = (st', out')"
  shows "proved_states A st' \<and> (\<forall>k a. tget out' k = Some a \<longrightarrow> A k a) \<and> beacon_wf st'"
  using assms
proof (induction peers arbitrary: st out)
  case (Cons p ps)
  obtain st1 out1 where one: "select_one live now p (st, out) = (st1, out1)" by fastforce
  with select_one_proved [OF Cons.prems(1,2), of live now p] Cons.prems(3)
  show ?case using Cons.IH [of st1 out1] Cons.prems(4) by simp
qed simp

lemma tidy_tables_proved:
  "beacon_wf st \<Longrightarrow> proved_states A st \<Longrightarrow> beacon_wf (tidy_tables r now st) \<and> proved_states A (tidy_tables r now st)"
  by (auto simp: beacon_wf_def proved_states_def tidy_tables_def Let_def tget_tkeep split: option.splits if_splits)

lemma tidy_tables_pending:
  "beacon_wf st \<Longrightarrow> tget (bc_pending (tidy_tables r now st)) pk = Some v \<Longrightarrow> tget (bc_pending st) pk = Some v"
  by (auto simp: beacon_wf_def tidy_tables_def Let_def tget_tkeep split: option.splits if_splits)

lemma select_one_pending: "bc_pending (fst (select_one live now peer acc)) = bc_pending (fst acc)"
  by (auto simp: select_one_def lan_step_def begin_adoption_def send_probe_def
      split: prod.splits option.splits lan_state.splits if_splits)

lemma select_pending:
  "bc_pending (fst (beacon_select now r st)) = bc_pending (tidy_tables r now st)"
proof -
  have "bc_pending (fst (fold (select_one live now) ps acc)) = bc_pending (fst acc)" for live ps acc
    by (induction ps arbitrary: acc) (simp_all add: select_one_pending)
  then show ?thesis by (simp add: beacon_select_def Let_def)
qed

lemma beacon_select_proved:
  assumes "beacon_wf st" "proved_states A st" "beacon_select now r st = (st', out)"
  shows "proved_states A st' \<and> (\<forall>k a. tget out k = Some a \<longrightarrow> A k a) \<and> beacon_wf st'"
  using assms tidy_tables_proved [OF assms(1,2), of r now] select_fold_proved [of A "tidy_tables r now st" "[]"]
  by (simp add: beacon_select_def Let_def)

text \<open>The invariant of a run: pending nonces were sent, recorded answers and routed states are answered.\<close>

definition beacon_inv :: "beacon_self \<Rightarrow> beacon_event list \<Rightarrow> beacon \<Rightarrow> bool" where
  "beacon_inv me es st \<longleftrightarrow> beacon_wf st \<and> proved_states (answered me es) st \<and>
     (\<forall>pk n a t. tget (bc_pending st) pk = Some (n, a, t) \<longrightarrow> probe_sent me es pk n t)"

lemma proved_states_mono: "proved_states A st \<Longrightarrow> (\<And>pk a. A pk a \<Longrightarrow> B pk a) \<Longrightarrow> proved_states B st"
  unfolding proved_states_def by blast

lemma beacon_inv_snoc: "beacon_inv me es st \<Longrightarrow> beacon_inv me (es @ [e]) st"
  unfolding beacon_inv_def using proved_states_mono answered_snoc probe_sent_snoc by metis

lemma heard_cases:
  assumes "beacon_heard me d src now st = (st', reply)"
  shows "bc_states st' = bc_states st \<and> bc_pending st' = bc_pending st \<and>
    (beacon_wf st \<longrightarrow> beacon_wf st') \<and>
    (bc_acks st' = bc_acks st \<or>
     (\<exists>m k nonce a sent. decode_beacon (take 512 d) = Some m \<and> bm_kinded m = Some k \<and> kd_kind k = KIND_ACK \<and>
        tget (bc_pending st) (bm_pk m) = Some (kd_nonce k, a, sent) \<and> now - sent < PROBE_ACK_TTL \<and>
        verify_beacon_ack (bs_crypto me) (bs_private me) (bm_pk m) (kd_nonce k) (kd_mac k) \<and>
        bc_acks st' = tput (bm_pk m) (src\<lparr>sa_port := bm_port m\<rparr>, now) (bc_acks st)))"
proof (cases "decode_beacon (take 512 d)")
  case None
  then show ?thesis using assms by (simp add: beacon_heard_def)
next
  case (Some m)
  then show ?thesis
    using assms by (cases "bm_kinded m")
      (auto simp: beacon_heard_def Let_def beacon_wf_def split: if_splits option.splits)
qed

lemma heard_inv:
  assumes inv: "beacon_inv me es st" and heard: "beacon_heard me d src now st = (st', reply)"
  shows "beacon_inv me (es @ [Heard d src now]) st'"
proof -
  let ?es = "es @ [Heard d src now]"
  note inv' = beacon_inv_snoc [OF inv, of "Heard d src now"]
  note cases = heard_cases [OF heard]
  have acks: "answered me ?es pk a" if got: "tget (bc_acks st') pk = Some (a, t)" for pk a t
  proof (cases "tget (bc_acks st) pk = Some (a, t)")
    case True
    then show ?thesis using inv' by (auto simp: beacon_inv_def proved_states_def)
  next
    case False
    with got cases obtain m k a' sent where m: "decode_beacon (take 512 d) = Some m" "bm_kinded m = Some k"
      "kd_kind k = KIND_ACK" "tget (bc_pending st) (bm_pk m) = Some (kd_nonce k, a', sent)" "now - sent < PROBE_ACK_TTL"
      "verify_beacon_ack (bs_crypto me) (bs_private me) (bm_pk m) (kd_nonce k) (kd_mac k)"
      and acks: "bc_acks st' = tput (bm_pk m) (src\<lparr>sa_port := bm_port m\<rparr>, now) (bc_acks st)" by auto
    have pk: "pk = bm_pk m" "a = src\<lparr>sa_port := bm_port m\<rparr>" using acks got False by (auto split: if_splits)
    have "probe_sent me es (bm_pk m) (kd_nonce k) sent" using inv m(4) by (simp add: beacon_inv_def)
    then show ?thesis unfolding answered_def pk using m
      by (intro exI [of _ es] exI [of _ d] exI [of _ src] exI [of _ now] exI [of _ "[]"]
          exI [of _ m] exI [of _ k] exI [of _ sent]) simp
  qed
  show ?thesis using inv' cases acks by (auto simp: beacon_inv_def proved_states_def)
qed

lemma prober_inv:
  assumes inv: "beacon_inv me es st" and st: "st = beacon_run me es"
    and step: "beacon_probed me nonce now st = (st', reply)"
  shows "beacon_inv me (es @ [Prober nonce now]) st'"
proof (cases "bc_probes st")
  case Nil
  then show ?thesis using step beacon_inv_snoc [OF inv] by (simp add: beacon_probed_def)
next
  case (Cons p rest)
  obtain pk addr where p: "p = (pk, addr)" by (cases p)
  have sent: "probe_sent me (es @ [Prober nonce now]) pk nonce now"
    unfolding probe_sent_def using Cons p st by blast
  show ?thesis using beacon_inv_snoc [OF inv, of "Prober nonce now"] step sent Cons p
    by (auto simp: beacon_probed_def beacon_inv_def beacon_wf_def proved_states_def Let_def split: option.splits if_splits)
qed

lemma select_inv:
  assumes "beacon_inv me es st" "beacon_select now r st = (st', out)"
  shows "beacon_inv me (es @ [Select now r]) st'"
proof -
  note inv = beacon_inv_snoc [OF assms(1), of "Select now r"]
  have wf: "beacon_wf st" and proved: "proved_states (answered me (es @ [Select now r])) st"
    using inv by (simp_all add: beacon_inv_def)
  have "beacon_wf st' \<and> proved_states (answered me (es @ [Select now r])) st'"
    using beacon_select_proved [OF wf proved assms(2)] by simp
  moreover have "bc_pending st' = bc_pending (tidy_tables r now st)" using select_pending [of now r st] assms(2) by simp
  ultimately show ?thesis using inv tidy_tables_pending [of st] by (simp add: beacon_inv_def)
qed

lemma beacon_run_inv: "beacon_inv me es (beacon_run me es)"
proof (induction es rule: rev_induct)
  case Nil
  show ?case by (simp add: beacon_inv_def beacon_run_def new_beacon_def beacon_wf_def proved_states_def tok_def)
next
  case (snoc e es)
  then show ?case
    by (cases e; simp add: beacon_run_snoc beacon_step_def)
      (metis heard_inv prober_inv select_inv prod.collapse)+
qed

text \<open>C27 (adoption_proved). For every history of datagrams (from anyone on the segment), probes and mesh
  iterations: an endpoint that \<open>select\<close> routes a peer to is the source of an acknowledgement received for
  that peer whose MAC verifies under the secret the two share, that echoes the nonce of a probe the prober
  had sent for that peer, and that arrived within \<open>PROBE_ACK_TTL\<close> of it. An announcement alone, however
  often repeated, routes nothing.\<close>

theorem adoption_proved:
  assumes "beacon_select now reachable (beacon_run me es) = (st', routes)" "tget routes pk = Some addr"
  shows "answered me es pk addr"
proof -
  have wf: "beacon_wf (beacon_run me es)" and proved: "proved_states (answered me es) (beacon_run me es)"
    using beacon_run_inv [of me es] by (simp_all add: beacon_inv_def)
  show ?thesis using beacon_select_proved [OF wf proved assms(1)] assms(2) by simp
qed

subsection \<open>Reflecting our own probe\<close>

text \<open>
  The two MACs cover the nonce only, and both ends derive them from one shared secret. So a host that
  holds no key of peer \<open>pk\<close> announces \<open>pk\<close> from its own address \<open>x\<close>, sends the probe it gets back with
  the key field rewritten to \<open>pk\<close>, and sends the acknowledgement it gets for that back the same way:
  we accept it as the answer of \<open>pk\<close> and route \<open>pk\<close> to \<open>x\<close>. \<open>adoption_proved\<close> holds of that history;
  the module's claim that only a holder of the peer's private key can answer does not.
\<close>

definition reflect :: "key \<Rightarrow> u16 \<Rightarrow> u8 list \<Rightarrow> u8 list" where
  "reflect pk port d = encode_beacon pk port @ drop ANNOUNCE_LEN d"

definition reflection :: "beacon_self \<Rightarrow> key \<Rightarrow> u16 \<Rightarrow> sockaddr \<Rightarrow> u8 list \<Rightarrow> u8 list \<Rightarrow> u8 list \<Rightarrow> nat \<Rightarrow> beacon_event list" where
  "reflection me pk port x nonce probe_mac ack_mac now =
     [Select now [(pk, True)], Heard (encode_beacon pk port) x now, Select now [(pk, True)], Prober nonce now,
      Heard (reflect pk port (encode_kinded (bs_pubkey me) (bs_wg_port me) KIND_PROBE nonce probe_mac)) x now,
      Heard (reflect pk port (encode_kinded (bs_pubkey me) (bs_wg_port me) KIND_ACK nonce ack_mac)) x now]"

lemma reflect_kinded:
  assumes "length own = 32" "length pk = 32"
  shows "reflect pk port (encode_kinded own own_port kind nonce mac) = encode_kinded pk port kind nonce mac"
  using beacon_layout(4) [OF assms(1), of own_port "kind # nonce @ mac"] by (simp add: reflect_def encode_kinded_def)

lemma take_beacon:
  assumes "length pk = 32"
  shows "take 512 (encode_beacon pk port) = encode_beacon pk port"
    "length nonce = 16 \<Longrightarrow> length mac = 16 \<Longrightarrow>
     take 512 (encode_kinded pk port kind nonce mac) = encode_kinded pk port kind nonce mac"
proof -
  have "length (encode_beacon pk port) = 39" using beacon_layout(7) [OF assms, of port "[]"] by (simp add: ANNOUNCE_LEN_def)
  then show "take 512 (encode_beacon pk port) = encode_beacon pk port"
    "length nonce = 16 \<Longrightarrow> length mac = 16 \<Longrightarrow>
     take 512 (encode_kinded pk port kind nonce mac) = encode_kinded pk port kind nonce mac"
    by (simp_all add: encode_kinded_def)
qed

lemma table_eval: "tget [(k, v)] k = Some v" "tput k v [] = [(k, v)]" "tput k v [(k, w)] = [(k, v)]"
    "tkeep P [] = []" "tkeep P [(k, v)] = (if P k v then [(k, v)] else [])" "tkeys [(k, v)] = [k]" "tdel k [] = []"
  by (simp_all add: tget_def tput_def tkeep_def tkeys_def tdel_def)

lemma ttl_pos: "0 < CAND_TTL" "0 < PROBE_ACK_TTL" "0 < PROBE_QUEUE"
  by (simp_all add: CAND_TTL_def PROBE_ACK_TTL_def PROBE_QUEUE_def secs_def)

lemma beacon_reflection:
  assumes "length (bs_pubkey me) = 32" "length pk = 32" "pk \<noteq> bs_pubkey me"
    "length nonce = 16" "length probe_mac = 16" "length ack_mac = 16"
    and pm: "beacon_probe_mac (bs_crypto me) (bs_private me) pk nonce = Some probe_mac"
    and am: "beacon_ack_mac (bs_crypto me) (bs_private me) pk nonce = Some ack_mac"
  shows "tget (snd (beacon_select now [(pk, True)]
      (beacon_run me (reflection me pk port x nonce probe_mac ack_mac now)))) pk = Some (x\<lparr>sa_port := port\<rparr>)"
proof -
  let ?a = "x\<lparr>sa_port := port\<rparr>"
  note dec = decode_announce [OF assms(2)] decode_kinded [OF assms(2,4)] take_beacon [OF assms(2)]
    reflect_kinded [OF assms(1,2)]
  note ev = beacon_step_def beacon_select_def tidy_tables_def select_one_def lan_step_def begin_adoption_def
    send_probe_def ack_fresh_def routed_def Let_def table_eval ttl_pos
  have s1: "beacon_step me (Select now [(pk, True)]) new_beacon = new_beacon\<lparr>bc_members := [pk]\<rparr>"
    by (simp add: ev new_beacon_def)
  have s2: "beacon_step me (Heard (encode_beacon pk port) x now) (new_beacon\<lparr>bc_members := [pk]\<rparr>) =
      new_beacon\<lparr>bc_members := [pk], bc_candidates := [(pk, ?a, now)]\<rparr>" (is "_ = ?s2")
    using assms(3) by (simp add: ev new_beacon_def beacon_heard_def dec)
  have s3: "beacon_step me (Select now [(pk, True)]) ?s2 =
      ?s2\<lparr>bc_probes := [(pk, ?a)], bc_states := [(pk, Probing ?a now)]\<rparr>" (is "_ = ?s3")
    by (simp add: ev new_beacon_def)
  have s4: "beacon_step me (Prober nonce now) ?s3 =
      ?s3\<lparr>bc_probes := [], bc_pending := [(pk, nonce, ?a, now)]\<rparr>" (is "_ = ?s4")
    by (simp add: ev new_beacon_def beacon_probed_def pm)
  have s5: "beacon_step me (Heard (encode_kinded pk port KIND_PROBE nonce probe_mac) x now) ?s4 = ?s4"
    using assms(3,5) by (simp add: ev new_beacon_def beacon_heard_def dec assms(4) KIND_PROBE_def)
  have s6: "beacon_step me (Heard (encode_kinded pk port KIND_ACK nonce ack_mac) x now) ?s4 =
      ?s4\<lparr>bc_acks := [(pk, ?a, now)]\<rparr>"
    using assms(3,6)
    by (simp add: ev new_beacon_def beacon_heard_def dec assms(4) KIND_PROBE_def KIND_ACK_def verify_beacon_ack_def am)
  have "beacon_run me (reflection me pk port x nonce probe_mac ack_mac now) = ?s4\<lparr>bc_acks := [(pk, ?a, now)]\<rparr>"
    unfolding beacon_run_def reflection_def reflect_kinded [OF assms(1,2)] by (simp only: fold_simps s1 s2 s3 s4 s5 s6 id_apply o_apply)
  then show ?thesis by (simp add: ev new_beacon_def)
qed

text \<open>The two datagrams reflected in that history are the ones we send: the probe and its acknowledgement.\<close>

lemma reflected_are_ours:
  assumes "length pk = 32" "pk \<noteq> bs_pubkey me" "length nonce = 16" "length probe_mac = 16"
    "beacon_probe_mac (bs_crypto me) (bs_private me) pk nonce = Some probe_mac"
    "beacon_ack_mac (bs_crypto me) (bs_private me) pk nonce = Some ack_mac"
  shows "bc_probes st = (pk, a) # q \<Longrightarrow> snd (beacon_probed me nonce now st) =
      Some (encode_kinded (bs_pubkey me) (bs_wg_port me) KIND_PROBE nonce probe_mac, a\<lparr>sa_port := bs_beacon_port me\<rparr>)"
    and "pk \<in> set (bc_members st) \<Longrightarrow>
      snd (beacon_heard me (encode_kinded pk port KIND_PROBE nonce probe_mac) x now st) =
      Some (encode_kinded (bs_pubkey me) (bs_wg_port me) KIND_ACK nonce ack_mac, x)"
  using assms
  by (simp_all add: beacon_probed_def beacon_heard_def Let_def decode_kinded take_beacon verify_beacon_probe_def)

definition demo_me :: beacon_self where
  "demo_me = \<lparr>bs_crypto = \<lparr>ed_sign = (\<lambda>_ _. []), ed_anchor = (\<lambda>k. k), ed_key_ok = (\<lambda>_. True),
       ed_verify = (\<lambda>_ _ _. True), x_public = (\<lambda>k. k), x_shared = (\<lambda>_ _. replicate 32 1),
       hmac_sha256 = (\<lambda>_ _. replicate 32 9), hmac_sha1 = (\<lambda>_ _. []), b64_enc = (\<lambda>_. ''''), b64_dec = (\<lambda>_. None)\<rparr>,
     bs_pubkey = beacon_key 1, bs_private = beacon_key 2, bs_wg_port = 51820, bs_beacon_port = 51821\<rparr>"

definition demo_lan :: "beacon_event list" where
  "demo_lan = reflection demo_me (beacon_key 7) 51820 \<lparr>sa_ip = V4 3232236549, sa_port = 51821\<rparr>
     (replicate 16 3) (replicate 16 9) (replicate 16 9) 0"

theorem adoption_proved_witness:
  "answered demo_me demo_lan (beacon_key 7) \<lparr>sa_ip = V4 3232236549, sa_port = 51820\<rparr>"
proof -
  let ?sel = "beacon_select 0 [(beacon_key 7, True)] (beacon_run demo_me demo_lan)"
  have neq: "beacon_key 7 \<noteq> beacon_key 1" by (simp add: beacon_key_def)
  have shared: "replicate 32 (1 :: u8) \<noteq> zero_key" by (simp add: zero_key_def)
  have "tget (snd ?sel) (beacon_key 7) = Some (\<lparr>sa_ip = V4 3232236549, sa_port = 51821\<rparr>\<lparr>sa_port := 51820\<rparr>)"
    unfolding demo_lan_def
    by (rule beacon_reflection)
      (use neq shared in \<open>simp_all add: demo_me_def beacon_key_def beacon_probe_mac_def beacon_ack_mac_def beacon_mac_def Let_def\<close>)
  then show ?thesis using adoption_proved [of 0 _ demo_me demo_lan "fst ?sel" "snd ?sel"] by simp
qed

end
