(* ===== verification/LocalNet.thy ===== *)
theory LocalNet
  imports ApiTypes
begin

section \<open>Local network preferences: \<open>crates/engine/src/netcfg.rs\<close>\<close>

text \<open>
  The settings the client is the source of truth for: the per-network opt-out, the paused flag, the
  networks seen, the policy for new ones, own-device peering, certificates, blocked users. Each is held
  in memory and in a JSON file of its own. A file is the value it decodes to, or \<open>None\<close> when it is
  missing, unreadable or does not decode. How a write ends is an argument of the operation that writes:
  \<open>std::fs::write\<close> truncates before it writes, so a failure can leave the old file or a damaged one.
\<close>

type_synonym net = "u64 \<times> u64"

datatype wrote = Wrote | NotWritten | Damaged

fun put_file :: "wrote \<Rightarrow> 'a \<Rightarrow> 'a option \<Rightarrow> 'a option" where
  "put_file Wrote v old = Some v"
| "put_file NotWritten v old = old"
| "put_file Damaged v old = None"

definition read_json_or :: "'a option \<Rightarrow> 'a \<Rightarrow> 'a" where
  "read_json_or file fallback = (case file of None \<Rightarrow> fallback | Some v \<Rightarrow> v)"

record net_files =
  nf_optout :: "net list option"
  nf_paused :: "bool option"
  nf_known :: "net list option"
  nf_disable_new :: "bool option"
  nf_peer_own :: "bool option"
  nf_certs :: "bool option"
  nf_blocked :: "(u64 \<times> string) list option"

record local_net =
  ln_disabled :: "net list"
  ln_paused :: bool
  ln_known :: "net list"
  ln_disable_new :: bool
  ln_peer_own :: bool
  ln_certs :: bool
  ln_blocked :: "(u64, string) hmap"
  ln_files :: net_files
  ln_wakes :: nat

text \<open>A set is the list of its elements in the order they went in.\<close>

definition set_of_list :: "'a list \<Rightarrow> 'a list" where
  "set_of_list xs = fold (\<lambda>x acc. if x \<in> set acc then acc else acc @ [x]) xs []"

definition map_of_pairs :: "('k \<times> 'v) list \<Rightarrow> ('k, 'v) hmap" where
  "map_of_pairs xs = fold (\<lambda>(k, v) m. tput k v m) xs []"

definition load_net :: "net_files \<Rightarrow> bool \<Rightarrow> bool \<Rightarrow> local_net" where
  "load_net f disable_new_default peer_own_default =
     \<lparr>ln_disabled = set_of_list (read_json_or (nf_optout f) []),
      ln_paused = read_json_or (nf_paused f) False,
      ln_known = set_of_list (read_json_or (nf_known f) []),
      ln_disable_new = read_json_or (nf_disable_new f) disable_new_default,
      ln_peer_own = read_json_or (nf_peer_own f) peer_own_default,
      ln_certs = read_json_or (nf_certs f) False,
      ln_blocked = map_of_pairs (read_json_or (nf_blocked f) []),
      ln_files = f, ln_wakes = 0\<rparr>"

subsection \<open>Operations\<close>

text \<open>A setter returns whether it changed anything, or the error of its write (\<open>Inl\<close>).\<close>

type_synonym 'a io = "unit + 'a"

definition wake_net :: "local_net \<Rightarrow> local_net" where
  "wake_net s = s\<lparr>ln_wakes := Suc (ln_wakes s)\<rparr>"

definition persisting ::
  "wrote \<Rightarrow> bool \<Rightarrow> (local_net \<Rightarrow> net_files) \<Rightarrow> bool \<Rightarrow> local_net \<Rightarrow> local_net \<times> bool io" where
  "persisting w changed files wakes s =
     (if \<not> changed then (s, Inr False)
      else let s1 = s\<lparr>ln_files := files s\<rparr>
        in if w = Wrote then (if wakes then wake_net s1 else s1, Inr True) else (s1, Inl ()))"

definition set_paused :: "wrote \<Rightarrow> bool \<Rightarrow> local_net \<Rightarrow> local_net \<times> bool io" where
  "set_paused w paused s =
     persisting w (ln_paused s \<noteq> paused) (\<lambda>t. (ln_files t)\<lparr>nf_paused := put_file w paused (nf_paused (ln_files t))\<rparr>)
       True (s\<lparr>ln_paused := paused\<rparr>)"

definition set_disable_new :: "wrote \<Rightarrow> bool \<Rightarrow> local_net \<Rightarrow> local_net \<times> bool io" where
  "set_disable_new w disable s =
     persisting w (ln_disable_new s \<noteq> disable)
       (\<lambda>t. (ln_files t)\<lparr>nf_disable_new := put_file w disable (nf_disable_new (ln_files t))\<rparr>)
       False (s\<lparr>ln_disable_new := disable\<rparr>)"

definition set_peer_own_devices :: "wrote \<Rightarrow> bool \<Rightarrow> local_net \<Rightarrow> local_net \<times> bool io" where
  "set_peer_own_devices w enabled s =
     persisting w (ln_peer_own s \<noteq> enabled)
       (\<lambda>t. (ln_files t)\<lparr>nf_peer_own := put_file w enabled (nf_peer_own (ln_files t))\<rparr>)
       True (s\<lparr>ln_peer_own := enabled\<rparr>)"

definition set_certs_enabled :: "wrote \<Rightarrow> bool \<Rightarrow> local_net \<Rightarrow> local_net \<times> bool io" where
  "set_certs_enabled w enabled s =
     persisting w (ln_certs s \<noteq> enabled)
       (\<lambda>t. (ln_files t)\<lparr>nf_certs := put_file w enabled (nf_certs (ln_files t))\<rparr>)
       True (s\<lparr>ln_certs := enabled\<rparr>)"

definition persist_blocked :: "wrote \<Rightarrow> local_net \<Rightarrow> net_files" where
  "persist_blocked w t = (ln_files t)\<lparr>nf_blocked := put_file w (ln_blocked t) (nf_blocked (ln_files t))\<rparr>"

definition set_blocked :: "wrote \<Rightarrow> u64 \<Rightarrow> string \<Rightarrow> bool \<Rightarrow> local_net \<Rightarrow> local_net \<times> bool io" where
  "set_blocked w user_id username blocked s =
     (let held = tget (ln_blocked s) user_id \<noteq> None
      in if blocked
         then persisting w (\<not> held) (persist_blocked w) True (s\<lparr>ln_blocked := tput user_id username (ln_blocked s)\<rparr>)
         else persisting w held (persist_blocked w) True (s\<lparr>ln_blocked := tdel user_id (ln_blocked s)\<rparr>))"

definition persist_optout :: "wrote \<Rightarrow> local_net \<Rightarrow> net_files" where
  "persist_optout w t = (ln_files t)\<lparr>nf_optout := put_file w (ln_disabled t) (nf_optout (ln_files t))\<rparr>"

definition set_network :: "wrote \<Rightarrow> u64 \<Rightarrow> u64 \<Rightarrow> bool \<Rightarrow> local_net \<Rightarrow> local_net \<times> bool io" where
  "set_network w guild role enabled s =
     (let held = (guild, role) \<in> set (ln_disabled s)
      in if enabled
         then persisting w held (persist_optout w) True (s\<lparr>ln_disabled := removeAll (guild, role) (ln_disabled s)\<rparr>)
         else persisting w (\<not> held) (persist_optout w) True
                (s\<lparr>ln_disabled := ln_disabled s @ (if held then [] else [(guild, role)])\<rparr>))"

text \<open>
  \<open>reconcile_new\<close>: the networks of one coordinator response are walked in order; then the seen set is
  written, then the opt-out set. The first write that fails returns.
\<close>

definition sight :: "bool \<Rightarrow> net \<Rightarrow> net list \<times> net list \<times> bool \<times> bool \<Rightarrow> net list \<times> net list \<times> bool \<times> bool" where
  "sight disable_new n acc =
     (case acc of (known, disabled, known_changed, disabled_changed) \<Rightarrow>
        if n \<in> set known then acc
        else (known @ [n], if disable_new \<and> n \<notin> set disabled then disabled @ [n] else disabled, True,
              disabled_changed \<or> (disable_new \<and> n \<notin> set disabled)))"

definition reconcile_new :: "wrote \<Rightarrow> wrote \<Rightarrow> net list \<Rightarrow> local_net \<Rightarrow> local_net \<times> bool io" where
  "reconcile_new w1 w2 present s =
     (case fold (sight (ln_disable_new s)) present (ln_known s, ln_disabled s, False, False) of
        (known, disabled, known_changed, disabled_changed) \<Rightarrow>
          let s1 = s\<lparr>ln_known := known, ln_disabled := disabled\<rparr>;
              s2 = (if known_changed
                    then s1\<lparr>ln_files := (ln_files s1)\<lparr>nf_known := put_file w1 known (nf_known (ln_files s1))\<rparr>\<rparr> else s1)
          in if known_changed \<and> w1 \<noteq> Wrote then (s2, Inl ())
             else let s3 = (if disabled_changed then s2\<lparr>ln_files := persist_optout w2 s2\<rparr> else s2)
               in if disabled_changed \<and> w2 \<noteq> Wrote then (s3, Inl ()) else (s3, Inr disabled_changed))"

definition blocked_snapshot :: "local_net \<Rightarrow> (u64, string) hmap" where
  "blocked_snapshot s = ln_blocked s"

definition snapshot_optout :: "local_net \<Rightarrow> net list" where
  "snapshot_optout s = ln_disabled s"

definition as_refs :: "local_net \<Rightarrow> network_ref list" where
  "as_refs s = map (\<lambda>(g, r). \<lparr>nr_guild_id = g, nr_role_id = r\<rparr>) (ln_disabled s)"

subsection \<open>Histories\<close>

text \<open>The operations in the order they are taken, each with how its writes end; \<open>Reload\<close> is a restart.\<close>

datatype net_op =
    SetPaused wrote bool
  | SetDisableNew wrote bool
  | SetPeerOwn wrote bool
  | SetCerts wrote bool
  | SetBlocked wrote u64 string bool
  | SetNetwork wrote net bool
  | ReconcileNew wrote wrote "net list"
  | Reload bool bool

fun net_step :: "net_op \<Rightarrow> local_net \<Rightarrow> local_net" where
  "net_step (SetPaused w b) s = fst (set_paused w b s)"
| "net_step (SetDisableNew w b) s = fst (set_disable_new w b s)"
| "net_step (SetPeerOwn w b) s = fst (set_peer_own_devices w b s)"
| "net_step (SetCerts w b) s = fst (set_certs_enabled w b s)"
| "net_step (SetBlocked w u n b) s = fst (set_blocked w u n b s)"
| "net_step (SetNetwork w n b) s = fst (set_network w (fst n) (snd n) b s)"
| "net_step (ReconcileNew w1 w2 p) s = fst (reconcile_new w1 w2 p s)"
| "net_step (Reload d p) s = load_net (ln_files s) d p"

fun all_written :: "net_op \<Rightarrow> bool" where
  "all_written (SetPaused w b) = (w = Wrote)"
| "all_written (SetDisableNew w b) = (w = Wrote)"
| "all_written (SetPeerOwn w b) = (w = Wrote)"
| "all_written (SetCerts w b) = (w = Wrote)"
| "all_written (SetBlocked w u n b) = (w = Wrote)"
| "all_written (SetNetwork w n b) = (w = Wrote)"
| "all_written (ReconcileNew w1 w2 p) = (w1 = Wrote \<and> w2 = Wrote)"
| "all_written (Reload d p) = True"

definition net_run :: "net_op list \<Rightarrow> local_net \<Rightarrow> local_net" where
  "net_run ops s = fold net_step ops s"

subsection \<open>What a restart finds\<close>

lemma set_of_list_append:
  "distinct acc \<Longrightarrow> distinct (fold (\<lambda>x acc. if x \<in> set acc then acc else acc @ [x]) xs acc) \<and>
     set (fold (\<lambda>x acc. if x \<in> set acc then acc else acc @ [x]) xs acc) = set acc \<union> set xs"
  by (induction xs arbitrary: acc) auto

lemma set_of_list: "distinct (set_of_list xs)" "set (set_of_list xs) = set xs"
  using set_of_list_append [of "[]" xs] by (simp_all add: set_of_list_def)

lemma set_of_list_id: "distinct xs \<Longrightarrow> set_of_list xs = xs"
proof -
  have "distinct (acc @ xs) \<Longrightarrow> fold (\<lambda>x acc. if x \<in> set acc then acc else acc @ [x]) xs acc = acc @ xs" for acc
    by (induction xs arbitrary: acc) auto
  from this [of "[]"] show "distinct xs \<Longrightarrow> set_of_list xs = xs" by (simp add: set_of_list_def)
qed

lemma tok_map_of_pairs: "tok (map_of_pairs xs)"
proof -
  have "tok m \<Longrightarrow> tok (fold (\<lambda>(k, v) m. tput k v m) xs m)" for m
    by (induction xs arbitrary: m) auto
  then show ?thesis by (simp add: map_of_pairs_def tok_def)
qed

lemma tput_fresh: "k \<notin> fst ` set m \<Longrightarrow> tput k v m = m @ [(k, v)]"
  by (induction m) (auto simp: tput_def)

lemma map_of_pairs_id: "tok xs \<Longrightarrow> map_of_pairs xs = xs"
proof -
  have "tok (acc @ xs) \<Longrightarrow> fold (\<lambda>(k, v) m. tput k v m) xs acc = acc @ xs" for acc
    by (induction xs arbitrary: acc) (auto simp: tok_def tput_fresh)
  from this [of "[]"] show "tok xs \<Longrightarrow> map_of_pairs xs = xs" by (simp add: map_of_pairs_def)
qed

lemma tkeys_tput: "tkeys (tput k v m) = (if k \<in> set (tkeys m) then tkeys m else tkeys m @ [k])"
  by (induction m) (auto simp: tkeys_def tput_def)

definition settings ::
  "local_net \<Rightarrow> net list \<times> bool \<times> net list \<times> bool \<times> bool \<times> bool \<times> u64 list" where
  "settings s = (ln_disabled s, ln_paused s, ln_known s, ln_disable_new s, ln_peer_own s, ln_certs s,
     tkeys (ln_blocked s))"

definition durable :: "bool \<Rightarrow> bool \<Rightarrow> local_net \<Rightarrow> bool" where
  "durable d p s \<longleftrightarrow> distinct (ln_disabled s) \<and> distinct (ln_known s) \<and> tok (ln_blocked s) \<and>
     settings (load_net (ln_files s) d p) = settings s"

lemma read_json_or_Some [simp]: "read_json_or (Some v) d = v"
  by (simp add: read_json_or_def)

lemma sight_cases:
  "n \<in> set known \<Longrightarrow> sight dn n (known, disabled, kc, dc) = (known, disabled, kc, dc)"
  "n \<notin> set known \<Longrightarrow> sight dn n (known, disabled, kc, dc) =
     (known @ [n], if dn \<and> n \<notin> set disabled then disabled @ [n] else disabled, True,
      dc \<or> (dn \<and> n \<notin> set disabled))"
  by (simp_all add: sight_def)

lemma sight_grows:
  "fold (sight dn) xs (k, d, a, b) = (k', d', a', b') \<Longrightarrow> set d \<subseteq> set d'"
proof (induction xs arbitrary: k d a b)
  case (Cons n xs)
  then show ?case by (cases "n \<in> set k") (fastforce simp: sight_cases split: if_splits)+
qed simp

lemma sight_distinct:
  assumes "fold (sight dn) present (known, disabled, kc, dc) = (known', disabled', kc', dc')"
    "distinct known" "distinct disabled"
  shows "distinct known' \<and> distinct disabled' \<and> set disabled \<subseteq> set disabled' \<and>
    set known' = set known \<union> set present \<and>
    (\<not> kc' \<longrightarrow> known' = known) \<and> (\<not> dc' \<longrightarrow> disabled' = disabled) \<and> (kc \<longrightarrow> kc') \<and> (dc \<longrightarrow> dc')"
  using assms
proof (induction present arbitrary: known disabled kc dc)
  case (Cons n ps)
  show ?case
  proof (cases "n \<in> set known")
    case True
    then show ?thesis using Cons.IH [of known disabled kc dc] Cons.prems by (auto simp: sight_cases)
  next
    case False
    let ?d = "if dn \<and> n \<notin> set disabled then disabled @ [n] else disabled"
    have "fold (sight dn) ps (known @ [n], ?d, True, dc \<or> (dn \<and> n \<notin> set disabled)) = (known', disabled', kc', dc')"
      using Cons.prems(1) by (simp only: fold_simps sight_cases(2) [OF False] o_apply)
    from Cons.IH [OF this] show ?thesis using Cons.prems(2,3) False by (auto split: if_splits)
  qed
qed simp

lemma sight_new:
  assumes "fold (sight True) present (known, disabled, kc, dc) = (known', disabled', kc', dc')"
    "n \<in> set present" "n \<notin> set known"
  shows "n \<in> set disabled'"
  using assms
proof (induction present arbitrary: known disabled kc dc)
  case (Cons m ps)
  show ?case
  proof (cases "m \<in> set known")
    case True
    then show ?thesis using Cons.IH [of known disabled kc dc] Cons.prems by (auto simp: sight_cases)
  next
    case False
    let ?d = "if m \<notin> set disabled then disabled @ [m] else disabled"
    have step: "fold (sight True) ps (known @ [m], ?d, True, dc \<or> m \<notin> set disabled) = (known', disabled', kc', dc')"
      using Cons.prems(1) by (simp add: sight_cases(2) [OF False])
    show ?thesis
    proof (cases "n = m")
      case True
      then show ?thesis using sight_grows [OF step] by auto
    next
      case False
      then show ?thesis using Cons.IH [OF step] Cons.prems by auto
    qed
  qed
qed simp

lemma persisting_Wrote:
  "fst (persisting Wrote c files w s) = (if c then (if w then wake_net (s\<lparr>ln_files := files s\<rparr>) else s\<lparr>ln_files := files s\<rparr>) else s)"
  "snd (persisting Wrote c files w s) = Inr c"
  by (simp_all add: persisting_def Let_def)

lemmas net_simps = durable_def load_net_def settings_def wake_net_def persisting_Wrote tkeys_tput set_of_list_id
  map_of_pairs_id persist_optout_def persist_blocked_def

lemma tkeys_tdel: "tkeys (tdel k m) = removeAll k (tkeys m)"
  by (induction m) (auto simp: tkeys_def tdel_def)

lemma durable_load: "durable d p (load_net f d p)"
  by (auto simp: durable_def load_net_def set_of_list tok_map_of_pairs)

lemma durable_paused: "durable d p s \<Longrightarrow> durable d p (fst (set_paused Wrote b s))"
  by (auto simp: set_paused_def net_simps)

lemma durable_disable_new: "durable d p s \<Longrightarrow> durable d p (fst (set_disable_new Wrote b s))"
  by (auto simp: set_disable_new_def net_simps)

lemma durable_peer_own: "durable d p s \<Longrightarrow> durable d p (fst (set_peer_own_devices Wrote b s))"
  by (auto simp: set_peer_own_devices_def net_simps)

lemma durable_certs: "durable d p s \<Longrightarrow> durable d p (fst (set_certs_enabled Wrote b s))"
  by (auto simp: set_certs_enabled_def net_simps)

lemma durable_blocked: "durable d p s \<Longrightarrow> durable d p (fst (set_blocked Wrote u n b s))"
  by (auto simp: set_blocked_def net_simps Let_def tkeys_tdel set_tkeys)

lemma durable_network: "durable d p s \<Longrightarrow> durable d p (fst (set_network Wrote g r b s))"
  by (auto simp: set_network_def net_simps Let_def distinct_removeAll)

lemma durable_reconcile: 
  assumes "durable d p s"
  shows "durable d p (fst (reconcile_new Wrote Wrote present s))"
proof -
  obtain known disabled kc dc where
    walk: "fold (sight (ln_disable_new s)) present (ln_known s, ln_disabled s, False, False) = (known, disabled, kc, dc)"
    by (metis prod_cases4)
  with sight_distinct [OF walk] assms show ?thesis
    by (cases kc; cases dc) (auto simp: reconcile_new_def net_simps Let_def)
qed

text \<open>The configured defaults in force: those of the last restart.\<close>

fun defaults :: "bool \<times> bool \<Rightarrow> net_op list \<Rightarrow> bool \<times> bool" where
  "defaults dp [] = dp"
| "defaults dp (Reload d p # ops) = defaults (d, p) ops"
| "defaults dp (_ # ops) = defaults dp ops"

lemma durable_run:
  "durable (fst dp) (snd dp) s \<Longrightarrow> \<forall>op\<in>set ops. all_written op \<Longrightarrow>
   durable (fst (defaults dp ops)) (snd (defaults dp ops)) (net_run ops s)"
proof (induction ops arbitrary: dp s)
  case (Cons op ops)
  have run: "net_run (op # ops) s = net_run ops (net_step op s)" by (simp add: net_run_def)
  show ?case using Cons.prems unfolding run
    by (cases op)
      (auto intro!: Cons.IH simp: durable_load durable_paused durable_disable_new durable_peer_own durable_certs
        durable_blocked durable_network durable_reconcile)
qed (simp add: net_run_def)

text \<open> For every sequence of preference changes, first sightings of networks and
  restarts in which each write succeeded, a restart finds exactly the settings held in memory: the opt-out set
  and the seen set in order, the paused flag, the policy for new networks, own-device peering, certificates,
  and which users are blocked. (The stored handle of a blocked user may be an older one.)\<close>

theorem settings_survive_restart:
  assumes "\<forall>op\<in>set ops. all_written op" "s = net_run ops (load_net f d0 p0)" "(d, p) = defaults (d0, p0) ops"
  shows "settings (load_net (ln_files s) d p) = settings s"
  using durable_run [of "(d0, p0)" "load_net f d0 p0" ops] assms
  by (simp add: durable_load) (metis durable_def fst_conv snd_conv)

definition fresh_files :: net_files where
  "fresh_files = \<lparr>nf_optout = None, nf_paused = None, nf_known = None, nf_disable_new = None, nf_peer_own = None,
     nf_certs = None, nf_blocked = None\<rparr>"

theorem settings_survive_restart_witness:
  "settings (load_net (ln_files (net_run [ReconcileNew Wrote Wrote [(1, 10)], SetBlocked Wrote 3 ''eve'' True, Reload False True]
     (load_net fresh_files True True))) False True) =
   ([(1, 10)], False, [(1, 10)], False, True, False, [3])"
proof -
  let ?ops = "[ReconcileNew Wrote Wrote [(1, 10)], SetBlocked Wrote 3 ''eve'' True, Reload False True]"
  have "settings (net_run ?ops (load_net fresh_files True True)) = ([(1, 10)], False, [(1, 10)], False, True, False, [3])"
    by code_simp
  then show ?thesis
    using settings_survive_restart [of ?ops _ fresh_files True True False True] by simp
qed

lemma opt_out_step:
  assumes "durable d p s" "n \<in> set (ln_disabled s)" "all_written op" "op \<noteq> SetNetwork Wrote n True"
  shows "n \<in> set (ln_disabled (net_step op s))"
proof (cases op)
  case (SetNetwork w m b)
  then show ?thesis using assms(2-4) by (cases m; cases n; cases b) (auto simp: set_network_def net_simps Let_def)
next
  case (ReconcileNew w1 w2 present)
  obtain known disabled kc dc where
    walk: "fold (sight (ln_disable_new s)) present (ln_known s, ln_disabled s, False, False) = (known, disabled, kc, dc)"
    by (metis prod_cases4)
  with sight_grows [OF walk] ReconcileNew assms(2,3) show ?thesis
    by (cases kc; cases dc) (auto simp: reconcile_new_def Let_def)
next
  case (Reload d' p')
  then show ?thesis using assms(1,2) by (simp add: durable_def settings_def load_net_def)
qed (use assms(2,3) in \<open>simp_all add: set_paused_def set_disable_new_def set_peer_own_devices_def set_certs_enabled_def
      set_blocked_def Let_def persisting_Wrote wake_net_def\<close>)

lemma opt_out_run:
  "durable (fst dp) (snd dp) s \<Longrightarrow> n \<in> set (ln_disabled s) \<Longrightarrow> \<forall>op\<in>set ops. all_written op \<Longrightarrow>
   SetNetwork Wrote n True \<notin> set ops \<Longrightarrow> n \<in> set (ln_disabled (net_run ops s))"
proof (induction ops arbitrary: dp s)
  case (Cons op ops)
  have "durable (fst (defaults dp [op])) (snd (defaults dp [op])) (net_step op s)"
    using durable_run [of dp s "[op]"] Cons.prems by (simp add: net_run_def)
  moreover have "n \<in> set (ln_disabled (net_step op s))"
    by (rule opt_out_step [OF Cons.prems(1,2)]) (use Cons.prems(3,4) in auto)
  ultimately show ?case using Cons.IH Cons.prems by (simp add: net_run_def)
qed (simp add: net_run_def)

lemma reconcile_opts_out:
  assumes "ln_disable_new s" "n \<in> set present" "n \<notin> set (ln_known s)"
  shows "n \<in> set (ln_disabled (fst (reconcile_new w1 w2 present s)))"
proof -
  obtain known disabled kc dc where
    walk: "fold (sight (ln_disable_new s)) present (ln_known s, ln_disabled s, False, False) = (known, disabled, kc, dc)"
    by (metis prod_cases4)
  then have "n \<in> set disabled" using sight_new assms by auto
  with walk show ?thesis by (auto simp: reconcile_new_def Let_def)
qed

text \<open> Under the opt-out policy, a network the coordinator lists for the first time is opted
  out of at once, and stays opted out through any further preference changes, sightings and restarts (writes
  succeeding) until the user enables that very network.\<close>

theorem opt_out_sticks:
  assumes "\<forall>op\<in>set (before @ after). all_written op" "s = net_run before (load_net f d p)"
    "ln_disable_new s" "n \<in> set present" "n \<notin> set (ln_known s)" "SetNetwork Wrote n True \<notin> set after"
  shows "n \<in> set (ln_disabled (net_run (ReconcileNew Wrote Wrote present # after) s))"
proof -
  have "durable (fst (defaults (d, p) before)) (snd (defaults (d, p) before)) s"
    using durable_run [of "(d, p)" "load_net f d p" before] assms(1,2) by (simp add: durable_load)
  then have "durable (fst (defaults (d, p) before)) (snd (defaults (d, p) before)) (fst (reconcile_new Wrote Wrote present s))"
    by (rule durable_reconcile)
  from opt_out_run [OF this reconcile_opts_out [OF assms(3-5)]] assms(1,6) show ?thesis
    by (simp add: net_run_def)
qed

theorem opt_out_sticks_witness:
  "(1, 10) \<in> set (ln_disabled (net_run [ReconcileNew Wrote Wrote [(2, 5), (1, 10)], SetPaused Wrote True, Reload True True,
      SetNetwork Wrote (2, 5) True, ReconcileNew Wrote Wrote [(1, 10)]] (load_net fresh_files True True)))"
  using opt_out_sticks [of "[]" "[SetPaused Wrote True, Reload True True, SetNetwork Wrote (2, 5) True,
      ReconcileNew Wrote Wrote [(1, 10)]]" "load_net fresh_files True True" fresh_files True True "(1, 10)" "[(2, 5), (1, 10)]"]
  by (simp add: net_run_def load_net_def fresh_files_def read_json_or_def set_of_list_def)

subsection \<open>What a failed write leaves\<close>

text \<open>
  A setter changes memory before it writes, so after a failed write the retry sees no change: it reports
  success and never writes. And \<open>reconcile_new\<close> writes the seen set before the opt-out set: when the second
  write is lost the next start knows the network and does not opt out of it.
\<close>

lemma retry_not_persisted:
  assumes "ln_paused s \<noteq> b"
  shows "snd (set_paused NotWritten b s) = Inl ()"
    "snd (set_paused Wrote b (fst (set_paused NotWritten b s))) = Inr False"
    "nf_paused (ln_files (fst (set_paused Wrote b (fst (set_paused NotWritten b s))))) = nf_paused (ln_files s)"
  using assms by (simp_all add: set_paused_def persisting_def Let_def)

lemma opt_out_lost_on_restart:
  "(1, 10) \<notin> set (ln_disabled (net_run [ReconcileNew Wrote NotWritten [(1, 10)], Reload True True,
      ReconcileNew Wrote Wrote [(1, 10)]] (load_net fresh_files True True)))"
  by code_simp

end
