(* ===== verification/MeshNames.thy ===== *)
theory MeshNames
  imports Coord Exposure Zone
begin

section \<open>Names inside the mesh: \<open>mesh_services.rs\<close>, \<open>dns.rs\<close> of the engine\<close>

text \<open>
  Which device a service name belongs to when several claim it, and the resolver every engine runs
  for the names of its mesh. A hash set that is only asked for membership is a list. The DNS message
  codec is \<open>hickory\<close>, as in the coordinator's zone.
\<close>

subsection \<open>What peers announced\<close>

definition REFRESH :: nat where "REFRESH = 30"

record book_entry =
  be_services :: "mesh_service list"
  be_polled_at :: nat

type_synonym service_book = "(key, book_entry) hmap"

definition book_set :: "key \<Rightarrow> mesh_service list \<Rightarrow> nat \<Rightarrow> service_book \<Rightarrow> bool \<times> service_book" where
  "book_set pk svcs now book =
     (case tget book pk of None \<Rightarrow> True | Some e \<Rightarrow> be_services e \<noteq> svcs,
      tput pk \<lparr>be_services = svcs, be_polled_at = now\<rparr> book)"

definition is_due :: "key \<Rightarrow> nat \<Rightarrow> service_book \<Rightarrow> bool" where
  "is_due pk now book = (case tget book pk of None \<Rightarrow> True | Some e \<Rightarrow> REFRESH \<le> now - be_polled_at e)"

definition book_get :: "service_book \<Rightarrow> key \<Rightarrow> mesh_service list" where
  "book_get book pk = (case tget book pk of None \<Rightarrow> [] | Some e \<Rightarrow> be_services e)"

definition retain_peers :: "key list \<Rightarrow> service_book \<Rightarrow> service_book" where
  "retain_peers present book = tkeep (\<lambda>k _. k \<in> set present) book"

subsection \<open>Claims\<close>

record claim =
  clm_pubkey :: key
  clm_ip :: ipv4
  clm_name :: string
  clm_hostname :: string
  clm_proto :: proto
  clm_port :: u16
  clm_kind :: service_kind

definition claim_of :: "key \<Rightarrow> string \<Rightarrow> ipv4 \<Rightarrow> mesh_service \<Rightarrow> claim" where
  "claim_of pk user ip s =
     \<lparr>clm_pubkey = pk, clm_ip = ip, clm_name = ms_name s,
      clm_hostname = lower (ms_name s @ ''.'' @ user @ ''.'' @ DNS_SUFFIX),
      clm_proto = ms_proto s, clm_port = ms_port s, clm_kind = ms_kind s\<rparr>"

definition own_claims :: "self_device \<Rightarrow> key \<Rightarrow> mesh_service list \<Rightarrow> claim list" where
  "own_claims me my_pubkey own = map (claim_of my_pubkey (se_username me) (se_wg_ip me)) own"

definition peer_claims :: "seed_peer list \<Rightarrow> service_book \<Rightarrow> claim list" where
  "peer_claims seeds book =
     concat (map (\<lambda>s. map (claim_of (sp_pubkey s) (sp_username s) (sp_ip s)) (book_get book (sp_pubkey s))) seeds)"

record resolved =
  rv_names :: "(string, ipv4) hmap"
  rv_shadowed :: "(key \<times> string) list"

fun settle_claims ::
  "string list \<Rightarrow> claim list \<Rightarrow> (string, claim) hmap \<Rightarrow> (key \<times> string) list \<Rightarrow>
   (string, claim) hmap \<times> (key \<times> string) list" where
  "settle_claims devs [] best shadowed = (best, shadowed)"
| "settle_claims devs (c # cs) best shadowed =
     (if clm_hostname c \<in> set devs
      then settle_claims devs cs best ((clm_pubkey c, clm_name c) # shadowed)
      else case tget best (clm_hostname c) of
             Some held \<Rightarrow>
               if clm_pubkey held \<le> clm_pubkey c
               then settle_claims devs cs best ((clm_pubkey c, clm_name c) # shadowed)
               else settle_claims devs cs (tput (clm_hostname c) c best)
                      ((clm_pubkey held, clm_name held) # shadowed)
           | None \<Rightarrow> settle_claims devs cs (tput (clm_hostname c) c best) shadowed)"

definition resolve_claims :: "claim list \<Rightarrow> string list \<Rightarrow> resolved" where
  "resolve_claims claims devs =
     (case settle_claims devs claims [] [] of
        (best, shadowed) \<Rightarrow> \<lparr>rv_names = map (\<lambda>(n, c). (n, clm_ip c)) best, rv_shadowed = shadowed\<rparr>)"

subsection \<open>\<open>resolve_services\<close> and \<open>peer_services\<close> of \<open>daemon.rs\<close>\<close>

definition norm_name :: "string \<Rightarrow> string" where
  "norm_name n = lower (trim_end_dot n)"

definition device_names :: "self_device \<Rightarrow> seed_peer list \<Rightarrow> string list" where
  "device_names me seeds =
     map norm_name (se_hostname me # (case se_primary_alias me of None \<Rightarrow> [] | Some a \<Rightarrow> [a]) @
       map sp_hostname seeds @ List.map_filter sp_primary_alias seeds)"

definition resolve_services ::
  "firewall option \<Rightarrow> key \<Rightarrow> service_book \<Rightarrow> self_device \<Rightarrow> seed_peer list \<Rightarrow> resolved" where
  "resolve_services fw my_pubkey book me seeds =
     resolve_claims
       (own_claims me my_pubkey (case fw of Some f \<Rightarrow> own_services f | None \<Rightarrow> []) @ peer_claims seeds book)
       (device_names me seeds)"

record peer_service =
  pv_name :: string
  pv_hostname :: string
  pv_proto :: proto
  pv_port :: u16
  pv_kind :: service_kind
  pv_shadowed :: bool

definition peer_services :: "service_book \<Rightarrow> seed_peer list \<Rightarrow> resolved \<Rightarrow> (ipv4, peer_service list) hmap" where
  "peer_services book seeds rv =
     fold (\<lambda>c out. tput (clm_ip c)
         ((case tget out (clm_ip c) of Some l \<Rightarrow> l | None \<Rightarrow> []) @
          [\<lparr>pv_name = clm_name c, pv_hostname = clm_hostname c, pv_proto = clm_proto c, pv_port = clm_port c,
            pv_kind = clm_kind c, pv_shadowed = ((clm_pubkey c, clm_name c) \<in> set (rv_shadowed rv))\<rparr>]) out)
       (peer_claims seeds book) []"

subsection \<open>The resolver's zone\<close>

record zone_data =
  zd_names :: "(string, ipv4) hmap"
  zd_wildcard :: "(string, ipv4) hmap"
  zd_cert_domain :: "string option"

definition empty_zone :: zone_data where
  "empty_zone = \<lparr>zd_names = [], zd_wildcard = [], zd_cert_domain = None\<rparr>"

definition zone_lookup :: "zone_data \<Rightarrow> string \<Rightarrow> ipv4 option" where
  "zone_lookup z name =
     (case tget (zd_names z) name of
        Some ip \<Rightarrow> Some ip
      | None \<Rightarrow> (case after_dot name of None \<Rightarrow> None | Some base \<Rightarrow> tget (zd_wildcard z) base))"

definition ends_with :: "string \<Rightarrow> string \<Rightarrow> bool" where
  "ends_with suf s \<longleftrightarrow> strip_suffix suf s \<noteq> None"

definition zone_ours :: "zone_data \<Rightarrow> string \<Rightarrow> bool" where
  "zone_ours z name \<longleftrightarrow> ends_with dotted_suffix name \<or>
     (case zd_cert_domain z of None \<Rightarrow> False | Some d \<Rightarrow> ends_with (dot # d) name)"

definition mesh_alias :: "string \<Rightarrow> string option \<Rightarrow> string option" where
  "mesh_alias name domain =
     (case domain of
        None \<Rightarrow> None
      | Some d \<Rightarrow> map_option (\<lambda>stem. lower (stem @ [dot] @ d)) (strip_suffix dotted_suffix name))"

definition add_name :: "string option \<Rightarrow> bool \<Rightarrow> string \<Rightarrow> ipv4 \<Rightarrow> zone_data \<Rightarrow> zone_data" where
  "add_name domain sub name ip z =
     (let name = norm_name name;
          z1 = (case mesh_alias name domain of
                  None \<Rightarrow> z
                | Some alias \<Rightarrow>
                    z\<lparr>zd_wildcard := (if sub then tput alias ip (zd_wildcard z) else zd_wildcard z),
                      zd_names := tput alias ip (zd_names z)\<rparr>)
      in z1\<lparr>zd_wildcard := (if sub then tput name ip (zd_wildcard z1) else zd_wildcard z1),
            zd_names := tput name ip (zd_names z1)\<rparr>)"

definition add_device :: "string option \<Rightarrow> string \<Rightarrow> string option \<Rightarrow> ipv4 \<Rightarrow> zone_data \<Rightarrow> zone_data" where
  "add_device domain host alias ip z =
     (let z1 = add_name domain True host ip z
      in case alias of None \<Rightarrow> z1 | Some a \<Rightarrow> add_name domain False a ip z1)"

definition zone_of :: "self_device \<Rightarrow> seed_peer list \<Rightarrow> (string, ipv4) hmap \<Rightarrow> zone_data" where
  "zone_of me seeds svcs =
     (let d = se_dns_domain me;
          z1 = fold (\<lambda>(name, ip). add_name d False name ip) svcs empty_zone;
          z2 = add_device d (se_hostname me) (se_primary_alias me) (se_wg_ip me) z1
      in (fold (\<lambda>s. add_device d (sp_hostname s) (sp_primary_alias s) (sp_ip s)) seeds z2)\<lparr>zd_cert_domain := d\<rparr>)"

text \<open>\<open>HashMap\<close> equality does not see the order of the entries.\<close>

definition same_map :: "('k, 'v) hmap \<Rightarrow> ('k, 'v) hmap \<Rightarrow> bool" where
  "same_map a b \<longleftrightarrow> list_all (\<lambda>k. tget a k = tget b k) (tkeys a @ tkeys b)"

definition same_zone :: "zone_data \<Rightarrow> zone_data \<Rightarrow> bool" where
  "same_zone a b \<longleftrightarrow> same_map (zd_names a) (zd_names b) \<and> same_map (zd_wildcard a) (zd_wildcard b) \<and>
     zd_cert_domain a = zd_cert_domain b"

definition zone_update ::
  "self_device \<Rightarrow> seed_peer list \<Rightarrow> (string, ipv4) hmap \<Rightarrow> zone_data \<Rightarrow> bool \<times> zone_data" where
  "zone_update me seeds svcs z =
     (let next = zone_of me seeds svcs in if same_zone z next then (False, z) else (True, next))"

subsection \<open>Answering\<close>

definition mesh_question ::
  "('n \<Rightarrow> string) \<Rightarrow> zone_data \<Rightarrow> 'n question \<Rightarrow> 'n message \<times> bool \<times> bool \<Rightarrow> 'n message \<times> bool \<times> bool" where
  "mesh_question to_ascii z q acc =
     (case acc of (resp, answered, missing) \<Rightarrow>
        let resp = resp\<lparr>m_queries := m_queries resp @ [q]\<rparr>;
            name = norm_name (to_ascii (q_name q))
        in if q_type q \<noteq> TypeA \<or> \<not> zone_ours z name then (resp, answered, missing)
           else case zone_lookup z name of
                  Some ip \<Rightarrow> (resp\<lparr>m_answers := m_answers resp @ [\<lparr>rr_name = q_name q, rr_ttl = 30, rr_data = RA ip\<rparr>]\<rparr>, True, missing)
                | None \<Rightarrow> (resp, answered, missing \<or> ends_with dotted_suffix name))"

definition mesh_reply :: "'n hickory \<Rightarrow> ('n \<Rightarrow> string) \<Rightarrow> 'n message \<Rightarrow> zone_data \<Rightarrow> 'n message" where
  "mesh_reply h to_ascii req z =
     (case fold (mesh_question to_ascii z) (m_queries req)
             ((h_response h (m_id req) OpQuery)\<lparr>m_recursion_desired := m_recursion_desired req, m_authoritative := True\<rparr>,
              False, False) of
        (resp, answered, missing) \<Rightarrow>
          if \<not> answered \<and> missing then resp\<lparr>m_response_code := NXDomain\<rparr> else resp)"

definition mesh_answer :: "'n hickory \<Rightarrow> ('n \<Rightarrow> string) \<Rightarrow> u8 list \<Rightarrow> zone_data \<Rightarrow> u8 list option" where
  "mesh_answer h to_ascii query z =
     (case h_from_vec h query of
        None \<Rightarrow> None
      | Some req \<Rightarrow> h_to_vec h (mesh_reply h to_ascii req z))"


subsection \<open>The lowest key has the name\<close>

lemma min_by_key_pair:
  "min_by_key f (a # b # xs) = min_by_key f ((if f a \<le> f b then a else b) # xs)"
  by (auto split: option.splits)

lemma settle_claims_best:
  assumes "settle_claims devs cs best sh = (best', sh')"
  shows "tget best' h = min_by_key clm_pubkey
    ((case tget best h of None \<Rightarrow> [] | Some c \<Rightarrow> [c]) @ filter (\<lambda>c. clm_hostname c = h \<and> h \<notin> set devs) cs)"
  using assms
proof (induction devs cs best sh rule: settle_claims.induct)
  case (1 devs best sh)
  then show ?case by (simp split: option.splits)
next
  case (2 devs c cs best sh)
  show ?case
  proof (cases "clm_hostname c \<in> set devs")
    case True
    then have "filter (\<lambda>c. clm_hostname c = h \<and> h \<notin> set devs) (c # cs) =
        filter (\<lambda>c. clm_hostname c = h \<and> h \<notin> set devs) cs" by auto
    with 2(1) [OF True] 2(5) True show ?thesis by (simp only: settle_claims.simps if_True)
  next
    case new: False
    show ?thesis
    proof (cases "tget best (clm_hostname c)")
      case None
      with 2(2) [OF new None] 2(5) new show ?thesis by (cases "clm_hostname c = h") auto
    next
      case (Some held)
      show ?thesis
      proof (cases "clm_pubkey held \<le> clm_pubkey c")
        case True
        with 2(3) [OF new Some True] 2(5) new Some show ?thesis
          by (cases "clm_hostname c = h") (simp_all add: min_by_key_pair del: min_by_key.simps)
      next
        case False
        with 2(4) [OF new Some False] 2(5) new Some show ?thesis
          by (cases "clm_hostname c = h") (simp_all add: min_by_key_pair del: min_by_key.simps)
      qed
    qed
  qed
qed

lemma resolve_claims_names:
  "tget (rv_names (resolve_claims cs devs)) h =
     map_option clm_ip (min_by_key clm_pubkey (filter (\<lambda>c. clm_hostname c = h \<and> h \<notin> set devs) cs))"
proof -
  obtain best sh where s: "settle_claims devs cs [] [] = (best, sh)" by fastforce
  have "tget (map (\<lambda>(n, c). (n, clm_ip c)) best) h = map_option clm_ip (tget best h)"
    by (simp add: tget_def map_of_map)
  with settle_claims_best [OF s, of h] show ?thesis by (simp add: resolve_claims_def s)
qed

text \<open>
  What a device knows of the mesh: of every device, itself included, its key, its owner's label, its
  address, its names and the services it announced.
\<close>

record known =
  kn_key :: key
  kn_username :: string
  kn_ip :: ipv4
  kn_names :: "string list"
  kn_services :: "mesh_service set"

definition names_listed :: "string \<Rightarrow> string option \<Rightarrow> string list" where
  "names_listed host alias = map norm_name (host # (case alias of None \<Rightarrow> [] | Some a \<Rightarrow> [a]))"

definition roster_seen ::
  "firewall option \<Rightarrow> key \<Rightarrow> service_book \<Rightarrow> self_device \<Rightarrow> seed_peer list \<Rightarrow> known set" where
  "roster_seen fw my_pubkey book me seeds =
     insert \<lparr>kn_key = my_pubkey, kn_username = se_username me, kn_ip = se_wg_ip me,
         kn_names = names_listed (se_hostname me) (se_primary_alias me),
         kn_services = set (case fw of Some f \<Rightarrow> own_services f | None \<Rightarrow> [])\<rparr>
       ((\<lambda>s. \<lparr>kn_key = sp_pubkey s, kn_username = sp_username s, kn_ip = sp_ip s,
           kn_names = names_listed (sp_hostname s) (sp_primary_alias s),
           kn_services = set (book_get book (sp_pubkey s))\<rparr>) ` set seeds)"

definition claims_name :: "known \<Rightarrow> string \<Rightarrow> bool" where
  "claims_name k h \<longleftrightarrow> (\<exists>s\<in>kn_services k. h = lower (ms_name s @ ''.'' @ kn_username k @ ''.'' @ DNS_SUFFIX))"

definition owns_name :: "known set \<Rightarrow> string \<Rightarrow> ipv4 \<Rightarrow> bool" where
  "owns_name R h ip \<longleftrightarrow> (\<forall>k\<in>R. h \<notin> set (kn_names k)) \<and>
     (\<exists>k\<in>R. claims_name k h \<and> kn_ip k = ip \<and> (\<forall>k'\<in>R. claims_name k' h \<longrightarrow> kn_key k \<le> kn_key k'))"

lemma device_names_roster:
  "set (device_names me seeds) = (\<Union>k\<in>roster_seen fw pk book me seeds. set (kn_names k))"
proof -
  have "set (List.map_filter sp_primary_alias seeds) = (\<Union>s\<in>set seeds. set_option (sp_primary_alias s))"
    by (induction seeds) (auto simp: map_filter_simps split: option.splits)
  then show ?thesis
    by (auto 4 4 simp: device_names_def roster_seen_def names_listed_def image_UN elem_set split: option.splits)
qed

lemma claims_of_one:
  "(\<exists>c\<in>set (map (claim_of pk user i) svcs). clm_hostname c = h \<and> clm_pubkey c = p \<and> clm_ip c = ip) \<longleftrightarrow>
   claims_name \<lparr>kn_key = pk, kn_username = user, kn_ip = i, kn_names = ns, kn_services = set svcs\<rparr> h \<and> pk = p \<and> i = ip"
  by (auto simp: claim_of_def claims_name_def simp del: lower_append)

lemma claims_roster:
  "(\<exists>c\<in>set (own_claims me pk (case fw of Some f \<Rightarrow> own_services f | None \<Rightarrow> []) @ peer_claims seeds book).
       clm_hostname c = h \<and> clm_pubkey c = p \<and> clm_ip c = ip) \<longleftrightarrow>
   (\<exists>k\<in>roster_seen fw pk book me seeds. claims_name k h \<and> kn_key k = p \<and> kn_ip k = ip)"
proof -
  let ?c = "\<lambda>c. clm_hostname c = h \<and> clm_pubkey c = p \<and> clm_ip c = ip"
  let ?k = "\<lambda>k. claims_name k h \<and> kn_key k = p \<and> kn_ip k = ip"
  have own: "(\<exists>c\<in>set (own_claims me pk own). ?c c) \<longleftrightarrow>
      ?k \<lparr>kn_key = pk, kn_username = se_username me, kn_ip = se_wg_ip me,
         kn_names = names_listed (se_hostname me) (se_primary_alias me), kn_services = set own\<rparr>" for own
    unfolding own_claims_def claims_of_one [where ns = "names_listed (se_hostname me) (se_primary_alias me)"] by simp
  have peer: "(\<exists>c\<in>set (map (claim_of (sp_pubkey s) (sp_username s) (sp_ip s)) (book_get book (sp_pubkey s))). ?c c) \<longleftrightarrow>
      ?k \<lparr>kn_key = sp_pubkey s, kn_username = sp_username s, kn_ip = sp_ip s,
         kn_names = names_listed (sp_hostname s) (sp_primary_alias s),
         kn_services = set (book_get book (sp_pubkey s))\<rparr>" for s
    unfolding claims_of_one [where ns = "names_listed (sp_hostname s) (sp_primary_alias s)"] by simp
  have "(\<exists>c\<in>set (peer_claims seeds book). ?c c) \<longleftrightarrow>
      (\<exists>s\<in>set seeds. \<exists>c\<in>set (map (claim_of (sp_pubkey s) (sp_username s) (sp_ip s)) (book_get book (sp_pubkey s))). ?c c)"
    unfolding peer_claims_def by auto
  then show ?thesis
    unfolding set_append bex_Un own peer roster_seen_def by (simp only: bex_simps)
qed

lemma resolve_services_owner:
  assumes "inj_on kn_key (roster_seen fw pk book me seeds)"
  shows "tget (rv_names (resolve_services fw pk book me seeds)) h = Some ip \<longleftrightarrow>
    owns_name (roster_seen fw pk book me seeds) h ip"
proof -
  let ?R = "roster_seen fw pk book me seeds"
  let ?cs = "own_claims me pk (case fw of Some f \<Rightarrow> own_services f | None \<Rightarrow> []) @ peer_claims seeds book"
  let ?m = "min_by_key clm_pubkey (filter (\<lambda>c. clm_hostname c = h \<and> h \<notin> set (device_names me seeds)) ?cs)"
  note cr = claims_roster [of me pk fw seeds book h]
  have names: "h \<notin> set (device_names me seeds) \<longleftrightarrow> (\<forall>k\<in>?R. h \<notin> set (kn_names k))"
    using device_names_roster by blast
  have least: "(\<exists>k\<in>?R. claims_name k h \<and> kn_key k = clm_pubkey c \<and> kn_ip k = clm_ip c) \<and>
      (\<forall>k'\<in>?R. claims_name k' h \<longrightarrow> clm_pubkey c \<le> kn_key k') \<and> h \<notin> set (device_names me seeds)"
    if "?m = Some c" for c
  proof -
    from min_by_key_Some [OF that] have c: "c \<in> set ?cs" "clm_hostname c = h" "h \<notin> set (device_names me seeds)"
      "\<forall>d\<in>set ?cs. clm_hostname d = h \<longrightarrow> clm_pubkey c \<le> clm_pubkey d" by auto
    have "\<exists>k\<in>?R. claims_name k h \<and> kn_key k = clm_pubkey c \<and> kn_ip k = clm_ip c"
      using cr [of "clm_pubkey c" "clm_ip c"] c(1,2) by blast
    moreover have "clm_pubkey c \<le> kn_key k'" if "k' \<in> ?R" "claims_name k' h" for k'
      using cr [of "kn_key k'" "kn_ip k'"] that c(4) by metis
    ultimately show ?thesis using c(3) by blast
  qed
  show ?thesis
  proof (cases ?m)
    case None
    then have none: "filter (\<lambda>c. clm_hostname c = h \<and> h \<notin> set (device_names me seeds)) ?cs = []" by simp
    have "\<not> owns_name ?R h ip"
    proof
      assume "owns_name ?R h ip"
      then obtain k where "k \<in> ?R" "claims_name k h" "h \<notin> set (device_names me seeds)"
        unfolding owns_name_def names [symmetric] by blast
      then obtain c where "c \<in> set ?cs" "clm_hostname c = h" using cr [of "kn_key k" "kn_ip k"] by blast
      with none \<open>h \<notin> set (device_names me seeds)\<close> show False unfolding filter_empty_conv by blast
    qed
    with None show ?thesis by (simp add: resolve_services_def resolve_claims_names)
  next
    case (Some c)
    from least [OF Some] obtain k where k: "k \<in> ?R" "claims_name k h" "kn_key k = clm_pubkey c" "kn_ip k = clm_ip c"
      "\<forall>k'\<in>?R. claims_name k' h \<longrightarrow> kn_key k \<le> kn_key k'" "\<forall>k\<in>?R. h \<notin> set (kn_names k)"
      unfolding names by metis
    have "owns_name ?R h ip \<longleftrightarrow> ip = clm_ip c"
    proof
      assume "owns_name ?R h ip"
      then obtain k2 where "k2 \<in> ?R" "claims_name k2 h" "kn_ip k2 = ip" "\<forall>k'\<in>?R. claims_name k' h \<longrightarrow> kn_key k2 \<le> kn_key k'"
        unfolding owns_name_def by blast
      moreover from this k have "kn_key k2 = kn_key k" by (meson antisym)
      ultimately have "k2 = k" using assms k(1) by (meson inj_onD)
      then show "ip = clm_ip c" using k(4) \<open>kn_ip k2 = ip\<close> by simp
    qed (use k in \<open>auto simp: owns_name_def\<close>)
    with Some show ?thesis by (auto simp: resolve_services_def resolve_claims_names)
  qed
qed

text \<open>C35 (names_agree).
  Every device of the mesh resolves a contested service name the same way: two devices that know the
  same devices and announcements give each name to the same address, that of the claimant with the
  lowest key, and to nobody if a device bears the name, in whatever order the claims arrived.\<close>

theorem names_agree:
  assumes "roster_seen fw pk book me seeds = roster_seen fw' pk' book' me' seeds'"
    and "inj_on kn_key (roster_seen fw pk book me seeds)"
  shows "tget (rv_names (resolve_services fw pk book me seeds)) h = tget (rv_names (resolve_services fw' pk' book' me' seeds')) h \<and>
    (tget (rv_names (resolve_services fw pk book me seeds)) h = Some ip \<longleftrightarrow>
       owns_name (roster_seen fw pk book me seeds) h ip)"
  using resolve_services_owner [OF assms(2)] resolve_services_owner [of fw' pk' book' me' seeds'] assms
  by (metis option.exhaust)


subsection \<open>What the resolver answers for\<close>

text \<open>A name in the two spellings it resolves in.\<close>

definition spell :: "string option \<Rightarrow> string \<Rightarrow> string list" where
  "spell d name = norm_name name # (case mesh_alias (norm_name name) d of None \<Rightarrow> [] | Some a \<Rightarrow> [a])"

definition spell_device :: "string option \<Rightarrow> string \<Rightarrow> string option \<Rightarrow> string list" where
  "spell_device d host alias = spell d host @ (case alias of None \<Rightarrow> [] | Some a \<Rightarrow> spell d a)"

lemma add_name_tables:
  "tget (zd_names (add_name d sub name ip z)) n = (if n \<in> set (spell d name) then Some ip else tget (zd_names z) n)"
  "tget (zd_wildcard (add_name d sub name ip z)) n =
     (if sub \<and> n \<in> set (spell d name) then Some ip else tget (zd_wildcard z) n)"
  by (auto simp: add_name_def spell_def Let_def split: option.splits)

lemma add_device_tables:
  "tget (zd_names (add_device d host alias ip z)) n =
     (if n \<in> set (spell_device d host alias) then Some ip else tget (zd_names z) n)"
  "tget (zd_wildcard (add_device d host alias ip z)) n =
     (if n \<in> set (spell d host) then Some ip else tget (zd_wildcard z) n)"
  by (auto simp: add_device_def spell_device_def add_name_tables Let_def split: option.splits)

type_synonym named_device = "string \<times> string option \<times> ipv4"

definition add_devices :: "string option \<Rightarrow> named_device list \<Rightarrow> zone_data \<Rightarrow> zone_data" where
  "add_devices d = fold (\<lambda>(host, alias, ip). add_device d host alias ip)"

definition devices_named :: "self_device \<Rightarrow> seed_peer list \<Rightarrow> named_device list" where
  "devices_named me seeds =
     (se_hostname me, se_primary_alias me, se_wg_ip me) # map (\<lambda>s. (sp_hostname s, sp_primary_alias s, sp_ip s)) seeds"

lemma zone_of_devices:
  "zone_of me seeds svcs =
     (add_devices (se_dns_domain me) (devices_named me seeds)
        (fold (\<lambda>(name, ip). add_name (se_dns_domain me) False name ip) svcs empty_zone))\<lparr>zd_cert_domain := se_dns_domain me\<rparr>"
proof -
  have "fold (\<lambda>(host, alias, ip). add_device d host alias ip) (map (\<lambda>s. (sp_hostname s, sp_primary_alias s, sp_ip s)) seeds) =
      fold (\<lambda>s. add_device d (sp_hostname s) (sp_primary_alias s) (sp_ip s)) seeds" for d
    by (induction seeds) auto
  then show ?thesis by (simp add: zone_of_def add_devices_def devices_named_def Let_def)
qed

text \<open>Adding devices: their names are theirs, every other entry stays.\<close>

lemma add_devices_names:
  "(\<exists>(h, a, i)\<in>set ds. n \<in> set (spell_device d h a) \<and> tget (zd_names (add_devices d ds z)) n = Some i) \<or>
   (\<forall>(h, a, i)\<in>set ds. n \<notin> set (spell_device d h a)) \<and> tget (zd_names (add_devices d ds z)) n = tget (zd_names z) n"
proof (induction ds rule: rev_induct)
  case (snoc x ds)
  obtain h a i where x: "x = (h, a, i)" by (cases x)
  show ?case
  proof (cases "n \<in> set (spell_device d h a)")
    case True
    then show ?thesis by (auto simp: x add_devices_def add_device_tables)
  next
    case False
    then have "tget (zd_names (add_devices d (ds @ [x]) z)) n = tget (zd_names (add_devices d ds z)) n"
      by (simp add: x add_devices_def add_device_tables)
    with snoc False show ?thesis by (auto simp: x)
  qed
qed (simp add: add_devices_def)

lemma add_devices_wildcard:
  "tget (zd_wildcard (add_devices d ds z)) n = Some ip \<Longrightarrow>
   (\<exists>(h, a, i)\<in>set ds. n \<in> set (spell d h) \<and> i = ip) \<or> tget (zd_wildcard z) n = Some ip"
  by (induction ds arbitrary: z) (force simp: add_devices_def add_device_tables split: if_splits)+

lemma add_services_tables:
  "tget (zd_names (fold (\<lambda>(name, ip). add_name d False name ip) svcs z)) n = Some ip \<Longrightarrow>
     (\<exists>(name, i)\<in>set svcs. n \<in> set (spell d name) \<and> i = ip) \<or> tget (zd_names z) n = Some ip"
  "tget (zd_wildcard (fold (\<lambda>(name, ip). add_name d False name ip) svcs z)) n = tget (zd_wildcard z) n"
  by (induction svcs arbitrary: z) (force simp: add_name_tables split: if_splits)+

lemma after_dot_split: "after_dot n = Some b \<Longrightarrow> \<exists>p. n = p @ [dot] @ b"
proof -
  assume "after_dot n = Some b"
  then obtain x where x: "dropWhile (\<lambda>c. c \<noteq> dot) n = x # b" by (auto simp: after_dot_def split: list.splits)
  then have "x = dot" using hd_dropWhile [of "\<lambda>c. c \<noteq> dot" n] by simp
  then have "n = takeWhile (\<lambda>c. c \<noteq> dot) n @ [dot] @ b" using x takeWhile_dropWhile_id [of "\<lambda>c. c \<noteq> dot" n] by simp
  then show ?thesis by blast
qed

lemma zone_lookup_cases:
  assumes "zone_lookup (zone_of me seeds svcs) n = Some ip"
  obtains (device) h a where "(h, a, ip) \<in> set (devices_named me seeds)" "n \<in> set (spell_device (se_dns_domain me) h a)"
    | (service) name where "(name, ip) \<in> set svcs" "n \<in> set (spell (se_dns_domain me) name)"
        "\<forall>(h, a, i)\<in>set (devices_named me seeds). n \<notin> set (spell_device (se_dns_domain me) h a)"
    | (below) h a p b where "(h, a, ip) \<in> set (devices_named me seeds)" "b \<in> set (spell (se_dns_domain me) h)"
        "n = p @ [dot] @ b" "\<forall>(h, a, i)\<in>set (devices_named me seeds). n \<notin> set (spell_device (se_dns_domain me) h a)"
proof -
  let ?d = "se_dns_domain me" and ?ds = "devices_named me seeds"
  let ?z = "fold (\<lambda>(name, ip). add_name ?d False name ip) svcs empty_zone"
  have names: "zd_names (zone_of me seeds svcs) = zd_names (add_devices ?d ?ds ?z)"
    "zd_wildcard (zone_of me seeds svcs) = zd_wildcard (add_devices ?d ?ds ?z)"
    by (simp_all add: zone_of_devices)
  consider (a) h a i where "(h, a, i) \<in> set ?ds" "n \<in> set (spell_device ?d h a)" "tget (zd_names (add_devices ?d ?ds ?z)) n = Some i"
    | (b) "\<forall>(h, a, i)\<in>set ?ds. n \<notin> set (spell_device ?d h a)" "tget (zd_names (add_devices ?d ?ds ?z)) n = tget (zd_names ?z) n"
    using add_devices_names [where ds = ?ds and n = n and d = ?d and z = ?z] by blast
  then show ?thesis
  proof cases
    case a
    with assms have "i = ip" by (simp add: zone_lookup_def names)
    with a device show ?thesis by blast
  next
    case b
    show ?thesis
    proof (cases "tget (zd_names ?z) n")
      case None
      with assms b obtain base where base: "after_dot n = Some base" "tget (zd_wildcard (add_devices ?d ?ds ?z)) base = Some ip"
        by (auto simp: zone_lookup_def names split: option.splits)
      have "tget (zd_wildcard ?z) base = None" by (simp add: add_services_tables empty_zone_def)
      with add_devices_wildcard [OF base(2)] obtain h a where "(h, a, ip) \<in> set ?ds" "base \<in> set (spell ?d h)" by auto
      with after_dot_split [OF base(1)] b(1) below show ?thesis by metis
    next
      case (Some i)
      with assms b have "i = ip" by (simp add: zone_lookup_def names)
      with Some add_services_tables(1) [of ?d svcs empty_zone n ip] obtain name where "(name, ip) \<in> set svcs" "n \<in> set (spell ?d name)"
        by (auto simp: empty_zone_def)
      with b(1) service show ?thesis by blast
    qed
  qed
qed


text \<open>The names under an owner's label, in the mesh and in the certificate domain.\<close>

definition in_namespace :: "string option \<Rightarrow> string \<Rightarrow> string \<Rightarrow> bool" where
  "in_namespace d user n \<longleftrightarrow> (\<exists>p s. n = p @ lower user @ s \<and> (p = [] \<or> List.last p = dot) \<and>
     (s = dotted_suffix \<or> (\<exists>dom. d = Some dom \<and> s = lower (dot # dom))))"

lemma lower_idem [simp]: "lower (lower s) = lower s"
  by (simp add: lower_def)

lemma norm_name_suffix: "norm_name (x @ dotted_suffix) = lower (x @ dotted_suffix)"
  using trim_end_dot_fixed [of "x @ dotted_suffix"] last_dotted_suffix [of x] by (simp add: norm_name_def)

lemma norm_name_lower: "norm_name (lower (x @ dotted_suffix)) = norm_name (x @ dotted_suffix)"
  using norm_name_suffix [of "lower x"] norm_name_suffix [of x] by (simp add: dotted_suffix_lower)

lemma lower_last: "p = [] \<or> List.last p = dot \<Longrightarrow> lower p = [] \<or> List.last (lower p) = dot"
  using lower_dot by (cases p rule: rev_cases) (simp_all add: lower_def)

lemma spell_in_namespace:
  assumes "n \<in> set (spell d (p @ user @ dotted_suffix))" and "p = [] \<or> List.last p = dot"
  shows "in_namespace d user n"
proof -
  have norm: "norm_name (p @ user @ dotted_suffix) = lower p @ lower user @ dotted_suffix"
    using norm_name_suffix [of "p @ user"] by (simp add: dotted_suffix_lower)
  have "strip_suffix dotted_suffix (lower p @ lower user @ dotted_suffix) = Some (lower p @ lower user)"
    using strip_suffix_append [of dotted_suffix "lower p @ lower user"] by simp
  then consider "n = lower p @ lower user @ dotted_suffix"
    | dom where "d = Some dom" "n = lower p @ lower user @ lower (dot # dom)"
    using assms(1) lower_append [of "[dot]"] by (auto simp: spell_def norm mesh_alias_def split: option.splits)
  then show ?thesis using lower_last [OF assms(2)] unfolding in_namespace_def by cases blast+
qed

lemma below_in_namespace: "in_namespace d user b \<Longrightarrow> in_namespace d user (p @ [dot] @ b)"
proof -
  assume "in_namespace d user b"
  then obtain q s where q: "b = q @ lower user @ s" "q = [] \<or> List.last q = dot"
    "s = dotted_suffix \<or> (\<exists>dom. d = Some dom \<and> s = lower (dot # dom))" unfolding in_namespace_def by blast
  then have "p @ [dot] @ b = (p @ [dot] @ q) @ lower user @ s" "List.last (p @ [dot] @ q) = dot" by auto
  with q(3) show ?thesis unfolding in_namespace_def by blast
qed

text \<open>The devices a client verified: its own grant's attestation and those of its seeds.\<close>

definition vouched_devices :: "attestation \<Rightarrow> (attestation \<times> seed) list \<Rightarrow> attestation list" where
  "vouched_devices att held = att # map fst held"

definition device_spellings :: "string option \<Rightarrow> attestation \<Rightarrow> string list" where
  "device_spellings d a = spell_device d (hostname a) (primary_alias a)"

lemma vouched_named:
  assumes "me = self_device_of resp g att community" and "seeds = map (\<lambda>(a, sd). peer_of a sd) held"
  shows "set (devices_named me seeds) =
    (\<lambda>a. (hostname a, primary_alias a, at_wg_ip a)) ` set (vouched_devices att held)"
  by (force simp: assms devices_named_def vouched_devices_def self_device_of_def peer_of_def)

lemma device_namespace:
  assumes "n \<in> set (device_spellings d a)"
  shows "in_namespace d (at_username a) n"
proof -
  have h: "hostname a = (at_device_name a @ [dot]) @ at_username a @ dotted_suffix"
    by (simp add: hostname_def dotted_suffix_def dot_def)
  have p: "primary_alias a = Some x \<Longrightarrow> x = [] @ at_username a @ dotted_suffix" for x
    by (auto simp: primary_alias_def dotted_suffix_def dot_def split: if_splits)
  show ?thesis
    using assms spell_in_namespace [of n d "at_device_name a @ [dot]" "at_username a"] spell_in_namespace [of n d "[]" "at_username a"] p
    by (cases "primary_alias a") (auto simp: device_spellings_def spell_device_def h)
qed

lemma host_namespace: "n \<in> set (spell d (hostname a)) \<Longrightarrow> in_namespace d (at_username a) n"
  by (rule device_namespace) (simp add: device_spellings_def spell_device_def)

lemma service_namespace:
  assumes "me = self_device_of resp g att community" and "seeds = map (\<lambda>(a, sd). peer_of a sd) held"
    and "(name, ip) \<in> set (rv_names (resolve_services fw pk book me seeds))"
  shows "\<exists>a\<in>set (vouched_devices att held). at_wg_ip a = ip \<and> (\<exists>l. name = lower (l @ [dot] @ at_username a @ dotted_suffix))"
proof -
  let ?cs = "own_claims me pk (case fw of Some f \<Rightarrow> own_services f | None \<Rightarrow> []) @ peer_claims seeds book"
  have kept: "\<forall>(n, c)\<in>set best'. c \<in> set cs \<and> n = clm_hostname c \<or> (n, c) \<in> set best"
    if "settle_claims devs cs best sh = (best', sh')" for devs cs best sh best' sh'
    using that
  proof (induction devs cs best sh rule: settle_claims.induct)
    case (2 devs c cs best sh)
    have upd: "(n, x) \<in> set (tput k v m) \<Longrightarrow> (n, x) = (k, v) \<or> (n, x) \<in> set m" for n x k v and m :: "(string, claim) hmap"
      unfolding tput_def by (induction m) (auto split: if_splits)
    from 2 show ?case by (auto split: if_splits option.splits dest!: upd)
  qed simp
  obtain best sh where s: "settle_claims (device_names me seeds) ?cs [] [] = (best, sh)" by fastforce
  with assms(3) obtain c where "(name, c) \<in> set best" "ip = clm_ip c"
    by (auto simp: resolve_services_def resolve_claims_def)
  with kept [OF s] have "c \<in> set ?cs" "name = clm_hostname c" "ip = clm_ip c" by auto
  then consider s where "c = claim_of pk (at_username att) (at_wg_ip att) s"
    | a sd s where "(a, sd) \<in> set held" "c = claim_of (at_wg_pubkey a) (at_username a) (at_wg_ip a) s"
    by (auto simp: own_claims_def peer_claims_def assms(1,2) self_device_of_def peer_of_def)
  then show ?thesis
    using \<open>name = clm_hostname c\<close> \<open>ip = clm_ip c\<close>
    by cases (force simp: claim_of_def vouched_devices_def dotted_suffix_def dot_def)+
qed

text \<open>C17 (names_confined).
  What a mesh name can lead to: whatever the resolver of a device answers is the address of a device
  it verified, and only of one whose owner's label the name carries, in the mesh zone or the
  certificate domain, so nobody attracts another owner's names by announcing services; and a name a
  verified device bears leads to a device that bears it, never to a service.\<close>

theorem names_confined:
  assumes "me = self_device_of resp g att community" and "seeds = map (\<lambda>(a, sd). peer_of a sd) held"
    and "zone_lookup (zone_of me seeds (rv_names (resolve_services fw pk book me seeds))) n = Some ip"
  shows "\<exists>a\<in>set (vouched_devices att held). at_wg_ip a = ip \<and>
    in_namespace (rs_dns_domain resp) (at_username a) n \<and>
    ((\<exists>b\<in>set (vouched_devices att held). n \<in> set (device_spellings (rs_dns_domain resp) b)) \<longrightarrow>
       n \<in> set (device_spellings (rs_dns_domain resp) a))"
proof -
  let ?V = "set (vouched_devices att held)" and ?d = "rs_dns_domain resp"
  have d: "se_dns_domain me = ?d" by (simp add: assms(1) self_device_of_def)
  note named = vouched_named [OF assms(1,2)]
  from assms(3) show ?thesis
  proof (cases rule: zone_lookup_cases)
    case (device h x)
    then obtain a where a: "a \<in> ?V" "at_wg_ip a = ip" "n \<in> set (device_spellings ?d a)"
      unfolding named d by (auto simp: device_spellings_def)
    with device_namespace show ?thesis by blast
  next
    case (service name)
    obtain a l where a: "a \<in> ?V" "at_wg_ip a = ip" "name = lower (l @ [dot] @ at_username a @ dotted_suffix)"
      using service_namespace [OF assms(1,2) service(1)] by blast
    have "norm_name name = norm_name (l @ [dot] @ at_username a @ dotted_suffix)"
      using norm_name_lower [of "l @ [dot] @ at_username a"] by (simp add: a(3))
    then have "n \<in> set (spell ?d ((l @ [dot]) @ at_username a @ dotted_suffix))"
      using service(2) by (simp add: spell_def d)
    then have "in_namespace ?d (at_username a) n" by (rule spell_in_namespace) simp
    moreover have "\<forall>b\<in>?V. n \<notin> set (device_spellings ?d b)"
      using service(3) unfolding named d by (auto simp: device_spellings_def)
    ultimately show ?thesis using a by blast
  next
    case (below h x p b)
    then obtain a where a: "a \<in> ?V" "at_wg_ip a = ip" "b \<in> set (spell ?d (hostname a))" "n = p @ [dot] @ b"
      unfolding named d by auto
    then have "in_namespace ?d (at_username a) n" using host_namespace below_in_namespace by blast
    moreover have "\<forall>b\<in>?V. n \<notin> set (device_spellings ?d b)"
      using below(4) unfolding named d by (auto simp: device_spellings_def)
    ultimately show ?thesis using a by blast
  qed
qed


text \<open>
  A device that serves one name on two ports announces it twice; the second claim loses to the
  first, and the name is reported as shadowed although the device has it.
\<close>

lemma own_second_claim_shadowed:
  assumes "h \<notin> set devs" and "h = lower (n @ ''.'' @ user @ ''.'' @ DNS_SUFFIX)"
  shows "(let rv = resolve_claims (map (claim_of pk user ip)
       [\<lparr>ms_name = n, ms_proto = Tcp, ms_port = p, ms_kind = Port\<rparr>, \<lparr>ms_name = n, ms_proto = Udp, ms_port = p, ms_kind = Port\<rparr>]) devs
    in tget (rv_names rv) h = Some ip \<and> (pk, n) \<in> set (rv_shadowed rv))"
  using assms by (simp add: resolve_claims_def claim_of_def Let_def tput_def tget_def)

subsection \<open>Examples\<close>

definition device_att :: "key \<Rightarrow> ipv4 \<Rightarrow> string \<Rightarrow> attestation" where
  "device_att pk ip dev = demo_att\<lparr>at_wg_pubkey := pk, at_wg_ip := ip, at_username := ''alice'',
     at_device_name := dev, at_is_primary := False\<rparr>"

definition demo_mc :: mesh_service where
  "demo_mc = \<lparr>ms_name = ''mc'', ms_proto = Tcp, ms_port = 25565, ms_kind = Port\<rparr>"

definition demo_self :: "attestation \<Rightarrow> self_device" where
  "demo_self a = self_device_of demo_resp \<lparr>gr_attestations = [], gr_networks = []\<rparr> a ''home''"

definition demo_peers_of :: "attestation list \<Rightarrow> seed_peer list" where
  "demo_peers_of as = map (\<lambda>(a, sd). peer_of a sd) (map (\<lambda>a. (a, demo_seed)) as)"

definition laptop :: attestation where "laptop = device_att [1] 5 ''laptop''"
definition server :: attestation where "server = device_att [2] 6 ''server''"
definition tablet :: attestation where "tablet = device_att [3] 7 ''tablet''"

text \<open>The laptop and the server both serve \<open>mc\<close>; the tablet and the laptop each know it.\<close>

definition laptop_fw :: firewall where
  "laptop_fw = fw_load ''unl0'' [] (Holds [\<lparr>ex_proto = Tcp, ex_port = 25565, ex_scope = AllPeers, ex_name = Some ''mc'', ex_kind = Port\<rparr>])"

lemma laptop_services: "own_services laptop_fw = [demo_mc]"
  by (simp add: own_services_def laptop_fw_def fw_load_def name_exposure_def service_of_def demo_mc_def)

lemma demo_known:
  "roster_seen (Some laptop_fw) [1] [([2], \<lparr>be_services = [demo_mc], be_polled_at = 0\<rparr>)] (demo_self laptop) (demo_peers_of [server, tablet]) =
   roster_seen None [3] [([2], \<lparr>be_services = [demo_mc], be_polled_at = 9\<rparr>), ([1], \<lparr>be_services = [demo_mc], be_polled_at = 4\<rparr>)]
     (demo_self tablet) (demo_peers_of [server, laptop])"
  by (simp add: roster_seen_def demo_self_def demo_peers_of_def self_device_of_def peer_of_def laptop_services
      laptop_def server_def tablet_def device_att_def hostname_def primary_alias_def book_get_def tget_def insert_commute)

lemma demo_known_inj:
  "inj_on kn_key (roster_seen (Some laptop_fw) [1] [([2], \<lparr>be_services = [demo_mc], be_polled_at = 0\<rparr>)] (demo_self laptop) (demo_peers_of [server, tablet]))"
  by (simp add: inj_on_def roster_seen_def demo_self_def demo_peers_of_def self_device_of_def peer_of_def
      laptop_def server_def tablet_def device_att_def)

lemma names_agree_witness:
  "tget (rv_names (resolve_services (Some laptop_fw) [1] [([2], \<lparr>be_services = [demo_mc], be_polled_at = 0\<rparr>)]
       (demo_self laptop) (demo_peers_of [server, tablet]))) ''mc.alice.unity.internal'' =
   tget (rv_names (resolve_services None [3] [([2], \<lparr>be_services = [demo_mc], be_polled_at = 9\<rparr>), ([1], \<lparr>be_services = [demo_mc], be_polled_at = 4\<rparr>)]
     (demo_self tablet) (demo_peers_of [server, laptop]))) ''mc.alice.unity.internal''"
  using names_agree [OF demo_known demo_known_inj] by blast

lemma names_confined_witness:
  "\<exists>a\<in>set (vouched_devices laptop [(server, demo_seed)]). at_wg_ip a = 6 \<and>
     ''server.alice.unity.internal'' \<in> set (device_spellings None a)"
proof -
  let ?me = "demo_self laptop" and ?seeds = "demo_peers_of [server]"
  have dns: "rs_dns_domain demo_resp = None" by (simp add: demo_resp_def)
  have host: "hostname server = ''server.alice.unity.internal''"
    by (simp add: server_def device_att_def hostname_def DNS_SUFFIX_def)
  have norm: "norm_name ''server.alice.unity.internal'' = ''server.alice.unity.internal''" by code_simp
  have other: "norm_name ''laptop.alice.unity.internal'' \<noteq> ''server.alice.unity.internal''" by code_simp
  have mine: "''server.alice.unity.internal'' \<in> set (device_spellings None server)"
    by (simp add: device_spellings_def spell_device_def spell_def host norm)
  have rv: "rv_names (resolve_services None [1] [] ?me ?seeds) = []"
    by (simp add: resolve_services_def resolve_claims_def own_claims_def peer_claims_def demo_peers_of_def book_get_def)
  have "zone_lookup (zone_of ?me ?seeds (rv_names (resolve_services None [1] [] ?me ?seeds))) ''server.alice.unity.internal'' = Some 6"
    by (simp add: rv zone_lookup_def zone_of_devices devices_named_def demo_self_def demo_peers_of_def self_device_of_def peer_of_def
        add_devices_def add_device_tables dns spell_device_def spell_def mesh_alias_def host norm)
      (simp add: server_def device_att_def)
  from names_confined [OF demo_self_def _ this, of "[(server, demo_seed)]"]
  obtain a where "a \<in> set (vouched_devices laptop [(server, demo_seed)])" "at_wg_ip a = 6"
    "(\<exists>b\<in>set (vouched_devices laptop [(server, demo_seed)]). ''server.alice.unity.internal'' \<in> set (device_spellings None b)) \<longrightarrow>
      ''server.alice.unity.internal'' \<in> set (device_spellings None a)"
    by (auto simp: demo_peers_of_def dns)
  with mine show ?thesis by (auto simp: vouched_devices_def)
qed

text \<open>
  A device tells a service only to the peers in its scope, so what is known of the mesh differs
  between them, and with it the answer: of two tablets, the one the laptop tells nothing finds the
  server under a name that leads the other one to the laptop.
\<close>

lemma name_depends_on_asker:
  "tget (rv_names (resolve_services None [3] [([2], \<lparr>be_services = [demo_mc], be_polled_at = 0\<rparr>), ([1], \<lparr>be_services = [demo_mc], be_polled_at = 0\<rparr>)]
     (demo_self tablet) (demo_peers_of [server, laptop]))) ''mc.alice.unity.internal'' = Some 5"
  "tget (rv_names (resolve_services None [3] [([2], \<lparr>be_services = [demo_mc], be_polled_at = 0\<rparr>), ([1], \<lparr>be_services = [], be_polled_at = 0\<rparr>)]
     (demo_self tablet) (demo_peers_of [server, laptop]))) ''mc.alice.unity.internal'' = Some 6"
  by code_simp+

end
