(* ===== verification/PeerHealth.thy ===== *)
theory PeerHealth
  imports MeshNames Beacon
begin

section \<open>Peer health: \<open>crates/engine/src/daemon.rs\<close>, \<open>common::control::classify_reach\<close>\<close>

text \<open>
  The per-peer connection state machine of the mesh loop (\<open>PeerConn\<close>), one pass over the live peers
  (\<open>poll_peer_health\<close>), and what the pass makes the loop report (\<open>SentReport\<close> and the request it keeps
  held). Instants and system times are nanoseconds; WireGuard's statistics, the ping results and the
  relay and ICE sessions in use are arguments.
\<close>

definition STUCK_AFTER_SECS :: nat where "STUCK_AFTER_SECS = 30"
definition BOOTSTRAP_STUCK_SECS :: nat where "BOOTSTRAP_STUCK_SECS = 15"
definition HANDSHAKE_FRESH :: nat where "HANDSHAKE_FRESH = secs 180"
definition COORD_FULL_MARGIN :: u64 where "COORD_FULL_MARGIN = 120"
definition P2P_REFRESH_MARGIN :: u64 where "P2P_REFRESH_MARGIN = LONGPOLL_HOLD_SECS"

text \<open>\<open>Duration::as_secs\<close>.\<close>

definition as_secs :: "nat \<Rightarrow> nat" where "as_secs d = d div 10 ^ 9"

subsection \<open>The connection state machine\<close>

datatype peer_reach = Direct | Punching | Unreachable | Relayed | Ice

definition classify_reach :: "bool \<Rightarrow> bool \<Rightarrow> nat \<Rightarrow> peer_reach" where
  "classify_reach punched connected attempt_age_secs =
     (if connected then Direct
      else if STUCK_AFTER_SECS \<le> attempt_age_secs then Unreachable
      else if punched then Punching
      else Direct)"

record peer_conn =
  pc_attempt_since :: "nat option"
  pc_bootstrap_since :: "nat option"
  pc_last :: "(bool \<times> peer_reach) option"

definition new_conn :: peer_conn where
  "new_conn = \<lparr>pc_attempt_since = None, pc_bootstrap_since = None, pc_last = None\<rparr>"

record peer_step =
  ps_reach :: peer_reach
  ps_flipped :: "(bool \<times> peer_reach) option"
  ps_bootstrap_stuck :: bool

text \<open>What one pass saw of a peer.\<close>

record peer_view =
  vw_punched :: bool
  vw_connected :: bool
  vw_unpunchable :: bool
  vw_relaying :: bool
  vw_icing :: bool

definition arm :: "nat \<Rightarrow> nat option \<Rightarrow> nat option" where
  "arm now t = (case t of None \<Rightarrow> Some now | Some s \<Rightarrow> Some s)"

definition conn_step :: "nat \<Rightarrow> peer_view \<Rightarrow> peer_conn \<Rightarrow> peer_step \<times> peer_conn" where
  "conn_step now v c =
     (let attempt = (if vw_connected v then None else arm now (pc_attempt_since c));
          age = (case attempt of None \<Rightarrow> 0 | Some t \<Rightarrow> as_secs (now - t));
          boot = (if vw_unpunchable v \<and> \<not> vw_connected v then arm now (pc_bootstrap_since c) else None);
          stuck = (case boot of None \<Rightarrow> False | Some t \<Rightarrow> BOOTSTRAP_STUCK_SECS \<le> as_secs (now - t));
          reach = (if vw_relaying v then Relayed else if vw_icing v then Ice
                   else classify_reach (vw_punched v) (vw_connected v) age);
          flipped = (case pc_last c of
              Some (was_up, was_reach) \<Rightarrow>
                if was_up \<noteq> vw_connected v \<or> was_reach \<noteq> reach then Some (was_up, was_reach) else None
            | None \<Rightarrow> None)
      in (\<lparr>ps_reach = reach, ps_flipped = flipped, ps_bootstrap_stuck = stuck\<rparr>,
          \<lparr>pc_attempt_since = attempt, pc_bootstrap_since = boot, pc_last = Some (vw_connected v, reach)\<rparr>))"

subsection \<open>One pass over the peers\<close>

record peer_config =
  pf_public_key :: key
  pf_allowed_ips :: "(ipv4 \<times> u8) list"
  pf_endpoint :: "sockaddr option"
  pf_keepalive :: "u16 option"

record peer_stat =
  st_endpoint :: "sockaddr option"
  st_last_handshake :: "nat option"
  st_rx_bytes :: u64
  st_tx_bytes :: u64

definition is_loopback :: "ip \<Rightarrow> bool" where
  "is_loopback a = (case a of V4 w \<Rightarrow> drop_bit 24 w = 127 | V6 w \<Rightarrow> w = 1)"

definition observed_now :: "(key, peer_stat) hmap option \<Rightarrow> observed_endpoint list \<Rightarrow> observed_endpoint list" where
  "observed_now read last_observed =
     (case read of
        None \<Rightarrow> last_observed
      | Some m \<Rightarrow> sort_key oe_pubkey (filter (\<lambda>ob. \<not> is_loopback (sa_ip (oe_endpoint ob)))
          (List.map_filter (\<lambda>(pk, s). map_option (\<lambda>ep. \<lparr>oe_pubkey = pk, oe_endpoint = ep\<rparr>) (st_endpoint s)) m)))"

text \<open>\<open>SystemTime::elapsed\<close> fails for a time in the future, which counts as fresh.\<close>

definition handshake_fresh :: "nat \<Rightarrow> nat \<Rightarrow> bool" where
  "handshake_fresh wall t = (if t \<le> wall then wall - t < HANDSHAKE_FRESH else True)"

record live_view =
  lv_reach :: peer_reach
  lv_up :: bool
  lv_latency :: "nat option"
  lv_rx_bytes :: u64
  lv_tx_bytes :: u64
  lv_last_handshake_secs :: "nat option"

record poll_env =
  po_now :: nat
  po_wall :: nat
  po_stats :: "(key, peer_stat) hmap option"
  po_latency :: "(ipv4, nat) hmap"
  po_relaying :: "key \<Rightarrow> bool"
  po_icing :: "key \<Rightarrow> bool"
  po_ice_enabled :: bool

record poll_acc =
  pa_conns :: "(key, peer_conn) hmap"
  pa_want_relay :: "key list"
  pa_reachable :: "(key, bool) hmap"
  pa_live :: "(ipv4, live_view) hmap"

definition stat_of :: "poll_env \<Rightarrow> key \<Rightarrow> peer_stat option" where
  "stat_of env pk = (case po_stats env of None \<Rightarrow> None | Some m \<Rightarrow> tget m pk)"

definition last_handshake :: "poll_env \<Rightarrow> key \<Rightarrow> nat option" where
  "last_handshake env pk = (case stat_of env pk of None \<Rightarrow> None | Some s \<Rightarrow> st_last_handshake s)"

definition view_of :: "poll_env \<Rightarrow> seed_peer list \<Rightarrow> key \<Rightarrow> peer_view" where
  "view_of env seeds pk =
     \<lparr>vw_punched = list_ex (\<lambda>s. sp_pubkey s = pk \<and> sp_endpoint s = None \<and> sp_punch s \<noteq> None) seeds,
      vw_connected = (case last_handshake env pk of None \<Rightarrow> False | Some t \<Rightarrow> handshake_fresh (po_wall env) t),
      vw_unpunchable = list_ex (\<lambda>s. sp_pubkey s = pk \<and> sp_endpoint s = None \<and> sp_punch s = None) seeds,
      vw_relaying = po_relaying env pk, vw_icing = po_icing env pk\<rparr>"

definition wants_relay :: "bool \<Rightarrow> peer_view \<Rightarrow> peer_step \<Rightarrow> bool" where
  "wants_relay ice_enabled v st \<longleftrightarrow>
     vw_relaying v \<or> vw_icing v \<or> ps_reach st = Unreachable \<or> (ice_enabled \<and> ps_bootstrap_stuck st)"

definition poll_peer ::
  "poll_env \<Rightarrow> seed_peer list \<Rightarrow> key \<times> peer_config \<Rightarrow> poll_acc \<Rightarrow> poll_acc" where
  "poll_peer env seeds peer acc =
     (case peer of (pk, cfg) \<Rightarrow>
        let v = view_of env seeds pk;
            c = (case tget (pa_conns acc) pk of None \<Rightarrow> new_conn | Some c \<Rightarrow> c)
        in case conn_step (po_now env) v c of (st, c') \<Rightarrow>
             let acc1 = acc\<lparr>pa_conns := tput pk c' (pa_conns acc),
                            pa_want_relay := pa_want_relay acc @ (if wants_relay (po_ice_enabled env) v st then [pk] else [])\<rparr>
             in case pf_allowed_ips cfg of
                  [] \<Rightarrow> acc1
                | (ip, _) # _ \<Rightarrow>
                    acc1\<lparr>pa_reachable := tput pk (tget (po_latency env) ip \<noteq> None) (pa_reachable acc1),
                         pa_live := tput ip
                           \<lparr>lv_reach = ps_reach st, lv_up = vw_connected v, lv_latency = tget (po_latency env) ip,
                            lv_rx_bytes = (case stat_of env pk of None \<Rightarrow> 0 | Some s \<Rightarrow> st_rx_bytes s),
                            lv_tx_bytes = (case stat_of env pk of None \<Rightarrow> 0 | Some s \<Rightarrow> st_tx_bytes s),
                            lv_last_handshake_secs = (case last_handshake env pk of None \<Rightarrow> None
                              | Some t \<Rightarrow> if t \<le> po_wall env then Some (as_secs (po_wall env - t)) else None)\<rparr>
                           (pa_live acc1)\<rparr>)"

record poll_result =
  pr_conns :: "(key, peer_conn) hmap"
  pr_observed :: "observed_endpoint list"
  pr_want_relay :: "key list"
  pr_live :: "(ipv4, live_view) hmap"
  pr_beacon :: "beacon option"
  pr_lan_eps :: "(key, sockaddr) hmap"
  pr_lan_changed :: bool

definition poll_peer_health ::
  "poll_env \<Rightarrow> (key, peer_config) hmap \<Rightarrow> seed_peer list \<Rightarrow> (key, peer_conn) hmap \<Rightarrow> observed_endpoint list \<Rightarrow>
   beacon option \<Rightarrow> (key, sockaddr) hmap \<Rightarrow> poll_result" where
  "poll_peer_health env peers seeds conns last_observed lan lan_eps =
     (let acc = fold (poll_peer env seeds) peers
                  \<lparr>pa_conns = conns, pa_want_relay = [], pa_reachable = [], pa_live = []\<rparr>;
          sel = map_option (beacon_select (po_now env) (pa_reachable acc)) lan
      in \<lparr>pr_conns = tkeep (\<lambda>pk _. tget peers pk \<noteq> None) (pa_conns acc),
          pr_observed = observed_now (po_stats env) last_observed,
          pr_want_relay = sort (pa_want_relay acc),
          pr_live = pa_live acc,
          pr_beacon = map_option fst sel,
          pr_lan_eps = (case sel of None \<Rightarrow> lan_eps | Some (_, eps) \<Rightarrow> eps),
          pr_lan_changed = (case sel of None \<Rightarrow> False | Some (_, eps) \<Rightarrow> \<not> same_map eps lan_eps)\<rparr>)"

subsection \<open>What the pass makes the loop report\<close>

record sent_report =
  sr_observed :: "observed_endpoint list"
  sr_relay_need :: "key list"
  sr_relay_alloc :: "relay_allocation list"
  sr_ice_offers :: "ice_endpoint list"

definition report_stale :: "sent_report \<Rightarrow> sent_report \<Rightarrow> bool" where
  "report_stale sent cur \<longleftrightarrow>
     sr_observed sent \<noteq> sr_observed cur \<or> sr_relay_need sent \<noteq> sr_relay_need cur \<or>
     sr_relay_alloc sent \<noteq> sr_relay_alloc cur \<or> sr_ice_offers sent \<noteq> sr_ice_offers cur"

text \<open>This iteration's report: the relay allocations and ICE offers are sorted by peer first.\<close>

definition report_now :: "poll_result \<Rightarrow> relay_allocation list \<Rightarrow> ice_endpoint list \<Rightarrow> sent_report" where
  "report_now r allocations offers =
     \<lparr>sr_observed = pr_observed r, sr_relay_need = pr_want_relay r,
      sr_relay_alloc = sort_key al_peer allocations, sr_ice_offers = sort_key ie_peer offers\<rparr>"

text \<open>
  The request the loop keeps in flight: the report it carries, the version it waits past (\<open>None\<close>
  completes at once), and the held peers it is a delta against.
\<close>

record held_request =
  hr_report :: sent_report
  hr_since :: "u64 option"
  hr_held :: "held_peer list"

definition own_grant_stale :: "self_device option \<Rightarrow> u64 \<Rightarrow> bool" where
  "own_grant_stale dev now =
     (case dev of None \<Rightarrow> False | Some d \<Rightarrow> se_grant_expires_at d \<le> now + LONGPOLL_HOLD_SECS)"

definition plan_refresh ::
  "sent_report \<Rightarrow> sent_report \<Rightarrow> self_device option \<Rightarrow> seed_peer list \<Rightarrow> u64 \<Rightarrow> u64 option \<Rightarrow>
   held_request option \<Rightarrow> held_request" where
  "plan_refresh sent cur dev seeds now since pending =
     (let held = held_for_refresh seeds now COORD_FULL_MARGIN;
          forced_full = (seeds \<noteq> [] \<and> held = []);
          have_report = (report_stale sent cur \<or> own_grant_stale dev now \<or> forced_full)
      in case (if have_report then None else pending) of
           Some r \<Rightarrow> r
         | None \<Rightarrow> \<lparr>hr_report = cur, hr_since = (if have_report then None else since), hr_held = held\<rparr>)"

subsection \<open>The state machine against the history\<close>

definition conn_run :: "(nat \<times> peer_view) list \<Rightarrow> peer_conn" where
  "conn_run obs = fold (\<lambda>(t, v) c. snd (conn_step t v c)) obs new_conn"

text \<open>When the trailing run of observations that satisfy \<open>P\<close> began.\<close>

definition since_when :: "(peer_view \<Rightarrow> bool) \<Rightarrow> (nat \<times> peer_view) list \<Rightarrow> nat option" where
  "since_when P obs =
     (case takeWhile (\<lambda>(_, v). P v) (rev obs) of [] \<Rightarrow> None | run \<Rightarrow> Some (fst (List.last run)))"

lemma since_when_snoc:
  "since_when P (obs @ [(t, v)]) = (if P v then Some (case since_when P obs of None \<Rightarrow> t | Some s \<Rightarrow> s) else None)"
  by (simp add: since_when_def split: list.split)

lemma conn_run_snoc: "conn_run (obs @ [(t, v)]) = snd (conn_step t v (conn_run obs))"
  by (simp add: conn_run_def)

lemma conn_run_timers:
  "pc_attempt_since (conn_run obs) = since_when (\<lambda>v. \<not> vw_connected v) obs \<and>
   pc_bootstrap_since (conn_run obs) = since_when (\<lambda>v. vw_unpunchable v \<and> \<not> vw_connected v) obs"
proof (induction obs rule: rev_induct)
  case Nil
  show ?case by (simp add: conn_run_def new_conn_def since_when_def)
next
  case (snoc x obs)
  obtain t v where "x = (t, v)" by (cases x)
  then show ?case using snoc.IH
    by (simp add: conn_run_snoc since_when_snoc conn_step_def Let_def arm_def split: option.splits)
qed

text \<open> What the mesh loop reports of a peer is a function of the whole history of
  passes: a relayed or ICE path wins; a connected peer is direct; otherwise the peer is unreachable exactly
  when every pass since some pass at least \<open>STUCK_AFTER_SECS\<close> ago found it unconnected, and is being punched
  or dialled before that. The bootstrap timer likewise measures the trailing run of passes in which the peer
  had neither an endpoint, nor a punch target, nor a connection.\<close>

theorem reach_from_history:
  "ps_reach (fst (conn_step t v (conn_run obs))) =
     (if vw_relaying v then Relayed else if vw_icing v then Ice else if vw_connected v then Direct
      else if STUCK_AFTER_SECS \<le> as_secs (t - the (since_when (\<lambda>v. \<not> vw_connected v) (obs @ [(t, v)]))) then Unreachable
      else if vw_punched v then Punching else Direct) \<and>
   ps_bootstrap_stuck (fst (conn_step t v (conn_run obs))) =
     (case since_when (\<lambda>v. vw_unpunchable v \<and> \<not> vw_connected v) (obs @ [(t, v)]) of
        None \<Rightarrow> False | Some s \<Rightarrow> BOOTSTRAP_STUCK_SECS \<le> as_secs (t - s))"
  using conn_run_timers [of obs]
  by (simp add: conn_step_def Let_def arm_def classify_reach_def since_when_snoc split: option.splits)

subsection \<open>Stuck peers are escalated\<close>

definition conn_of :: "(key, peer_conn) hmap \<Rightarrow> key \<Rightarrow> peer_conn" where
  "conn_of conns pk = (case tget conns pk of None \<Rightarrow> new_conn | Some c \<Rightarrow> c)"

lemma poll_peer_conns:
  "pa_conns (poll_peer env seeds (pk, cfg) acc) =
     tput pk (snd (conn_step (po_now env) (view_of env seeds pk) (conn_of (pa_conns acc) pk))) (pa_conns acc)"
  "set (pa_want_relay (poll_peer env seeds (pk, cfg) acc)) = set (pa_want_relay acc) \<union>
     (if wants_relay (po_ice_enabled env) (view_of env seeds pk)
           (fst (conn_step (po_now env) (view_of env seeds pk) (conn_of (pa_conns acc) pk))) then {pk} else {})"
  by (simp_all add: poll_peer_def Let_def conn_of_def split: prod.split list.split)

lemma poll_fold:
  assumes "distinct (map fst ps)" "tok (pa_conns acc)"
  shows "tok (pa_conns (fold (poll_peer env seeds) ps acc)) \<and>
    tget (pa_conns (fold (poll_peer env seeds) ps acc)) pk =
      (if pk \<in> fst ` set ps
       then Some (snd (conn_step (po_now env) (view_of env seeds pk) (conn_of (pa_conns acc) pk)))
       else tget (pa_conns acc) pk) \<and>
    (pk \<in> set (pa_want_relay (fold (poll_peer env seeds) ps acc)) \<longleftrightarrow> pk \<in> set (pa_want_relay acc) \<or>
      pk \<in> fst ` set ps \<and> wants_relay (po_ice_enabled env) (view_of env seeds pk)
        (fst (conn_step (po_now env) (view_of env seeds pk) (conn_of (pa_conns acc) pk))))"
  using assms
proof (induction ps arbitrary: acc)
  case (Cons p ps)
  obtain k cfg where p: "p = (k, cfg)" by (cases p)
  let ?acc = "poll_peer env seeds (k, cfg) acc"
  have tok: "tok (pa_conns ?acc)" using Cons.prems(2) by (simp add: poll_peer_conns)
  have other: "conn_of (pa_conns ?acc) pk = conn_of (pa_conns acc) pk" if "pk \<noteq> k"
    using that by (simp add: conn_of_def poll_peer_conns)
  have IH: "distinct (map fst ps)" using Cons.prems(1) by simp
  show ?case
  proof (cases "pk = k")
    case True
    then show ?thesis using Cons.IH [OF IH tok] Cons.prems(1)
      by (auto simp: p poll_peer_conns)
  next
    case False
    then show ?thesis using Cons.IH [OF IH tok] other [OF False]
      by (auto simp: p poll_peer_conns)
  qed
qed simp

lemma poll_conns:
  assumes "tok peers" "tok conns"
  shows "tok (pr_conns (poll_peer_health env peers seeds conns obs lan eps)) \<and>
    tget (pr_conns (poll_peer_health env peers seeds conns obs lan eps)) pk =
      (if tget peers pk = None then None
       else Some (snd (conn_step (po_now env) (view_of env seeds pk) (conn_of conns pk)))) \<and>
    (pk \<in> set (pr_want_relay (poll_peer_health env peers seeds conns obs lan eps)) \<longleftrightarrow>
      tget peers pk \<noteq> None \<and> wants_relay (po_ice_enabled env) (view_of env seeds pk)
        (fst (conn_step (po_now env) (view_of env seeds pk) (conn_of conns pk))))"
proof -
  have mem: "pk \<in> fst ` set peers \<longleftrightarrow> tget peers pk \<noteq> None"
    using set_tkeys [of peers] by (simp add: tkeys_def)
  have dist: "distinct (map fst peers)" using assms(1) by (simp add: tok_def)
  show ?thesis
    using poll_fold [OF dist, of "\<lparr>pa_conns = conns, pa_want_relay = [], pa_reachable = [], pa_live = []\<rparr>" env seeds pk]
      assms(2) mem
    by (auto simp: poll_peer_health_def Let_def tget_tkeep tok_tkeep split: option.splits if_splits)
qed

text \<open>Successive passes of the loop: the environment, peers and seeds of each.\<close>

type_synonym poll_round = "poll_env \<times> (key, peer_config) hmap \<times> seed_peer list"

definition poll_conns_after :: "poll_round list \<Rightarrow> (key, peer_conn) hmap" where
  "poll_conns_after rounds =
     fold (\<lambda>(env, peers, seeds) conns. pr_conns (poll_peer_health env peers seeds conns [] None [])) rounds []"

definition unconnected_in :: "key \<Rightarrow> poll_round \<Rightarrow> bool" where
  "unconnected_in pk rd = (case rd of (env, peers, seeds) \<Rightarrow> tok peers \<and> tget peers pk \<noteq> None \<and> \<not> vw_connected (view_of env seeds pk))"

lemma poll_conns_after_snoc:
  "poll_conns_after (rounds @ [(env, peers, seeds)]) =
   pr_conns (poll_peer_health env peers seeds (poll_conns_after rounds) [] None [])"
  by (simp add: poll_conns_after_def)

lemma poll_conns_ignores: "pr_conns (poll_peer_health env peers seeds conns obs lan eps) =
    pr_conns (poll_peer_health env peers seeds conns [] None [])"
  by (simp add: poll_peer_health_def Let_def)

lemma poll_conns_tok: "\<forall>(env, peers, seeds)\<in>set rounds. tok peers \<Longrightarrow> tok (poll_conns_after rounds)"
proof (induction rounds rule: rev_induct)
  case (snoc rd rounds)
  obtain env peers seeds where "rd = (env, peers, seeds)" by (cases rd)
  then show ?case using snoc poll_conns [of peers "poll_conns_after rounds" env seeds] by (simp add: poll_conns_after_snoc)
qed (simp add: poll_conns_after_def tok_def)

lemma poll_round_conn:
  assumes "\<forall>(env, peers, seeds)\<in>set (rounds @ [(env, peers, seeds)]). tok peers"
  shows "tget (poll_conns_after (rounds @ [(env, peers, seeds)])) pk =
    (if tget peers pk = None then None
     else Some (snd (conn_step (po_now env) (view_of env seeds pk) (conn_of (poll_conns_after rounds) pk))))"
  using poll_conns [of peers "poll_conns_after rounds" env seeds "[]" None "[]" pk] poll_conns_tok [of rounds] assms
  by (simp add: poll_conns_after_snoc)

lemma attempt_from_past:
  assumes "\<forall>(env, peers, seeds)\<in>set rounds. tok peers" "\<forall>(env, _)\<in>set rounds. po_now env \<le> t0"
    "pc_attempt_since (conn_of (poll_conns_after rounds) pk) = Some s"
  shows "s \<le> t0"
  using assms
proof (induction rounds rule: rev_induct)
  case Nil
  then show ?case by (simp add: poll_conns_after_def conn_of_def new_conn_def)
next
  case (snoc rd rounds)
  obtain env peers seeds where rd: "rd = (env, peers, seeds)" by (cases rd)
  let ?old = "conn_of (poll_conns_after rounds) pk"
  have "s = po_now env \<or> pc_attempt_since ?old = Some s"
    using snoc.prems poll_round_conn [of rounds env peers seeds pk]
    by (auto simp: rd conn_of_def new_conn_def conn_step_def Let_def arm_def split: if_splits option.splits)
  then show ?case using snoc.IH snoc.prems(1,2) by (auto simp: rd)
qed

lemma attempt_bound:
  assumes "\<forall>(env, peers, seeds)\<in>set (before @ down). tok peers"
    "\<forall>(env, _)\<in>set before. po_now env \<le> t0" "down \<noteq> []" "\<forall>rd\<in>set down. unconnected_in pk rd"
    "po_now (fst (hd down)) = t0"
  shows "\<exists>s. pc_attempt_since (conn_of (poll_conns_after (before @ down)) pk) = Some s \<and> s \<le> t0"
  using assms(1,3,4,5)
proof (induction down rule: rev_induct)
  case (snoc rd down)
  obtain env peers seeds where rd: "rd = (env, peers, seeds)" by (cases rd)
  let ?old = "conn_of (poll_conns_after (before @ down)) pk"
  have here: "tget peers pk \<noteq> None" "\<not> vw_connected (view_of env seeds pk)"
    using snoc.prems(3) by (auto simp: rd unconnected_in_def)
  then have now: "pc_attempt_since (conn_of (poll_conns_after (before @ down @ [rd])) pk) = arm (po_now env) (pc_attempt_since ?old)"
    using poll_round_conn [of "before @ down" env peers seeds pk] snoc.prems(1)
    by (auto simp: rd conn_of_def [of "poll_conns_after (_ @ _ @ [_])"] conn_step_def Let_def)
  show ?case
  proof (cases "down = []")
    case True
    then have "po_now env = t0" "pc_attempt_since ?old = Some s \<Longrightarrow> s \<le> t0" for s
      using attempt_from_past [of before t0 pk s] snoc.prems assms(2) by (auto simp: rd)
    then show ?thesis using now by (auto simp: arm_def split: option.splits)
  next
    case False
    then obtain s where "pc_attempt_since ?old = Some s" "s \<le> t0" using snoc.IH snoc.prems by auto
    then show ?thesis using now by (auto simp: arm_def)
  qed
qed simp

text \<open> Once every pass for \<open>STUCK_AFTER_SECS\<close> has found a configured peer without a
  fresh handshake, the next pass puts it in the set the engine runs ICE for and asks a relay for, whatever
  came before, whatever its endpoints and whatever the other peers do.\<close>

theorem stuck_peer_escalates:
  assumes "\<forall>(env, peers, seeds)\<in>set (before @ down). tok peers" "\<forall>(env, _)\<in>set before. po_now env \<le> t0"
    "down \<noteq> []" "po_now (fst (hd down)) = t0" "\<forall>rd\<in>set down. unconnected_in pk rd"
    "unconnected_in pk (env, peers, seeds)" "t0 + secs STUCK_AFTER_SECS \<le> po_now env"
  shows "pk \<in> set (pr_want_relay
    (poll_peer_health env peers seeds (poll_conns_after (before @ down)) observed lan lan_eps))"
proof -
  let ?c = "conn_of (poll_conns_after (before @ down)) pk"
  obtain s where s: "pc_attempt_since ?c = Some s" "s \<le> t0"
    using attempt_bound [OF assms(1,2,3,5,4)] by blast
  have "STUCK_AFTER_SECS * 10 ^ 9 \<le> po_now env - s" using assms(7) s(2) by (simp add: secs_def)
  then have "STUCK_AFTER_SECS \<le> as_secs (po_now env - s)"
    unfolding as_secs_def by (simp add: less_eq_div_iff_mult_less_eq)
  then have "wants_relay (po_ice_enabled env) (view_of env seeds pk)
      (fst (conn_step (po_now env) (view_of env seeds pk) ?c))"
    using s(1) assms(6)
    by (simp add: unconnected_in_def wants_relay_def conn_step_def Let_def arm_def classify_reach_def)
  then show ?thesis
    using poll_conns [of peers "poll_conns_after (before @ down)" env seeds observed lan lan_eps pk]
      poll_conns_tok [OF assms(1)] assms(6)
    by (simp add: unconnected_in_def)
qed

definition demo_poll :: "nat \<Rightarrow> poll_round" where
  "demo_poll t = (\<lparr>po_now = secs t, po_wall = secs t, po_stats = Some [], po_latency = [], po_relaying = (\<lambda>_. False),
      po_icing = (\<lambda>_. False), po_ice_enabled = False\<rparr>,
    [(beacon_key 7, \<lparr>pf_public_key = beacon_key 7, pf_allowed_ips = [(5, 32)], pf_endpoint = None, pf_keepalive = Some 25\<rparr>)], [])"

lemma demo_poll_down: "unconnected_in (beacon_key 7) (demo_poll t)"
  by (simp add: unconnected_in_def demo_poll_def view_of_def last_handshake_def stat_of_def tok_def tget_def)

theorem stuck_peer_escalates_witness:
  "beacon_key 7 \<in> set (pr_want_relay (case demo_poll 31 of (env, peers, seeds) \<Rightarrow>
     poll_peer_health env peers seeds (poll_conns_after [demo_poll 1, demo_poll 3]) [] None []))"
proof -
  obtain env peers seeds where rd: "demo_poll 31 = (env, peers, seeds)" by (cases "demo_poll 31")
  have "beacon_key 7 \<in> set (pr_want_relay
      (poll_peer_health env peers seeds (poll_conns_after ([] @ [demo_poll 1, demo_poll 3])) [] None []))"
  proof (rule stuck_peer_escalates [where ?t0.0 = "secs 1"])
    show "unconnected_in (beacon_key 7) (env, peers, seeds)" using demo_poll_down [of 31] by (simp add: rd)
    show "secs 1 + secs STUCK_AFTER_SECS \<le> po_now env"
      using rd by (auto simp: demo_poll_def secs_def STUCK_AFTER_SECS_def)
  qed (use demo_poll_down in \<open>auto simp: demo_poll_def tok_def\<close>)
  then show ?thesis by (simp add: rd)
qed

end
