(* ===== verification/Mesh.thy ===== *)
theory Mesh
  imports PeerHealth LocalNet Nft
begin

section \<open>Applying the mesh: \<open>crates/engine/src/daemon.rs\<close>\<close>

text \<open>
  How a set of verified seeds becomes the host's state: the local filter (opt-out and blocks), the
  source sets of the firewall, the resolver's zone, and the peers of the WireGuard backend
  (\<open>apply_state\<close> and what it calls), and the two ticks of the loop that change seeds or names between
  refreshes. The backend (crate \<open>defguard_wireguard_rs\<close>) is the table of peers its calls put in and take
  out; whether the \<open>n\<close>-th call of a round succeeds is an argument, and a failed one changes nothing.
  The status report and the certificate reconcile that \<open>apply_state\<close> also starts are not part of it.
\<close>

subsection \<open>The local filter\<close>

definition name_to_id :: "network_status list \<Rightarrow> (string, net) hmap" where
  "name_to_id ns = fold (\<lambda>n m. tput (ns_name n) (ns_guild_id n, ns_role_id n) m) ns []"

definition filter_active ::
  "seed_peer list \<Rightarrow> net list \<Rightarrow> (u64, string) hmap \<Rightarrow> network_status list \<Rightarrow> seed_peer list" where
  "filter_active seeds disabled blocked networks_status =
     filter (\<lambda>s. sp_networks s = [] \<or>
         list_ex (\<lambda>n. case tget (name_to_id networks_status) (sh_name n) of
                        Some i \<Rightarrow> i \<notin> set disabled | None \<Rightarrow> True) (sp_networks s))
       (filter (\<lambda>s. tget blocked (sp_user_id s) = None) seeds)"

subsection \<open>The firewall's source sets\<close>

fun add_member :: "shared_network \<Rightarrow> u64 \<Rightarrow> u64 \<Rightarrow> ipv4 \<Rightarrow> net_info list \<Rightarrow> net_info list" where
  "add_member n g r ip [] =
     [\<lparr>ni_guild_id = g, ni_role_id = r, ni_guild = sh_community n, ni_name = sh_name n, ni_ips = [ip]\<rparr>]"
| "add_member n g r ip (e # es) =
     (if ni_guild_id e = g \<and> ni_role_id e = r then e\<lparr>ni_ips := ni_ips e @ [ip]\<rparr> # es
      else e # add_member n g r ip es)"

definition add_network :: "ipv4 \<Rightarrow> shared_network \<Rightarrow> net_info list \<Rightarrow> net_info list" where
  "add_network ip n nets =
     (case shared_network_id n of None \<Rightarrow> nets | Some (g, r) \<Rightarrow> add_member n g r ip nets)"

definition gather_nets :: "seed_peer list \<Rightarrow> net_info list" where
  "gather_nets seeds = fold (\<lambda>s nets. fold (add_network (sp_ip s)) (sp_networks s) nets) seeds []"

definition peer_sets_of :: "seed_peer list \<Rightarrow> u64 option \<Rightarrow> peer_sets" where
  "peer_sets_of seeds owner =
     \<lparr>pe_nets = map (\<lambda>n. n\<lparr>ni_ips := sort (ni_ips n)\<rparr>)
        (sort_key (\<lambda>n. [ni_guild_id n, ni_role_id n]) (gather_nets seeds)),
      pe_own_devices = sort (map sp_ip (filter (\<lambda>s. owner = Some (sp_user_id s)) seeds))\<rparr>"

subsection \<open>The backend and its peers\<close>

record wg =
  wg_peers :: "(key, peer_config) hmap"
  wg_link :: bool
  wg_routes :: "peer_config list"
  wg_calls :: nat

definition wg_call :: "(nat \<Rightarrow> bool) \<Rightarrow> (wg \<Rightarrow> wg) \<Rightarrow> wg \<Rightarrow> unit io \<times> wg" where
  "wg_call ok f w =
     (let w1 = w\<lparr>wg_calls := Suc (wg_calls w)\<rparr>
      in if ok (wg_calls w) then (Inr (), f w1) else (Inl (), w1))"

definition set_peer :: "(nat \<Rightarrow> bool) \<Rightarrow> peer_config \<Rightarrow> wg \<Rightarrow> unit io \<times> wg" where
  "set_peer ok p w = wg_call ok (\<lambda>w. w\<lparr>wg_peers := tput (pf_public_key p) p (wg_peers w)\<rparr>) w"

definition remove_peer :: "(nat \<Rightarrow> bool) \<Rightarrow> key \<Rightarrow> wg \<Rightarrow> unit io \<times> wg" where
  "remove_peer ok pk w = wg_call ok (\<lambda>w. w\<lparr>wg_peers := tdel pk (wg_peers w)\<rparr>) w"

definition set_link_up :: "(nat \<Rightarrow> bool) \<Rightarrow> bool \<Rightarrow> wg \<Rightarrow> unit io \<times> wg" where
  "set_link_up ok up w = wg_call ok (\<lambda>w. w\<lparr>wg_link := up\<rparr>) w"

definition configure_routing :: "(nat \<Rightarrow> bool) \<Rightarrow> peer_config list \<Rightarrow> wg \<Rightarrow> unit io \<times> wg" where
  "configure_routing ok ps w = wg_call ok (\<lambda>w. w\<lparr>wg_routes := ps\<rparr>) w"

record endpoints =
  ep_relay :: "(key, sockaddr) hmap"
  ep_ice :: "(key, sockaddr) hmap"
  ep_lan :: "(key, sockaddr) hmap"

text \<open>\<open>Option::or\<close>, and the endpoint of a seed by precedence.\<close>

definition orelse :: "'a option \<Rightarrow> 'a option \<Rightarrow> 'a option" where
  "orelse a b = (case a of Some x \<Rightarrow> Some x | None \<Rightarrow> b)"

definition seed_endpoint :: "endpoints \<Rightarrow> seed_peer \<Rightarrow> sockaddr option" where
  "seed_endpoint eps s =
     orelse (orelse (orelse (orelse (tget (ep_lan eps) (sp_pubkey s)) (sp_endpoint s)) (tget (ep_ice eps) (sp_pubkey s)))
       (tget (ep_relay eps) (sp_pubkey s))) (sp_punch s)"

type_synonym desire = "(ipv4 \<times> u8) list \<times> sockaddr option"

definition want_seed :: "endpoints \<Rightarrow> seed_peer \<Rightarrow> (key, desire) hmap \<Rightarrow> (key, desire) hmap" where
  "want_seed eps s d =
     (let ep = seed_endpoint eps s;
          (ips, e) = (case tget d (sp_pubkey s) of None \<Rightarrow> ([], ep) | Some x \<Rightarrow> x)
      in tput (sp_pubkey s) (ips @ [(sp_ip s, 32)], if e = None then ep else e) d)"

definition desired :: "endpoints \<Rightarrow> seed_peer list \<Rightarrow> (key, desire) hmap" where
  "desired eps seeds = fold (want_seed eps) seeds []"

definition config_of :: "key \<Rightarrow> desire \<Rightarrow> peer_config" where
  "config_of pk d =
     \<lparr>pf_public_key = pk, pf_allowed_ips = remdups_adj (sort_key (\<lambda>(ip, c). [ip, ucast c]) (fst d)),
      pf_endpoint = snd d, pf_keepalive = Some 25\<rparr>"

text \<open>The two loops of \<open>apply_seeds\<close>; each returns at the first call that fails.\<close>

type_synonym peer_table = "(key, peer_config) hmap"

fun prune_peers :: "(nat \<Rightarrow> bool) \<Rightarrow> key list \<Rightarrow> peer_table \<Rightarrow> wg \<Rightarrow> unit io \<times> peer_table \<times> wg" where
  "prune_peers ok [] peers w = (Inr (), peers, w)"
| "prune_peers ok (pk # pks) peers w =
     (case remove_peer ok pk w of
        (Inl e, w1) \<Rightarrow> (Inl e, peers, w1)
      | (Inr _, w1) \<Rightarrow> prune_peers ok pks (tdel pk peers) w1)"

definition put_peer :: "(nat \<Rightarrow> bool) \<Rightarrow> peer_config \<Rightarrow> bool \<Rightarrow> wg \<Rightarrow> unit io \<times> wg" where
  "put_peer ok p replace w =
     (if replace
      then case remove_peer ok (pf_public_key p) w of (Inl e, w1) \<Rightarrow> (Inl e, w1) | (Inr _, w1) \<Rightarrow> set_peer ok p w1
      else set_peer ok p w)"

fun install_peers ::
  "(nat \<Rightarrow> bool) \<Rightarrow> (key, desire) hmap \<Rightarrow> bool \<Rightarrow> peer_table \<Rightarrow> wg \<Rightarrow> bool io \<times> peer_table \<times> wg" where
  "install_peers ok [] changed peers w = (Inr changed, peers, w)"
| "install_peers ok ((pk, d) # ds) changed peers w =
     (let p = config_of pk d; old = tget peers pk
      in if (case old of Some e \<Rightarrow> pf_allowed_ips e \<noteq> pf_allowed_ips p \<or> pf_endpoint e \<noteq> pf_endpoint p | None \<Rightarrow> True)
         then case put_peer ok p (old \<noteq> None) w of
                (Inl e, w1) \<Rightarrow> (Inl e, peers, w1)
              | (Inr _, w1) \<Rightarrow> install_peers ok ds True (tput pk p peers) w1
         else install_peers ok ds changed peers w)"

definition apply_seeds ::
  "(nat \<Rightarrow> bool) \<Rightarrow> seed_peer list \<Rightarrow> endpoints \<Rightarrow> peer_table \<Rightarrow> wg \<Rightarrow> bool io \<times> peer_table \<times> wg" where
  "apply_seeds ok seeds eps peers w =
     (let want = desired eps seeds; gone = filter (\<lambda>pk. tget want pk = None) (tkeys peers)
      in case prune_peers ok gone peers w of
           (Inl e, peers1, w1) \<Rightarrow> (Inl e, peers1, w1)
         | (Inr _, peers1, w1) \<Rightarrow>
             (case install_peers ok want (gone \<noteq> []) peers1 w1 of
                (Inl e, peers2, w2) \<Rightarrow> (Inl e, peers2, w2)
              | (Inr changed, peers2, w2) \<Rightarrow>
                  (Inr changed, peers2, if changed then snd (configure_routing ok (map snd peers2) w2) else w2)))"

subsection \<open>\<open>apply_state\<close>\<close>

record mesh =
  me_localnet :: local_net
  me_fw :: "firewall option"
  me_zone :: zone_data
  me_book :: service_book
  me_wg :: wg
  me_peers :: peer_table

record mesh_io =
  mi_ok :: "nat \<Rightarrow> bool"
  mi_fw :: fw_io
  mi_known :: wrote
  mi_optout :: wrote

definition present_networks :: "self_device \<Rightarrow> net list" where
  "present_networks d = map (\<lambda>n. (ns_guild_id n, ns_role_id n)) (se_networks_status d)"

definition fold_in_new :: "mesh_io \<Rightarrow> self_device option \<Rightarrow> local_net \<Rightarrow> local_net" where
  "fold_in_new io dev ln =
     (case dev of None \<Rightarrow> ln | Some d \<Rightarrow> fst (reconcile_new (mi_known io) (mi_optout io) (present_networks d) ln))"

definition active_seeds :: "local_net \<Rightarrow> self_device option \<Rightarrow> seed_peer list \<Rightarrow> seed_peer list" where
  "active_seeds ln dev seeds =
     (case dev of
        None \<Rightarrow> []
      | Some d \<Rightarrow> if ln_paused ln then []
                  else filter_active seeds (snapshot_optout ln) (blocked_snapshot ln) (se_networks_status d))"

definition name_peers :: "key \<Rightarrow> self_device option \<Rightarrow> seed_peer list \<Rightarrow> mesh \<Rightarrow> mesh" where
  "name_peers my_pubkey dev active m =
     (case dev of
        None \<Rightarrow> m
      | Some d \<Rightarrow>
          let book = retain_peers (map sp_pubkey active) (me_book m);
              rv = resolve_services (me_fw m) my_pubkey book d active
          in m\<lparr>me_book := book, me_zone := snd (zone_update d active (rv_names rv) (me_zone m))\<rparr>)"

definition push_sets :: "fw_io \<Rightarrow> peer_sets \<Rightarrow> mesh \<Rightarrow> unit io \<times> mesh" where
  "push_sets io ps m =
     (case me_fw m of
        None \<Rightarrow> (Inr (), m)
      | Some fw \<Rightarrow>
          (case update_peers io ps fw of
             (Inl e, fw1) \<Rightarrow> (Inl (), m\<lparr>me_fw := Some fw1\<rparr>)
           | (Inr _, fw1) \<Rightarrow> (Inr (), m\<lparr>me_fw := Some fw1\<rparr>)))"

definition apply_state ::
  "mesh_io \<Rightarrow> key \<Rightarrow> self_device option \<Rightarrow> seed_peer list \<Rightarrow> endpoints \<Rightarrow> mesh \<Rightarrow> unit io \<times> mesh" where
  "apply_state io my_pubkey dev seeds eps m =
     (let ln = fold_in_new io dev (me_localnet m)
      in case set_link_up (mi_ok io) (\<not> ln_paused ln) (me_wg m) of
           (Inl e, w1) \<Rightarrow> (Inl e, m\<lparr>me_localnet := ln, me_wg := w1\<rparr>)
         | (Inr _, w1) \<Rightarrow>
             (let active = active_seeds ln dev seeds
              in case push_sets (mi_fw io) (peer_sets_of active (map_option se_user_id dev))
                     (name_peers my_pubkey dev active (m\<lparr>me_localnet := ln, me_wg := w1\<rparr>)) of
                   (Inl e, m2) \<Rightarrow> (Inl e, m2)
                 | (Inr _, m2) \<Rightarrow>
                     (case apply_seeds (mi_ok io) active eps (me_peers m2) (me_wg m2) of
                        (Inl e, peers, w2) \<Rightarrow> (Inl e, m2\<lparr>me_peers := peers, me_wg := w2\<rparr>)
                      | (Inr _, peers, w2) \<Rightarrow> (Inr (), m2\<lparr>me_peers := peers, me_wg := w2\<rparr>))))"

subsection \<open>The ticks of the loop\<close>

text \<open>
  Peer-direct refresh: \<open>pull\<close> is what asking a peer returned (\<open>None\<close> when it did not answer), for each
  seed near its expiry; seeds whose attestation has lapsed are dropped, and the rest applied again if any was.
\<close>

definition pull_seed ::
  "cenv \<Rightarrow> pins \<Rightarrow> u64 \<Rightarrow> (key \<Rightarrow> guild_attestation list option) \<Rightarrow> seed_peer \<Rightarrow> seed_peer" where
  "pull_seed cv pins now pull s =
     (if now + P2P_REFRESH_MARGIN < sp_expires_at s then s
      else case pull (sp_pubkey s) of
             None \<Rightarrow> s
           | Some blobs \<Rightarrow>
               (case verify_pulled cv blobs (sp_pubkey s) (sp_expires_at s) pins now of
                  None \<Rightarrow> s | Some att \<Rightarrow> apply_pulled att s))"

definition gossip_tick ::
  "cenv \<Rightarrow> pins \<Rightarrow> u64 \<Rightarrow> (key \<Rightarrow> guild_attestation list option) \<Rightarrow> mesh_io \<Rightarrow> key \<Rightarrow> self_device option \<Rightarrow>
   endpoints \<Rightarrow> seed_peer list \<Rightarrow> mesh \<Rightarrow> unit io \<times> seed_peer list \<times> mesh" where
  "gossip_tick cv pins now pull io my_pubkey dev eps seeds m =
     (let pulled = map (pull_seed cv pins now pull) seeds;
          kept = filter (\<lambda>s. now < sp_expires_at s) pulled
      in if length kept = length pulled then (Inr (), kept, m)
         else case apply_state io my_pubkey dev kept eps m of (r, m1) \<Rightarrow> (r, kept, m1))"

text \<open>The names tick: ask the peers that are due what they serve, then rebuild the zone over the seeds held.\<close>

definition ask_services ::
  "nat \<Rightarrow> (key \<Rightarrow> mesh_service list option) \<Rightarrow> seed_peer \<Rightarrow> service_book \<Rightarrow> service_book" where
  "ask_services now pull s book =
     (if \<not> is_due (sp_pubkey s) now book then book
      else case pull (sp_pubkey s) of None \<Rightarrow> book | Some svcs \<Rightarrow> snd (book_set (sp_pubkey s) svcs now book))"

definition names_tick ::
  "nat \<Rightarrow> (key \<Rightarrow> mesh_service list option) \<Rightarrow> key \<Rightarrow> self_device option \<Rightarrow> seed_peer list \<Rightarrow> mesh \<Rightarrow> mesh" where
  "names_tick now pull my_pubkey dev seeds m =
     (let book = fold (ask_services now pull) seeds (me_book m)
      in case dev of
           None \<Rightarrow> m\<lparr>me_book := book\<rparr>
         | Some d \<Rightarrow> m\<lparr>me_book := book,
             me_zone := snd (zone_update d seeds (rv_names (resolve_services (me_fw m) my_pubkey book d seeds)) (me_zone m))\<rparr>)"

text \<open>Logging out drops the peers: the interface goes down and the firewall's sets are emptied (failures are logged).\<close>

definition logout_mesh :: "mesh_io \<Rightarrow> mesh \<Rightarrow> mesh" where
  "logout_mesh io m =
     (let w = snd (wg_call (mi_ok io) (\<lambda>w. w\<lparr>wg_peers := [], wg_link := False\<rparr>) (me_wg m))
      in snd (push_sets (mi_fw io) \<lparr>pe_nets = [], pe_own_devices = []\<rparr> (m\<lparr>me_wg := w\<rparr>)))"

subsection \<open>The peers installed are the peers wanted\<close>

definition seeds_of :: "key \<Rightarrow> seed_peer list \<Rightarrow> seed_peer list" where
  "seeds_of pk seeds = filter (\<lambda>s. sp_pubkey s = pk) seeds"

fun first_some :: "'a option list \<Rightarrow> 'a option" where
  "first_some [] = None"
| "first_some (x # xs) = orelse x (first_some xs)"

definition wanted_peer :: "endpoints \<Rightarrow> seed_peer list \<Rightarrow> key \<Rightarrow> peer_config option" where
  "wanted_peer eps seeds pk =
     (if seeds_of pk seeds = [] then None
      else Some (config_of pk (map (\<lambda>s. (sp_ip s, 32)) (seeds_of pk seeds),
             first_some (map (seed_endpoint eps) (seeds_of pk seeds)))))"

lemma orelse_simps [simp]: "orelse None b = b" "orelse (Some x) b = Some x" "orelse a None = a"
  by (simp_all add: orelse_def split: option.split)

lemma first_some_append: "first_some (xs @ ys) = orelse (first_some xs) (first_some ys)"
  by (induction xs) (simp_all add: orelse_def split: option.split)

lemma want_seed_get:
  "tget (want_seed eps s d) pk =
     (if pk = sp_pubkey s
      then Some (case tget d pk of None \<Rightarrow> ([(sp_ip s, 32)], seed_endpoint eps s)
             | Some (ips, e) \<Rightarrow> (ips @ [(sp_ip s, 32)], orelse e (seed_endpoint eps s)))
      else tget d pk)"
  by (auto simp: want_seed_def Let_def orelse_def split: option.split prod.split)

lemma tok_desired: "tok (desired eps seeds)"
proof -
  have "tok d \<Longrightarrow> tok (fold (want_seed eps) seeds d)" for d
    by (induction seeds arbitrary: d) (auto simp: want_seed_def Let_def split: prod.split)
  then show ?thesis by (simp add: desired_def tok_def)
qed

lemma desired_get:
  "tget (desired eps seeds) pk =
     (if seeds_of pk seeds = [] then None
      else Some (map (\<lambda>s. (sp_ip s, 32)) (seeds_of pk seeds), first_some (map (seed_endpoint eps) (seeds_of pk seeds))))"
proof (induction seeds rule: rev_induct)
  case (snoc s seeds)
  have step: "desired eps (seeds @ [s]) = want_seed eps s (desired eps seeds)" by (simp add: desired_def)
  show ?case using snoc.IH
    by (auto simp: step want_seed_get seeds_of_def first_some_append split: if_splits)
qed (simp add: desired_def seeds_of_def)

lemma wanted_desired: "wanted_peer eps seeds pk = map_option (config_of pk) (tget (desired eps seeds) pk)"
  by (simp add: wanted_peer_def desired_get)

definition table_ok :: "peer_table \<Rightarrow> bool" where
  "table_ok peers \<longleftrightarrow> tok peers \<and>
     (\<forall>pk p. tget peers pk = Some p \<longrightarrow> pf_public_key p = pk \<and> pf_keepalive p = Some 25)"

definition installed_as :: "peer_table \<Rightarrow> wg \<Rightarrow> bool" where
  "installed_as peers w \<longleftrightarrow> (\<forall>pk. tget (wg_peers w) pk = tget peers pk)"

lemma table_ok_tdel: "table_ok peers \<Longrightarrow> table_ok (tdel pk peers)"
  by (auto simp: table_ok_def split: if_splits)

lemma table_ok_tput: "table_ok peers \<Longrightarrow> table_ok (tput pk (config_of pk d) peers)"
  by (auto simp: table_ok_def config_of_def split: if_splits)

lemma remove_peer_Inr:
  "remove_peer ok pk w = (Inr u, w') \<Longrightarrow> wg_peers w' = tdel pk (wg_peers w) \<and> wg_link w' = wg_link w"
  by (auto simp: remove_peer_def wg_call_def Let_def split: if_splits)

lemma put_peer_Inr:
  "put_peer ok p b w = (Inr u, w') \<Longrightarrow>
   (\<forall>j. tget (wg_peers w') j = (if j = pf_public_key p then Some p else tget (wg_peers w) j)) \<and> wg_link w' = wg_link w"
  by (auto simp: put_peer_def set_peer_def remove_peer_def wg_call_def Let_def split: if_splits)

lemma prune_peers_Inr:
  assumes "prune_peers ok pks peers w = (Inr u, peers', w')" "installed_as peers w" "table_ok peers"
  shows "installed_as peers' w' \<and> table_ok peers' \<and> wg_link w' = wg_link w \<and>
    (\<forall>pk. tget peers' pk = (if pk \<in> set pks then None else tget peers pk))"
  using assms
proof (induction pks arbitrary: peers w)
  case (Cons pk pks)
  obtain r w1 where r: "remove_peer ok pk w = (r, w1)" by fastforce
  with Cons.prems(1) have "r = Inr ()" by (cases r) auto
  note r = r [unfolded this]
  have "installed_as (tdel pk peers) w1"
    using Cons.prems(2) remove_peer_Inr [OF r] by (simp add: installed_as_def)
  with Cons.IH [of "tdel pk peers" w1] Cons.prems(1,3) r remove_peer_Inr [OF r] table_ok_tdel
  show ?case by simp
qed simp

lemma same_config:
  assumes "table_ok peers" "tget peers pk = Some e"
    "pf_allowed_ips e = pf_allowed_ips (config_of pk d)" "pf_endpoint e = pf_endpoint (config_of pk d)"
  shows "e = config_of pk d"
  using assms by (auto simp: table_ok_def config_of_def)

lemma install_peers_Inr:
  assumes "install_peers ok ds changed peers w = (Inr changed', peers', w')" "installed_as peers w" "table_ok peers"
    "distinct (map fst ds)"
  shows "installed_as peers' w' \<and> table_ok peers' \<and> wg_link w' = wg_link w \<and>
    (\<forall>pk. tget peers' pk = (case map_of ds pk of None \<Rightarrow> tget peers pk | Some d \<Rightarrow> Some (config_of pk d))) \<and>
    (changed' \<longleftrightarrow> changed \<or> (\<exists>pk. tget peers' pk \<noteq> tget peers pk))"
  using assms
proof (induction ds arbitrary: changed peers w)
  case (Cons x ds)
  obtain pk d where x: "x = (pk, d)" by (cases x)
  let ?p = "config_of pk d"
  have fresh: "map_of ds pk = None" using Cons.prems(4) by (auto simp: x map_of_eq_None_iff)
  have dist: "distinct (map fst ds)" using Cons.prems(4) by simp
  show ?case
  proof (cases "case tget peers pk of Some e \<Rightarrow> pf_allowed_ips e \<noteq> pf_allowed_ips ?p \<or> pf_endpoint e \<noteq> pf_endpoint ?p | None \<Rightarrow> True")
    case True
    obtain r w1 where r: "put_peer ok ?p (tget peers pk \<noteq> None) w = (r, w1)" by fastforce
    with Cons.prems(1) True have "r = Inr ()" by (cases r) (auto simp: x Let_def)
    note r = r [unfolded this]
    have inst: "installed_as (tput pk ?p peers) w1"
      using Cons.prems(2) put_peer_Inr [OF r] by (simp add: installed_as_def config_of_def)
    have go: "install_peers ok ds True (tput pk ?p peers) w1 = (Inr changed', peers', w')"
      using Cons.prems(1) True r by (simp add: x Let_def)
    from Cons.IH [OF go inst table_ok_tput [OF Cons.prems(3)] dist]
    have IH: "installed_as peers' w'" "table_ok peers'" "wg_link w' = wg_link w1" "changed'"
      "\<And>j. tget peers' j = (case map_of ds j of None \<Rightarrow> tget (tput pk ?p peers) j | Some d \<Rightarrow> Some (config_of j d))" by auto
    have "tget peers' pk = Some ?p" using IH(5) [of pk] fresh by simp
    moreover have "tget peers pk \<noteq> Some ?p" using True by auto
    ultimately have "\<exists>j. tget peers' j \<noteq> tget peers j" by metis
    moreover have "tget peers' j = (case map_of (x # ds) j of None \<Rightarrow> tget peers j | Some d \<Rightarrow> Some (config_of j d))" for j
      using IH(5) [of j] fresh by (simp add: x split: option.splits)
    ultimately show ?thesis using IH(1-4) put_peer_Inr [OF r] by simp
  next
    case False
    then obtain e where e: "tget peers pk = Some e" "e = ?p"
      using same_config [OF Cons.prems(3)] by (auto split: option.splits)
    have "install_peers ok ds changed peers w = (Inr changed', peers', w')"
      using Cons.prems(1) False by (simp add: x Let_def)
    from Cons.IH [OF this Cons.prems(2,3) dist] show ?thesis
      using e fresh by (auto simp: x split: option.splits)
  qed
qed simp

lemma apply_seeds_Inr:
  assumes "apply_seeds ok seeds eps peers w = (Inr changed, peers', w')" "installed_as peers w" "table_ok peers"
  shows "installed_as peers' w' \<and> table_ok peers' \<and> wg_link w' = wg_link w \<and>
    (\<forall>pk. tget peers' pk = wanted_peer eps seeds pk) \<and> (changed \<longleftrightarrow> (\<exists>pk. tget peers' pk \<noteq> tget peers pk))"
proof -
  let ?want = "desired eps seeds"
  let ?gone = "filter (\<lambda>pk. tget ?want pk = None) (tkeys peers)"
  obtain r1 p1 w1 where 1: "prune_peers ok ?gone peers w = (r1, p1, w1)" by (metis prod_cases3)
  with assms(1) have "r1 = Inr ()" by (cases r1) (auto simp: apply_seeds_def Let_def)
  note 1 = 1 [unfolded this]
  obtain r2 p2 w2 where 2: "install_peers ok ?want (?gone \<noteq> []) p1 w1 = (r2, p2, w2)" by (metis prod_cases3)
  with assms(1) 1 have r2: "r2 = Inr changed" "p2 = peers'"
      "w' = (if changed then snd (configure_routing ok (map snd p2) w2) else w2)"
    by (cases r2; auto simp: apply_seeds_def Let_def)+
  note 2 = 2 [unfolded r2(1,2)]
  note P1 = prune_peers_Inr [OF 1 assms(2,3)]
  have dist: "distinct (map fst ?want)" using tok_desired [of eps seeds] by (simp add: tok_def)
  note P2 = install_peers_Inr [OF 2 conjunct1 [OF P1] conjunct1 [OF conjunct2 [OF P1]] dist]
  have mem: "pk \<in> set ?gone \<longleftrightarrow> tget peers pk \<noteq> None \<and> tget ?want pk = None" for pk
    by (auto simp: set_tkeys)
  have route: "wg_peers w' = wg_peers w2" "wg_link w' = wg_link w2"
    using r2(3) by (simp_all add: configure_routing_def wg_call_def Let_def)
  have p1: "tget p1 pk = (if tget ?want pk = None then None else tget peers pk)" for pk
    using P1 mem [of pk] by (cases "tget peers pk") auto
  have p2: "tget peers' pk = wanted_peer eps seeds pk" for pk
    using P2 p1 [of pk] by (simp add: wanted_desired tget_def split: option.splits)
  have "(?gone \<noteq> [] \<or> (\<exists>pk. tget peers' pk \<noteq> tget p1 pk)) \<longleftrightarrow> (\<exists>pk. tget peers' pk \<noteq> tget peers pk)"
  proof
    assume "?gone \<noteq> [] \<or> (\<exists>pk. tget peers' pk \<noteq> tget p1 pk)"
    then show "\<exists>pk. tget peers' pk \<noteq> tget peers pk"
    proof
      assume "?gone \<noteq> []"
      then obtain pk where "pk \<in> set ?gone" by (metis list.set_sel(1))
      with mem p2 [of pk] show ?thesis by (intro exI [of _ pk]) (auto simp: wanted_desired)
    next
      assume "\<exists>pk. tget peers' pk \<noteq> tget p1 pk"
      then obtain pk where "tget peers' pk \<noteq> tget p1 pk" ..
      with p1 [of pk] p2 [of pk] show ?thesis by (intro exI [of _ pk]) (auto simp: wanted_desired split: if_splits)
    qed
  next
    assume "\<exists>pk. tget peers' pk \<noteq> tget peers pk"
    then obtain pk where "tget peers' pk \<noteq> tget peers pk" ..
    then consider "pk \<in> set ?gone" | "tget peers' pk \<noteq> tget p1 pk"
      using p1 [of pk] p2 [of pk] mem [of pk] by (cases "tget ?want pk") (auto simp: wanted_desired)
    then show "?gone \<noteq> [] \<or> (\<exists>pk. tget peers' pk \<noteq> tget p1 pk)" by (cases; fastforce)
  qed
  then show ?thesis using P1 P2 p2 route by (simp add: installed_as_def)
qed

subsection \<open>Whom a scope admits\<close>

definition net_id :: "net_info \<Rightarrow> u64 \<times> u64" where
  "net_id e = (ni_guild_id e, ni_role_id e)"

definition member_at :: "net_info list \<Rightarrow> u64 \<Rightarrow> u64 \<Rightarrow> ipv4 \<Rightarrow> bool" where
  "member_at nets g r ip \<longleftrightarrow> (\<exists>e\<in>set nets. net_id e = (g, r) \<and> ip \<in> set (ni_ips e))"

definition lists_net :: "seed_peer \<Rightarrow> u64 \<Rightarrow> u64 \<Rightarrow> bool" where
  "lists_net s g r \<longleftrightarrow> (\<exists>n\<in>set (sp_networks s). shared_network_id n = Some (g, r))"

lemma add_member_ids: "net_id ` set (add_member n g r ip nets) = insert (g, r) (net_id ` set nets)"
  by (induction nets) (auto simp: net_id_def)

lemma add_member_distinct: "distinct (map net_id nets) \<Longrightarrow> distinct (map net_id (add_member n g r ip nets))"
proof (induction nets)
  case (Cons e es)
  then show ?case
    using add_member_ids [of n g r ip es] by (auto simp: net_id_def)
qed (simp add: net_id_def)

lemma add_member_at: "member_at (add_member n g r ip nets) g' r' ip' \<longleftrightarrow> member_at nets g' r' ip' \<or> (g', r', ip') = (g, r, ip)"
  by (induction nets) (auto simp: member_at_def net_id_def)

lemma add_networks:
  "distinct (map net_id nets) \<Longrightarrow> distinct (map net_id (fold (add_network ip) ns nets)) \<and>
   (member_at (fold (add_network ip) ns nets) g r ip' \<longleftrightarrow>
      member_at nets g r ip' \<or> ip' = ip \<and> (\<exists>n\<in>set ns. shared_network_id n = Some (g, r)))"
proof (induction ns arbitrary: nets)
  case (Cons n ns)
  show ?case
  proof (cases "shared_network_id n")
    case None
    then show ?thesis using Cons by (simp add: add_network_def)
  next
    case (Some i)
    obtain g0 r0 where i: "i = (g0, r0)" by (cases i)
    have step: "add_network ip n nets = add_member n g0 r0 ip nets" using Some by (simp add: add_network_def i)
    show ?thesis
      using Cons.IH [OF add_member_distinct [OF Cons.prems], of n g0 r0 ip] Some
      by (auto simp: step add_member_at i)
  qed
qed simp

lemma gather_nets:
  "distinct (map net_id (gather_nets seeds)) \<and>
   (member_at (gather_nets seeds) g r ip \<longleftrightarrow> (\<exists>s\<in>set seeds. sp_ip s = ip \<and> lists_net s g r))"
proof -
  have "distinct (map net_id nets) \<Longrightarrow>
      distinct (map net_id (fold (\<lambda>s nets. fold (add_network (sp_ip s)) (sp_networks s) nets) seeds nets)) \<and>
      (member_at (fold (\<lambda>s nets. fold (add_network (sp_ip s)) (sp_networks s) nets) seeds nets) g r ip \<longleftrightarrow>
        member_at nets g r ip \<or> (\<exists>s\<in>set seeds. sp_ip s = ip \<and> lists_net s g r))" for nets
  proof (induction seeds arbitrary: nets)
    case (Cons s seeds)
    note step = add_networks [OF Cons.prems, of "sp_ip s" "sp_networks s" g r ip]
    show ?case using Cons.IH [OF conjunct1 [OF step]] step by (auto simp: lists_net_def)
  qed simp
  from this [of "[]"] show ?thesis by (simp add: gather_nets_def member_at_def)
qed

lemma find_net_member:
  assumes "distinct (map net_id (pe_nets ps))"
  shows "(case find_net g r ps of None \<Rightarrow> False | Some n \<Rightarrow> ip \<in> set (ni_ips n)) \<longleftrightarrow> member_at (pe_nets ps) g r ip"
proof -
  have "distinct (map net_id es) \<Longrightarrow>
      (case List.find (\<lambda>n. ni_guild_id n = g \<and> ni_role_id n = r) es of None \<Rightarrow> False | Some n \<Rightarrow> ip \<in> set (ni_ips n)) \<longleftrightarrow>
      member_at es g r ip" for es
    by (induction es) (auto simp: member_at_def net_id_def)
  then show ?thesis using assms by (simp add: find_net_def)
qed

text \<open>The scope read off the seeds: anyone, a device of ours, or a member listed in that very network.\<close>

definition scope_admits :: "u64 option \<Rightarrow> seed_peer list \<Rightarrow> expose_scope \<Rightarrow> ipv4 \<Rightarrow> bool" where
  "scope_admits owner active scope ip =
     (case scope of
        AllPeers \<Rightarrow> True
      | OwnDevices \<Rightarrow> (\<exists>s\<in>set active. sp_ip s = ip \<and> owner = Some (sp_user_id s))
      | Net g r \<Rightarrow> (\<exists>s\<in>set active. sp_ip s = ip \<and> lists_net s g r)
      | Unresolved _ _ \<Rightarrow> admits (peer_sets_of active owner) scope ip)"

lemma admits_peer_sets: "admits (peer_sets_of active owner) scope ip \<longleftrightarrow> scope_admits owner active scope ip"
proof (cases scope)
  case (Net g r)
  let ?ps = "peer_sets_of active owner"
  have ids: "map net_id (pe_nets ?ps) = map net_id (sort_key (\<lambda>n. [ni_guild_id n, ni_role_id n]) (gather_nets active))"
    by (simp add: peer_sets_of_def net_id_def)
  have "distinct (map net_id (pe_nets ?ps))"
    using gather_nets [of active] unfolding ids by (auto simp: distinct_map)
  moreover have "member_at (pe_nets ?ps) g r ip \<longleftrightarrow> member_at (gather_nets active) g r ip"
    by (auto simp: member_at_def peer_sets_of_def net_id_def)
  ultimately show ?thesis
    using find_net_member [of ?ps ip g r] gather_nets [of active g r ip]
    by (auto simp: admits_def sources_def Net scope_admits_def split: option.splits)
qed (auto simp: admits_def sources_def scope_admits_def peer_sets_of_def)

subsection \<open>What \<open>apply_state\<close> leaves\<close>

definition mesh_ok :: "mesh \<Rightarrow> bool" where
  "mesh_ok m \<longleftrightarrow> installed_as (me_peers m) (me_wg m) \<and> table_ok (me_peers m) \<and>
     (case me_fw m of None \<Rightarrow> True | Some fw \<Rightarrow> synced fw)"

lemma set_link_up_Inr:
  "set_link_up ok up w = (Inr u, w') \<Longrightarrow> wg_peers w' = wg_peers w \<and> wg_link w' = up"
  by (auto simp: set_link_up_def wg_call_def Let_def split: if_splits)

lemma update_peers_Inr:
  "update_peers io ps fw = (Inr c, fw') \<Longrightarrow> synced fw \<Longrightarrow>
   synced fw' \<and> fw_peers fw' = ps \<and> fw_exposed fw' = fw_exposed fw \<and> fw_iface fw' = fw_iface fw \<and>
   fw_mesh_addr fw' = fw_mesh_addr fw"
  by (auto simp: update_peers_def reconcile_def synced_def split: if_splits)

lemma push_sets_Inr:
  assumes "push_sets io ps m = (Inr u, m')" "mesh_ok m"
  shows "mesh_ok m' \<and> me_localnet m' = me_localnet m \<and> me_wg m' = me_wg m \<and> me_peers m' = me_peers m \<and>
    (case me_fw m of None \<Rightarrow> me_fw m' = None
     | Some fw \<Rightarrow> \<exists>fw'. me_fw m' = Some fw' \<and> fw_peers fw' = ps \<and> fw_exposed fw' = fw_exposed fw \<and>
         fw_iface fw' = fw_iface fw \<and> fw_mesh_addr fw' = fw_mesh_addr fw)"
proof (cases "me_fw m")
  case None
  then show ?thesis using assms by (simp add: push_sets_def)
next
  case (Some fw)
  obtain r fw' where up: "update_peers io ps fw = (r, fw')" by fastforce
  with assms(1) Some obtain c where r: "r = Inr c" "m' = m\<lparr>me_fw := Some fw'\<rparr>"
    by (cases r) (auto simp: push_sets_def)
  have "synced fw" using assms(2) Some by (simp add: mesh_ok_def)
  from update_peers_Inr [OF up [unfolded r(1)] this] show ?thesis
    using assms(2) Some by (simp add: r(2) mesh_ok_def)
qed

lemma name_peers_keeps:
  "me_localnet (name_peers pk dev active m) = me_localnet m" "me_fw (name_peers pk dev active m) = me_fw m"
  "me_wg (name_peers pk dev active m) = me_wg m" "me_peers (name_peers pk dev active m) = me_peers m"
  by (simp_all add: name_peers_def Let_def split: option.split)

definition active_now :: "mesh \<Rightarrow> self_device option \<Rightarrow> seed_peer list \<Rightarrow> seed_peer list" where
  "active_now m dev seeds = active_seeds (me_localnet m) dev seeds"

lemma apply_state_Inr:
  assumes "apply_state io my_pubkey dev seeds eps m = (Inr u, m')" "mesh_ok m"
  shows "mesh_ok m' \<and> me_localnet m' = fold_in_new io dev (me_localnet m) \<and>
    wg_link (me_wg m') = (\<not> ln_paused (me_localnet m')) \<and>
    (\<forall>pk. tget (wg_peers (me_wg m')) pk = wanted_peer eps (active_now m' dev seeds) pk) \<and>
    (case me_fw m of None \<Rightarrow> me_fw m' = None
     | Some fw \<Rightarrow> \<exists>fw'. me_fw m' = Some fw' \<and>
         fw_peers fw' = peer_sets_of (active_now m' dev seeds) (map_option se_user_id dev) \<and>
         fw_exposed fw' = fw_exposed fw \<and> fw_iface fw' = fw_iface fw \<and> fw_mesh_addr fw' = fw_mesh_addr fw)"
proof -
  let ?ln = "fold_in_new io dev (me_localnet m)"
  let ?active = "active_seeds ?ln dev seeds"
  obtain r1 w1 where 1: "set_link_up (mi_ok io) (\<not> ln_paused ?ln) (me_wg m) = (r1, w1)" by fastforce
  with assms(1) have "r1 = Inr ()" by (cases r1) (auto simp: apply_state_def Let_def)
  note 1 = 1 [unfolded this]
  let ?m1 = "name_peers my_pubkey dev ?active (m\<lparr>me_localnet := ?ln, me_wg := w1\<rparr>)"
  obtain r2 m2 where 2: "push_sets (mi_fw io) (peer_sets_of ?active (map_option se_user_id dev)) ?m1 = (r2, m2)" by fastforce
  with assms(1) 1 have "r2 = Inr ()" by (cases r2) (auto simp: apply_state_def Let_def)
  note 2 = 2 [unfolded this]
  obtain r3 peers w2 where 3: "apply_seeds (mi_ok io) ?active eps (me_peers m2) (me_wg m2) = (r3, peers, w2)" by (metis prod_cases3)
  with assms(1) 1 2 obtain c where r3: "r3 = Inr c" and m': "m' = m2\<lparr>me_peers := peers, me_wg := w2\<rparr>"
    by (cases r3) (auto simp: apply_state_def Let_def)
  have ok1: "mesh_ok ?m1"
    using assms(2) set_link_up_Inr [OF 1] by (simp add: mesh_ok_def name_peers_keeps installed_as_def)
  note P2 = push_sets_Inr [OF 2 ok1]
  have inst: "installed_as (me_peers m2) (me_wg m2)" "table_ok (me_peers m2)" using P2 by (auto simp: mesh_ok_def)
  note P3 = apply_seeds_Inr [OF 3 [unfolded r3] inst]
  have ln: "me_localnet m' = ?ln" using P2 by (simp add: m' name_peers_keeps)
  have link: "wg_link (me_wg m') = (\<not> ln_paused ?ln)"
    using P2 P3 set_link_up_Inr [OF 1] by (simp add: m' name_peers_keeps)
  show ?thesis unfolding active_now_def ln
    using P2 P3 link by (auto simp: m' mesh_ok_def name_peers_keeps installed_as_def split: option.splits)
qed

text \<open>With a host whose calls succeed it succeeds.\<close>

lemma prune_peers_succeeds: "\<forall>n. ok n \<Longrightarrow> \<exists>peers' w'. prune_peers ok pks peers w = (Inr (), peers', w')"
  by (induction pks arbitrary: peers w) (simp_all add: remove_peer_def wg_call_def Let_def)

lemma install_peers_succeeds: "\<forall>n. ok n \<Longrightarrow> \<exists>c peers' w'. install_peers ok ds changed peers w = (Inr c, peers', w')"
proof (induction ds arbitrary: changed peers w)
  case (Cons x ds)
  have put: "\<exists>w'. put_peer ok p b w = (Inr (), w')" for p b w
    using Cons.prems by (simp add: put_peer_def set_peer_def remove_peer_def wg_call_def Let_def)
  obtain pk d where x: "x = (pk, d)" by (cases x)
  obtain w1 where "put_peer ok (config_of pk d) (tget peers pk \<noteq> None) w = (Inr (), w1)" using put by blast
  then show ?case
    using Cons.IH [OF Cons.prems, of changed peers w] Cons.IH [OF Cons.prems, of True "tput pk (config_of pk d) peers" w1]
    by (simp add: x Let_def)
qed simp

lemma apply_state_succeeds:
  assumes "\<forall>n. mi_ok io n" "io_ok (mi_fw io)"
  shows "fst (apply_state io my_pubkey dev seeds eps m) = Inr ()"
proof -
  have seeds: "\<exists>c peers' w'. apply_seeds (mi_ok io) ss eps ps w = (Inr c, peers', w')" for ss ps w
  proof -
    obtain p1 w1 where "prune_peers (mi_ok io) (filter (\<lambda>pk. tget (desired eps ss) pk = None) (tkeys ps)) ps w = (Inr (), p1, w1)"
      using prune_peers_succeeds [OF assms(1)] by blast
    moreover obtain c p2 w2 where "install_peers (mi_ok io) (desired eps ss)
        (filter (\<lambda>pk. tget (desired eps ss) pk = None) (tkeys ps) \<noteq> []) p1 w1 = (Inr c, p2, w2)"
      using install_peers_succeeds [OF assms(1)] by blast
    ultimately show ?thesis by (simp add: apply_seeds_def Let_def)
  qed
  have push: "\<exists>m'. push_sets (mi_fw io) ps m = (Inr (), m')" for ps m
    using assms(2) by (simp add: push_sets_def update_peers_def reconcile_def io_ok_def split: option.split)
  obtain w1 where 1: "set_link_up (mi_ok io) (\<not> ln_paused (fold_in_new io dev (me_localnet m))) (me_wg m) = (Inr (), w1)"
    using assms(1) by (simp add: set_link_up_def wg_call_def Let_def)
  let ?active = "active_seeds (fold_in_new io dev (me_localnet m)) dev seeds"
  obtain m2 where 2: "push_sets (mi_fw io) (peer_sets_of ?active (map_option se_user_id dev))
      (name_peers my_pubkey dev ?active (m\<lparr>me_localnet := fold_in_new io dev (me_localnet m), me_wg := w1\<rparr>)) = (Inr (), m2)"
    using push by blast
  obtain c peers' w' where "apply_seeds (mi_ok io) ?active eps (me_peers m2) (me_wg m2) = (Inr c, peers', w')"
    using seeds by blast
  then show ?thesis by (simp add: apply_state_def Let_def 1 2)
qed

text \<open>A packet the tunnel delivers: WireGuard accepts from a peer only the sources in its allowed IPs.\<close>

definition tunnel_accepts :: "wg \<Rightarrow> key \<Rightarrow> ipv4 \<Rightarrow> bool" where
  "tunnel_accepts w pk src \<longleftrightarrow> wg_link w \<and>
     (case tget (wg_peers w) pk of None \<Rightarrow> False | Some p \<Rightarrow> (src, 32) \<in> set (pf_allowed_ips p))"

lemma config_allowed: "set (pf_allowed_ips (config_of pk d)) = set (fst d)"
  by (simp add: config_of_def)

lemma wanted_peer_allows:
  "(case wanted_peer eps seeds pk of None \<Rightarrow> False | Some p \<Rightarrow> (src, 32) \<in> set (pf_allowed_ips p)) \<longleftrightarrow>
   (\<exists>s\<in>set seeds. sp_pubkey s = pk \<and> sp_ip s = src)"
  by (auto simp: wanted_peer_def config_allowed seeds_of_def filter_empty_conv)

lemma active_now_iff:
  "s \<in> set (active_now m dev seeds) \<longleftrightarrow>
     (\<exists>d. dev = Some d \<and> \<not> ln_paused (me_localnet m) \<and> s \<in> set seeds \<and>
        tget (ln_blocked (me_localnet m)) (sp_user_id s) = None \<and>
        (sp_networks s = [] \<or> (\<exists>n\<in>set (sp_networks s). case tget (name_to_id (se_networks_status d)) (sh_name n) of
           Some i \<Rightarrow> i \<notin> set (ln_disabled (me_localnet m)) | None \<Rightarrow> True)))"
  by (auto simp: active_now_def active_seeds_def filter_active_def snapshot_optout_def blocked_snapshot_def list_ex_iff
      split: option.splits)

lemma apply_state_accepts:
  assumes "apply_state io my_pubkey dev seeds eps m = (Inr u, m')" "mesh_ok m"
  shows "tunnel_accepts (me_wg m') pk src \<longleftrightarrow>
     (\<exists>s\<in>set (active_now m' dev seeds). sp_pubkey s = pk \<and> sp_ip s = src)"
  using apply_state_Inr [OF assms] wanted_peer_allows [where eps = eps and seeds = "active_now m' dev seeds" and pk = pk and src = src]
    active_now_iff [of _ m' dev seeds]
  by (auto simp: tunnel_accepts_def)

lemma effective_opening:
  "(\<exists>e\<in>set (effective_exposed es). ex_proto e = pr \<and> ex_port e = port \<and> P (ex_scope e)) \<longleftrightarrow>
   (\<exists>e\<in>set es. (ex_proto e = pr \<and> ex_port e = port \<or>
      pr = Tcp \<and> port = HTTPS_PORT \<and> ex_kind e = Web \<and> ex_name e \<noteq> None) \<and> P (ex_scope e))"
  unfolding effective_exposed_def by (auto simp: bex_Un)



subsection \<open>Lapsed attestations\<close>

lemma pull_seed_pubkey [simp]: "sp_pubkey (pull_seed cv pins now pull s) = sp_pubkey s"
  by (simp add: pull_seed_def apply_pulled_def split: option.split)

lemma verify_pulled_later:
  "verify_pulled cv blobs pk current pins now = Some att \<Longrightarrow> current < sp_expires_at (apply_pulled att s)"
  by (auto simp: verify_pulled_def apply_pulled_def dest!: first_verified_Some)

lemma filter_full: "length (filter P xs) = length xs \<Longrightarrow> filter P xs = xs"
  by (metis filter_id_conv length_filter_less nat_neq_iff)

lemma pull_seed_none: "pull_seed cv pins now (\<lambda>_. None) = (\<lambda>s. s)"
  by (rule ext) (simp add: pull_seed_def)

definition renewed_as ::
  "cenv \<Rightarrow> pins \<Rightarrow> u64 \<Rightarrow> (key \<Rightarrow> guild_attestation list option) \<Rightarrow> seed_peer \<Rightarrow> seed_peer \<Rightarrow> bool" where
  "renewed_as cv pins now pull s t \<longleftrightarrow> sp_expires_at s < sp_expires_at t \<and>
     (\<exists>blobs att. pull (sp_pubkey s) = Some blobs \<and>
        verify_pulled cv blobs (sp_pubkey s) (sp_expires_at s) pins now = Some att \<and> t = apply_pulled att s)"

lemma pull_seed_renews: "pull_seed cv pins now pull s = s \<or> renewed_as cv pins now pull s (pull_seed cv pins now pull s)"
  by (simp add: pull_seed_def renewed_as_def verify_pulled_later split: option.split)

lemma active_now_sub: "set (active_now m dev seeds) \<subseteq> set seeds"
  using active_now_iff [of _ m dev seeds] by blast

lemma wanted_peer_key: "wanted_peer eps seeds pk \<noteq> None \<Longrightarrow> \<exists>s\<in>set seeds. sp_pubkey s = pk"
  by (auto simp: wanted_peer_def seeds_of_def filter_empty_conv split: if_splits)

text \<open> Revocation by expiry needs no coordinator: if the backend held the peers of the
  active seeds before a peer-direct tick, then after it every peer the backend holds has a seed whose
  attestation has not lapsed; a seed that was renewed was renewed under a later expiry than it had, by an
  attestation the peer itself served that verifies for that key. With no peer answering, the seeds kept
  are exactly the unexpired ones.\<close>

theorem lapsed_peers_leave:
  assumes "gossip_tick cv pins now pull io my_pubkey dev eps seeds m = (Inr u, kept, m')" "mesh_ok m"
    "\<forall>pk. tget (wg_peers (me_wg m)) pk = wanted_peer eps0 (active_now m dev seeds) pk"
  shows "(\<forall>pk. tget (wg_peers (me_wg m')) pk \<noteq> None \<longrightarrow> (\<exists>s\<in>set kept. sp_pubkey s = pk \<and> now < sp_expires_at s)) \<and>
    (\<forall>t\<in>set kept. \<exists>s\<in>set seeds. t = s \<or> renewed_as cv pins now pull s t) \<and>
    (pull = (\<lambda>_. None) \<longrightarrow> kept = filter (\<lambda>s. now < sp_expires_at s) seeds)"
proof -
  let ?pulled = "map (pull_seed cv pins now pull) seeds"
  have kept: "kept = filter (\<lambda>s. now < sp_expires_at s) ?pulled"
    using assms(1) by (auto simp: gossip_tick_def Let_def split: if_splits prod.splits)
  have live: "\<forall>t\<in>set kept. now < sp_expires_at t" by (simp add: kept)
  have one: "\<exists>s\<in>set seeds. t = s \<or> renewed_as cv pins now pull s t" if "t \<in> set kept" for t
    using that pull_seed_renews [of cv pins now pull] by (auto simp: kept)
  have none: "pull = (\<lambda>_. None) \<Longrightarrow> kept = filter (\<lambda>s. now < sp_expires_at s) seeds"
    by (simp add: kept pull_seed_none)
  have "\<exists>s\<in>set kept. sp_pubkey s = pk \<and> now < sp_expires_at s"
    if held: "tget (wg_peers (me_wg m')) pk \<noteq> None" for pk
  proof (cases "length kept = length ?pulled")
    case True
    then have same: "kept = ?pulled" "m' = m"
      using assms(1) filter_full [of _ ?pulled] by (auto simp: gossip_tick_def Let_def kept split: if_splits)
    obtain s where "s \<in> set seeds" "sp_pubkey s = pk"
      using held same(2) assms(3) wanted_peer_key active_now_sub by (metis subsetD)
    then have "\<exists>t\<in>set kept. sp_pubkey t = pk" by (auto simp: same(1))
    with live show ?thesis by blast
  next
    case False
    then have "apply_state io my_pubkey dev kept eps m = (Inr u, m')"
      using assms(1) by (auto simp: gossip_tick_def Let_def kept split: if_splits prod.splits)
    from apply_state_Inr [OF this assms(2)] held wanted_peer_key active_now_sub live
    show ?thesis by (metis subsetD)
  qed
  with one none show ?thesis by blast
qed

subsection \<open>A mesh of three\<close>

text \<open>Our laptop shares the network \<open>(1, 10)\<close> with a server; a tablet of another user shares \<open>(2, 20)\<close>.\<close>

definition demo_net_ref :: "u64 \<Rightarrow> u64 \<Rightarrow> string \<Rightarrow> shared_network" where
  "demo_net_ref g r n = \<lparr>sh_name = n, sh_community = ''home'', sh_guild_id = g, sh_role_id = r\<rparr>"

definition demo_own_dev :: self_device where
  "demo_own_dev = (demo_self laptop)\<lparr>se_networks_status :=
     [\<lparr>ns_guild_id = 1, ns_role_id = 10, ns_name = ''lan'', ns_guild_name = ''home'', ns_enabled = True\<rparr>,
      \<lparr>ns_guild_id = 2, ns_role_id = 20, ns_name = ''lab'', ns_guild_name = ''work'', ns_enabled = True\<rparr>]\<rparr>"

definition demo_seeds :: "seed_peer list" where
  "demo_seeds = (case demo_peers_of [server, tablet] of
     [s, t] \<Rightarrow> [s\<lparr>sp_networks := [demo_net_ref 1 10 ''lan'']\<rparr>,
                t\<lparr>sp_networks := [demo_net_ref 2 20 ''lab''], sp_user_id := 99\<rparr>] | _ \<Rightarrow> [])"

definition demo_mesh_io :: mesh_io where
  "demo_mesh_io = \<lparr>mi_ok = (\<lambda>_. True), mi_fw = all_ok, mi_known = Wrote, mi_optout = Wrote\<rparr>"

definition demo_mesh :: "net list \<Rightarrow> (u64, string) hmap \<Rightarrow> mesh" where
  "demo_mesh disabled blocked = \<lparr>me_localnet = (load_net fresh_files False True)\<lparr>ln_disabled := disabled, ln_blocked := blocked\<rparr>,
     me_fw = Some (demo_fw [demo_exposure 22 (Net 1 10) ''ssh'' Port]), me_zone = empty_zone, me_book = [],
     me_wg = \<lparr>wg_peers = [], wg_link = False, wg_routes = [], wg_calls = 0\<rparr>, me_peers = []\<rparr>"

definition no_endpoints :: endpoints where
  "no_endpoints = \<lparr>ep_relay = [], ep_ice = [], ep_lan = []\<rparr>"

definition demo_applied :: "net list \<Rightarrow> (u64, string) hmap \<Rightarrow> unit io \<times> mesh" where
  "demo_applied disabled blocked = apply_state demo_mesh_io [1] (Some demo_own_dev) demo_seeds no_endpoints (demo_mesh disabled blocked)"

lemma demo_applied_ok: "fst (demo_applied disabled blocked) = Inr ()"
  unfolding demo_applied_def by (rule apply_state_succeeds) (simp_all add: demo_mesh_io_def all_ok_def io_ok_def)

lemma demo_mesh_ok: "mesh_ok (demo_mesh disabled blocked)"
  by (simp add: mesh_ok_def demo_mesh_def installed_as_def table_ok_def tok_def demo_fw_synced)

definition demo_result :: mesh where
  "demo_result = snd (demo_applied [(2, 20)] [])"

lemma demo_result_applied:
  "apply_state demo_mesh_io [1] (Some demo_own_dev) demo_seeds no_endpoints (demo_mesh [(2, 20)] []) = (Inr (), demo_result)"
  using demo_applied_ok [of "[(2, 20)]" "[]"] by (simp add: demo_result_def demo_applied_def prod_eq_iff)

lemma demo_result_active:
  "active_now demo_result (Some demo_own_dev) demo_seeds = take 1 demo_seeds"
proof -
  have ln: "me_localnet demo_result = fold_in_new demo_mesh_io (Some demo_own_dev) (me_localnet (demo_mesh [(2, 20)] []))"
    using apply_state_Inr [OF demo_result_applied demo_mesh_ok] by blast
  show ?thesis unfolding active_now_def ln by code_simp
qed

lemma demo_member: "map (\<lambda>s. (sp_pubkey s, sp_ip s)) (take 1 demo_seeds) = [([2], 6)]" "map (\<lambda>s. lists_net s 1 10) (take 1 demo_seeds) = [True]"
  by code_simp+

lemma demo_active_set:
  "s \<in> set (active_now demo_result (Some demo_own_dev) demo_seeds) \<Longrightarrow> sp_pubkey s = [2] \<and> sp_ip s = 6 \<and> lists_net s 1 10"
  "\<exists>s\<in>set (active_now demo_result (Some demo_own_dev) demo_seeds). sp_pubkey s = [2] \<and> sp_ip s = 6 \<and> lists_net s 1 10"
proof -
  obtain s where s: "take 1 demo_seeds = [s]" using demo_member(1) by (cases "take 1 demo_seeds") auto
  with demo_member show "x \<in> set (active_now demo_result (Some demo_own_dev) demo_seeds) \<Longrightarrow> sp_pubkey x = [2] \<and> sp_ip x = 6 \<and> lists_net x 1 10" for x
    by (simp add: demo_result_active)
  show "\<exists>s\<in>set (active_now demo_result (Some demo_own_dev) demo_seeds). sp_pubkey s = [2] \<and> sp_ip s = 6 \<and> lists_net s 1 10"
    using s demo_member by (simp add: demo_result_active)
qed



definition demo_lapse :: "unit io \<times> seed_peer list \<times> mesh" where
  "demo_lapse = gossip_tick (demo_cv demo_codecs) [] 2000 (\<lambda>_. None) demo_mesh_io [1] (Some demo_own_dev) no_endpoints demo_seeds demo_result"

lemma demo_lapse_kept: "fst (snd demo_lapse) = []"
proof -
  have "filter (\<lambda>s. 2000 < sp_expires_at s) demo_seeds = []" by code_simp
  then show ?thesis
    by (simp add: demo_lapse_def gossip_tick_def Let_def pull_seed_none split: prod.split)
qed

theorem lapsed_peers_leave_witness: "tget (wg_peers (me_wg (snd (snd demo_lapse)))) [2] = None"
proof -
  have ok: "fst demo_lapse = Inr ()"
    using apply_state_succeeds [of demo_mesh_io]
    by (simp add: demo_lapse_def gossip_tick_def Let_def demo_mesh_io_def all_ok_def io_ok_def prod_eq_iff split: prod.split)
  then have run: "gossip_tick (demo_cv demo_codecs) [] 2000 (\<lambda>_. None) demo_mesh_io [1] (Some demo_own_dev) no_endpoints demo_seeds
      demo_result = (Inr (), [], snd (snd demo_lapse))"
    using demo_lapse_kept unfolding demo_lapse_def by (simp add: prod_eq_iff)
  have before: "mesh_ok demo_result" "\<forall>pk. tget (wg_peers (me_wg demo_result)) pk =
      wanted_peer no_endpoints (active_now demo_result (Some demo_own_dev) demo_seeds) pk"
    using apply_state_Inr [OF demo_result_applied demo_mesh_ok] by blast+
  show ?thesis using lapsed_peers_leave [OF run before] by auto
qed

subsection \<open>Names that outlive the filter, and names that are not ids\<close>

text \<open>
  \<open>apply_state\<close> names the active peers only, but the tick that follows it every few seconds rebuilds the
  zone over all the seeds held: a blocked user's device, or one on an opted-out network, resolves again.
\<close>

lemma names_tick_unfiltered:
  "active_seeds (me_localnet (demo_mesh [] [(99, ''eve'')])) (Some demo_own_dev) (drop 1 demo_seeds) = []"
  "zone_lookup (me_zone (names_tick 0 (\<lambda>_. None) [1] (Some demo_own_dev) (drop 1 demo_seeds) (demo_mesh [] [(99, ''eve'')])))
     ''tablet.alice.unity.internal'' = Some 7"
  by code_simp+

text \<open>
  The filter looks a shared network up by its name, though both sides carry its ids. Of two networks
  with one name the later listed decides for both: opting out of the second drops a peer that shares
  only the first, and opting out of the first keeps its peers.
\<close>

lemma filter_confuses_namesakes:
  assumes "sp_networks s = [n]" "tget blocked (sp_user_id s) = None"
    "ns = [\<lparr>ns_guild_id = g1, ns_role_id = r1, ns_name = sh_name n, ns_guild_name = x1, ns_enabled = e1\<rparr>,
           \<lparr>ns_guild_id = g2, ns_role_id = r2, ns_name = sh_name n, ns_guild_name = x2, ns_enabled = e2\<rparr>]"
    "(g1, r1) \<noteq> (g2, r2)" "shared_network_id n = Some (g1, r1)"
  shows "filter_active [s] [(g2, r2)] blocked ns = []" "filter_active [s] [(g1, r1)] blocked ns = [s]"
  using assms by (auto simp: filter_active_def name_to_id_def)

text \<open>
  While a report differs from what the coordinator last acknowledged, every pass drops the request in
  flight and starts another, even when the one in flight already carries that very report: a response
  that takes longer than one pass is never read.
\<close>

lemma report_restarts:
  assumes "report_stale sent cur"
  shows "plan_refresh sent cur dev seeds now since (Some r) = plan_refresh sent cur dev seeds now since None"
  using assms by (simp add: plan_refresh_def Let_def)

end
