(* ===== verification/Update.thy ===== *)
theory Update
  imports Release Coord LocalNet
begin

section \<open>Signed self-update: \<open>crates/engine/src/selfupdate.rs\<close>, \<open>common/src/update.rs\<close>\<close>

text \<open>
  What release is offered, what is accepted of a download, and what is installed of it. Versions are
  those of the crate \<open>semver\<close>: the record \<open>semver\<close> holds its parser and printer, its order is the
  linear order of the type. SHA-256, the tar and gzip readers and the HTTP client are parameters; files
  are what they hold, and how a write ends is an argument, as for the local preferences.
\<close>

subsection \<open>The manifest\<close>

definition current_platform :: "string \<Rightarrow> string \<Rightarrow> platform option" where
  "current_platform os arch =
     (if os = ''linux'' \<and> arch = ''x86_64'' then Some LinuxAmd64
      else if os = ''windows'' \<and> arch = ''x86_64'' then Some WindowsAmd64
      else None)"

text \<open>\<open>u8::from_str_radix(_, 16)\<close> takes a leading plus.\<close>

definition hex_value :: "char \<Rightarrow> nat option" where
  "hex_value c =
     (let n = of_char c :: nat
      in if 48 \<le> n \<and> n \<le> 57 then Some (n - 48)
         else if 97 \<le> n \<and> n \<le> 102 then Some (n - 87)
         else if 65 \<le> n \<and> n \<le> 70 then Some (n - 55)
         else None)"

fun parse_hex_pairs :: "string \<Rightarrow> u8 list option" where
  "parse_hex_pairs [] = Some []"
| "parse_hex_pairs [c] = None"
| "parse_hex_pairs (a # b # s) =
     (case (if a = CHR ''+'' then Some 0 else hex_value a, hex_value b, parse_hex_pairs s) of
        (Some x, Some y, Some bs) \<Rightarrow> Some (of_nat (16 * x + y) # bs)
      | _ \<Rightarrow> None)"

definition parse_hex32 :: "string \<Rightarrow> u8 list option" where
  "parse_hex32 hex = (let h = trim hex in if length h \<noteq> 64 then None else parse_hex_pairs h)"

definition release_pubkey :: "crypto \<Rightarrow> string option \<Rightarrow> key option" where
  "release_pubkey c env =
     (case env of
        None \<Rightarrow> None
      | Some hex \<Rightarrow> (case parse_hex32 hex of None \<Rightarrow> None | Some k \<Rightarrow> if ed_key_ok c k then Some k else None))"

definition peek_signed_manifest ::
  "crypto \<Rightarrow> signed codec \<Rightarrow> release_manifest codec \<Rightarrow> string \<Rightarrow> wire_error + release_manifest" where
  "peek_signed_manifest c sk mk blob =
     (case from_base64 c sk blob of
        Inl e \<Rightarrow> Inl e
      | Inr s \<Rightarrow> (case dec_of mk (payload s) of None \<Rightarrow> Inl PostcardError | Some m \<Rightarrow> Inr m))"

subsection \<open>What is offered\<close>

record 'v semver =
  sv_parse :: "string \<Rightarrow> 'v option"
  sv_show :: "'v \<Rightarrow> string"

text \<open>What the code relies on: a printed version parses back, and what parses holds no white space at its ends.\<close>

definition semver_ok :: "'v semver \<Rightarrow> bool" where
  "semver_ok sv \<longleftrightarrow> (\<forall>v. sv_parse sv (sv_show sv v) = Some v) \<and>
     (\<forall>s v. sv_parse sv s = Some v \<longrightarrow> trim s = s)"

definition is_newer :: "('v::linorder) semver \<Rightarrow> string \<Rightarrow> string \<Rightarrow> bool" where
  "is_newer sv candidate current =
     (case (sv_parse sv candidate, sv_parse sv current) of
        (Some c, Some cur) \<Rightarrow> cur < c
      | _ \<Rightarrow> False)"

record update_files =
  uf_floor :: "string option"
  uf_pending :: "string option"

definition read_floor :: "('v::linorder) semver \<Rightarrow> update_files \<Rightarrow> 'v option" where
  "read_floor sv f = (case uf_floor f of None \<Rightarrow> None | Some s \<Rightarrow> sv_parse sv (trim s))"

definition clears_floor :: "('v::linorder) semver \<Rightarrow> update_files \<Rightarrow> string \<Rightarrow> bool" where
  "clears_floor sv f version =
     (case read_floor sv f of Some fl \<Rightarrow> \<not> is_newer sv (sv_show sv fl) version | None \<Rightarrow> True)"

definition raise_floor :: "('v::linorder) semver \<Rightarrow> wrote \<Rightarrow> string \<Rightarrow> update_files \<Rightarrow> update_files" where
  "raise_floor sv w version f =
     (if (case (read_floor sv f, sv_parse sv version) of
            (Some fl, Some v) \<Rightarrow> fl < v | (None, Some _) \<Rightarrow> True | _ \<Rightarrow> False)
      then f\<lparr>uf_floor := put_file w version (uf_floor f)\<rparr> else f)"

definition mark_update_pending :: "wrote \<Rightarrow> string \<Rightarrow> update_files \<Rightarrow> update_files" where
  "mark_update_pending w version f = f\<lparr>uf_pending := put_file w version (uf_pending f)\<rparr>"

definition reconcile_update_marker :: "('v::linorder) semver \<Rightarrow> string \<Rightarrow> update_files \<Rightarrow> update_files" where
  "reconcile_update_marker sv running f =
     (case uf_pending f of
        None \<Rightarrow> f
      | Some contents \<Rightarrow>
          let target = trim contents
          in if target = [] then f\<lparr>uf_pending := None\<rparr>
             else if is_newer sv target running then f
             else f\<lparr>uf_pending := None\<rparr>)"

record pending_update =
  pu_version :: string
  pu_artifact :: release_artifact

text \<open>The build: the version it runs, the platform it is for, the release key baked in.\<close>

record 'v build =
  bd_semver :: "'v semver"
  bd_crypto :: crypto
  bd_signed :: "signed codec"
  bd_manifest :: "release_manifest codec"
  bd_version :: string
  bd_platform :: "platform option"
  bd_release_key :: "key option"

definition stage_manifest ::
  "('v::linorder) build \<Rightarrow> wrote \<Rightarrow> release_manifest \<Rightarrow> update_files \<Rightarrow> pending_update option \<times> update_files" where
  "stage_manifest b w m f =
     (if \<not> clears_floor (bd_semver b) f (rm_version m) then (None, f)
      else if \<not> is_newer (bd_semver b) (rm_version m) (bd_version b) then (None, f)
      else case bd_platform b of
             None \<Rightarrow> (None, f)
           | Some p \<Rightarrow>
               (case artifact_for p m of
                  None \<Rightarrow> (None, f)
                | Some a \<Rightarrow> (Some \<lparr>pu_version = rm_version m, pu_artifact = a\<rparr>,
                            raise_floor (bd_semver b) w (rm_version m) f)))"

definition stage_with ::
  "('v::linorder) build \<Rightarrow> wrote \<Rightarrow> register_resp \<Rightarrow> update_files \<Rightarrow> pending_update option \<times> update_files" where
  "stage_with b w resp f =
     (case bd_release_key b of
        None \<Rightarrow> (None, f)
      | Some pk \<Rightarrow>
          (case rs_release_signed resp of
             None \<Rightarrow> (None, f)
           | Some b64 \<Rightarrow>
               (case from_base64 (bd_crypto b) (bd_signed b) b64 of
                  Inl e \<Rightarrow> (None, f)
                | Inr s \<Rightarrow>
                    (case signed_verify (bd_crypto b) (bd_manifest b) s pk of
                       Inl e \<Rightarrow> (None, f)
                     | Inr m \<Rightarrow> stage_manifest b w m f))))"

text \<open>\<open>note_update\<close> of the daemon: the version it reports, and the slot the user's confirmation reads.\<close>

definition latest_version :: "pending_update option \<Rightarrow> string \<Rightarrow> string" where
  "latest_version staged server_version = (case staged of None \<Rightarrow> server_version | Some u \<Rightarrow> pu_version u)"

record update_state =
  us_files :: update_files
  us_pending :: "pending_update option"
  us_available :: "string option"

definition note_update :: "('v::linorder) build \<Rightarrow> wrote \<Rightarrow> register_resp \<Rightarrow> update_state \<Rightarrow> update_state" where
  "note_update b w resp us =
     (case stage_with b w resp (us_files us) of (staged, f) \<Rightarrow>
        us\<lparr>us_files := f, us_pending := staged,
           us_available := (let v = latest_version staged (rs_server_version resp)
                            in if is_newer (bd_semver b) v (bd_version b) then Some v else None)\<rparr>)"

subsection \<open>What is accepted of a download\<close>

datatype update_error =
    NotHttps string | TooLarge u64 | HttpFailed | BodyFailed | OverDeclared u64 | SizeMismatch nat u64 | DigestMismatch
  | BadArchive | EntryFailed string | EntryTooLarge string | NoEngine | CannotCreate | SwapFailed | NothingStaged

definition MAX_UPDATE_BYTES :: u64 where "MAX_UPDATE_BYTES = 512 * 1024 * 1024"

text \<open>The chunks of a response body in order; \<open>None\<close> is a read that failed.\<close>

fun read_body :: "u64 \<Rightarrow> u8 list option list \<Rightarrow> u8 list \<Rightarrow> update_error + u8 list" where
  "read_body limit [] buf = Inr buf"
| "read_body limit (None # cs) buf = Inl BodyFailed"
| "read_body limit (Some chunk # cs) buf =
     (if unat limit < length buf + length chunk then Inl (OverDeclared limit) else read_body limit cs (buf @ chunk))"

text \<open>\<open>fetch\<close> is the GET: \<open>None\<close> when it fails or the status is an error.\<close>

definition download_verified ::
  "(u8 list \<Rightarrow> u8 list) \<Rightarrow> (string \<Rightarrow> u8 list option list option) \<Rightarrow> release_artifact \<Rightarrow> update_error + u8 list" where
  "download_verified sha256 fetch a =
     (if take 8 (ra_url a) \<noteq> ''https://'' then Inl (NotHttps (ra_url a))
      else if MAX_UPDATE_BYTES < ra_size a then Inl (TooLarge (ra_size a))
      else case fetch (ra_url a) of
             None \<Rightarrow> Inl HttpFailed
           | Some chunks \<Rightarrow>
               (case read_body (ra_size a) chunks [] of
                  Inl e \<Rightarrow> Inl e
                | Inr buf \<Rightarrow>
                    if length buf \<noteq> unat (ra_size a) then Inl (SizeMismatch (length buf) (ra_size a))
                    else if sha256 buf \<noteq> ra_sha256 a then Inl DigestMismatch
                    else Inr buf))"

subsection \<open>What is installed of it\<close>

text \<open>
  An archive is the list of its entries: the last component of the path, when it has one that is text, and
  the contents. Whether an entry can be extracted, and what a failed extraction leaves, is part of it. The
  binaries carry no suffix, as on unix, whose apply path this is.
\<close>

datatype extraction = Extracts | ExtractFails "u8 list option"

record arch_entry =
  ae_name :: "string option"
  ae_bytes :: "u8 list"
  ae_io :: extraction

definition BUNDLE_ENGINE :: string where "BUNDLE_ENGINE = ''unitylan-engine''"
definition BUNDLE_GUI :: string where "BUNDLE_GUI = ''unitylan-gui''"

record update_bundle =
  bu_engine :: "string option"
  bu_gui :: "string option"

type_synonym files = "(string, u8 list) hmap"

definition staged_name :: "string \<Rightarrow> string" where
  "staged_name n = n @ ''.update''"

fun unpack_entries :: "nat \<Rightarrow> arch_entry option list \<Rightarrow> update_bundle \<Rightarrow> files \<Rightarrow> (update_error + update_bundle) \<times> files" where
  "unpack_entries max_entry [] b dir = (Inr b, dir)"
| "unpack_entries max_entry (None # es) b dir = (Inl BadArchive, dir)"
| "unpack_entries max_entry (Some e # es) b dir =
     (if ae_name e \<noteq> Some BUNDLE_ENGINE \<and> ae_name e \<noteq> Some BUNDLE_GUI then unpack_entries max_entry es b dir
      else let name = the (ae_name e); out = staged_name name
        in case ae_io e of
             ExtractFails left \<Rightarrow>
               (Inl (EntryFailed out), case left of None \<Rightarrow> dir | Some bs \<Rightarrow> tput out bs dir)
           | Extracts \<Rightarrow>
               if max_entry < length (ae_bytes e) then (Inl (EntryTooLarge out), tdel out dir)
               else unpack_entries max_entry es
                      (if name = BUNDLE_ENGINE then b\<lparr>bu_engine := Some out\<rparr> else b\<lparr>bu_gui := Some out\<rparr>)
                      (tput out (ae_bytes e) dir))"

text \<open>\<open>untar\<close> reads the gzipped tar; \<open>None\<close> when not even the first entry can be read.\<close>

definition unpack_bundle ::
  "(u8 list \<Rightarrow> arch_entry option list option) \<Rightarrow> u8 list \<Rightarrow> files \<Rightarrow> (update_error + update_bundle) \<times> files" where
  "unpack_bundle untar bs dir =
     (case untar bs of
        None \<Rightarrow> (Inl BadArchive, dir)
      | Some es \<Rightarrow> unpack_entries (unat MAX_UPDATE_BYTES) es \<lparr>bu_engine = None, bu_gui = None\<rparr> dir)"

text \<open>The host: the state directory, the installed files by path, our own image's path and arguments.\<close>

record host =
  ho_dir :: files
  ho_installed :: files
  ho_exe_dir :: "string option"
  ho_exe :: string
  ho_argv :: "string list"

record host_io =
  hi_dir :: bool
  hi_write :: bool
  hi_move :: bool
  hi_swap :: bool

definition replace_beside :: "bool \<Rightarrow> string \<Rightarrow> string \<Rightarrow> host \<Rightarrow> string option \<times> host" where
  "replace_beside ok staged name h =
     (case List.find (\<lambda>p. tget (ho_installed h) p \<noteq> None)
             ((case ho_exe_dir h of None \<Rightarrow> [] | Some d \<Rightarrow> [d @ ''/'' @ name]) @ [''/usr/bin/'' @ name]) of
        None \<Rightarrow> (None, h)
      | Some target \<Rightarrow>
          (case (ok, tget (ho_dir h) staged) of
             (True, Some bs) \<Rightarrow>
               (Some target, h\<lparr>ho_installed := tput target bs (ho_installed h), ho_dir := tdel staged (ho_dir h)\<rparr>)
           | _ \<Rightarrow> (None, h)))"

record exec_plan =
  xp_exe :: string
  xp_args :: "string list"

definition exec_plan_of :: "string \<Rightarrow> string list \<Rightarrow> exec_plan" where
  "exec_plan_of exe argv = \<lparr>xp_exe = exe, xp_args = drop 1 argv\<rparr>"

definition self_replace :: "bool \<Rightarrow> string \<Rightarrow> host \<Rightarrow> (update_error + exec_plan) \<times> host" where
  "self_replace ok engine h =
     (case (ok, tget (ho_dir h) engine) of
        (True, Some bs) \<Rightarrow>
          (Inr (exec_plan_of (ho_exe h) (ho_argv h)),
           h\<lparr>ho_installed := tput (ho_exe h) bs (ho_installed h), ho_dir := tdel engine (ho_dir h)\<rparr>)
      | _ \<Rightarrow> (Inl SwapFailed, h))"

definition apply_bytes ::
  "(u8 list \<Rightarrow> arch_entry option list option) \<Rightarrow> host_io \<Rightarrow> u8 list \<Rightarrow> host \<Rightarrow> (update_error + exec_plan) \<times> host" where
  "apply_bytes untar io bs h =
     (if take 2 bs = [0x1f, 0x8b]
      then case unpack_bundle untar bs (ho_dir h) of
             (Inl e, dir) \<Rightarrow> (Inl e, h\<lparr>ho_dir := dir\<rparr>)
           | (Inr b, dir) \<Rightarrow>
               let h1 = h\<lparr>ho_dir := dir\<rparr>;
                   h2 = (case bu_gui b of None \<Rightarrow> h1 | Some g \<Rightarrow> snd (replace_beside (hi_move io) g ''unitylan-gui'' h1))
               in (case bu_engine b of None \<Rightarrow> (Inl NoEngine, h2) | Some e \<Rightarrow> self_replace (hi_swap io) e h2)
      else let out = staged_name BUNDLE_ENGINE
        in if \<not> hi_write io then (Inl CannotCreate, h)
           else self_replace (hi_swap io) out (h\<lparr>ho_dir := tput out bs (ho_dir h)\<rparr>))"

text \<open>\<open>ApplyUpdate\<close> of the control socket: only what is staged; a failure leaves no restart behind.\<close>

record apply_state_slot =
  as_files :: update_files
  as_plan :: "exec_plan option"
  as_host :: host

definition apply_update ::
  "(u8 list \<Rightarrow> u8 list) \<Rightarrow> (string \<Rightarrow> u8 list option list option) \<Rightarrow> (u8 list \<Rightarrow> arch_entry option list option) \<Rightarrow>
   host_io \<Rightarrow> wrote \<Rightarrow> pending_update option \<Rightarrow> apply_state_slot \<Rightarrow> (update_error + unit) \<times> apply_state_slot" where
  "apply_update sha256 fetch untar io w pending st =
     (case pending of
        None \<Rightarrow> (Inl NothingStaged, st)
      | Some pu \<Rightarrow>
          (case download_verified sha256 fetch (pu_artifact pu) of
             Inl e \<Rightarrow> (Inl e, st)
           | Inr bs \<Rightarrow>
               if \<not> hi_dir io then (Inl CannotCreate, st)
               else (case apply_bytes untar io bs (as_host st) of
                  (Inl e, h) \<Rightarrow> (Inl e, st\<lparr>as_host := h\<rparr>)
                | (Inr plan, h) \<Rightarrow>
                    (Inr (), st\<lparr>as_host := h, as_files := mark_update_pending w (pu_version pu) (as_files st),
                               as_plan := Some plan\<rparr>))))"

subsection \<open>Releases only move forward\<close>

text \<open>A history of responses, each read by the version running then (restarts change it); what each staged.\<close>

fun stage_history ::
  "('v::linorder) build \<Rightarrow> (string \<times> register_resp) list \<Rightarrow> update_files \<Rightarrow> pending_update option list \<times> update_files" where
  "stage_history b [] f = ([], f)"
| "stage_history b ((running, resp) # rs) f =
     (case stage_with (b\<lparr>bd_version := running\<rparr>) Wrote resp f of
        (p, f1) \<Rightarrow> case stage_history b rs f1 of (ps, f2) \<Rightarrow> (p # ps, f2))"

definition offers :: "pending_update option list \<Rightarrow> pending_update list" where
  "offers ps = List.map_filter id ps"

definition version_of :: "'v semver \<Rightarrow> pending_update \<Rightarrow> 'v option" where
  "version_of sv p = sv_parse sv (pu_version p)"

definition blessed :: "('v::linorder) build \<Rightarrow> register_resp \<Rightarrow> pending_update \<Rightarrow> bool" where
  "blessed b resp p \<longleftrightarrow> (\<exists>pk blob s m. bd_release_key b = Some pk \<and> rs_release_signed resp = Some blob \<and>
     from_base64 (bd_crypto b) (bd_signed b) blob = Inr s \<and> ed_verify (bd_crypto b) pk (payload s) (sig s) \<and>
     dec_of (bd_manifest b) (payload s) = Some m \<and> pu_version p = rm_version m \<and>
     pu_artifact p \<in> set (rm_artifacts m) \<and> bd_platform b = Some (ra_platform (pu_artifact p)))"

lemma artifact_for_Some: "artifact_for pf m = Some a \<Longrightarrow> a \<in> set (rm_artifacts m) \<and> ra_platform a = pf"
  by (auto simp: artifact_for_def find_Some_iff in_set_conv_nth)

lemma stage_with_Some:
  assumes "stage_with b w resp f = (Some p, f')"
  shows "blessed b resp p \<and> is_newer (bd_semver b) (pu_version p) (bd_version b) \<and>
    clears_floor (bd_semver b) f (pu_version p) \<and> f' = raise_floor (bd_semver b) w (pu_version p) f"
  using assms
  by (auto simp: stage_with_def stage_manifest_def blessed_def signed_verify_Inr
      split: option.splits sum.splits if_splits dest!: artifact_for_Some)

lemma stage_with_None: "stage_with b w resp f = (None, f') \<Longrightarrow> f' = f"
  by (auto simp: stage_with_def stage_manifest_def split: option.splits sum.splits if_splits)

lemma floor_after_stage:
  assumes "semver_ok (bd_semver b)" "stage_with b Wrote resp f = (Some p, f')"
  shows "\<exists>v. version_of (bd_semver b) p = Some v \<and> read_floor (bd_semver b) f' = Some v \<and>
    (\<forall>fl. read_floor (bd_semver b) f = Some fl \<longrightarrow> fl \<le> v)"
proof -
  note st = stage_with_Some [OF assms(2)]
  obtain v where v: "sv_parse (bd_semver b) (pu_version p) = Some v"
    using st by (auto simp: is_newer_def split: option.splits)
  have trimmed: "trim (pu_version p) = pu_version p" using assms(1) v by (auto simp: semver_ok_def)
  have le: "fl \<le> v" if "read_floor (bd_semver b) f = Some fl" for fl
    using st that v assms(1) by (auto simp: clears_floor_def is_newer_def semver_ok_def)
  have "read_floor (bd_semver b) f' = Some v"
  proof (cases "read_floor (bd_semver b) f")
    case None
    then show ?thesis using st v trimmed by (simp add: raise_floor_def) (simp add: read_floor_def)
  next
    case (Some fl)
    then show ?thesis using st v trimmed le [OF Some]
      by (cases "fl < v") (simp_all add: raise_floor_def, simp_all add: read_floor_def)
  qed
  with v le show ?thesis by (simp add: version_of_def)
qed

lemma stage_history_floor:
  assumes "semver_ok (bd_semver b)" "stage_history b rs f = (ps, f')"
  shows "sorted (map (\<lambda>p. the (version_of (bd_semver b) p)) (offers ps)) \<and>
    (\<forall>p\<in>set (offers ps). \<exists>v. version_of (bd_semver b) p = Some v \<and>
       (\<forall>fl. read_floor (bd_semver b) f = Some fl \<longrightarrow> fl \<le> v))"
  using assms(2)
proof (induction rs arbitrary: f ps)
  case (Cons r rs)
  obtain running resp where r: "r = (running, resp)" by (cases r)
  obtain p f1 where 1: "stage_with (b\<lparr>bd_version := running\<rparr>) Wrote resp f = (p, f1)" by fastforce
  obtain qs where 2: "stage_history b rs f1 = (qs, f')" "ps = p # qs"
    using Cons.prems 1 by (auto simp: r split: prod.splits)
  note IH = Cons.IH [OF 2(1)]
  show ?case
  proof (cases p)
    case None
    with 1 have "f1 = f" by (auto dest: stage_with_None)
    then show ?thesis using IH None 2(2) by (auto simp: offers_def map_filter_simps)
  next
    case (Some u)
    from floor_after_stage [of "b\<lparr>bd_version := running\<rparr>" resp f u f1] 1 Some assms(1)
    obtain v where v: "version_of (bd_semver b) u = Some v" "read_floor (bd_semver b) f1 = Some v"
      "\<forall>fl. read_floor (bd_semver b) f = Some fl \<longrightarrow> fl \<le> v" by auto
    have off: "offers ps = u # offers qs" using 2(2) Some by (simp add: offers_def map_filter_simps)
    show ?thesis using IH v unfolding off by (fastforce intro: order.trans)
  qed
qed (simp add: offers_def map_filter_simps)

lemma stage_history_each:
  "stage_history b rs f = (ps, f') \<Longrightarrow> length ps = length rs \<and>
   (\<forall>i<length rs. \<forall>p. ps ! i = Some p \<longrightarrow>
      blessed b (snd (rs ! i)) p \<and> is_newer (bd_semver b) (pu_version p) (fst (rs ! i)))"
proof (induction rs arbitrary: f ps)
  case (Cons r rs)
  obtain running resp where r: "r = (running, resp)" by (cases r)
  obtain p f1 where 1: "stage_with (b\<lparr>bd_version := running\<rparr>) Wrote resp f = (p, f1)" by fastforce
  obtain qs where 2: "stage_history b rs f1 = (qs, f')" "ps = p # qs"
    using Cons.prems 1 by (auto simp: r split: prod.splits)
  have "blessed b resp u \<and> is_newer (bd_semver b) (pu_version u) running" if "p = Some u" for u
    using stage_with_Some [of "b\<lparr>bd_version := running\<rparr>" Wrote resp f u f1] 1 that
    by (auto simp: blessed_def)
  with Cons.IH [OF 2(1)] 2(2) show ?case by (auto simp: r nth_Cons split: nat.split)
qed simp

text \<open>C23 (updates_only_forward). Over any sequence of coordinator responses, restarts and updates in between,
  whatever an attacker on the path replays or withholds: every update offered is signed by the release key
  baked in and by no other, is the artifact of this platform, is strictly newer than the version running
  when it was offered, and is never older than one offered before (floor writes succeeding); nothing
  below the floor found at the start is ever offered.\<close>

theorem updates_only_forward:
  assumes "semver_ok (bd_semver b)" "stage_history b rs f = (ps, f')"
  shows "(\<forall>i<length rs. \<forall>p. ps ! i = Some p \<longrightarrow>
      blessed b (snd (rs ! i)) p \<and> is_newer (bd_semver b) (pu_version p) (fst (rs ! i))) \<and>
    sorted (map (\<lambda>p. the (version_of (bd_semver b) p)) (offers ps)) \<and>
    (\<forall>p\<in>set (offers ps). \<exists>v. version_of (bd_semver b) p = Some v \<and>
       (\<forall>fl. read_floor (bd_semver b) f = Some fl \<longrightarrow> fl \<le> v))"
  using stage_history_each [OF assms(2)] stage_history_floor [OF assms] by blast

subsection \<open>Only what was signed is installed\<close>

lemma read_body_bound: "read_body limit cs buf = Inr out \<Longrightarrow> length buf \<le> unat limit \<Longrightarrow> length out \<le> unat limit"
  by (induction limit cs buf rule: read_body.induct) (auto split: if_splits)

lemma download_verified_Inr:
  "download_verified sha256 fetch a = Inr bs \<Longrightarrow>
   sha256 bs = ra_sha256 a \<and> length bs = unat (ra_size a) \<and> ra_size a \<le> MAX_UPDATE_BYTES \<and> take 8 (ra_url a) = ''https://''"
  by (auto simp: download_verified_def not_less split: if_splits option.splits sum.splits)

definition extracted :: "nat \<Rightarrow> arch_entry option list \<Rightarrow> files \<Rightarrow> string \<Rightarrow> string option \<Rightarrow> bool" where
  "extracted max_entry es dir name slot \<longleftrightarrow> (\<forall>out. slot = Some out \<longrightarrow> out = staged_name name \<and>
     (\<exists>e. Some e \<in> set es \<and> ae_name e = Some name \<and> tget dir out = Some (ae_bytes e) \<and> length (ae_bytes e) \<le> max_entry))"

lemma names_differ: "BUNDLE_ENGINE \<noteq> BUNDLE_GUI"
  by (simp add: BUNDLE_ENGINE_def BUNDLE_GUI_def)

lemma extracted_new:
  "Some e \<in> set es \<Longrightarrow> ae_name e = Some n \<Longrightarrow> length (ae_bytes e) \<le> max_entry \<Longrightarrow>
   extracted max_entry es (tput (staged_name n) (ae_bytes e) dir) n (Some (staged_name n))"
  by (auto simp: extracted_def)

lemma extracted_keep:
  "extracted max_entry es dir n slot \<Longrightarrow> m \<noteq> n \<Longrightarrow> extracted max_entry es (tput (staged_name m) bs dir) n slot"
  by (auto simp: extracted_def staged_name_def)

lemma unpack_entries_Inr:
  assumes "unpack_entries max_entry es b dir = (Inr b', dir')" "set es \<subseteq> set all"
    "extracted max_entry all dir BUNDLE_ENGINE (bu_engine b)" "extracted max_entry all dir BUNDLE_GUI (bu_gui b)"
  shows "extracted max_entry all dir' BUNDLE_ENGINE (bu_engine b') \<and> extracted max_entry all dir' BUNDLE_GUI (bu_gui b')"
  using assms
proof (induction max_entry es b dir rule: unpack_entries.induct)
  case (3 max_entry e es b dir)
  show ?case
  proof (cases "ae_name e \<noteq> Some BUNDLE_ENGINE \<and> ae_name e \<noteq> Some BUNDLE_GUI")
    case True
    then show ?thesis using "3.IH"(1) "3.prems" by simp
  next
    case False
    then obtain name where name: "ae_name e = Some name" "name = BUNDLE_ENGINE \<or> name = BUNDLE_GUI" by auto
    with "3.prems"(1) have io: "ae_io e = Extracts" and len: "length (ae_bytes e) \<le> max_entry"
      and go: "unpack_entries max_entry es
        (if name = BUNDLE_ENGINE then b\<lparr>bu_engine := Some (staged_name name)\<rparr> else b\<lparr>bu_gui := Some (staged_name name)\<rparr>)
        (tput (staged_name name) (ae_bytes e) dir) = (Inr b', dir')"
      by (auto simp: Let_def split: extraction.splits if_splits)
    have mem: "Some e \<in> set all" "set es \<subseteq> set all" using "3.prems"(2) by auto
    note new = extracted_new [OF mem(1) name(1) len]
    show ?thesis
    proof (cases "name = BUNDLE_ENGINE")
      case True
      with "3.IH"(2) [OF False _ _ io] go name len mem(2) new extracted_keep [OF "3.prems"(4)] names_differ
      show ?thesis by simp
    next
      case False
      with "3.IH"(2) [OF \<open>\<not> (ae_name e \<noteq> Some BUNDLE_ENGINE \<and> ae_name e \<noteq> Some BUNDLE_GUI)\<close> _ _ io]
        go name len mem(2) new extracted_keep [OF "3.prems"(3)] names_differ
      show ?thesis by simp
    qed
  qed
qed auto

lemma find_Some_mem: "List.find P xs = Some x \<Longrightarrow> x \<in> set xs \<and> P x"
  by (auto simp: find_Some_iff in_set_conv_nth)

lemma replace_beside_installed:
  "tget (ho_installed (snd (replace_beside ok staged name h))) p \<noteq> tget (ho_installed h) p \<Longrightarrow>
     tget (ho_installed h) p \<noteq> None \<and>
     p \<in> set ((case ho_exe_dir h of None \<Rightarrow> [] | Some d \<Rightarrow> [d @ ''/'' @ name]) @ [''/usr/bin/'' @ name])"
  by (auto simp: replace_beside_def dest!: find_Some_mem split: option.splits bool.splits if_splits)

lemma replace_beside_keeps:
  "ho_exe (snd (replace_beside ok staged name h)) = ho_exe h"
  "out \<noteq> staged \<Longrightarrow> tget (ho_dir (snd (replace_beside ok staged name h))) out = tget (ho_dir h) out"
  by (auto simp: replace_beside_def split: option.splits bool.splits)

lemma self_replace_Inr:
  "self_replace ok engine h = (Inr plan, h') \<Longrightarrow>
     \<exists>bs. tget (ho_dir h) engine = Some bs \<and> ho_installed h' = tput (ho_exe h) bs (ho_installed h) \<and>
       plan = exec_plan_of (ho_exe h) (ho_argv h)"
  by (auto simp: self_replace_def split: option.splits bool.splits)

text \<open>What may be the engine in a download: the download itself, or an entry of that name in it.\<close>

definition engine_in :: "(u8 list \<Rightarrow> arch_entry option list option) \<Rightarrow> u8 list \<Rightarrow> u8 list \<Rightarrow> bool" where
  "engine_in untar bs e \<longleftrightarrow>
     (if take 2 bs = [0x1f, 0x8b]
      then \<exists>es x. untar bs = Some es \<and> Some x \<in> set es \<and> ae_name x = Some BUNDLE_ENGINE \<and> e = ae_bytes x \<and>
             length e \<le> unat MAX_UPDATE_BYTES
      else e = bs)"

definition gui_paths :: "host \<Rightarrow> string set" where
  "gui_paths h = set ((case ho_exe_dir h of None \<Rightarrow> [] | Some d \<Rightarrow> [d @ ''/unitylan-gui'']) @ [''/usr/bin/unitylan-gui''])"

lemma apply_bytes_Inr:
  assumes "apply_bytes untar io bs h = (Inr plan, h')"
  shows "(\<exists>e. tget (ho_installed h') (ho_exe h) = Some e \<and> engine_in untar bs e) \<and>
    (\<forall>p. p \<noteq> ho_exe h \<and> tget (ho_installed h') p \<noteq> tget (ho_installed h) p \<longrightarrow>
       tget (ho_installed h) p \<noteq> None \<and> p \<in> gui_paths h)"
proof (cases "take 2 bs = [0x1f, 0x8b]")
  case False
  then have "self_replace (hi_swap io) (staged_name BUNDLE_ENGINE)
      (h\<lparr>ho_dir := tput (staged_name BUNDLE_ENGINE) bs (ho_dir h)\<rparr>) = (Inr plan, h')"
    using assms by (auto simp: apply_bytes_def Let_def split: if_splits)
  from self_replace_Inr [OF this] False show ?thesis by (auto simp: engine_in_def)
next
  case True
  obtain r dir where un: "unpack_bundle untar bs (ho_dir h) = (r, dir)" by fastforce
  with assms True obtain b where r: "r = Inr b" by (cases r) (auto simp: apply_bytes_def)
  obtain es where es: "untar bs = Some es"
    "unpack_entries (unat MAX_UPDATE_BYTES) es \<lparr>bu_engine = None, bu_gui = None\<rparr> (ho_dir h) = (Inr b, dir)"
    using un r by (auto simp: unpack_bundle_def split: option.splits)
  have ex: "extracted (unat MAX_UPDATE_BYTES) es dir BUNDLE_ENGINE (bu_engine b)"
    "extracted (unat MAX_UPDATE_BYTES) es dir BUNDLE_GUI (bu_gui b)"
    using unpack_entries_Inr [OF es(2) order.refl] by (simp_all add: extracted_def)
  let ?h1 = "h\<lparr>ho_dir := dir\<rparr>"
  let ?h2 = "case bu_gui b of None \<Rightarrow> ?h1 | Some g \<Rightarrow> snd (replace_beside (hi_move io) g ''unitylan-gui'' ?h1)"
  obtain out where out: "bu_engine b = Some out" "self_replace (hi_swap io) out ?h2 = (Inr plan, h')"
    using assms True un r by (auto simp: apply_bytes_def Let_def split: option.splits)
  obtain x where x: "out = staged_name BUNDLE_ENGINE" "Some x \<in> set es" "ae_name x = Some BUNDLE_ENGINE"
    "tget dir out = Some (ae_bytes x)" "length (ae_bytes x) \<le> unat MAX_UPDATE_BYTES"
    using ex(1) out(1) by (auto simp: extracted_def)
  have h2: "ho_exe ?h2 = ho_exe h" "tget (ho_dir ?h2) out = Some (ae_bytes x)"
    using ex(2) x(1,4) names_differ
    by (auto simp: replace_beside_keeps extracted_def staged_name_def split: option.split)
  have gui: "tget (ho_installed h) p \<noteq> None \<and> p \<in> gui_paths h" if "tget (ho_installed ?h2) p \<noteq> tget (ho_installed h) p" for p
  proof (cases "bu_gui b")
    case (Some g)
    with that replace_beside_installed [of "hi_move io" g "''unitylan-gui''" ?h1 p] show ?thesis
      by (auto simp: gui_paths_def split: option.splits)
  qed (use that in simp)
  obtain e where e: "tget (ho_dir ?h2) out = Some e" "ho_installed h' = tput (ho_exe ?h2) e (ho_installed ?h2)"
    using self_replace_Inr [OF out(2)] by blast
  with h2 have "ho_installed h' = tput (ho_exe h) (ae_bytes x) (ho_installed ?h2)" by simp
  then show ?thesis using x(2,3,5) es(1) True gui by (auto simp: engine_in_def)
qed

text \<open>C20 (only_blessed_bytes). End to end: when applying a staged update succeeds, what ran through was a file
  fetched over HTTPS whose SHA-256 and size are those in a manifest the release key signed; the engine
  installed at our own path is that file, or the engine entry of that archive, within the size ceiling;
  and nothing else installed on the host changed except a GUI that was already there. So whoever serves
  the response or the download can stop an update, and cannot choose a byte of it.\<close>

theorem only_blessed_bytes:
  assumes "stage_with b w resp f = (Some pu, f1)"
    "apply_update sha256 fetch untar io w' (Some pu) st = (Inr u, st')"
  shows "\<exists>bs e. blessed b resp pu \<and> sha256 bs = ra_sha256 (pu_artifact pu) \<and>
    length bs = unat (ra_size (pu_artifact pu)) \<and> ra_size (pu_artifact pu) \<le> MAX_UPDATE_BYTES \<and>
    take 8 (ra_url (pu_artifact pu)) = ''https://'' \<and> engine_in untar bs e \<and>
    tget (ho_installed (as_host st')) (ho_exe (as_host st)) = Some e \<and>
    (\<forall>p. p \<noteq> ho_exe (as_host st) \<and> tget (ho_installed (as_host st')) p \<noteq> tget (ho_installed (as_host st)) p \<longrightarrow>
       tget (ho_installed (as_host st)) p \<noteq> None \<and> p \<in> gui_paths (as_host st))"
proof -
  obtain bs where bs: "download_verified sha256 fetch (pu_artifact pu) = Inr bs"
    using assms(2) by (auto simp: apply_update_def split: sum.splits)
  obtain r h where ap: "apply_bytes untar io bs (as_host st) = (r, h)" by fastforce
  with assms(2) bs obtain plan where r: "r = Inr plan" and st': "as_host st' = h"
    by (cases r) (auto simp: apply_update_def split: if_splits)
  show ?thesis
    using stage_with_Some [OF assms(1)] download_verified_Inr [OF bs] apply_bytes_Inr [OF ap [unfolded r]]
    unfolding st' by blast
qed

subsection \<open>A worked release\<close>

text \<open>
  A crate that knows two versions, a release key \<open>[9]\<close>, and a manifest it signed for version 2.0.0, whose
  artifact is a three-byte engine. The digest of a file is the file.
\<close>

definition demo_semver :: "bool semver" where
  "demo_semver = \<lparr>sv_parse = (\<lambda>s. if s = ''1.0.0'' then Some False else if s = ''2.0.0'' then Some True else None),
     sv_show = (\<lambda>v. if v then ''2.0.0'' else ''1.0.0'')\<rparr>"

definition demo_artifact :: release_artifact where
  "demo_artifact = \<lparr>ra_platform = LinuxAmd64, ra_url = ''https://h/e'', ra_sha256 = [7, 8, 9], ra_size = 3\<rparr>"

definition demo_manifest :: release_manifest where
  "demo_manifest = \<lparr>rm_version = ''2.0.0'', rm_artifacts = [demo_artifact\<lparr>ra_platform := WindowsAmd64\<rparr>, demo_artifact]\<rparr>"

definition demo_build :: "bool build" where
  "demo_build = \<lparr>bd_semver = demo_semver, bd_crypto = demo_crypto, bd_signed = demo_signed_codec,
     bd_manifest = one_codec demo_manifest [3], bd_version = ''1.0.0'', bd_platform = current_platform ''linux'' ''x86_64'',
     bd_release_key = Some [9]\<rparr>"

definition demo_release :: signed where
  "demo_release = \<lparr>payload = [3], sig = demo_sign [9] [3]\<rparr>"

definition demo_offer :: register_resp where
  "demo_offer = demo_resp\<lparr>rs_release_signed := to_base64 demo_crypto demo_signed_codec demo_release\<rparr>"

definition demo_pending :: pending_update where
  "demo_pending = \<lparr>pu_version = ''2.0.0'', pu_artifact = demo_artifact\<rparr>"

definition no_update_files :: update_files where
  "no_update_files = \<lparr>uf_floor = None, uf_pending = None\<rparr>"

lemma demo_semver_ok: "semver_ok demo_semver"
proof -
  have "trim ''1.0.0'' = ''1.0.0''" "trim ''2.0.0'' = ''2.0.0''" by code_simp+
  then show ?thesis by (auto simp: semver_ok_def demo_semver_def)
qed

lemma demo_release_read:
  "\<exists>blob. to_base64 demo_crypto demo_signed_codec demo_release = Some blob \<and>
     from_base64 demo_crypto demo_signed_codec blob = Inr demo_release"
proof -
  have len: "length (sig demo_release) = 64" by (simp add: demo_release_def demo_sign_def)
  then obtain blob where "to_base64 demo_crypto demo_signed_codec demo_release = Some blob"
    by (simp add: to_base64_def demo_signed_codec_def)
  then show ?thesis using base64_roundtrip [OF demo_b64_ok demo_signed_codec_ok] by blast
qed

lemma demo_release_verified: "signed_verify demo_crypto (one_codec demo_manifest [3]) demo_release [9] = Inr demo_manifest"
  by (simp add: signed_verify_Inr demo_release_def demo_sign_def demo_crypto_def one_codec_def)

lemma demo_staged:
  "stage_with demo_build Wrote demo_offer no_update_files = (Some demo_pending, \<lparr>uf_floor = Some ''2.0.0'', uf_pending = None\<rparr>)"
proof -
  obtain blob where "to_base64 demo_crypto demo_signed_codec demo_release = Some blob"
    "from_base64 demo_crypto demo_signed_codec blob = Inr demo_release"
    using demo_release_read by blast
  then show ?thesis
    by (simp add: stage_with_def demo_offer_def demo_build_def demo_release_verified)
       (simp add: stage_manifest_def demo_manifest_def clears_floor_def read_floor_def raise_floor_def is_newer_def
          no_update_files_def current_platform_def artifact_for_def demo_semver_def demo_pending_def demo_artifact_def)
qed

lemma updates_only_forward_witness:
  "fst (stage_history demo_build [(''1.0.0'', demo_offer), (''1.0.0'', demo_resp)] no_update_files) = [Some demo_pending, None] \<and>
   blessed demo_build demo_offer demo_pending \<and> is_newer demo_semver ''2.0.0'' ''1.0.0''"
proof -
  have quiet: "stage_with demo_build Wrote demo_resp f = (None, f)" for f
    by (simp add: stage_with_def demo_build_def demo_resp_def)
  have same: "demo_build\<lparr>bd_version := ''1.0.0''\<rparr> = demo_build" by (simp add: demo_build_def)
  have run: "stage_history demo_build [(''1.0.0'', demo_offer), (''1.0.0'', demo_resp)] no_update_files =
      ([Some demo_pending, None], \<lparr>uf_floor = Some ''2.0.0'', uf_pending = None\<rparr>)"
    by (simp add: same demo_staged quiet)
  have "semver_ok (bd_semver demo_build)" by (simp add: demo_build_def demo_semver_ok)
  from conjunct1 [OF updates_only_forward [OF this run]]
  have "blessed demo_build demo_offer demo_pending \<and> is_newer (bd_semver demo_build) (pu_version demo_pending) ''1.0.0''"
    by (metis (no_types, lifting) fst_conv length_Cons nth_Cons_0 snd_conv zero_less_Suc)
  then show ?thesis unfolding run by (simp add: demo_build_def demo_pending_def)
qed

definition demo_slot :: apply_state_slot where
  "demo_slot = \<lparr>as_files = no_update_files, as_plan = None,
     as_host = \<lparr>ho_dir = [], ho_installed = [(''/usr/bin/e'', [1])], ho_exe_dir = Some ''/usr/bin'', ho_exe = ''/usr/bin/e'',
       ho_argv = [''e'', ''run'']\<rparr>\<rparr>"

definition demo_applied_update :: "(update_error + unit) \<times> apply_state_slot" where
  "demo_applied_update = apply_update id (\<lambda>_. Some [Some [7], Some [8, 9]]) (\<lambda>_. None)
     \<lparr>hi_dir = True, hi_write = True, hi_move = True, hi_swap = True\<rparr> Wrote (Some demo_pending) demo_slot"

lemma only_blessed_bytes_witness:
  "tget (ho_installed (as_host (snd demo_applied_update))) ''/usr/bin/e'' = Some [7, 8, 9] \<and>
   as_plan (snd demo_applied_update) = Some \<lparr>xp_exe = ''/usr/bin/e'', xp_args = [''run'']\<rparr> \<and>
   uf_pending (as_files (snd demo_applied_update)) = Some ''2.0.0'' \<and> blessed demo_build demo_offer demo_pending"
proof -
  have run: "demo_applied_update = (Inr (), snd demo_applied_update)"
    "as_plan (snd demo_applied_update) = Some \<lparr>xp_exe = ''/usr/bin/e'', xp_args = [''run'']\<rparr>"
    "uf_pending (as_files (snd demo_applied_update)) = Some ''2.0.0''"
    by code_simp+
  obtain bs e where "blessed demo_build demo_offer demo_pending" "bs = [7, 8, 9]" "engine_in (\<lambda>_. None) bs e"
    "tget (ho_installed (as_host (snd demo_applied_update))) ''/usr/bin/e'' = Some e"
    using only_blessed_bytes [OF demo_staged run(1) [unfolded demo_applied_update_def]]
    by (auto simp: demo_pending_def demo_artifact_def demo_slot_def demo_applied_update_def)
  with run(2,3) show ?thesis by (simp add: engine_in_def)
qed

end
