(* ===== verification/PeerDirect.thy ===== *)
theory PeerDirect
  imports Mesh
begin

section \<open>The peer-direct exchange: \<open>crates/engine/src/p2p.rs\<close>, \<open>common/src/p2p.rs\<close>\<close>

text \<open>
  What one engine answers another inside the tunnel, and what the asker makes of the answer. The JSON of the
  two envelopes is serde's, so it is a parameter, a codec per type (\<open>p2p_json\<close>); the tag its catch-all maps
  to an unknown variant is a value of the type it decodes to. What a socket delivers is an argument.
\<close>

definition P2P_MAX_DATAGRAM :: nat where "P2P_MAX_DATAGRAM = 16 * 1024"

datatype req_body = GetAttestations | GetServices | UnknownRequest

record p2p_request =
  pq_proto :: u32
  pq_body :: req_body

datatype resp_body = Attestations "guild_attestation list" | Services "mesh_service list" | Unsupported | UnknownResponse

record p2p_response =
  pp_proto :: u32
  pp_body :: resp_body

record p2p_json =
  pj_req :: "p2p_request codec"
  pj_resp :: "p2p_response codec"

subsection \<open>Answering\<close>

text \<open>The attestations of a coordinator response's grant: what \<open>OwnAttestations\<close> is set to at each of them.\<close>

definition grant_attestations :: "register_resp \<Rightarrow> guild_attestation list" where
  "grant_attestations resp = (case rs_grant resp of None \<Rightarrow> [] | Some g \<Rightarrow> gr_attestations g)"

record p2p_server =
  sv_own :: "guild_attestation list"
  sv_fw :: "firewall option"

definition visible_to :: "p2p_server \<Rightarrow> sockaddr \<Rightarrow> mesh_service list" where
  "visible_to sv peer =
     (case sa_ip peer of
        V6 a \<Rightarrow> []
      | V4 ip \<Rightarrow> (case sv_fw sv of None \<Rightarrow> [] | Some fw \<Rightarrow> services_for ip fw))"

definition answer_p2p :: "p2p_server \<Rightarrow> sockaddr \<Rightarrow> p2p_request \<Rightarrow> resp_body" where
  "answer_p2p sv from_addr req =
     (if pq_proto req \<noteq> 0 \<and> \<not> (MIN_PROTOCOL_VERSION \<le> pq_proto req \<and> pq_proto req \<le> PROTOCOL_VERSION)
      then Unsupported
      else case pq_body req of
             GetAttestations \<Rightarrow> Attestations (sv_own sv)
           | GetServices \<Rightarrow> Services (visible_to sv from_addr)
           | UnknownRequest \<Rightarrow> Unsupported)"

text \<open>
  One turn of the serve loop: what \<open>recv_from\<close> delivers (cut at the size of the buffer; \<open>None\<close> is an error)
  and the datagram sent back, if any. Every turn goes on to the next.
\<close>

definition serve_one :: "p2p_json \<Rightarrow> p2p_server \<Rightarrow> (sockaddr \<times> u8 list) option \<Rightarrow> (sockaddr \<times> u8 list) option" where
  "serve_one j sv recv =
     (case recv of
        None \<Rightarrow> None
      | Some (from_addr, dgram) \<Rightarrow>
          (case dec_of (pj_req j) (take P2P_MAX_DATAGRAM dgram) of
             None \<Rightarrow> None
           | Some req \<Rightarrow>
               map_option (Pair from_addr)
                 (enc (pj_resp j) \<lparr>pp_proto = PROTOCOL_VERSION, pp_body = answer_p2p sv from_addr req\<rparr>)))"

subsection \<open>Asking\<close>

datatype p2p_error = CannotBind | BadRequest | CannotSend | NoAnswer | BadAnswer | NotSupported | Unrecognized

text \<open>The socket of one question: whether it binds and sends, and the first datagram that reaches it in time.\<close>

record ask_io =
  ai_bind :: bool
  ai_send :: bool
  ai_first :: "(sockaddr \<times> u8 list) option"

definition ask :: "p2p_json \<Rightarrow> ask_io \<Rightarrow> sockaddr \<Rightarrow> req_body \<Rightarrow> p2p_error + resp_body" where
  "ask j io target body =
     (if \<not> ai_bind io then Inl CannotBind
      else case enc (pj_req j) \<lparr>pq_proto = PROTOCOL_VERSION, pq_body = body\<rparr> of
        None \<Rightarrow> Inl BadRequest
      | Some msg \<Rightarrow>
          if \<not> ai_send io then Inl CannotSend
          else (case ai_first io of
             None \<Rightarrow> Inl NoAnswer
           | Some (_, dgram) \<Rightarrow>
               (case dec_of (pj_resp j) (take P2P_MAX_DATAGRAM dgram) of
                  None \<Rightarrow> Inl BadAnswer
                | Some resp \<Rightarrow> Inr (pp_body resp))))"

definition unexpected :: "resp_body \<Rightarrow> p2p_error" where
  "unexpected body = (if body = Unsupported then NotSupported else Unrecognized)"

definition p2p_pull :: "p2p_json \<Rightarrow> ask_io \<Rightarrow> sockaddr \<Rightarrow> p2p_error + guild_attestation list" where
  "p2p_pull j io target =
     (case ask j io target GetAttestations of
        Inl e \<Rightarrow> Inl e
      | Inr body \<Rightarrow> (case body of Attestations as \<Rightarrow> Inr as | other \<Rightarrow> Inl (unexpected other)))"

definition pull_services :: "p2p_json \<Rightarrow> ask_io \<Rightarrow> sockaddr \<Rightarrow> p2p_error + mesh_service list" where
  "pull_services j io target =
     (case ask j io target GetServices of
        Inl e \<Rightarrow> Inl e
      | Inr body \<Rightarrow>
          (case body of
             Services svcs \<Rightarrow> Inr (take MAX_SERVICES_PER_DEVICE (filter (\<lambda>s. valid_label (ms_name s)) svcs))
           | Unsupported \<Rightarrow> Inr []
           | other \<Rightarrow> Inl (unexpected other)))"

subsection \<open>An exchange over the tunnel\<close>

text \<open>
  What the exchange relies on: the codecs invert, and a question fits a datagram. \<open>over_tunnel\<close> delivers the
  question to the server and its answer, when there is one, to the socket that asked.
\<close>

definition p2p_question :: "req_body \<Rightarrow> p2p_request" where
  "p2p_question body = \<lparr>pq_proto = PROTOCOL_VERSION, pq_body = body\<rparr>"

definition p2p_ok :: "p2p_json \<Rightarrow> bool" where
  "p2p_ok j \<longleftrightarrow> codec_ok (pj_req j) \<and> codec_ok (pj_resp j) \<and>
     (\<forall>b. \<exists>d. enc (pj_req j) (p2p_question b) = Some d \<and> length d \<le> P2P_MAX_DATAGRAM)"

definition fits :: "p2p_json \<Rightarrow> resp_body \<Rightarrow> bool" where
  "fits j body \<longleftrightarrow> (\<exists>d. enc (pj_resp j) \<lparr>pp_proto = PROTOCOL_VERSION, pp_body = body\<rparr> = Some d \<and> length d \<le> P2P_MAX_DATAGRAM)"

definition over_tunnel :: "p2p_json \<Rightarrow> p2p_server \<Rightarrow> sockaddr \<Rightarrow> sockaddr \<Rightarrow> req_body \<Rightarrow> ask_io" where
  "over_tunnel j sv me target body = \<lparr>ai_bind = True, ai_send = True,
     ai_first = (case enc (pj_req j) (p2p_question body) of
        None \<Rightarrow> None
      | Some d \<Rightarrow> map_option (\<lambda>(_, r). (target, r)) (serve_one j sv (Some (me, d))))\<rparr>"

lemma in_window: "MIN_PROTOCOL_VERSION \<le> PROTOCOL_VERSION"
  by (simp add: MIN_PROTOCOL_VERSION_def PROTOCOL_VERSION_def)

lemma ask_answered:
  assumes "p2p_ok j" "fits j (answer_p2p sv me (p2p_question body))"
  shows "ask j (over_tunnel j sv me target body) target body = Inr (answer_p2p sv me (p2p_question body))"
proof -
  obtain d where d: "enc (pj_req j) (p2p_question body) = Some d" "length d \<le> P2P_MAX_DATAGRAM"
    using assms(1) by (auto simp: p2p_ok_def)
  then have read: "dec_of (pj_req j) d = Some (p2p_question body)" using assms(1) by (auto simp: p2p_ok_def codec_ok_def)
  obtain r where r: "enc (pj_resp j) \<lparr>pp_proto = PROTOCOL_VERSION, pp_body = answer_p2p sv me (p2p_question body)\<rparr> = Some r"
    "length r \<le> P2P_MAX_DATAGRAM" using assms(2) by (auto simp: fits_def)
  then have "dec_of (pj_resp j) r = Some \<lparr>pp_proto = PROTOCOL_VERSION, pp_body = answer_p2p sv me (p2p_question body)\<rparr>"
    using assms(1) by (auto simp: p2p_ok_def codec_ok_def)
  with d read r show ?thesis by (simp add: ask_def over_tunnel_def serve_one_def p2p_question_def)
qed

lemma answer_p2p_question [simp]:
  "answer_p2p sv me (p2p_question GetAttestations) = Attestations (sv_own sv)"
  "answer_p2p sv me (p2p_question GetServices) = Services (visible_to sv me)"
  using in_window by (simp_all add: answer_p2p_def p2p_question_def)

subsection \<open>A mesh renews itself\<close>

text \<open>The engines of the mesh by key; a pull reaches the engine of a seed, if it is up, over the tunnel.\<close>

definition mesh_pull ::
  "p2p_json \<Rightarrow> sockaddr \<Rightarrow> sockaddr \<Rightarrow> (key, p2p_server) hmap \<Rightarrow> key \<Rightarrow> guild_attestation list option" where
  "mesh_pull j me target engines pk =
     (case tget engines pk of
        None \<Rightarrow> None
      | Some sv \<Rightarrow> (case p2p_pull j (over_tunnel j sv me target GetAttestations) target of
          Inl _ \<Rightarrow> None | Inr blobs \<Rightarrow> Some blobs))"

definition can_renew :: "cenv \<Rightarrow> pins \<Rightarrow> u64 \<Rightarrow> p2p_server \<Rightarrow> seed_peer \<Rightarrow> bool" where
  "can_renew cv pins now sv s \<longleftrightarrow> (\<exists>ga\<in>set (sv_own sv). \<exists>att. verify_blob cv (load_all_pinned pins) now ga = Some att \<and>
     at_wg_pubkey att = sp_pubkey s \<and> ce_contains cv (at_wg_net att) (at_wg_ip att) \<and> sp_expires_at s < at_expires_at att)"

lemma first_verified_exists:
  "ga \<in> set gas \<Longrightarrow> verify_blob cv ps now ga = Some att \<Longrightarrow> accept att \<Longrightarrow> \<exists>r. first_verified cv gas ps now accept = Some r"
  by (induction gas) (auto split: option.split)

lemma verify_blob_fresh: "verify_blob cv ps now ga = Some att \<Longrightarrow> now < at_expires_at att"
  using verify_blob_Some [of cv ps now ga att] by (auto simp: signed_under_def)

lemma mesh_pull_served:
  "p2p_ok j \<Longrightarrow> tget engines pk = Some sv \<Longrightarrow> fits j (Attestations (sv_own sv)) \<Longrightarrow>
   mesh_pull j me target engines pk = Some (sv_own sv)"
  using ask_answered [of j sv me GetAttestations target] by (simp add: mesh_pull_def p2p_pull_def)

lemma renewable:
  assumes "can_renew cv pins now sv s"
  shows "\<exists>att. verify_pulled cv (sv_own sv) (sp_pubkey s) (sp_expires_at s) pins now = Some att"
proof -
  obtain ga att where ga: "ga \<in> set (sv_own sv)" "verify_blob cv (load_all_pinned pins) now ga = Some att"
    "at_wg_pubkey att = sp_pubkey s \<and> ce_contains cv (at_wg_net att) (at_wg_ip att) \<and> sp_expires_at s < at_expires_at att"
    using assms unfolding can_renew_def by blast
  from first_verified_exists [OF ga(1,2), of "\<lambda>att. at_wg_pubkey att = sp_pubkey s \<and>
      ce_contains cv (at_wg_net att) (at_wg_ip att) \<and> sp_expires_at s < at_expires_at att"] ga(3)
  show ?thesis by (auto simp: verify_pulled_def)
qed

lemma pull_seed_renewed:
  assumes "pull (sp_pubkey s) = Some (sv_own sv)" "can_renew cv pins now sv s" "\<not> now + P2P_REFRESH_MARGIN < sp_expires_at s"
  shows "now < sp_expires_at (pull_seed cv pins now pull s) \<and> sp_expires_at s < sp_expires_at (pull_seed cv pins now pull s)"
proof -
  obtain att where v: "verify_pulled cv (sv_own sv) (sp_pubkey s) (sp_expires_at s) pins now = Some att"
    using renewable [OF assms(2)] by blast
  then have "now < at_expires_at att" by (auto simp: verify_pulled_def dest!: first_verified_Some intro: verify_blob_fresh)
  moreover have "sp_expires_at s < at_expires_at att" using verify_pulled_later [OF v] by (simp add: apply_pulled_def)
  ultimately show ?thesis using assms(1,3) v by (simp add: pull_seed_def apply_pulled_def)
qed


subsection \<open>What a device announces, another learns\<close>

definition service_pull ::
  "p2p_json \<Rightarrow> sockaddr \<Rightarrow> sockaddr \<Rightarrow> (key, p2p_server) hmap \<Rightarrow> key \<Rightarrow> mesh_service list option" where
  "service_pull j me target engines pk =
     (case tget engines pk of
        None \<Rightarrow> None
      | Some sv \<Rightarrow> (case pull_services j (over_tunnel j sv me target GetServices) target of
          Inl _ \<Rightarrow> None | Inr svcs \<Rightarrow> Some svcs))"

lemma told_valid:
  assumes "exposures_ok (fw_exposed fw)" "s \<in> set (services_for peer fw)"
  shows "valid_label (ms_name s)"
proof -
  obtain e n where "e \<in> set (fw_exposed fw)" "ex_name e = Some n" "s = service_of e n"
    using in_set_takeD [OF assms(2) [unfolded services_for_def]] unfolding told_services by blast
  with assms(1) show ?thesis by (auto simp: exposures_ok_def list_all_iff well_named_def service_of_def)
qed

lemma service_pull_served:
  assumes "p2p_ok j" "tget engines pk = Some sv" "sv_fw sv = Some fw" "sa_ip me = V4 ip" "exposures_ok (fw_exposed fw)"
    "fits j (Services (services_for ip fw))"
  shows "service_pull j me target engines pk = Some (services_for ip fw)"
proof -
  have vis: "visible_to sv me = services_for ip fw" by (simp add: visible_to_def assms(3,4))
  have "filter (\<lambda>s. valid_label (ms_name s)) (services_for ip fw) = services_for ip fw"
    using told_valid [OF assms(5)] by simp
  moreover have "length (services_for ip fw) \<le> MAX_SERVICES_PER_DEVICE" by (simp add: services_for_def)
  ultimately show ?thesis
    using ask_answered [of j sv me GetServices target] assms(1,2,6) vis by (simp add: service_pull_def pull_services_def)
qed


text \<open>
  The socket that asks takes the first datagram that reaches it, from whatever address: the services a
  peer is listed with are those of the fastest answer, though the exchange is meant to be confined to the
  tunnel. (Attestations are verified, so only services are affected.)
\<close>

lemma stranger_believed:
  assumes "p2p_ok j" "fits j (Services svcs)" "\<forall>s\<in>set svcs. valid_label (ms_name s)" "length svcs \<le> MAX_SERVICES_PER_DEVICE"
    "enc (pj_resp j) \<lparr>pp_proto = PROTOCOL_VERSION, pp_body = Services svcs\<rparr> = Some d"
  shows "pull_services j \<lparr>ai_bind = True, ai_send = True, ai_first = Some (stranger, d)\<rparr> target = Inr svcs"
proof -
  have "length d \<le> P2P_MAX_DATAGRAM" using assms(2,5) by (simp add: fits_def)
  moreover have "dec_of (pj_resp j) d = Some \<lparr>pp_proto = PROTOCOL_VERSION, pp_body = Services svcs\<rparr>"
    using assms(1,5) by (auto simp: p2p_ok_def codec_ok_def)
  moreover have "\<exists>q. enc (pj_req j) \<lparr>pq_proto = PROTOCOL_VERSION, pq_body = GetServices\<rparr> = Some q"
    using assms(1) by (auto simp: p2p_ok_def p2p_question_def)
  moreover have "filter (\<lambda>s. valid_label (ms_name s)) svcs = svcs" using assms(3) by simp
  ultimately show ?thesis using assms(4) by (auto simp: pull_services_def ask_def)
qed

subsection \<open>A worked exchange\<close>

definition demo_p2p :: "resp_body \<Rightarrow> p2p_json" where
  "demo_p2p body = \<lparr>
     pj_req = \<lparr>enc = (\<lambda>q. if pq_proto q = PROTOCOL_VERSION
         then Some [case pq_body q of GetAttestations \<Rightarrow> 1 | GetServices \<Rightarrow> 2 | UnknownRequest \<Rightarrow> 3] else None),
       dec_of = (\<lambda>b. Some (p2p_question (if b = [1] then GetAttestations else if b = [2] then GetServices else UnknownRequest)))\<rparr>,
     pj_resp = one_codec \<lparr>pp_proto = PROTOCOL_VERSION, pp_body = body\<rparr> [9]\<rparr>"

lemma demo_p2p_ok: "p2p_ok (demo_p2p body)"
proof -
  have "codec_ok (pj_req (demo_p2p body))"
    by (auto simp: codec_ok_def demo_p2p_def p2p_question_def split: req_body.splits)
  then show ?thesis by (simp add: p2p_ok_def) (simp add: demo_p2p_def p2p_question_def P2P_MAX_DATAGRAM_def)
qed

lemma demo_fits: "fits (demo_p2p body) body"
  by (simp add: fits_def demo_p2p_def one_codec_def P2P_MAX_DATAGRAM_def)



end
