(* ===== verification/Cert.thy ===== *)
theory Cert
  imports Acme LocalNet "HOL-Library.Char_ord" "HOL-Library.List_Lexorder"
begin

section \<open>Certificates: \<open>crates/engine/src/cert.rs\<close>\<close>

text \<open>
  Which names a device's certificate covers, when one is ordered, and what an order does. The CA and the
  ACME client are third-party, so what they answer is an argument (\<open>ca\<close>); the coordinator's answer to the
  post is an argument too, which the end-to-end property instantiates with the handler of \<open>Acme\<close>. The
  texts shown to the user are values (\<open>cert_reason\<close>); permissions, the reload command and its failures,
  which are only logged, are left out.
\<close>

subsection \<open>Names\<close>

record cert_names =
  cn_device :: string
  cn_primary :: "string option"
  cn_services :: "string list"

definition cert_names_new :: "string \<Rightarrow> string option \<Rightarrow> string \<Rightarrow> string list \<Rightarrow> cert_names option" where
  "cert_names_new hostname primary_alias domain svcs =
     (case certificate_alias hostname domain of
        None \<Rightarrow> None
      | Some device \<Rightarrow>
          (case after_dot device of
             None \<Rightarrow> None
           | Some user \<Rightarrow> Some \<lparr>cn_device = device,
               cn_primary = (case primary_alias of None \<Rightarrow> None | Some a \<Rightarrow> certificate_alias a domain),
               cn_services = map (\<lambda>label. lower (label @ [dot] @ user)) svcs\<rparr>))"

definition wildcard :: "cert_names \<Rightarrow> string" where
  "wildcard n = ''*.'' @ cn_device n"

definition service_label :: "cert_names \<Rightarrow> string \<Rightarrow> string option" where
  "service_label n name =
     (if name \<in> set (cn_services n) \<and> dot \<in> set name then Some (takeWhile (\<lambda>c. c \<noteq> dot) name) else None)"

definition all_names :: "cert_names \<Rightarrow> string list" where
  "all_names n = cn_device n # wildcard n # (case cn_primary n of None \<Rightarrow> [] | Some p \<Rightarrow> [p]) @ cn_services n"

subsection \<open>When to order\<close>

record issued_state =
  is_names :: "cert_names option"
  is_expires_at :: u64
  is_last_failure :: u64
  is_failures :: u32
  is_pending_since :: u64

definition fresh_state :: issued_state where
  "fresh_state = \<lparr>is_names = None, is_expires_at = 0, is_last_failure = 0, is_failures = 0, is_pending_since = 0\<rparr>"

definition sat_add :: "'a::len word \<Rightarrow> 'a word \<Rightarrow> 'a word" where
  "sat_add a b = (if a + b < a then - 1 else a + b)"

definition RENEW_BEFORE :: u64 where "RENEW_BEFORE = 30 * 24 * 60 * 60"
definition SETTLE :: u64 where "SETTLE = 10 * 60"

definition backoff :: "issued_state \<Rightarrow> u64" where
  "backoff st =
     (if is_failures st = 0 then 0
      else of_nat (min (min (300 * 2 ^ unat (min (is_failures st) 32)) (2 ^ 64 - 1)) (24 * 60 * 60)))"

record recon =
  rc_hostname :: string
  rc_primary_alias :: "string option"
  rc_dns_domain :: "string option"
  rc_enabled :: bool
  rc_exposed :: bool
  rc_services :: "string list"

definition names_wanted :: "recon \<Rightarrow> cert_names option" where
  "names_wanted r = (case rc_dns_domain r of None \<Rightarrow> None
     | Some d \<Rightarrow> cert_names_new (rc_hostname r) (rc_primary_alias r) d (rc_services r))"

definition note_pending :: "recon \<Rightarrow> u64 \<Rightarrow> issued_state \<Rightarrow> bool \<times> issued_state" where
  "note_pending r now st =
     (let matches = (names_wanted r \<noteq> None \<and> names_wanted r = is_names st);
          st1 = (if matches \<or> is_names st = None then st\<lparr>is_pending_since := 0\<rparr>
                 else if is_pending_since st = 0 then st\<lparr>is_pending_since := now\<rparr> else st)
      in (is_pending_since st1 \<noteq> is_pending_since st, st1))"

datatype 'e cert_reason = NoMeshName | NotRenewed | ExposeFirst | Reissuing u64 | Retrying u64 | IssueFailed 'e

datatype 'e action = Idle "'e cert_reason option" | Issue cert_names

definition decide :: "recon \<Rightarrow> issued_state \<Rightarrow> u64 \<Rightarrow> 'e action" where
  "decide r st now =
     (case rc_dns_domain r of
        None \<Rightarrow> Idle None
      | Some domain \<Rightarrow>
          if \<not> rc_enabled r then Idle None
          else (case cert_names_new (rc_hostname r) (rc_primary_alias r) domain (rc_services r) of
             None \<Rightarrow> Idle (Some NoMeshName)
           | Some names \<Rightarrow>
               let held = (is_names st = Some names \<and> now < is_expires_at st);
                   renew_due = (sat_sub (is_expires_at st) now < RENEW_BEFORE);
                   waited = sat_sub now (is_pending_since st);
                   retry_at = sat_add (is_last_failure st) (backoff st)
               in if \<not> rc_exposed r then Idle (Some (if held then NotRenewed else ExposeFirst))
                  else if held \<and> \<not> renew_due then Idle None
                  else if \<not> held \<and> now < is_expires_at st \<and> \<not> renew_due \<and> waited < SETTLE
                  then Idle (Some (Reissuing (max 1 (sat_sub SETTLE waited div 60))))
                  else if is_failures st > 0 \<and> now < retry_at then Idle (Some (Retrying (max 1 (sat_sub retry_at now div 60))))
                  else Issue names))"

subsection \<open>One order\<close>

datatype issue_error =
    NoAccount | NoOrder | AuthzUnread | AuthzRefused | NoDns01 | NotOrdered string | TooManyChallenges nat
  | NotPublished | NotReadied | NotValidated | NotFinalized | NotWritten_Cert | NotWritten_Key

datatype authz_status = AuthzPending | AuthzValid | AuthzOther

record authz =
  az_status :: authz_status
  az_identifier :: string
  az_dns01 :: "string option"

text \<open>What the client and the CA do in one order; a \<open>None\<close> is an error.\<close>

record ca =
  ca_client :: bool
  ca_decodes :: bool
  ca_restores :: bool
  ca_creates :: "string option"
  ca_saves :: wrote
  ca_orders :: bool
  ca_authzs :: "authz option list"
  ca_again :: "(authz option \<times> bool) list"
  ca_ready :: "bool option"
  ca_key :: "string option"
  ca_chain :: "(string \<times> u64) option"
  ca_dir :: bool
  ca_cert_write :: wrote
  ca_key_write :: wrote

record cert_files =
  cf_account :: "string option"
  cf_cert :: "string option"
  cf_key :: "string option"
  cf_state :: "issued_state option"

definition acme_account :: "ca \<Rightarrow> cert_files \<Rightarrow> (issue_error + unit) \<times> cert_files" where
  "acme_account a f =
     (if \<not> ca_client a then (Inl NoAccount, f)
      else case cf_account f of
        Some _ \<Rightarrow> (if ca_decodes a \<and> ca_restores a then Inr () else Inl NoAccount, f)
      | None \<Rightarrow>
          (case ca_creates a of
             None \<Rightarrow> (Inl NoAccount, f)
           | Some creds \<Rightarrow>
               (if ca_saves a = Wrote then Inr () else Inl NoAccount,
                f\<lparr>cf_account := put_file (ca_saves a) creds (cf_account f)\<rparr>)))"

text \<open>A map kept in key order.\<close>

fun bt_put :: "string \<Rightarrow> 'v \<Rightarrow> (string \<times> 'v) list \<Rightarrow> (string \<times> 'v) list" where
  "bt_put k v [] = [(k, v)]"
| "bt_put k v ((k', v') # m) =
     (if k = k' then (k, v) # m else if k < k' then (k, v) # (k', v') # m else (k', v') # bt_put k v m)"

type_synonym challenges = "string list \<times> string option \<times> (string \<times> string) list"

fun collect_challenges :: "cert_names \<Rightarrow> authz option list \<Rightarrow> challenges \<Rightarrow> issue_error + challenges" where
  "collect_challenges n [] acc = Inr acc"
| "collect_challenges n (None # as) acc = Inl AuthzUnread"
| "collect_challenges n (Some az # as) (dv, pv, sv) =
     (if az_status az = AuthzValid then collect_challenges n as (dv, pv, sv)
      else if az_status az = AuthzOther then Inl AuthzRefused
      else case az_dns01 az of
        None \<Rightarrow> Inl NoDns01
      | Some value \<Rightarrow>
          if az_identifier az = cn_device n \<or> az_identifier az = wildcard n
          then collect_challenges n as (dv @ [value], pv, sv)
          else if cn_primary n = Some (az_identifier az) then collect_challenges n as (dv, Some value, sv)
          else (case service_label n (az_identifier az) of
             Some label \<Rightarrow> collect_challenges n as (dv, pv, bt_put label value sv)
           | None \<Rightarrow> Inl (NotOrdered (az_identifier az))))"

fun ready_all :: "(authz option \<times> bool) list \<Rightarrow> issue_error + unit" where
  "ready_all [] = Inr ()"
| "ready_all ((None, ok) # as) = Inl AuthzUnread"
| "ready_all ((Some az, ok) # as) =
     (if az_status az \<noteq> AuthzPending then ready_all as
      else if az_dns01 az = None then Inl NoDns01
      else if \<not> ok then Inl NotReadied
      else ready_all as)"

definition finalize :: "ca \<Rightarrow> cert_files \<Rightarrow> (issue_error + u64) \<times> cert_files" where
  "finalize a f =
     (case (ca_key a, ca_chain a) of
        (Some key, Some (chain, expires_at)) \<Rightarrow>
          if \<not> ca_dir a then (Inl NotWritten_Cert, f)
          else let f1 = f\<lparr>cf_cert := put_file (ca_cert_write a) chain (cf_cert f)\<rparr>
            in if ca_cert_write a \<noteq> Wrote then (Inl NotWritten_Cert, f1)
               else let f2 = f1\<lparr>cf_key := put_file (ca_key_write a) key (cf_key f1)\<rparr>
                 in (if ca_key_write a \<noteq> Wrote then Inl NotWritten_Key else Inr expires_at, f2)
      | _ \<Rightarrow> (Inl NotFinalized, f))"

text \<open>\<open>post\<close> answers whether the coordinator published the values.\<close>

definition issue ::
  "ca \<Rightarrow> (challenges \<Rightarrow> bool) \<Rightarrow> cert_names \<Rightarrow> cert_files \<Rightarrow> (issue_error + u64) \<times> cert_files" where
  "issue a post names f =
     (case acme_account a f of
        (Inl e, f1) \<Rightarrow> (Inl e, f1)
      | (Inr _, f1) \<Rightarrow>
          if \<not> ca_orders a then (Inl NoOrder, f1)
          else (case collect_challenges names (ca_authzs a) ([], None, []) of
             Inl e \<Rightarrow> (Inl e, f1)
           | Inr (dv, pv, sv) \<Rightarrow>
               if dv = [] \<and> sv = [] then finalize a f1
               else if MAX_DEVICE_CHALLENGES < length dv then (Inl (TooManyChallenges (length dv)), f1)
               else if \<not> post (dv, pv, sv) then (Inl NotPublished, f1)
               else (case ready_all (ca_again a) of
                  Inl e \<Rightarrow> (Inl e, f1)
                | Inr _ \<Rightarrow> if ca_ready a = Some True then finalize a f1 else (Inl NotValidated, f1))))"

subsection \<open>The reconcile\<close>

record cert_status =
  ct_enabled :: bool
  ct_domain :: "string option"
  ct_names :: "string list"
  ct_paths :: "(string \<times> string) option"
  ct_expires_at :: u64
  ct_blocked :: "issue_error cert_reason option"

definition cert_paths :: "string \<Rightarrow> string \<times> string" where
  "cert_paths state_dir = (state_dir @ ''/certs/cert.pem'', state_dir @ ''/certs/key.pem'')"

text \<open>How the surroundings answer one round: the clock before and after the order, the two saves, the CA, the coordinator.\<close>

record round =
  ro_now :: u64
  ro_after :: u64
  ro_note_write :: wrote
  ro_save_write :: wrote
  ro_ca :: ca
  ro_post :: "challenges \<Rightarrow> bool"

definition load_state :: "cert_files \<Rightarrow> issued_state" where
  "load_state f = read_json_or (cf_state f) fresh_state"

definition save_state :: "wrote \<Rightarrow> issued_state \<Rightarrow> cert_files \<Rightarrow> cert_files" where
  "save_state w st f = f\<lparr>cf_state := put_file w st (cf_state f)\<rparr>"

definition noted :: "recon \<Rightarrow> round \<Rightarrow> cert_files \<Rightarrow> issued_state \<times> cert_files" where
  "noted r ro f =
     (case note_pending r (ro_now ro) (load_state f) of (moved, st) \<Rightarrow>
        (st, if moved then save_state (ro_note_write ro) st f else f))"

definition issued_report :: "string \<Rightarrow> cert_names \<Rightarrow> u64 \<Rightarrow> cert_status \<Rightarrow> cert_status" where
  "issued_report dir names expires_at c =
     c\<lparr>ct_names := all_names names, ct_paths := Some (cert_paths dir), ct_expires_at := expires_at\<rparr>"

definition held_report :: "string \<Rightarrow> recon \<Rightarrow> u64 \<Rightarrow> issued_state \<Rightarrow> cert_status" where
  "held_report dir r now st =
     (let c = \<lparr>ct_enabled = rc_enabled r, ct_domain = rc_dns_domain r, ct_names = [], ct_paths = None,
          ct_expires_at = 0, ct_blocked = None\<rparr>
      in case is_names st of
           None \<Rightarrow> c
         | Some names \<Rightarrow> if now < is_expires_at st then issued_report dir names (is_expires_at st) c else c)"

definition sat_inc :: "u32 \<Rightarrow> u32" where "sat_inc n = sat_add n 1"

definition cert_reconcile :: "string \<Rightarrow> recon \<Rightarrow> round \<Rightarrow> cert_files \<Rightarrow> cert_status \<times> cert_files" where
  "cert_reconcile dir r ro f =
     (let c = held_report dir r (ro_now ro) (load_state f)
      in case noted r ro f of (st, f1) \<Rightarrow>
        (case decide r st (ro_now ro) of
           Idle why \<Rightarrow> (c\<lparr>ct_blocked := why\<rparr>, f1)
         | Issue names \<Rightarrow>
             (case issue (ro_ca ro) (ro_post ro) names f1 of
                (Inr expires_at, f2) \<Rightarrow>
                  (issued_report dir names expires_at (c\<lparr>ct_blocked := None\<rparr>),
                   save_state (ro_save_write ro)
                     \<lparr>is_names = Some names, is_expires_at = expires_at, is_last_failure = 0, is_failures = 0,
                      is_pending_since = 0\<rparr> f2)
              | (Inl e, f2) \<Rightarrow>
                  (c\<lparr>ct_blocked := Some (IssueFailed e)\<rparr>,
                   save_state (ro_save_write ro)
                     (st\<lparr>is_failures := sat_inc (is_failures st), is_last_failure := ro_after ro\<rparr>) f2))))"

subsection \<open>Attempts are spaced\<close>

text \<open>The rounds of a device's life, and the orders they made: when, for what, with what outcome.\<close>

record attempt =
  at_now :: u64
  at_after :: u64
  at_recon :: recon
  at_names :: cert_names
  at_result :: "issue_error + u64"
  at_failures :: u32

definition attempt_of :: "recon \<Rightarrow> round \<Rightarrow> cert_files \<Rightarrow> attempt option" where
  "attempt_of r ro f =
     (case noted r ro f of (st, f1) \<Rightarrow>
        (case (decide r st (ro_now ro) :: issue_error action) of
           Idle _ \<Rightarrow> None
         | Issue names \<Rightarrow> Some \<lparr>at_now = ro_now ro, at_after = ro_after ro, at_recon = r, at_names = names,
             at_result = fst (issue (ro_ca ro) (ro_post ro) names f1), at_failures = sat_inc (is_failures st)\<rparr>))"

fun attempts :: "string \<Rightarrow> (recon \<times> round) list \<Rightarrow> cert_files \<Rightarrow> attempt list" where
  "attempts dir [] f = []"
| "attempts dir ((r, ro) # rs) f =
     (case attempt_of r ro f of None \<Rightarrow> [] | Some a \<Rightarrow> [a]) @ attempts dir rs (snd (cert_reconcile dir r ro f))"

definition saved_rounds :: "(recon \<times> round) list \<Rightarrow> bool" where
  "saved_rounds rs \<longleftrightarrow> (\<forall>(r, ro)\<in>set rs. ro_note_write ro = Wrote \<and> ro_save_write ro = Wrote)"

definition clock_times :: "(recon \<times> round) list \<Rightarrow> u64 list" where
  "clock_times rs = concat (map (\<lambda>(r, ro). [ro_now ro, ro_after ro]) rs)"

definition consented :: "recon \<Rightarrow> bool" where
  "consented r \<longleftrightarrow> rc_enabled r \<and> rc_exposed r \<and> rc_dns_domain r \<noteq> None"

definition spaced :: "attempt \<Rightarrow> attempt \<Rightarrow> bool" where
  "spaced a b \<longleftrightarrow>
     (case at_result a of
        Inr expires_at \<Rightarrow> unat (at_after a) + unat SETTLE \<le> unat (at_now b) \<or>
          unat expires_at < unat (at_now b) + unat RENEW_BEFORE
      | Inl _ \<Rightarrow> sat_add (at_after a) (backoff (fresh_state\<lparr>is_failures := at_failures a\<rparr>)) \<le> at_now b)"

text \<open>What the state remembers of the last attempt.\<close>

definition remembers :: "attempt \<Rightarrow> issued_state \<Rightarrow> bool" where
  "remembers a st \<longleftrightarrow>
     (case at_result a of
        Inr expires_at \<Rightarrow> is_names st = Some (at_names a) \<and> is_expires_at st = expires_at \<and>
          (is_pending_since st = 0 \<or> at_after a \<le> is_pending_since st)
      | Inl _ \<Rightarrow> is_failures st = at_failures a \<and> is_last_failure st = at_after a \<and> 0 < at_failures a)"

lemma sat_inc_pos: "0 < sat_inc n"
proof (rule ccontr)
  assume "\<not> 0 < sat_inc n"
  then have z: "sat_inc n = 0" using word_neq_0_conv [of "sat_inc n"] by argo
  then have "\<not> n + 1 < n" and n1: "n + 1 = 0" by (auto simp: sat_inc_def sat_add_def split: if_splits)
  then have "n = 0" using word_neq_0_conv [of n] by argo
  with n1 show False by simp
qed

lemma backoff_cong: "is_failures st = n \<Longrightarrow> backoff st = backoff (fresh_state\<lparr>is_failures := n\<rparr>)"
  by (simp add: backoff_def)

lemma noted_loads: "ro_note_write ro = Wrote \<Longrightarrow> load_state (snd (noted r ro f)) = fst (noted r ro f)"
  by (auto simp: noted_def note_pending_def Let_def load_state_def save_state_def read_json_or_def split: prod.split)

lemma note_pending_keeps:
  "is_names (snd (note_pending r now st)) = is_names st" "is_expires_at (snd (note_pending r now st)) = is_expires_at st"
  "is_failures (snd (note_pending r now st)) = is_failures st" "is_last_failure (snd (note_pending r now st)) = is_last_failure st"
  by (simp_all add: note_pending_def Let_def)

lemma noted_fst: "fst (noted r ro f) = snd (note_pending r (ro_now ro) (load_state f))"
  by (simp add: noted_def split: prod.split)

lemma remembers_noted:
  "remembers a st \<Longrightarrow> at_after a \<le> now \<Longrightarrow> remembers a (snd (note_pending r now st))"
  by (auto simp: remembers_def note_pending_def Let_def split: sum.splits)

lemma decide_Issue:
  assumes "decide r st now = (Issue names :: issue_error action)"
  shows "consented r \<and> names_wanted r = Some names \<and>
    (is_failures st > 0 \<longrightarrow> sat_add (is_last_failure st) (backoff st) \<le> now) \<and>
    (unat (is_expires_at st) < unat now + unat RENEW_BEFORE \<or>
     is_names st \<noteq> Some names \<and> unat (is_pending_since st) + unat SETTLE \<le> unat now)"
proof -
  obtain d where d: "rc_dns_domain r = Some d" "rc_enabled r" "rc_exposed r"
    "cert_names_new (rc_hostname r) (rc_primary_alias r) d (rc_services r) = Some names"
    using assms by (auto simp: decide_def Let_def split: option.splits if_splits)
  let ?x = "is_expires_at st"
  let ?due = "sat_sub ?x now < RENEW_BEFORE"
  let ?held = "is_names st = Some names \<and> now < ?x"
  have go: "\<not> (?held \<and> \<not> ?due)" "\<not> (\<not> ?held \<and> now < ?x \<and> \<not> ?due \<and> sat_sub now (is_pending_since st) < SETTLE)"
    "\<not> (0 < is_failures st \<and> now < sat_add (is_last_failure st) (backoff st))"
    using assms d by (auto simp: decide_def Let_def split: if_splits)
  have pos: "RENEW_BEFORE \<noteq> 0" "SETTLE \<noteq> 0" by (simp_all add: RENEW_BEFORE_def SETTLE_def)
  have due: "?due \<longleftrightarrow> unat ?x < unat now + unat RENEW_BEFORE"
    using pos by (simp add: sat_sub_less_iff)
  have settled: "sat_sub now (is_pending_since st) < SETTLE \<longleftrightarrow> unat now < unat (is_pending_since st) + unat SETTLE"
    using pos by (simp add: sat_sub_less_iff)
  have past: "\<not> now < ?x \<Longrightarrow> unat ?x < unat now + unat RENEW_BEFORE"
    using pos(1) unat_gt_0 [of RENEW_BEFORE] by (simp add: word_less_nat_alt)
  show ?thesis using d go due settled past by (auto simp: consented_def names_wanted_def not_less)
qed

lemma remembered_spaced:
  assumes "remembers a st" "at_after a \<le> now" "decide r (snd (note_pending r now st)) now = (Issue names :: issue_error action)"
    "at_now b = now"
  shows "spaced a b"
proof (cases "at_result a")
  case (Inl e)
  with assms(1) have f: "is_failures (snd (note_pending r now st)) = at_failures a"
    "is_last_failure (snd (note_pending r now st)) = at_after a" "0 < at_failures a"
    by (auto simp: remembers_def note_pending_keeps)
  from decide_Issue [OF assms(3)] f backoff_cong [OF f(1)] Inl assms(4) show ?thesis by (simp add: spaced_def)
next
  case (Inr x)
  let ?st = "snd (note_pending r now st)"
  have st: "is_names st = Some (at_names a)" "is_expires_at ?st = x" "is_pending_since st = 0 \<or> at_after a \<le> is_pending_since st"
    using assms(1) Inr by (auto simp: remembers_def note_pending_keeps)
  have "at_after a \<le> is_pending_since ?st" if "is_names ?st \<noteq> Some names"
    using that decide_Issue [OF assms(3)] st assms(2) by (auto simp: note_pending_def Let_def note_pending_keeps)
  with decide_Issue [OF assms(3)] Inr st(2) assms(4) show ?thesis
    by (auto simp: spaced_def word_le_nat_alt)
qed

lemma finalize_keeps_state: "cf_state (snd (finalize a f)) = cf_state f"
  by (simp add: finalize_def Let_def split: option.split prod.split)

lemma acme_account_keeps_state: "cf_state (snd (acme_account a f)) = cf_state f"
  by (simp add: acme_account_def split: option.split)

lemma issue_keeps_state: "cf_state (snd (issue a post names f)) = cf_state f"
proof -
  obtain r f1 where 1: "acme_account a f = (r, f1)" by fastforce
  then have "cf_state f1 = cf_state f" using acme_account_keeps_state [of a f] by simp
  then show ?thesis
    by (simp add: issue_def 1 finalize_keeps_state split: sum.split prod.split)
qed

lemma reconcile_idle:
  assumes "attempt_of r ro f = None" "ro_note_write ro = Wrote"
  shows "load_state (snd (cert_reconcile dir r ro f)) = snd (note_pending r (ro_now ro) (load_state f))"
proof -
  obtain st f1 where n: "noted r ro f = (st, f1)" by fastforce
  with assms(1) obtain why where "(decide r st (ro_now ro) :: issue_error action) = Idle why"
    by (cases "decide r st (ro_now ro) :: issue_error action") (auto simp: attempt_of_def)
  then have "load_state (snd (cert_reconcile dir r ro f)) = load_state f1" by (simp add: cert_reconcile_def n)
  then show ?thesis using noted_loads [OF assms(2), of r f] noted_fst [of r ro f] n by simp
qed

lemma reconcile_attempt:
  assumes "attempt_of r ro f = Some a" "ro_save_write ro = Wrote"
  shows "remembers a (load_state (snd (cert_reconcile dir r ro f))) \<and> at_now a = ro_now ro \<and> at_after a = ro_after ro \<and>
    at_recon a = r \<and>
    (decide r (snd (note_pending r (ro_now ro) (load_state f))) (ro_now ro) :: issue_error action) = Issue (at_names a)"
proof -
  obtain st f1 where n: "noted r ro f = (st, f1)" by fastforce
  with assms(1) obtain names where d: "(decide r st (ro_now ro) :: issue_error action) = Issue names"
    and a: "a = \<lparr>at_now = ro_now ro, at_after = ro_after ro, at_recon = r, at_names = names,
      at_result = fst (issue (ro_ca ro) (ro_post ro) names f1), at_failures = sat_inc (is_failures st)\<rparr>"
    by (cases "decide r st (ro_now ro) :: issue_error action") (auto simp: attempt_of_def)
  obtain res f2 where i: "issue (ro_ca ro) (ro_post ro) names f1 = (res, f2)" by fastforce
  have "remembers a (load_state (snd (cert_reconcile dir r ro f)))"
    using sat_inc_pos [of "is_failures st"]
    by (cases res) (simp_all add: cert_reconcile_def n d i a remembers_def load_state_def save_state_def assms(2) read_json_or_def)
  then show ?thesis using noted_fst [of r ro f] n d by (simp add: a)
qed

lemma attempts_after:
  assumes "remembers a (load_state f)" "saved_rounds rs" "sorted (at_after a # clock_times rs)"
  shows "successively spaced (a # attempts dir rs f)"
  using assms
proof (induction rs arbitrary: a f)
  case (Cons x rs)
  obtain r ro where x: "x = (r, ro)" by (cases x)
  have w: "ro_note_write ro = Wrote" "ro_save_write ro = Wrote" "saved_rounds rs"
    using Cons.prems(2) by (auto simp: x saved_rounds_def)
  have t: "at_after a \<le> ro_now ro" "sorted (at_after a # clock_times rs)" "sorted (ro_after ro # clock_times rs)"
    using Cons.prems(3) by (auto simp: x clock_times_def)
  let ?f = "snd (cert_reconcile dir r ro f)"
  show ?case
  proof (cases "attempt_of r ro f")
    case None
    have "remembers a (load_state ?f)"
      unfolding reconcile_idle [OF None w(1)] using remembers_noted [OF Cons.prems(1) t(1)] .
    from Cons.IH [OF this w(3) t(2)] show ?thesis by (simp add: x None)
  next
    case (Some b)
    note b = reconcile_attempt [OF Some w(2), of dir]
    have "successively spaced (b # attempts dir rs ?f)"
      using Cons.IH [of b ?f] b w(3) t(3) by simp
    moreover have "spaced a b" using remembered_spaced [OF Cons.prems(1) t(1)] b by blast
    ultimately show ?thesis by (simp add: x Some)
  qed
qed simp

lemma attempts_consented: "a \<in> set (attempts dir rs f) \<Longrightarrow> saved_rounds rs \<Longrightarrow> consented (at_recon a) \<and> names_wanted (at_recon a) = Some (at_names a)"
proof (induction dir rs f rule: attempts.induct)
  case (2 dir r ro rs f)
  have w: "ro_save_write ro = Wrote" "saved_rounds rs" using "2.prems"(2) by (auto simp: saved_rounds_def)
  show ?case
  proof (cases "attempt_of r ro f = Some a")
    case True
    from reconcile_attempt [OF this w(1)] decide_Issue show ?thesis by blast
  next
    case False
    then have "a \<in> set (attempts dir rs (snd (cert_reconcile dir r ro f)))"
      using "2.prems"(1) by (auto split: option.splits)
    from "2.IH" [OF this w(2)] show ?thesis .
  qed
qed simp

lemma attempts_spaced_from:
  assumes "saved_rounds rs" "sorted (clock_times rs)"
  shows "successively spaced (attempts dir rs f)"
  using assms
proof (induction rs arbitrary: f)
  case (Cons x rs)
  obtain r ro where x: "x = (r, ro)" by (cases x)
  have w: "ro_save_write ro = Wrote" "saved_rounds rs" using Cons.prems(1) by (auto simp: x saved_rounds_def)
  have t: "sorted (clock_times rs)" "sorted (ro_after ro # clock_times rs)" using Cons.prems(2) by (auto simp: x clock_times_def)
  show ?case
  proof (cases "attempt_of r ro f")
    case None
    then show ?thesis using Cons.IH [OF w(2) t(1)] by (simp add: x)
  next
    case (Some b)
    note b = reconcile_attempt [OF Some w(1), of dir]
    from attempts_after [of b "snd (cert_reconcile dir r ro f)" rs dir] b w(2) t(2) show ?thesis by (simp add: x Some)
  qed
qed simp

lemma backoff_bounds: "is_failures st > 0 \<Longrightarrow> 600 \<le> unat (backoff st) \<and> unat (backoff st) \<le> 86400"
proof -
  assume f: "is_failures st > 0"
  define k where "k = unat (min (is_failures st) 32)"
  have "1 \<le> k" using f by (auto simp: k_def min_def word_less_nat_alt word_le_nat_alt)
  then have two: "(2 :: nat) \<le> 2 ^ k" by (metis one_le_numeral power_increasing power_one_right)
  define m where "m = min (min (300 * 2 ^ k) (2 ^ 64 - 1)) (24 * 60 * 60 :: nat)"
  have m: "600 \<le> m" "m \<le> 86400" using two by (auto simp: m_def)
  then have "unat (of_nat m :: u64) = m" by (simp add: unat_of_nat)
  moreover have "backoff st = of_nat m" using f unfolding backoff_def m_def k_def by auto
  ultimately show ?thesis using m by simp
qed

text \<open>C32 (attempts_spaced). What keeps a device inside the CA's rate limits: over any life of the device (any
  changes of names, services, exposures and opt-in, CA and coordinator failing in any way; state files
  written, clock not going back), an order is made only with the owner's opt-in, a certificate domain and a
  port exposed, for the names wanted then; after a failed attempt the next one waits at least the backoff, ten
  minutes to a day; after an issued certificate the next order comes only when that certificate is within
  thirty days of its expiry, or no earlier than the settling time.\<close>

theorem attempts_spaced:
  assumes "saved_rounds rs" "sorted (clock_times rs)"
  shows "successively spaced (attempts dir rs f) \<and>
    (\<forall>a\<in>set (attempts dir rs f). consented (at_recon a) \<and> names_wanted (at_recon a) = Some (at_names a)) \<and>
    (\<forall>n>0. 600 \<le> unat (backoff (fresh_state\<lparr>is_failures := n\<rparr>)) \<and> unat (backoff (fresh_state\<lparr>is_failures := n\<rparr>)) \<le> 86400)"
  using attempts_spaced_from [OF assms] attempts_consented [OF _ assms(1)] backoff_bounds by simp

subsection \<open>What a certificate covers\<close>

lemma dot_split: "dot \<notin> set a \<Longrightarrow> dot \<notin> set b \<Longrightarrow> a @ dot # x = b @ dot # y \<longleftrightarrow> a = b \<and> x = y"
proof (induction a arbitrary: b)
  case Nil then show ?case by (cases b) auto
next
  case (Cons c a) then show ?case by (cases b) auto
qed

lemma lower_dot_Cons [simp]: "lower (dot # s) = dot # lower s"
  using lower_append [of "[dot]" s] by (simp add: lower_def to_lower_def is_upper_def dot_def)

lemma lower_clean: "\<forall>c\<in>set l. label_char c \<Longrightarrow> lower l = l" "\<forall>c\<in>set l. label_char c \<Longrightarrow> dot \<notin> set l"
  "\<forall>c\<in>set l. label_char c \<Longrightarrow> l \<noteq> ''*''"
  using label_char_lower [of l] by (auto simp: label_char_def is_lower_def is_digit_def dash_def)

lemma valid_clean: "valid_label l \<Longrightarrow> lower l = l" "valid_label l \<Longrightarrow> dot \<notin> set l" "valid_label l \<Longrightarrow> l \<noteq> ''*''"
  using valid_label_lower valid_label_no_dot by (auto simp: valid_label_def is_lower_def is_digit_def dash_def)

text \<open>The host names a name of a certificate stands for: itself, or one label in place of the star.\<close>

definition covers :: "string \<Rightarrow> string \<Rightarrow> bool" where
  "covers p h \<longleftrightarrow> h = p \<or> (\<exists>rest l. p = ''*'' @ dot # rest \<and> dot \<notin> set l \<and> h = l @ dot # rest)"

definition mesh_host :: "string \<Rightarrow> string \<Rightarrow> string" where
  "mesh_host dn u = dn @ dot # u @ dotted_suffix"

lemma trim_mesh: "trim_end_dot (s @ dotted_suffix) = s @ dotted_suffix"
  using trim_end_dot_fixed last_dotted_suffix by blast

lemma certificate_alias_host: "certificate_alias (s @ dotted_suffix) domain = Some (lower (s @ [dot] @ domain))"
  by (simp add: certificate_alias_def trim_mesh)

lemma cert_names_new_host:
  assumes "\<forall>c\<in>set dn. label_char c" "\<forall>c\<in>set u. label_char c" "\<forall>l\<in>set svcs. valid_label l"
  shows "cert_names_new (mesh_host dn u) alias domain svcs = Some
    \<lparr>cn_device = dn @ dot # u @ dot # lower domain,
     cn_primary = (case alias of None \<Rightarrow> None | Some a \<Rightarrow> certificate_alias a domain),
     cn_services = map (\<lambda>l. l @ dot # u @ dot # lower domain) svcs\<rparr>"
proof -
  note low = lower_clean [OF assms(1)] lower_clean [OF assms(2)]
  have "certificate_alias (mesh_host dn u) domain = Some (dn @ dot # u @ dot # lower domain)"
    using certificate_alias_host [of "dn @ dot # u" domain] by (simp add: mesh_host_def low)
  moreover have "after_dot (dn @ dot # u @ dot # lower domain) = Some (u @ dot # lower domain)"
    using low(2) by (rule after_dot_append)
  moreover have "lower (lower domain) = lower domain" by simp
  ultimately show ?thesis using assms(3) by (simp add: cert_names_new_def low valid_clean)
qed

lemma wildcard_dot: "wildcard n = ''*'' @ dot # cn_device n"
  by (simp add: wildcard_def dot_def)

lemma self_not_suffix: "xs \<noteq> a @ b # xs"
  by (metis append_Cons append_Nil append_assoc append_self_conv2 list.distinct(1) snoc_eq_iff_butlast)

lemma pair_host:
  "d @ dot # v @ dot # r = x @ dot # u @ dot # r \<Longrightarrow> dot \<notin> set d \<Longrightarrow> dot \<notin> set v \<Longrightarrow> dot \<notin> set x \<Longrightarrow> dot \<notin> set u \<Longrightarrow>
   v = u \<and> d = x"
  using dot_split [of d x] dot_split [of v u] by auto

lemma no_deeper: "d @ dot # v @ dot # r = l @ dot # x @ dot # u @ dot # r \<Longrightarrow> dot \<notin> set d \<Longrightarrow> dot \<notin> set v \<Longrightarrow> dot \<notin> set l \<Longrightarrow> dot \<notin> set x \<Longrightarrow> False"
  using dot_split [of d l] dot_split [of v x] self_not_suffix [of r u dot] by auto

lemma no_star: "x @ dot # r = ''*'' @ dot # rest \<Longrightarrow> dot \<notin> set x \<Longrightarrow> x = ''*''"
  using dot_split [of x "''*''"] by (simp add: dot_def)

text \<open> A device's certificate speaks for that device: among the names
  \<open><label>.<user>.<domain>\<close> of the deployment it covers only the device's own and the services it ordered, all
  of them its owner's; the wildcard below it reaches no sibling device and no other user.\<close>

theorem cert_names_confined:
  assumes "cert_names_new (mesh_host dn u) alias domain svcs = Some n" "\<forall>c\<in>set dn. label_char c" "\<forall>c\<in>set u. label_char c"
    "alias = None \<or> alias = Some (u @ dotted_suffix)" "\<forall>l\<in>set svcs. valid_label l"
    "p \<in> set (all_names n)" "covers p (d @ dot # v @ dot # lower domain)" "dot \<notin> set d" "dot \<notin> set v"
  shows "v = u \<and> (d = dn \<or> d \<in> set svcs)"
proof -
  let ?r = "lower domain"
  note clean = lower_clean [OF assms(2)] lower_clean [OF assms(3)]
  have n: "n = \<lparr>cn_device = dn @ dot # u @ dot # ?r, cn_primary = (case alias of None \<Rightarrow> None | Some a \<Rightarrow> certificate_alias a domain),
     cn_services = map (\<lambda>l. l @ dot # u @ dot # ?r) svcs\<rparr>"
    using assms(1) cert_names_new_host [OF assms(2,3,5)] by simp
  have primary: "cn_primary n = None \<or> cn_primary n = Some (u @ dot # ?r)"
    using assms(4) certificate_alias_host [of u domain] by (auto simp: n clean)
  have svc: "dot \<notin> set l \<and> l \<noteq> ''*''" if "l \<in> set svcs" for l using assms(5) that valid_clean by blast
  consider "p = ''*'' @ dot # dn @ dot # u @ dot # ?r" | "p = u @ dot # ?r" | x where "p = x @ dot # u @ dot # ?r" "x = dn \<or> x \<in> set svcs"
    using assms(6) primary by (auto simp: all_names_def wildcard_dot n)
  then show ?thesis
  proof cases
    case 1
    then have "\<exists>l. dot \<notin> set l \<and> d @ dot # v @ dot # ?r = l @ dot # dn @ dot # u @ dot # ?r"
      using assms(7) unfolding covers_def by (auto simp: dot_def intro: exI [of _ "''*''"])
    then show ?thesis using no_deeper [OF _ assms(8,9) _ clean(2)] by blast
  next
    case 2
    then have "p = d @ dot # v @ dot # ?r"
      using assms(7) no_star [of u ?r] clean(5,6) unfolding covers_def by metis
    with 2 have "d = u \<and> v @ dot # ?r = ?r" using dot_split [OF assms(8) clean(5)] by simp
    then show ?thesis using self_not_suffix [of ?r v dot] by metis
  next
    case 3
    then have x: "dot \<notin> set x" "x \<noteq> ''*''" using clean svc by auto
    then have "p = d @ dot # v @ dot # ?r"
      using assms(7) no_star [of x "u @ dot # ?r"] 3(1) unfolding covers_def by metis
    with 3(1) have "d @ dot # v @ dot # ?r = x @ dot # u @ dot # ?r" by simp
    from pair_host [OF this assms(8,9) x(1) clean(5)] 3(2) show ?thesis by blast
  qed
qed

subsection \<open>An order, from the device to the zone\<close>

text \<open>Where the CA looks for the value of an identifier: below it, a wildcard at its base.\<close>

definition ca_looks_at :: "string \<Rightarrow> string" where
  "ca_looks_at i = ''_acme-challenge.'' @ (if take 2 i = ''*.'' then drop 2 i else i)"

definition pending_authzs :: "(string \<times> string) list \<Rightarrow> authz option list" where
  "pending_authzs ivs = map (\<lambda>(i, v). Some \<lparr>az_status = AuthzPending, az_identifier = i, az_dns01 = Some v\<rparr>) ivs"

definition request_of :: "string \<Rightarrow> challenges \<Rightarrow> acme_req" where
  "request_of token ch = (case ch of (dv, pv, sv) \<Rightarrow>
     \<lparr>ar_token = token, ar_device = dv, ar_primary = pv, ar_services = sv\<rparr>)"

lemma bt_put_set: "k \<notin> fst ` set m \<Longrightarrow> set (bt_put k v m) = insert (k, v) (set m) \<and> length (bt_put k v m) = Suc (length m)"
  by (induction k v m rule: bt_put.induct) auto

lemma bt_put_all:
  "distinct (map fst lvs) \<Longrightarrow> fst ` set lvs \<inter> fst ` set m = {} \<Longrightarrow>
   set (fold (\<lambda>(l, v). bt_put l v) lvs m) = set lvs \<union> set m \<and>
   length (fold (\<lambda>(l, v). bt_put l v) lvs m) = length lvs + length m"
proof (induction lvs arbitrary: m)
  case (Cons x lvs)
  obtain l v where x: "x = (l, v)" by (cases x)
  have "set (bt_put l v m) = insert (l, v) (set m) \<and> length (bt_put l v m) = Suc (length m)"
    using Cons.prems by (intro bt_put_set) (auto simp: x)
  moreover from this have "fst ` set lvs \<inter> fst ` set (bt_put l v m) = {}" using Cons.prems by (auto simp: x)
  ultimately show ?case using Cons.IH [of "bt_put l v m"] Cons.prems by (auto simp: x)
qed simp

definition order_names :: "string \<Rightarrow> string \<Rightarrow> bool \<Rightarrow> string \<Rightarrow> string list \<Rightarrow> cert_names" where
  "order_names dn u prim domain svcs = \<lparr>cn_device = dn @ dot # u @ dot # lower domain,
     cn_primary = (if prim then Some (u @ dot # lower domain) else None),
     cn_services = map (\<lambda>l. l @ dot # u @ dot # lower domain) svcs\<rparr>"

lemma collect_services:
  assumes "\<forall>l\<in>set svcs. valid_label l \<and> l \<noteq> dn" "\<forall>(l, v)\<in>set lvs. l \<in> set svcs" "dot \<notin> set dn" "dot \<notin> set u"
  shows "collect_challenges (order_names dn u prim domain svcs)
      (pending_authzs (map (\<lambda>(l, v). (l @ dot # u @ dot # lower domain, v)) lvs)) (dv, pv, sv) =
    Inr (dv, pv, fold (\<lambda>(l, v). bt_put l v) lvs sv)"
  using assms(2)
proof (induction lvs arbitrary: sv)
  case (Cons x lvs)
  obtain l v where x: "x = (l, v)" by (cases x)
  with Cons.prems assms(1) have l: "l \<in> set svcs" "valid_label l" "l \<noteq> dn" by auto
  note clean = valid_clean [OF l(2)]
  let ?n = "order_names dn u prim domain svcs"
  let ?s = "l @ dot # u @ dot # lower domain"
  have "?s \<noteq> cn_device ?n" using dot_split [OF clean(2) assms(3)] l(3) by (simp add: order_names_def)
  moreover have "?s \<noteq> wildcard ?n"
    using no_star [OF _ clean(2)] clean(3) unfolding wildcard_dot by blast
  moreover have "cn_primary ?n \<noteq> Some ?s"
    using self_not_suffix [of "u @ dot # lower domain" l dot] by (auto simp: order_names_def)
  moreover have "service_label ?n ?s = Some l"
    using l(1) clean(2) by (auto simp: service_label_def order_names_def takeWhile_append)
  ultimately show ?case using Cons.IH Cons.prems by (simp add: x pending_authzs_def)
qed (simp add: pending_authzs_def)

lemma acme_label_lower: "lower ''_acme-challenge.'' = ''_acme-challenge.''"
  by code_simp

lemma looks_plain: "dot \<notin> set x \<Longrightarrow> x \<noteq> ''*'' \<Longrightarrow> ca_looks_at (x @ dot # r) = ''_acme-challenge.'' @ x @ dot # r"
proof -
  assume x: "dot \<notin> set x" "x \<noteq> ''*''"
  have "take 2 (x @ dot # r) \<noteq> ''*.''"
  proof
    assume "take 2 (x @ dot # r) = ''*.''"
    then have "x @ dot # r = ''*'' @ dot # drop 2 (x @ dot # r)"
      using append_take_drop_id [of 2 "x @ dot # r"] by (simp add: dot_def)
    from no_star [OF this x(1)] x(2) show False by simp
  qed
  then show ?thesis by (simp add: ca_looks_at_def)
qed

lemma looks_wildcard: "ca_looks_at (wildcard n) = ''_acme-challenge.'' @ cn_device n"
  by (simp add: ca_looks_at_def wildcard_def)

lemma challenge_name_lower: "challenge_name s domain = ''_acme-challenge.'' @ lower s @ dot # lower domain"
  unfolding challenge_name_def lower_append acme_label_lower
  by (simp add: lower_def to_lower_def is_upper_def dot_def)

lemma collect_all:
  assumes "\<forall>c\<in>set dn. label_char c" "\<forall>c\<in>set u. label_char c" "\<forall>l\<in>set svcs. valid_label l \<and> l \<noteq> dn" "distinct svcs"
    "length ss = length svcs" "length ps = (if prim then 1 else 0)"
  shows "\<exists>sv. collect_challenges (order_names dn u prim domain svcs)
      (pending_authzs (zip (all_names (order_names dn u prim domain svcs)) (v1 # v2 # ps @ ss))) ([], None, []) =
      Inr ([v1, v2], if prim then Some (hd ps) else None, sv) \<and> set sv = set (zip svcs ss) \<and> length sv = length svcs"
proof -
  let ?n = "order_names dn u prim domain svcs"
  let ?lvs = "zip svcs ss"
  have clean: "dot \<notin> set dn" "dn \<noteq> ''*''" "dot \<notin> set u" "u \<noteq> ''*''"
    using lower_clean [OF assms(1)] lower_clean [OF assms(2)] by auto
  have svc: "zip (map (\<lambda>l. l @ dot # u @ dot # lower domain) svcs) ss = map (\<lambda>(l, v). (l @ dot # u @ dot # lower domain, v)) ?lvs"
    by (simp add: zip_map1)
  have lvs: "\<forall>(l, v)\<in>set ?lvs. l \<in> set svcs" by (auto dest: set_zip_leftD)
  have P: "u @ dot # lower domain \<noteq> cn_device ?n" "u @ dot # lower domain \<noteq> wildcard ?n"
    using self_not_suffix [of "u @ dot # lower domain" dn dot] no_star [OF _ clean(3)] clean(4)
    by (auto simp: order_names_def wildcard_dot)
  have tail: "collect_challenges ?n (pending_authzs (zip (cn_services ?n) ss)) (dv, pv, []) =
      Inr (dv, pv, fold (\<lambda>(l, v). bt_put l v) ?lvs [])" for dv pv
    using collect_services [OF assms(3) lvs clean(1,3)] svc by (simp add: order_names_def)
  have "set (fold (\<lambda>(l, v). bt_put l v) ?lvs []) = set ?lvs \<and> length (fold (\<lambda>(l, v). bt_put l v) ?lvs []) = length svcs"
    using bt_put_all [of ?lvs "[]"] assms(4,5) by simp
  moreover have "collect_challenges ?n (pending_authzs (zip (all_names ?n) (v1 # v2 # ps @ ss))) ([], None, []) =
      Inr ([v1, v2], if prim then Some (hd ps) else None, fold (\<lambda>(l, v). bt_put l v) ?lvs [])"
  proof (cases prim)
    case True
    with assms(6) obtain p where "ps = [p]" by (cases ps) auto
    moreover have "cn_primary ?n = Some (u @ dot # lower domain)" using True by (simp add: order_names_def)
    ultimately show ?thesis using P tail [of "[v1, v2]" "Some p"] True by (simp add: all_names_def pending_authzs_def)
  next
    case False
    then have "ps = []" "cn_primary ?n = None" using assms(6) by (simp_all add: order_names_def)
    then show ?thesis using tail [of "[v1, v2]" None] False by (simp add: all_names_def pending_authzs_def)
  qed
  ultimately show ?thesis by blast
qed

text \<open>C7 (order_published). Engine, CA and coordinator fit together: when the CA raises a challenge for every name
  a device orders (its own, the wildcard below it, the owner's alias if it is the primary, the services the
  coordinator registered for it), one post of the engine is accepted and the zone gets, for every name, the
  value of its challenge at the very place the CA looks for it. So an order for the names the engine computes
  never fails for want of a record.\<close>

theorem order_published:
  assumes "cert_names_new (mesh_host dn u) (if prim then Some (u @ dotted_suffix) else None) domain svcs = Some n"
    "\<forall>c\<in>set dn. label_char c" "\<forall>c\<in>set u. label_char c" "\<forall>l\<in>set svcs. valid_label l \<and> l \<noteq> dn" "distinct svcs"
    "device_by_token st token = Inr (Some (uid, pk))" "allocated_user_label st uid = Some u" "device_name_of st pk = Some dn"
    "prim \<Longrightarrow> primary_pubkey st uid = Inr (Some pk)"
    "set svcs \<subseteq> set (device_services st pk)" "length svcs \<le> MAX_WEB_SERVICES_PER_DEVICE"
    "length vs = length (all_names n)" "\<forall>v\<in>set vs. valid_challenge_value v"
  shows "\<exists>ch records. collect_challenges n (pending_authzs (zip (all_names n) vs)) ([], None, []) = Inr ch \<and>
    acme_order (Some domain) (request_of token ch) st = Inr (pk, records) \<and>
    (\<forall>(i, v)\<in>set (zip (all_names n) vs). (ca_looks_at i, v) \<in> set records)"
proof -
  have valid: "\<forall>l\<in>set svcs. valid_label l" using assms(4) by blast
  note low = lower_clean [OF assms(2)] lower_clean [OF assms(3)]
  have n: "n = order_names dn u prim domain svcs"
    using assms(1) cert_names_new_host [OF assms(2,3) valid] certificate_alias_host [of u domain]
    by (auto simp: order_names_def low)
  define k where "k = (if prim then 1 else 0 :: nat)"
  obtain v1 v2 r where r: "vs = v1 # v2 # r" "length r = k + length svcs"
    using assms(12) by (auto simp: n all_names_def order_names_def k_def length_Suc_conv split: if_splits)
  define ps ss where "ps = take k r" and "ss = drop k r"
  have vs: "vs = v1 # v2 # ps @ ss" "length ss = length svcs" "length ps = k"
    using r by (simp_all add: ps_def ss_def)
  obtain sv where sv: "collect_challenges n (pending_authzs (zip (all_names n) vs)) ([], None, []) =
      Inr ([v1, v2], if prim then Some (hd ps) else None, sv)" "set sv = set (zip svcs ss)" "length sv = length svcs"
    using collect_all [OF assms(2-5) vs(2)] vs(1,3) unfolding n k_def by blast
  let ?ch = "([v1, v2], if prim then Some (hd ps) else None, sv)"
  let ?req = "request_of token ?ch"
  have hd: "prim \<Longrightarrow> ps = [hd ps]" using vs(3) by (cases ps) (auto simp: k_def)
  have first: "valid_challenge_value (hd ps)" if prim
    using assms(13) vs(1,3) that by (cases ps) (simp_all add: k_def)
  have "list_all valid_challenge_value (order_values ?req)"
    using assms(13) first sv(2)
    by (auto simp: order_values_def request_of_def list_all_iff vs(1) dest!: set_zip_rightD)
  then have order: "acme_order (Some domain) ?req st = Inr (pk, acme_records st pk u dn domain prim ?req)"
    using assms(6-9,11) sv(3)
    by (auto simp: acme_order_def request_of_def MAX_DEVICE_CHALLENGES_def)
  have svc: "filter (\<lambda>(label, value). label \<in> set (device_services st pk)) sv = sv"
    using assms(10) sv(2) by (auto intro!: filter_True dest: set_zip_leftD)
  have recs: "set (acme_records st pk u dn domain prim ?req) =
      {(''_acme-challenge.'' @ dn @ dot # u @ dot # lower domain, v1), (''_acme-challenge.'' @ dn @ dot # u @ dot # lower domain, v2)} \<union>
      (\<lambda>(l, v). (''_acme-challenge.'' @ l @ dot # u @ dot # lower domain, v)) ` set (zip svcs ss) \<union>
      (if prim then {(''_acme-challenge.'' @ u @ dot # lower domain, hd ps)} else {})"
  proof -
    have "(\<lambda>(label, value). (challenge_name (label @ [dot] @ u) domain, value)) ` set sv =
        (\<lambda>(l, v). (''_acme-challenge.'' @ l @ dot # u @ dot # lower domain, v)) ` set (zip svcs ss)"
      unfolding sv(2) using valid valid_clean(1)
      by (intro image_cong refl) (auto simp: challenge_name_lower low dest!: set_zip_leftD)
    then show ?thesis
      by (simp add: acme_records_def request_of_def svc challenge_name_lower low)
  qed
  have "(ca_looks_at i, v) \<in> set (acme_records st pk u dn domain prim ?req)" if "(i, v) \<in> set (zip (all_names n) vs)" for i v
  proof -
    have names: "all_names n = (dn @ dot # u @ dot # lower domain) # wildcard n # (if prim then [u @ dot # lower domain] else []) @
        map (\<lambda>l. l @ dot # u @ dot # lower domain) svcs"
      by (simp add: n all_names_def order_names_def)
    have svcs: "zip (map (\<lambda>l. l @ dot # u @ dot # lower domain) svcs) ss = map (\<lambda>(l, v). (l @ dot # u @ dot # lower domain, v)) (zip svcs ss)"
      by (simp add: zip_map1)
    have "zip (all_names n) vs = (dn @ dot # u @ dot # lower domain, v1) # (wildcard n, v2) #
        (if prim then [(u @ dot # lower domain, hd ps)] else []) @ map (\<lambda>(l, v). (l @ dot # u @ dot # lower domain, v)) (zip svcs ss)"
      unfolding names vs(1) using vs(3) svcs by (cases ps) (simp_all add: k_def split: if_splits)
    with that have "(i, v) \<in> set \<dots>" by simp
    then consider "i = dn @ dot # u @ dot # lower domain" "v = v1" | "i = wildcard n" "v = v2" |
      "prim" "i = u @ dot # lower domain" "v = hd ps" | l where "i = l @ dot # u @ dot # lower domain" "(l, v) \<in> set (zip svcs ss)"
      by (auto split: if_splits)
    then show ?thesis
    proof cases
      case 1 then show ?thesis unfolding recs using looks_plain low by auto
    next
      case 2 then show ?thesis unfolding recs by (simp add: looks_wildcard n order_names_def)
    next
      case 3 then show ?thesis unfolding recs using looks_plain low by auto
    next
      case 4
      then have "valid_label l" using valid by (auto dest: set_zip_leftD)
      with 4 show ?thesis unfolding recs using looks_plain valid_clean by (force simp: image_iff)
    qed
  qed
  with sv(1) order show ?thesis
    by (intro exI [of _ ?ch] exI [of _ "acme_records st pk u dn domain prim ?req"]) blast
qed

subsection \<open>Orders that cannot succeed\<close>

text \<open>
  A CA reuses an authorization for weeks. When the device's own name is still authorized and a service is
  new, the engine posts only the service's value, which the coordinator refuses because a post without a
  value for the device name is malformed to it. When only the owner's alias is new (the device became the
  primary), its value is collected and then nothing is posted at all: the order is finalized while the CA
  still waits for that challenge. Both orders fail until the reused authorization expires.
\<close>

lemma reused_device_refused:
  assumes "service_label n i = Some l" "i \<noteq> cn_device n" "i \<noteq> wildcard n" "cn_primary n \<noteq> Some i"
    "device_by_token st token = Inr (Some (uid, pk))" "allocated_user_label st uid = Some u" "device_name_of st pk = Some dn"
    "ca_authzs a = [Some \<lparr>az_status = AuthzValid, az_identifier = cn_device n, az_dns01 = x\<rparr>,
       Some \<lparr>az_status = AuthzPending, az_identifier = i, az_dns01 = Some v\<rparr>]"
    "post = (\<lambda>ch. isOk (acme_order (Some domain) (request_of token ch) st))"
  shows "collect_challenges n (ca_authzs a) ([], None, []) = Inr ([], None, [(l, v)]) \<and>
    acme_order (Some domain) (request_of token ([], None, [(l, v)])) st = Inl (ApiError BAD_REQUEST) \<and>
    (\<exists>e f1. issue a post n f = (Inl e, f1) \<and> e \<in> {NoAccount, NoOrder, NotPublished})"
proof -
  have c: "collect_challenges n (ca_authzs a) ([], None, []) = Inr ([], None, [(l, v)])"
    using assms(1-4) by (simp add: assms(8))
  have o: "acme_order (Some domain) (request_of token ([], None, [(l, v)])) st = Inl (ApiError BAD_REQUEST)"
    using assms(5-7) by (simp add: acme_order_def request_of_def)
  obtain r f1 where acc: "acme_account a f = (r, f1)" by fastforce
  then have "r = Inl NoAccount \<or> r = Inr ()" by (auto simp: acme_account_def split: if_splits option.splits)
  with acc c o show ?thesis by (auto simp: issue_def assms(9))
qed

lemma new_alias_unposted:
  assumes "cn_primary n = Some p" "p \<noteq> cn_device n" "p \<noteq> wildcard n"
    "ca_authzs a = [Some \<lparr>az_status = AuthzValid, az_identifier = cn_device n, az_dns01 = x\<rparr>,
       Some \<lparr>az_status = AuthzPending, az_identifier = p, az_dns01 = Some v\<rparr>]"
    "ca_orders a" "acme_account a f = (Inr (), f1)"
  shows "collect_challenges n (ca_authzs a) ([], None, []) = Inr ([], Some v, []) \<and> issue a post n f = finalize a f1"
  using assms by (simp add: issue_def)

text \<open>
  The settling time counts from the first change, not from the last: names that change again just before it
  is over are ordered at once. And the backoff after the first failure is ten minutes, not five.
\<close>

lemma churn_not_awaited:
  assumes "is_names st \<noteq> None" "is_pending_since st \<noteq> 0" "names_wanted r = Some n" "is_names st \<noteq> Some n" "consented r"
    "is_failures st = 0" "sat_sub now (is_pending_since st) \<ge> SETTLE"
  shows "(decide r (snd (note_pending r now st)) now :: 'e action) = Issue n"
proof -
  have keep: "snd (note_pending r now st) = st" using assms(1-4) by (simp add: note_pending_def)
  obtain d where "rc_dns_domain r = Some d" "cert_names_new (rc_hostname r) (rc_primary_alias r) d (rc_services r) = Some n"
    using assms(3) by (auto simp: names_wanted_def split: option.splits)
  with assms(4-7) show ?thesis by (simp add: keep decide_def consented_def Let_def not_less [symmetric])
qed

lemma first_backoff: "backoff (fresh_state\<lparr>is_failures := 1\<rparr>) = 600"
  by (simp add: backoff_def)

text \<open>A key that cannot be written leaves the new certificate beside the old key.\<close>

lemma torn_pair:
  assumes "ca_key a = Some key" "ca_chain a = Some (chain, x)" "ca_dir a" "ca_cert_write a = Wrote" "ca_key_write a = NotWritten"
  shows "finalize a f = (Inl NotWritten_Key, f\<lparr>cf_cert := Some chain\<rparr>)"
  using assms by (cases f) (simp add: finalize_def Let_def)

subsection \<open>Witnesses\<close>

definition demo_cert_store :: store where
  "demo_cert_store = demo_acme\<lparr>services := [\<lparr>sv_user = 7, sv_label = ''git'', sv_pubkey = replicate 32 1\<rparr>],
     primary_device := [(7, replicate 32 1)]\<rparr>"

lemma demo_cert_tokens:
  "device_by_token demo_cert_store ''s'' = Inr (Some (7, replicate 32 1))"
  "allocated_user_label demo_cert_store 7 = Some ''alice''"
  "device_name_of demo_cert_store (replicate 32 1) = Some ''nas''"
  "primary_pubkey demo_cert_store 7 = Inr (Some (replicate 32 1))"
  "device_services demo_cert_store (replicate 32 1) = [''git'']"
  by (simp_all add: demo_cert_store_def demo_acme_def demo_dev_def device_by_token_def pubkey_from_blob_def empty_store_def
      allocated_user_label_def lookup_user_label_def tget_def device_name_of_def find_device_row_def primary_pubkey_def
      device_services_def)

lemma demo_clean: "\<forall>c\<in>set ''nas''. label_char c" "\<forall>c\<in>set ''alice''. label_char c" "valid_label ''git''"
  by code_simp+

lemma demo_cert_names:
  "cert_names_new (mesh_host ''nas'' ''alice'') (Some (''alice'' @ dotted_suffix)) ''a.b'' [''git''] =
   Some \<lparr>cn_device = ''nas.alice.a.b'', cn_primary = Some ''alice.a.b'', cn_services = [''git.alice.a.b'']\<rparr>"
  by code_simp

lemma cert_names_confined_witness:
  "covers (wildcard \<lparr>cn_device = ''nas.alice.a.b'', cn_primary = Some ''alice.a.b'', cn_services = [''git.alice.a.b'']\<rparr>) ''plex.nas.alice.a.b'' \<and>
   (''alice'' = ''alice'' \<and> (''git'' = ''nas'' \<or> ''git'' \<in> set [''git'']))"
proof
  show "covers (wildcard \<lparr>cn_device = ''nas.alice.a.b'', cn_primary = Some ''alice.a.b'', cn_services = [''git.alice.a.b'']\<rparr>) ''plex.nas.alice.a.b''"
    unfolding covers_def wildcard_def by (intro disjI2 exI [of _ "''nas.alice.a.b''"] exI [of _ "''plex''"]) (simp add: dot_def)
  have p: "''git.alice.a.b'' \<in> set (all_names \<lparr>cn_device = ''nas.alice.a.b'', cn_primary = Some ''alice.a.b'', cn_services = [''git.alice.a.b'']\<rparr>)"
    by (simp add: all_names_def)
  have "lower ''a.b'' = ''a.b''" by code_simp
  then have "covers ''git.alice.a.b'' (''git'' @ dot # ''alice'' @ dot # lower ''a.b'')" by (simp add: covers_def dot_def)
  then show "''alice'' = ''alice'' \<and> (''git'' = ''nas'' \<or> ''git'' \<in> set [''git''])"
    using cert_names_confined [OF demo_cert_names demo_clean(1,2) _ _ p, of "''git''" "''alice''"] demo_clean(3)
    by (simp add: dot_def)
qed

lemma order_published_witness:
  "\<exists>ch records. collect_challenges \<lparr>cn_device = ''nas.alice.a.b'', cn_primary = Some ''alice.a.b'', cn_services = [''git.alice.a.b'']\<rparr>
      (pending_authzs [(''nas.alice.a.b'', ''A1''), (''*.nas.alice.a.b'', ''A2''), (''alice.a.b'', ''A3''), (''git.alice.a.b'', ''A4'')])
      ([], None, []) = Inr ch \<and>
    acme_order (Some ''a.b'') (request_of ''s'' ch) demo_cert_store = Inr (replicate 32 1, records) \<and>
    (''_acme-challenge.git.alice.a.b'', ''A4'') \<in> set records"
proof -
  let ?n = "\<lparr>cn_device = ''nas.alice.a.b'', cn_primary = Some ''alice.a.b'', cn_services = [''git.alice.a.b'']\<rparr>"
  let ?vs = "[''A1'', ''A2'', ''A3'', ''A4'']"
  have all: "all_names ?n = [''nas.alice.a.b'', ''*.nas.alice.a.b'', ''alice.a.b'', ''git.alice.a.b'']"
    by (simp add: all_names_def wildcard_def)
  have names: "cert_names_new (mesh_host ''nas'' ''alice'') (if True then Some (''alice'' @ dotted_suffix) else None) ''a.b'' [''git''] = Some ?n"
    using demo_cert_names by simp
  have svc: "\<forall>l\<in>set [''git'']. valid_label l \<and> l \<noteq> ''nas''" using demo_clean(3) by simp
  have sub: "set [''git''] \<subseteq> set (device_services demo_cert_store (replicate 32 1))" by (simp add: demo_cert_tokens)
  have few: "length [''git''] \<le> MAX_WEB_SERVICES_PER_DEVICE" by (simp add: MAX_WEB_SERVICES_PER_DEVICE_def)
  have len: "length ?vs = length (all_names ?n)" by (simp add: all)
  have vals: "\<forall>v\<in>set ?vs. valid_challenge_value v" by code_simp
  obtain ch records where o: "collect_challenges ?n (pending_authzs (zip (all_names ?n) ?vs)) ([], None, []) = Inr ch"
    "acme_order (Some ''a.b'') (request_of ''s'' ch) demo_cert_store = Inr (replicate 32 1, records)"
    "\<forall>(i, v)\<in>set (zip (all_names ?n) ?vs). (ca_looks_at i, v) \<in> set records"
    using order_published [OF names demo_clean(1,2) svc _ demo_cert_tokens(1-4) sub few len vals] by auto
  have "ca_looks_at ''git.alice.a.b'' = ''_acme-challenge.git.alice.a.b''" by code_simp
  then have "(''_acme-challenge.git.alice.a.b'', ''A4'') \<in> set records" using o(3) by (simp add: all)
  with o(1,2) show ?thesis unfolding all by (intro exI [of _ ch] exI [of _ records]) simp
qed

definition demo_recon :: recon where
  "demo_recon = \<lparr>rc_hostname = ''nas.alice.unity.internal'', rc_primary_alias = None, rc_dns_domain = Some ''a.b'',
     rc_enabled = True, rc_exposed = True, rc_services = []\<rparr>"

definition demo_ca_down :: "u64 \<Rightarrow> round" where
  "demo_ca_down now = \<lparr>ro_now = now, ro_after = now + 5, ro_note_write = Wrote, ro_save_write = Wrote,
     ro_ca = \<lparr>ca_client = False, ca_decodes = True, ca_restores = True, ca_creates = None, ca_saves = Wrote, ca_orders = False,
       ca_authzs = [], ca_again = [], ca_ready = None, ca_key = None, ca_chain = None, ca_dir = True, ca_cert_write = Wrote,
       ca_key_write = Wrote\<rparr>, ro_post = (\<lambda>_. False)\<rparr>"

definition demo_attempts :: "attempt list" where
  "demo_attempts = attempts ''/var'' [(demo_recon, demo_ca_down 1000), (demo_recon, demo_ca_down 1300), (demo_recon, demo_ca_down 1700)]
     \<lparr>cf_account = None, cf_cert = None, cf_key = None, cf_state = None\<rparr>"

lemma attempts_spaced_witness:
  "map at_now demo_attempts = [1000, 1700] \<and> successively spaced demo_attempts"
proof -
  have names: "cert_names_new ''nas.alice.unity.internal'' None ''a.b'' [] =
      Some \<lparr>cn_device = ''nas.alice.a.b'', cn_primary = None, cn_services = []\<rparr>" by code_simp
  have "map at_now demo_attempts = [1000, 1700]"
    by (simp add: demo_attempts_def attempt_of_def cert_reconcile_def noted_def note_pending_def load_state_def save_state_def
        read_json_or_def fresh_state_def demo_recon_def demo_ca_down_def names_wanted_def names decide_def Let_def sat_sub_def
        issue_def acme_account_def sat_inc_def sat_add_def backoff_def RENEW_BEFORE_def)
  moreover have "saved_rounds [(demo_recon, demo_ca_down 1000), (demo_recon, demo_ca_down 1300), (demo_recon, demo_ca_down 1700)]"
    by (simp add: saved_rounds_def demo_ca_down_def)
  moreover have "sorted (clock_times [(demo_recon, demo_ca_down 1000), (demo_recon, demo_ca_down 1300), (demo_recon, demo_ca_down 1700)])"
    by (simp add: clock_times_def demo_ca_down_def)
  ultimately show ?thesis unfolding demo_attempts_def using attempts_spaced by blast
qed

end
