(* ===== verification/Status.thy ===== *)
theory Status
  imports Mesh Update Cert WebProxy
begin

section \<open>The status snapshot: \<open>crates/engine/src/control/status.rs\<close>, \<open>common/src/control.rs\<close>\<close>

text \<open>
  What a frontend is shown of the daemon, the setters the daemon drives it through, and the streams that
  push it to frontends. The \<open>watch\<close> channel is tokio's: a value and a version that every accepted send
  bumps; a receiver is due when the version moved past the one it saw. The demo-only \<open>directive\<close> field,
  which the engine never sets, is left out.
\<close>

record device_status =
  ds_wg_ip :: ipv4
  ds_hostname :: string
  ds_is_primary :: bool
  ds_networks :: "string list"

record peer_status =
  ps_hostname :: string
  ps_wg_ip :: ipv4
  ps_endpoint :: "sockaddr option"
  ps_reach :: peer_reach
  ps_user_id :: u64
  ps_username :: string
  ps_up :: bool
  ps_latency_ms :: "nat option"
  ps_rx_bytes :: u64
  ps_tx_bytes :: u64
  ps_last_handshake_secs :: "nat option"
  ps_networks :: "shared_network list"
  ps_services :: "peer_service list"

record blocked_user =
  bu_user_id :: u64
  bu_username :: string

record status_report =
  rp_device :: "device_status option"
  rp_peers :: "peer_status list"
  rp_proxy_routes :: "proxy_route list"
  rp_networks :: "network_status list"
  rp_needs_login :: bool
  rp_connected :: bool
  rp_disable_new :: bool
  rp_peer_own :: bool
  rp_identity :: "string option"
  rp_cert :: cert_status
  rp_coordinator_online :: bool
  rp_blocked :: "blocked_user list"
  rp_engine_version :: string
  rp_update_available :: "string option"
  rp_update_ready :: bool
  rp_proto_mismatch :: "string option"
  rp_lan_overlap :: "string option"

definition no_cert :: cert_status where
  "no_cert = \<lparr>ct_enabled = False, ct_domain = None, ct_names = [], ct_paths = None, ct_expires_at = 0, ct_blocked = None\<rparr>"

definition default_report :: status_report where
  "default_report = \<lparr>rp_device = None, rp_peers = [], rp_proxy_routes = [], rp_networks = [], rp_needs_login = False,
     rp_connected = True, rp_disable_new = True, rp_peer_own = True, rp_identity = None, rp_cert = no_cert,
     rp_coordinator_online = True, rp_blocked = [], rp_engine_version = [], rp_update_available = None,
     rp_update_ready = False, rp_proto_mismatch = None, rp_lan_overlap = None\<rparr>"

subsection \<open>The channel\<close>

record shared =
  sd_report :: status_report
  sd_version :: nat

definition new_shared :: shared where
  "new_shared = \<lparr>sd_report = default_report\<lparr>rp_connected := False, rp_coordinator_online := False\<rparr>, sd_version = 0\<rparr>"

definition send_if_modified :: "(status_report \<Rightarrow> bool \<times> status_report) \<Rightarrow> shared \<Rightarrow> shared" where
  "send_if_modified f sh =
     (case f (sd_report sh) of (modified, r) \<Rightarrow>
        \<lparr>sd_report = r, sd_version = (if modified then Suc (sd_version sh) else sd_version sh)\<rparr>)"

definition send_modify :: "(status_report \<Rightarrow> status_report) \<Rightarrow> shared \<Rightarrow> shared" where
  "send_modify f sh = \<lparr>sd_report = f (sd_report sh), sd_version = Suc (sd_version sh)\<rparr>"

definition send_replace :: "status_report \<Rightarrow> shared \<Rightarrow> shared" where
  "send_replace r sh = \<lparr>sd_report = r, sd_version = Suc (sd_version sh)\<rparr>"

subsection \<open>Setters\<close>

definition set_needs_login :: "bool \<Rightarrow> shared \<Rightarrow> shared" where
  "set_needs_login needs = send_if_modified (\<lambda>s. (rp_needs_login s \<noteq> needs, s\<lparr>rp_needs_login := needs\<rparr>))"

definition set_proto_mismatch :: "string option \<Rightarrow> shared \<Rightarrow> shared" where
  "set_proto_mismatch why = send_if_modified (\<lambda>s. (rp_proto_mismatch s \<noteq> why, s\<lparr>rp_proto_mismatch := why\<rparr>))"

definition set_connected :: "bool \<Rightarrow> shared \<Rightarrow> shared" where
  "set_connected connected = send_if_modified (\<lambda>s. (rp_connected s \<noteq> connected, s\<lparr>rp_connected := connected\<rparr>))"

definition show_disable_new :: "bool \<Rightarrow> shared \<Rightarrow> shared" where
  "show_disable_new disable = send_if_modified (\<lambda>s. (rp_disable_new s \<noteq> disable, s\<lparr>rp_disable_new := disable\<rparr>))"

definition show_peer_own :: "bool \<Rightarrow> shared \<Rightarrow> shared" where
  "show_peer_own enabled = send_if_modified (\<lambda>s. (rp_peer_own s \<noteq> enabled, s\<lparr>rp_peer_own := enabled\<rparr>))"

definition show_certs_enabled :: "bool \<Rightarrow> shared \<Rightarrow> shared" where
  "show_certs_enabled enabled =
     send_if_modified (\<lambda>s. (ct_enabled (rp_cert s) \<noteq> enabled, s\<lparr>rp_cert := (rp_cert s)\<lparr>ct_enabled := enabled\<rparr>\<rparr>))"

definition set_cert_status :: "cert_status \<Rightarrow> shared \<Rightarrow> shared" where
  "set_cert_status cert = send_if_modified (\<lambda>s. if rp_cert s = cert then (False, s) else (True, s\<lparr>rp_cert := cert\<rparr>))"

definition set_coord_online :: "bool \<Rightarrow> shared \<Rightarrow> shared" where
  "set_coord_online online = send_if_modified (\<lambda>s. (rp_coordinator_online s \<noteq> online, s\<lparr>rp_coordinator_online := online\<rparr>))"

definition set_logged_out :: "shared \<Rightarrow> shared" where
  "set_logged_out = send_replace (default_report\<lparr>rp_needs_login := True, rp_connected := False, rp_coordinator_online := False\<rparr>)"

definition set_lan_overlap :: "string option \<Rightarrow> shared \<Rightarrow> shared" where
  "set_lan_overlap warning =
     send_if_modified (\<lambda>s. if rp_lan_overlap s = warning then (False, s) else (True, s\<lparr>rp_lan_overlap := warning\<rparr>))"

definition set_update_available :: "('v::linorder) semver \<Rightarrow> string \<Rightarrow> string \<Rightarrow> shared \<Rightarrow> shared" where
  "set_update_available sv running latest =
     (let val = (if is_newer sv latest running then Some latest else None)
      in send_if_modified (\<lambda>s. if rp_update_available s = val then (False, s) else (True, s\<lparr>rp_update_available := val\<rparr>)))"

definition set_update_ready :: "bool \<Rightarrow> shared \<Rightarrow> shared" where
  "set_update_ready b = send_if_modified (\<lambda>s. (rp_update_ready s \<noteq> b, s\<lparr>rp_update_ready := b\<rparr>))"

definition blocked_list :: "(u64, string) hmap \<Rightarrow> blocked_user list" where
  "blocked_list blocked =
     sort_key bu_username (sort_key bu_user_id (map (\<lambda>(u, n). \<lparr>bu_user_id = u, bu_username = n\<rparr>) blocked))"

definition show_blocked :: "(u64, string) hmap \<Rightarrow> shared \<Rightarrow> shared" where
  "show_blocked blocked = send_modify (\<lambda>r. r\<lparr>rp_peers := filter (\<lambda>p. tget blocked (ps_user_id p) = None) (rp_peers r),
     rp_blocked := blocked_list blocked\<rparr>)"

definition set_live :: "(ipv4, live_view) hmap \<Rightarrow> shared \<Rightarrow> shared" where
  "set_live live_map = send_modify (\<lambda>r. r\<lparr>rp_peers := map (\<lambda>p. case tget live_map (ps_wg_ip p) of
       None \<Rightarrow> p
     | Some l \<Rightarrow> p\<lparr>ps_reach := lv_reach l, ps_up := lv_up l, ps_latency_ms := lv_latency l, ps_rx_bytes := lv_rx_bytes l,
         ps_tx_bytes := lv_tx_bytes l, ps_last_handshake_secs := lv_last_handshake_secs l\<rparr>) (rp_peers r)\<rparr>)"

definition set_services :: "(ipv4, peer_service list) hmap \<Rightarrow> shared \<Rightarrow> shared" where
  "set_services svcs = send_modify (\<lambda>r. r\<lparr>rp_peers := map (\<lambda>p. case tget svcs (ps_wg_ip p) of
       None \<Rightarrow> p | Some l \<Rightarrow> p\<lparr>ps_services := l\<rparr>) (rp_peers r)\<rparr>)"

subsection \<open>The rebuild\<close>

definition own_device_networks :: "seed_peer \<Rightarrow> u64 \<Rightarrow> shared_network list" where
  "own_device_networks s self_user =
     (if sp_user_id s = self_user
      then \<lparr>sh_name = OWN_DEVICES_LABEL, sh_community = [], sh_guild_id = 0, sh_role_id = 0\<rparr> # sp_networks s
      else sp_networks s)"

definition effective_networks :: "network_status list \<Rightarrow> net list \<Rightarrow> network_status list" where
  "effective_networks ns disabled =
     map (\<lambda>n. n\<lparr>ns_enabled := ns_enabled n \<and> (ns_guild_id n, ns_role_id n) \<notin> set disabled\<rparr>) ns"

text \<open>The peers shown before, by address: the last of an address is the one a collected map holds.\<close>

definition prev_live :: "peer_status list \<Rightarrow> ipv4 \<Rightarrow> peer_status option" where
  "prev_live ps ip = List.find (\<lambda>p. ps_wg_ip p = ip) (rev ps)"

definition peer_status_of :: "peer_status list \<Rightarrow> u64 \<Rightarrow> seed_peer \<Rightarrow> peer_status" where
  "peer_status_of before self_user s =
     (let old = prev_live before (sp_ip s)
      in \<lparr>ps_hostname = (case sp_primary_alias s of Some a \<Rightarrow> a | None \<Rightarrow> sp_hostname s),
          ps_wg_ip = sp_ip s, ps_endpoint = sp_endpoint s,
          ps_reach = (case old of None \<Rightarrow> Direct | Some p \<Rightarrow> ps_reach p),
          ps_user_id = sp_user_id s, ps_username = sp_username s,
          ps_up = (case old of None \<Rightarrow> False | Some p \<Rightarrow> ps_up p),
          ps_latency_ms = (case old of None \<Rightarrow> None | Some p \<Rightarrow> ps_latency_ms p),
          ps_rx_bytes = (case old of None \<Rightarrow> 0 | Some p \<Rightarrow> ps_rx_bytes p),
          ps_tx_bytes = (case old of None \<Rightarrow> 0 | Some p \<Rightarrow> ps_tx_bytes p),
          ps_last_handshake_secs = (case old of None \<Rightarrow> None | Some p \<Rightarrow> ps_last_handshake_secs p),
          ps_networks = own_device_networks s self_user,
          ps_services = (case old of None \<Rightarrow> [] | Some p \<Rightarrow> ps_services p)\<rparr>)"

definition status_update ::
  "string \<Rightarrow> self_device \<Rightarrow> seed_peer list \<Rightarrow> net list \<Rightarrow> (u64, string) hmap \<Rightarrow> bool \<Rightarrow> bool \<Rightarrow> bool \<Rightarrow> bool \<Rightarrow>
   proxy_route list \<Rightarrow> shared \<Rightarrow> shared" where
  "status_update version d seeds disabled blocked connected disable_new peer_own coord_online routes sh =
     (let r = sd_report sh
      in send_replace
        \<lparr>rp_device = Some \<lparr>ds_wg_ip = se_wg_ip d, ds_hostname = se_hostname d, ds_is_primary = se_is_primary d, ds_networks = se_networks d\<rparr>,
         rp_peers = map (peer_status_of (rp_peers r) (se_user_id d)) seeds,
         rp_proxy_routes = routes,
         rp_networks = effective_networks (se_networks_status d) disabled,
         rp_needs_login = False, rp_connected = connected, rp_disable_new = disable_new, rp_peer_own = peer_own,
         rp_identity = Some (se_username d), rp_cert = (rp_cert r)\<lparr>ct_domain := se_dns_domain d\<rparr>,
         rp_coordinator_online = coord_online, rp_blocked = blocked_list blocked,
         rp_engine_version = version, rp_update_available = rp_update_available r, rp_update_ready = rp_update_ready r,
         rp_proto_mismatch = rp_proto_mismatch r, rp_lan_overlap = rp_lan_overlap r\<rparr> sh)"

subsection \<open>A stream\<close>

text \<open>\<open>stream_status\<close>: the first turn sends the current report; a later one only once the version has moved.\<close>

record watcher =
  wt_seen :: "nat option"
  wt_sent :: "status_report list"

definition new_watcher :: watcher where "new_watcher = \<lparr>wt_seen = None, wt_sent = []\<rparr>"

definition due :: "shared \<Rightarrow> watcher \<Rightarrow> bool" where
  "due sh w \<longleftrightarrow> wt_seen w \<noteq> Some (sd_version sh)"

definition stream_turn :: "shared \<Rightarrow> watcher \<Rightarrow> watcher" where
  "stream_turn sh w =
     (if due sh w then \<lparr>wt_seen = Some (sd_version sh), wt_sent = wt_sent w @ [sd_report sh]\<rparr> else w)"

subsection \<open>Streams are current\<close>

datatype 'v status_op =
    NeedsLogin bool | ProtoMismatch "string option" | Connected bool | DisableNew bool | PeerOwn bool | CertsEnabled bool
  | CertStatus cert_status | CoordOnline bool | LoggedOut | LanOverlap "string option" | UpdateAvailable "'v semver" string string
  | UpdateReady bool | Blocked "(u64, string) hmap" | Live "(ipv4, live_view) hmap" | PeerServices "(ipv4, peer_service list) hmap"
  | Rebuild string self_device "seed_peer list" "net list" "(u64, string) hmap" bool bool bool bool "proxy_route list"

fun status_step :: "('v::linorder) status_op \<Rightarrow> shared \<Rightarrow> shared" where
  "status_step (NeedsLogin b) = set_needs_login b"
| "status_step (ProtoMismatch why) = set_proto_mismatch why"
| "status_step (Connected b) = set_connected b"
| "status_step (DisableNew b) = show_disable_new b"
| "status_step (PeerOwn b) = show_peer_own b"
| "status_step (CertsEnabled b) = show_certs_enabled b"
| "status_step (CertStatus c) = set_cert_status c"
| "status_step (CoordOnline b) = set_coord_online b"
| "status_step LoggedOut = set_logged_out"
| "status_step (LanOverlap w) = set_lan_overlap w"
| "status_step (UpdateAvailable sv running latest) = set_update_available sv running latest"
| "status_step (UpdateReady b) = set_update_ready b"
| "status_step (Blocked m) = show_blocked m"
| "status_step (Live m) = set_live m"
| "status_step (PeerServices m) = set_services m"
| "status_step (Rebuild v d seeds disabled blocked connected dn po online routes) =
     status_update v d seeds disabled blocked connected dn po online routes"

text \<open>A history: the daemon's updates (\<open>Some\<close>) and the turns of one stream (\<open>None\<close>), interleaved.\<close>

definition stream_event :: "('v::linorder) status_op option \<Rightarrow> shared \<times> watcher \<Rightarrow> shared \<times> watcher" where
  "stream_event ev s = (case s of (sh, w) \<Rightarrow>
     (case ev of Some op \<Rightarrow> (status_step op sh, w) | None \<Rightarrow> (sh, stream_turn sh w)))"

definition stream_run :: "('v::linorder) status_op option list \<Rightarrow> shared \<times> watcher" where
  "stream_run evs = fold stream_event evs (new_shared, new_watcher)"

definition shows_current :: "shared \<Rightarrow> watcher \<Rightarrow> bool" where
  "shows_current sh w \<longleftrightarrow> wt_sent w \<noteq> [] \<and> last (wt_sent w) = sd_report sh"

definition announces :: "(shared \<Rightarrow> shared) \<Rightarrow> bool" where
  "announces f \<longleftrightarrow> (\<forall>sh. sd_version (f sh) = Suc (sd_version sh) \<or>
     sd_version (f sh) = sd_version sh \<and> sd_report (f sh) = sd_report sh)"

lemma announces_send:
  "announces (send_modify f)" "announces (send_replace r)"
  "(\<And>s. fst (g s) \<or> snd (g s) = s) \<Longrightarrow> announces (send_if_modified g)"
  by (auto simp: announces_def send_modify_def send_replace_def send_if_modified_def split: prod.split)
    (metis fst_conv snd_conv)

lemma announces_set:
  "(\<And>s. sel s = v \<Longrightarrow> upd s = s) \<Longrightarrow> announces (send_if_modified (\<lambda>s. (sel s \<noteq> v, upd s)))"
  "announces (send_if_modified (\<lambda>s. if P s then (False, s) else (True, upd s)))"
  by (rule announces_send(3); auto)+

lemma report_kept:
  "rp_needs_login s = b \<Longrightarrow> s\<lparr>rp_needs_login := b\<rparr> = s" "rp_proto_mismatch s = w \<Longrightarrow> s\<lparr>rp_proto_mismatch := w\<rparr> = s"
  "rp_connected s = b \<Longrightarrow> s\<lparr>rp_connected := b\<rparr> = s" "rp_disable_new s = b \<Longrightarrow> s\<lparr>rp_disable_new := b\<rparr> = s"
  "rp_peer_own s = b \<Longrightarrow> s\<lparr>rp_peer_own := b\<rparr> = s" "rp_coordinator_online s = b \<Longrightarrow> s\<lparr>rp_coordinator_online := b\<rparr> = s"
  "rp_update_ready s = b \<Longrightarrow> s\<lparr>rp_update_ready := b\<rparr> = s"
  "ct_enabled (rp_cert s) = b \<Longrightarrow> s\<lparr>rp_cert := (rp_cert s)\<lparr>ct_enabled := b\<rparr>\<rparr> = s"
  by (cases s; cases "rp_cert s"; simp)+

lemma setters_announce:
  "announces (set_needs_login b)" "announces (set_proto_mismatch w)" "announces (set_connected b)"
  "announces (show_disable_new b)" "announces (show_peer_own b)" "announces (set_coord_online b)"
  "announces (set_update_ready b)" "announces (show_certs_enabled b)"
  unfolding set_needs_login_def set_proto_mismatch_def set_connected_def show_disable_new_def show_peer_own_def
    set_coord_online_def set_update_ready_def show_certs_enabled_def
  by (rule announces_set(1), erule report_kept)+

lemma status_step_announces: "announces (status_step op)"
proof (cases op)
  case (Rebuild v d seeds disabled blocked connected dn po online routes)
  then show ?thesis by (simp add: announces_def status_update_def send_replace_def Let_def)
qed (simp_all add: setters_announce set_cert_status_def set_logged_out_def set_lan_overlap_def set_update_available_def
    show_blocked_def set_live_def set_services_def announces_send announces_set(2) Let_def)

definition stream_inv :: "shared \<times> watcher \<Rightarrow> bool" where
  "stream_inv s \<longleftrightarrow> (case s of (sh, w) \<Rightarrow>
     (case wt_seen w of None \<Rightarrow> wt_sent w = []
      | Some v \<Rightarrow> v \<le> sd_version sh \<and> (v = sd_version sh \<longrightarrow> shows_current sh w)))"

lemma stream_event_inv:
  assumes "stream_inv s"
  shows "stream_inv (stream_event ev s)"
proof -
  obtain sh w where s: "s = (sh, w)" by (cases s)
  show ?thesis
  proof (cases ev)
    case None
    then show ?thesis using assms
      by (auto simp: s stream_event_def stream_turn_def due_def stream_inv_def shows_current_def split: option.splits)
  next
    case (Some op)
    have "sd_version (status_step op sh) = Suc (sd_version sh) \<or>
        sd_version (status_step op sh) = sd_version sh \<and> sd_report (status_step op sh) = sd_report sh"
      using status_step_announces [of op] unfolding announces_def by blast
    then show ?thesis using assms Some
      by (auto simp: s stream_event_def stream_inv_def shows_current_def split: option.splits)
  qed
qed

text \<open>C33 (stream_never_stale). Whatever the daemon does to its status, in any interleaving with a frontend's
  stream: as long as the stream is not woken, the last report it sent is the current one, and when it is
  woken its next turn sends the current one. No setter changes the report without waking the streams.\<close>

theorem stream_never_stale:
  assumes "stream_run evs = (sh, w)"
  shows "(\<not> due sh w \<longrightarrow> shows_current sh w) \<and> shows_current sh (stream_turn sh w) \<and> \<not> due sh (stream_turn sh w)"
proof -
  have "stream_inv s \<Longrightarrow> stream_inv (fold stream_event evs s)" for s
  proof (induction evs arbitrary: s)
    case (Cons ev evs)
    from Cons.IH [OF stream_event_inv [OF Cons.prems]] show ?case by simp
  qed simp
  moreover have "stream_inv (new_shared, new_watcher)" by (simp add: stream_inv_def new_watcher_def)
  ultimately have "stream_inv (sh, w)" using assms by (metis stream_run_def)
  then show ?thesis by (auto simp: stream_inv_def due_def stream_turn_def shows_current_def split: option.splits)
qed

lemma stream_never_stale_witness:
  "let (sh, w) = stream_run [Some (NeedsLogin True :: nat status_op), None, Some (CoordOnline False), Some (NeedsLogin False)]
   in shows_current sh (stream_turn sh w) \<and> due sh w"
proof -
  obtain sh w where r: "stream_run [Some (NeedsLogin True :: nat status_op), None, Some (CoordOnline False), Some (NeedsLogin False)] = (sh, w)"
    by fastforce
  then have "due sh w"
    by (auto simp: stream_run_def stream_event_def stream_turn_def due_def new_shared_def new_watcher_def
        set_needs_login_def set_coord_online_def send_if_modified_def default_report_def)
  with stream_never_stale [OF r] show ?thesis by (simp add: r)
qed

end
