(* ===== verification/Control.thy ===== *)
theory Control
  imports Status DeviceOps
begin

section \<open>The control socket: \<open>crates/engine/src/control/server.rs\<close>\<close>

text \<open>
  One request per connection: what each endpoint answers, and what a request changes. The JSON of a request
  is serde's, so the parser is a parameter; calls to the coordinator and to the browser login reply as an
  argument says; background work is recorded as a task. Texts for the user are values.
\<close>

datatype access = FullAccess | ReadOnly

datatype expose_op =
    ListExposed
  | AddExposed proto u16 expose_scope "string option" service_kind
  | RemoveExposed proto u16 remove_scope
  | AddScopeNamed string expose_scope
  | RemoveNamed string

datatype control_request =
    StatusReq | WatchReq | ManageReq manage_op | ExposeReq expose_op | SetNetworkReq u64 u64 bool | LoginReq
  | SetConnectedReq bool | SetNewNetworkDefaultReq bool | SetCertsEnabledReq bool | SetOwnDevicePeeringReq bool | LogoutReq
  | BlockPeerReq u64 string | UnblockPeerReq u64 | ApplyUpdateReq

definition access_allows :: "access \<Rightarrow> control_request \<Rightarrow> bool" where
  "access_allows a req = (case a of FullAccess \<Rightarrow> True | ReadOnly \<Rightarrow> req = StatusReq \<or> req = WatchReq)"

subsection \<open>Exposing\<close>

datatype ctl_error =
    NotMember u64 u64 | NotMemberNamed string | AmbiguousNetwork string "string list"
  | FirewallError fw_error | FirewallDisabled | NotEnrolledYet | Remote string | NotSaved | ReadOnlyEndpoint | NotOneShot
  | NoUpdateStaged

definition resolve_scope :: "expose_scope \<Rightarrow> network_status list \<Rightarrow> ctl_error + expose_scope" where
  "resolve_scope scope held =
     (case scope of
        Net g r \<Rightarrow> if list_ex (\<lambda>n. ns_guild_id n = g \<and> ns_role_id n = r) held then Inr (Net g r) else Inl (NotMember g r)
      | Unresolved guild name \<Rightarrow>
          (case filter (\<lambda>n. ns_name n = name \<and> (case guild of None \<Rightarrow> True | Some g \<Rightarrow> ns_guild_name n = g)) held of
             [] \<Rightarrow> Inl (NotMemberNamed name)
           | [n] \<Rightarrow> Inr (Net (ns_guild_id n) (ns_role_id n))
           | many \<Rightarrow> Inl (AmbiguousNetwork name (map ns_guild_name many)))
      | other \<Rightarrow> Inr other)"

datatype expose_msg =
    Listed | Opened proto u16 "string option" string | Closed proto u16 "string option"
  | NotRunning string | AlreadyOpen string string | Widened string string nat | ClosedName string nat

definition label_shown :: "(exposed_port \<Rightarrow> bool) \<Rightarrow> expose_scope \<Rightarrow> exposed_port list \<Rightarrow> string" where
  "label_shown P scope es = (case List.find P es of None \<Rightarrow> scope_fallback_label scope | Some e \<Rightarrow> ep_label e)"

definition apply_expose ::
  "fw_io \<Rightarrow> expose_op \<Rightarrow> network_status list \<Rightarrow> firewall \<Rightarrow> (ctl_error + expose_msg \<times> exposed_port list) \<times> firewall" where
  "apply_expose io op held fw =
     (case op of
        ListExposed \<Rightarrow> (Inr (Listed, fw_list fw), fw)
      | AddExposed pr port scope0 name kind \<Rightarrow>
          (case resolve_scope scope0 held of
             Inl e \<Rightarrow> (Inl e, fw)
           | Inr scope \<Rightarrow>
               (case expose io pr port scope name kind fw of
                  (Inl e, fw1) \<Rightarrow> (Inl (FirewallError e), fw1)
                | (Inr es, fw1) \<Rightarrow>
                    (Inr (Opened pr port name (label_shown (\<lambda>e. ep_proto e = pr \<and> ep_port e = port \<and> ep_scope e = scope) scope es), es), fw1)))
      | RemoveExposed pr port scope \<Rightarrow>
          (case unexpose io pr port scope fw of
             (Inl e, fw1) \<Rightarrow> (Inl (FirewallError e), fw1)
           | (Inr es, fw1) \<Rightarrow>
               (Inr (Closed pr port (case scope of RemoveAll \<Rightarrow> None | RemoveExact s \<Rightarrow> Some (scope_fallback_label s)), es), fw1))
      | AddScopeNamed name scope0 \<Rightarrow>
          (case resolve_scope scope0 held of
             Inl e \<Rightarrow> (Inl e, fw)
           | Inr scope \<Rightarrow>
               (case expose_named_scope io name scope fw of
                  (Inl e, fw1) \<Rightarrow> (Inl (FirewallError e), fw1)
                | (Inr (added, es), fw1) \<Rightarrow>
                    (let label = label_shown (\<lambda>e. ep_scope e = scope) scope es
                     in (Inr (if added = 0 then (if list_ex (\<lambda>e. ep_name e = Some name) es then AlreadyOpen name label else NotRunning name)
                              else Widened name label added, es), fw1))))
      | RemoveNamed name \<Rightarrow>
          (case unexpose_named io name fw of
             (Inl e, fw1) \<Rightarrow> (Inl (FirewallError e), fw1)
           | (Inr (n, es), fw1) \<Rightarrow> (Inr (if n = 0 then NotRunning name else ClosedName name n, es), fw1)))"

subsection \<open>Requests\<close>

datatype task = LoginTask string | UpdateTask pending_update

record ctx =
  cx_status :: shared
  cx_net :: local_net
  cx_fw :: "firewall option"
  cx_token :: "string option"
  cx_logout :: bool
  cx_pending :: "pending_update option"
  cx_tasks :: "task list"

record ctl_io =
  ci_wrote :: wrote
  ci_fw :: fw_io
  ci_manage :: "string \<Rightarrow> manage_op \<Rightarrow> string + device_info list"
  ci_login :: "string + string"

datatype control_response =
    StatusIs status_report | Managed "device_info list" | Exposes expose_msg "exposed_port list"
  | NetworksAre u64 u64 bool "network_status list" | LoginAt string | ConnectedIs bool | LoggingOut | Updating string
  | ErrorIs ctl_error | Stream

text \<open>A setter of the local preferences, then its mirror in the status and the report.\<close>

definition with_setting ::
  "(local_net \<Rightarrow> local_net \<times> bool io) \<Rightarrow> (local_net \<Rightarrow> shared \<Rightarrow> shared) \<Rightarrow> (ctx \<Rightarrow> control_response) \<Rightarrow> ctx \<Rightarrow>
   control_response \<times> ctx" where
  "with_setting setter mirror reply cx =
     (case setter (cx_net cx) of
        (ln, Inl _) \<Rightarrow> (ErrorIs NotSaved, cx\<lparr>cx_net := ln\<rparr>)
      | (ln, Inr _) \<Rightarrow> let cx1 = cx\<lparr>cx_net := ln, cx_status := mirror ln (cx_status cx)\<rparr> in (reply cx1, cx1))"

definition status_now :: "ctx \<Rightarrow> control_response" where
  "status_now cx = StatusIs (sd_report (cx_status cx))"

definition toggled :: "u64 \<Rightarrow> u64 \<Rightarrow> bool \<Rightarrow> network_status list \<Rightarrow> network_status list" where
  "toggled g r enabled = map (\<lambda>n. n\<lparr>ns_enabled := if (ns_guild_id n, ns_role_id n) = (g, r) then enabled else ns_enabled n\<rparr>)"

definition handle_request :: "ctl_io \<Rightarrow> control_request \<Rightarrow> ctx \<Rightarrow> control_response \<times> ctx" where
  "handle_request io req cx =
     (case req of
        StatusReq \<Rightarrow> (status_now cx, cx)
      | WatchReq \<Rightarrow> (ErrorIs NotOneShot, cx)
      | ManageReq op \<Rightarrow>
          (case cx_token cx of
             None \<Rightarrow> (ErrorIs NotEnrolledYet, cx)
           | Some token \<Rightarrow> (case ci_manage io token op of Inr ds \<Rightarrow> (Managed ds, cx) | Inl e \<Rightarrow> (ErrorIs (Remote e), cx)))
      | ExposeReq op \<Rightarrow>
          (case cx_fw cx of
             None \<Rightarrow> (ErrorIs FirewallDisabled, cx)
           | Some fw \<Rightarrow>
               (case apply_expose (ci_fw io) op (rp_networks (sd_report (cx_status cx))) fw of
                  (Inr (msg, es), fw1) \<Rightarrow> (Exposes msg es, cx\<lparr>cx_fw := Some fw1\<rparr>)
                | (Inl e, fw1) \<Rightarrow> (ErrorIs e, cx\<lparr>cx_fw := Some fw1\<rparr>)))
      | SetNetworkReq g r enabled \<Rightarrow>
          with_setting (set_network (ci_wrote io) g r enabled) (\<lambda>_ sh. sh)
            (\<lambda>c. NetworksAre g r enabled (toggled g r enabled (rp_networks (sd_report (cx_status c))))) cx
      | LoginReq \<Rightarrow>
          (case ci_login io of
             Inr url \<Rightarrow> (LoginAt url, cx\<lparr>cx_tasks := cx_tasks cx @ [LoginTask url]\<rparr>)
           | Inl e \<Rightarrow> (ErrorIs (Remote e), cx))
      | SetConnectedReq connected \<Rightarrow>
          with_setting (set_paused (ci_wrote io) (\<not> connected)) (\<lambda>_ sh. sh) (\<lambda>_. ConnectedIs connected) cx
      | LogoutReq \<Rightarrow> (LoggingOut, cx\<lparr>cx_logout := True\<rparr>)
      | BlockPeerReq u name \<Rightarrow>
          with_setting (set_blocked (ci_wrote io) u name True) (\<lambda>ln. show_blocked (blocked_snapshot ln)) status_now cx
      | UnblockPeerReq u \<Rightarrow>
          with_setting (set_blocked (ci_wrote io) u [] False) (\<lambda>ln. show_blocked (blocked_snapshot ln)) status_now cx
      | SetNewNetworkDefaultReq disable \<Rightarrow>
          with_setting (set_disable_new (ci_wrote io) disable) (\<lambda>_. show_disable_new disable) status_now cx
      | SetCertsEnabledReq enabled \<Rightarrow>
          with_setting (set_certs_enabled (ci_wrote io) enabled) (\<lambda>_. show_certs_enabled enabled) status_now cx
      | SetOwnDevicePeeringReq enabled \<Rightarrow>
          with_setting (set_peer_own_devices (ci_wrote io) enabled) (\<lambda>_. show_peer_own enabled) status_now cx
      | ApplyUpdateReq \<Rightarrow>
          (case cx_pending cx of
             None \<Rightarrow> (ErrorIs NoUpdateStaged, cx)
           | Some pu \<Rightarrow> (Updating (pu_version pu), cx\<lparr>cx_tasks := cx_tasks cx @ [UpdateTask pu]\<rparr>)))"

subsection \<open>A connection\<close>

definition MAX_REQUEST_BYTES :: nat where "MAX_REQUEST_BYTES = 64 * 1024"

text \<open>What the read of the one line delivers: too late, an error, or the line (empty at once: the peer closed).\<close>

datatype request_line = TooLate | ReadFailed | Line string

text \<open>The reply is \<open>None\<close> when the connection is closed without one.\<close>

definition handle_conn ::
  "(string \<Rightarrow> control_request option) \<Rightarrow> ctl_io \<Rightarrow> access \<Rightarrow> request_line \<Rightarrow> ctx \<Rightarrow> control_response option \<times> ctx" where
  "handle_conn parse io a line cx =
     (case line of
        TooLate \<Rightarrow> (None, cx)
      | ReadFailed \<Rightarrow> (None, cx)
      | Line l \<Rightarrow>
          if l = [] \<or> MAX_REQUEST_BYTES \<le> length l then (None, cx)
          else (case parse (trim l) of
             None \<Rightarrow> (None, cx)
           | Some req \<Rightarrow>
               if \<not> access_allows a req then (Some (ErrorIs ReadOnlyEndpoint), cx)
               else if req = WatchReq then (Some Stream, cx)
               else (case handle_request io req cx of (resp, cx1) \<Rightarrow> (Some resp, cx1))))"

subsection \<open>Histories\<close>

text \<open>Connections in the order they are served, between the status changes of the daemon.\<close>

datatype 'v ctl_event = Conn ctl_io access request_line | Daemon "'v status_op"

definition ctl_step :: "(string \<Rightarrow> control_request option) \<Rightarrow> ('v::linorder) ctl_event \<Rightarrow> ctx \<Rightarrow> ctx" where
  "ctl_step parse ev cx =
     (case ev of
        Conn io a line \<Rightarrow> snd (handle_conn parse io a line cx)
      | Daemon op \<Rightarrow> cx\<lparr>cx_status := status_step op (cx_status cx)\<rparr>)"

definition ctl_run :: "(string \<Rightarrow> control_request option) \<Rightarrow> ('v::linorder) ctl_event list \<Rightarrow> ctx \<Rightarrow> ctx" where
  "ctl_run parse = fold (ctl_step parse)"

fun held_history :: "(string \<Rightarrow> control_request option) \<Rightarrow> ('v::linorder) ctl_event list \<Rightarrow> ctx \<Rightarrow> network_status list list" where
  "held_history parse [] cx = []"
| "held_history parse (ev # evs) cx = rp_networks (sd_report (cx_status cx)) # held_history parse evs (ctl_step parse ev cx)"

subsection \<open>The read-only endpoint\<close>

lemma allows_read_only: "access_allows ReadOnly req \<longleftrightarrow> req = StatusReq \<or> req = WatchReq"
  by (simp add: access_allows_def)

lemma handle_status: "handle_request io StatusReq cx = (status_now cx, cx)"
  by (simp add: handle_request_def)

lemma read_only_conn:
  "handle_conn parse io ReadOnly line cx = (resp, cx') \<Longrightarrow>
   cx' = cx \<and> resp \<in> {None, Some Stream, Some (status_now cx), Some (ErrorIs ReadOnlyEndpoint)}"
  by (auto simp: handle_conn_def allows_read_only handle_status split: request_line.splits if_splits option.splits)

text \<open>C22 (read_only_inert). Whatever a compromised proxy sends, in any number of connections: on the read-only
  endpoint nothing of the device changes, and it learns nothing but the status the proxy is given anyway.\<close>

theorem read_only_inert:
  assumes "\<forall>ev\<in>set evs. \<exists>io line. ev = Conn io ReadOnly line"
  shows "ctl_run parse evs cx = cx \<and>
    (\<forall>io line. fst (handle_conn parse io ReadOnly line cx) \<in>
       {None, Some Stream, Some (status_now cx), Some (ErrorIs ReadOnlyEndpoint)})"
proof -
  have "ctl_step parse ev cx = cx" if "ev \<in> set evs" for ev
    using assms that read_only_conn [of parse] by (fastforce simp: ctl_step_def intro: prod.collapse [symmetric])
  then have "fold (ctl_step parse) evs cx = cx" by (induction evs) auto
  moreover have "fst (handle_conn parse io ReadOnly line cx) \<in>
      {None, Some Stream, Some (status_now cx), Some (ErrorIs ReadOnlyEndpoint)}" for io line
    using read_only_conn [OF surjective_pairing] by blast
  ultimately show ?thesis by (simp add: ctl_run_def)
qed

subsection \<open>Nothing is exposed to a network the device does not hold\<close>

definition scope_held :: "network_status list \<Rightarrow> expose_scope \<Rightarrow> bool" where
  "scope_held held s =
     (case s of
        AllPeers \<Rightarrow> True
      | OwnDevices \<Rightarrow> True
      | Net g r \<Rightarrow> (\<exists>n\<in>set held. ns_guild_id n = g \<and> ns_role_id n = r)
      | Unresolved _ _ \<Rightarrow> False)"

definition named_hits :: "string option \<Rightarrow> string \<Rightarrow> network_status list \<Rightarrow> network_status list" where
  "named_hits guild name held =
     filter (\<lambda>n. ns_name n = name \<and> (case guild of None \<Rightarrow> True | Some g \<Rightarrow> ns_guild_name n = g)) held"

lemma resolve_unresolved:
  assumes "resolve_scope (Unresolved guild name) held = Inr s"
  shows "\<exists>n. named_hits guild name held = [n] \<and> s = Net (ns_guild_id n) (ns_role_id n)"
proof -
  have "resolve_scope (Unresolved guild name) held = (case named_hits guild name held of
      [] \<Rightarrow> Inl (NotMemberNamed name) | [n] \<Rightarrow> Inr (Net (ns_guild_id n) (ns_role_id n))
    | many \<Rightarrow> Inl (AmbiguousNetwork name (map ns_guild_name many)))"
    by (simp add: resolve_scope_def named_hits_def)
  with assms show ?thesis by (simp split: list.splits)
qed

lemma resolve_scope_held: "resolve_scope s held = Inr s' \<Longrightarrow> scope_held held s'"
proof (cases s)
  case (Unresolved guild name)
  assume "resolve_scope s held = Inr s'"
  then obtain n where n: "named_hits guild name held = [n]" "s' = Net (ns_guild_id n) (ns_role_id n)"
    using resolve_unresolved Unresolved by blast
  then have "n \<in> set held" using filter_is_subset [of _ held] unfolding named_hits_def by (metis list.set_intros(1) subsetD)
  then show ?thesis using n(2) by (auto simp: scope_held_def)
qed (auto simp: resolve_scope_def scope_held_def list_ex_iff split: if_splits)

definition scopes_of :: "firewall \<Rightarrow> expose_scope set" where
  "scopes_of fw = ex_scope ` set (fw_exposed fw)"

lemma put_opening_scopes: "ex_scope ` set (put_opening n es) \<subseteq> insert (ex_scope n) (ex_scope ` set es)"
  by (induction n es rule: put_opening.induct) (auto split: if_splits)

lemma widen_scopes:
  "ex_scope ` set (fst (fold (widen name scope) ts (es, k))) \<subseteq> insert scope (ex_scope ` set es)"
proof (induction ts arbitrary: es k)
  case (Cons t ts)
  obtain es' k' where w: "widen name scope t (es, k) = (es', k')" by fastforce
  then have "ex_scope ` set es' \<subseteq> insert scope (ex_scope ` set es)" by (auto simp: widen_def split: if_splits)
  with Cons.IH [of es' k'] w show ?case by auto
qed auto

lemma unexpose_scopes: "scopes_of (snd (unexpose io pr port scope fw)) \<subseteq> scopes_of fw"
  by (auto simp: unexpose_def scopes_of_def commit_exposed)

lemma unexpose_named_scopes: "scopes_of (snd (unexpose_named io name fw)) \<subseteq> scopes_of fw"
  by (auto simp: unexpose_named_def Let_def scopes_of_def commit_exposed)

lemma apply_expose_scopes:
  "scopes_of (snd (apply_expose io op held fw)) \<subseteq> scopes_of fw \<union> {s. scope_held held s}"
proof (cases op)
  case (AddExposed pr port s name kind)
  show ?thesis
  proof (cases "resolve_scope s held")
    case (Inr scope)
    let ?n = "\<lparr>ex_proto = pr, ex_port = port, ex_scope = scope,
        ex_name = Some (case name of None \<Rightarrow> default_label port | Some n \<Rightarrow> n), ex_kind = kind\<rparr>"
    have "fw_exposed (snd (expose io pr port scope name kind fw)) \<in> {fw_exposed fw, put_opening ?n (fw_exposed fw)}"
      by (cases name) (simp_all add: expose_def Let_def commit_exposed)
    then have "scopes_of (snd (expose io pr port scope name kind fw)) \<subseteq> insert scope (scopes_of fw)"
      using put_opening_scopes [of ?n "fw_exposed fw"] unfolding scopes_of_def by (elim insertE emptyE) (simp_all only: exposed.simps, blast+)
    with resolve_scope_held [OF Inr] Inr show ?thesis
      by (auto simp: AddExposed apply_expose_def split: sum.splits prod.splits)
  qed (simp add: AddExposed apply_expose_def)
next
  case (AddScopeNamed name s)
  show ?thesis
  proof (cases "resolve_scope s held")
    case (Inr scope)
    let ?named = "filter (\<lambda>e. ex_name e = Some name) (fw_exposed fw)"
    obtain es added where w: "fold (widen name scope) ?named (fw_exposed fw, 0) = (es, added)" by fastforce
    then have "scopes_of (snd (expose_named_scope io name scope fw)) \<subseteq> ex_scope ` set es \<union> scopes_of fw"
      by (simp add: expose_named_scope_def scopes_of_def commit_exposed)
    then have "scopes_of (snd (expose_named_scope io name scope fw)) \<subseteq> insert scope (scopes_of fw)"
      using widen_scopes [of name scope ?named "fw_exposed fw" 0] unfolding w scopes_of_def by auto
    with resolve_scope_held [OF Inr] Inr show ?thesis
      by (auto simp: AddScopeNamed apply_expose_def Let_def split: sum.splits prod.splits)
  qed (simp add: AddScopeNamed apply_expose_def)
next
  case (RemoveExposed pr port scope)
  have "snd (apply_expose io op held fw) = snd (unexpose io pr port scope fw)"
    by (simp add: RemoveExposed apply_expose_def split: sum.split prod.split)
  then show ?thesis using unexpose_scopes [of io pr port scope fw] by auto
next
  case (RemoveNamed name)
  have "snd (apply_expose io op held fw) = snd (unexpose_named io name fw)"
    by (simp add: RemoveNamed apply_expose_def Let_def split: sum.split prod.split)
  then show ?thesis using unexpose_named_scopes [of io name fw] by auto
qed (simp add: apply_expose_def)

definition exposed_scopes :: "ctx \<Rightarrow> expose_scope set" where
  "exposed_scopes cx = (case cx_fw cx of None \<Rightarrow> {} | Some fw \<Rightarrow> scopes_of fw)"

lemma with_setting_fw: "cx_fw (snd (with_setting setter mirror reply cx)) = cx_fw cx"
  by (simp add: with_setting_def Let_def split: prod.split sum.split)

lemma handle_request_scopes:
  "exposed_scopes (snd (handle_request io req cx)) \<subseteq>
     exposed_scopes cx \<union> {s. scope_held (rp_networks (sd_report (cx_status cx))) s}"
proof (cases req)
  case (ExposeReq op)
  show ?thesis
  proof (cases "cx_fw cx")
    case (Some fw)
    then show ?thesis using apply_expose_scopes [of "ci_fw io" op "rp_networks (sd_report (cx_status cx))" fw]
      by (auto simp: handle_request_def ExposeReq exposed_scopes_def split: prod.splits sum.splits)
  qed (simp add: handle_request_def ExposeReq exposed_scopes_def)
qed (auto simp: handle_request_def exposed_scopes_def with_setting_fw split: option.splits sum.splits)

lemma handle_conn_state:
  "snd (handle_conn parse io a line cx) = cx \<or> (\<exists>req. snd (handle_conn parse io a line cx) = snd (handle_request io req cx))"
  by (auto simp: handle_conn_def split: request_line.split option.split prod.split) (metis snd_conv)

lemma ctl_step_scopes:
  "exposed_scopes (ctl_step parse ev cx) \<subseteq> exposed_scopes cx \<union> {s. scope_held (rp_networks (sd_report (cx_status cx))) s}"
proof (cases ev)
  case (Conn io a line)
  from handle_conn_state [of parse io a line cx] show ?thesis
  proof
    assume "\<exists>req. snd (handle_conn parse io a line cx) = snd (handle_request io req cx)"
    then obtain req where "ctl_step parse ev cx = snd (handle_request io req cx)" by (auto simp: ctl_step_def Conn)
    then show ?thesis using handle_request_scopes by simp
  qed (simp add: ctl_step_def Conn)
qed (simp add: ctl_step_def exposed_scopes_def)

text \<open>C21 (exposures_stay_held). Over any history of connections on either endpoint and of status changes: a scope
  that is exposed at the end was exposed at the start, or is everyone, or the owner's own devices, or one
  network the device held, by its id, at the time of the request. A name someone typed is never stored, and
  one that several communities use is refused rather than guessed.\<close>

theorem exposures_stay_held:
  shows "(\<forall>s\<in>exposed_scopes (ctl_run parse evs cx). s \<in> exposed_scopes cx \<or> (\<exists>held\<in>set (held_history parse evs cx). scope_held held s)) \<and>
    (\<forall>guild name held s. resolve_scope (Unresolved guild name) held = Inr s \<longrightarrow>
       (\<exists>!n. n \<in> set held \<and> ns_name n = name \<and> (\<forall>g. guild = Some g \<longrightarrow> ns_guild_name n = g)))"
proof -
  have "\<forall>s\<in>exposed_scopes (fold (ctl_step parse) evs cx). s \<in> exposed_scopes cx \<or> (\<exists>held\<in>set (held_history parse evs cx). scope_held held s)"
  proof (induction evs arbitrary: cx)
    case (Cons ev evs)
    show ?case using Cons.IH [of "ctl_step parse ev cx"] ctl_step_scopes [of parse ev cx] by auto
  qed simp
  moreover have "\<exists>!n. n \<in> set held \<and> ns_name n = name \<and> (\<forall>g. guild = Some g \<longrightarrow> ns_guild_name n = g)"
    if r: "resolve_scope (Unresolved guild name) held = Inr s" for guild name held s
  proof -
    obtain n where n: "named_hits guild name held = [n]" using resolve_unresolved [OF r] by blast
    then have "set (named_hits guild name held) = {n}" by simp
    then have "m \<in> set held \<and> ns_name m = name \<and> (\<forall>g. guild = Some g \<longrightarrow> ns_guild_name m = g) \<longleftrightarrow> m = n" for m
      by (auto simp: named_hits_def split: option.splits)
    then show ?thesis by metis
  qed
  ultimately show ?thesis by (simp add: ctl_run_def)
qed

definition demo_held :: "network_status list" where
  "demo_held = [\<lparr>ns_guild_id = 1, ns_role_id = 10, ns_name = ''lan'', ns_guild_name = ''home'', ns_enabled = True\<rparr>,
     \<lparr>ns_guild_id = 2, ns_role_id = 10, ns_name = ''lan'', ns_guild_name = ''work'', ns_enabled = True\<rparr>]"

definition demo_ctx :: ctx where
  "demo_ctx = \<lparr>cx_status = \<lparr>sd_report = default_report\<lparr>rp_networks := demo_held\<rparr>, sd_version = 0\<rparr>,
     cx_net = load_net fresh_files False True, cx_fw = Some (demo_fw []), cx_token = None,
     cx_logout = False, cx_pending = None, cx_tasks = []\<rparr>"

definition demo_ctl_io :: ctl_io where
  "demo_ctl_io = \<lparr>ci_wrote = Wrote, ci_fw = all_ok, ci_manage = (\<lambda>_ _. Inl []), ci_login = Inl []\<rparr>"

text \<open>A one-letter command language stands for the JSON.\<close>

definition demo_parse :: "string \<Rightarrow> control_request option" where
  "demo_parse l = map_of [(''s'', StatusReq), (''o'', LogoutReq), (''b'', BlockPeerReq 5 ''eve''), (''u'', UnblockPeerReq 5),
     (''e'', ExposeReq (AddExposed Tcp 22 (Unresolved None ''lan'') None Port)),
     (''w'', ExposeReq (AddExposed Tcp 22 (Unresolved (Some ''work'') ''lan'') None Port))] l"

theorem read_only_inert_witness:
  "ctl_run demo_parse [Conn demo_ctl_io ReadOnly (Line ''o''), Conn demo_ctl_io ReadOnly (Line ''b'') :: nat ctl_event] demo_ctx = demo_ctx"
  using read_only_inert [of "[Conn demo_ctl_io ReadOnly (Line ''o''), Conn demo_ctl_io ReadOnly (Line ''b'') :: nat ctl_event]" demo_parse demo_ctx]
  by simp

text \<open>Two communities have a network of that name: the bare name is refused, the qualified one is the second.\<close>

theorem exposures_stay_held_witness:
  "resolve_scope (Unresolved None ''lan'') demo_held = Inl (AmbiguousNetwork ''lan'' [''home'', ''work'']) \<and>
   resolve_scope (Unresolved (Some ''work'') ''lan'') demo_held = Inr (Net 2 10) \<and>
   (\<exists>!n. n \<in> set demo_held \<and> ns_name n = ''lan'' \<and> (\<forall>g. Some ''work'' = Some g \<longrightarrow> ns_guild_name n = g))"
proof -
  have r: "resolve_scope (Unresolved (Some ''work'') ''lan'') demo_held = Inr (Net 2 10)"
    "resolve_scope (Unresolved None ''lan'') demo_held = Inl (AmbiguousNetwork ''lan'' [''home'', ''work''])"
    by (simp_all add: resolve_scope_def demo_held_def)
  with exposures_stay_held [of demo_parse "[] :: nat ctl_event list" demo_ctx] show ?thesis by blast
qed

subsection \<open>A block takes effect\<close>

lemma persisting_blocked [simp]: "ln_blocked (fst (persisting w changed files wakes s)) = ln_blocked s"
  by (simp add: persisting_def wake_net_def Let_def)

lemma setters_keep_blocked [simp]:
  "ln_blocked (fst (set_paused w b s)) = ln_blocked s" "ln_blocked (fst (set_disable_new w b s)) = ln_blocked s"
  "ln_blocked (fst (set_peer_own_devices w b s)) = ln_blocked s" "ln_blocked (fst (set_certs_enabled w b s)) = ln_blocked s"
  "ln_blocked (fst (set_network w g r b s)) = ln_blocked s"
  by (simp_all add: set_paused_def set_disable_new_def set_peer_own_devices_def set_certs_enabled_def set_network_def Let_def)

lemma set_blocked_blocked:
  "ln_blocked (fst (set_blocked w u name True s)) = tput u name (ln_blocked s)"
  "ln_blocked (fst (set_blocked w u name False s)) = tdel u (ln_blocked s)"
  by (simp_all add: set_blocked_def Let_def)

lemma fold_in_new_blocked: "ln_blocked (fold_in_new io dev ln) = ln_blocked ln"
  by (auto simp: fold_in_new_def reconcile_new_def Let_def split: option.split prod.split)

lemma with_setting_net: "cx_net (snd (with_setting setter mirror reply cx)) = fst (setter (cx_net cx))"
  by (auto simp: with_setting_def Let_def split: prod.split sum.split)

definition blocks :: "u64 \<Rightarrow> ctx \<Rightarrow> bool" where
  "blocks u cx \<longleftrightarrow> tget (ln_blocked (cx_net cx)) u \<noteq> None"

lemma handle_request_blocks:
  assumes "blocks u cx" "req \<noteq> UnblockPeerReq u"
  shows "blocks u (snd (handle_request io req cx))"
  using assms
  by (cases req) (auto simp: handle_request_def blocks_def with_setting_net set_blocked_blocked tget_tput tget_tdel
      split: option.splits sum.splits prod.splits)

text \<open>A request that a history accepts: on the full endpoint, within the bound.\<close>

fun accepts :: "(string \<Rightarrow> control_request option) \<Rightarrow> control_request \<Rightarrow> 'v ctl_event \<Rightarrow> bool" where
  "accepts parse req (Conn io FullAccess (Line l)) \<longleftrightarrow> l \<noteq> [] \<and> length l < MAX_REQUEST_BYTES \<and> parse (trim l) = Some req"
| "accepts parse req _ \<longleftrightarrow> False"

lemma accepted_step:
  assumes "accepts parse req ev" "ev = Conn io a line" "req \<noteq> WatchReq"
  shows "ctl_step parse ev cx = snd (handle_request io req cx)"
  using assms by (cases a; cases line) (auto simp: ctl_step_def handle_conn_def access_allows_def split: prod.split)

lemma conn_step:
  assumes "ev = Conn io a line"
  shows "ctl_step parse ev cx = cx \<or> (\<exists>req. accepts parse req ev \<and> ctl_step parse ev cx = snd (handle_request io req cx))"
proof (cases a)
  case ReadOnly
  then show ?thesis using read_only_conn [OF surjective_pairing, of parse io line cx] by (simp add: assms ctl_step_def)
next
  case FullAccess
  show ?thesis
  proof (cases line)
    case (Line l)
    then show ?thesis
      by (cases "l = [] \<or> MAX_REQUEST_BYTES \<le> length l"; cases "parse (trim l)")
        (auto simp: ctl_step_def handle_conn_def access_allows_def FullAccess assms split: prod.split)
  qed (simp_all add: assms ctl_step_def handle_conn_def)
qed

lemma ctl_step_blocks:
  assumes "blocks u cx" "\<not> accepts parse (UnblockPeerReq u) ev"
  shows "blocks u (ctl_step parse ev cx)"
proof (cases ev)
  case (Conn io a line)
  from conn_step [OF Conn, of parse cx] show ?thesis
  proof (elim disjE exE conjE)
    fix req assume "accepts parse req ev" "ctl_step parse ev cx = snd (handle_request io req cx)"
    with assms handle_request_blocks [of u cx req io] show ?thesis by (cases "req = UnblockPeerReq u") auto
  qed (use assms in simp)
qed (use assms in \<open>simp add: ctl_step_def blocks_def\<close>)

lemma ctl_run_blocks:
  "blocks u cx \<Longrightarrow> \<forall>ev\<in>set evs. \<not> accepts parse (UnblockPeerReq u) ev \<Longrightarrow> blocks u (ctl_run parse evs cx)"
proof (induction evs arbitrary: cx)
  case (Cons ev evs)
  from Cons.prems have "blocks u (ctl_step parse ev cx)" by (simp add: ctl_step_blocks)
  with Cons show ?case by (simp add: ctl_run_def)
qed (simp add: ctl_run_def)

text \<open>C5 (block_takes_effect). A block, once the control socket has taken it (even where it could not be written), holds
  through any later requests and status changes but an unblock of that user: the next \<open>apply_state\<close> that
  succeeds leaves no active seed of the user, no tunnel source that only that user's devices have, no address
  of theirs behind a network or own-device exposure, and no peer of theirs in the status. An unblock in that
  history on the read-only endpoint does not count.\<close>

theorem block_takes_effect:
  assumes "accepts parse (BlockPeerReq u name) blk" "\<forall>ev\<in>set evs. \<not> accepts parse (UnblockPeerReq u) ev"
    "me_localnet m = cx_net (ctl_run parse (blk # evs) cx)" "mesh_ok m"
    "apply_state io my_pubkey dev seeds eps m = (Inr r, m')"
  shows "let active = active_now m' dev seeds in
    (\<forall>s\<in>set active. s \<in> set seeds \<and> sp_user_id s \<noteq> u) \<and>
    (\<forall>pk src. tunnel_accepts (me_wg m') pk src \<longrightarrow> (\<exists>s\<in>set seeds. sp_pubkey s = pk \<and> sp_ip s = src \<and> sp_user_id s \<noteq> u)) \<and>
    (\<forall>fw scope src. me_fw m' = Some fw \<and> admits (fw_peers fw) scope src \<and> (\<forall>guild name. scope \<noteq> Unresolved guild name) \<longrightarrow>
       scope = AllPeers \<or> (\<exists>s\<in>set seeds. sp_ip s = src \<and> sp_user_id s \<noteq> u)) \<and>
    (\<forall>p\<in>set (rp_peers (sd_report (status_update v d active disabled blocked connected dn po online routes sh))).
       ps_user_id p \<noteq> u)"
proof -
  obtain cio a line where blk: "blk = Conn cio a line" using assms(1) by (cases blk) auto
  have "blocks u (ctl_step parse blk cx)"
    using accepted_step [OF assms(1) blk, of cx]
    by (auto simp: blocks_def handle_request_def with_setting_net set_blocked_blocked)
  then have "blocks u (ctl_run parse (blk # evs) cx)" using ctl_run_blocks [OF _ assms(2)] by (simp add: ctl_run_def)
  then have held: "tget (ln_blocked (me_localnet m')) u \<noteq> None"
    using apply_state_Inr [OF assms(5,4)] assms(3) by (simp add: fold_in_new_blocked blocks_def)
  let ?active = "active_now m' dev seeds"
  have active: "s \<in> set seeds \<and> sp_user_id s \<noteq> u" if "s \<in> set ?active" for s
    using that held by (auto simp: active_now_iff)
  have fw: "scope = AllPeers \<or> (\<exists>s\<in>set seeds. sp_ip s = src \<and> sp_user_id s \<noteq> u)"
    if "me_fw m' = Some fw" "admits (fw_peers fw) scope src" "\<forall>guild name. scope \<noteq> Unresolved guild name" for fw scope src
  proof -
    have "fw_peers fw = peer_sets_of ?active (map_option se_user_id dev)"
      using apply_state_Inr [OF assms(5,4)] that(1) by (auto split: option.splits)
    with that(2) have "scope_admits (map_option se_user_id dev) ?active scope src" by (simp add: admits_peer_sets)
    with that(3) active show ?thesis by (cases scope) (auto simp: scope_admits_def)
  qed
  have "ps_user_id p \<noteq> u" if "p \<in> set (rp_peers (sd_report (status_update v d ?active disabled blocked connected dn po online routes sh)))" for p
    using that by (auto simp: status_update_def send_replace_def Let_def peer_status_of_def dest!: active)
  with active fw apply_state_accepts [OF assms(5,4)] show ?thesis unfolding Let_def by blast
qed

definition demo_blocking :: "nat ctl_event list" where
  "demo_blocking = [Conn demo_ctl_io ReadOnly (Line ''u''), Daemon (NeedsLogin False), Conn demo_ctl_io FullAccess (Line ''s'')]"

definition demo_blocked_mesh :: mesh where
  "demo_blocked_mesh = (demo_mesh [] [])\<lparr>me_localnet :=
     cx_net (ctl_run demo_parse (Conn (demo_ctl_io\<lparr>ci_wrote := NotWritten\<rparr>) FullAccess (Line ''b'') # demo_blocking) demo_ctx)\<rparr>"

definition demo_blocked_result :: mesh where
  "demo_blocked_result = snd (apply_state demo_mesh_io [1] (Some demo_own_dev) (map (\<lambda>s. s\<lparr>sp_user_id := 5\<rparr>) demo_seeds) no_endpoints demo_blocked_mesh)"

theorem block_takes_effect_witness: "\<forall>pk src. \<not> tunnel_accepts (me_wg demo_blocked_result) pk src"
proof -
  let ?seeds = "map (\<lambda>s. s\<lparr>sp_user_id := 5\<rparr>) demo_seeds"
  let ?blk = "Conn (demo_ctl_io\<lparr>ci_wrote := NotWritten\<rparr>) FullAccess (Line ''b'') :: nat ctl_event"
  have blk: "accepts demo_parse (BlockPeerReq 5 ''eve'') ?blk"
    by (simp add: demo_parse_def MAX_REQUEST_BYTES_def trim_def is_space_def)
  have evs: "\<forall>ev\<in>set demo_blocking. \<not> accepts demo_parse (UnblockPeerReq 5) ev"
    by (simp add: demo_blocking_def demo_parse_def trim_def is_space_def)
  have ln: "me_localnet demo_blocked_mesh = cx_net (ctl_run demo_parse (?blk # demo_blocking) demo_ctx)"
    by (simp add: demo_blocked_mesh_def)
  have ok: "mesh_ok demo_blocked_mesh"
    using demo_mesh_ok [of "[]" "[]"] by (simp add: mesh_ok_def demo_blocked_mesh_def)
  have applied: "apply_state demo_mesh_io [1] (Some demo_own_dev) ?seeds no_endpoints demo_blocked_mesh = (Inr (), demo_blocked_result)"
    using apply_state_succeeds [of demo_mesh_io "[1]" "Some demo_own_dev" ?seeds no_endpoints demo_blocked_mesh]
    by (simp add: demo_blocked_result_def demo_mesh_io_def all_ok_def io_ok_def prod_eq_iff)
  from block_takes_effect [OF blk evs ln ok applied] show ?thesis
    unfolding Let_def by (auto simp: image_iff)
qed

end
