(* ===== verification/Relay.thy ===== *)
theory Relay
  imports Mesh Register
begin

section \<open>Relays and ICE: \<open>relay.rs\<close>, \<open>ice.rs\<close> and their ends in \<open>daemon.rs\<close>\<close>

text \<open>
  The embedded TURN server's own decisions, the sessions through which a peer is reached by a relay or by an
  ICE agent, and the passes that keep them. The TURN and ICE libraries are parameters: how they derive a key,
  and what starting a client or an agent returns.
\<close>

subsection \<open>The relay server\<close>

definition is_private_v4 :: "u32 \<Rightarrow> bool" where
  "is_private_v4 w \<longleftrightarrow> drop_bit 24 w = 10 \<or> drop_bit 20 w = 0xAC1 \<or> drop_bit 16 w = 0xC0A8"

definition allowed_relay_dst :: "ip \<Rightarrow> bool" where
  "allowed_relay_dst dst =
     (case dst of
        V4 w \<Rightarrow>
          (let o0 = drop_bit 24 w; o1 = and (drop_bit 16 w) 0xFF;
               cgnat = (o0 = 100 \<and> 64 \<le> o1 \<and> o1 \<le> 127)
           in \<not> (is_private_v4 w \<or> o0 = 127 \<or> drop_bit 16 w = 0xA9FE \<or> w = 0xFFFFFFFF \<or> drop_bit 28 w = 14 \<or> w = 0 \<or> cgnat))
      | V6 w \<Rightarrow>
          (let seg0 = drop_bit 112 w
           in \<not> (w = 1 \<or> drop_bit 120 w = 0xFF \<or> w = 0 \<or> and seg0 0xFFC0 = 0xFE80 \<or> and seg0 0xFE00 = 0xFC00)))"

text \<open>\<open>MeshFilteredConn::send_to\<close>: what is sent, and the count the caller is told.\<close>

definition filtered_send :: "bool \<Rightarrow> sockaddr \<Rightarrow> u8 list \<Rightarrow> (sockaddr \<times> u8 list) option \<times> nat" where
  "filtered_send allow_private target buf =
     (if allow_private \<or> allowed_relay_dst (sa_ip target) then (Some (target, buf), length buf) else (None, length buf))"

definition parse_u64 :: "string \<Rightarrow> u64 option" where
  "parse_u64 s =
     (let ds = (case s of c # r \<Rightarrow> if c = CHR ''+'' then r else s | [] \<Rightarrow> [])
      in case parse_nat ds of Some n \<Rightarrow> if n < 2 ^ 64 then Some (of_nat n) else None | None \<Rightarrow> None)"

record capped_auth =
  ca_secret :: string
  ca_max_allocations :: nat

datatype auth_error = MalformedName | CredentialExpired | CapReached

text \<open>\<open>gk\<close> is the \<open>turn\<close> crate's \<open>generate_auth_key\<close>; the active set is the state.\<close>

definition auth_handle ::
  "crypto \<Rightarrow> (string \<Rightarrow> string \<Rightarrow> string \<Rightarrow> u8 list) \<Rightarrow> capped_auth \<Rightarrow> u64 \<Rightarrow> string \<Rightarrow> string \<Rightarrow> sockaddr \<Rightarrow>
   sockaddr list \<Rightarrow> (auth_error + u8 list) \<times> sockaddr list" where
  "auth_handle c gk ca now username realm src active =
     (case parse_u64 username of
        None \<Rightarrow> (Inl MalformedName, active)
      | Some expiry \<Rightarrow>
          if expiry < now then (Inl CredentialExpired, active)
          else if src \<notin> set active \<and> ca_max_allocations ca \<le> length active then (Inl CapReached, active)
          else (Inr (gk username realm (relay_credential c (ca_secret ca) username)),
                if src \<in> set active then active else active @ [src]))"

text \<open>What the server sees: authentications, and the closing of an allocation by its client's address.\<close>

datatype relay_event = AuthCall u64 string string sockaddr | AllocClosed sockaddr

definition relay_step ::
  "crypto \<Rightarrow> (string \<Rightarrow> string \<Rightarrow> string \<Rightarrow> u8 list) \<Rightarrow> capped_auth \<Rightarrow> relay_event \<Rightarrow> sockaddr list \<Rightarrow> sockaddr list" where
  "relay_step c gk ca ev active =
     (case ev of
        AuthCall now username realm src \<Rightarrow> snd (auth_handle c gk ca now username realm src active)
      | AllocClosed src \<Rightarrow> removeAll src active)"

definition relay_run ::
  "crypto \<Rightarrow> (string \<Rightarrow> string \<Rightarrow> string \<Rightarrow> u8 list) \<Rightarrow> capped_auth \<Rightarrow> relay_event list \<Rightarrow> sockaddr list" where
  "relay_run c gk ca evs = fold (relay_step c gk ca) evs []"

text \<open>
  Read off the history, the latest event first: the source was given a key, and its allocation has not closed since.\<close>

fun holds_key ::
  "crypto \<Rightarrow> (string \<Rightarrow> string \<Rightarrow> string \<Rightarrow> u8 list) \<Rightarrow> capped_auth \<Rightarrow> relay_event list \<Rightarrow> sockaddr \<Rightarrow> bool" where
  "holds_key c gk ca [] src \<longleftrightarrow> False"
| "holds_key c gk ca (AuthCall now username realm s # past) src \<longleftrightarrow> holds_key c gk ca past src \<or>
     s = src \<and> (\<exists>k. fst (auth_handle c gk ca now username realm s (relay_run c gk ca (rev past))) = Inr k)"
| "holds_key c gk ca (AllocClosed s # past) src \<longleftrightarrow> s \<noteq> src \<and> holds_key c gk ca past src"

lemma relay_run_snoc: "relay_run c gk ca (evs @ [ev]) = relay_step c gk ca ev (relay_run c gk ca evs)"
  by (simp add: relay_run_def)

lemma auth_granted:
  "fst (auth_handle c gk ca now username realm src active) = Inr k \<Longrightarrow>
   set (snd (auth_handle c gk ca now username realm src active)) = insert src (set active)"
  by (auto simp: auth_handle_def split: option.splits if_splits)

lemma auth_refused:
  "fst (auth_handle c gk ca now username realm src active) = Inl e \<Longrightarrow>
   snd (auth_handle c gk ca now username realm src active) = active"
  by (auto simp: auth_handle_def split: option.splits if_splits)

lemma relay_run_holds:
  "set (relay_run c gk ca evs) = {src. holds_key c gk ca (rev evs) src} \<and>
   distinct (relay_run c gk ca evs) \<and> length (relay_run c gk ca evs) \<le> ca_max_allocations ca"
proof (induction evs rule: rev_induct)
  case (snoc ev evs)
  let ?active = "relay_run c gk ca evs"
  show ?case
  proof (cases ev)
    case (AuthCall now username realm src)
    show ?thesis
    proof (cases "fst (auth_handle c gk ca now username realm src ?active)")
      case (Inl e)
      with snoc show ?thesis by (simp add: relay_run_snoc relay_step_def AuthCall auth_refused [OF Inl])
    next
      case (Inr k)
      then have "snd (auth_handle c gk ca now username realm src ?active) = (if src \<in> set ?active then ?active else ?active @ [src])"
        "src \<in> set ?active \<or> length ?active < ca_max_allocations ca"
        by (auto simp: auth_handle_def split: option.splits if_splits)
      then have run: "relay_run c gk ca (evs @ [ev]) = (if src \<in> set ?active then ?active else ?active @ [src])"
        "src \<in> set ?active \<or> length ?active < ca_max_allocations ca"
        by (simp_all add: relay_run_snoc relay_step_def AuthCall)
      have held: "holds_key c gk ca (rev (evs @ [ev])) s \<longleftrightarrow> holds_key c gk ca (rev evs) s \<or> s = src" for s
        using Inr by (auto simp: AuthCall)
      from snoc.IH have past: "set ?active = {s. holds_key c gk ca (rev evs) s}" and "distinct ?active"
        "length ?active \<le> ca_max_allocations ca" by blast+
      moreover from past have "insert src (set ?active) = {s. holds_key c gk ca (rev evs) s \<or> s = src}" by auto
      ultimately show ?thesis unfolding run(1) held using run(2)
        by (cases "src \<in> set ?active") (simp_all only: if_True if_False insert_absorb, simp_all)
    qed
  next
    case (AllocClosed src)
    with snoc show ?thesis
      by (auto simp: relay_run_snoc relay_step_def distinct_removeAll intro: le_trans [OF length_removeAll_less_eq])
  qed
qed (simp add: relay_run_def)

lemma parse_u64_dec: "parse_u64 (dec (unat w)) = Some w"
proof -
  have "dec (unat w) \<noteq> []" "\<forall>c\<in>set (dec (unat w)). is_digit c" using dec_nonempty dec_digits by (auto simp: list_all_iff)
  then have "(case dec (unat w) of c # r \<Rightarrow> if c = CHR ''+'' then r else dec (unat w) | [] \<Rightarrow> []) = dec (unat w)"
    by (cases "dec (unat w)") (auto simp: is_digit_def)
  moreover have "unat w < 2 ^ 64" using unsigned_less [of w] by simp
  ultimately show ?thesis by (simp add: parse_u64_def parse_nat_dec)
qed

text \<open> Coordinator and relay agree without talking: over any history of authentications and closings,
  the credentials the coordinator mints for a relay's secret get the key the client derives from them, from
  any source, until they expire; they are refused after that, and to a new source once as many sources
  as configured hold a key. Never more than that many hold one.\<close>

theorem relay_admits_issued:
  "let info = issue_relay_creds c addr (ca_secret ca) issued ttl; holders = {s. holds_key c gk ca (rev evs) s} in
    card holders \<le> ca_max_allocations ca \<and>
    fst (auth_handle c gk ca now (ri_username info) (ri_realm info) src (relay_run c gk ca evs)) =
      (if issued + ttl < now then Inl CredentialExpired
       else if src \<notin> holders \<and> ca_max_allocations ca \<le> card holders then Inl CapReached
       else Inr (gk (ri_username info) (ri_realm info) (ri_credential info)))"
proof -
  note R = relay_run_holds [of c gk ca evs]
  then have "card {s. holds_key c gk ca (rev evs) s} = length (relay_run c gk ca evs)"
    by (metis distinct_card)
  with R show ?thesis
    by (simp add: Let_def auth_handle_def issue_relay_creds_def parse_u64_dec)
qed

text \<open>
  The set counts who asked, not who proved anything: the key is handed to the library before the message it
  authenticates is checked. Sources without any credential fill it, nothing they do closes an allocation, and
  every other member is refused from then on.\<close>

lemma cap_taken_by_strangers:
  assumes "distinct strangers" "length strangers = ca_max_allocations ca" "src \<notin> set strangers"
    "\<forall>ev\<in>set evs. \<exists>now u r s. ev = AuthCall now u r s"
  shows "\<exists>e. fst (auth_handle c gk ca now username realm src
    (relay_run c gk ca (map (AuthCall 0 ''9'' []) strangers @ evs))) = Inl e"
proof -
  have fill: "fold (relay_step c gk ca) (map (AuthCall 0 ''9'' []) ss) active = active @ ss"
    if "distinct (active @ ss)" "length (active @ ss) \<le> ca_max_allocations ca" for active ss
    using that
  proof (induction ss arbitrary: active)
    case (Cons s ss)
    have "parse_u64 ''9'' = Some 9" by (simp add: parse_u64_def parse_nat_def is_digit_def)
    then have "relay_step c gk ca (AuthCall 0 ''9'' [] s) active = active @ [s]"
      using Cons.prems by (simp add: relay_step_def auth_handle_def)
    with Cons.IH [of "active @ [s]"] Cons.prems show ?case by simp
  qed simp
  have full: "fold (relay_step c gk ca) es strangers = strangers" if "\<forall>ev\<in>set es. \<exists>now u r s. ev = AuthCall now u r s" for es
    using that
  proof (induction es)
    case (Cons ev es)
    then obtain n u r s where ev: "ev = AuthCall n u r s" by auto
    have "relay_step c gk ca ev strangers = strangers"
      using assms(2) by (auto simp: relay_step_def ev auth_handle_def split: option.split)
    with Cons show ?case by simp
  qed simp
  have "relay_run c gk ca (map (AuthCall 0 ''9'' []) strangers @ evs) = strangers"
    using fill [of "[]" strangers] full [of evs] assms by (simp add: relay_run_def)
  with assms(2,3) show ?thesis by (auto simp: auth_handle_def split: option.split)
qed

text \<open>An address that maps a private IPv4 one into IPv6 passes the check of the destination.\<close>

lemma mapped_loopback_allowed: "allowed_relay_dst (V6 (0xFFFF7F000001))" "\<not> allowed_relay_dst (V4 0x7F000001)"
  by (simp_all add: allowed_relay_dst_def Let_def)

subsection \<open>Relay sessions\<close>

text \<open>
  A session: the loopback shim, our relayed address, the credentials its TURN client was made with, the
  peer's relayed address as last pushed, the address the tunnel was last heard from, and whether its pump
  still runs. A pump that ended has closed its receiver, so a later push is lost.
\<close>

record relay_session =
  rs_shim :: sockaddr
  rs_relayed :: sockaddr
  rs_client :: relay_info
  rs_peer_relayed :: "sockaddr option"
  rs_tunnel :: "sockaddr option"
  rs_pumping :: bool

type_synonym relay_mgr = "(key, relay_session) hmap"

text \<open>\<open>RelaySession::start\<close>: what allocating at that relay returns, the shim and the relayed address.\<close>

type_synonym relay_start = "relay_info \<Rightarrow> (sockaddr \<times> sockaddr) option"

definition relay_session_of :: "relay_info \<Rightarrow> sockaddr \<times> sockaddr \<Rightarrow> relay_session" where
  "relay_session_of info r = \<lparr>rs_shim = fst r, rs_relayed = snd r, rs_client = info,
     rs_peer_relayed = ri_peer_relayed info, rs_tunnel = None, rs_pumping = True\<rparr>"

definition push_relayed :: "relay_info \<Rightarrow> relay_session \<Rightarrow> relay_session" where
  "push_relayed info s = (if rs_pumping s then s\<lparr>rs_peer_relayed := ri_peer_relayed info\<rparr> else s)"

definition relay_ensure :: "relay_start \<Rightarrow> key \<Rightarrow> relay_info \<Rightarrow> relay_mgr \<Rightarrow> sockaddr option \<times> relay_mgr" where
  "relay_ensure start peer info m =
     (case (case tget m peer of None \<Rightarrow> map_option (relay_session_of info) (start info) | Some s \<Rightarrow> Some s) of
        None \<Rightarrow> (None, m)
      | Some s \<Rightarrow> (Some (rs_shim s), tput peer (push_relayed info s) m))"

definition is_relaying :: "relay_mgr \<Rightarrow> key \<Rightarrow> bool" where
  "is_relaying m peer \<longleftrightarrow> tget m peer \<noteq> None"

definition relay_allocations :: "relay_mgr \<Rightarrow> relay_allocation list" where
  "relay_allocations m = map (\<lambda>(pk, s). \<lparr>al_peer = pk, al_relayed = rs_relayed s\<rparr>) m"

fun sync_relays_loop ::
  "relay_start \<Rightarrow> seed_peer list \<Rightarrow> (key, sockaddr) hmap \<Rightarrow> key list \<Rightarrow> relay_mgr \<Rightarrow> (key, sockaddr) hmap \<times> key list \<times> relay_mgr" where
  "sync_relays_loop start [] eps kept m = (eps, kept, m)"
| "sync_relays_loop start (s # seeds) eps kept m =
     (case sp_relay s of
        None \<Rightarrow> sync_relays_loop start seeds eps kept m
      | Some info \<Rightarrow>
          (case relay_ensure start (sp_pubkey s) info m of
             (None, m1) \<Rightarrow> sync_relays_loop start seeds eps (sp_pubkey s # kept) m1
           | (Some shim, m1) \<Rightarrow> sync_relays_loop start seeds (tput (sp_pubkey s) shim eps) (sp_pubkey s # kept) m1))"

definition sync_relays :: "relay_start \<Rightarrow> seed_peer list \<Rightarrow> relay_mgr \<Rightarrow> (key, sockaddr) hmap \<times> relay_mgr" where
  "sync_relays start seeds m =
     (case sync_relays_loop start seeds [] [] m of (eps, kept, m1) \<Rightarrow> (eps, tkeep (\<lambda>pk _. pk \<in> set kept) m1))"

text \<open>The pump: a packet from the tunnel goes to the peer's relayed address, one from the relay to the tunnel.\<close>

datatype bridged = ToRelay sockaddr "u8 list" | ToTunnel sockaddr "u8 list"

definition pump_egress :: "sockaddr \<Rightarrow> u8 list \<Rightarrow> relay_session \<Rightarrow> bridged list \<times> relay_session" where
  "pump_egress from_addr packet s =
     (case rs_peer_relayed s of None \<Rightarrow> [] | Some dst \<Rightarrow> [ToRelay dst (take 1600 packet)], s\<lparr>rs_tunnel := Some from_addr\<rparr>)"

definition pump_ingress :: "u8 list \<Rightarrow> relay_session \<Rightarrow> bridged list" where
  "pump_ingress packet s = (case rs_tunnel s of None \<Rightarrow> [] | Some dst \<Rightarrow> [ToTunnel dst (take 1600 packet)])"

subsection \<open>A relayed pair meets\<close>

lemma relay_ensure_held:
  "tget m peer = Some s \<Longrightarrow> relay_ensure start peer info m = (Some (rs_shim s), tput peer (push_relayed info s) m)"
  by (simp add: relay_ensure_def)

lemma allocations_mem: "tget m peer = Some s \<Longrightarrow> \<lparr>al_peer = peer, al_relayed = rs_relayed s\<rparr> \<in> set (relay_allocations m)"
  unfolding relay_allocations_def using tget_SomeD [of m peer s] by force

lemma allocations_reported:
  assumes "tok m" "tget m peer = Some s" "peer \<in> set comembers"
    "rq_relay_allocated req = sort_key al_peer (relay_allocations m)"
    "report_loop (alloc_reports req comembers) t wakes = (t', wakes')"
  shows "tget t' (rq_wg_pubkey req, peer) = Some (rs_relayed s)"
proof -
  have "((rq_wg_pubkey req, peer), rs_relayed s, peer) \<in> set (alloc_reports req comembers)"
    using allocations_mem [OF assms(2)] assms(3,4) by (force simp: alloc_reports_def)
  then obtain v target where v: "((rq_wg_pubkey req, peer), v, target) \<in> set (alloc_reports req comembers)"
    "tget t' (rq_wg_pubkey req, peer) = Some v" using report_loop_stored [OF assms(5)] by blast
  then have "(peer, v) \<in> (\<lambda>(pk, s). (pk, rs_relayed s)) ` set m"
    by (auto simp: alloc_reports_def assms(4) relay_allocations_def image_iff split: prod.splits) force?
  then have "v = rs_relayed s" using assms(2) tget_SomeI [OF assms(1)] by fastforce
  with v show ?thesis by simp
qed

lemma reports_apart:
  assumes "report_loop (alloc_reports req comembers) t wakes = (t', wakes')" "owner \<noteq> rq_wg_pubkey req"
  shows "tget t' (owner, peer) = tget t (owner, peer)"
proof (rule ccontr)
  assume "tget t' (owner, peer) \<noteq> tget t (owner, peer)"
  with report_loop_spec [OF assms(1)] obtain v target where "((owner, peer), v, target) \<in> set (alloc_reports req comembers)" by blast
  with assms(2) show False by (auto simp: alloc_reports_def)
qed

lemma recorded_allocs:
  "record_peer_reports req comembers t wakes = (t', wakes') \<Longrightarrow>
   \<exists>w w'. report_loop (alloc_reports req comembers) (nt_relay_allocs t) w = (nt_relay_allocs t', w')"
  by (auto simp: record_peer_reports_def Let_def split: prod.splits) blast

text \<open>C34 (relayed_pair_meets). Two devices that relay to each other, end to end over both engines and the coordinator: once each
  has reported its allocations (the two reports in either order with the other's in between), the relay
  each is next handed carries the other's relayed address, and from then on a packet that one engine's
  tunnel gives its shim leaves for the other's relayed address, and reaches the other's tunnel from its
  shim, byte for byte up to the pump's buffer.\<close>

theorem relayed_pair_meets:
  assumes "tok ma" "tok mb" "tget ma B = Some sa" "tget mb A = Some sb" "rs_pumping sa" "rs_pumping sb"
    "rq_wg_pubkey ra = A" "rq_wg_pubkey rb = B" "A \<noteq> B" "B \<in> set comembers_a" "A \<in> set comembers_b"
    "rq_relay_allocated ra = sort_key al_peer (relay_allocations ma)" "rq_relay_allocated rb = sort_key al_peer (relay_allocations mb)"
    "record_peer_reports ra comembers_a t w = (t1, w1)" "record_peer_reports rb comembers_b t1 w2 = (t2, w3)"
    "peer_relay ev ra' t2 cands_a mpb nets_a = Some to_b" "mp_pubkey mpb = B" "rq_wg_pubkey ra' = A"
    "peer_relay ev' rb' t2 cands_b mpa nets_b = Some to_a" "mp_pubkey mpa = A" "rq_wg_pubkey rb' = B"
  shows "ri_peer_relayed to_b = Some (rs_relayed sb) \<and> ri_peer_relayed to_a = Some (rs_relayed sa) \<and>
    (\<exists>sa' sb'. tget (snd (relay_ensure start B to_b ma)) B = Some sa' \<and> tget (snd (relay_ensure start' A to_a mb)) A = Some sb' \<and>
       rs_shim sa' = rs_shim sa \<and> rs_relayed sb' = rs_relayed sb \<and>
       fst (pump_egress tunnel packet sa') = [ToRelay (rs_relayed sb') (take 1600 packet)] \<and>
       pump_ingress (take 1600 packet) (snd (pump_egress tunnel' hello sb')) = [ToTunnel tunnel' (take 1600 packet)])"
proof -
  obtain u u' where 1: "report_loop (alloc_reports ra comembers_a) (nt_relay_allocs t) u = (nt_relay_allocs t1, u')"
    using recorded_allocs [OF assms(14)] by blast
  obtain x x' where 2: "report_loop (alloc_reports rb comembers_b) (nt_relay_allocs t1) x = (nt_relay_allocs t2, x')"
    using recorded_allocs [OF assms(15)] by blast
  have "tget (nt_relay_allocs t2) (A, B) = Some (rs_relayed sa)" "tget (nt_relay_allocs t2) (B, A) = Some (rs_relayed sb)"
    using allocations_reported [OF assms(1,3,10,12) 1] reports_apart [OF 2, of A B] allocations_reported [OF assms(2,4,11,13) 2]
      assms(7-9) by simp_all
  then have to: "ri_peer_relayed to_b = Some (rs_relayed sb)" "ri_peer_relayed to_a = Some (rs_relayed sa)"
    using assms(16-21) by (auto simp: peer_relay_def split: if_splits)
  show ?thesis
    using to by (simp add: relay_ensure_held [OF assms(3)] relay_ensure_held [OF assms(4)] push_relayed_def assms(5,6)
        pump_egress_def pump_ingress_def)
qed

text \<open>
  But a session is only ever made once: whatever the coordinator says later, while it keeps naming some relay
  for the peer the session keeps the client it was started with, to the relay and with the credentials of
  that day, running or not. Those credentials expire, and then the relay refuses every refresh.\<close>

lemma relay_ensure_keeps:
  "tget m pk = Some s0 \<Longrightarrow> \<exists>s. tget (snd (relay_ensure start peer info m)) pk = Some s \<and> rs_client s = rs_client s0 \<and>
     rs_relayed s = rs_relayed s0 \<and> rs_pumping s = rs_pumping s0"
  by (cases "peer = pk") (auto simp: relay_ensure_def push_relayed_def split: option.split)

lemma sync_loop_keeps:
  assumes "tget m pk = Some s0" "tok m"
  shows "\<exists>eps' kept' m' s. sync_relays_loop start seeds eps kept m = (eps', kept', m') \<and> tok m' \<and> tget m' pk = Some s \<and>
     rs_client s = rs_client s0 \<and> rs_relayed s = rs_relayed s0 \<and> rs_pumping s = rs_pumping s0 \<and> set kept \<subseteq> set kept' \<and>
     ((\<exists>x\<in>set seeds. sp_pubkey x = pk \<and> sp_relay x \<noteq> None) \<longrightarrow> pk \<in> set kept')"
  using assms
proof (induction seeds arbitrary: eps kept m s0)
  case (Cons x seeds)
  show ?case
  proof (cases "sp_relay x")
    case None
    with Cons.IH [OF Cons.prems, of eps kept] show ?thesis by auto
  next
    case (Some info)
    obtain r m1 where e: "relay_ensure start (sp_pubkey x) info m = (r, m1)" by fastforce
    with relay_ensure_keeps [OF Cons.prems(1), of start "sp_pubkey x" info] obtain s1 where s1: "tget m1 pk = Some s1"
      "rs_client s1 = rs_client s0" "rs_relayed s1 = rs_relayed s0" "rs_pumping s1 = rs_pumping s0" by auto
    have "tok m1" using e Cons.prems(2) by (auto simp: relay_ensure_def split: option.splits)
    obtain eps1 where "sync_relays_loop start (x # seeds) eps kept m = sync_relays_loop start seeds eps1 (sp_pubkey x # kept) m1"
      by (cases r) (auto simp: Some e)
    with Cons.IH [OF s1(1) \<open>tok m1\<close>, of eps1 "sp_pubkey x # kept"] s1 show ?thesis by auto
  qed
qed auto

lemma relay_never_renewed:
  assumes "tget m pk = Some s0" "tok m" "\<forall>(start, seeds)\<in>set rounds. \<exists>x\<in>set seeds. sp_pubkey x = pk \<and> sp_relay x \<noteq> None"
  shows "\<exists>s. tget (fold (\<lambda>(start, seeds) m. snd (sync_relays start seeds m)) rounds m) pk = Some s \<and>
    rs_client s = rs_client s0 \<and> rs_relayed s = rs_relayed s0 \<and> rs_pumping s = rs_pumping s0"
  using assms
proof (induction rounds arbitrary: m s0)
  case (Cons r rounds)
  obtain start seeds where r: "r = (start, seeds)" by (cases r)
  with Cons.prems(3) have "\<exists>x\<in>set seeds. sp_pubkey x = pk \<and> sp_relay x \<noteq> None" by auto
  with sync_loop_keeps [OF Cons.prems(1,2), of start seeds "[]" "[]"] obtain s where s:
    "tok (snd (sync_relays start seeds m))" "tget (snd (sync_relays start seeds m)) pk = Some s" "rs_client s = rs_client s0" "rs_relayed s = rs_relayed s0"
    "rs_pumping s = rs_pumping s0"
    by (auto simp: sync_relays_def tget_tkeep)
  with Cons.IH [OF s(2,1)] Cons.prems(3) show ?case by (auto simp: r)
qed auto

subsection \<open>ICE agents\<close>

definition RESTART_BACKOFF_MIN :: nat where "RESTART_BACKOFF_MIN = secs 60"
definition RESTART_BACKOFF_MAX :: nat where "RESTART_BACKOFF_MAX = secs 600"

definition restart_backoff :: "u32 \<Rightarrow> nat" where
  "restart_backoff n =
     (let shift = unat (sat_sub n 1)
      in min (RESTART_BACKOFF_MIN * (if shift < 32 then 2 ^ shift else 2 ^ 32 - 1)) RESTART_BACKOFF_MAX)"

datatype ice_state = Negotiating | IceConnected sockaddr | IceFailed

record ice_session =
  ag_ufrag :: string
  ag_pwd :: string
  ag_candidates :: "string list"
  ag_remote :: "ice_params option"
  ag_state :: ice_state

record ice_mgr =
  im_sessions :: "(key, ice_session) hmap"
  im_failures :: "(key, u32 \<times> nat) hmap"

definition no_agents :: ice_mgr where "no_agents = \<lparr>im_sessions = [], im_failures = []\<rparr>"

record ice_peer_config =
  ipc_controlling :: bool
  ipc_stun :: "sockaddr list"
  ipc_turn :: "relay_info option"
  ipc_remote :: "ice_params option"

datatype ice_url = StunUrl sockaddr | TurnUrl sockaddr string string

definition build_urls :: "sockaddr list \<Rightarrow> relay_info option \<Rightarrow> ice_url list" where
  "build_urls stun turn =
     map StunUrl stun @ (case turn of None \<Rightarrow> [] | Some t \<Rightarrow> [TurnUrl (ri_turn_addr t) (ri_username t) (ri_credential t)])"

text \<open>What becomes of an agent between two passes: a candidate gathered, the dial returning, or its failure.\<close>

datatype agent_event = Gathered string | DialReturned sockaddr | AgentFailed

definition agent_step :: "agent_event \<Rightarrow> ice_session \<Rightarrow> ice_session" where
  "agent_step ev s =
     (case ev of
        Gathered c \<Rightarrow> s\<lparr>ag_candidates := ag_candidates s @ [c]\<rparr>
      | DialReturned shim \<Rightarrow> if ag_state s = IceFailed then s else s\<lparr>ag_state := IceConnected shim\<rparr>
      | AgentFailed \<Rightarrow> s\<lparr>ag_state := IceFailed\<rparr>)"

text \<open>\<open>IceSession::start\<close>: the credentials of the agent it makes from the URLs and the role, or no agent.\<close>

type_synonym ice_start = "ice_url list \<Rightarrow> bool \<Rightarrow> (string \<times> string) option"

definition sat_inc32 :: "u32 \<Rightarrow> u32" where "sat_inc32 n = (if n = - 1 then n else n + 1)"

definition drop_failed :: "nat \<Rightarrow> key \<Rightarrow> ice_mgr \<Rightarrow> ice_mgr" where
  "drop_failed now peer m =
     (case tget (im_sessions m) peer of
        None \<Rightarrow> m
      | Some s \<Rightarrow>
          if ag_state s \<noteq> IceFailed then m
          else m\<lparr>im_sessions := tdel peer (im_sessions m),
                 im_failures := tput peer
                   (sat_inc32 (case tget (im_failures m) peer of None \<Rightarrow> 0 | Some (n, _) \<Rightarrow> n), now) (im_failures m)\<rparr>)"

definition ice_ensure :: "nat \<Rightarrow> ice_start \<Rightarrow> key \<Rightarrow> ice_peer_config \<Rightarrow> ice_mgr \<Rightarrow> sockaddr option \<times> ice_mgr" where
  "ice_ensure now start peer cfg m0 =
     (let m = drop_failed now peer m0;
          held_off = (case tget (im_failures m) peer of None \<Rightarrow> False | Some (n, at) \<Rightarrow> now - at < restart_backoff n)
      in case (case tget (im_sessions m) peer of
                 Some s \<Rightarrow> Some s
               | None \<Rightarrow>
                   if held_off then None
                   else map_option (\<lambda>(ufrag, pwd). \<lparr>ag_ufrag = ufrag, ag_pwd = pwd, ag_candidates = [],
                          ag_remote = ipc_remote cfg, ag_state = Negotiating\<rparr>)
                          (start (build_urls (ipc_stun cfg) (ipc_turn cfg)) (ipc_controlling cfg))) of
           None \<Rightarrow> (None, m)
         | Some s \<Rightarrow>
             (let m1 = m\<lparr>im_sessions := tput peer (s\<lparr>ag_remote := ipc_remote cfg\<rparr>) (im_sessions m)\<rparr>
              in case ag_state s of
                   IceConnected shim \<Rightarrow> (Some shim, m1\<lparr>im_failures := tdel peer (im_failures m1)\<rparr>)
                 | _ \<Rightarrow> (None, m1)))"

definition has_session :: "ice_mgr \<Rightarrow> key \<Rightarrow> bool" where
  "has_session m peer \<longleftrightarrow> tget (im_sessions m) peer \<noteq> None"

definition is_ice_connected :: "ice_mgr \<Rightarrow> key \<Rightarrow> bool" where
  "is_ice_connected m peer \<longleftrightarrow> (case tget (im_sessions m) peer of Some s \<Rightarrow> (\<exists>a. ag_state s = IceConnected a) | None \<Rightarrow> False)"

definition ice_offers :: "ice_mgr \<Rightarrow> ice_endpoint list" where
  "ice_offers m = map (\<lambda>(pk, s). \<lparr>ie_peer = pk,
     ie_params = \<lparr>ic_ufrag = ag_ufrag s, ic_pwd = ag_pwd s, ic_candidates = ag_candidates s\<rparr>\<rparr>) (im_sessions m)"

definition retain_agents :: "key list \<Rightarrow> ice_mgr \<Rightarrow> ice_mgr" where
  "retain_agents kept m = m\<lparr>im_sessions := tkeep (\<lambda>pk _. pk \<in> set kept) (im_sessions m),
     im_failures := tkeep (\<lambda>pk _. pk \<in> set kept) (im_failures m)\<rparr>"

definition ice_config :: "key \<Rightarrow> sockaddr option \<Rightarrow> seed_peer \<Rightarrow> ice_peer_config" where
  "ice_config self_pk coord_stun s =
     \<lparr>ipc_controlling = (self_pk < sp_pubkey s),
      ipc_stun = (case sp_relay s of None \<Rightarrow> [] | Some r \<Rightarrow> [ri_turn_addr r]) @ (case coord_stun of None \<Rightarrow> [] | Some a \<Rightarrow> [a]),
      ipc_turn = sp_relay s, ipc_remote = sp_ice s\<rparr>"

fun sync_ice_loop ::
  "nat \<Rightarrow> ice_start \<Rightarrow> key \<Rightarrow> sockaddr option \<Rightarrow> key list \<Rightarrow> seed_peer list \<Rightarrow> (key, sockaddr) hmap \<Rightarrow> key list \<Rightarrow> ice_mgr \<Rightarrow>
   (key, sockaddr) hmap \<times> key list \<times> ice_mgr" where
  "sync_ice_loop now start self_pk coord_stun want [] eps kept m = (eps, kept, m)"
| "sync_ice_loop now start self_pk coord_stun want (s # seeds) eps kept m =
     (let pk = sp_pubkey s
      in if pk \<notin> set want \<and> \<not> has_session m pk then sync_ice_loop now start self_pk coord_stun want seeds eps kept m
         else (case ice_ensure now start pk (ice_config self_pk coord_stun s) m of
             (None, m1) \<Rightarrow> sync_ice_loop now start self_pk coord_stun want seeds eps (pk # kept) m1
           | (Some shim, m1) \<Rightarrow> sync_ice_loop now start self_pk coord_stun want seeds (tput pk shim eps) (pk # kept) m1))"

definition sync_ice ::
  "nat \<Rightarrow> ice_start \<Rightarrow> key \<Rightarrow> sockaddr option \<Rightarrow> key list \<Rightarrow> seed_peer list \<Rightarrow> ice_mgr \<Rightarrow> (key, sockaddr) hmap \<times> ice_mgr" where
  "sync_ice now start self_pk coord_stun want seeds m =
     (case sync_ice_loop now start self_pk coord_stun want seeds [] [] m of
        (eps, kept, m1) \<Rightarrow> (eps, retain_agents kept m1))"

text \<open>The manager's history: passes over a peer, what its agent does, and the peers kept at the end of a pass.\<close>

datatype ice_op = Ensure nat ice_start key ice_peer_config | AgentDid key agent_event | Retain "key list"

definition ice_op_step :: "ice_op \<Rightarrow> ice_mgr \<Rightarrow> ice_mgr" where
  "ice_op_step op m =
     (case op of
        Ensure now start peer cfg \<Rightarrow> snd (ice_ensure now start peer cfg m)
      | AgentDid peer ev \<Rightarrow> m\<lparr>im_sessions := (case tget (im_sessions m) peer of
            None \<Rightarrow> im_sessions m | Some s \<Rightarrow> tput peer (agent_step ev s) (im_sessions m))\<rparr>
      | Retain kept \<Rightarrow> retain_agents kept m)"

definition starts_agent :: "nat \<Rightarrow> ice_start \<Rightarrow> key \<Rightarrow> ice_peer_config \<Rightarrow> ice_mgr \<Rightarrow> bool" where
  "starts_agent now start peer cfg m \<longleftrightarrow>
     \<not> has_session (drop_failed now peer m) peer \<and> has_session (snd (ice_ensure now start peer cfg m)) peer"

text \<open>
  The times a peer's agents were started, oldest first, since the peer was last let go; a pass that finds it
  connected starts the list anew at its time.\<close>

definition note_start :: "key \<Rightarrow> ice_op \<Rightarrow> ice_mgr \<times> nat list \<Rightarrow> ice_mgr \<times> nat list" where
  "note_start pk op h =
     (case h of (m, ts) \<Rightarrow> (ice_op_step op m,
        case op of
          Ensure now start peer cfg \<Rightarrow>
            if peer \<noteq> pk then ts
            else if fst (ice_ensure now start peer cfg m) \<noteq> None then [now]
            else if starts_agent now start peer cfg m then ts @ [now] else ts
        | AgentDid peer ev \<Rightarrow> ts
        | Retain kept \<Rightarrow> if pk \<in> set kept then ts else []))"

definition agent_starts :: "key \<Rightarrow> ice_op list \<Rightarrow> ice_mgr \<times> nat list" where
  "agent_starts pk ops = fold (note_start pk) ops (no_agents, [])"

definition ensure_times :: "ice_op list \<Rightarrow> nat list" where
  "ensure_times ops = concat (map (\<lambda>op. case op of Ensure now _ _ _ \<Rightarrow> [now] | _ \<Rightarrow> []) ops)"

definition restart_gap :: "nat \<Rightarrow> nat" where
  "restart_gap i = min (secs 60 * 2 ^ i) (secs 600)"

definition spaced_starts :: "nat list \<Rightarrow> bool" where
  "spaced_starts ts \<longleftrightarrow> (\<forall>i. Suc i < length ts \<longrightarrow> ts ! i + restart_gap i \<le> ts ! Suc i)"

lemma restart_gap_backoff:
  assumes "0 < l" "l \<le> unat n \<or> n = - 1"
  shows "restart_gap (l - 1) \<le> restart_backoff n"
proof (cases "unat n - 1 < 4")
  case True
  have "unat (- 1 :: u32) = 4294967295" by (simp add: unsigned_minus_1_eq_mask mask_eq_exp_minus_1)
  with True have "n \<noteq> - 1" by auto
  with assms have l: "l - 1 \<le> unat n - 1" by auto
  have "(2::nat) ^ (l - 1) \<le> 2 ^ (unat n - 1)" using l by (simp add: power_increasing)
  then have "secs 60 * 2 ^ (l - 1) \<le> secs 60 * 2 ^ (unat n - 1)" by simp
  moreover have "unat (sat_sub n 1) = unat n - 1" by (simp add: unat_sat_sub)
  ultimately show ?thesis using True by (auto simp: restart_gap_def restart_backoff_def RESTART_BACKOFF_MIN_def RESTART_BACKOFF_MAX_def Let_def min_le_iff_disj)
next
  case False
  have "(2::nat) ^ 4 \<le> (if unat n - 1 < 32 then 2 ^ (unat n - 1) else 2 ^ 32 - 1)"
    using False power_increasing [of 4 "unat n - 1" "2::nat"] by auto
  then have "16 * secs 60 \<le> RESTART_BACKOFF_MIN * (if unat n - 1 < 32 then 2 ^ (unat n - 1) else 2 ^ 32 - 1)"
    unfolding RESTART_BACKOFF_MIN_def by (simp only: mult.commute [of 16]) (rule mult_le_mono2, simp)
  moreover have "secs 600 \<le> 16 * secs 60" by (simp add: secs_def)
  ultimately have "secs 600 \<le> RESTART_BACKOFF_MIN * (if unat n - 1 < 32 then 2 ^ (unat n - 1) else 2 ^ 32 - 1)"
    by (rule order_trans [rotated])
  moreover have "restart_backoff n = min (RESTART_BACKOFF_MIN * (if unat n - 1 < 32 then 2 ^ (unat n - 1) else 2 ^ 32 - 1)) (secs 600)"
    by (simp add: restart_backoff_def RESTART_BACKOFF_MAX_def Let_def unat_sat_sub)
  ultimately have "restart_backoff n = secs 600" by (simp only: min.absorb2)
  then show ?thesis by (simp add: restart_gap_def)
qed

lemma sat_inc32 [simp]: "n \<noteq> - 1 \<Longrightarrow> unat (sat_inc32 n) = Suc (unat n)" "sat_inc32 (- 1) = - 1"
proof -
  assume n: "n \<noteq> - 1"
  then have "n < - 1" by (simp add: order.not_eq_order_implies_strict)
  with n show "unat (sat_inc32 n) = Suc (unat n)" by (simp add: unat_inc sat_inc32_def)
qed (simp add: sat_inc32_def)

lemma spaced_snoc:
  "spaced_starts (ts @ [t]) \<longleftrightarrow> spaced_starts ts \<and> (ts \<noteq> [] \<longrightarrow> last ts + restart_gap (length ts - 1) \<le> t)"
proof (cases ts rule: rev_cases)
  case (snoc us u)
  show ?thesis unfolding spaced_starts_def snoc
    by (auto simp: nth_append less_Suc_eq all_conj_distrib; metis less_SucI less_antisym not_less_eq)
qed (simp add: spaced_starts_def)

definition agents_ok :: "key \<Rightarrow> nat \<Rightarrow> ice_mgr \<times> nat list \<Rightarrow> bool" where
  "agents_ok pk now h \<longleftrightarrow>
     (case h of (m, ts) \<Rightarrow> spaced_starts ts \<and> (\<forall>t\<in>set ts. t \<le> now) \<and> tok (im_sessions m) \<and> tok (im_failures m) \<and>
        (case tget (im_failures m) pk of
           None \<Rightarrow> length ts \<le> (if has_session m pk then 1 else 0)
         | Some (n, at) \<Rightarrow> at \<le> now \<and>
             (if has_session m pk then length ts \<le> unat n + 1 \<or> n = - 1
              else (length ts \<le> unat n \<or> n = - 1) \<and> (\<forall>t\<in>set ts. t \<le> at))))"

lemma drop_failed_ok:
  assumes "agents_ok pk now (m, ts)" "now \<le> now'"
  shows "agents_ok pk now' (drop_failed now' peer m, ts)"
  using assms sat_inc32(1) [of 0]
  by (auto simp: agents_ok_def drop_failed_def has_session_def split: option.splits prod.splits if_splits)
    (metis le_SucI le_antisym not_less_eq_eq sat_inc32)+

lemma ensure_other:
  assumes "peer \<noteq> pk"
  shows "tget (im_sessions (snd (ice_ensure now start peer cfg m))) pk = tget (im_sessions m) pk"
    "tget (im_failures (snd (ice_ensure now start peer cfg m))) pk = tget (im_failures m) pk"
  using assms by (auto simp: ice_ensure_def drop_failed_def Let_def split: option.split ice_state.split prod.split)

lemma ensure_tok:
  "tok (im_sessions m) \<Longrightarrow> tok (im_sessions (snd (ice_ensure now start peer cfg m)))"
  "tok (im_failures m) \<Longrightarrow> tok (im_failures (snd (ice_ensure now start peer cfg m)))"
  by (auto simp: ice_ensure_def drop_failed_def Let_def split: option.split ice_state.split prod.split)

lemma ensure_held_session:
  assumes "tget (im_sessions (drop_failed now pk m)) pk = Some s"
  shows "snd (note_start pk (Ensure now start pk cfg) (m, ts)) = (if \<exists>a. ag_state s = IceConnected a then [now] else ts) \<and>
    im_failures (snd (ice_ensure now start pk cfg m)) =
      (if \<exists>a. ag_state s = IceConnected a then tdel pk (im_failures (drop_failed now pk m)) else im_failures (drop_failed now pk m)) \<and>
    has_session (snd (ice_ensure now start pk cfg m)) pk"
  using assms
  by (auto simp: note_start_def ice_ensure_def Let_def starts_agent_def has_session_def split: ice_state.split)

lemma ensure_new_session:
  assumes "tget (im_sessions (drop_failed now pk m)) pk = None"
  shows "im_failures (snd (ice_ensure now start pk cfg m)) = im_failures (drop_failed now pk m) \<and>
    (if has_session (snd (ice_ensure now start pk cfg m)) pk
     then snd (note_start pk (Ensure now start pk cfg) (m, ts)) = ts @ [now] \<and>
       (case tget (im_failures (drop_failed now pk m)) pk of None \<Rightarrow> True | Some (n, at) \<Rightarrow> restart_backoff n \<le> now - at)
     else snd (note_start pk (Ensure now start pk cfg) (m, ts)) = ts)"
  using assms
  by (auto simp: note_start_def ice_ensure_def Let_def starts_agent_def has_session_def split: option.split)

lemma note_ensure_ok:
  assumes "agents_ok pk now (m, ts)" "now \<le> now'"
  shows "agents_ok pk now' (note_start pk (Ensure now' start pk cfg) (m, ts))"
proof -
  let ?m1 = "drop_failed now' pk m" and ?m2 = "snd (ice_ensure now' start pk cfg m)"
  note ok = drop_failed_ok [OF assms, of pk]
  have fst: "fst (note_start pk (Ensure now' start pk cfg) (m, ts)) = ?m2" by (simp add: note_start_def ice_op_step_def)
  have toks: "tok (im_sessions ?m2)" "tok (im_failures ?m2)" using assms(1) ensure_tok by (auto simp: agents_ok_def)
  show ?thesis
  proof (cases "tget (im_sessions ?m1) pk")
    case (Some s)
    with ok ensure_held_session [OF Some, of start cfg ts] toks fst show ?thesis
      by (cases "note_start pk (Ensure now' start pk cfg) (m, ts)")
        (auto simp: agents_ok_def has_session_def spaced_starts_def split: if_splits option.splits)
  next
    case None
    note new = ensure_new_session [OF None, of start cfg ts]
    show ?thesis
    proof (cases "has_session ?m2 pk")
      case False
      with new ok None toks fst show ?thesis
        by (cases "note_start pk (Ensure now' start pk cfg) (m, ts)") (auto simp: agents_ok_def has_session_def split: option.splits prod.splits)
    next
      case True
      with new have ts': "snd (note_start pk (Ensure now' start pk cfg) (m, ts)) = ts @ [now']" by simp
      have gap: "last ts + restart_gap (length ts - 1) \<le> now'" if ne: "ts \<noteq> []"
      proof -
        obtain n at where f: "tget (im_failures ?m1) pk = Some (n, at)"
          using ok None ne by (auto simp: agents_ok_def has_session_def split: option.splits)
        then have "length ts \<le> unat n \<or> n = - 1" "last ts \<le> at" "at \<le> now'" "restart_backoff n \<le> now' - at"
          using ok None True new ne by (auto simp: agents_ok_def has_session_def)
        moreover have "restart_gap (length ts - 1) \<le> restart_backoff n"
          using restart_gap_backoff [of "length ts" n] \<open>length ts \<le> unat n \<or> n = - 1\<close> ne by simp
        ultimately show ?thesis by linarith
      qed
      show ?thesis using new ok None True toks fst ts' gap
        by (cases "note_start pk (Ensure now' start pk cfg) (m, ts)")
          (auto simp: agents_ok_def has_session_def spaced_snoc split: option.splits)
    qed
  qed
qed

lemma agents_ok_mono: "agents_ok pk now h \<Longrightarrow> now \<le> now' \<Longrightarrow> agents_ok pk now' h"
  by (auto simp: agents_ok_def split: prod.splits option.splits)

lemma agents_ok_cong:
  assumes "agents_ok pk now (m, ts)" "tget (im_failures m') pk = tget (im_failures m) pk" "has_session m' pk = has_session m pk"
    "tok (im_sessions m')" "tok (im_failures m')"
  shows "agents_ok pk now (m', ts)"
  using assms(1,4,5) unfolding agents_ok_def prod.case assms(2,3) by blast

lemma note_start_ok:
  assumes "agents_ok pk now h" "\<forall>t\<in>set (ensure_times [op]). t = now"
  shows "agents_ok pk now (note_start pk op h)"
proof -
  obtain m ts where h: "h = (m, ts)" by (cases h)
  have toks: "tok (im_sessions m)" "tok (im_failures m)" using assms(1) by (auto simp: h agents_ok_def)
  show ?thesis
  proof (cases op)
    case (Ensure t start peer cfg)
    then have t: "t = now" using assms(2) by (simp add: ensure_times_def)
    show ?thesis
    proof (cases "peer = pk")
      case True
      with note_ensure_ok [OF assms(1) [unfolded h]] t h Ensure show ?thesis by simp
    next
      case False
      have "note_start pk op h = (snd (ice_ensure t start peer cfg m), ts)"
        using False by (simp add: h Ensure note_start_def ice_op_step_def)
      with agents_ok_cong [OF assms(1) [unfolded h]] ensure_other [OF False] ensure_tok toks show ?thesis
        by (simp add: has_session_def)
    qed
  next
    case (AgentDid peer ev)
    have "note_start pk op h = (ice_op_step op m, ts)" by (simp add: h AgentDid note_start_def)
    moreover have "has_session (ice_op_step op m) pk = has_session m pk" "im_failures (ice_op_step op m) = im_failures m"
      "tok (im_sessions (ice_op_step op m))"
      using toks by (auto simp: AgentDid ice_op_step_def has_session_def split: option.splits)
    ultimately show ?thesis using agents_ok_cong [OF assms(1) [unfolded h]] toks by simp
  next
    case (Retain kept)
    have keep: "tget (im_sessions (retain_agents kept m)) pk = (if pk \<in> set kept then tget (im_sessions m) pk else None)"
      "tget (im_failures (retain_agents kept m)) pk = (if pk \<in> set kept then tget (im_failures m) pk else None)"
      "tok (im_sessions (retain_agents kept m))" "tok (im_failures (retain_agents kept m))"
      using toks by (auto simp: retain_agents_def tget_tkeep split: option.splits)
    show ?thesis
    proof (cases "pk \<in> set kept")
      case True
      with agents_ok_cong [OF assms(1) [unfolded h], of "retain_agents kept m"] keep show ?thesis
        by (simp add: h Retain note_start_def ice_op_step_def has_session_def)
    next
      case False
      with keep show ?thesis
        by (simp add: h Retain note_start_def ice_op_step_def has_session_def agents_ok_def spaced_starts_def)
    qed
  qed
qed

lemma starts_spaced:
  assumes "sorted (ensure_times ops)" "agent_starts pk ops = (m, ts)" "Suc i < length ts"
  shows "ts ! i + min (secs 60 * 2 ^ i) (secs 600) \<le> ts ! Suc i"
proof -
  have "agents_ok pk T (agent_starts pk ops)" if "\<forall>t\<in>set (ensure_times ops). t \<le> T" for T
    using assms(1) that
  proof (induction ops arbitrary: T rule: rev_induct)
    case Nil
    show ?case by (simp add: agents_ok_def agent_starts_def no_agents_def spaced_starts_def)
  next
    case (snoc op ops)
    have times: "ensure_times (ops @ [op]) = ensure_times ops @ ensure_times [op]" by (simp add: ensure_times_def)
    have run: "agent_starts pk (ops @ [op]) = note_start pk op (agent_starts pk ops)" by (simp add: agent_starts_def)
    have sorted: "sorted (ensure_times ops)" using snoc.prems(1) by (simp add: times sorted_append)
    show ?case
    proof (cases "ensure_times [op]")
      case Nil
      have "agents_ok pk T (note_start pk op (agent_starts pk ops))"
        using note_start_ok [OF snoc.IH [OF sorted]] snoc.prems(2) by (simp add: times Nil)
      then show ?thesis unfolding run .
    next
      case (Cons t rest)
      then have t: "ensure_times [op] = [t]" by (cases op) (simp_all add: ensure_times_def)
      then have "\<forall>t'\<in>set (ensure_times ops). t' \<le> t" "t \<le> T" using snoc.prems by (simp_all add: times sorted_append)
      have "agents_ok pk t (note_start pk op (agent_starts pk ops))"
        using note_start_ok [OF snoc.IH [OF sorted]] \<open>\<forall>t'\<in>set (ensure_times ops). t' \<le> t\<close> by (simp add: t)
      then show ?thesis unfolding run using agents_ok_mono \<open>t \<le> T\<close> by blast
    qed
  qed
  then have "agents_ok pk (Max (insert 0 (set (ensure_times ops)))) (agent_starts pk ops)" by simp
  with assms(2,3) show ?thesis by (auto simp: agents_ok_def spaced_starts_def restart_gap_def)
qed

text \<open>The passes of the daemon as operations of the manager.\<close>

fun loop_ops ::
  "nat \<Rightarrow> ice_start \<Rightarrow> key \<Rightarrow> sockaddr option \<Rightarrow> key list \<Rightarrow> seed_peer list \<Rightarrow> key list \<Rightarrow> ice_mgr \<Rightarrow> ice_op list" where
  "loop_ops now start self_pk coord_stun want [] kept m = [Retain kept]"
| "loop_ops now start self_pk coord_stun want (s # seeds) kept m =
     (let pk = sp_pubkey s; cfg = ice_config self_pk coord_stun s
      in if pk \<notin> set want \<and> \<not> has_session m pk then loop_ops now start self_pk coord_stun want seeds kept m
         else Ensure now start pk cfg #
           loop_ops now start self_pk coord_stun want seeds (pk # kept) (snd (ice_ensure now start pk cfg m)))"

datatype ice_pass = Pass nat ice_start "sockaddr option" "key list" "seed_peer list" | Between key agent_event

definition pass_ops :: "key \<Rightarrow> ice_pass \<Rightarrow> ice_mgr \<Rightarrow> ice_op list" where
  "pass_ops self_pk p m =
     (case p of
        Pass now start coord_stun want seeds \<Rightarrow> loop_ops now start self_pk coord_stun want seeds [] m
      | Between peer ev \<Rightarrow> [AgentDid peer ev])"

definition pass_step :: "key \<Rightarrow> ice_pass \<Rightarrow> ice_mgr \<Rightarrow> ice_mgr" where
  "pass_step self_pk p m =
     (case p of
        Pass now start coord_stun want seeds \<Rightarrow> snd (sync_ice now start self_pk coord_stun want seeds m)
      | Between peer ev \<Rightarrow> ice_op_step (AgentDid peer ev) m)"

fun passes_ops :: "key \<Rightarrow> ice_pass list \<Rightarrow> ice_mgr \<Rightarrow> ice_op list" where
  "passes_ops self_pk [] m = []"
| "passes_ops self_pk (p # ps) m = pass_ops self_pk p m @ passes_ops self_pk ps (pass_step self_pk p m)"

definition pass_times :: "ice_pass list \<Rightarrow> nat list" where
  "pass_times ps = concat (map (\<lambda>p. case p of Pass now _ _ _ _ \<Rightarrow> [now] | Between _ _ \<Rightarrow> []) ps)"

lemma loop_ops_run:
  "sync_ice_loop now start self_pk coord_stun want seeds eps kept m = (eps', kept', m') \<Longrightarrow>
   fold ice_op_step (loop_ops now start self_pk coord_stun want seeds kept m) m = retain_agents kept' m'"
proof (induction seeds arbitrary: eps kept m)
  case (Cons s seeds)
  show ?case
  proof (cases "sp_pubkey s \<notin> set want \<and> \<not> has_session m (sp_pubkey s)")
    case False
    then show ?thesis using Cons
      by (cases "ice_ensure now start (sp_pubkey s) (ice_config self_pk coord_stun s) m")
        (auto simp: Let_def ice_op_step_def split: option.splits)
  qed (use Cons in \<open>simp add: Let_def\<close>)
qed (simp add: ice_op_step_def)

lemma pass_ops_run: "fold ice_op_step (pass_ops self_pk p m) m = pass_step self_pk p m"
  by (auto simp: pass_ops_def pass_step_def sync_ice_def dest: loop_ops_run split: ice_pass.split prod.split)

lemma passes_ops_run: "fold ice_op_step (passes_ops self_pk ps m) m = fold (pass_step self_pk) ps m"
  by (induction ps arbitrary: m) (simp_all add: pass_ops_run)

lemma agent_starts_state: "fst (agent_starts pk ops) = fold ice_op_step ops no_agents"
proof -
  have "fst (fold (note_start pk) ops h) = fold ice_op_step ops (fst h)" for h
    by (induction ops arbitrary: h) (simp_all add: note_start_def split: prod.split)
  then show ?thesis by (simp add: agent_starts_def)
qed

lemma times_simps [simp]:
  "ensure_times [] = []" "ensure_times (Ensure t start pk cfg # ops) = t # ensure_times ops"
  "ensure_times (AgentDid pk ev # ops) = ensure_times ops" "ensure_times (Retain kept # ops) = ensure_times ops"
  "ensure_times (ops @ ops') = ensure_times ops @ ensure_times ops'"
  "pass_times [] = []" "pass_times (Pass t start' stun want seeds # ps) = t # pass_times ps"
  "pass_times (Between pk ev # ps) = pass_times ps"
  by (simp_all add: ensure_times_def pass_times_def)

lemma loop_ops_times: "\<exists>n. ensure_times (loop_ops now start self_pk coord_stun want seeds kept m) = replicate n now"
proof (induction seeds arbitrary: kept m)
  case Nil
  show ?case by (simp add: exI [of _ 0])
next
  case (Cons s seeds)
  let ?pk = "sp_pubkey s"
  obtain n where "ensure_times (loop_ops now start self_pk coord_stun want seeds (?pk # kept)
      (snd (ice_ensure now start ?pk (ice_config self_pk coord_stun s) m))) = replicate n now" using Cons.IH by blast
  then have "\<exists>n. now # ensure_times (loop_ops now start self_pk coord_stun want seeds (?pk # kept)
      (snd (ice_ensure now start ?pk (ice_config self_pk coord_stun s) m))) = replicate n now"
    by (intro exI [of _ "Suc n"]) simp
  then show ?case using Cons.IH [of kept m] by (simp add: Let_def)
qed

lemma passes_times:
  "sorted (pass_times ps) \<Longrightarrow> sorted (ensure_times (passes_ops self_pk ps m)) \<and>
   set (ensure_times (passes_ops self_pk ps m)) \<subseteq> set (pass_times ps)"
proof (induction ps arbitrary: m)
  case (Cons p ps)
  show ?case
  proof (cases p)
    case (Pass now start coord_stun want seeds)
    obtain n where "ensure_times (loop_ops now start self_pk coord_stun want seeds [] m) = replicate n now"
      using loop_ops_times by blast
    with Cons.IH [of "pass_step self_pk p m"] Cons.prems show ?thesis
      by (auto simp: Pass pass_ops_def sorted_append)
  next
    case (Between peer ev)
    with Cons.IH [of "pass_step self_pk p m"] Cons.prems show ?thesis by (simp add: pass_ops_def)
  qed
qed simp

text \<open> Over every history of passes in time order, with whatever peers they want, whatever agents do in
  between and whichever starts succeed: the agents started for a peer since it was last let go (or last
  seen connected) are at least a minute apart, and after each failure twice as far, up to ten minutes. And
  of two devices that reach for each other exactly one dials.\<close>

theorem ice_restarts_spaced:
  assumes "sorted (pass_times ps)" "agent_starts pk (passes_ops self_pk ps no_agents) = (m, ts)" "Suc i < length ts"
  shows "ts ! i + min (secs 60 * 2 ^ i) (secs 600) \<le> ts ! Suc i \<and> m = fold (pass_step self_pk) ps no_agents \<and>
    (sp_pubkey s \<noteq> self_pk \<longrightarrow> sp_pubkey s' = self_pk \<longrightarrow>
       ipc_controlling (ice_config self_pk stun s) = (\<not> ipc_controlling (ice_config (sp_pubkey s) stun' s')))"
  using starts_spaced [OF _ assms(2,3)] passes_times [OF assms(1)] agent_starts_state [of pk "passes_ops self_pk ps no_agents"] assms(2)
  by (auto simp: passes_ops_run ice_config_def)

subsection \<open>Witnesses\<close>

definition demo_session :: "u32 \<Rightarrow> relay_session" where
  "demo_session b = \<lparr>rs_shim = demo_addr 127, rs_relayed = demo_addr b,
     rs_client = \<lparr>ri_turn_addr = demo_addr 9, ri_username = ''9'', ri_credential = [], ri_realm = RELAY_REALM, ri_peer_relayed = None\<rparr>,
     rs_peer_relayed = None, rs_tunnel = None, rs_pumping = True\<rparr>"

definition demo_relays :: "u8 \<Rightarrow> u32 \<Rightarrow> relay_mgr" where
  "demo_relays peer b = [(demo_key peer, demo_session b)]"

definition demo_reports :: "u8 \<Rightarrow> u8 \<Rightarrow> u32 \<Rightarrow> register_req" where
  "demo_reports me peer b = (demo_asks me peer)\<lparr>rq_relay_allocated := sort_key al_peer (relay_allocations (demo_relays peer b))\<rparr>"

definition demo_relay_tables :: nat_tables where
  "demo_relay_tables = fst (record_peer_reports (demo_reports 2 1 22) [demo_key 1]
     (fst (record_peer_reports (demo_reports 1 2 11) [demo_key 2] demo_nat [])) [])"

definition demo_cands :: "relay_candidate list" where
  "demo_cands = [(demo_key 3, [net_of demo_mship ((1, 2), ''net'')], \<lparr>rr_addr = demo_addr 9, rr_secret = ''s''\<rparr>)]"

lemma demo_relay_target: "demo_key k \<noteq> demo_key 3 \<Longrightarrow>
  peer_relay snap_env (demo_asks me k) t demo_cands (demo_peer k n) [net_of demo_mship ((1, 2), ''net'')] \<noteq> None"
  by (simp add: peer_relay_def relay_target_def demo_cands_def serves_both_def demo_peer_def)

theorem relayed_pair_meets_witness:
  "\<exists>info. peer_relay snap_env (demo_asks 1 2) demo_relay_tables demo_cands (demo_peer 2 ''tv'') [net_of demo_mship ((1, 2), ''net'')] = Some info \<and>
     ri_peer_relayed info = Some (demo_addr 22)"
proof -
  have keys: "demo_key 1 \<noteq> demo_key 2" "demo_key 1 \<noteq> demo_key 3" "demo_key 2 \<noteq> demo_key 3" by (simp_all add: demo_key_def)
  let ?nets = "[net_of demo_mship ((1, 2), ''net'')]"
  obtain t1 w1 where 1: "record_peer_reports (demo_reports 1 2 11) [demo_key 2] demo_nat [] = (t1, w1)" by fastforce
  obtain w3 where 2: "record_peer_reports (demo_reports 2 1 22) [demo_key 1] t1 [] = (demo_relay_tables, w3)"
    by (metis 1 demo_relay_tables_def fst_conv prod.collapse)
  obtain ib where b: "peer_relay snap_env (demo_asks 1 2) demo_relay_tables demo_cands (demo_peer 2 ''tv'') ?nets = Some ib"
    using demo_relay_target [OF keys(3)] by blast
  obtain ia where a: "peer_relay snap_env (demo_asks 2 1) demo_relay_tables demo_cands (demo_peer 1 ''nas'') ?nets = Some ia"
    using demo_relay_target [OF keys(2)] by blast
  have "ri_peer_relayed ib = Some (rs_relayed (demo_session 22))"
    using relayed_pair_meets [of "demo_relays 2 11" "demo_relays 1 22" "demo_key 2" "demo_session 11" "demo_key 1" "demo_session 22"
        "demo_reports 1 2 11" "demo_reports 2 1 22" "[demo_key 2]" "[demo_key 1]", OF _ _ _ _ _ _ _ _ _ _ _ _ _ 1 2 b _ _ a] keys
    by (simp add: demo_relays_def tok_def tget_def demo_session_def demo_reports_def demo_peer_def)
  with b show ?thesis by (simp add: demo_session_def)
qed

definition demo_ice_seed :: seed_peer where
  "demo_ice_seed = \<lparr>sp_pubkey = [2], sp_user_id = 7, sp_username = ''ann'', sp_ip = 6, sp_endpoint = None, sp_punch = None, sp_hostname = ''tv'',
     sp_primary_alias = None, sp_networks = [], sp_relay = None, sp_ice = None, sp_rev = 0, sp_expires_at = 0\<rparr>"

definition demo_passes :: "ice_pass list" where
  "demo_passes = [Pass 0 (\<lambda>_ _. Some (''u'', ''p'')) None [[2]] [demo_ice_seed], Between [2] AgentFailed,
     Pass (secs 10) (\<lambda>_ _. Some (''u'', ''p'')) None [[2]] [demo_ice_seed],
     Pass (secs 80) (\<lambda>_ _. Some (''u'', ''p'')) None [[2]] [demo_ice_seed]]"

theorem ice_restarts_spaced_witness:
  "snd (agent_starts [2] (passes_ops [1] demo_passes no_agents)) = [0, secs 80] \<and> secs 60 \<le> secs 80"
proof -
  have run: "snd (agent_starts [2] (passes_ops [1] demo_passes no_agents)) = [0, secs 80]"
    by (simp add: agent_starts_def demo_passes_def pass_ops_def pass_step_def sync_ice_def retain_agents_def tget_tkeep
        note_start_def ice_op_step_def ice_ensure_def drop_failed_def starts_agent_def has_session_def agent_step_def
        no_agents_def ice_config_def build_urls_def demo_ice_seed_def Let_def restart_backoff_def RESTART_BACKOFF_MIN_def
        RESTART_BACKOFF_MAX_def secs_def sat_inc32_def unat_sat_sub)
  obtain m where m: "agent_starts [2] (passes_ops [1] demo_passes no_agents) = (m, [0, secs 80])"
    using run by (metis prod.collapse)
  have "sorted (pass_times demo_passes)" by (simp add: demo_passes_def secs_def)
  from ice_restarts_spaced [OF this m, of 0] run show ?thesis by (simp add: secs_def)
qed

end
