(* ===== verification/Daemon.thy ===== *)
theory Daemon
  imports Control Relay PeerDirect
begin

section \<open>The mesh loop: \<open>run\<close> and \<open>register_until_ready\<close> of \<open>daemon.rs\<close>\<close>

text \<open>
  One enrollment's loop as the composition of the parts: the peer-direct tick, the names tick, the poll, the
  request held at the coordinator, and the arms of the select that applies what each brings. What the world
  returns in one turn is one argument; the control socket's changes to the preferences come between turns.
\<close>

record daemon_cfg =
  dc_gossip :: bool
  dc_ice :: bool
  dc_me :: key

record turn_io =
  ti_cv :: cenv
  ti_secs :: u64
  ti_now :: nat
  ti_pull :: "key \<Rightarrow> guild_attestation list option"
  ti_services :: "key \<Rightarrow> mesh_service list option"
  ti_mesh :: mesh_io
  ti_poll :: poll_env
  ti_turn :: relay_start
  ti_agent :: ice_start
  ti_stun :: "sockaddr option"

text \<open>The request in flight, with the preferences it was built from.\<close>

record flight =
  fl_held :: held_request
  fl_disabled :: "network_ref list"
  fl_paused :: bool
  fl_peer_own :: bool

text \<open>\<open>Looping\<close>: at the head of the loop; \<open>Selecting\<close>: in the select; \<open>Halted\<close>: an error left \<open>run\<close>.\<close>

datatype phase = Looping | Selecting | Halted

record engine =
  en_mesh :: mesh
  en_device :: "self_device option"
  en_seeds :: "seed_peer list"
  en_pins :: pins
  en_relays :: relay_mgr
  en_agents :: ice_mgr
  en_eps :: endpoints
  en_conns :: "(key, peer_conn) hmap"
  en_beacon :: "beacon option"
  en_want :: "key list"
  en_lan_changed :: bool
  en_report :: sent_report
  en_sent :: sent_report
  en_since :: "u64 option"
  en_pending :: "flight option"
  en_heard :: nat
  en_online :: bool
  en_own :: "guild_attestation list"
  en_status :: shared
  en_phase :: phase

abbreviation en_prefs :: "engine \<Rightarrow> local_net" where "en_prefs en \<equiv> me_localnet (en_mesh en)"

subsection \<open>The head of the loop\<close>

text \<open>\<open>apply_state(...).await?\<close>: its failure leaves \<open>run\<close>.\<close>

definition apply_now :: "daemon_cfg \<Rightarrow> turn_io \<Rightarrow> engine \<Rightarrow> engine" where
  "apply_now cfg io en =
     (case apply_state (ti_mesh io) (dc_me cfg) (en_device en) (en_seeds en) (en_eps en) (en_mesh en) of
        (Inl _, m) \<Rightarrow> en\<lparr>en_mesh := m, en_phase := Halted\<rparr>
      | (Inr _, m) \<Rightarrow> en\<lparr>en_mesh := m\<rparr>)"

definition refresh_direct :: "daemon_cfg \<Rightarrow> turn_io \<Rightarrow> engine \<Rightarrow> engine" where
  "refresh_direct cfg io en =
     (if \<not> dc_gossip cfg then en
      else (case gossip_tick (ti_cv io) (en_pins en) (ti_secs io) (ti_pull io) (ti_mesh io) (dc_me cfg) (en_device en)
                   (en_eps en) (en_seeds en) (en_mesh en) of
          (Inl _, kept, m) \<Rightarrow> en\<lparr>en_seeds := kept, en_mesh := m, en_phase := Halted\<rparr>
        | (Inr _, kept, m) \<Rightarrow> en\<lparr>en_seeds := kept, en_mesh := m\<rparr>))"

definition refresh_names :: "daemon_cfg \<Rightarrow> turn_io \<Rightarrow> engine \<Rightarrow> engine" where
  "refresh_names cfg io en =
     en\<lparr>en_mesh := names_tick (ti_now io) (ti_services io) (dc_me cfg) (en_device en) (en_seeds en) (en_mesh en)\<rparr>"

definition poll_now :: "daemon_cfg \<Rightarrow> turn_io \<Rightarrow> engine \<Rightarrow> engine" where
  "poll_now cfg io en =
     (let r = poll_peer_health
                ((ti_poll io)\<lparr>po_now := ti_now io, po_relaying := is_relaying (en_relays en),
                   po_icing := is_ice_connected (en_agents en), po_ice_enabled := dc_ice cfg\<rparr>)
                (me_peers (en_mesh en)) (en_seeds en) (en_conns en) (sr_observed (en_sent en)) (en_beacon en)
                (ep_lan (en_eps en))
      in en\<lparr>en_conns := pr_conns r, en_beacon := pr_beacon r, en_eps := (en_eps en)\<lparr>ep_lan := pr_lan_eps r\<rparr>,
            en_want := pr_want_relay r, en_lan_changed := pr_lan_changed r,
            en_report := report_now r (relay_allocations (en_relays en)) (if dc_ice cfg then ice_offers (en_agents en) else [])\<rparr>)"

text \<open>The request: built anew when there is none, or when there is something to report.\<close>

definition must_report :: "turn_io \<Rightarrow> engine \<Rightarrow> bool" where
  "must_report io en \<longleftrightarrow> report_stale (en_sent en) (en_report en) \<or> own_grant_stale (en_device en) (ti_secs io) \<or>
     (en_seeds en \<noteq> [] \<and> held_for_refresh (en_seeds en) (ti_secs io) COORD_FULL_MARGIN = [])"

definition hold_request :: "turn_io \<Rightarrow> engine \<Rightarrow> engine" where
  "hold_request io en =
     (let built = \<lparr>fl_held = plan_refresh (en_sent en) (en_report en) (en_device en) (en_seeds en) (ti_secs io) (en_since en) None,
            fl_disabled = as_refs (en_prefs en), fl_paused = ln_paused (en_prefs en), fl_peer_own = ln_peer_own (en_prefs en)\<rparr>
      in en\<lparr>en_pending := Some (if must_report io en then built else case en_pending en of None \<Rightarrow> built | Some f \<Rightarrow> f),
            en_phase := Selecting\<rparr>)"

definition loop_head :: "daemon_cfg \<Rightarrow> turn_io \<Rightarrow> engine \<Rightarrow> engine" where
  "loop_head cfg io en =
     (if en_phase en \<noteq> Looping then en
      else let en1 = refresh_direct cfg io en
        in if en_phase en1 = Halted then en1
           else hold_request io (poll_now cfg io (refresh_names cfg io en1)))"

subsection \<open>The select\<close>

datatype arm = Woken | Ticked | Answered http_reply

definition sync_overlay :: "daemon_cfg \<Rightarrow> turn_io \<Rightarrow> engine \<Rightarrow> engine" where
  "sync_overlay cfg io en =
     (if dc_ice cfg
      then (case sync_ice (ti_now io) (ti_agent io) (dc_me cfg) (ti_stun io) (en_want en) (en_seeds en) (en_agents en) of
          (eps, m) \<Rightarrow> en\<lparr>en_agents := m, en_eps := (en_eps en)\<lparr>ep_ice := eps\<rparr>\<rparr>)
      else (case sync_relays (ti_turn io) (en_seeds en) (en_relays en) of
          (eps, m) \<Rightarrow> en\<lparr>en_relays := m, en_eps := (en_eps en)\<lparr>ep_relay := eps\<rparr>\<rparr>))"

text \<open>The arm is over: back to the head, unless \<open>run\<close> was left.\<close>

definition go_round :: "engine \<Rightarrow> engine" where
  "go_round en = (if en_phase en = Halted then en else en\<lparr>en_phase := Looping\<rparr>)"

definition woken :: "daemon_cfg \<Rightarrow> turn_io \<Rightarrow> engine \<Rightarrow> engine" where
  "woken cfg io en =
     go_round ((apply_now cfg io (sync_overlay cfg io (en\<lparr>en_heard := ln_wakes (en_prefs en)\<rparr>)))\<lparr>en_pending := None\<rparr>)"

definition ticked :: "daemon_cfg \<Rightarrow> turn_io \<Rightarrow> engine \<Rightarrow> engine" where
  "ticked cfg io en =
     (let en1 = (if dc_ice cfg then sync_overlay cfg io en else en);
          ice_changed = (dc_ice cfg \<and> \<not> same_map (ep_ice (en_eps en1)) (ep_ice (en_eps en)))
      in go_round (if ice_changed \<or> en_lan_changed en then apply_now cfg io en1 else en1))"

definition answered :: "daemon_cfg \<Rightarrow> turn_io \<Rightarrow> http_reply \<Rightarrow> engine \<Rightarrow> engine" where
  "answered cfg io reply en =
     (case post (ti_cv io) ''refresh'' reply (ti_secs io) (en_pins en) of
        (Inr (resp, dev), pins) \<Rightarrow>
          let en1 = en\<lparr>en_pins := pins, en_pending := None, en_online := True,
                en_status := set_proto_mismatch None (en_status en), en_since := Some (rs_version resp),
                en_sent := en_report en, en_own := (if dc_gossip cfg then grant_attestations resp else en_own en),
                en_seeds := merge_seeds (ti_cv io) (en_seeds en) resp pins (ti_secs io),
                en_device := (case dev of None \<Rightarrow> en_device en | Some d \<Rightarrow> Some d)\<rparr>
          in go_round (apply_now cfg io (sync_overlay cfg io en1))
      | (Inl e, pins) \<Rightarrow>
          go_round (en\<lparr>en_pins := pins, en_pending := None, en_online := False,
            en_status := set_coord_online False (case e of UpgradeRequired why \<Rightarrow> set_proto_mismatch (Some why) (en_status en)
              | _ \<Rightarrow> en_status en)\<rparr>))"

text \<open>An arm runs when it is ready: the wake-up when one is stored, an answer when a request is in flight.\<close>

definition select_arm :: "daemon_cfg \<Rightarrow> turn_io \<Rightarrow> arm \<Rightarrow> engine \<Rightarrow> engine" where
  "select_arm cfg io a en =
     (if en_phase en \<noteq> Selecting then en
      else case a of
          Woken \<Rightarrow> if ln_wakes (en_prefs en) = en_heard en then en else woken cfg io en
        | Ticked \<Rightarrow> ticked cfg io en
        | Answered reply \<Rightarrow> if en_pending en = None then en else answered cfg io reply en)"

subsection \<open>An enrollment\<close>

text \<open>From the first register's response to the first pass: the overlays, then the first \<open>apply_state\<close>.\<close>

definition enrolled ::
  "daemon_cfg \<Rightarrow> turn_io \<Rightarrow> register_resp \<Rightarrow> self_device \<Rightarrow> pins \<Rightarrow> mesh \<Rightarrow> beacon option \<Rightarrow> nat \<Rightarrow> shared \<Rightarrow> engine" where
  "enrolled cfg io resp dev pins m lan heard st =
     (let seeds = verified_seeds (ti_cv io) resp pins (ti_secs io);
          nothing = \<lparr>sr_observed = [], sr_relay_need = [], sr_relay_alloc = [], sr_ice_offers = []\<rparr>;
          (relay_eps, relays) = sync_relays (ti_turn io) seeds []
      in apply_now cfg io
           \<lparr>en_mesh = m\<lparr>me_peers := []\<rparr>, en_device = Some dev, en_seeds = seeds, en_pins = pins, en_relays = relays,
            en_agents = no_agents, en_eps = \<lparr>ep_relay = relay_eps, ep_ice = [], ep_lan = []\<rparr>, en_conns = [], en_beacon = lan,
            en_want = [], en_lan_changed = False, en_report = nothing, en_sent = nothing, en_since = Some (rs_version resp),
            en_pending = None, en_heard = heard, en_online = True,
            en_own = (if dc_gossip cfg then grant_attestations resp else []), en_status = st,
            en_phase = Looping\<rparr>)"

datatype engine_event = Head turn_io | Arm turn_io arm | Prefs net_op

definition engine_step :: "daemon_cfg \<Rightarrow> engine_event \<Rightarrow> engine \<Rightarrow> engine" where
  "engine_step cfg ev en =
     (case ev of
        Head io \<Rightarrow> loop_head cfg io en
      | Arm io a \<Rightarrow> select_arm cfg io a en
      | Prefs op \<Rightarrow> en\<lparr>en_mesh := (en_mesh en)\<lparr>me_localnet := net_step op (en_prefs en)\<rparr>\<rparr>)"

definition engine_run :: "daemon_cfg \<Rightarrow> engine_event list \<Rightarrow> engine \<Rightarrow> engine" where
  "engine_run cfg = fold (engine_step cfg)"

subsection \<open>The preferences as the loop sees them\<close>

lemma sight_known:
  "fold (sight dn) present (known, disabled, kc, dc) = (known', disabled', kc', dc') \<Longrightarrow> set known \<union> set present \<subseteq> set known'"
proof (induction present arbitrary: known disabled kc dc)
  case (Cons n present)
  obtain k d c e where s: "sight dn n (known, disabled, kc, dc) = (k, d, c, e)" by (metis prod_cases4)
  then have "set known \<union> {n} \<subseteq> set k" by (auto simp: sight_def split: if_splits)
  moreover have "set k \<union> set present \<subseteq> set known'" using Cons.IH [of k d c e] Cons.prems s by simp
  ultimately show ?case by auto
qed simp

lemma sight_seen:
  "set present \<subseteq> set known \<Longrightarrow> fold (sight dn) present (known, disabled, kc, dc) = (known, disabled, kc, dc)"
  by (induction present) (simp_all add: sight_def)

definition seen_all :: "self_device option \<Rightarrow> local_net \<Rightarrow> bool" where
  "seen_all dev ln \<longleftrightarrow> (\<forall>d. dev = Some d \<longrightarrow> set (present_networks d) \<subseteq> set (ln_known ln))"

lemma fold_in_new_seen: "seen_all dev ln \<Longrightarrow> fold_in_new io dev ln = ln"
  by (simp add: seen_all_def fold_in_new_def reconcile_new_def sight_seen split: option.split)

lemma fold_in_new_keeps:
  "seen_all dev (fold_in_new io dev ln)" "ln_wakes (fold_in_new io dev ln) = ln_wakes ln"
  by (auto simp: seen_all_def fold_in_new_def reconcile_new_def Let_def split: option.split prod.split if_splits dest!: sight_known)

text \<open>A change by the control socket: a setter, and not what the loop or a restart does.\<close>

fun by_user :: "net_op \<Rightarrow> bool" where
  "by_user (ReconcileNew w1 w2 p) = False"
| "by_user (Reload d p) = False"
| "by_user _ = True"

definition same_prefs :: "local_net \<Rightarrow> local_net \<Rightarrow> bool" where
  "same_prefs a b \<longleftrightarrow> ln_disabled a = ln_disabled b \<and> ln_paused a = ln_paused b \<and> ln_peer_own a = ln_peer_own b \<and>
     (\<forall>u. tget (ln_blocked a) u = None \<longleftrightarrow> tget (ln_blocked b) u = None)"

lemma setter_wakes:
  assumes "by_user op" "all_written op"
  shows "ln_known (net_step op ln) = ln_known ln \<and> ln_wakes ln \<le> ln_wakes (net_step op ln) \<and>
    (ln_wakes (net_step op ln) = ln_wakes ln \<longrightarrow> same_prefs (net_step op ln) ln)"
  using assms
  by (cases op)
    (auto simp: set_paused_def set_disable_new_def set_peer_own_devices_def set_certs_enabled_def set_blocked_def set_network_def
      persisting_def wake_net_def Let_def same_prefs_def)

lemma active_same_prefs: "same_prefs a b \<Longrightarrow> active_seeds a dev seeds = active_seeds b dev seeds"
  by (simp add: active_seeds_def filter_active_def snapshot_optout_def blocked_snapshot_def same_prefs_def split: option.split)

subsection \<open>In step\<close>

text \<open>
  The tunnel takes a source from a key exactly when an active member binds the two, and the firewall's sets
  hold exactly the addresses a scope means.\<close>

definition in_step :: "engine \<Rightarrow> bool" where
  "in_step en \<longleftrightarrow>
     (let active = active_seeds (en_prefs en) (en_device en) (en_seeds en)
      in (\<forall>pk src. tunnel_accepts (me_wg (en_mesh en)) pk src \<longleftrightarrow> (\<exists>s\<in>set active. sp_pubkey s = pk \<and> sp_ip s = src)) \<and>
         (\<forall>fw scope src. me_fw (en_mesh en) = Some fw \<longrightarrow> (\<forall>guild name. scope \<noteq> Unresolved guild name) \<longrightarrow>
            admits (fw_peers fw) scope src = scope_admits (map_option se_user_id (en_device en)) active scope src))"

definition carries :: "flight \<Rightarrow> local_net \<Rightarrow> bool" where
  "carries f ln \<longleftrightarrow> fl_disabled f = as_refs ln \<and> fl_paused f = ln_paused ln \<and> fl_peer_own f = ln_peer_own ln"

definition engine_ok :: "engine \<Rightarrow> bool" where
  "engine_ok en \<longleftrightarrow> mesh_ok (en_mesh en) \<and> seen_all (en_device en) (en_prefs en) \<and> en_heard en \<le> ln_wakes (en_prefs en) \<and>
     (ln_wakes (en_prefs en) = en_heard en \<longrightarrow> in_step en \<and> (\<forall>f. en_pending en = Some f \<longrightarrow> carries f (en_prefs en)))"

definition face :: "seed_peer \<Rightarrow> key \<times> ipv4 \<times> u64 \<times> shared_network list" where
  "face s = (sp_pubkey s, sp_ip s, sp_user_id s, sp_networks s)"

lemma face_ex:
  assumes "face ` set a = face ` set b"
  shows "(\<exists>s\<in>set a. P (sp_pubkey s) (sp_ip s) (sp_user_id s) (sp_networks s)) \<longleftrightarrow>
    (\<exists>s\<in>set b. P (sp_pubkey s) (sp_ip s) (sp_user_id s) (sp_networks s))"
proof -
  have image: "(\<exists>s\<in>set xs. P (sp_pubkey s) (sp_ip s) (sp_user_id s) (sp_networks s)) \<longleftrightarrow>
      (\<exists>(k, ip, u, ns)\<in>face ` set xs. P k ip u ns)" for xs
    by (simp add: face_def)
  show ?thesis unfolding image assms ..
qed

lemma scope_admits_cong:
  assumes "face ` set a = face ` set b" "\<forall>guild name. scope \<noteq> Unresolved guild name"
  shows "scope_admits owner a scope src = scope_admits owner b scope src"
  using assms(2) face_ex [OF assms(1), of "\<lambda>k ip u ns. ip = src \<and> owner = Some u"]
    face_ex [OF assms(1), of "\<lambda>k ip u ns. ip = src \<and> (\<exists>n\<in>set ns. shared_network_id n = Some (g, r))" for g r]
  by (cases scope) (simp_all add: scope_admits_def lists_net_def)

lemma in_step_cong:
  assumes "in_step en" "me_wg (en_mesh en') = me_wg (en_mesh en)" "me_fw (en_mesh en') = me_fw (en_mesh en)"
    "en_device en' = en_device en"
    "face ` set (active_seeds (en_prefs en') (en_device en) (en_seeds en')) = face ` set (active_seeds (en_prefs en) (en_device en) (en_seeds en))"
  shows "in_step en'"
proof -
  note f = assms(5)
  show ?thesis
    using assms(1) face_ex [OF f, of "\<lambda>k ip u ns. k = pk \<and> ip = src" for pk src] scope_admits_cong [OF f]
    unfolding in_step_def Let_def assms(2-4) by simp
qed

lemma apply_now_ok:
  assumes "mesh_ok (en_mesh en)" "en_phase (apply_now cfg io en) \<noteq> Halted"
  shows "\<exists>m. apply_now cfg io en = en\<lparr>en_mesh := m\<rparr> \<and> mesh_ok m \<and>
    me_localnet m = fold_in_new (ti_mesh io) (en_device en) (en_prefs en) \<and> in_step (en\<lparr>en_mesh := m\<rparr>)"
proof -
  obtain r m where a: "apply_state (ti_mesh io) (dc_me cfg) (en_device en) (en_seeds en) (en_eps en) (en_mesh en) = (r, m)" by fastforce
  with assms(2) obtain u where r: "r = Inr u" by (cases r) (auto simp: apply_now_def)
  note A = apply_state_Inr [OF a [unfolded r] assms(1)] and T = apply_state_accepts [OF a [unfolded r] assms(1)]
  have "in_step (en\<lparr>en_mesh := m\<rparr>)"
    using A T by (auto simp: in_step_def Let_def active_now_def admits_peer_sets split: option.splits)
  with A show ?thesis by (auto simp: apply_now_def a r)
qed

text \<open>After an \<open>apply_state\<close> that succeeds the engine is in step, whatever it was before.\<close>

lemma apply_now_in_step:
  assumes "mesh_ok (en_mesh en)" "en_phase (apply_now cfg io en) \<noteq> Halted" "en_heard en \<le> ln_wakes (en_prefs en)"
    "seen_all (en_device en) (en_prefs en) \<and> (ln_wakes (en_prefs en) = en_heard en \<longrightarrow> (\<forall>f. en_pending en = Some f \<longrightarrow> carries f (en_prefs en)))
      \<or> en_pending en = None"
  shows "engine_ok (apply_now cfg io en)"
proof -
  obtain m where m: "apply_now cfg io en = en\<lparr>en_mesh := m\<rparr>" "mesh_ok m"
    "me_localnet m = fold_in_new (ti_mesh io) (en_device en) (en_prefs en)" "in_step (en\<lparr>en_mesh := m\<rparr>)"
    using apply_now_ok [OF assms(1,2)] by blast
  with assms(3,4) fold_in_new_keeps show ?thesis
    by (auto simp: engine_ok_def fold_in_new_seen)
qed

lemma active_seeds_map:
  assumes "\<forall>s\<in>set seeds. face (f s) = face s"
  shows "face ` set (active_seeds ln dev (map f seeds)) = face ` set (active_seeds ln dev seeds)"
proof -
  have keep: "s \<in> set (active_seeds ln dev xs) \<longleftrightarrow> s \<in> set xs \<and> active_seeds ln dev [s] = [s]" for s xs
    by (auto simp: active_seeds_def filter_active_def split: option.split if_splits)
  have same: "active_seeds ln dev [f s] = [f s] \<longleftrightarrow> active_seeds ln dev [s] = [s]" if "s \<in> set seeds" for s
    using assms that by (auto simp: active_seeds_def filter_active_def face_def split: option.split)
  show ?thesis
  proof
    show "face ` set (active_seeds ln dev (map f seeds)) \<subseteq> face ` set (active_seeds ln dev seeds)"
      using keep [of _ "map f seeds"] keep [of _ seeds] same assms by (auto simp: image_iff) metis
    show "face ` set (active_seeds ln dev seeds) \<subseteq> face ` set (active_seeds ln dev (map f seeds))"
      using keep [of _ "map f seeds"] keep [of _ seeds] same assms by (auto simp: image_iff) metis
  qed
qed

text \<open>A pull may renew a peer's attestation and rename it; its address and its owner stay.\<close>

definition steady :: "daemon_cfg \<Rightarrow> turn_io \<Rightarrow> engine \<Rightarrow> bool" where
  "steady cfg io en \<longleftrightarrow> (dc_gossip cfg \<longrightarrow>
     (\<forall>s\<in>set (en_seeds en). face (pull_seed (ti_cv io) (en_pins en) (ti_secs io) (ti_pull io) s) = face s))"

lemma refresh_direct_cases:
  assumes "kept = filter (\<lambda>s. ti_secs io < sp_expires_at s)
    (map (pull_seed (ti_cv io) (en_pins en) (ti_secs io) (ti_pull io)) (en_seeds en))"
  shows "dc_gossip cfg \<Longrightarrow> length kept = length (en_seeds en) \<Longrightarrow> refresh_direct cfg io en = en\<lparr>en_seeds := kept\<rparr>"
    and "dc_gossip cfg \<Longrightarrow> length kept \<noteq> length (en_seeds en) \<Longrightarrow> refresh_direct cfg io en = apply_now cfg io (en\<lparr>en_seeds := kept\<rparr>)"
    and "\<not> dc_gossip cfg \<Longrightarrow> refresh_direct cfg io en = en"
proof -
  show "dc_gossip cfg \<Longrightarrow> length kept = length (en_seeds en) \<Longrightarrow> refresh_direct cfg io en = en\<lparr>en_seeds := kept\<rparr>"
    by (simp add: refresh_direct_def gossip_tick_def Let_def flip: assms)
  show "dc_gossip cfg \<Longrightarrow> length kept \<noteq> length (en_seeds en) \<Longrightarrow> refresh_direct cfg io en = apply_now cfg io (en\<lparr>en_seeds := kept\<rparr>)"
    by (cases "apply_state (ti_mesh io) (dc_me cfg) (en_device en) kept (en_eps en) (en_mesh en)"; cases "fst (apply_state (ti_mesh io) (dc_me cfg) (en_device en) kept (en_eps en) (en_mesh en))")
      (simp_all add: refresh_direct_def gossip_tick_def Let_def apply_now_def flip: assms)
  show "\<not> dc_gossip cfg \<Longrightarrow> refresh_direct cfg io en = en"
    by (simp add: refresh_direct_def)
qed

lemma refresh_direct_ok:
  assumes "engine_ok en" "steady cfg io en" "en_phase (refresh_direct cfg io en) \<noteq> Halted"
  shows "engine_ok (refresh_direct cfg io en)"
proof (cases "dc_gossip cfg")
  case True
  define pulled where "pulled = map (pull_seed (ti_cv io) (en_pins en) (ti_secs io) (ti_pull io)) (en_seeds en)"
  define kept where "kept = filter (\<lambda>s. ti_secs io < sp_expires_at s) pulled"
  note C = refresh_direct_cases [OF kept_def [unfolded pulled_def], of cfg]
  show ?thesis
  proof (cases "length kept = length (en_seeds en)")
    case eq: True
    then have "length kept = length pulled" by (simp add: pulled_def)
    then have "kept = pulled" unfolding kept_def by (rule filter_full)
    moreover have "in_step (en\<lparr>en_seeds := pulled\<rparr>)" if "in_step en"
      by (rule in_step_cong [OF that])
        (use assms(2) True in \<open>simp_all add: pulled_def steady_def active_seeds_map\<close>)
    ultimately show ?thesis using assms(1) C(1) [OF True eq] by (simp add: engine_ok_def)
  next
    case False
    note a = C(2) [OF True False]
    show ?thesis
      unfolding a by (rule apply_now_in_step) (use assms(1,3) a in \<open>simp_all add: engine_ok_def\<close>)
  qed
qed (use assms(1) in \<open>simp add: refresh_direct_def\<close>)

lemma names_tick_keeps:
  "me_localnet (names_tick now pull pk dev seeds m) = me_localnet m" "me_wg (names_tick now pull pk dev seeds m) = me_wg m"
  "me_fw (names_tick now pull pk dev seeds m) = me_fw m" "mesh_ok (names_tick now pull pk dev seeds m) = mesh_ok m"
  by (simp_all add: names_tick_def mesh_ok_def Let_def split: option.split)

lemma refresh_names_ok: "engine_ok en \<Longrightarrow> engine_ok (refresh_names cfg io en)"
  using in_step_cong [of en "refresh_names cfg io en"]
  by (simp add: engine_ok_def refresh_names_def names_tick_keeps)

lemma poll_now_ok: "engine_ok en \<Longrightarrow> engine_ok (poll_now cfg io en)"
  using in_step_cong [of en "poll_now cfg io en"] by (simp add: engine_ok_def poll_now_def Let_def)

lemma hold_request_ok: "engine_ok en \<Longrightarrow> engine_ok (hold_request io en)"
  using in_step_cong [of en "hold_request io en"]
  by (auto simp: engine_ok_def hold_request_def Let_def carries_def split: option.splits)

lemma loop_head_ok:
  assumes "engine_ok en" "steady cfg io en" "en_phase (loop_head cfg io en) \<noteq> Halted"
  shows "engine_ok (loop_head cfg io en)"
  using assms refresh_direct_ok refresh_names_ok poll_now_ok hold_request_ok by (simp add: loop_head_def Let_def split: if_splits)

lemma sync_overlay_keeps:
  "en_mesh (sync_overlay cfg io en) = en_mesh en" "en_device (sync_overlay cfg io en) = en_device en"
  "en_seeds (sync_overlay cfg io en) = en_seeds en" "en_pending (sync_overlay cfg io en) = en_pending en"
  "en_heard (sync_overlay cfg io en) = en_heard en" "en_phase (sync_overlay cfg io en) = en_phase en"
  "en_lan_changed (sync_overlay cfg io en) = en_lan_changed en"
  by (simp_all add: sync_overlay_def split: prod.split)

lemma in_step_overlay [simp]: "in_step (sync_overlay cfg io en) = in_step en"
  by (simp add: in_step_def sync_overlay_keeps)

lemma go_round_simps [simp]:
  "engine_ok (go_round en) = engine_ok en" "en_phase (go_round en) = Halted \<longleftrightarrow> en_phase en = Halted"
  by (simp_all add: go_round_def engine_ok_def in_step_def)

subsection \<open>The select's arms keep it in step\<close>

lemma apply_now_pending:
  "(apply_now cfg io en)\<lparr>en_pending := p\<rparr> = apply_now cfg io (en\<lparr>en_pending := p\<rparr>)"
  by (simp add: apply_now_def split: prod.split sum.split)

lemma woken_ok:
  assumes "engine_ok en" "en_phase (woken cfg io en) \<noteq> Halted"
  shows "engine_ok (woken cfg io en)" "in_step (woken cfg io en)" "en_pending (woken cfg io en) = None"
    "ln_wakes (en_prefs (woken cfg io en)) = en_heard (woken cfg io en)"
proof -
  let ?s = "(sync_overlay cfg io (en\<lparr>en_heard := ln_wakes (en_prefs en)\<rparr>))\<lparr>en_pending := None\<rparr>"
  have w: "woken cfg io en = go_round (apply_now cfg io ?s)" by (simp add: woken_def apply_now_pending)
  have run: "en_phase (apply_now cfg io ?s) \<noteq> Halted" using assms(2) by (simp add: w)
  have ok: "mesh_ok (en_mesh ?s)" using assms(1) by (simp add: sync_overlay_keeps engine_ok_def)
  obtain m where m: "apply_now cfg io ?s = ?s\<lparr>en_mesh := m\<rparr>" "me_localnet m = fold_in_new (ti_mesh io) (en_device ?s) (en_prefs ?s)"
    using apply_now_ok [OF ok run] by blast
  have heard: "ln_wakes (en_prefs (apply_now cfg io ?s)) = en_heard (apply_now cfg io ?s)"
    by (simp add: m fold_in_new_keeps sync_overlay_keeps)
  have "engine_ok (apply_now cfg io ?s)"
    by (rule apply_now_in_step [OF ok run]) (simp_all add: sync_overlay_keeps)
  with heard show "engine_ok (woken cfg io en)" "in_step (woken cfg io en)" "en_pending (woken cfg io en) = None"
    "ln_wakes (en_prefs (woken cfg io en)) = en_heard (woken cfg io en)"
    by (simp_all add: w m go_round_def engine_ok_def in_step_def)
qed

lemma engine_ok_overlay: "engine_ok en \<Longrightarrow> engine_ok (sync_overlay cfg io en)"
  by (simp add: engine_ok_def sync_overlay_keeps)

lemma ticked_ok:
  assumes "engine_ok en" "en_phase (ticked cfg io en) \<noteq> Halted"
  shows "engine_ok (ticked cfg io en)"
proof -
  define en1 where "en1 = (if dc_ice cfg then sync_overlay cfg io en else en)"
  have ok: "engine_ok en1" using assms(1) by (simp add: en1_def engine_ok_overlay)
  then have "engine_ok (apply_now cfg io en1)" if "en_phase (apply_now cfg io en1) \<noteq> Halted"
    by (intro apply_now_in_step that) (simp_all add: engine_ok_def)
  with ok assms(2) show ?thesis by (auto simp: ticked_def Let_def simp flip: en1_def)
qed

lemma answered_ok:
  assumes "engine_ok en" "en_phase (answered cfg io reply en) \<noteq> Halted"
  shows "engine_ok (answered cfg io reply en)"
proof (cases "post (ti_cv io) ''refresh'' reply (ti_secs io) (en_pins en)")
  case (Pair out pins)
  show ?thesis
  proof (cases out)
    case (Inl e)
    with Pair assms(1) show ?thesis
      by (simp add: answered_def) (simp add: engine_ok_def in_step_def)
  next
    case (Inr got)
    obtain resp dev where got: "got = (resp, dev)" by fastforce
    define en1 where "en1 = en\<lparr>en_pins := pins, en_pending := None, en_online := True,
        en_status := set_proto_mismatch None (en_status en), en_since := Some (rs_version resp),
        en_sent := en_report en, en_own := (if dc_gossip cfg then grant_attestations resp else en_own en),
        en_seeds := merge_seeds (ti_cv io) (en_seeds en) resp pins (ti_secs io),
        en_device := (case dev of None \<Rightarrow> en_device en | Some d \<Rightarrow> Some d)\<rparr>"
    have a: "answered cfg io reply en = go_round (apply_now cfg io (sync_overlay cfg io en1))"
      by (simp add: answered_def Pair Inr got en1_def)
    have "engine_ok (apply_now cfg io (sync_overlay cfg io en1))"
      by (rule apply_now_in_step) (use assms a in \<open>simp_all add: sync_overlay_keeps en1_def engine_ok_def\<close>)
    then show ?thesis by (simp add: a)
  qed
qed

lemma select_arm_ok:
  assumes "engine_ok en" "en_phase (select_arm cfg io a en) \<noteq> Halted"
  shows "engine_ok (select_arm cfg io a en)"
  using assms woken_ok(1) ticked_ok answered_ok by (cases a) (auto simp: select_arm_def split: if_splits)

lemma prefs_ok:
  assumes "engine_ok en" "by_user op" "all_written op"
  shows "engine_ok (engine_step cfg (Prefs op) en)"
proof -
  let ?ln = "net_step op (en_prefs en)"
  note w = setter_wakes [OF assms(2,3), of "en_prefs en"]
  have "in_step (en\<lparr>en_mesh := (en_mesh en)\<lparr>me_localnet := ?ln\<rparr>\<rparr>)" if "in_step en" "same_prefs ?ln (en_prefs en)"
    by (rule in_step_cong [OF that(1)]) (simp_all add: active_same_prefs [OF that(2)])
  moreover have "carries f ?ln" if "carries f (en_prefs en)" "same_prefs ?ln (en_prefs en)" for f
    using that by (simp add: carries_def same_prefs_def as_refs_def)
  ultimately show ?thesis
    using assms(1) w by (auto simp: engine_step_def engine_ok_def seen_all_def mesh_ok_def)
qed

subsection \<open>Runs of the loop\<close>

lemma halted_stays: "en_phase en = Halted \<Longrightarrow> engine_step cfg ev en = en \<or> (\<exists>op. ev = Prefs op)"
  by (cases ev) (simp_all add: engine_step_def loop_head_def select_arm_def)

lemma halted_step: "en_phase en = Halted \<Longrightarrow> en_phase (engine_step cfg ev en) = Halted"
  using halted_stays [of en cfg ev] by (auto simp: engine_step_def)

lemma halted_run: "en_phase en = Halted \<Longrightarrow> en_phase (engine_run cfg evs en) = Halted"
  by (induction evs arbitrary: en) (simp_all add: engine_run_def halted_step)

fun steady_run :: "daemon_cfg \<Rightarrow> engine_event list \<Rightarrow> engine \<Rightarrow> bool" where
  "steady_run cfg [] en = True"
| "steady_run cfg (ev # evs) en =
     ((case ev of Head io \<Rightarrow> steady cfg io en | _ \<Rightarrow> True) \<and> steady_run cfg evs (engine_step cfg ev en))"

lemma engine_step_ok:
  assumes "engine_ok en" "case ev of Head io \<Rightarrow> steady cfg io en | Prefs op \<Rightarrow> by_user op \<and> all_written op | _ \<Rightarrow> True"
    "en_phase (engine_step cfg ev en) \<noteq> Halted"
  shows "engine_ok (engine_step cfg ev en)"
proof (cases ev)
  case (Head io)
  with assms show ?thesis by (simp add: engine_step_def loop_head_ok)
next
  case (Arm io a)
  with assms show ?thesis by (simp add: engine_step_def select_arm_ok)
next
  case (Prefs op)
  with assms prefs_ok [of en op cfg] show ?thesis by simp
qed

lemma engine_run_ok:
  assumes "engine_ok en" "\<forall>op. Prefs op \<in> set evs \<longrightarrow> by_user op \<and> all_written op" "steady_run cfg evs en"
    "en_phase (engine_run cfg evs en) \<noteq> Halted"
  shows "engine_ok (engine_run cfg evs en)"
  using assms
proof (induction evs arbitrary: en)
  case (Cons ev evs)
  have on: "en_phase (engine_step cfg ev en) \<noteq> Halted"
    using Cons.prems(4) halted_run by (fastforce simp: engine_run_def)
  have "engine_ok (engine_step cfg ev en)"
    using Cons.prems(2,3) by (intro engine_step_ok [OF Cons.prems(1) _ on]) (auto split: engine_event.split)
  with Cons.IH [of "engine_step cfg ev en"] Cons.prems show ?case by (simp add: engine_run_def)
qed (simp add: engine_run_def)

lemma enrolled_ok:
  assumes "mesh_ok (m\<lparr>me_peers := []\<rparr>)" "heard \<le> ln_wakes (me_localnet m)" "en_phase (enrolled cfg io resp dev pins m lan heard st) \<noteq> Halted"
  shows "engine_ok (enrolled cfg io resp dev pins m lan heard st)"
proof -
  obtain relay_eps relays where r: "sync_relays (ti_turn io) (verified_seeds (ti_cv io) resp pins (ti_secs io)) [] = (relay_eps, relays)"
    by fastforce
  show ?thesis
    using assms(3) unfolding enrolled_def Let_def r prod.case
    by (intro apply_now_in_step) (use assms(1,2) in simp_all)
qed

text \<open>While every system call the loop makes succeeds, it never leaves \<open>run\<close> by an error.\<close>

definition calls_succeed :: "turn_io \<Rightarrow> bool" where
  "calls_succeed io \<longleftrightarrow> (\<forall>n. mi_ok (ti_mesh io) n) \<and> io_ok (mi_fw (ti_mesh io))"

lemma apply_now_runs: "calls_succeed io \<Longrightarrow> en_phase (apply_now cfg io en) = en_phase en"
  using apply_state_succeeds [of "ti_mesh io" "dc_me cfg" "en_device en" "en_seeds en" "en_eps en" "en_mesh en"]
  by (auto simp: apply_now_def calls_succeed_def split: prod.split sum.split)

lemma refresh_direct_runs: "calls_succeed io \<Longrightarrow> en_phase (refresh_direct cfg io en) = en_phase en"
  using refresh_direct_cases [OF refl, of cfg io en] apply_now_runs by (cases "dc_gossip cfg") fastforce+

lemma engine_step_runs:
  assumes "case ev of Prefs op \<Rightarrow> True | Head io \<Rightarrow> calls_succeed io | Arm io _ \<Rightarrow> calls_succeed io" "en_phase en \<noteq> Halted"
  shows "en_phase (engine_step cfg ev en) \<noteq> Halted"
  using assms
  by (auto simp: engine_step_def loop_head_def Let_def select_arm_def woken_def ticked_def answered_def apply_now_runs
      refresh_direct_runs hold_request_def sync_overlay_keeps go_round_def
      split: engine_event.splits arm.splits prod.splits sum.splits)

lemma engine_run_runs:
  assumes "\<forall>ev\<in>set evs. case ev of Prefs op \<Rightarrow> True | Head io \<Rightarrow> calls_succeed io | Arm io _ \<Rightarrow> calls_succeed io"
    "en_phase en \<noteq> Halted"
  shows "en_phase (engine_run cfg evs en) \<noteq> Halted"
  using assms by (induction evs arbitrary: en) (simp_all add: engine_run_def engine_step_runs)

lemma enrolled_runs: "calls_succeed io \<Longrightarrow> en_phase (enrolled cfg io resp dev pins m lan heard st) = Looping"
  by (simp add: enrolled_def Let_def apply_now_runs split: prod.split)


definition demo_turn :: turn_io where
  "demo_turn = \<lparr>ti_cv = demo_cv demo_codecs, ti_secs = 500, ti_now = 0, ti_pull = \<lambda>_. None, ti_services = \<lambda>_. None,
     ti_mesh = demo_mesh_io,
     ti_poll = \<lparr>po_now = 0, po_wall = 0, po_stats = None, po_latency = [], po_relaying = \<lambda>_. False, po_icing = \<lambda>_. False,
       po_ice_enabled = False\<rparr>,
     ti_turn = \<lambda>_. None, ti_agent = \<lambda>_ _. None, ti_stun = None\<rparr>"

definition demo_engine :: "net_op list \<Rightarrow> engine" where
  "demo_engine changes = engine_run \<lparr>dc_gossip = False, dc_ice = False, dc_me = [7]\<rparr> (Head demo_turn # map Prefs changes)
     (enrolled \<lparr>dc_gossip = False, dc_ice = False, dc_me = [7]\<rparr> demo_turn demo_resp demo_own_dev [(5, replicate 32 9)]
       (demo_mesh [] []) None 0 new_shared)"

lemma fold_in_new_paused: "ln_paused (fold_in_new io dev ln) = ln_paused ln"
  by (simp add: fold_in_new_def reconcile_new_def Let_def split: option.split prod.split)

lemma apply_now_prefs:
  assumes "mesh_ok (en_mesh en)" "calls_succeed io"
  shows "en_prefs (apply_now cfg io en) = fold_in_new (ti_mesh io) (en_device en) (en_prefs en)"
proof -
  obtain r m where a: "apply_state (ti_mesh io) (dc_me cfg) (en_device en) (en_seeds en) (en_eps en) (en_mesh en) = (r, m)" by fastforce
  have r: "r = Inr ()"
    using apply_state_succeeds [of "ti_mesh io" "dc_me cfg" "en_device en" "en_seeds en" "en_eps en" "en_mesh en"] assms(2)
    by (simp add: calls_succeed_def a)
  show ?thesis using apply_state_Inr [OF a [unfolded r] assms(1)] by (simp add: apply_now_def a r)
qed

lemma woken_prefs:
  assumes "engine_ok en" "calls_succeed io"
  shows "ln_paused (en_prefs (woken cfg io en)) = ln_paused (en_prefs en)"
proof -
  let ?s = "sync_overlay cfg io (en\<lparr>en_heard := ln_wakes (en_prefs en)\<rparr>)"
  have "mesh_ok (en_mesh ?s)" using assms(1) by (simp add: engine_ok_def sync_overlay_keeps)
  from apply_now_prefs [OF this assms(2)] show ?thesis
    by (simp add: woken_def go_round_def sync_overlay_keeps fold_in_new_paused)
qed


subsection \<open>What the loop loses\<close>

text \<open>
  A change of the LAN endpoints is applied by the tick of the same pass only. When the select of that pass takes an
  answer that is an error, nothing is applied, and the next pass compares with endpoints that have already changed.\<close>

lemma lan_change_missed:
  assumes "post (ti_cv io) ''refresh'' reply (ti_secs io) (en_pins en) = (Inl e, pins)" "dc_ice cfg = False"
  defines "en' \<equiv> answered cfg io reply en"
  shows "en_mesh en' = en_mesh en \<and> en_eps en' = en_eps en \<and>
    (same_map (ep_lan (en_eps (poll_now cfg io2 en'))) (ep_lan (en_eps en)) \<longrightarrow>
       ticked cfg io3 (poll_now cfg io2 en') = go_round (poll_now cfg io2 en'))"
proof -
  have kept: "en_mesh en' = en_mesh en \<and> en_eps en' = en_eps en"
    by (simp add: en'_def answered_def assms(1) go_round_def)
  have "\<not> en_lan_changed (poll_now cfg io2 en')" if "same_map (ep_lan (en_eps (poll_now cfg io2 en'))) (ep_lan (en_eps en))"
    using that kept by (simp add: poll_now_def Let_def poll_peer_health_def split: option.splits prod.splits)
  with kept show ?thesis by (simp add: ticked_def assms(2) Let_def)
qed

text \<open>
  The request in flight is kept when the report comes back to the last acknowledged one, and its answer then
  acknowledges the report of the pass, not the one it carried.\<close>

lemma report_flaps_back:
  assumes "en_pending en = Some f" "en_report en = en_sent en" "\<not> own_grant_stale (en_device en) (ti_secs io)"
    "held_for_refresh (en_seeds en) (ti_secs io) COORD_FULL_MARGIN \<noteq> []"
    "post (ti_cv io) ''refresh'' reply (ti_secs io) (en_pins en) = (Inr (resp, dev), pins)"
  shows "en_pending (hold_request io en) = Some f \<and> en_sent (answered cfg io reply (hold_request io en)) = en_sent en"
proof -
  have "en_sent (sync_overlay cfg io x) = en_sent x" "en_sent (apply_now cfg io x) = en_sent x" "en_sent (go_round x) = en_sent x" for x
    by (simp_all add: sync_overlay_def apply_now_def go_round_def split: prod.split sum.split)
  with assms show ?thesis
    by (simp add: hold_request_def must_report_def report_stale_def answered_def Let_def)
qed

end
