(* ===== verification/Standing.thy ===== *)
theory Standing
  imports Register
begin

section \<open>What a request can add to presence\<close>

text \<open>
  A register runs many steps and can fail in most of them, after some of its effects. Whatever its outcome, every
  presence entry it adds belongs to a user who holds the role, as the role source of that request answers; and
  the registry of networks is left as it is. The other handler that touches presence only removes entries.
\<close>

definition kept :: "app \<Rightarrow> app \<Rightarrow> bool" where
  "kept st st' \<longleftrightarrow> a_roles st' = a_roles st \<and> networks (a_store st') = networks (a_store st) \<and>
     (presence_ok (a_presence st) \<longrightarrow> presence_ok (a_presence st') \<and>
        (\<forall>g r pk mp. guild_view (a_presence st') g r pk = Some mp \<longrightarrow> guild_view (a_presence st) g r pk = Some mp \<or>
           role_among r (ro_member (a_roles st) g (mp_user_id mp))))"

definition quiet :: "app \<Rightarrow> app \<Rightarrow> bool" where
  "quiet st st' \<longleftrightarrow> a_roles st' = a_roles st \<and> networks (a_store st') = networks (a_store st) \<and> a_presence st' = a_presence st"

lemma quiet_kept: "quiet st st' \<Longrightarrow> kept st st'"
  by (simp add: quiet_def kept_def)

lemma kept_refl [simp]: "kept st st" and quiet_refl [simp]: "quiet st st"
  by (simp_all add: kept_def quiet_def)

lemma kept_trans: "kept a b \<Longrightarrow> kept b c \<Longrightarrow> kept a c"
  unfolding kept_def by metis

lemma quiet_trans: "quiet a b \<Longrightarrow> quiet b c \<Longrightarrow> quiet a c"
  by (simp add: quiet_def)

lemma quiet_store: "networks s = networks (a_store st) \<Longrightarrow> quiet st (set_store s st)"
  by (simp add: quiet_def)

text \<open>Sequencing, with any outcome.\<close>

lemma bindA_kept:
  assumes "bindA m f st = (r, st')" "\<And>x st1. m st = (x, st1) \<Longrightarrow> kept st st1"
    "\<And>a st1. m st = (Inr a, st1) \<Longrightarrow> f a st1 = (r, st') \<Longrightarrow> kept st1 st'"
  shows "kept st st'"
proof (cases "m st")
  case (Pair x st1)
  with assms(2) have 1: "kept st st1" by blast
  show ?thesis
  proof (cases x)
    case (Inr a)
    with Pair assms(1) have "f a st1 = (r, st')" by (simp add: bindA_def)
    with assms(3) Pair Inr 1 show ?thesis by (blast intro: kept_trans)
  qed (use Pair assms(1) 1 in \<open>simp add: bindA_def\<close>)
qed

lemma bindA_quiet:
  assumes "bindA m f st = (r, st')" "\<And>x st1. m st = (x, st1) \<Longrightarrow> quiet st st1"
    "\<And>a st st'. f a st = (r, st') \<Longrightarrow> quiet st st'"
  shows "quiet st st'"
proof (cases "m st")
  case (Pair x st1)
  with assms(2) have 1: "quiet st st1" by blast
  show ?thesis
  proof (cases x)
    case (Inr a)
    with Pair assms(1) have "f a st1 = (r, st')" by (simp add: bindA_def)
    with assms(3) 1 show ?thesis by (blast intro: quiet_trans)
  qed (use Pair assms(1) 1 in \<open>simp add: bindA_def\<close>)
qed

lemma mapA_quiet:
  assumes "\<And>x st r st'. f x st = (r, st') \<Longrightarrow> quiet st st'" "mapA f xs st = (r, st')"
  shows "quiet st st'"
  using assms(2)
proof (induction xs arbitrary: st r st')
  case (Cons x xs)
  show ?case
    by (rule bindA_quiet [OF Cons.prems [simplified]])
      (use assms(1) Cons.IH in \<open>auto elim!: bindA_quiet\<close>)
qed simp

subsection \<open>Steps that leave presence alone\<close>

lemma keysA_quiet: "keysA ev g st = (r, st') \<Longrightarrow> quiet st st'"
  by (auto simp: keysA_def keys_get_def load_or_create_seed_def quiet_def Let_def split: option.splits prod.splits sum.splits if_splits)

lemma signA_quiet: "signA ev g i schema st = (r, st') \<Longrightarrow> quiet st st'"
  by (auto simp: signA_def cached_attestation_def keys_get_def load_or_create_seed_def quiet_def Let_def
      split: option.splits prod.splits sum.splits if_splits)

lemma base64A_quiet: "base64A ev x st = (r, st') \<Longrightarrow> quiet st st'"
  by (auto simp: base64A_def split: sum.splits option.splits)

lemma retA_quiet: "retA x st = (r, st') \<Longrightarrow> quiet st st'" and liftA_quiet: "liftA y st = (r', st') \<Longrightarrow> quiet st st'"
  by simp_all

lemma build_grant_quiet: "build_grant ev req u dev m schema st = (r, st') \<Longrightarrow> quiet st st'"
  unfolding build_grant_def grant_attestation_def
  by (auto split: if_splits elim!: bindA_quiet mapA_quiet [rotated] dest: keysA_quiet base64A_quiet)

lemma peer_seed_quiet: "peer_seed ev req m t cands schema e st = (r, st') \<Longrightarrow> quiet st st'"
  unfolding peer_seed_def
  by (auto split: prod.splits elim!: bindA_quiet mapA_quiet [rotated] dest: signA_quiet)

lemma build_seeds_quiet: "build_seeds ev req u m gs schema st = (r, st') \<Longrightarrow> quiet st st'"
proof -
  assume run: "build_seeds ev req u m gs schema st = (r, st')"
  obtain t ws where t: "record_peer_reports req (tkeys (comembers_of req u m gs (a_presence st))) (a_nat st) [] = (t, ws)"
    by fastforce
  have "quiet st (st\<lparr>a_nat := t\<rparr>)" by (simp add: quiet_def)
  moreover have "quiet (st\<lparr>a_nat := t\<rparr>) st'"
    using run t by (auto simp: build_seeds_def Let_def elim!: bindA_quiet mapA_quiet [rotated] dest: peer_seed_quiet)
  ultimately show ?thesis by (rule quiet_trans)
qed

lemma dbA_quiet: "dbA err m st = (r, st') \<Longrightarrow> (\<And>x s. m (a_store st) = (x, s) \<Longrightarrow> networks s = networks (a_store st)) \<Longrightarrow> quiet st st'"
  by (auto simp: dbA_eq intro: quiet_store)

lemma store_keeps_networks:
  "device_token pk fresh s = (x, s') \<Longrightarrow> networks s' = networks s"
  "allocate_device sip net pk u name token s = (y, s') \<Longrightarrow> networks s' = networks s"
  "remove_device u pk s = (z, s') \<Longrightarrow> networks s' = networks s"
  "networks (ensure_primary u pk s) = networks s" "networks (touch_device pk personal now s) = networks s"
  "networks (set_primary u pk s) = networks s"
  by (auto simp: device_token_def update_device_def allocate_device_def insert_device_def remove_device_def set_primary_def
      ensure_primary_def touch_device_def Let_def split: option.splits if_splits sum.splits prod.splits list.splits)

lemma rename_keeps_networks: "rename_device u pk name s = (x, s') \<Longrightarrow> networks s' = networks s"
  by (auto simp: rename_device_def update_device_def split: option.splits)

lemma snapshot_read_quiet: "snapshot_read ev req cl st = (r, st') \<Longrightarrow> quiet st st'"
  unfolding snapshot_read_def
  by (auto split: prod.splits if_splits elim!: bindA_quiet dbA_quiet dest: build_grant_quiet build_seeds_quiet store_keeps_networks(1))

lemma snapshot_stamp_quiet:
  assumes "snapshot_stamp ev req cl rd st = (r, st')"
  shows "quiet st st'"
proof -
  define st2 where "st2 = (let st1 = bump_changed (cl_changed cl) st in st1\<lparr>a_wakers := fold wake (remdups (rd_wakes rd)) (a_wakers st1)\<rparr>)"
  have "quiet st st2" by (simp add: st2_def quiet_def bump_changed_def Let_def)
  moreover have "quiet st2 st'"
    using assms unfolding snapshot_stamp_def build_anchors_def sign_release_def Let_def st2_def [unfolded Let_def, symmetric]
    by (auto split: prod.splits option.splits list.splits elim!: bindA_quiet mapA_quiet [rotated] dest: keysA_quiet base64A_quiet)
  ultimately show ?thesis by (rule quiet_trans)
qed

lemma label_frame_quiet: "label_frame st st' \<Longrightarrow> a_presence st' = a_presence st \<Longrightarrow> quiet st st'"
  using label_frame_keeps(1,4) by (simp add: quiet_def)

lemma app_user_label_quiet: "app_user_label u h st = (r, st') \<Longrightarrow> quiet st st'"
  using app_user_label_frame label_frame_quiet by blast

lemma resolve_user_quiet: "resolve_user ev req st = (r, st') \<Longrightarrow> quiet st st'"
  using resolve_user_frame by (simp add: quiet_def)

lemma resolve_device_quiet: "resolve_device ev req u nets c st = (r, st') \<Longrightarrow> quiet st st'"
  by (auto simp: resolve_device_def Let_def split: prod.splits if_splits elim!: bindA_quiet dbA_quiet
      dest: store_keeps_networks(2)) (auto simp: bindA_def liftA_def quiet_def store_keeps_networks split: sum.splits)

subsection \<open>Steps that change presence\<close>

lemma kept_presence:
  assumes "presence_ok (a_presence st) \<Longrightarrow> presence_ok p \<and> (\<forall>g r pk mp. guild_view p g r pk = Some mp \<longrightarrow>
      guild_view (a_presence st) g r pk = Some mp \<or> role_among r (ro_member (a_roles st) g (mp_user_id mp)))"
  shows "kept st (st\<lparr>a_presence := p\<rparr>)"
  using assms by (simp add: kept_def)

lemma evict_everywhere_kept:
  assumes "evict_everywhere u pk (a_presence st) = (p, gone)"
  shows "kept st (st\<lparr>a_presence := p\<rparr>)"
proof (rule kept_presence)
  assume ok: "presence_ok (a_presence st)"
  note e = evict_everywhere_spec [OF ok_get(3) [OF ok] ok_get(4) [OF ok] assms]
  then show "presence_ok p \<and> (\<forall>g r k mp. guild_view p g r k = Some mp \<longrightarrow>
      guild_view (a_presence st) g r k = Some mp \<or> role_among r (ro_member (a_roles st) g (mp_user_id mp)))"
    using ok by (auto simp: presence_ok_def guild_view_def split: if_splits)
qed

lemma evict_loop_kept:
  assumes "evict_loop pk nets (a_presence st) ch = (p, ch')"
  shows "kept st (st\<lparr>a_presence := p\<rparr>)"
  by (rule kept_presence) (use evict_loop_views [OF _ assms] in \<open>auto split: if_splits\<close>)

lemma remove_device_kept: "dbA internal (remove_device u pk) st = (r, st') \<Longrightarrow> kept st st'"
  by (intro quiet_kept) (auto elim!: dbA_quiet dest: store_keeps_networks(3))

lemma retire_superseded_kept:
  assumes "retire_superseded req u ch st = (r, st')"
  shows "kept st st'"
proof (cases "rq_supersede req")
  case (Some t)
  then have "bindA (liftA (orInternal (device_by_token (a_store st) t))) (\<lambda>found.
            case found of
              None \<Rightarrow> retA ch
            | Some (owner, old_pubkey) \<Rightarrow>
                if \<not> should_supersede owner old_pubkey u (rq_wg_pubkey req) then retA ch
                else bindA (dbA internal (remove_device u old_pubkey)) (\<lambda>_ st.
                  case evict_everywhere owner old_pubkey (a_presence st) of (p, gone) \<Rightarrow>
                    (Inr (gone @ ch), st\<lparr>a_presence := p\<rparr>))) st = (r, st')"
    using assms by (simp add: retire_superseded_def)
  then show ?thesis
  proof (rule bindA_kept)
    fix found st1 assume rest: "(case found of
              None \<Rightarrow> retA ch
            | Some (owner, old_pubkey) \<Rightarrow>
                if \<not> should_supersede owner old_pubkey u (rq_wg_pubkey req) then retA ch
                else bindA (dbA internal (remove_device u old_pubkey)) (\<lambda>_ st.
                  case evict_everywhere owner old_pubkey (a_presence st) of (p, gone) \<Rightarrow>
                    (Inr (gone @ ch), st\<lparr>a_presence := p\<rparr>))) st1 = (r, st')"
    show "kept st1 st'"
    proof (cases "\<exists>owner old. found = Some (owner, old) \<and> should_supersede owner old u (rq_wg_pubkey req)")
      case True
      then obtain owner old where "bindA (dbA internal (remove_device u old)) (\<lambda>_ st.
          case evict_everywhere owner old (a_presence st) of (p, gone) \<Rightarrow> (Inr (gone @ ch), st\<lparr>a_presence := p\<rparr>)) st1 = (r, st')"
        using rest by auto
      then show ?thesis
        by (rule bindA_kept) (auto intro: remove_device_kept evict_everywhere_kept split: prod.splits)
    qed (use rest in \<open>auto split: option.splits prod.splits if_splits\<close>)
  qed simp
qed (use assms in \<open>simp add: retire_superseded_def\<close>)

lemma join_network_kept:
  assumes "join_network ev req u dev net w st = (r, st')" "role_among (n_role_id net) (ro_member (a_roles st) (n_guild_id net) u)"
  shows "kept st st'"
proof (cases "rq_paused req")
  case True
  with assms(1) show ?thesis by (auto simp: join_network_def Let_def)
next
  case False
  let ?mp = "presence_of req u dev (ms_username (wl_m w))"
  obtain did p where rec: "record_presence (n_guild_id net) (n_role_id net) ?mp (rq_client_version req) (e_now ev) (a_presence st) = (did, p)"
    by fastforce
  have st': "st' = st\<lparr>a_presence := p\<rparr>" using assms(1) False rec by (auto simp: join_network_def Let_def)
  have op: "op_record (n_guild_id net) (n_role_id net) ?mp (rq_client_version req) (e_now ev) (a_presence st) =
      (when_changed did (Guild (n_guild_id net)), p)" by (simp add: op_record_def rec)
  show ?thesis
    unfolding st'
  proof (rule kept_presence)
    assume ok: "presence_ok (a_presence st)"
    have "presence_ok p" using rec.keeps_ok [OF ok] op by (metis snd_conv)
    moreover have "guild_view p g r k = (if (g, r, k) = (n_guild_id net, n_role_id net, rq_wg_pubkey req) then Some ?mp
        else guild_view (a_presence st) g r k)" for g r k
      using op ok by (auto simp: op_record_eq views_map ok_get) (auto simp: guild_view_def)
    ultimately show "presence_ok p \<and> (\<forall>g r k mp. guild_view p g r k = Some mp \<longrightarrow>
        guild_view (a_presence st) g r k = Some mp \<or> role_among r (ro_member (a_roles st) g (mp_user_id mp)))"
      using assms(2) by (auto simp: presence_of_def split: if_splits)
  qed
qed

lemma visit_network_kept:
  assumes "visit_network ev req u dev net w st = (r, st')" "cache_ok (a_roles st) u (wl_cache w)"
  shows "kept st st' \<and> (\<forall>w'. r = Inr w' \<longrightarrow> cache_ok (a_roles st') u (wl_cache w'))"
proof -
  obtain member cache where cm: "cached_member (a_roles st) u (n_guild_id net) (wl_cache w) = (member, cache)" by fastforce
  have c: "member = ro_member (a_roles st) (n_guild_id net) u" "cache_ok (a_roles st) u cache"
    using cached_member_ok [OF assms(2), of "n_guild_id net"] cm by simp_all
  show ?thesis
  proof (cases "role_among (n_role_id net) member")
    case False
    with assms(1) cm c(2) show ?thesis by (auto simp: visit_network_def role_among_def split: option.splits if_splits)
  next
    case True
    then obtain mr where mr: "member = Some mr" "n_role_id net \<in> set (mr_role_ids mr)" by (auto simp: role_among_def split: option.splits)
    define label where "label = (let m = list_network st req net (wl_m w)
                 in if wl_label_resolved w then retA m
                    else bindA (app_user_label u (mr_username mr)) (\<lambda>l. retA (m\<lparr>ms_username := l\<rparr>)))"
    have run: "bindA label (\<lambda>m. let w' = w\<lparr>wl_cache := cache, wl_m := m, wl_label_resolved := True\<rparr>
                     in if opted_out req (n_guild_id net) (n_role_id net) then retA w'
                        else join_network ev req u dev net w') st = (r, st')"
      using assms(1) cm mr by (simp add: visit_network_def label_def)
    have q: "quiet st st1" if "label st = (x, st1)" for x st1
      using that unfolding label_def Let_def by (auto split: if_splits elim!: bindA_quiet dest: app_user_label_quiet)
    have "kept st st'"
    proof (rule bindA_kept [OF run])
      fix m st1 assume m: "label st = (Inr m, st1)"
        and rest: "(let w' = w\<lparr>wl_cache := cache, wl_m := m, wl_label_resolved := True\<rparr>
                     in if opted_out req (n_guild_id net) (n_role_id net) then retA w'
                        else join_network ev req u dev net w') st1 = (r, st')"
      have "role_among (n_role_id net) (ro_member (a_roles st1) (n_guild_id net) u)"
        using q [OF m] True c(1) by (simp add: quiet_def)
      with rest show "kept st1 st'" by (auto simp: Let_def split: if_splits dest: join_network_kept)
    qed (use q quiet_kept in blast)
    moreover have "wl_cache w' = cache" if out: "r = Inr w'" for w'
    proof -
      obtain m st1 where rest: "(let w' = w\<lparr>wl_cache := cache, wl_m := m, wl_label_resolved := True\<rparr>
                     in if opted_out req (n_guild_id net) (n_role_id net) then retA w'
                        else join_network ev req u dev net w') st1 = (Inr w', st')"
        by (rule bindA_InrE [OF run [unfolded out]])
      then show ?thesis
        by (cases "opted_out req (n_guild_id net) (n_role_id net)") (auto simp: Let_def join_network_def split: prod.splits)
    qed
    ultimately show ?thesis using c(2) by (auto simp: kept_def)
  qed
qed

lemma walk_networks_kept:
  "walk_networks ev req u dev nets w st = (r, st') \<Longrightarrow> cache_ok (a_roles st) u (wl_cache w) \<Longrightarrow> kept st st'"
proof (induction nets arbitrary: w st)
  case (Cons n nets)
  have run: "bindA (visit_network ev req u dev n w) (walk_networks ev req u dev nets) st = (r, st')"
    using Cons.prems(1) by simp
  show ?case
    by (rule bindA_kept [OF run]) (use visit_network_kept [OF _ Cons.prems(2)] Cons.IH in blast)+
qed simp

lemma resolve_membership_kept:
  assumes "resolve_membership ev req u nets dev cache ch st = (r, st')" "cache_ok (a_roles st) u cache"
  shows "kept st st'"
  using assms(1) unfolding resolve_membership_def
proof (rule bindA_kept)
  let ?w0 = "\<lparr>wl_cache = cache, wl_m = empty_mship u, wl_label_resolved = False, wl_changed = ch\<rparr>"
  show "kept st st1" if "walk_networks ev req u dev nets ?w0 st = (x, st1)" for x st1
    using walk_networks_kept [OF that] assms(2) by simp
  fix w st1
  let ?rest = "\<lambda>st. case evict_loop (rq_wg_pubkey req) (stale_networks req (wl_m w) (a_presence st)) (a_presence st) (wl_changed w) of
    (p, changed') \<Rightarrow> let st1 = st\<lparr>a_presence := p\<rparr>; m = (wl_m w)\<lparr>ms_personal := (ms_status (wl_m w) = [] \<and> wants_personal_scope req)\<rparr>
      in if \<not> ms_personal m then (Inr (m, changed'), st1)
         else (case user_handle (a_store st1) u of None \<Rightarrow> (Inr (m, changed'), st1)
               | Some h \<Rightarrow> bindA (app_user_label u h) (\<lambda>l. retA (m\<lparr>ms_username := l\<rparr>, changed')) st1)"
  assume rest: "?rest st1 = (r, st')"
  obtain p ch' where ev: "evict_loop (rq_wg_pubkey req) (stale_networks req (wl_m w) (a_presence st1)) (a_presence st1) (wl_changed w) = (p, ch')"
    by fastforce
  have "quiet (st1\<lparr>a_presence := p\<rparr>) st'"
    using rest unfolding ev prod.case Let_def
    by (auto split: if_splits option.splits elim!: bindA_quiet dest: app_user_label_quiet)
  with evict_loop_kept [OF ev] show "kept st1 st'" by (blast intro: kept_trans quiet_kept)
qed

lemma record_caller_kept: "record_caller ev req u en walked dev m ch st = (r, st') \<Longrightarrow> kept st st'"
proof -
  assume run: "record_caller ev req u en walked dev m ch st = (r, st')"
  let ?s = "settle ev req u walked m st"
  have q: "quiet st ?s" by (simp add: quiet_def settle_def Let_def store_keeps_networks)
  obtain ch' st1 where own: "record_own_device ev req u dev m ch ?s = (ch', st1)" by fastforce
  have out: "st' = st1" using run own by (simp add: record_caller_def)
  have "st1 = ?s\<lparr>a_presence := a_presence st1\<rparr>"
    using own by (auto simp: record_own_device_def Let_def split: prod.splits)
  moreover have "kept ?s (?s\<lparr>a_presence := a_presence st1\<rparr>)"
    by (rule kept_presence) (use record_own_views [OF _ own] in simp)
  ultimately show ?thesis using q out by (metis kept_trans quiet_kept)
qed

lemma snapshot_caller_kept:
  assumes "snapshot_caller ev req caller_ip st = (r, st')"
  shows "kept st st'"
  using assms unfolding snapshot_caller_def
proof (rule bindA_kept)
  fix a st1 assume 1: "liftA (validate_peer_reports req) st = (Inr a, st1)" and rest: "bindA (resolve_user ev req) (\<lambda>(u, enrolled) st0.
       let st = source_seen req caller_ip st0;
           walked = (\<not> memo_fresh u (e_instant ev) (a_roleless st));
           nets = networks_to_walk ev u st
       in bindA (resolve_device ev req u nets []) (\<lambda>(dev, cache).
          bindA (retire_superseded req u []) (\<lambda>changed.
          bindA (resolve_membership ev req u nets dev cache changed) (\<lambda>(m, changed).
            record_caller ev req u enrolled walked dev m changed))) st) st1 = (r, st')"
  from rest show "kept st1 st'"
  proof (rule bindA_kept)
    fix x st2 assume "(case x of (u, enrolled) \<Rightarrow> \<lambda>st0.
       let st = source_seen req caller_ip st0;
           walked = (\<not> memo_fresh u (e_instant ev) (a_roleless st));
           nets = networks_to_walk ev u st
       in bindA (resolve_device ev req u nets []) (\<lambda>(dev, cache).
          bindA (retire_superseded req u []) (\<lambda>changed.
          bindA (resolve_membership ev req u nets dev cache changed) (\<lambda>(m, changed).
            record_caller ev req u enrolled walked dev m changed))) st) st2 = (r, st')"
    then obtain u en where x: "x = (u, en)" and run: "bindA (resolve_device ev req u (networks_to_walk ev u (source_seen req caller_ip st2)) []) (\<lambda>(dev, cache).
          bindA (retire_superseded req u []) (\<lambda>changed.
          bindA (resolve_membership ev req u (networks_to_walk ev u (source_seen req caller_ip st2)) dev cache changed) (\<lambda>(m, changed).
            record_caller ev req u en (\<not> memo_fresh u (e_instant ev) (a_roleless (source_seen req caller_ip st2))) dev m changed)))
          (source_seen req caller_ip st2) = (r, st')"
      by (cases x) (auto simp: Let_def)
    let ?s = "source_seen req caller_ip st2" and ?nets = "networks_to_walk ev u (source_seen req caller_ip st2)"
    from run have "kept ?s st'"
    proof (rule bindA_kept)
      fix y st3 assume dev: "resolve_device ev req u ?nets [] ?s = (Inr y, st3)" and r3: "(case y of (dev, cache) \<Rightarrow>
          bindA (retire_superseded req u []) (\<lambda>changed.
          bindA (resolve_membership ev req u ?nets dev cache changed) (\<lambda>(m, changed).
            record_caller ev req u en (\<not> memo_fresh u (e_instant ev) (a_roleless ?s)) dev m changed))) st3 = (r, st')"
      obtain dv cache where y: "y = (dv, cache)" by (cases y)
      have c: "cache_ok (a_roles st3) u cache" using resolve_device_facts(2,3) [OF dev [unfolded y]] by simp
      from r3 [unfolded y prod.case] show "kept st3 st'"
      proof (rule bindA_kept)
        fix ch st4 assume ret: "retire_superseded req u [] st3 = (Inr ch, st4)"
          and r4: "bindA (resolve_membership ev req u ?nets dv cache ch) (\<lambda>(m, changed).
            record_caller ev req u en (\<not> memo_fresh u (e_instant ev) (a_roleless ?s)) dv m changed) st4 = (r, st')"
        have c4: "cache_ok (a_roles st4) u cache" using c retire_superseded_frame(1) [OF ret] by simp
        from r4 show "kept st4 st'"
          by (rule bindA_kept) (use c4 in \<open>auto intro: resolve_membership_kept record_caller_kept\<close>)
      qed (rule retire_superseded_kept)
    qed (use resolve_device_quiet quiet_kept in blast)
    moreover have "quiet st2 ?s" by (simp add: quiet_def)
    ultimately show "kept st2 st'" by (blast intro: kept_trans quiet_kept)
  qed (use resolve_user_quiet quiet_kept in blast)
qed simp

lemma build_snapshot_kept: "build_snapshot ev req caller_ip st = (r, st') \<Longrightarrow> kept st st'"
  unfolding build_snapshot_def
  by (elim bindA_kept) (blast intro: snapshot_caller_kept quiet_kept snapshot_read_quiet snapshot_stamp_quiet)+

lemma register_open_kept: "register_open ev req caller_ip st = (r, st') \<Longrightarrow> kept st st'"
proof -
  assume run: "register_open ev req caller_ip st = (r, st')"
  show ?thesis
  proof (cases "negotiate req")
    case (Inr v)
    obtain rx due w where sub: "subscribe (rq_wg_pubkey req) (a_wakers st) = ((rx, due), w)" by (metis prod_cases3 surj_pair)
    obtain r1 st1 where b: "bindA (build_snapshot ev req caller_ip) (decide_park req due) (st\<lparr>a_wakers := w\<rparr>) = (r1, st1)"
      by fastforce
    have "quiet st (st\<lparr>a_wakers := w\<rparr>)" by (simp add: quiet_def)
    moreover have "kept (st\<lparr>a_wakers := w\<rparr>) st1"
      using b by (rule bindA_kept) (auto intro: build_snapshot_kept quiet_kept simp: decide_park_def quiet_def split: if_splits prod.splits option.splits)
    moreover have "quiet st1 st'"
      using run Inr sub b by (auto simp: register_open_def leave_def quiet_def split: sum.splits polled.splits)
    ultimately show ?thesis by (blast intro: kept_trans quiet_kept)
  qed (use run in \<open>simp add: register_open_def\<close>)
qed

lemma register_resume_kept: "register_resume ev req caller_ip p st = (r, st') \<Longrightarrow> kept st st'"
proof -
  assume run: "register_resume ev req caller_ip p st = (r, st')"
  obtain b st1 where b: "build_snapshot ev req caller_ip st = (b, st1)" by fastforce
  have "quiet st1 st'" using run b by (auto simp: register_resume_def leave_def quiet_def)
  with build_snapshot_kept [OF b] show ?thesis by (blast intro: kept_trans quiet_kept)
qed

lemma manage_kept: "manage req st = (r, st') \<Longrightarrow> kept st st'"
proof -
  have find: "quiet st1 st2" if "find_device u name st1 = (x, st2)" for u name st1 x st2
    using that by (auto simp: find_device_def bindA_def liftA_def retA_def failA_def split: sum.splits device_match.splits)
  have step: "kept st1 st2" if run: "manage_step u self op st1 = (x, st2)" for u self op st1 x st2
  proof (cases op)
    case ListDevices
    with run show ?thesis by (simp add: manage_step_def)
  next
    case (Rename n)
    with run show ?thesis
      by (intro quiet_kept) (auto simp: manage_step_def elim!: bindA_quiet dbA_quiet dest: rename_keeps_networks)
  next
    case (SetPrimary n)
    then have "bindA (find_device u n) (\<lambda>pk st. (Inr (), set_store (set_primary u pk (a_store st)) st)) st1 = (x, st2)"
      using run by (simp add: manage_step_def)
    then show ?thesis
      by (rule bindA_kept) (auto intro: find [THEN quiet_kept] quiet_store [THEN quiet_kept] simp: store_keeps_networks)
  next
    case (Remove n)
    then have "bindA (find_device u n) (\<lambda>pk. bindA (dbA internal (remove_device u pk)) (\<lambda>_ st.
        let (p, changed) = evict_everywhere u pk (a_presence st) in (Inr (), bump_changed changed (st\<lparr>a_presence := p\<rparr>)))) st1 = (x, st2)"
      using run by (simp add: manage_step_def)
    then show ?thesis
    proof (rule bindA_kept)
      fix pk st3 assume "bindA (dbA internal (remove_device u pk)) (\<lambda>_ st.
        let (p, changed) = evict_everywhere u pk (a_presence st) in (Inr (), bump_changed changed (st\<lparr>a_presence := p\<rparr>))) st3 = (x, st2)"
      then show "kept st3 st2"
      proof (rule bindA_kept)
        fix a st4 assume rest: "(let (p, changed) = evict_everywhere u pk (a_presence st4) in (Inr (), bump_changed changed (st4\<lparr>a_presence := p\<rparr>))) = (x, st2)"
        obtain p changed where ev: "evict_everywhere u pk (a_presence st4) = (p, changed)" by fastforce
        have "quiet (st4\<lparr>a_presence := p\<rparr>) st2" using rest ev by (auto simp: quiet_def bump_changed_def)
        with evict_everywhere_kept [OF ev] show "kept st4 st2" by (blast intro: kept_trans quiet_kept)
      qed (rule remove_device_kept)
    qed (use find quiet_kept in blast)
  qed
  assume "manage req st = (r, st')"
  then show ?thesis
    unfolding manage_def
    by (rule bindA_kept) (auto split: option.splits prod.splits elim!: bindA_kept intro: step)
qed

end
