(* ===== verification/RoleCache.thy ===== *)
theory RoleCache
  imports Membership Beacon
begin

section \<open>Roles from Discord: \<open>crates/coordinator/src/discord.rs\<close>\<close>

text \<open>
  What the coordinator remembers of Discord's answers: guild names, role names and memberships, each for a while,
  and the gate that keeps simultaneous callers from asking the same question at once. A reply of the REST API is
  an argument; instants are natural numbers of nanoseconds.
\<close>

definition ROLE_NAME_TTL :: nat where "ROLE_NAME_TTL = secs 300"
definition MEMBER_TTL :: nat where "MEMBER_TTL = secs 30"
definition MEMBER_ABSENT_TTL :: nat where "MEMBER_ABSENT_TTL = secs (unat LONGPOLL_HOLD_SECS)"
definition MEMBER_PRUNE_EVERY :: nat where "MEMBER_PRUNE_EVERY = MEMBER_ABSENT_TTL"
definition GUILD_NAME_TTL :: nat where "GUILD_NAME_TTL = secs 300"

definition guild_of :: "u64 \<Rightarrow> u64 option" where
  "guild_of g = (if g \<noteq> PERSONAL_SCOPE then Some g else None)"

record cached_roles =
  cr_fetched :: nat
  cr_names :: "(u64, string) hmap"

record cached_name =
  cn_fetched :: nat
  cn_name :: string

record member_entry =
  me_fetched :: nat
  me_roles :: "member_roles option"

definition member_ttl :: "member_roles option \<Rightarrow> nat" where
  "member_ttl roles = (case roles of Some _ \<Rightarrow> MEMBER_TTL | None \<Rightarrow> MEMBER_ABSENT_TTL)"

definition entry_fresh :: "nat \<Rightarrow> member_entry \<Rightarrow> bool" where
  "entry_fresh now e \<longleftrightarrow> now - me_fetched e < member_ttl (me_roles e)"

record role_caches =
  rc_roles :: "(u64, cached_roles) hmap"
  rc_members :: "(u64 \<times> u64, member_entry) hmap"
  rc_pruned :: nat
  rc_names :: "(u64, cached_name) hmap"

definition new_role_caches :: "nat \<Rightarrow> role_caches" where
  "new_role_caches now = \<lparr>rc_roles = [], rc_members = [], rc_pruned = now, rc_names = []\<rparr>"

definition name_cached :: "nat \<Rightarrow> u64 \<Rightarrow> role_caches \<Rightarrow> string option" where
  "name_cached now g c =
     (case tget (rc_names c) g of
        None \<Rightarrow> None
      | Some e \<Rightarrow> if GUILD_NAME_TTL \<le> now - cn_fetched e then None else Some (cn_name e))"

text \<open>The two levels of the option: a hit, and whether the account is a member.\<close>

definition member_cached :: "nat \<Rightarrow> u64 \<Rightarrow> u64 \<Rightarrow> role_caches \<Rightarrow> member_roles option option" where
  "member_cached now g u c =
     (case tget (rc_members c) (g, u) of
        None \<Rightarrow> None
      | Some e \<Rightarrow> if \<not> entry_fresh now e then None else Some (me_roles e))"

definition store_member :: "nat \<Rightarrow> u64 \<Rightarrow> u64 \<Rightarrow> member_roles option \<Rightarrow> role_caches \<Rightarrow> role_caches" where
  "store_member now g u roles c =
     (let m = tput (g, u) \<lparr>me_fetched = now, me_roles = roles\<rparr> (rc_members c)
      in if MEMBER_PRUNE_EVERY \<le> now - rc_pruned c
         then c\<lparr>rc_members := tkeep (\<lambda>_ e. entry_fresh now e) m, rc_pruned := now\<rparr>
         else c\<lparr>rc_members := m\<rparr>)"

definition role_cached :: "nat \<Rightarrow> u64 \<Rightarrow> u64 \<Rightarrow> role_caches \<Rightarrow> string option option" where
  "role_cached now g r c =
     (case tget (rc_roles c) g of
        None \<Rightarrow> None
      | Some e \<Rightarrow> if ROLE_NAME_TTL \<le> now - cr_fetched e then None else Some (tget (cr_names e) r))"

text \<open>\<open>Flight::dedup\<close> for a caller that is alone at its gate.\<close>

definition dedup :: "'v option \<Rightarrow> 'v \<times> role_caches \<Rightarrow> role_caches \<Rightarrow> 'v \<times> role_caches" where
  "dedup cached fetched c = (case cached of Some hit \<Rightarrow> (hit, c) | None \<Rightarrow> fetched)"

definition src_guild_name :: "nat \<Rightarrow> string option \<Rightarrow> u64 \<Rightarrow> role_caches \<Rightarrow> string option \<times> role_caches" where
  "src_guild_name now reply g c =
     (case guild_of g of
        None \<Rightarrow> (None, c)
      | Some _ \<Rightarrow> dedup (map_option Some (name_cached now g c))
          (case reply of
             None \<Rightarrow> (None, c)
           | Some name \<Rightarrow> (Some name, c\<lparr>rc_names := tput g \<lparr>cn_fetched = now, cn_name = name\<rparr> (rc_names c)\<rparr>)) c)"

text \<open>Discord says who the member is, says that there is none (404), or the lookup fails.\<close>

datatype member_reply = IsMember member_roles | NoMember | LookupFailed

definition src_member :: "nat \<Rightarrow> member_reply \<Rightarrow> u64 \<Rightarrow> u64 \<Rightarrow> role_caches \<Rightarrow> member_roles option \<times> role_caches" where
  "src_member now reply g u c =
     (case guild_of g of
        None \<Rightarrow> (None, c)
      | Some _ \<Rightarrow> dedup (member_cached now g u c)
          (case reply of
             IsMember roles \<Rightarrow> (Some roles, store_member now g u (Some roles) c)
           | NoMember \<Rightarrow> (None, store_member now g u None c)
           | LookupFailed \<Rightarrow> (None, c)) c)"

definition src_role_name :: "nat \<Rightarrow> (u64, string) hmap option \<Rightarrow> u64 \<Rightarrow> u64 \<Rightarrow> role_caches \<Rightarrow> string option \<times> role_caches" where
  "src_role_name now reply g r c =
     (case guild_of g of
        None \<Rightarrow> (None, c)
      | Some _ \<Rightarrow> dedup (role_cached now g r c)
          (case reply of
             None \<Rightarrow> (None, c)
           | Some names \<Rightarrow> (tget names r, c\<lparr>rc_roles := tput g \<lparr>cr_fetched = now, cr_names = names\<rparr> (rc_roles c)\<rparr>)) c)"

definition src_forget :: "u64 \<Rightarrow> u64 \<Rightarrow> role_caches \<Rightarrow> role_caches" where
  "src_forget g u c = c\<lparr>rc_members := tdel (g, u) (rc_members c)\<rparr>"

subsection \<open>How old an answer can be\<close>

datatype source_op = Look nat u64 u64 member_reply | Forgot u64 u64

fun source_step :: "source_op \<Rightarrow> role_caches \<Rightarrow> role_caches" where
  "source_step (Look now g u reply) c = snd (src_member now reply g u c)"
| "source_step (Forgot g u) c = src_forget g u c"

definition source_run :: "nat \<Rightarrow> source_op list \<Rightarrow> role_caches" where
  "source_run start ops = fold source_step ops (new_role_caches start)"

definition says :: "member_reply \<Rightarrow> member_roles option \<Rightarrow> bool" where
  "says reply roles \<longleftrightarrow> (case reply of IsMember m \<Rightarrow> roles = Some m | NoMember \<Rightarrow> roles = None | LookupFailed \<Rightarrow> False)"

text \<open>Discord gave this answer at \<open>t\<close>, and nothing was heard of the member since.\<close>

definition told :: "source_op list \<Rightarrow> u64 \<Rightarrow> u64 \<Rightarrow> nat \<Rightarrow> member_roles option \<Rightarrow> bool" where
  "told ops g u t roles \<longleftrightarrow>
     (\<exists>pre reply post. ops = pre @ Look t g u reply # post \<and> says reply roles \<and> Forgot g u \<notin> set post)"

lemma store_member_get:
  assumes "tok (rc_members c)" "tget (rc_members (store_member now g u roles c)) k = Some e"
  shows "k = (g, u) \<and> e = \<lparr>me_fetched = now, me_roles = roles\<rparr> \<or> k \<noteq> (g, u) \<and> tget (rc_members c) k = Some e"
  using assms by (auto simp: store_member_def Let_def tget_tkeep split: if_splits option.splits)

lemma source_tok: "tok (rc_members c) \<Longrightarrow> tok (rc_members (source_step op c))"
  by (cases op) (auto simp: src_member_def dedup_def store_member_def src_forget_def Let_def
      split: option.split member_reply.split)

lemma src_member_state:
  "snd (src_member now reply g u c) = c \<or> (\<exists>roles. says reply roles \<and> snd (src_member now reply g u c) = store_member now g u roles c)"
  by (cases "guild_of g"; cases "member_cached now g u c"; cases reply) (simp_all add: src_member_def dedup_def says_def)

lemma told_more: "told ops g u t roles \<Longrightarrow> op \<noteq> Forgot g u \<Longrightarrow> told (ops @ [op]) g u t roles"
  unfolding told_def by (elim exE conjE) (rule exI, rule exI, rule exI, auto)

lemma source_run_told:
  "tok (rc_members (source_run start ops)) \<and>
   (\<forall>g u e. tget (rc_members (source_run start ops)) (g, u) = Some e \<longrightarrow> told ops g u (me_fetched e) (me_roles e))"
proof (induction ops rule: rev_induct)
  case Nil
  then show ?case by (simp add: source_run_def new_role_caches_def)
next
  case (snoc op ops)
  let ?c = "source_run start ops"
  have step: "source_run start (ops @ [op]) = source_step op ?c" by (simp add: source_run_def)
  have "told (ops @ [op]) g u (me_fetched e) (me_roles e)"
    if held: "tget (rc_members (source_step op ?c)) (g, u) = Some e" for g u e
  proof (cases op)
    case (Look now g' u' reply)
    then consider "source_step op ?c = ?c" | roles where "says reply roles" "source_step op ?c = store_member now g' u' roles ?c"
      using src_member_state [of now reply g' u' ?c] by auto
    then show ?thesis
    proof cases
      case 1
      with held snoc.IH Look show ?thesis by (auto intro: told_more)
    next
      case 2
      from store_member_get [of ?c now g' u' roles "(g, u)" e] snoc.IH held 2(2)
      consider "(g, u) = (g', u')" "e = \<lparr>me_fetched = now, me_roles = roles\<rparr>" | "tget (rc_members ?c) (g, u) = Some e" by auto
      then show ?thesis
      proof cases
        case 1
        with 2(1) Look show ?thesis
          unfolding told_def by (intro exI [of _ ops] exI [of _ reply] exI [of _ "[]"]) auto
      next
        case 2
        with snoc.IH Look show ?thesis by (auto intro: told_more)
      qed
    qed
  next
    case (Forgot g' u')
    then have "tget (rc_members ?c) (g, u) = Some e" "(g, u) \<noteq> (g', u')"
      using held snoc.IH by (auto simp: src_forget_def split: if_splits)
    with snoc.IH Forgot show ?thesis by (auto intro: told_more)
  qed
  with snoc.IH show ?case by (simp add: step source_tok)
qed


subsection \<open>Single flight: \<open>Flight::dedup\<close> among concurrent callers\<close>

text \<open>
  A caller is waiting at its key's gate, fetching behind it, leaving with its answer and the lock given back, or
  parting: its look at the gate's count is done, the map unlocked, and its own clone of the gate not dropped yet
  (locals drop in reverse order, the map's guard before the clone). \<open>Arc::strong_count == 2\<close> says that no other
  caller holds a clone.
\<close>

datatype ('k, 'v) caller_phase = Waiting 'k nat | Fetching 'k nat | Leaving 'k nat 'v | Parting 'k nat 'v | Served 'v

record ('k, 'v) flight_state =
  fs_gates :: "('k, nat) hmap"
  fs_fresh :: nat
  fs_callers :: "(nat, ('k, 'v) caller_phase) hmap"
  fs_cached :: "'k \<Rightarrow> 'v option"

fun gate_held :: "('k, 'v) caller_phase \<Rightarrow> nat option" where
  "gate_held (Waiting k i) = Some i"
| "gate_held (Fetching k i) = Some i"
| "gate_held (Leaving k i v) = Some i"
| "gate_held (Parting k i v) = Some i"
| "gate_held (Served v) = None"

definition lock_free :: "nat \<Rightarrow> ('k, 'v) flight_state \<Rightarrow> bool" where
  "lock_free i s \<longleftrightarrow> (\<forall>c k j. tget (fs_callers s) c = Some (Fetching k j) \<longrightarrow> j \<noteq> i)"

definition only_holder :: "nat \<Rightarrow> nat \<Rightarrow> ('k, 'v) flight_state \<Rightarrow> bool" where
  "only_holder c i s \<longleftrightarrow> (\<forall>d p. tget (fs_callers s) d = Some p \<longrightarrow> d \<noteq> c \<longrightarrow> gate_held p \<noteq> Some i)"

definition goes :: "nat \<Rightarrow> ('k, 'v) caller_phase \<Rightarrow> ('k, 'v) flight_state \<Rightarrow> ('k, 'v) flight_state" where
  "goes c p s = s\<lparr>fs_callers := tput c p (fs_callers s)\<rparr>"

inductive flight_step :: "('k, 'v) flight_state \<Rightarrow> ('k, 'v) flight_state \<Rightarrow> bool" where
  hit: "tget (fs_callers s) c = None \<Longrightarrow> fs_cached s k = Some v \<Longrightarrow> flight_step s (goes c (Served v) s)"
| join: "tget (fs_callers s) c = None \<Longrightarrow> fs_cached s k = None \<Longrightarrow> tget (fs_gates s) k = Some i \<Longrightarrow>
    flight_step s (goes c (Waiting k i) s)"
| gate: "tget (fs_callers s) c = None \<Longrightarrow> fs_cached s k = None \<Longrightarrow> tget (fs_gates s) k = None \<Longrightarrow>
    flight_step s (goes c (Waiting k (fs_fresh s))
      (s\<lparr>fs_gates := tput k (fs_fresh s) (fs_gates s), fs_fresh := Suc (fs_fresh s)\<rparr>))"
| filled: "tget (fs_callers s) c = Some (Waiting k i) \<Longrightarrow> lock_free i s \<Longrightarrow> fs_cached s k = Some v \<Longrightarrow>
    flight_step s (goes c (Leaving k i v) s)"
| fetch: "tget (fs_callers s) c = Some (Waiting k i) \<Longrightarrow> lock_free i s \<Longrightarrow> fs_cached s k = None \<Longrightarrow>
    flight_step s (goes c (Fetching k i) s)"
| fetched: "tget (fs_callers s) c = Some (Fetching k i) \<Longrightarrow> entry = fs_cached s k \<or> entry = Some v \<Longrightarrow>
    flight_step s (goes c (Leaving k i v) (s\<lparr>fs_cached := (fs_cached s)(k := entry)\<rparr>))"
| leaves: "tget (fs_callers s) c = Some (Leaving k i v) \<Longrightarrow>
    flight_step s (goes c (Parting k i v) (if only_holder c i s then s\<lparr>fs_gates := tdel k (fs_gates s)\<rparr> else s))"
| parts: "tget (fs_callers s) c = Some (Parting k i v) \<Longrightarrow> flight_step s (goes c (Served v) s)"
| dropped: "flight_step s (s\<lparr>fs_callers := tdel c (fs_callers s)\<rparr>)"
| lapses: "flight_step s (s\<lparr>fs_cached := cached\<rparr>)"

definition no_flight :: "('k \<Rightarrow> 'v option) \<Rightarrow> ('k, 'v) flight_state" where
  "no_flight cached = \<lparr>fs_gates = [], fs_fresh = 0, fs_callers = [], fs_cached = cached\<rparr>"

abbreviation in_flight :: "('k \<Rightarrow> 'v option) \<Rightarrow> ('k, 'v) flight_state \<Rightarrow> bool" where
  "in_flight cached \<equiv> flight_step\<^sup>*\<^sup>* (no_flight cached)"

text \<open>Gates are distinct, whoever waits, fetches or leaves has its key's gate of now, and a gate's lock has one owner.\<close>

fun bound :: "('k, 'v) caller_phase \<Rightarrow> ('k \<times> nat) option" where
  "bound (Waiting k i) = Some (k, i)"
| "bound (Fetching k i) = Some (k, i)"
| "bound (Leaving k i v) = Some (k, i)"
| "bound (Parting k i v) = None"
| "bound (Served v) = None"

definition gates_ok :: "('k, nat) hmap \<Rightarrow> nat \<Rightarrow> bool" where
  "gates_ok m n \<longleftrightarrow> tok m \<and> (\<forall>k i. tget m k = Some i \<longrightarrow> i < n) \<and>
     (\<forall>k k' i. tget m k = Some i \<longrightarrow> tget m k' = Some i \<longrightarrow> k = k')"

definition bound_ok :: "('k, nat) hmap \<Rightarrow> (nat, ('k, 'v) caller_phase) hmap \<Rightarrow> bool" where
  "bound_ok m cs \<longleftrightarrow> (\<forall>c p k i. tget cs c = Some p \<longrightarrow> bound p = Some (k, i) \<longrightarrow> tget m k = Some i)"

definition mutex_ok :: "(nat, ('k, 'v) caller_phase) hmap \<Rightarrow> bool" where
  "mutex_ok cs \<longleftrightarrow> (\<forall>c d k k' i. tget cs c = Some (Fetching k i) \<longrightarrow> tget cs d = Some (Fetching k' i) \<longrightarrow> c = d)"

definition flight_ok :: "('k, 'v) flight_state \<Rightarrow> bool" where
  "flight_ok s \<longleftrightarrow> gates_ok (fs_gates s) (fs_fresh s) \<and> tok (fs_callers s) \<and>
     bound_ok (fs_gates s) (fs_callers s) \<and> mutex_ok (fs_callers s)"

lemma goes_simps [simp]:
  "fs_gates (goes c p s) = fs_gates s" "fs_fresh (goes c p s) = fs_fresh s" "fs_cached (goes c p s) = fs_cached s"
  "fs_callers (goes c p s) = tput c p (fs_callers s)"
  by (simp_all add: goes_def)

lemma gates_ok_new: "gates_ok m n \<Longrightarrow> gates_ok (tput k n m) (Suc n)"
  unfolding gates_ok_def by (auto simp: less_SucI)

lemma gates_ok_del: "gates_ok m n \<Longrightarrow> gates_ok (tdel k m) n"
  unfolding gates_ok_def by (auto split: if_splits)

lemma bound_ok_put:
  "bound_ok m cs \<Longrightarrow> (\<And>k i. bound p = Some (k, i) \<Longrightarrow> tget m k = Some i) \<Longrightarrow> bound_ok m (tput c p cs)"
  unfolding bound_ok_def by (simp split: if_splits)

lemma bound_ok_get: "bound_ok m cs \<Longrightarrow> tget cs c = Some p \<Longrightarrow> bound p = Some (k, i) \<Longrightarrow> tget m k = Some i"
  unfolding bound_ok_def by blast

lemma bound_held: "bound p = Some (k, i) \<Longrightarrow> gate_held p = Some i"
  by (cases p) auto

lemma mutex_ok_put: "mutex_ok cs \<Longrightarrow> (\<And>k i. p \<noteq> Fetching k i) \<Longrightarrow> mutex_ok (tput c p cs)"
  unfolding mutex_ok_def by (simp split: if_splits)

lemmas flight_ok_rules = bound_ok_put mutex_ok_put gates_ok_new gates_ok_del

lemma flight_step_ok: "flight_step s s' \<Longrightarrow> flight_ok s \<Longrightarrow> flight_ok s'"
proof (induction rule: flight_step.induct)
  case (gate s c k)
  moreover have "bound_ok (tput k (fs_fresh s) (fs_gates s)) (fs_callers s)"
    using gate unfolding flight_ok_def bound_ok_def by (simp) (metis option.distinct(1))
  ultimately show ?case by (auto simp: flight_ok_def intro!: flight_ok_rules)
next
  case (fetch s c k i)
  then have "bound_ok (fs_gates s) (tput c (Fetching k i) (fs_callers s))"
    unfolding flight_ok_def by (intro bound_ok_put) (auto dest: bound_ok_get)
  moreover have "mutex_ok (tput c (Fetching k i) (fs_callers s))"
    using fetch unfolding flight_ok_def mutex_ok_def lock_free_def by (simp split: if_splits) metis
  ultimately show ?case using fetch by (simp add: flight_ok_def)
next
  case (leaves s c k i v)
  show ?case
  proof (cases "only_holder c i s")
    case True
    have "bound_ok (tdel k (fs_gates s)) (tput c (Parting k i v) (fs_callers s))"
      unfolding bound_ok_def
    proof (intro allI impI)
      fix d p k' i'
      assume p: "tget (tput c (Parting k i v) (fs_callers s)) d = Some p" "bound p = Some (k', i')"
      then have d: "d \<noteq> c" "tget (fs_callers s) d = Some p" by (auto split: if_splits)
      then have "tget (fs_gates s) k' = Some i'" "tget (fs_gates s) k = Some i"
        using leaves p by (auto simp: flight_ok_def dest: bound_ok_get)
      moreover have "i' \<noteq> i" using True d p by (auto simp: only_holder_def dest: bound_held)
      ultimately show "tget (tdel k (fs_gates s)) k' = Some i'"
        using leaves by (auto simp: flight_ok_def gates_ok_def)
    qed
    with leaves True show ?thesis by (auto simp: flight_ok_def intro!: mutex_ok_put gates_ok_del)
  qed (use leaves in \<open>auto simp: flight_ok_def intro!: flight_ok_rules\<close>)
next
  case (dropped s c)
  then have "bound_ok (fs_gates s) (tdel c (fs_callers s))" "mutex_ok (tdel c (fs_callers s))"
    unfolding flight_ok_def bound_ok_def mutex_ok_def by (simp_all split: if_splits)
  with dropped show ?case by (simp add: flight_ok_def)
qed (auto simp: flight_ok_def intro!: flight_ok_rules dest: bound_ok_get)

lemma in_flight_ok: "in_flight cached s \<Longrightarrow> flight_ok s"
proof (induction rule: rtranclp_induct)
  case base
  then show ?case by (simp add: no_flight_def flight_ok_def gates_ok_def bound_ok_def mutex_ok_def)
qed (rule flight_step_ok)

text \<open>C25 (one_fetch). However callers come, wait, fetch, fail, give up or leave, and however the cache fills and lapses, at most
  one of them is asking Discord about a key at any moment; all who queue for a key queue at one gate, and one
  whose gate is locked is waiting for a fetch of its own key and of no other.\<close>

theorem one_fetch:
  assumes "in_flight cached s"
  shows "(tget (fs_callers s) c = Some (Fetching k i) \<longrightarrow> tget (fs_callers s) d = Some (Fetching k j) \<longrightarrow> c = d) \<and>
    (tget (fs_callers s) c = Some (Waiting k i) \<longrightarrow> tget (fs_callers s) d = Some (Waiting k j) \<longrightarrow> i = j) \<and>
    (tget (fs_callers s) c = Some (Waiting k i) \<longrightarrow> \<not> lock_free i s \<longrightarrow> (\<exists>e. tget (fs_callers s) e = Some (Fetching k i)))"
proof -
  have gates: "gates_ok (fs_gates s) (fs_fresh s)" and bounds: "bound_ok (fs_gates s) (fs_callers s)"
    and mutex: "mutex_ok (fs_callers s)" using in_flight_ok [OF assms] by (simp_all add: flight_ok_def)
  have at: "tget (fs_gates s) k = Some i" if "tget (fs_callers s) c = Some p" "bound p = Some (k, i)" for c p k i
    using bound_ok_get [OF bounds that] .
  show ?thesis
  proof (intro conjI impI)
    assume f: "tget (fs_callers s) c = Some (Fetching k i)" "tget (fs_callers s) d = Some (Fetching k j)"
    with at [OF f(1), of k i] at [OF f(2), of k j] mutex show "c = d" by (auto simp: mutex_ok_def)
  next
    assume w: "tget (fs_callers s) c = Some (Waiting k i)" "tget (fs_callers s) d = Some (Waiting k j)"
    with at [OF w(1), of k i] at [OF w(2), of k j] show "i = j" by simp
  next
    assume w: "tget (fs_callers s) c = Some (Waiting k i)" and "\<not> lock_free i s"
    then obtain e k' where e: "tget (fs_callers s) e = Some (Fetching k' i)" by (auto simp: lock_free_def)
    with at [OF w, of k i] at [OF e, of k' i] gates have "k' = k" by (auto simp: gates_ok_def)
    with e show "\<exists>e. tget (fs_callers s) e = Some (Fetching k i)" by blast
  qed
qed

text \<open>Two callers at one gate, the first one fetching.\<close>

definition cold :: "u64 \<Rightarrow> string option" where
  "cold = (\<lambda>_. None)"

definition herd :: "(u64, string) flight_state" where
  "herd = goes 0 (Fetching 7 0) (goes 1 (Waiting 7 0) (goes 0 (Waiting 7 0)
     ((no_flight cold)\<lparr>fs_gates := tput 7 0 [], fs_fresh := Suc 0\<rparr>)))"

lemma herd_reached: "in_flight cold herd"
proof -
  let ?s1 = "goes 0 (Waiting 7 0) ((no_flight cold)\<lparr>fs_gates := tput 7 0 [], fs_fresh := Suc 0\<rparr>) :: (u64, string) flight_state"
  let ?s2 = "goes 1 (Waiting 7 0) ?s1"
  have 1: "flight_step (no_flight cold) ?s1"
    using flight_step.gate [of "no_flight cold" 0 7] by (simp add: no_flight_def cold_def)
  have 2: "flight_step ?s1 ?s2"
    by (rule flight_step.join) (simp_all add: no_flight_def cold_def)
  have 3: "flight_step ?s2 herd"
    unfolding herd_def by (rule flight_step.fetch) (auto simp: no_flight_def cold_def lock_free_def split: if_splits)
  from 1 2 3 show ?thesis by (meson rtranclp.rtrancl_into_rtrancl rtranclp.rtrancl_refl)
qed

theorem one_fetch_witness:
  "tget (fs_callers herd) 1 = Some (Waiting 7 0) \<and> \<not> lock_free 0 herd \<and>
   (\<exists>e. tget (fs_callers herd) e = Some (Fetching 7 0))"
proof -
  have "tget (fs_callers herd) 1 = Some (Waiting 7 0)" "tget (fs_callers herd) 0 = Some (Fetching 7 0)"
    by (simp_all add: herd_def)
  moreover from this have "\<not> lock_free 0 herd" by (auto simp: lock_free_def)
  ultimately show ?thesis using one_fetch [OF herd_reached, of 1 7 0] by blast
qed

text \<open>
  The count is taken under the map's lock, and a clone is dropped outside it: a caller that has looked and found
  another one there still holds its own clone when that other one looks. Then neither removes the gate, and it
  stays in the map with nobody at it.
\<close>

definition both_parting :: "(u64, string) flight_state" where
  "both_parting = goes 1 (Parting 7 0 ''n'') (goes 0 (Parting 7 0 ''n'') (goes 1 (Leaving 7 0 ''n'')
     (goes 0 (Leaving 7 0 ''n'') (herd\<lparr>fs_cached := (fs_cached herd)(7 := Some ''n'')\<rparr>))))"

lemma gate_outlives_callers:
  "\<exists>s. flight_step\<^sup>*\<^sup>* herd s \<and> tget (fs_gates s) 7 = Some 0 \<and> (\<forall>c p. tget (fs_callers s) c = Some p \<longrightarrow> gate_held p = None)"
proof -
  let ?f = "goes 0 (Leaving 7 0 ''n'') (herd\<lparr>fs_cached := (fs_cached herd)(7 := Some ''n'')\<rparr>)"
  let ?l = "goes 1 (Leaving 7 0 ''n'') ?f"
  let ?a = "goes 0 (Parting 7 0 ''n'') ?l"
  have 1: "flight_step herd ?f" by (rule flight_step.fetched) (simp_all add: herd_def)
  have 2: "flight_step ?f ?l"
    by (rule flight_step.filled) (auto simp: herd_def lock_free_def no_flight_def split: if_splits)
  have "tget (fs_callers ?l) 1 = Some (Leaving 7 0 ''n'')" "tget (fs_callers ?a) 0 = Some (Parting 7 0 ''n'')" by simp_all
  then have "\<not> only_holder 0 0 ?l" "\<not> only_holder 1 0 ?a"
    unfolding only_holder_def by (metis gate_held.simps(3,4) zero_neq_one)+
  then have 3: "flight_step ?l ?a" and 4: "flight_step ?a both_parting"
    using flight_step.leaves [of ?l 0 7 0 "''n''"] flight_step.leaves [of ?a 1 7 0 "''n''"]
    by (simp_all add: both_parting_def)
  have 5: "flight_step both_parting (goes 0 (Served ''n'') both_parting)"
    by (rule flight_step.parts [of _ _ 7 0]) (simp add: both_parting_def)
  have 6: "flight_step (goes 0 (Served ''n'') both_parting) (goes 1 (Served ''n'') (goes 0 (Served ''n'') both_parting))"
    by (rule flight_step.parts [of _ _ 7 0]) (simp add: both_parting_def)
  have "flight_step\<^sup>*\<^sup>* herd (goes 1 (Served ''n'') (goes 0 (Served ''n'') both_parting))"
    using 1 2 3 4 5 6 by (meson rtranclp.rtrancl_into_rtrancl rtranclp.rtrancl_refl)
  moreover have "tget (fs_gates (goes 1 (Served ''n'') (goes 0 (Served ''n'') both_parting))) 7 = Some 0"
    by (simp add: both_parting_def herd_def)
  moreover have "\<forall>c p. tget (fs_callers (goes 1 (Served ''n'') (goes 0 (Served ''n'') both_parting))) c = Some p \<longrightarrow> gate_held p = None"
    by (auto simp: both_parting_def herd_def no_flight_def split: if_splits)
  ultimately show ?thesis by blast
qed

end
