(* ===== verification/Gateway.thy ===== *)
theory Gateway
  imports Standing RoleCache
begin

section \<open>The Discord bot: \<open>crates/coordinator/src/commands.rs\<close>\<close>

text \<open>
  Slash commands and member events. An interaction is what Discord's payload says of its guild, its member's two
  permissions the code looks at, its author, and its nested options; a \<open>bot_reply\<close> stands for the text of the
  response. The coordinator is the handlers' shared state and the caches of its role source.
\<close>

datatype option_value =
    OptRole u64
  | OptString string
  | OptSub "(string \<times> option_value) list"
  | OptGroup "(string \<times> option_value) list"
  | OptOther

type_synonym options = "(string \<times> option_value) list"

record permissions =
  may_manage_guild :: bool
  may_administrate :: bool

record interaction =
  ia_guild :: "u64 option"
  ia_member :: "permissions option option"
  ia_author :: "u64 option"
  ia_data :: "(string \<times> options) option"

datatype bot_reply =
    UseInServer
  | UnknownCommand
  | UnknownSub
  | NeedManage
  | NoUser
  | StoreSays store_error
  | EnrollKey string
  | NoDevices
  | DeviceLines "(string \<times> bool) list"
  | MissingDevice
  | NoSuchDevice string
  | ManyDevices string
  | PrimaryIs string
  | MissingRole
  | EveryoneRefused
  | Registered u64 string
  | Unregistered u64
  | NoNetworks
  | NetworkLines "(u64 \<times> string) list"

definition is_admin :: "interaction \<Rightarrow> bool" where
  "is_admin ia = (case ia_member ia of Some (Some p) \<Rightarrow> may_manage_guild p \<or> may_administrate p | _ \<Rightarrow> False)"

fun subcommand :: "options \<Rightarrow> (string \<times> options) option" where
  "subcommand ((name, OptSub opts) # rest) = Some (name, opts)"
| "subcommand subs = None"

fun role_opt :: "options \<Rightarrow> u64 option" where
  "role_opt [] = None"
| "role_opt ((n, OptRole r) # opts) = Some r"
| "role_opt (opt # opts) = role_opt opts"

fun device_opt :: "options \<Rightarrow> string option" where
  "device_opt [] = None"
| "device_opt ((n, OptString s) # opts) = Some (sanitize_label s)"
| "device_opt (opt # opts) = device_opt opts"

definition handle_primary :: "u64 \<Rightarrow> options \<Rightarrow> app \<Rightarrow> bot_reply \<times> app" where
  "handle_primary u subs st =
     (case subcommand subs of
        None \<Rightarrow> (UnknownSub, st)
      | Some (name, opts) \<Rightarrow>
          (case user_devices (a_store st) u of
             Inl e \<Rightarrow> (StoreSays e, st)
           | Inr devs \<Rightarrow>
               if devs = [] then (NoDevices, st)
               else let primary = (case primary_pubkey (a_store st) u of Inl _ \<Rightarrow> None | Inr p \<Rightarrow> p)
                    in if name = ''list'' then (DeviceLines (map (\<lambda>(pk, n). (n, primary = Some pk)) devs), st)
                       else if name = ''set'' then
                         (case device_opt opts of
                            None \<Rightarrow> (MissingDevice, st)
                          | Some want \<Rightarrow>
                              (case match_device_by_name devs want of
                                 NoMatch \<Rightarrow> (NoSuchDevice want, st)
                               | One pk \<Rightarrow> (PrimaryIs want, set_store (set_primary u pk (a_store st)) st)
                               | Many \<Rightarrow> (ManyDevices want, st)))
                       else (UnknownSub, st)))"

text \<open>\<open>role_text\<close> is the fallback \<open>role-{id}\<close> of a role whose name cannot be had.\<close>

definition role_text :: "u64 \<Rightarrow> string" where
  "role_text r = ''role-'' @ dec (unat r)"

definition handle_network :: "u64 \<Rightarrow> options \<Rightarrow> app \<Rightarrow> bot_reply \<times> app" where
  "handle_network g subs st =
     (case subcommand subs of
        None \<Rightarrow> (UnknownSub, st)
      | Some (name, opts) \<Rightarrow>
          if name = ''add'' then
            (case role_opt opts of
               None \<Rightarrow> (MissingRole, st)
             | Some r \<Rightarrow>
                 if r = g then (EveryoneRefused, st)
                 else let label = (case ro_role_name (a_roles st) g r of Some n \<Rightarrow> n | None \<Rightarrow> role_text r);
                          st' = set_store (upsert_network g r label (a_store st)) st
                      in (Registered r label, st'\<lparr>a_versions := bump (Guild g) (a_versions st')\<rparr>))
          else if name = ''remove'' then
            (case role_opt opts of
               None \<Rightarrow> (MissingRole, st)
             | Some r \<Rightarrow>
                 let st' = set_store (remove_network g r (a_store st)) st
                 in (Unregistered r, st'\<lparr>a_versions := bump (Guild g) (a_versions st')\<rparr>))
          else if name = ''list'' then
            (let nets = networks_in_guild (a_store st) g
             in if nets = [] then (NoNetworks, st)
                else (NetworkLines (map (\<lambda>n. (n_role_id n, n_name n)) nets), st))
          else (UnknownSub, st))"

text \<open>\<open>key\<close> is the drawn enrollment key and \<open>now\<close> the time.\<close>

definition process :: "string \<Rightarrow> u64 \<Rightarrow> interaction \<Rightarrow> options \<Rightarrow> app \<Rightarrow> bot_reply \<times> app" where
  "process key now ia opts st =
     (case ia_guild ia of
        None \<Rightarrow> (UseInServer, st)
      | Some g \<Rightarrow>
          (case opts of
             [] \<Rightarrow> (UnknownCommand, st)
           | (name, v) # _ \<Rightarrow>
               (case v of
                  OptGroup subs \<Rightarrow>
                    if name = ''network'' then
                      if \<not> is_admin ia then (NeedManage, st) else handle_network g subs st
                    else if name = ''primary'' then
                      (case ia_author ia of None \<Rightarrow> (NoUser, st) | Some u \<Rightarrow> handle_primary u subs st)
                    else (UnknownCommand, st)
                | OptSub _ \<Rightarrow>
                    if name = ''enroll'' then
                      (case ia_author ia of
                         None \<Rightarrow> (NoUser, st)
                       | Some u \<Rightarrow> (EnrollKey key,
                           set_store (create_enrollment_key key u (Some (now + ENROLLMENT_KEY_TTL_SECS)) (a_store st)) st))
                    else (UnknownCommand, st)
                | _ \<Rightarrow> (UnknownCommand, st))))"

definition handle_interaction :: "string \<Rightarrow> u64 \<Rightarrow> interaction \<Rightarrow> app \<Rightarrow> bot_reply option \<times> app" where
  "handle_interaction key now ia st =
     (case ia_data ia of
        None \<Rightarrow> (None, st)
      | Some (name, opts) \<Rightarrow>
          if name \<noteq> ''unitylan'' then (None, st)
          else let (a, st') = process key now ia opts st in (Some a, st'))"

subsection \<open>Member events\<close>

record coordinator =
  co_app :: app
  co_caches :: role_caches

fun revoke_loop :: "u64 \<Rightarrow> u64 \<Rightarrow> u64 list \<Rightarrow> network list \<Rightarrow> presence \<Rightarrow> bool \<times> presence" where
  "revoke_loop g u held [] p = (False, p)"
| "revoke_loop g u held (n # ns) p =
     (if n_role_id n \<in> set held then revoke_loop g u held ns p
      else let (b, p1) = evict_user g (n_role_id n) u p; (b', p2) = revoke_loop g u held ns p1 in (b \<or> b', p2))"

definition revoke :: "u64 \<Rightarrow> u64 \<Rightarrow> u64 list \<Rightarrow> coordinator \<Rightarrow> coordinator" where
  "revoke g u held co =
     (let st = co_app co;
          (changed, p) = revoke_loop g u held (networks_in_guild (a_store st) g) (a_presence st);
          st' = st\<lparr>a_presence := p\<rparr>
      in \<lparr>co_app = (if changed then st'\<lparr>a_versions := bump (Guild g) (a_versions st')\<rparr> else st'),
          co_caches = src_forget g u (co_caches co)\<rparr>)"

definition forget_roleless :: "u64 \<Rightarrow> coordinator \<Rightarrow> coordinator" where
  "forget_roleless u co = co\<lparr>co_app := (co_app co)\<lparr>a_roleless := memo_forget u (a_roleless (co_app co))\<rparr>\<rparr>"

text \<open>The events, and the flags the shard is asked for; \<open>GuildCreate\<close> only registers the commands with Discord.\<close>

datatype gateway_event =
    GuildCreate u64
  | InteractionCreate string u64 interaction
  | MemberAdd u64 u64
  | MemberUpdate u64 u64 "u64 list"
  | MemberRemove u64 u64
  | OtherEvent

fun subscribed :: "gateway_event \<Rightarrow> bool" where
  "subscribed (GuildCreate g) = True"
| "subscribed (InteractionCreate key now ia) = True"
| "subscribed (MemberUpdate g u roles) = True"
| "subscribed (MemberRemove g u) = True"
| "subscribed (MemberAdd g u) = False"
| "subscribed OtherEvent = False"

fun handle_event :: "gateway_event \<Rightarrow> coordinator \<Rightarrow> coordinator" where
  "handle_event (GuildCreate g) co = co"
| "handle_event (InteractionCreate key now ia) co = co\<lparr>co_app := snd (handle_interaction key now ia (co_app co))\<rparr>"
| "handle_event (MemberAdd g u) co =
     (let co' = forget_roleless u co in co'\<lparr>co_caches := src_forget g u (co_caches co')\<rparr>)"
| "handle_event (MemberUpdate g u roles) co = revoke g u roles (forget_roleless u co)"
| "handle_event (MemberRemove g u) co = revoke g u [] (forget_roleless u co)"
| "handle_event OtherEvent co = co"

text \<open>\<open>next_event(flags)\<close> passes over an event that was not asked for.\<close>

definition gateway_turn :: "gateway_event \<Rightarrow> coordinator \<Rightarrow> coordinator" where
  "gateway_turn e co = (if subscribed e then handle_event e co else co)"

subsection \<open>What an event changes\<close>

definition registered :: "store \<Rightarrow> u64 \<Rightarrow> u64 \<Rightarrow> bool" where
  "registered s g r \<longleftrightarrow> tget (networks s) (g, r) \<noteq> None"

text \<open>An interaction changes no presence and no role source; it changes the registry only by a registration or its removal.\<close>

datatype registry_change = Unchanged | Adds u64 u64 string | Drops u64 u64

fun registry_of :: "registry_change \<Rightarrow> store \<Rightarrow> store" where
  "registry_of Unchanged s = s"
| "registry_of (Adds g r n) s = upsert_network g r n s"
| "registry_of (Drops g r) s = remove_network g r s"

lemma store_tables [simp]:
  "networks (set_primary u pk s) = networks s" "networks (create_enrollment_key k u e s) = networks s"
  "networks (upsert_network g r n s) = tput (g, r) n (networks s)" "networks (remove_network g r s) = tdel (g, r) (networks s)"
  by (simp_all add: set_primary_def create_enrollment_key_def Let_def upsert_network_def remove_network_def)

lemma handle_primary_app:
  "handle_primary u subs st = (a, st') \<Longrightarrow> st' = st \<or> (\<exists>pk. st' = set_store (set_primary u pk (a_store st)) st)"
  by (auto simp: handle_primary_def Let_def split: option.splits sum.splits prod.splits device_match.splits if_splits)

lemma handle_network_app:
  assumes "handle_network g subs st = (a, st')"
  shows "st' = st \<or> (\<exists>r n. r \<noteq> g \<and> st' = (set_store (upsert_network g r n (a_store st)) st)\<lparr>a_versions := bump (Guild g) (a_versions st)\<rparr>) \<or>
    (\<exists>r. st' = (set_store (remove_network g r (a_store st)) st)\<lparr>a_versions := bump (Guild g) (a_versions st)\<rparr>)"
  using assms
  by (auto simp: handle_network_def Let_def split: option.splits prod.splits if_splits)

definition same_registry :: "app \<Rightarrow> app \<Rightarrow> bool" where
  "same_registry st st' \<longleftrightarrow> (\<exists>s. st' = set_store s st \<and> networks s = networks (a_store st))"

lemma same_registry_intros [intro, simp]:
  "same_registry st st"
  "networks s = networks (a_store st) \<Longrightarrow> same_registry st (set_store s st)"
  unfolding same_registry_def by (metis set_store_simps(11)) blast

lemma handle_primary_registry: "same_registry st (snd (handle_primary u subs st))"
  using handle_primary_app [of u subs st] by (cases "handle_primary u subs st") fastforce

lemma process_app:
  assumes "process key now ia opts st = (a, st')"
  shows "(\<exists>g subs. ia_guild ia = Some g \<and> is_admin ia \<and> handle_network g subs st = (a, st')) \<or> same_registry st st'"
proof (cases "ia_guild ia")
  case None
  with assms show ?thesis by (simp add: process_def)
next
  case (Some g)
  show ?thesis
  proof (cases opts)
    case Nil
    with Some assms show ?thesis by (simp add: process_def)
  next
    case (Cons opt rest)
    obtain name v where opt: "opt = (name, v)" by fastforce
    have primary: "same_registry st st'" if "handle_primary u subs st = (a, st')" for u subs
      using handle_primary_registry [of st u subs] that by simp
    from assms Some Cons opt show ?thesis
      by (cases v) (auto simp: process_def primary split: if_splits option.splits)
  qed
qed

lemma interaction_presence: "a_presence (snd (handle_interaction key now ia st)) = a_presence st"
proof -
  have "a_presence st' = a_presence st" if "process key now ia opts st = (a, st')" for opts a st'
    using process_app [OF that] by (auto simp: same_registry_def dest!: handle_network_app)
  then show ?thesis
    by (cases "process key now ia (snd (the (ia_data ia))) st") (auto simp: handle_interaction_def split: option.split prod.splits)
qed

text \<open>C11 (registry_guarded). Whatever a slash command carries, the registry of networks changes only by the command of a member
  with Manage Server or Administrator, only in the guild it was sent from, by one registration (never of \<open>@everyone\<close>)
  or one removal, and then exactly that guild's clients are woken; presence and the role source stay as they are.\<close>

theorem registry_guarded:
  assumes "handle_interaction key now ia st = (a, st')"
  shows "a_presence st' = a_presence st \<and> a_roles st' = a_roles st \<and>
    (networks (a_store st') \<noteq> networks (a_store st) \<longrightarrow>
       (\<exists>g r. ia_guild ia = Some g \<and> is_admin ia \<and> a_versions st' = bump (Guild g) (a_versions st) \<and>
          ((\<exists>n. r \<noteq> g \<and> networks (a_store st') = tput (g, r) n (networks (a_store st))) \<or>
           networks (a_store st') = tdel (g, r) (networks (a_store st)))))"
proof (cases "ia_data ia")
  case None
  with assms show ?thesis by (simp add: handle_interaction_def)
next
  case (Some d)
  show ?thesis
  proof (cases "fst d = ''unitylan''")
    case True
    with Some assms obtain a' where "process key now ia (snd d) st = (a', st')"
      by (auto simp: handle_interaction_def split: prod.splits)
    then consider g subs where "ia_guild ia = Some g" "is_admin ia" "handle_network g subs st = (a', st')"
      | "same_registry st st'"
      using process_app by blast
    then show ?thesis
    proof cases
      case 1
      with handle_network_app [OF 1(3)] show ?thesis by (elim disjE exE conjE) (auto simp: set_store_def)
    next
      case 2
      then show ?thesis by (auto simp: same_registry_def)
    qed
  qed (use Some assms in \<open>auto simp: handle_interaction_def split: prod.splits\<close>)
qed

definition demo_command :: "bool \<Rightarrow> interaction" where
  "demo_command admin = \<lparr>ia_guild = Some 1, ia_member = Some (Some \<lparr>may_manage_guild = admin, may_administrate = False\<rparr>),
     ia_author = Some 7, ia_data = Some (''unitylan'', [(''network'', OptGroup [(''add'', OptSub [(''role'', OptRole 3)])])])\<rparr>"

lemma registry_guarded_witness:
  "networks (a_store (snd (handle_interaction [] 0 (demo_command True) (demo_app empty_store)))) \<noteq> [] \<and>
   networks (a_store (snd (handle_interaction [] 0 (demo_command False) (demo_app empty_store)))) = []"
proof
  show "networks (a_store (snd (handle_interaction [] 0 (demo_command True) (demo_app empty_store)))) \<noteq> []"
    by (simp add: handle_interaction_def demo_command_def process_def is_admin_def handle_network_def Let_def demo_app_def demo_roles_def
        tput_def)
next
  obtain a st' where run: "handle_interaction [] 0 (demo_command False) (demo_app empty_store) = (a, st')" by fastforce
  have "\<not> is_admin (demo_command False)" by (simp add: is_admin_def demo_command_def)
  with registry_guarded [OF run] have "networks (a_store st') = networks (a_store (demo_app empty_store))" by blast
  with run show "networks (a_store (snd (handle_interaction [] 0 (demo_command False) (demo_app empty_store)))) = []"
    by (simp add: empty_store_def)
qed

subsection \<open>Revocation\<close>

lemma evict_user_view:
  assumes "presence_ok p" "evict_user g r u p = (b, p')"
  shows "presence_ok p'" and
    "guild_view p' g' r' pk = (case guild_view p g' r' pk of None \<Rightarrow> None
       | Some mp \<Rightarrow> if g' = g \<and> r' = r \<and> mp_user_id mp = u then None else Some mp)" and
    "b \<longleftrightarrow> (\<exists>pk mp. guild_view p g r pk = Some mp \<and> mp_user_id mp = u)"
    and "user_view p' v pk = user_view p v pk"
proof -
  let ?P = "\<lambda>(g', r', pk) e. \<not> (g' = g \<and> r' = r \<and> mp_user_id (e_p e) = u)"
  have p': "p' = p\<lparr>pr_map := tkeep ?P (pr_map p)\<rparr>" and b: "b = (length (tkeep ?P (pr_map p)) \<noteq> length (pr_map p))"
    using assms(2) by (auto simp: evict_user_def Let_def)
  have tok: "tok (pr_map p)" using assms(1) by (simp add: presence_ok_def)
  show "presence_ok p'" using evuser.keeps_ok [OF assms(1), of g r u] assms(2) by (simp add: op_evict_user_def)
  show "guild_view p' g' r' pk = (case guild_view p g' r' pk of None \<Rightarrow> None
       | Some mp \<Rightarrow> if g' = g \<and> r' = r \<and> mp_user_id mp = u then None else Some mp)"
    by (auto simp: p' guild_view_def tget_tkeep [OF tok] split: option.split)
  show "user_view p' v pk = user_view p v pk" by (simp add: p' user_view_def)
  show "b \<longleftrightarrow> (\<exists>pk mp. guild_view p g r pk = Some mp \<and> mp_user_id mp = u)"
  proof
    assume b
    then obtain k e where "(k, e) \<in> set (pr_map p)" "\<not> ?P k e"
      unfolding b tkeep_def by (metis (mono_tags, lifting) case_prodI2 filter_True)
    then show "\<exists>pk mp. guild_view p g r pk = Some mp \<and> mp_user_id mp = u"
      by (cases k) (force simp: guild_view_def dest!: tget_SomeI [OF tok])
  next
    assume "\<exists>pk mp. guild_view p g r pk = Some mp \<and> mp_user_id mp = u"
    then obtain pk e where "tget (pr_map p) (g, r, pk) = Some e" "mp_user_id (e_p e) = u" by (auto simp: guild_view_def)
    then have "tget (tkeep ?P (pr_map p)) (g, r, pk) \<noteq> tget (pr_map p) (g, r, pk)" by (simp add: tget_tkeep [OF tok])
    then show b unfolding b using tkeep_length_eq by metis
  qed
qed

text \<open>The member's entries in the guild's registered networks whose role is not held go; nothing else does.\<close>

definition lost :: "store \<Rightarrow> u64 \<Rightarrow> u64 \<Rightarrow> u64 list \<Rightarrow> u64 \<Rightarrow> u64 \<Rightarrow> member_presence \<Rightarrow> bool" where
  "lost s g u held g' r mp \<longleftrightarrow> g' = g \<and> mp_user_id mp = u \<and> registered s g r \<and> r \<notin> set held"

lemma revoke_loop_views:
  assumes "presence_ok p" "revoke_loop g u held ns p = (ch, p')"
  shows "presence_ok p' \<and> user_view p' v = user_view p v \<and>
    guild_view p' g' r pk = (case guild_view p g' r pk of None \<Rightarrow> None
       | Some mp \<Rightarrow> if g' = g \<and> mp_user_id mp = u \<and> r \<in> n_role_id ` set ns \<and> r \<notin> set held then None else Some mp) \<and>
    (ch \<longleftrightarrow> (\<exists>r pk mp. guild_view p g r pk = Some mp \<and> mp_user_id mp = u \<and> r \<in> n_role_id ` set ns \<and> r \<notin> set held))"
  using assms
proof (induction ns arbitrary: p ch p' g' r pk)
  case Nil
  then show ?case by (auto split: option.split)
next
  case (Cons n ns)
  show ?case
  proof (cases "n_role_id n \<in> set held")
    case True
    with Cons.prems have run: "revoke_loop g u held ns p = (ch, p')" by simp
    have drop: "r \<in> n_role_id ` set (n # ns) \<and> r \<notin> set held \<longleftrightarrow> r \<in> n_role_id ` set ns \<and> r \<notin> set held" for r
      using True by auto
    show ?thesis using Cons.IH [OF Cons.prems(1) run] unfolding drop .
  next
    case False
    obtain b p1 b' where e: "evict_user g (n_role_id n) u p = (b, p1)" and l: "revoke_loop g u held ns p1 = (b', p')" and ch: "ch = (b \<or> b')"
      using Cons.prems(2) False by (auto split: prod.splits)
    note ev = evict_user_view [OF Cons.prems(1) e]
    note IH = Cons.IH [OF ev(1) l]
    have ihb: "b' \<longleftrightarrow> (\<exists>r pk mp. guild_view p1 g r pk = Some mp \<and> mp_user_id mp = u \<and> r \<in> n_role_id ` set ns \<and> r \<notin> set held)"
      using IH by simp
    have "user_view p' v = user_view p v" using IH ev(4) by (simp add: fun_eq_iff)
    moreover have "guild_view p' g' r pk = (case guild_view p g' r pk of None \<Rightarrow> None
       | Some mp \<Rightarrow> if g' = g \<and> mp_user_id mp = u \<and> r \<in> n_role_id ` set (n # ns) \<and> r \<notin> set held then None else Some mp)"
      using IH False by (auto simp: ev(2) split: option.split)
    moreover have "ch \<longleftrightarrow> (\<exists>r pk mp. guild_view p g r pk = Some mp \<and> mp_user_id mp = u \<and> r \<in> n_role_id ` set (n # ns) \<and> r \<notin> set held)"
      (is "_ \<longleftrightarrow> (\<exists>r pk mp. ?gone r pk mp)")
    proof
      assume ch': ch
      show "\<exists>r pk mp. ?gone r pk mp"
      proof (cases b)
        case True
        with ev(3) obtain pk mp where "guild_view p g (n_role_id n) pk = Some mp" "mp_user_id mp = u" by blast
        with False show ?thesis by auto
      next
        case no: False
        with ch ch' have b' by simp
        then obtain r pk mp where "guild_view p1 g r pk = Some mp" "mp_user_id mp = u" "r \<in> n_role_id ` set ns" "r \<notin> set held"
          unfolding ihb by blast
        moreover from this have "guild_view p g r pk = Some mp" using ev(2) [of g r pk] by (auto split: option.splits if_splits)
        ultimately show ?thesis by auto
      qed
    next
      assume "\<exists>r pk mp. ?gone r pk mp"
      then obtain r pk mp where g: "guild_view p g r pk = Some mp" "mp_user_id mp = u" "r \<in> n_role_id ` set (n # ns)" "r \<notin> set held"
        by blast
      show ch
      proof (cases "r = n_role_id n")
        case True
        with g(1,2) have b unfolding ev(3) by blast
        with ch show ?thesis by simp
      next
        case False
        with g ev(2) [of g r pk] have "guild_view p1 g r pk = Some mp" by simp
        moreover have "r \<in> n_role_id ` set ns" using g False by auto
        ultimately have b' unfolding ihb using g(2,4) by blast
        with ch show ?thesis by simp
      qed
    qed
    ultimately show ?thesis using IH [THEN conjunct1] by blast
  qed
qed

lemma registered_networks: "r \<in> n_role_id ` set (networks_in_guild s g) \<longleftrightarrow> registered s g r"
  unfolding registered_def networks_in_guild_def set_map set_filter image_image
  by (force simp: tget_def map_of_eq_None_iff)

lemma revoke_views:
  assumes "presence_ok (a_presence (co_app co))"
  shows "presence_ok (a_presence (co_app (revoke g u held co)))" and
    "user_view (a_presence (co_app (revoke g u held co))) v = user_view (a_presence (co_app co)) v" and
    "guild_view (a_presence (co_app (revoke g u held co))) g' r pk =
       (case guild_view (a_presence (co_app co)) g' r pk of None \<Rightarrow> None
        | Some mp \<Rightarrow> if lost (a_store (co_app co)) g u held g' r mp then None else Some mp)" and
    "a_versions (co_app (revoke g u held co)) =
       (if \<exists>r pk mp. guild_view (a_presence (co_app co)) g r pk = Some mp \<and> lost (a_store (co_app co)) g u held g r mp
        then bump (Guild g) (a_versions (co_app co)) else a_versions (co_app co))" and
    "a_signing (co_app (revoke g u held co)) = a_signing (co_app co)" and
    "a_roles (co_app (revoke g u held co)) = a_roles (co_app co)" and
    "co_caches (revoke g u held co) = src_forget g u (co_caches co)"
proof -
  obtain ch p where run: "revoke_loop g u held (networks_in_guild (a_store (co_app co)) g) (a_presence (co_app co)) = (ch, p)" by fastforce
  note v = revoke_loop_views [OF assms run, unfolded registered_networks]
  have st: "a_presence (co_app (revoke g u held co)) = p"
    "a_versions (co_app (revoke g u held co)) = (if ch then bump (Guild g) (a_versions (co_app co)) else a_versions (co_app co))"
    "a_signing (co_app (revoke g u held co)) = a_signing (co_app co)" "a_roles (co_app (revoke g u held co)) = a_roles (co_app co)"
    "co_caches (revoke g u held co) = src_forget g u (co_caches co)"
    using run by (simp_all add: revoke_def Let_def)
  show "presence_ok (a_presence (co_app (revoke g u held co)))" "user_view (a_presence (co_app (revoke g u held co))) v = user_view (a_presence (co_app co)) v"
    using v by (simp_all add: st)
  show "guild_view (a_presence (co_app (revoke g u held co))) g' r pk =
       (case guild_view (a_presence (co_app co)) g' r pk of None \<Rightarrow> None
        | Some mp \<Rightarrow> if lost (a_store (co_app co)) g u held g' r mp then None else Some mp)"
    using v by (auto simp: st lost_def split: option.split)
  have "ch \<longleftrightarrow> (\<exists>r pk mp. guild_view (a_presence (co_app co)) g r pk = Some mp \<and> lost (a_store (co_app co)) g u held g r mp)"
    using v by (auto simp: lost_def)
  then show "a_versions (co_app (revoke g u held co)) =
       (if \<exists>r pk mp. guild_view (a_presence (co_app co)) g r pk = Some mp \<and> lost (a_store (co_app co)) g u held g r mp
        then bump (Guild g) (a_versions (co_app co)) else a_versions (co_app co))"
    by (simp add: st)
qed (simp_all add: revoke_def Let_def split: prod.split)

text \<open>C10 (revocation_exact). A member's role change or departure takes away exactly that member's entries in the guild's registered
  networks whose role is no longer held, and nobody else's nor any own-device entry; the guild's clients are woken
  exactly if something was taken; and what was cached of the member, and of holding nothing, is forgotten.\<close>

theorem revocation_exact:
  assumes "presence_ok (a_presence (co_app co))" "e = MemberUpdate g u held \<or> e = MemberRemove g u \<and> held = []"
  shows "guild_view (a_presence (co_app (gateway_turn e co))) g' r pk =
      (case guild_view (a_presence (co_app co)) g' r pk of None \<Rightarrow> None
       | Some mp \<Rightarrow> if lost (a_store (co_app co)) g u held g' r mp then None else Some mp) \<and>
    user_view (a_presence (co_app (gateway_turn e co))) v pk = user_view (a_presence (co_app co)) v pk \<and>
    a_versions (co_app (gateway_turn e co)) =
      (if \<exists>r pk mp. guild_view (a_presence (co_app co)) g r pk = Some mp \<and> lost (a_store (co_app co)) g u held g r mp
       then bump (Guild g) (a_versions (co_app co)) else a_versions (co_app co)) \<and>
    member_cached now g u (co_caches (gateway_turn e co)) = None \<and>
    ((g', v) \<noteq> (g, u) \<longrightarrow> member_cached now g' v (co_caches (gateway_turn e co)) = member_cached now g' v (co_caches co)) \<and>
    \<not> memo_fresh u now (a_roleless (co_app (gateway_turn e co)))"
proof -
  have turn: "gateway_turn e co = revoke g u held (forget_roleless u co)" using assms(2) by (auto simp: gateway_turn_def)
  let ?co = "forget_roleless u co"
  have same: "a_presence (co_app ?co) = a_presence (co_app co)" "a_signing (co_app ?co) = a_signing (co_app co)"
    "a_versions (co_app ?co) = a_versions (co_app co)" "co_caches ?co = co_caches co"
    by (simp_all add: forget_roleless_def)
  have "presence_ok (a_presence (co_app ?co))" using assms(1) same by simp
  note v = revoke_views [OF this, of g u held, unfolded same]
  have roleless: "a_roleless (co_app (revoke g u held ?co)) = memo_forget u (a_roleless (co_app co))"
    by (simp add: revoke_def Let_def forget_roleless_def split: prod.split)
  show ?thesis
    unfolding turn
    by (simp add: v(2-4) v(7) roleless) (simp add: member_cached_def src_forget_def memo_fresh_def memo_forget_def)
qed

lemma revocation_exact_witness:
  "guild_view (a_presence demo_member_app) 1 2 (demo_key 2) \<noteq> None \<and>
   guild_view (a_presence (co_app (gateway_turn (MemberRemove 1 7) \<lparr>co_app = demo_member_app, co_caches = new_role_caches 0\<rparr>))) 1 2 (demo_key 2) = None"
proof -
  let ?co = "\<lparr>co_app = demo_member_app, co_caches = new_role_caches 0\<rparr>"
  have ok: "presence_ok (a_presence (co_app ?co))"
    by (auto simp: presence_ok_def demo_member_app_def demo_present_def tok_def tget_def split: if_splits)
  have here: "guild_view (a_presence demo_member_app) 1 2 (demo_key 2) = Some (demo_peer 2 ''tv'')"
    by (simp add: demo_member_app_def demo_present_def guild_view_def tget_def)
  have "lost (a_store demo_member_app) 1 7 [] 1 2 (demo_peer 2 ''tv'')"
    by (simp add: lost_def demo_peer_def registered_def demo_member_app_def demo_app_def new_signing_def demo_register_store_def tget_def)
  with revocation_exact [OF ok, of "MemberRemove 1 7" 1 7 "[]" 1 2 "demo_key 2"] here show ?thesis by simp
qed

subsection \<open>The coordinator beside Discord\<close>

text \<open>
  Discord's memberships change; each change is an event the gateway will deliver, in order and none lost, and until
  then the coordinator goes on serving from its caches. A register or a device command is served through the caches
  (\<open>role_view\<close>); the lookups it makes fill them, which is a \<open>looked\<close> step before it, with Discord's bot_reply or a
  failure. Lookup and fill are one step here; \<open>late_fill\<close> shows what an event between them does. Other handlers
  read presence and do not write it.
\<close>

record world =
  w_co :: coordinator
  w_discord :: "u64 \<Rightarrow> u64 \<Rightarrow> member_roles option"
  w_events :: "gateway_event list"

definition answers :: "member_roles option \<Rightarrow> bool \<Rightarrow> member_reply" where
  "answers m reached = (if reached then (case m of Some r \<Rightarrow> IsMember r | None \<Rightarrow> NoMember) else LookupFailed)"

definition role_view ::
  "nat \<Rightarrow> (u64 \<Rightarrow> u64 \<Rightarrow> bool) \<Rightarrow> (u64 \<Rightarrow> string option) \<Rightarrow> (u64 \<Rightarrow> (u64, string) hmap option) \<Rightarrow> world \<Rightarrow> role_source" where
  "role_view now reached names roles w =
     (let c = co_caches (w_co w)
      in \<lparr>ro_guild_name = (\<lambda>g. fst (src_guild_name now (names g) g c)),
          ro_member = (\<lambda>g u. fst (src_member now (answers (w_discord w g u) (reached g u)) g u c)),
          ro_role_name = (\<lambda>g r. fst (src_role_name now (roles g) g r c))\<rparr>)"

datatype request = Opens env register_req ip | Resumes env register_req ip permit | Manages manage_req

fun serve_request :: "request \<Rightarrow> app \<Rightarrow> app" where
  "serve_request (Opens ev req ip) st = snd (register_open ev req ip st)"
| "serve_request (Resumes ev req ip p) st = snd (register_resume ev req ip p st)"
| "serve_request (Manages req) st = snd (manage req st)"

text \<open>A network registered now has nobody in it yet; \<open>readded_network\<close> shows the case left out.\<close>

definition new_networks_empty :: "app \<Rightarrow> app \<Rightarrow> bool" where
  "new_networks_empty st st' \<longleftrightarrow>
     (\<forall>g r pk. registered (a_store st') g r \<longrightarrow> registered (a_store st) g r \<or> guild_view (a_presence st) g r pk = None)"

definition with_roles :: "role_source \<Rightarrow> coordinator \<Rightarrow> coordinator" where
  "with_roles ro co = co\<lparr>co_app := (co_app co)\<lparr>a_roles := ro\<rparr>\<rparr>"

inductive world_step :: "world \<Rightarrow> world \<Rightarrow> bool" where
  joins: "w_discord w g u = None \<Longrightarrow>
    world_step w (w\<lparr>w_discord := (w_discord w)(g := (w_discord w g)(u := Some m)), w_events := w_events w @ [MemberAdd g u]\<rparr>)"
| changes: "w_discord w g u = Some m0 \<Longrightarrow>
    world_step w (w\<lparr>w_discord := (w_discord w)(g := (w_discord w g)(u := Some m)),
      w_events := w_events w @ [MemberUpdate g u (mr_role_ids m)]\<rparr>)"
| departs: "w_discord w g u = Some m0 \<Longrightarrow>
    world_step w (w\<lparr>w_discord := (w_discord w)(g := (w_discord w g)(u := None)), w_events := w_events w @ [MemberRemove g u]\<rparr>)"
| commands: "world_step w (w\<lparr>w_events := w_events w @ [InteractionCreate key now ia]\<rparr>)"
| delivered: "w_events w = e # es \<Longrightarrow> co = gateway_turn e (with_roles (role_view now reached names roles w) (w_co w)) \<Longrightarrow>
    new_networks_empty (co_app (w_co w)) (co_app co) \<Longrightarrow> world_step w (w\<lparr>w_co := co, w_events := es\<rparr>)"
| looked: "world_step w (w\<lparr>w_co := (w_co w)\<lparr>co_caches := snd (src_member now (answers (w_discord w g u) reached) g u (co_caches (w_co w)))\<rparr>\<rparr>)"
| named: "c = snd (src_guild_name now name g (co_caches (w_co w))) \<or> c = snd (src_role_name now names g r (co_caches (w_co w))) \<Longrightarrow>
    world_step w (w\<lparr>w_co := (w_co w)\<lparr>co_caches := c\<rparr>\<rparr>)"
| served: "world_step w (w\<lparr>w_co := (w_co w)\<lparr>co_app := serve_request req (co_app (with_roles (role_view now reached names roles w) (w_co w)))\<rparr>\<rparr>)"
| reaped: "reap clock PRESENCE_TTL_SECS (a_presence (co_app (w_co w))) = (ch, p) \<Longrightarrow>
    world_step w (w\<lparr>w_co := (w_co w)\<lparr>co_app := (co_app (w_co w))\<lparr>a_presence := p, a_versions := bump_all ch (a_versions (co_app (w_co w)))\<rparr>\<rparr>\<rparr>)"

definition booted :: "world \<Rightarrow> bool" where
  "booted w \<longleftrightarrow> a_presence (co_app (w_co w)) = no_presence \<and> (\<exists>now. co_caches (w_co w) = new_role_caches now) \<and> w_events w = []"

text \<open>The roles each pending event leaves a member.\<close>

fun pending :: "u64 \<Rightarrow> u64 \<Rightarrow> gateway_event list \<Rightarrow> u64 list list" where
  "pending g u [] = []"
| "pending g u (MemberUpdate g' u' held # es) = (if g' = g \<and> u' = u then held # pending g u es else pending g u es)"
| "pending g u (MemberRemove g' u' # es) = (if g' = g \<and> u' = u then [] # pending g u es else pending g u es)"
| "pending g u (e # es) = pending g u es"

lemma pending_append: "pending g u (es @ fs) = pending g u es @ pending g u fs"
  by (induction g u es rule: pending.induct) auto

definition settled :: "role_caches \<Rightarrow> app \<Rightarrow> u64 \<Rightarrow> u64 \<Rightarrow> member_roles option \<Rightarrow> bool" where
  "settled c st g u m \<longleftrightarrow>
     (\<forall>e mr. tget (rc_members c) (g, u) = Some e \<longrightarrow> me_roles e = Some mr \<longrightarrow> m = Some mr) \<and>
     (\<forall>r pk mp. registered (a_store st) g r \<longrightarrow> guild_view (a_presence st) g r pk = Some mp \<longrightarrow> mp_user_id mp = u \<longrightarrow> role_among r m)"

definition heard :: "u64 list list \<Rightarrow> role_caches \<Rightarrow> app \<Rightarrow> u64 \<Rightarrow> u64 \<Rightarrow> member_roles option \<Rightarrow> bool" where
  "heard ps c st g u m \<longleftrightarrow> (if ps = [] then settled c st g u m else \<forall>r\<in>set (last ps). role_among r m)"

definition world_ok :: "world \<Rightarrow> bool" where
  "world_ok w \<longleftrightarrow> presence_ok (a_presence (co_app (w_co w))) \<and> tok (rc_members (co_caches (w_co w))) \<and>
     (\<forall>g u. heard (pending g u (w_events w)) (co_caches (w_co w)) (co_app (w_co w)) g u (w_discord w g u))"

lemma heard_frame:
  "heard ps c st g u m \<Longrightarrow> (ps = [] \<Longrightarrow> settled c st g u m \<Longrightarrow> settled c' st' g u m) \<Longrightarrow> heard ps c' st' g u m"
  by (simp add: heard_def split: if_splits)

lemma world_okI:
  assumes "world_ok w" "w_events w' = w_events w" "w_discord w' = w_discord w" "presence_ok (a_presence (co_app (w_co w')))"
    "tok (rc_members (co_caches (w_co w')))"
    "\<And>g u. settled (co_caches (w_co w)) (co_app (w_co w)) g u (w_discord w g u) \<Longrightarrow>
       settled (co_caches (w_co w')) (co_app (w_co w')) g u (w_discord w g u)"
  shows "world_ok w'"
  unfolding world_ok_def
proof (intro conjI allI)
  fix g u
  have "heard (pending g u (w_events w)) (co_caches (w_co w)) (co_app (w_co w)) g u (w_discord w g u)"
    using assms(1) by (simp add: world_ok_def)
  then show "heard (pending g u (w_events w')) (co_caches (w_co w')) (co_app (w_co w')) g u (w_discord w' g u)"
    unfolding assms(2,3) by (rule heard_frame) (rule assms(6))
qed (use assms(4,5) in simp_all)

lemma settled_caches:
  assumes "settled c st g u m"
    "\<And>e mr. tget (rc_members c') (g, u) = Some e \<Longrightarrow> me_roles e = Some mr \<Longrightarrow> tget (rc_members c) (g, u) = Some e \<or> m = Some mr"
  shows "settled c' st g u m"
  using assms unfolding settled_def by blast

lemma settled_app:
  assumes "settled c st g u m"
    "\<And>r pk mp. registered (a_store st') g r \<Longrightarrow> guild_view (a_presence st') g r pk = Some mp \<Longrightarrow> mp_user_id mp = u \<Longrightarrow>
       registered (a_store st) g r \<and> guild_view (a_presence st) g r pk = Some mp \<or> role_among r m"
  shows "settled c st' g u m"
  using assms unfolding settled_def by blast

lemma src_member_answer:
  assumes "fst (src_member now (answers m reached) g u c) = Some mr"
  shows "m = Some mr \<or> (\<exists>e. tget (rc_members c) (g, u) = Some e \<and> me_roles e = Some mr)"
  using assms
  by (auto simp: src_member_def dedup_def answers_def member_cached_def split: option.splits if_splits member_reply.splits)

lemma src_member_fills:
  assumes "tok (rc_members c)" "tget (rc_members (snd (src_member now (answers m reached) g u c))) (g', u') = Some e" "me_roles e = Some mr"
  shows "tget (rc_members c) (g', u') = Some e \<or> g' = g \<and> u' = u \<and> m = Some mr"
proof (cases "snd (src_member now (answers m reached) g u c) = c")
  case False
  with src_member_state obtain roles where r: "says (answers m reached) roles"
    "snd (src_member now (answers m reached) g u c) = store_member now g u roles c" by blast
  from assms(2) have "tget (rc_members (store_member now g u roles c)) (g', u') = Some e" by (simp add: r(2))
  from store_member_get [OF assms(1) this] show ?thesis
    using r(1) assms(3) by (auto simp: says_def answers_def split: if_splits option.splits)
qed (use assms in simp)

lemma src_names_members:
  "rc_members (snd (src_guild_name now name g c)) = rc_members c"
  "rc_members (snd (src_role_name now names g r c)) = rc_members c"
  by (auto simp: src_guild_name_def src_role_name_def dedup_def split: option.split)

lemma serve_kept: "kept st (serve_request req st)"
proof (cases req)
  case (Opens ev rq ip)
  obtain x st' where "register_open ev rq ip st = (x, st')" by fastforce
  with Opens register_open_kept [OF this] show ?thesis by simp
next
  case (Resumes ev rq ip p)
  obtain x st' where "register_resume ev rq ip p st = (x, st')" by fastforce
  with Resumes register_resume_kept [OF this] show ?thesis by simp
next
  case (Manages rq)
  obtain x st' where "manage rq st = (x, st')" by fastforce
  with Manages manage_kept [OF this] show ?thesis by simp
qed

lemma with_roles_simps [simp]:
  "a_presence (co_app (with_roles ro co)) = a_presence (co_app co)" "a_signing (co_app (with_roles ro co)) = a_signing (co_app co)"
  "co_caches (with_roles ro co) = co_caches co" "a_roles (co_app (with_roles ro co)) = ro"
  by (simp_all add: with_roles_def)

lemma served_ok:
  assumes ok: "world_ok w"
  shows "world_ok (w\<lparr>w_co := (w_co w)\<lparr>co_app := serve_request req (co_app (with_roles (role_view now reached names roles w) (w_co w)))\<rparr>\<rparr>)"
proof -
  let ?ro = "role_view now reached names roles w"
  let ?st = "co_app (with_roles ?ro (w_co w))"
  let ?st' = "serve_request req ?st"
  have k: "kept ?st ?st'" by (rule serve_kept)
  have p: "presence_ok (a_presence (co_app (w_co w)))" using ok by (simp add: world_ok_def)
  have nets: "networks (a_store ?st') = networks (a_store (co_app (w_co w)))" and pok: "presence_ok (a_presence ?st')"
    using k p by (simp_all add: kept_def)
  have new: "guild_view (a_presence (co_app (w_co w))) g r pk = Some mp \<or> role_among r (ro_member ?ro g (mp_user_id mp))"
    if "guild_view (a_presence ?st') g r pk = Some mp" for g r pk mp
    using k p that unfolding kept_def by auto
  have "settled (co_caches (w_co w)) ?st' g u (w_discord w g u)" if s: "settled (co_caches (w_co w)) (co_app (w_co w)) g u (w_discord w g u)" for g u
  proof (rule settled_app [OF s])
    fix r pk mp assume r: "registered (a_store ?st') g r" and mp: "guild_view (a_presence ?st') g r pk = Some mp" "mp_user_id mp = u"
    have reg: "registered (a_store (co_app (w_co w))) g r" using r by (simp add: registered_def nets)
    have truth: "role_among r (w_discord w g u)" if held: "role_among r (ro_member ?ro g u)"
    proof -
      from held obtain mr where mr: "ro_member ?ro g u = Some mr" by (auto simp: role_among_def split: option.splits)
      then have "w_discord w g u = Some mr"
        using src_member_answer [of now "w_discord w g u" "reached g u" g u "co_caches (w_co w)" mr] s
        unfolding settled_def by (auto simp: role_view_def Let_def)
      with mr held show ?thesis by simp
    qed
    show "registered (a_store (co_app (w_co w))) g r \<and> guild_view (a_presence (co_app (w_co w))) g r pk = Some mp \<or> role_among r (w_discord w g u)"
      using new [OF mp(1)] reg truth mp(2) by auto
  qed
  then show ?thesis by (intro world_okI [OF ok]) (use ok pok in \<open>simp_all add: world_ok_def\<close>)
qed

lemma looked_ok:
  assumes ok: "world_ok w"
  shows "world_ok (w\<lparr>w_co := (w_co w)\<lparr>co_caches := snd (src_member now (answers (w_discord w g u) reached) g u (co_caches (w_co w)))\<rparr>\<rparr>)"
proof -
  let ?c = "co_caches (w_co w)" and ?c' = "snd (src_member now (answers (w_discord w g u) reached) g u (co_caches (w_co w)))"
  have tok: "tok (rc_members ?c)" using ok by (simp add: world_ok_def)
  have "tok (rc_members ?c')" using source_tok [OF tok, of "Look now g u (answers (w_discord w g u) reached)"] by simp
  moreover have "settled ?c' st g' u' (w_discord w g' u')" if "settled ?c st g' u' (w_discord w g' u')" for st g' u'
    by (rule settled_caches [OF that]) (use src_member_fills [OF tok] in blast)
  ultimately show ?thesis by (intro world_okI [OF ok]) (use ok in \<open>simp_all add: world_ok_def\<close>)
qed

lemma delivered_ok:
  assumes ok: "world_ok w" and ev: "w_events w = e # es" and co: "co = gateway_turn e (with_roles ro (w_co w))"
    and fresh: "new_networks_empty (co_app (w_co w)) (co_app co)"
  shows "world_ok (w\<lparr>w_co := co, w_events := es\<rparr>)"
proof (cases "\<exists>g u held. e = MemberUpdate g u held \<or> e = MemberRemove g u \<and> held = []")
  case True
  then obtain g u held where e: "e = MemberUpdate g u held \<or> e = MemberRemove g u \<and> held = []" by blast
  let ?co = "forget_roleless u (with_roles ro (w_co w))"
  have turn: "co = revoke g u held ?co" using e by (auto simp: co gateway_turn_def)
  have same: "a_presence (co_app ?co) = a_presence (co_app (w_co w))" "a_signing (co_app ?co) = a_signing (co_app (w_co w))"
    "co_caches ?co = co_caches (w_co w)" by (simp_all add: forget_roleless_def)
  have p: "presence_ok (a_presence (co_app ?co))" using ok by (simp add: same world_ok_def)
  note v = revoke_views [OF p, of g u held, folded turn, unfolded same]
  have pend: "pending g' u' (w_events w) = (if g' = g \<and> u' = u then held # pending g' u' es else pending g' u' es)" for g' u'
    using e by (auto simp: ev)
  have "heard (pending g' u' es) (co_caches co) (co_app co) g' u' (w_discord w g' u')" for g' u'
  proof (cases "g' = g \<and> u' = u")
    case True
    have h: "heard (held # pending g u es) (co_caches (w_co w)) (co_app (w_co w)) g u (w_discord w g u)"
      using ok pend [of g u] unfolding world_ok_def by metis
    show ?thesis
    proof (cases "pending g u es = []")
      case last: True
      with h have sub: "\<forall>r\<in>set held. role_among r (w_discord w g u)" by (simp add: heard_def)
      have "settled (co_caches co) (co_app co) g u (w_discord w g u)"
        unfolding settled_def
      proof (intro conjI allI impI)
        fix r pk mp assume "registered (a_store (co_app co)) g r" "guild_view (a_presence (co_app co)) g r pk = Some mp" "mp_user_id mp = u"
        then have "r \<in> set held" by (auto simp: v(3,5) lost_def split: option.splits if_splits)
        with sub show "role_among r (w_discord w g u)" by blast
      qed (use ok in \<open>simp add: v(7) src_forget_def world_ok_def\<close>)
      with last True show ?thesis by (simp add: heard_def)
    next
      case False
      with h True show ?thesis by (simp add: heard_def)
    qed
  next
    case False
    have h: "heard (pending g' u' es) (co_caches (w_co w)) (co_app (w_co w)) g' u' (w_discord w g' u')"
      using ok pend [of g' u'] False unfolding world_ok_def by metis
    then show ?thesis
    proof (rule heard_frame)
      assume s: "settled (co_caches (w_co w)) (co_app (w_co w)) g' u' (w_discord w g' u')"
      have "settled (co_caches co) (co_app (w_co w)) g' u' (w_discord w g' u')"
        by (rule settled_caches [OF s]) (use False in \<open>simp add: v(7) src_forget_def\<close>)
      then show "settled (co_caches co) (co_app co) g' u' (w_discord w g' u')"
        by (rule settled_app) (auto simp: v(3,5) split: option.splits if_splits)
    qed
  qed
  moreover have "tok (rc_members (co_caches co))" using ok by (simp add: v(7) src_forget_def world_ok_def)
  ultimately show ?thesis using v(1) by (simp add: world_ok_def)
next
  case False
  have frame: "pending g u (w_events w) = pending g u es" for g u using False by (cases e) (auto simp: ev)
  have caches: "co_caches co = co_caches (w_co w)" and pres: "a_presence (co_app co) = a_presence (co_app (w_co w))"
    using False by (cases e; auto simp: co gateway_turn_def interaction_presence)+
  have "settled (co_caches co) (co_app co) g u (w_discord w g u)" if "settled (co_caches (w_co w)) (co_app (w_co w)) g u (w_discord w g u)" for g u
    unfolding caches
  proof (rule settled_app [OF that])
    fix r pk mp assume "registered (a_store (co_app co)) g r" "guild_view (a_presence (co_app co)) g r pk = Some mp"
    then show "registered (a_store (co_app (w_co w))) g r \<and> guild_view (a_presence (co_app (w_co w))) g r pk = Some mp \<or> role_among r (w_discord w g u)"
      using fresh unfolding new_networks_empty_def pres by (metis option.distinct(1))
  qed
  then have "world_ok (w\<lparr>w_co := co\<rparr>)"
    by (intro world_okI [OF ok]) (use ok caches pres in \<open>simp_all add: world_ok_def\<close>)
  then show ?thesis by (simp add: world_ok_def frame)
qed

lemma role_among_None [simp]: "\<not> role_among r None"
  by (simp add: role_among_def)

lemma discord_ok:
  assumes ok: "world_ok w"
    and here: "heard (pending g u (w_events w @ [e])) (co_caches (w_co w)) (co_app (w_co w)) g u m"
    and other: "\<And>g' u'. (g', u') \<noteq> (g, u) \<Longrightarrow> pending g' u' [e] = []"
  shows "world_ok (w\<lparr>w_discord := (w_discord w)(g := (w_discord w g)(u := m)), w_events := w_events w @ [e]\<rparr>)"
proof -
  have "heard (pending g' u' (w_events w @ [e])) (co_caches (w_co w)) (co_app (w_co w)) g' u' (((w_discord w)(g := (w_discord w g)(u := m))) g' u')" for g' u'
    using here other [of g' u'] ok by (cases "(g', u') = (g, u)") (auto simp: world_ok_def pending_append)
  with ok show ?thesis by (simp add: world_ok_def)
qed

lemma world_step_ok: "world_step w w' \<Longrightarrow> world_ok w \<Longrightarrow> world_ok w'"
proof (induction rule: world_step.induct)
  case (joins w g u m)
  then have "heard (pending g u (w_events w)) (co_caches (w_co w)) (co_app (w_co w)) g u None" unfolding world_ok_def by metis
  then show ?case
    by (intro discord_ok joins) (auto simp: pending_append heard_def settled_def split: if_splits)
next
  case (changes w g u m0 m)
  then show ?case by (intro discord_ok changes) (auto simp: pending_append heard_def role_among_def)
next
  case (departs w g u m0)
  then show ?case by (intro discord_ok departs) (auto simp: pending_append heard_def)
next
  case (commands w key now ia)
  then show ?case by (simp add: world_ok_def pending_append)
next
  case (delivered w e es co now reached names roles)
  then show ?case by (blast intro: delivered_ok)
next
  case (looked w now g u reached)
  then show ?case by (rule looked_ok)
next
  case named
  then show ?case
    by (intro world_okI [OF named.prems]) (auto simp: world_ok_def settled_def src_names_members)
next
  case (served w req now reached names roles)
  then show ?case by (rule served_ok)
next
  case (reaped clock w ch p)
  then have p: "presence_ok (a_presence (co_app (w_co w)))" by (simp add: world_ok_def)
  have p': "p = snd (reap clock PRESENCE_TTL_SECS (a_presence (co_app (w_co w))))" using reaped.hyps by simp
  have pok: "presence_ok p" unfolding p' by (rule reaper.keeps_ok [OF p])
  have tok: "tok (pr_map (a_presence (co_app (w_co w))))" using p by (simp add: presence_ok_def)
  have view: "guild_view (a_presence (co_app (w_co w))) g r pk = Some mp" if "guild_view p g r pk = Some mp" for g r pk mp
    using that by (auto simp: p' reap_state guild_view_def tget_tkeep [OF tok] split: option.splits if_splits)
  let ?st = "(co_app (w_co w))\<lparr>a_presence := p, a_versions := bump_all ch (a_versions (co_app (w_co w)))\<rparr>"
  have "settled (co_caches (w_co w)) ?st g u (w_discord w g u)"
    if "settled (co_caches (w_co w)) (co_app (w_co w)) g u (w_discord w g u)" for g u
    by (rule settled_app [OF that]) (use view in simp)
  then show ?case
    by (intro world_okI [OF reaped.prems]) (use reaped.prems pok in \<open>simp_all add: world_ok_def\<close>)
qed

lemma booted_ok: "booted w \<Longrightarrow> world_ok w"
  by (auto simp: booted_def world_ok_def heard_def settled_def presence_ok_def new_role_caches_def guild_view_def no_presence_def)


subsection \<open>A member of the demo deployment, from boot to presence\<close>

definition demo_alice :: member_roles where
  "demo_alice = \<lparr>mr_username = ''alice'', mr_role_ids = [2]\<rparr>"

definition demo_discord :: "u64 \<Rightarrow> u64 \<Rightarrow> member_roles option" where
  "demo_discord = (\<lambda>g u. if g = 1 \<and> u = 7 then Some demo_alice else None)"

definition demo_boot :: "world" where
  "demo_boot = \<lparr>w_co = \<lparr>co_app = (demo_app demo_register_store)\<lparr>a_user_labels := [(7, ''alice'')]\<rparr>, co_caches = new_role_caches 0\<rparr>,
     w_discord = demo_discord, w_events = []\<rparr>"

definition demo_view :: role_source where
  "demo_view = role_view 0 (\<lambda>_ _. True) (\<lambda>_. None) (\<lambda>_. None) demo_boot"

definition demo_standing :: app where
  "demo_standing = (demo_app demo_register_store)\<lparr>a_user_labels := [(7, ''alice'')], a_roles := demo_view\<rparr>"

lemma demo_view_member: "ro_member demo_view 1 7 = Some demo_alice"
  by (simp add: demo_view_def role_view_def src_member_def guild_of_def PERSONAL_SCOPE_def dedup_def member_cached_def
      demo_boot_def new_role_caches_def answers_def demo_discord_def Let_def)

lemma demo_standing_user: "resolve_user ev demo_refresh demo_standing = (Inr (7, True), demo_standing)"
  by (simp add: resolve_user_def demo_refresh_def demo_standing_def demo_register_def demo_register_store_def empty_store_def
      device_owner_def find_device_row_def demo_row_def demo_key_def authenticate_enrolled_def device_auth_def
      decide_device_auth_def bindA_def demo_app_def new_signing_def ct_eq_def)

lemma demo_standing_device:
  "\<exists>dv st1. resolve_device snap_env demo_refresh 7 demo_nets [] (source_seen demo_refresh a demo_standing) =
     (Inr (dv, [(1, Some demo_alice)]), st1) \<and>
     a_roles st1 = demo_view \<and> a_presence st1 = no_presence \<and> a_user_labels st1 = [(7, ''alice'')]"
  using demo_index
  by (simp add: resolve_device_def bindA_def dbA_def liftA_def Let_def cached_member_def role_among_def allocate_device_def
      find_device_row_def demo_standing_def demo_app_def new_signing_def demo_register_store_def empty_store_def demo_row_def
      demo_refresh_def demo_register_def demo_key_def source_seen_def demo_view_member demo_alice_def tget_def tput_def set_store_def
      ensure_primary_def primary_pubkey_def pubkey_from_blob_def split: prod.split)

lemma demo_standing_membership:
  assumes "a_roles st = demo_view" "a_user_labels st = [(7, ''alice'')]" "a_presence st = no_presence"
  shows "\<exists>m ch st' mp. resolve_membership ev demo_refresh 7 demo_nets dev [(1, Some demo_alice)] [] st = (Inr (m, ch), st') \<and>
    guild_view (a_presence st') 1 2 (demo_key 1) = Some mp \<and> mp_user_id mp = 7"
  using assms
  by (auto simp: resolve_membership_def bindA_def visit_network_def cached_member_def Let_def app_user_label_def demo_alice_def
      join_network_def opted_out_def demo_refresh_def demo_register_def tget_def list_network_def empty_mship_def
      record_presence_def record_in_def no_presence_def stale_networks_def networks_of_def tkeys_def guild_view_def tput_def presence_of_def
      split: prod.splits)

lemma demo_standing_served:
  "\<exists>mp. guild_view (a_presence (serve_request (Resumes snap_env demo_refresh (V4 5) p) demo_standing)) 1 2 (demo_key 1) = Some mp \<and> mp_user_id mp = 7"
proof -
  have v: "validate_peer_reports demo_refresh = Inr ()"
    by (simp add: validate_peer_reports_def demo_refresh_def demo_register_def)
  have n: "networks_to_walk snap_env 7 (source_seen demo_refresh (V4 5) demo_standing) = demo_nets"
    by (simp add: networks_to_walk_def memo_fresh_def demo_standing_def demo_app_def demo_register_store_def
        all_networks_def new_signing_def empty_store_def)
  have walked: "\<not> memo_fresh 7 t (a_roleless demo_standing)" for t
    by (simp add: memo_fresh_def demo_standing_def demo_app_def)
  obtain dv st1 where 1: "resolve_device snap_env demo_refresh 7 demo_nets [] (source_seen demo_refresh (V4 5) demo_standing) =
     (Inr (dv, [(1, Some demo_alice)]), st1)" "a_roles st1 = demo_view" "a_presence st1 = no_presence" "a_user_labels st1 = [(7, ''alice'')]"
    using demo_standing_device by blast
  obtain m ch st2 mp where 2: "resolve_membership snap_env demo_refresh 7 demo_nets dv [(1, Some demo_alice)] [] st1 = (Inr (m, ch), st2)"
    "guild_view (a_presence st2) 1 2 (demo_key 1) = Some mp" "mp_user_id mp = 7"
    using demo_standing_membership [OF 1(2,4,3)] by blast
  obtain x st3 where 3: "record_caller snap_env demo_refresh 7 True True dv m ch st2 = (x, st3)" by fastforce
  have "guild_view (a_presence st3) 1 2 (demo_key 1) = Some mp"
    using 3 2(2) by (auto simp: record_caller_def record_own_device_def settle_def Let_def record_self_def record_in_def evict_self_def
        views_map split: prod.splits if_splits)
  moreover have caller: "snapshot_caller snap_env demo_refresh (V4 5) demo_standing = (x, st3)"
    using 3 by (simp add: snapshot_caller_def bindA_def v demo_standing_user n 1(1) demo_retire 2(1) liftA_def Let_def walked)
  moreover have "a_presence (serve_request (Resumes snap_env demo_refresh (V4 5) p) demo_standing) = a_presence st3"
  proof -
    obtain y st4 where b: "build_snapshot snap_env demo_refresh (V4 5) demo_standing = (y, st4)" by fastforce
    then have "quiet st3 st4"
      unfolding build_snapshot_def bindA_def caller
      by (auto split: sum.splits prod.splits dest!: snapshot_read_quiet snapshot_stamp_quiet intro: quiet_trans)
    with b show ?thesis by (simp add: register_resume_def leave_def quiet_def)
  qed
  ultimately show ?thesis using 2(3) by simp
qed


text \<open>Why the registry's new networks have to be empty: a role taken away while its network is not registered is not revoked.\<close>

lemma readded_network:
  assumes "presence_ok (a_presence (co_app co))" "\<not> registered (a_store (co_app co)) g r" "r \<noteq> g"
    "guild_view (a_presence (co_app co)) g r pk = Some mp"
  defines "gone \<equiv> gateway_turn (MemberRemove g (mp_user_id mp)) co"
  shows "\<exists>a st'. handle_network g [(''add'', OptSub [(''role'', OptRole r)])] (co_app gone) = (a, st') \<and>
    registered (a_store st') g r \<and> guild_view (a_presence st') g r pk = Some mp"
proof -
  have "presence_ok (a_presence (co_app (forget_roleless (mp_user_id mp) co)))" using assms(1) by (simp add: forget_roleless_def)
  from revoke_views(3) [OF this, of g "mp_user_id mp" "[]" g r pk] assms(2,4)
  have "guild_view (a_presence (co_app gone)) g r pk = Some mp"
    by (simp add: gone_def gateway_turn_def forget_roleless_def lost_def)
  with assms(3) show ?thesis by (auto simp: handle_network_def Let_def registered_def)
qed

text \<open>The shard is not asked for joins: the arm that would forget an absence never runs.\<close>

lemma join_unseen:
  "gateway_turn (MemberAdd g u) co = co \<and> member_cached now g u (co_caches (handle_event (MemberAdd g u) co)) = None \<and>
   \<not> memo_fresh u now (a_roleless (co_app (handle_event (MemberAdd g u) co)))"
  by (simp add: gateway_turn_def member_cached_def src_forget_def forget_roleless_def Let_def memo_fresh_def memo_forget_def)

text \<open>A lookup that Discord answered before a role was lost and that is stored after the event is served for its whole time.\<close>

lemma late_fill:
  assumes "tok (rc_members c)" "now < asked + MEMBER_TTL" "asked \<le> now"
  shows "member_cached now g u (store_member asked g u (Some old) (src_forget g u c)) = Some (Some old)"
  using assms
  by (auto simp: member_cached_def store_member_def src_forget_def Let_def tget_tkeep entry_fresh_def member_ttl_def MEMBER_TTL_def
      MEMBER_ABSENT_TTL_def secs_def)

end
