(* ===== verification/Setup.thy ===== *)
theory Setup
  imports PeerHealth Update Acme MeshNames Relay Register
begin

section \<open>Setting up the coordinator: \<open>config.rs\<close>, \<open>main.rs\<close>, \<open>oauth.rs\<close>, \<open>api/login.rs\<close>\<close>

text \<open>
  What the coordinator refuses of its configuration, the mesh range it takes, and the login that binds a device to a
  Discord account. The parsers of TOML, URLs, IP addresses and semantic versions are arguments, and so is Discord's answer to
  a token; \<open>debug\<close> is \<open>debug_assertions\<close>.
\<close>

definition MIN_ADMIN_TOKEN_BYTES :: nat where "MIN_ADMIN_TOKEN_BYTES = 32"
definition MAX_DNS_NAME_LEN :: nat where "MAX_DNS_NAME_LEN = 253"
definition MAX_DNS_LABEL_LEN :: nat where "MAX_DNS_LABEL_LEN = 63"
definition MIN_ATTESTATION_TTL_SECS :: "bool \<Rightarrow> u64" where "MIN_ATTESTATION_TTL_SECS debug = (if debug then 5 else 60)"
definition MAX_ATTESTATION_TTL_SECS :: u64 where "MAX_ATTESTATION_TTL_SECS = 7 * 24 * 60 * 60"
definition MAX_RELEASE_ARTIFACT_BYTES :: u64 where "MAX_RELEASE_ARTIFACT_BYTES = 1024 * 1024 * 1024"

datatype config_error =
    ProxyInRelease | ProxyNotHttp | ProxyNotLoopback string
  | DomainEmpty | DomainLong | DomainShort | LabelEmpty | LabelLong string | LabelChars string | LabelHyphen string
  | DomainIsAddress | SuffixReserved string | NoCerts
  | NotSemver string | BadUrl string | UrlNotHttps string | ArtifactSize u64 | PlatformTwice platform | BadDigest string
  | BadBlob | BlobVersion string
  | NoLongpolls | TooManyLongpolls | NoHeaderTime | TooFewConnections | TooManyConnections | TtlOutside u64 | TokenShort
  | CidrPrefix nat | CidrPublic

subsection \<open>\<open>[discord] api_proxy\<close>\<close>

text \<open>\<open>split('/').next()\<close>, and \<open>rsplit_once(':')\<close> with what is left of the last colon.\<close>

definition first_segment :: "string \<Rightarrow> string" where
  "first_segment s = takeWhile (\<lambda>c. c \<noteq> CHR ''/'') s"

definition before_last_colon :: "string \<Rightarrow> string option" where
  "before_last_colon s =
     (case dropWhile (\<lambda>c. c \<noteq> CHR '':'') (rev s) of [] \<Rightarrow> None | c # r \<Rightarrow> Some (rev r))"

definition proxy_host :: "string \<Rightarrow> string" where
  "proxy_host rest = (case before_last_colon (first_segment rest) of Some h \<Rightarrow> h | None \<Rightarrow> rest)"

definition unbracket :: "string \<Rightarrow> string" where
  "unbracket h = rev (dropWhile (\<lambda>c. c = CHR '']'') (rev (dropWhile (\<lambda>c. c = CHR ''['') h)))"

text \<open>\<open>loopback h\<close>: \<open>h\<close> parses as an IP address, and that is a loopback address.\<close>

definition validate_api_proxy :: "bool \<Rightarrow> (string \<Rightarrow> bool) \<Rightarrow> string \<Rightarrow> config_error + unit" where
  "validate_api_proxy debug loopback proxy =
     (if \<not> debug then Inl ProxyInRelease
      else if take 7 proxy \<noteq> ''http://'' then Inl ProxyNotHttp
      else let host = proxy_host (drop 7 proxy)
           in if host = ''localhost'' \<or> loopback (unbracket host) then Inr () else Inl (ProxyNotLoopback host))"

subsection \<open>\<open>[dns]\<close>\<close>

record dns_config =
  dc_domain :: string
  dc_max_certs_per_week :: u32

definition normalize :: "dns_config \<Rightarrow> dns_config" where
  "normalize d = d\<lparr>dc_domain := lower (trim_end_dot (trim (dc_domain d)))\<rparr>"

fun split_dots :: "string \<Rightarrow> string list" where
  "split_dots [] = [[]]"
| "split_dots (c # s) = (if c = dot then [] # split_dots s else (case split_dots s of l # ls \<Rightarrow> (c # l) # ls | [] \<Rightarrow> [[c]]))"

fun check_labels :: "string list \<Rightarrow> config_error + unit" where
  "check_labels [] = Inr ()"
| "check_labels (l # ls) =
     (if l = [] then Inl LabelEmpty
      else if MAX_DNS_LABEL_LEN < length l then Inl (LabelLong l)
      else if \<not> list_all (\<lambda>c. is_alnum c \<or> c = dash) l then Inl (LabelChars l)
      else if hd l = dash \<or> last l = dash then Inl (LabelHyphen l)
      else check_labels ls)"

definition UNISSUABLE_SUFFIXES :: "string list" where
  "UNISSUABLE_SUFFIXES = [''internal'', ''local'', ''localhost'', ''test'', ''example'', ''invalid'', ''onion'', ''alt'', ''home.arpa'']"

definition under_suffix :: "string \<Rightarrow> string \<Rightarrow> bool" where
  "under_suffix domain s \<longleftrightarrow> domain = s \<or> ends_with (dot # s) domain"

definition validate_dns :: "dns_config \<Rightarrow> config_error + unit" where
  "validate_dns d =
     (let domain = dc_domain d; labels = split_dots domain
      in if domain = [] then Inl DomainEmpty
         else if MAX_DNS_NAME_LEN < length domain then Inl DomainLong
         else if length labels < 2 then Inl DomainShort
         else bindR (check_labels labels) (\<lambda>_.
           if list_all is_digit (last labels) then Inl DomainIsAddress
           else case List.find (under_suffix domain) UNISSUABLE_SUFFIXES of
                  Some s \<Rightarrow> Inl (SuffixReserved s)
                | None \<Rightarrow> if dc_max_certs_per_week d = 0 then Inl NoCerts else Inr ()))"

subsection \<open>\<open>[release]\<close>\<close>

record artifact_config =
  ac_platform :: platform
  ac_url :: string
  ac_sha256 :: string
  ac_size :: u64

record release_config =
  rc_version :: string
  rc_artifacts :: "artifact_config list"
  rc_signed_blob :: "string option"

definition parse_sha256 :: "string \<Rightarrow> config_error + u8 list" where
  "parse_sha256 hex = (case parse_hex32 hex of Some b \<Rightarrow> Inr b | None \<Rightarrow> Inl (BadDigest hex))"

definition to_manifest :: "release_config \<Rightarrow> config_error + release_manifest" where
  "to_manifest rc =
     bindR (mapR (\<lambda>a. bindR (parse_sha256 (ac_sha256 a)) (\<lambda>d.
        Inr \<lparr>ra_platform = ac_platform a, ra_url = ac_url a, ra_sha256 = d, ra_size = ac_size a\<rparr>)) (rc_artifacts rc))
       (\<lambda>as. Inr \<lparr>rm_version = rc_version rc, rm_artifacts = as\<rparr>)"

text \<open>\<open>scheme\<close>: the scheme of a URL that parses.\<close>

fun check_artifacts :: "(string \<Rightarrow> string option) \<Rightarrow> platform list \<Rightarrow> artifact_config list \<Rightarrow> config_error + unit" where
  "check_artifacts scheme seen [] = Inr ()"
| "check_artifacts scheme seen (a # as) =
     (case scheme (ac_url a) of
        None \<Rightarrow> Inl (BadUrl (ac_url a))
      | Some s \<Rightarrow>
          if s \<noteq> ''https'' then Inl (UrlNotHttps (ac_url a))
          else if ac_size a = 0 \<or> MAX_RELEASE_ARTIFACT_BYTES < ac_size a then Inl (ArtifactSize (ac_size a))
          else if ac_platform a \<in> set seen then Inl (PlatformTwice (ac_platform a))
          else check_artifacts scheme (ac_platform a # seen) as)"

definition validate_release ::
  "(string \<Rightarrow> bool) \<Rightarrow> (string \<Rightarrow> string option) \<Rightarrow> (string \<Rightarrow> 'e + release_manifest) \<Rightarrow> release_config \<Rightarrow> config_error + unit" where
  "validate_release semver scheme peek rc =
     (if \<not> semver (rc_version rc) then Inl (NotSemver (rc_version rc))
      else bindR (check_artifacts scheme [] (rc_artifacts rc)) (\<lambda>_.
        case rc_signed_blob rc of
          None \<Rightarrow> Inr ()
        | Some blob \<Rightarrow>
            (case peek blob of
               Inl _ \<Rightarrow> Inl BadBlob
             | Inr m \<Rightarrow> if rm_version m \<noteq> rc_version rc then Inl (BlobVersion (rm_version m)) else Inr ())))"

definition build_release :: "release_config option \<Rightarrow> config_error + release_manifest option" where
  "build_release rel = (case rel of None \<Rightarrow> Inr None | Some rc \<Rightarrow> bindR (to_manifest rc) (\<lambda>m. Inr (Some m)))"

subsection \<open>\<open>Config::load\<close>, after the parser\<close>

record config =
  cf_cidr :: "ipv4net option"
  cf_max_longpolls :: nat
  cf_header_read_timeout_secs :: u64
  cf_max_connections :: nat
  cf_api_proxy :: "string option"
  cf_admin_token :: "string option"
  cf_release :: "release_config option"
  cf_dns :: "dns_config option"
  cf_attestation_ttl_secs :: u64

record 'e parsers =
  ps_debug :: bool
  ps_max_permits :: nat
  ps_loopback :: "string \<Rightarrow> bool"
  ps_semver :: "string \<Rightarrow> bool"
  ps_scheme :: "string \<Rightarrow> string option"
  ps_peek :: "string \<Rightarrow> 'e + release_manifest"

definition load :: "'e parsers \<Rightarrow> config \<Rightarrow> config_error + config" where
  "load ps parsed =
     (let cfg = parsed\<lparr>cf_dns := map_option normalize (cf_dns parsed)\<rparr>; ttl = cf_attestation_ttl_secs cfg
      in bindR (case cf_dns cfg of None \<Rightarrow> Inr () | Some d \<Rightarrow> validate_dns d) (\<lambda>_.
         if cf_max_longpolls cfg = 0 then Inl NoLongpolls
         else if ps_max_permits ps < cf_max_longpolls cfg then Inl TooManyLongpolls
         else if cf_header_read_timeout_secs cfg = 0 then Inl NoHeaderTime
         else if cf_max_connections cfg \<le> cf_max_longpolls cfg then Inl TooFewConnections
         else if ps_max_permits ps < cf_max_connections cfg then Inl TooManyConnections
         else if \<not> (MIN_ATTESTATION_TTL_SECS (ps_debug ps) \<le> ttl \<and> ttl \<le> MAX_ATTESTATION_TTL_SECS) then Inl (TtlOutside ttl)
         else bindR (case cf_api_proxy cfg of None \<Rightarrow> Inr () | Some p \<Rightarrow> validate_api_proxy (ps_debug ps) (ps_loopback ps) p) (\<lambda>_.
           if (case cf_admin_token cfg of None \<Rightarrow> False | Some t \<Rightarrow> length t < MIN_ADMIN_TOKEN_BYTES) then Inl TokenShort
           else bindR (case cf_release cfg of None \<Rightarrow> Inr () | Some rc \<Rightarrow> validate_release (ps_semver ps) (ps_scheme ps) (ps_peek ps) rc)
             (\<lambda>_. Inr cfg))))"

definition longpoll_hold_secs :: "u64 \<Rightarrow> u64" where
  "longpoll_hold_secs ttl = max (ttl div 2) 1"

subsection \<open>The mesh range\<close>

definition PRIVATE :: "ipv4net list" where
  "PRIVATE = [\<lparr>net_network = ipv4_octets 10 0 0 0, net_prefix = 8\<rparr>, \<lparr>net_network = ipv4_octets 172 16 0 0, net_prefix = 12\<rparr>,
     \<lparr>net_network = ipv4_octets 192 168 0 0, net_prefix = 16\<rparr>, \<lparr>net_network = ipv4_octets 100 64 0 0, net_prefix = 10\<rparr>]"

text \<open>\<open>Ipv4Net::contains\<close> of an address: between network and broadcast address.\<close>

definition net_contains :: "ipv4net \<Rightarrow> ipv4 \<Rightarrow> bool" where
  "net_contains n a \<longleftrightarrow> unat (net_network n) \<le> unat a \<and> unat a < unat (net_network n) + 2 ^ (32 - net_prefix n)"

definition validate_mesh_cidr :: "ipv4net \<Rightarrow> config_error + unit" where
  "validate_mesh_cidr n =
     (if \<not> (8 \<le> net_prefix n \<and> net_prefix n \<le> 30) then Inl (CidrPrefix (net_prefix n))
      else if \<not> list_ex (\<lambda>s. net_contains s (net_network n) \<and> net_prefix s \<le> net_prefix n) PRIVATE then Inl CidrPublic
      else Inr ())"

definition resolve_mesh_cidr :: "crypto \<Rightarrow> (u8 list \<Rightarrow> u64) \<Rightarrow> config \<Rightarrow> key \<Rightarrow> config_error + ipv4net" where
  "resolve_mesh_cidr c sip cfg seed =
     (case cf_cidr cfg of
        Some n \<Rightarrow> bindR (validate_mesh_cidr n) (\<lambda>_. Inr n)
      | None \<Rightarrow> Inr (default_cidr sip (ed_anchor c seed)))"

subsection \<open>Login\<close>

text \<open>
  The body of \<open>GET /oauth2/@me\<close> for a token, or nothing when the request fails. \<open>FakeOauth\<close> takes a token
  \<open>user:<id>\<close> at its word and is there with the fake role source only.
\<close>

record auth_info =
  ai_application :: string
  ai_scopes :: "string list"
  ai_user :: string
  ai_username :: string
  ai_global_name :: "string option"

record logged_in =
  li_user_id :: u64
  li_handle :: string

datatype login_error = Unverified | WrongAudience | NoIdentify | NotNumeric | NotFakeToken string

definition discord_verify :: "string \<Rightarrow> auth_info option \<Rightarrow> login_error + logged_in" where
  "discord_verify client_id reply =
     (case reply of
        None \<Rightarrow> Inl Unverified
      | Some info \<Rightarrow>
          if ai_application info \<noteq> client_id then Inl WrongAudience
          else if \<not> list_ex (\<lambda>s. s = ''identify'') (ai_scopes info) then Inl NoIdentify
          else (case parse_u64 (ai_user info) of
                  None \<Rightarrow> Inl NotNumeric
                | Some u \<Rightarrow> Inr \<lparr>li_user_id = u,
                    li_handle = (case ai_global_name info of Some g \<Rightarrow> if g = [] then ai_username info else g
                                 | None \<Rightarrow> ai_username info)\<rparr>))"

definition fake_verify :: "string \<Rightarrow> login_error + logged_in" where
  "fake_verify token =
     (case (if take 5 token = ''user:'' then parse_u64 (drop 5 token) else None) of
        None \<Rightarrow> Inl (NotFakeToken token)
      | Some u \<Rightarrow> Inr \<lparr>li_user_id = u, li_handle = ''user'' @ dec (unat u)\<rparr>)"

datatype provider = DiscordOauth string | FakeOauth

text \<open>\<open>discord token\<close>: what Discord answers to the token.\<close>

fun verify_login :: "(string \<Rightarrow> auth_info option) \<Rightarrow> provider \<Rightarrow> string \<Rightarrow> login_error + logged_in" where
  "verify_login discord (DiscordOauth client_id) token = discord_verify client_id (discord token)"
| "verify_login discord FakeOauth token = fake_verify token"

definition oauth_pkce_config :: "provider option \<Rightarrow> api_error + string \<times> bool" where
  "oauth_pkce_config oauth =
     (case oauth of
        None \<Rightarrow> Inl (ApiError SERVICE_UNAVAILABLE)
      | Some (DiscordOauth client_id) \<Rightarrow> Inr (client_id, False)
      | Some FakeOauth \<Rightarrow> Inr (''fake'', True))"

definition oauth_complete ::
  "(string \<Rightarrow> auth_info option) \<Rightarrow> provider option \<Rightarrow> u64 \<Rightarrow> key \<Rightarrow> string \<Rightarrow> store \<Rightarrow> (api_error + unit) \<times> store" where
  "oauth_complete discord oauth now pk token st =
     (case oauth of
        None \<Rightarrow> (Inl (ApiError SERVICE_UNAVAILABLE), st)
      | Some p \<Rightarrow>
          (case verify_login discord p token of
             Inl e \<Rightarrow> (Inl (ApiError UNAUTHORIZED), st)
           | Inr who \<Rightarrow> (Inr (), set_user_handle (li_user_id who) (li_handle who) (bind_oauth pk (li_user_id who) now st))))"

subsection \<open>What an accepted configuration guarantees\<close>

text \<open>
  Every address the deployment hands out is private: strictly inside one of the ranges of RFC 1918 and RFC 6598,
  whether the range is configured or derived from the anchor, and there is room for two devices at least.
\<close>

lemma aligned_inside:
  fixes a b h k :: nat
  assumes "2 ^ h dvd a" "2 ^ k dvd b" "h \<le> k" "b \<le> a" "a < b + 2 ^ k"
  shows "a + 2 ^ h \<le> b + 2 ^ k"
proof -
  have d: "(2::nat) ^ h dvd 2 ^ k" using assms(3) by (rule le_imp_power_dvd)
  then have "2 ^ h dvd b + 2 ^ k" using assms(2) by (meson dvd_add dvd_trans)
  with assms(1) have "2 ^ h dvd b + 2 ^ k - a" by (rule dvd_diff_nat [rotated])
  with assms(5) have "2 ^ h \<le> b + 2 ^ k - a" by (intro dvd_imp_le) simp_all
  with assms(5) show ?thesis by simp
qed

lemma private_ok: "\<forall>p\<in>set PRIVATE. net_ok p"
  by (simp add: PRIVATE_def net_ok_def ipv4_octets_def)

lemma default_blocks:
  "list_all (\<lambda>b. net_ok \<lparr>net_network = ipv4_octets 100 (64 + of_nat b) 0 0, net_prefix = 16\<rparr> \<and>
     net_contains \<lparr>net_network = ipv4_octets 100 64 0 0, net_prefix = 10\<rparr> (ipv4_octets 100 (64 + of_nat b) 0 0)) [0..<64]"
  by (simp add: upt_rec [of 0 64] upt_rec [of "Suc 0" 64] numeral_2_eq_2 [symmetric] upt_rec_numeral net_ok_def net_contains_def ipv4_octets_def)

lemma default_block:
  "b < 64 \<Longrightarrow> net_ok \<lparr>net_network = ipv4_octets 100 (64 + of_nat b) 0 0, net_prefix = 16\<rparr> \<and>
    net_contains \<lparr>net_network = ipv4_octets 100 64 0 0, net_prefix = 10\<rparr> (ipv4_octets 100 (64 + of_nat b) 0 0)"
  using default_blocks by (simp only: list_all_iff set_upt) auto

theorem mesh_range_private:
  assumes "resolve_mesh_cidr c sip cfg seed = Inr n" "\<forall>m. cf_cidr cfg = Some m \<longrightarrow> net_ok m" "index_is_valid n i"
  shows "(\<exists>p\<in>set PRIVATE. net_contains p (addr_from_index n i)) \<and> 2 \<le> unat (allocatable n)"
proof -
  obtain p where p: "p \<in> set PRIVATE" "net_contains p (net_network n)" "net_prefix p \<le> net_prefix n"
    and n: "net_ok n" "net_prefix n \<le> 30"
  proof (cases "cf_cidr cfg")
    case None
    let ?b = "unat (sip (ed_anchor c seed) mod 64)"
    have b: "?b < 64" by (simp add: unat_mod)
    have n: "n = \<lparr>net_network = ipv4_octets 100 (64 + of_nat ?b) 0 0, net_prefix = 16\<rparr>"
      using assms(1) None by (simp add: resolve_mesh_cidr_def default_cidr_def DEFAULT_PREFIX_def Let_def of_nat_unat)
    from default_block [OF b] have "net_ok n" "net_contains \<lparr>net_network = ipv4_octets 100 64 0 0, net_prefix = 10\<rparr> (net_network n)"
      unfolding n by simp_all
    then show thesis
      by (intro that [of "\<lparr>net_network = ipv4_octets 100 64 0 0, net_prefix = 10\<rparr>"]) (simp_all add: PRIVATE_def n)
  next
    case (Some m)
    with assms(1) have "n = m" "validate_mesh_cidr m = Inr ()" by (auto simp: resolve_mesh_cidr_def bindR_eq_Inr)
    with assms(2) Some that show thesis
      by (auto simp: validate_mesh_cidr_def list_ex_iff split: if_splits)
  qed
  have pk: "net_ok p" using private_ok p(1) by blast
  let ?h = "32 - net_prefix n" and ?k = "32 - net_prefix p"
  have "unat (net_network n) + 2 ^ ?h \<le> unat (net_network p) + 2 ^ ?k"
    by (rule aligned_inside) (use n pk p in \<open>auto simp: net_ok_def net_contains_def\<close>)
  moreover note addr_from_index_range [OF n(1) assms(3)]
  ultimately have "net_contains p (addr_from_index n i)" using p(2) by (simp add: net_contains_def)
  moreover have "(2::nat) ^ 2 \<le> 2 ^ ?h" by (rule power_increasing) (use n(2) in simp_all)
  then have "2 \<le> unat (allocatable n)" using unat_allocatable [of n] n(2) by simp
  ultimately show ?thesis using p(1) by blast
qed

text \<open>A domain that is accepted consists of lower-case labels of letters, digits and inner hyphens, and a CA may issue for it.\<close>

lemma check_labels_ok:
  "check_labels ls = Inr () \<longleftrightarrow> (\<forall>l\<in>set ls. l \<noteq> [] \<and> length l \<le> 63 \<and> (\<forall>c\<in>set l. is_alnum c \<or> c = dash) \<and> hd l \<noteq> dash \<and> last l \<noteq> dash)"
  by (induction ls) (auto simp: MAX_DNS_LABEL_LEN_def list_all_iff)

lemma split_dots_nonempty [simp]: "split_dots s \<noteq> []"
  by (cases s) (auto split: list.split)

lemma split_dots_chars: "(\<Union>l\<in>set (split_dots s). set l) \<subseteq> set s"
proof (induction s)
  case (Cons a s)
  then show ?case by (cases "split_dots s") auto
qed simp

theorem dns_domain_sound:
  assumes "load ps parsed = Inr cfg" "cf_dns cfg = Some d"
  shows "length (dc_domain d) \<le> 253 \<and> 2 \<le> length (split_dots (dc_domain d)) \<and>
    (\<forall>l\<in>set (split_dots (dc_domain d)). l \<noteq> [] \<and> length l \<le> 63 \<and> hd l \<noteq> dash \<and> last l \<noteq> dash \<and>
       (\<forall>c\<in>set l. is_digit c \<or> is_lower c \<or> c = dash)) \<and>
    (\<forall>s\<in>set UNISSUABLE_SUFFIXES. \<not> under_suffix (dc_domain d) s) \<and> dc_max_certs_per_week d \<noteq> 0"
proof -
  have cfg: "cfg = parsed\<lparr>cf_dns := map_option normalize (cf_dns parsed)\<rparr>" and v: "validate_dns d = Inr ()"
    using assms by (auto simp: load_def Let_def bindR_eq_Inr split: if_splits option.splits)
  then obtain d0 where d0: "d = normalize d0" using assms(2) by auto
  have lower: "\<not> is_upper c" if "c \<in> set (dc_domain d)" for c
    using that by (auto simp: d0 normalize_def lower_def)
  have labels: "check_labels (split_dots (dc_domain d)) = Inr ()" and len: "length (dc_domain d) \<le> 253" "2 \<le> length (split_dots (dc_domain d))"
    and issuable: "List.find (under_suffix (dc_domain d)) UNISSUABLE_SUFFIXES = None" "dc_max_certs_per_week d \<noteq> 0"
    using v by (auto simp: validate_dns_def Let_def bindR_eq_Inr MAX_DNS_NAME_LEN_def split: if_splits option.splits)
  have "is_digit c \<or> is_lower c \<or> c = dash" if "l \<in> set (split_dots (dc_domain d))" "c \<in> set l" for l c
  proof -
    have "c \<in> set (dc_domain d)" using split_dots_chars [of "dc_domain d"] that by blast
    with that labels lower show ?thesis by (auto simp: check_labels_ok is_alnum_def)
  qed
  with labels len issuable show ?thesis by (auto simp: check_labels_ok find_None_iff)
qed

subsection \<open>Who a login binds\<close>

text \<open>
  A device is bound to an account only by a token Discord says was issued to this deployment's application with the
  scope \<open>identify\<close>, and to the account Discord names; a refused token changes nothing, and no binding of another
  account to another device is touched.\<close>

theorem login_binds:
  assumes "oauth_inv st" "\<forall>r\<in>set (oauth_authorized st). oa_bound_at r \<le> as_i64 now"
    "oauth_complete discord (Some (DiscordOauth client_id)) now pk token st = (res, st')"
  shows "case res of
      Inl e \<Rightarrow> st' = st
    | Inr _ \<Rightarrow> \<exists>info u. discord token = Some info \<and> ai_application info = client_id \<and> ''identify'' \<in> set (ai_scopes info) \<and>
        parse_u64 (ai_user info) = Some u \<and> oauth_user st' pk = Some u \<and> oauth_inv st' \<and>
        (\<forall>r. oa_user r \<noteq> u \<and> oa_pubkey r \<noteq> pk \<longrightarrow> (r \<in> set (oauth_authorized st') \<longleftrightarrow> r \<in> set (oauth_authorized st)))"
proof (cases res)
  case (Inl e)
  with assms(3) show ?thesis by (auto simp: oauth_complete_def split: sum.splits)
next
  case (Inr x)
  with assms(3) obtain who where who: "discord_verify client_id (discord token) = Inr who"
    "st' = set_user_handle (li_user_id who) (li_handle who) (bind_oauth pk (li_user_id who) now st)"
    by (auto simp: oauth_complete_def split: sum.splits)
  then obtain info where info: "discord token = Some info" "ai_application info = client_id" "''identify'' \<in> set (ai_scopes info)"
    "parse_u64 (ai_user info) = Some (li_user_id who)"
    by (auto simp: discord_verify_def list_ex_iff split: option.splits if_splits)
  have keep: "oauth_authorized st' = oauth_authorized (bind_oauth pk (li_user_id who) now st)"
    by (simp add: who(2) set_user_handle_def)
  then have "oauth_user st' pk = oauth_user (bind_oauth pk (li_user_id who) now st) pk"
    "oauth_inv st' = oauth_inv (bind_oauth pk (li_user_id who) now st)"
    by (simp_all add: oauth_user_def oauth_inv_def)
  with bind_oauth_spec [OF assms(1,2), of pk "li_user_id who"] info keep Inr show ?thesis by auto
qed

subsection \<open>What an accepted configuration does not guarantee\<close>

text \<open>The proxy check reads a host that the URL does not have: what stands before an \<open>@\<close> is user information.\<close>

definition url_host :: "string \<Rightarrow> string" where
  "url_host rest = (let a = first_segment rest; h = (case dropWhile (\<lambda>c. c \<noteq> CHR ''@'') a of [] \<Rightarrow> a | _ # r \<Rightarrow> r)
     in takeWhile (\<lambda>c. c \<noteq> CHR '':'') h)"

lemma proxy_fence_bypassed:
  assumes "loopback ''127.0.0.1''"
  shows "validate_api_proxy True loopback ''http://127.0.0.1:80@evil.example'' = Inr () \<and>
    url_host (drop 7 ''http://127.0.0.1:80@evil.example'') = ''evil.example''"
  using assms
  by (simp add: validate_api_proxy_def proxy_host_def before_last_colon_def first_segment_def unbracket_def Let_def url_host_def)

text \<open>An artifact of 600 MiB is offered, and every client refuses it before the download.\<close>

lemma oversized_artifact:
  assumes "scheme (ac_url a) = Some ''https''" "ac_size a = 600 * 1024 * 1024" "rc_artifacts rc = [a]" "rc_signed_blob rc = None"
    "semver (rc_version rc)" "to_manifest rc = Inr m" "take 8 (ac_url a) = ''https://''"
  shows "validate_release semver scheme peek rc = Inr () \<and>
    (\<forall>ra\<in>set (rm_artifacts m). download_verified sha256 fetch ra = Inl (TooLarge (600 * 1024 * 1024)))"
  using assms
  by (auto simp: validate_release_def MAX_RELEASE_ARTIFACT_BYTES_def to_manifest_def bindR_eq_Inr download_verified_def MAX_UPDATE_BYTES_def)

text \<open>With a lifetime of a hold or less, a grant is stale when it is issued: every refresh asks anew and none is parked.\<close>

lemma short_ttl_never_parks:
  assumes "ttl \<le> LONGPOLL_HOLD_SECS" "issued \<le> now" "unat now + 900 < 2 ^ 64" "se_grant_expires_at d = issued + ttl"
  shows "hr_since (plan_refresh sent cur (Some d) seeds now since held) = None \<and>
    (rq_since req = None \<longrightarrow> decide_park req due b st = (Inr (Answered (bt_resp b)), st))"
proof -
  have hold: "unat LONGPOLL_HOLD_SECS = 900" by (simp add: LONGPOLL_HOLD_SECS_def ATTESTATION_TTL_SECS_def)
  have "unat ttl \<le> 900" "unat issued \<le> unat now" using assms(1,2) hold by (simp_all add: word_le_nat_alt)
  then have "unat (issued + ttl) = unat issued + unat ttl" "unat (now + LONGPOLL_HOLD_SECS) = unat now + 900"
    using assms(3) hold by (simp_all add: unat_word_ariths)
  then have "own_grant_stale (Some d) now"
    using \<open>unat ttl \<le> 900\<close> \<open>unat issued \<le> unat now\<close> assms(4) by (simp add: own_grant_stale_def word_le_nat_alt)
  then show ?thesis by (auto simp: plan_refresh_def decide_park_def Let_def)
qed

text \<open>A domain as long as a name may be is accepted, and no name under it fits.\<close>

definition long_domain :: string where
  "long_domain = replicate 63 CHR ''z'' @ dot # replicate 63 CHR ''z'' @ dot # replicate 63 CHR ''z'' @ dot # replicate 61 CHR ''z''"

lemma split_dots_label: "dot \<notin> set l \<Longrightarrow> split_dots l = [l]"
  by (induction l) auto

lemma split_dots_cons: "dot \<notin> set l \<Longrightarrow> split_dots (l @ dot # s) = l # split_dots s"
  by (induction l) auto

lemma domain_leaves_no_room:
  "validate_dns \<lparr>dc_domain = long_domain, dc_max_certs_per_week = 40\<rparr> = Inr () \<and> 253 < length (challenge_name name long_domain)"
proof -
  have a: "CHR ''z'' \<noteq> dot" "is_alnum CHR ''z''" "CHR ''z'' \<noteq> dash" "\<not> is_digit CHR ''z''"
    by (simp_all add: dot_def is_alnum_def is_lower_def dash_def is_digit_def)
  have split: "split_dots long_domain = [replicate 63 CHR ''z'', replicate 63 CHR ''z'', replicate 63 CHR ''z'', replicate 61 CHR ''z'']"
    using a(1) by (simp add: long_domain_def split_dots_cons split_dots_label)
  have "check_labels (split_dots long_domain) = Inr ()"
    unfolding split check_labels_ok using a by (auto simp: hd_replicate last_replicate)
  moreover have len: "length long_domain = 253" by (simp add: long_domain_def)
  moreover have "under_suffix long_domain s = False" if "s \<in> set UNISSUABLE_SUFFIXES" for s
  proof -
    have l: "last long_domain = CHR ''z''" by (simp add: long_domain_def)
    have "s \<noteq> []" "last s \<noteq> CHR ''z''" "length s < 253" using that by (auto simp: UNISSUABLE_SUFFIXES_def)
    moreover from this l have "strip_suffix (dot # s) long_domain = None"
    proof (cases "strip_suffix (dot # s) long_domain")
      case (Some t)
      then have "long_domain = t @ dot # s" by (simp add: strip_suffix_Some)
      then have "last long_domain = last s" using \<open>s \<noteq> []\<close> by (metis last_ConsR last_appendR list.distinct(1))
      with l \<open>last s \<noteq> CHR ''z''\<close> show ?thesis by simp
    qed
    ultimately show ?thesis using len by (auto simp: under_suffix_def ends_with_def)
  qed
  moreover have "List.find (under_suffix long_domain) UNISSUABLE_SUFFIXES = None"
    using calculation(3) by (simp add: find_None_iff)
  moreover have "\<not> list_all is_digit (replicate 61 CHR ''z'')" "long_domain \<noteq> []"
    using a(4) len by (auto simp: list_all_iff)
  ultimately show ?thesis
    by (simp add: validate_dns_def Let_def MAX_DNS_NAME_LEN_def split challenge_name_def lower_def del: check_labels.simps)
qed

end
